(* ===== verification/Prelude.thy ===== *)
theory Prelude
  imports Main "HOL-Library.Word"
begin

text \<open>
  Shared vocabulary of the development: the C integer types as words, the lemma
  collections the component theories extend, and the generic facts about words, lists and
  circular buffers that every component uses.

  A C \<open>uintN_t\<close> is an \<open>N word\<close>; \<open>int64_t\<close> is a \<open>64 word\<close> read with \<open>sint\<close>.
  A C \<open>int\<close> used as a return code is an \<open>int\<close>. A C array is a list of fixed length.
  An \<open>out\<close> parameter is an \<open>option\<close> in the result: \<open>None\<close> means that the callee did not
  write through the pointer.
\<close>

unbundle bit_operations_syntax

type_synonym u8 = "8 word"
type_synonym u16 = "16 word"
type_synonym u32 = "32 word"
type_synonym u64 = "64 word"
type_synonym i64 = "64 word"

text \<open>A \<open>float\<close> the code only stores and copies is kept as its 32-bit pattern.\<close>

type_synonym f32_bits = "32 word"

abbreviation UINT32_MAX :: u32 where
  "UINT32_MAX \<equiv> 0xFFFFFFFF"

abbreviation UINT64_MAX :: u64 where
  "UINT64_MAX \<equiv> 0xFFFFFFFFFFFFFFFF"

text \<open>The remainder of C's \<open>int\<close> division truncates towards zero.\<close>

definition c_rem :: "int \<Rightarrow> int \<Rightarrow> int" where
  "c_rem a b = sgn a * (\<bar>a\<bar> mod \<bar>b\<bar>)"

text \<open>Widening a field and reading it back loses nothing.\<close>

lemma ucast_narrow [simp]:
  "ucast (ucast (w :: u32) :: u64) = w"
  "ucast (ucast (v :: u16) :: u32) = v"
  "ucast (ucast (u :: u8) :: u32) = u"
  "ucast (ucast (x :: u8) :: u16) = x"
  by (auto intro!: bit_word_eqI simp: bit_simps)

text \<open>The models name intermediate loads with \<open>let\<close>, as the code does; proofs unfold them.\<close>

declare Let_def [simp]

named_theorems ring_simps \<open>contents of a circular buffer after a push or a pop\<close>
named_theorems bitmap_simps \<open>free sets of bitmaps after an allocation or a release\<close>
named_theorems layout_defs \<open>field lists of packed structures\<close>

section \<open>Circular buffers with free-running 32-bit indices\<close>

text \<open>
  Every ring of the runtime keeps two free-running \<open>uint32_t\<close> counters and an array whose
  length is a power of two. The number of stored elements is the wrapped difference of the
  counters; the element with counter value \<open>c\<close> is stored at \<open>c mod N\<close>.
\<close>

definition ring_contents :: "'a list \<Rightarrow> u32 \<Rightarrow> u32 \<Rightarrow> 'a list" where
  "ring_contents slots h t =
     map (\<lambda>i. slots ! ((unat h + i) mod length slots)) [0..<unat (t - h)]"

definition ring_size_ok :: "nat \<Rightarrow> bool" where
  "ring_size_ok N \<longleftrightarrow> 0 < N \<and> N < 2 ^ 32 \<and> N dvd 2 ^ 32"

definition ring_wf :: "nat \<Rightarrow> 'a list \<Rightarrow> u32 \<Rightarrow> u32 \<Rightarrow> bool" where
  "ring_wf N slots h t \<longleftrightarrow> length slots = N \<and> unat (t - h) \<le> N"

lemma ring_size_okI:
  assumes "k < 32" "N = 2 ^ k"
  shows "ring_size_ok N"
proof -
  have "(2::nat) ^ k < 2 ^ 32" using assms(1) by (intro power_strict_increasing) simp_all
  moreover have "(2::nat) ^ k dvd 2 ^ 32" using assms(1) by (intro le_imp_power_dvd) simp
  ultimately show ?thesis unfolding ring_size_ok_def assms(2) by simp
qed

lemma length_ring_contents [simp]: "length (ring_contents slots h t) = unat (t - h)"
  by (simp add: ring_contents_def)

lemma unat_diff_0_iff [simp]: "unat (t - h :: u32) = 0 \<longleftrightarrow> h = t"
  by (auto simp: unat_eq_0)

lemma ring_contents_Nil_iff: "ring_contents slots h t = [] \<longleftrightarrow> h = t"
  by (simp add: ring_contents_def)

lemma unat_and_mask: "unat (i AND (2 ^ k - 1) :: 'a :: len word) = unat i mod 2 ^ k"
proof -
  have "i AND (2 ^ k - 1) = take_bit k i"
    by (simp add: take_bit_eq_mask mask_eq_exp_minus_1)
  then have "unat (i AND (2 ^ k - 1)) = take_bit k (unat i)"
    by (simp only: unsigned_take_bit_eq)
  then show ?thesis by (simp only: take_bit_eq_mod)
qed

lemma unat_add1: "unat (x + 1 :: u32) = (unat x + 1) mod 2 ^ 32"
  by (simp add: unat_word_ariths)

lemma unat_lt32: "unat (x :: u32) < 2 ^ 32"
  using unsigned_less [of x] by simp

lemma unat_Suc_diff:
  fixes t h :: u32
  assumes "unat (t - h) < 2 ^ 32 - 1"
  shows "unat (t + 1 - h) = Suc (unat (t - h))"
proof -
  have "t + 1 - h = (t - h) + 1" by simp
  then have "unat (t + 1 - h) = (unat (t - h) + 1) mod 2 ^ 32"
    by (simp only: unat_add1)
  then show ?thesis using assms by simp
qed

lemma unat_diff_pop:
  fixes t h :: u32
  assumes "h \<noteq> t"
  shows "unat (t - h) = Suc (unat (t - (h + 1)))"
proof -
  let ?d = "t - (h + 1)"
  have eq: "t - h = ?d + 1" by simp
  have "unat ?d \<noteq> 2 ^ 32 - 1"
  proof
    assume "unat ?d = 2 ^ 32 - 1"
    then have "unat (?d + 1) = 0" unfolding unat_add1 by simp
    then have "unat (t - h) = 0" unfolding eq .
    with assms show False by simp
  qed
  then have "unat (?d + 1) = Suc (unat ?d)"
    using unat_lt32 [of ?d] unfolding unat_add1 by simp
  then show ?thesis unfolding eq .
qed

lemma unat_eq_mod_diff:
  fixes t h :: u32
  assumes "ring_size_ok N"
  shows "unat t mod N = (unat h + unat (t - h)) mod N"
proof -
  have "unat (h + (t - h)) = (unat h + unat (t - h)) mod 2 ^ 32"
    by (simp only: unat_word_ariths) simp
  then have "unat t = (unat h + unat (t - h)) mod 2 ^ 32" by simp
  then show ?thesis
    using assms by (simp only: ring_size_ok_def mod_mod_cancel)
qed

lemma unat_Suc_mod:
  fixes h :: u32
  assumes "ring_size_ok N"
  shows "(unat (h + 1) + i) mod N = (unat h + Suc i) mod N"
proof -
  have "unat (h + 1) mod N = (unat h + 1) mod N"
    using assms by (simp only: ring_size_ok_def mod_mod_cancel unat_add1)
  then have "(unat (h + 1) + i) mod N = (unat h + 1 + i) mod N"
    by (metis mod_add_cong)
  then show ?thesis by simp
qed

lemma mod_add_inj_le:
  fixes a i j N :: nat
  assumes "(a + i) mod N = (a + j) mod N" "i \<le> j" "j < N"
  shows "i = j"
proof -
  from assms(1,2) have "N dvd (a + j) - (a + i)"
    by (metis add_le_cancel_left mod_eq_dvd_iff_nat)
  then have "N dvd j - i" by simp
  with assms(2,3) show ?thesis
    by (metis diff_diff_cancel diff_is_0_eq' diff_zero dvd_imp_le less_imp_diff_less
        linorder_not_less zero_less_diff nle_le)
qed

lemma mod_add_inj:
  fixes a i j N :: nat
  assumes "(a + i) mod N = (a + j) mod N" "i < N" "j < N"
  shows "i = j"
  using mod_add_inj_le [of a i N j] mod_add_inj_le [of a j N i] assms
  by (metis nle_le)

text \<open>Writing the slot of the producer index appends; dropping the consumer index pops.\<close>

lemma ring_contents_write:
  assumes N: "ring_size_ok N" and len: "length slots = N" and room: "unat (t - h) < N"
  shows "ring_contents (slots[unat t mod N := x]) h t = ring_contents slots h t"
proof -
  let ?n = "unat (t - h)"
  have t: "unat t mod N = (unat h + ?n) mod N" by (rule unat_eq_mod_diff [OF N])
  have "(slots[unat t mod N := x]) ! ((unat h + i) mod N) = slots ! ((unat h + i) mod N)"
    if "i < ?n" for i
  proof -
    have "(unat h + ?n) mod N \<noteq> (unat h + i) mod N"
      using mod_add_inj [of "unat h" i N ?n] that room by auto
    then show ?thesis unfolding t by simp
  qed
  then show ?thesis by (simp add: ring_contents_def len)
qed

lemma ring_contents_extend:
  assumes N: "ring_size_ok N" and len: "length slots = N" and room: "unat (t - h) < N"
  shows "ring_contents slots h (t + 1) = ring_contents slots h t @ [slots ! (unat t mod N)]"
proof -
  have "unat (t + 1 - h) = Suc (unat (t - h))"
    using N room by (intro unat_Suc_diff) (simp add: ring_size_ok_def)
  then show ?thesis
    by (simp add: ring_contents_def len unat_eq_mod_diff [OF N, of t h])
qed

lemma ring_contents_push [ring_simps]:
  assumes N: "ring_size_ok N" and len: "length slots = N" and room: "unat (t - h) < N"
  shows "ring_contents (slots[unat t mod N := x]) h (t + 1) = ring_contents slots h t @ [x]"
  using ring_contents_extend [of N "slots[unat t mod N := x]" t h] ring_contents_write [OF assms]
    assms by (simp add: ring_size_ok_def)

lemma ring_contents_pop [ring_simps]:
  assumes N: "ring_size_ok N" and len: "length slots = N" and ne: "h \<noteq> t"
  shows "ring_contents slots h t = slots ! (unat h mod N) # ring_contents slots (h + 1) t"
proof -
  have "ring_contents slots h t =
    map (\<lambda>i. slots ! ((unat h + i) mod N)) (0 # map Suc [0..<unat (t - (h + 1))])"
    unfolding ring_contents_def unat_diff_pop [OF ne] len
    by (simp only: upt_conv_Cons map_Suc_upt zero_less_Suc)
  also have "\<dots> = slots ! (unat h mod N) # ring_contents slots (h + 1) t"
    by (simp add: ring_contents_def len unat_Suc_mod [OF N])
  finally show ?thesis .
qed

lemma ring_wf_length: "ring_wf N slots h t \<Longrightarrow> length slots = N"
  by (simp add: ring_wf_def)

lemma ring_wf_push:
  assumes "ring_size_ok N" "ring_wf N slots h t" "unat (t - h) < N"
  shows "ring_wf N (slots[i := x]) h (t + 1)"
  using assms unat_Suc_diff [of t h] by (simp add: ring_wf_def ring_size_ok_def)

lemma ring_wf_pop:
  assumes "ring_wf N slots h t" "h \<noteq> t"
  shows "ring_wf N slots (h + 1) t"
  using assms unat_diff_pop [of h t] by (simp add: ring_wf_def)

text \<open>A window of several slots written behind the producer index and published at once.\<close>

lemma unat_add_nat_diff:
  fixes t h :: u32
  assumes "unat (t - h) + k < 2 ^ 32"
  shows "unat (t + of_nat k - h) = unat (t - h) + k"
proof -
  have "t + of_nat k - h = (t - h) + of_nat k" by simp
  moreover have "unat (of_nat k :: u32) = k"
    using assms by (simp add: unat_of_nat)
  ultimately show ?thesis using assms by (simp only: unat_word_ariths) simp
qed

lemma unat_add_nat_mod:
  fixes t :: u32
  assumes "ring_size_ok N"
  shows "unat (t + of_nat k) mod N = (unat t + k) mod N"
proof -
  have "unat (t + of_nat k) = (unat t + k) mod 2 ^ 32"
    by (simp add: unat_word_ariths unat_of_nat mod_add_right_eq)
  then show ?thesis using assms by (simp only: ring_size_ok_def mod_mod_cancel)
qed

lemma window_full:
  fixes c d n :: u32
  assumes "unat d \<le> unat c" "unat c < unat d + unat n"
  shows "c - d < n"
  using assms by (simp add: word_less_nat_alt unat_sub word_le_nat_alt)

lemma window_free:
  fixes c d n :: u32
  assumes "unat d + unat n \<le> unat c"
  shows "\<not> c - d < n"
  using assms by (simp add: word_less_nat_alt unat_sub word_le_nat_alt not_less)

lemma length_fold_update [simp]:
  "length (fold (\<lambda>i s. s[g i := f i]) is slots) = length slots"
  by (induction "is" arbitrary: slots) auto

lemma ring_contents_write_many [ring_simps]:
  assumes N: "ring_size_ok N" and len: "length slots = N" and room: "unat (t - h) + k \<le> N"
  shows "ring_contents (fold (\<lambda>i s. s[(unat t + i) mod N := f i]) [0..<k] slots) h (t + of_nat k) =
    ring_contents slots h t @ map f [0..<k]"
  using room
proof (induction k)
  case 0
  then show ?case by simp
next
  case (Suc k)
  let ?s = "fold (\<lambda>i s. s[(unat t + i) mod N := f i]) [0..<k] slots"
  let ?t = "t + of_nat k :: u32"
  have "N < 2 ^ 32" using N by (simp add: ring_size_ok_def)
  then have "unat (?t - h) = unat (t - h) + k"
    using Suc.prems by (intro unat_add_nat_diff) simp
  then have room: "unat (?t - h) < N" using Suc.prems by simp
  have "ring_contents (?s[unat ?t mod N := f k]) h (?t + 1) = ring_contents ?s h ?t @ [f k]"
    by (rule ring_contents_push [OF N _ room]) (simp add: len)
  moreover have "t + of_nat (Suc k) = ?t + 1" by (simp add: add.assoc)
  ultimately show ?case
    using Suc.IH Suc.prems by (simp add: unat_add_nat_mod [OF N] ac_simps)
qed

end
