(* ===== verification/Fifo_Spec.thy ===== *)
theory Fifo_Spec
  imports Prelude
begin

text \<open>
  The contract every ring of the runtime promises to its clients: a bounded first-in
  first-out queue. \<open>spec_push\<close> and \<open>spec_pop\<close> are the abstract operations on lists,
  \<open>ring_run\<close> interprets a sequence of producer and consumer operations and records what a
  client observes. The locale \<open>fifo_ring\<close> states what a concrete ring has to provide, and
  its lemmas lift the laws of single operations to whole runs.

  A ring whose emptiness test compares the two counters with \<open>>=\<close> keeps the contract only
  until its producer counter reaches \<open>UINT32_MAX\<close>. The parameter \<open>ok n r\<close> says that ring
  \<open>r\<close> can still take \<open>n\<close> pushes before that happens; the locale \<open>total_fifo_ring\<close> is the
  case without such a budget.
\<close>

section \<open>Abstract queue and observable runs\<close>

datatype 'a ring_op = Push 'a | Pop

datatype 'a ring_event = Accepted 'a | Rejected 'a | Delivered 'a | Empty

definition spec_push :: "nat \<Rightarrow> 'a list \<Rightarrow> 'a \<Rightarrow> bool \<times> 'a list" where
  "spec_push cap q x = (if length q < cap then (True, q @ [x]) else (False, q))"

definition spec_pop :: "'a list \<Rightarrow> 'a option \<times> 'a list" where
  "spec_pop q = (case q of [] \<Rightarrow> (None, []) | x # xs \<Rightarrow> (Some x, xs))"

fun ring_run ::
  "('r \<Rightarrow> 'a \<Rightarrow> bool \<times> 'r) \<Rightarrow> ('r \<Rightarrow> 'a option \<times> 'r) \<Rightarrow> 'a ring_op list \<Rightarrow> 'r
    \<Rightarrow> 'a ring_event list \<times> 'r" where
  "ring_run push pop [] r = ([], r)"
| "ring_run push pop (Push x # ops) r =
     (let (b, r1) = push r x; (evs, r2) = ring_run push pop ops r1
      in ((if b then Accepted x else Rejected x) # evs, r2))"
| "ring_run push pop (Pop # ops) r =
     (let (y, r1) = pop r; (evs, r2) = ring_run push pop ops r1
      in ((case y of None \<Rightarrow> Empty | Some x \<Rightarrow> Delivered x) # evs, r2))"

fun pushes :: "'a ring_op list \<Rightarrow> nat" where
  "pushes [] = 0"
| "pushes (Push x # ops) = Suc (pushes ops)"
| "pushes (Pop # ops) = pushes ops"

fun accepted :: "'a ring_event list \<Rightarrow> 'a list" where
  "accepted [] = []"
| "accepted (Accepted x # evs) = x # accepted evs"
| "accepted (e # evs) = accepted evs"

fun delivered :: "'a ring_event list \<Rightarrow> 'a list" where
  "delivered [] = []"
| "delivered (Delivered x # evs) = x # delivered evs"
| "delivered (e # evs) = delivered evs"

lemma spec_push_simps [simp]:
  "length q < cap \<Longrightarrow> spec_push cap q x = (True, q @ [x])"
  "\<not> length q < cap \<Longrightarrow> spec_push cap q x = (False, q)"
  by (simp_all add: spec_push_def)

lemma spec_pop_simps [simp]:
  "spec_pop [] = (None, [])"
  "spec_pop (x # xs) = (Some x, xs)"
  by (simp_all add: spec_pop_def)

lemma spec_pop_conserves:
  "spec_pop q = (y, q') \<Longrightarrow> (case y of None \<Rightarrow> [] | Some x \<Rightarrow> [x]) @ q' = q"
  by (cases q) auto

lemma pushes_append [simp]: "pushes (xs @ ys) = pushes xs + pushes ys"
  by (induction xs rule: pushes.induct) auto

lemma pushes_replicate_Pop [simp]: "pushes (replicate n Pop) = 0"
  by (induction n) auto

lemma ring_run_append:
  "ring_run push pop (xs @ ys) r =
     (let (e1, r1) = ring_run push pop xs r; (e2, r2) = ring_run push pop ys r1
      in (e1 @ e2, r2))"
  by (induction push pop xs r rule: ring_run.induct) (auto split: prod.splits)

lemma accepted_append [simp]: "accepted (xs @ ys) = accepted xs @ accepted ys"
  by (induction xs rule: accepted.induct) auto

lemma delivered_append [simp]: "delivered (xs @ ys) = delivered xs @ delivered ys"
  by (induction xs rule: delivered.induct) auto

text \<open>
  A run of the abstract queue neither loses, duplicates nor reorders an element: what was
  queued before the run followed by what the run accepted is what it delivered followed by
  what is still queued.
\<close>

lemma spec_run_conserves:
  "ring_run (spec_push cap) spec_pop ops q = (evs, q') \<Longrightarrow>
     q @ accepted evs = delivered evs @ q'"
proof (induction ops arbitrary: q evs q')
  case Nil
  then show ?case by simp
next
  case (Cons op ops)
  show ?case
  proof (cases op)
    case (Push x)
    with Cons.prems obtain evs' where
      run: "ring_run (spec_push cap) spec_pop ops (snd (spec_push cap q x)) = (evs', q')"
      and evs: "evs = (if length q < cap then Accepted x else Rejected x) # evs'"
      by (cases "length q < cap") (auto split: prod.splits)
    from Cons.IH [OF run] show ?thesis
      by (cases "length q < cap") (auto simp: evs)
  next
    case Pop
    with Cons.prems obtain evs' where
      run: "ring_run (spec_push cap) spec_pop ops (snd (spec_pop q)) = (evs', q')"
      and evs: "evs = (case fst (spec_pop q) of None \<Rightarrow> Empty | Some x \<Rightarrow> Delivered x) # evs'"
      by (auto split: prod.splits)
    from Cons.IH [OF run] show ?thesis
      by (cases q) (auto simp: evs)
  qed
qed

lemma spec_run_drain:
  "ring_run (spec_push cap) spec_pop (replicate (length q) Pop) q = (map Delivered q, [])"
  by (induction q) auto

lemma delivered_map_Delivered [simp]: "delivered (map Delivered xs) = xs"
  by (induction xs) auto

section \<open>The interface of a ring\<close>

locale fifo_ring =
  fixes invar :: "'r \<Rightarrow> bool"
    and contents :: "'r \<Rightarrow> 'a list"
    and cap :: nat
    and ok :: "nat \<Rightarrow> 'r \<Rightarrow> bool"
    and push :: "'r \<Rightarrow> 'a \<Rightarrow> bool \<times> 'r"
    and pop :: "'r \<Rightarrow> 'a option \<times> 'r"
  assumes bounded: "invar r \<Longrightarrow> length (contents r) \<le> cap"
    and push_full: "invar r \<Longrightarrow> length (contents r) = cap \<Longrightarrow> push r x = (b, r') \<Longrightarrow>
      \<not> b \<and> invar r' \<and> contents r' = contents r \<and> (\<forall>n. ok n r \<longrightarrow> ok n r')"
    and push_room: "invar r \<Longrightarrow> ok (Suc n) r \<Longrightarrow> length (contents r) < cap \<Longrightarrow>
      push r x = (b, r') \<Longrightarrow> b \<and> invar r' \<and> contents r' = contents r @ [x] \<and> ok n r'"
    and pop_empty: "invar r \<Longrightarrow> contents r = [] \<Longrightarrow> pop r = (None, r)"
    and pop_first: "invar r \<Longrightarrow> contents r = x # xs \<Longrightarrow> pop r = (y, r') \<Longrightarrow>
      y = Some x \<and> invar r' \<and> contents r' = xs \<and> (\<forall>n. ok n r \<longrightarrow> ok n r')"
    and ok_less: "ok (Suc n) r \<Longrightarrow> ok n r"
begin

lemma push_refines:
  assumes "invar r" "ok (Suc n) r" "push r x = (b, r')"
  shows "spec_push cap (contents r) x = (b, contents r') \<and> invar r' \<and> ok n r'"
proof (cases "length (contents r) = cap")
  case True
  then show ?thesis
    using push_full [OF assms(1) True assms(3)] assms(2) ok_less
    by auto
next
  case False
  with bounded [OF assms(1)] have "length (contents r) < cap" by simp
  with push_room [OF assms(1,2) this assms(3)] show ?thesis
    using \<open>length (contents r) < cap\<close> by simp
qed

lemma pop_refines:
  assumes "invar r" "pop r = (y, r')"
  shows "spec_pop (contents r) = (y, contents r') \<and> invar r' \<and> (ok n r \<longrightarrow> ok n r')"
  using pop_empty [OF assms(1)] pop_first [OF assms(1) _ assms(2)] assms
  by (cases "contents r") auto

text \<open>Every run of the ring is the run of the abstract queue on the ring's contents.\<close>

lemma run_refines:
  assumes "invar r" "ok (pushes ops) r" "ring_run push pop ops r = (evs, r')"
  shows "ring_run (spec_push cap) spec_pop ops (contents r) = (evs, contents r') \<and> invar r'"
  using assms
proof (induction ops arbitrary: r evs)
  case Nil
  then show ?case by simp
next
  case (Cons op ops)
  show ?case
  proof (cases op)
    case (Push x)
    obtain b r1 where p: "push r x = (b, r1)" by fastforce
    obtain evs1 where run: "ring_run push pop ops r1 = (evs1, r')"
      and evs: "evs = (if b then Accepted x else Rejected x) # evs1"
      using Cons.prems(3) Push p by (auto split: prod.splits)
    from Cons.prems(2) Push have ok: "ok (Suc (pushes ops)) r" by simp
    from push_refines [OF Cons.prems(1) ok p] have
      "spec_push cap (contents r) x = (b, contents r1)" "invar r1" "ok (pushes ops) r1"
      by auto
    with Cons.IH [OF _ _ run] Push evs show ?thesis by simp
  next
    case Pop
    obtain y r1 where p: "pop r = (y, r1)" by fastforce
    obtain evs1 where run: "ring_run push pop ops r1 = (evs1, r')"
      and evs: "evs = (case y of None \<Rightarrow> Empty | Some x \<Rightarrow> Delivered x) # evs1"
      using Cons.prems(3) Pop p by (auto split: prod.splits)
    from pop_refines [OF Cons.prems(1) p, of "pushes ops"] Cons.prems(2) Pop have
      "spec_pop (contents r) = (y, contents r1)" "invar r1" "ok (pushes ops) r1"
      by auto
    with Cons.IH [OF _ _ run] Pop evs show ?thesis by simp
  qed
qed

lemma run_conserves:
  assumes "invar r" "ok (pushes ops) r" "ring_run push pop ops r = (evs, r')"
  shows "contents r @ accepted evs = delivered evs @ contents r'"
  using run_refines [OF assms] spec_run_conserves by blast

lemma run_invar:
  assumes "invar r" "ok (pushes ops) r" "ring_run push pop ops r = (evs, r')"
  shows "invar r' \<and> length (contents r') \<le> cap"
  using run_refines [OF assms] bounded by blast

text \<open>Enough pops deliver everything that is queued, in order, and leave the ring empty.\<close>

lemma run_drains:
  assumes "invar r" "ok 0 r"
    and "ring_run push pop (replicate (length (contents r)) Pop) r = (evs, r')"
  shows "delivered evs = contents r \<and> contents r' = []"
  using run_refines [OF assms(1) _ assms(3)] assms(2) spec_run_drain [of cap "contents r"]
  by auto

end

locale total_fifo_ring =
  fixes invar :: "'r \<Rightarrow> bool"
    and contents :: "'r \<Rightarrow> 'a list"
    and cap :: nat
    and push :: "'r \<Rightarrow> 'a \<Rightarrow> bool \<times> 'r"
    and pop :: "'r \<Rightarrow> 'a option \<times> 'r"
  assumes total_bounded: "invar r \<Longrightarrow> length (contents r) \<le> cap"
    and total_push_full: "invar r \<Longrightarrow> length (contents r) = cap \<Longrightarrow> push r x = (b, r') \<Longrightarrow>
      \<not> b \<and> invar r' \<and> contents r' = contents r"
    and total_push_room: "invar r \<Longrightarrow> length (contents r) < cap \<Longrightarrow> push r x = (b, r') \<Longrightarrow>
      b \<and> invar r' \<and> contents r' = contents r @ [x]"
    and total_pop_empty: "invar r \<Longrightarrow> contents r = [] \<Longrightarrow> pop r = (None, r)"
    and total_pop_first: "invar r \<Longrightarrow> contents r = x # xs \<Longrightarrow> pop r = (y, r') \<Longrightarrow>
      y = Some x \<and> invar r' \<and> contents r' = xs"

sublocale total_fifo_ring \<subseteq> fifo_ring invar contents cap "\<lambda>_ _. True" push pop
  by unfold_locales
    (auto dest: total_bounded total_push_full total_push_room total_pop_empty total_pop_first)

section \<open>Rings that count rejected pushes\<close>

fun rejections :: "'a ring_event list \<Rightarrow> nat" where
  "rejections [] = 0"
| "rejections (Rejected x # evs) = Suc (rejections evs)"
| "rejections (e # evs) = rejections evs"

locale counted_ring =
  fixes overflow_of :: "'r \<Rightarrow> u32"
    and push :: "'r \<Rightarrow> 'a \<Rightarrow> bool \<times> 'r"
    and pop :: "'r \<Rightarrow> 'a option \<times> 'r"
  assumes count_push: "push r x = (b, r') \<Longrightarrow>
      overflow_of r' = (if b then overflow_of r else overflow_of r + 1)"
    and count_pop: "pop r = (y, r') \<Longrightarrow> overflow_of r' = overflow_of r"
begin

lemma run_counts:
  "ring_run push pop ops r = (evs, r') \<Longrightarrow> overflow_of r' = overflow_of r + of_nat (rejections evs)"
proof (induction ops arbitrary: r evs)
  case Nil
  then show ?case by simp
next
  case (Cons op ops)
  show ?case
  proof (cases op)
    case (Push x)
    obtain b r1 where p: "push r x = (b, r1)" by fastforce
    obtain evs1 where run: "ring_run push pop ops r1 = (evs1, r')"
      and evs: "evs = (if b then Accepted x else Rejected x) # evs1"
      using Cons.prems Push p by (auto split: prod.splits)
    show ?thesis using Cons.IH [OF run] count_push [OF p] evs by simp
  next
    case Pop
    obtain y r1 where p: "pop r = (y, r1)" by fastforce
    obtain evs1 where run: "ring_run push pop ops r1 = (evs1, r')"
      and evs: "evs = (case y of None \<Rightarrow> Empty | Some x \<Rightarrow> Delivered x) # evs1"
      using Cons.prems Pop p by (auto split: prod.splits)
    show ?thesis using Cons.IH [OF run] count_pop [OF p] evs by (cases y) simp_all
  qed
qed

end

end
