(* ===== verification/Ring_Rep.thy ===== *)
theory Ring_Rep
  imports Fifo_Spec
begin

text \<open>
  The representation shared by the rings of the runtime: a consumer counter, a producer
  counter and an array of \<open>N\<close> slots. The locale \<open>ring_rep\<close> states what a push does to the
  three fields. \<open>wrap_ring\<close> adds a pop that detects emptiness by equality of the counters,
  \<open>nowrap_ring\<close> a pop that detects it with \<open>consumer >= producer\<close>. The first is a total FIFO,
  the second one only while the producer counter has not wrapped; after the wrap it never
  delivers again, which is proved here once for all rings of that kind.
\<close>

section \<open>Well-formedness and contents of a representation\<close>

definition rep_wf :: "nat \<Rightarrow> ('r \<Rightarrow> u32) \<Rightarrow> ('r \<Rightarrow> u32) \<Rightarrow> ('r \<Rightarrow> 'a list) \<Rightarrow> 'r \<Rightarrow> bool" where
  "rep_wf N hd_of tl_of slots_of r \<longleftrightarrow> ring_wf N (slots_of r) (hd_of r) (tl_of r)"

definition rep_contents :: "('r \<Rightarrow> u32) \<Rightarrow> ('r \<Rightarrow> u32) \<Rightarrow> ('r \<Rightarrow> 'a list) \<Rightarrow> 'r \<Rightarrow> 'a list" where
  "rep_contents hd_of tl_of slots_of r = ring_contents (slots_of r) (hd_of r) (tl_of r)"

text \<open>Well-formed and not wrapped: the producer counter is not below the consumer counter.\<close>

definition rep_linear ::
  "nat \<Rightarrow> ('r \<Rightarrow> u32) \<Rightarrow> ('r \<Rightarrow> u32) \<Rightarrow> ('r \<Rightarrow> 'a list) \<Rightarrow> 'r \<Rightarrow> bool" where
  "rep_linear N hd_of tl_of slots_of r \<longleftrightarrow>
     rep_wf N hd_of tl_of slots_of r \<and> hd_of r \<le> tl_of r"

text \<open>The producer counter can be incremented \<open>n\<close> times before it wraps to zero.\<close>

definition rep_budget :: "('r \<Rightarrow> u32) \<Rightarrow> nat \<Rightarrow> 'r \<Rightarrow> bool" where
  "rep_budget tl_of n r \<longleftrightarrow> unat (tl_of r) + n < 2 ^ 32"

definition rep_wrapped :: "('r \<Rightarrow> u32) \<Rightarrow> ('r \<Rightarrow> u32) \<Rightarrow> 'r \<Rightarrow> bool" where
  "rep_wrapped hd_of tl_of r \<longleftrightarrow> tl_of r < hd_of r"

lemma length_rep_contents [simp]:
  "length (rep_contents hd_of tl_of slots_of r) = unat (tl_of r - hd_of r)"
  by (simp add: rep_contents_def)

lemma rep_contents_Nil [simp]:
  "rep_contents hd_of tl_of slots_of r = [] \<longleftrightarrow> hd_of r = tl_of r"
  by (simp add: rep_contents_def ring_contents_Nil_iff)

lemma unat_add1_below:
  fixes t :: u32
  assumes "unat t + 1 < 2 ^ 32"
  shows "unat (t + 1) = Suc (unat t)"
  using assms unfolding unat_add1 by simp

lemma wrapped_distance:
  fixes h t :: u32
  assumes "t < h" "unat (t - h) < 2 ^ 32 - 1"
  shows "t + 1 < h"
proof -
  have "unat t < unat h" using assms(1) by (simp add: word_less_nat_alt)
  moreover have "unat (t - h) = 2 ^ 32 + unat t - unat h"
    using assms(1) unat_lt32 [of h] unat_lt32 [of t]
    by (simp add: unat_sub_if_size word_size word_le_nat_alt word_less_nat_alt)
  ultimately have "Suc (unat t) < unat h" using assms(2) by linarith
  moreover have "unat (t + 1) = Suc (unat t)"
    using calculation unat_lt32 [of h] by (intro unat_add1_below) linarith
  ultimately show ?thesis by (simp add: word_less_nat_alt)
qed

section \<open>Representation laws\<close>

locale ring_rep =
  fixes hd_of :: "'r \<Rightarrow> u32"
    and tl_of :: "'r \<Rightarrow> u32"
    and slots_of :: "'r \<Rightarrow> 'a list"
    and N :: nat
    and push :: "'r \<Rightarrow> 'a \<Rightarrow> bool \<times> 'r"
  assumes N_ok: "ring_size_ok N"
    and rep_push_full: "unat (tl_of r - hd_of r) = N \<Longrightarrow> push r x = (b, r') \<Longrightarrow>
      \<not> b \<and> hd_of r' = hd_of r \<and> tl_of r' = tl_of r \<and> slots_of r' = slots_of r"
    and rep_push_room: "unat (tl_of r - hd_of r) < N \<Longrightarrow> push r x = (b, r') \<Longrightarrow>
      b \<and> hd_of r' = hd_of r \<and> tl_of r' = tl_of r + 1 \<and>
      slots_of r' = (slots_of r)[unat (tl_of r) mod N := x]"
begin

lemma rep_bounded:
  "rep_wf N hd_of tl_of slots_of r \<Longrightarrow> length (rep_contents hd_of tl_of slots_of r) \<le> N"
  by (simp add: rep_wf_def ring_wf_def)

lemma rep_push_full_contents:
  assumes "rep_wf N hd_of tl_of slots_of r"
    and "length (rep_contents hd_of tl_of slots_of r) = N" and "push r x = (b, r')"
  shows "\<not> b \<and> rep_wf N hd_of tl_of slots_of r' \<and>
    rep_contents hd_of tl_of slots_of r' = rep_contents hd_of tl_of slots_of r \<and>
    hd_of r' = hd_of r \<and> tl_of r' = tl_of r"
  using assms rep_push_full [OF _ assms(3)] by (simp add: rep_wf_def rep_contents_def)

lemma rep_push_room_contents:
  assumes "rep_wf N hd_of tl_of slots_of r"
    and "length (rep_contents hd_of tl_of slots_of r) < N" and "push r x = (b, r')"
  shows "b \<and> rep_wf N hd_of tl_of slots_of r' \<and>
    rep_contents hd_of tl_of slots_of r' = rep_contents hd_of tl_of slots_of r @ [x] \<and>
    hd_of r' = hd_of r \<and> tl_of r' = tl_of r + 1"
proof -
  have wf: "ring_wf N (slots_of r) (hd_of r) (tl_of r)" and room: "unat (tl_of r - hd_of r) < N"
    using assms(1,2) by (simp_all add: rep_wf_def)
  show ?thesis
    using rep_push_room [OF room assms(3)] ring_wf_push [OF N_ok wf room]
      ring_contents_push [OF N_ok ring_wf_length [OF wf] room]
    by (simp add: rep_wf_def rep_contents_def)
qed

end

locale wrap_ring = ring_rep hd_of tl_of slots_of N push
  for hd_of :: "'r \<Rightarrow> u32" and tl_of :: "'r \<Rightarrow> u32" and slots_of :: "'r \<Rightarrow> 'a list"
    and N :: nat and push :: "'r \<Rightarrow> 'a \<Rightarrow> bool \<times> 'r" +
  fixes pop :: "'r \<Rightarrow> 'a option \<times> 'r"
  assumes rep_pop_eq: "hd_of r = tl_of r \<Longrightarrow> pop r = (None, r)"
    and rep_pop_neq: "length (slots_of r) = N \<Longrightarrow> hd_of r \<noteq> tl_of r \<Longrightarrow> pop r = (y, r') \<Longrightarrow>
      y = Some (slots_of r ! (unat (hd_of r) mod N)) \<and> hd_of r' = hd_of r + 1 \<and>
      tl_of r' = tl_of r \<and> slots_of r' = slots_of r"
begin

lemma rep_pop_first:
  assumes "rep_wf N hd_of tl_of slots_of r"
    and "rep_contents hd_of tl_of slots_of r = x # xs" and "pop r = (y, r')"
  shows "y = Some x \<and> rep_wf N hd_of tl_of slots_of r' \<and>
    rep_contents hd_of tl_of slots_of r' = xs"
proof -
  have "hd_of r \<noteq> tl_of r" using assms(2) rep_contents_Nil [of hd_of tl_of slots_of r] by auto
  moreover have wf: "ring_wf N (slots_of r) (hd_of r) (tl_of r)"
    using assms(1) by (simp add: rep_wf_def)
  ultimately show ?thesis
    using rep_pop_neq [OF ring_wf_length [OF wf] _ assms(3)] ring_wf_pop [OF wf] assms(2)
      ring_contents_pop [OF N_ok ring_wf_length [OF wf]]
    by (simp add: rep_wf_def rep_contents_def)
qed

end

sublocale wrap_ring \<subseteq>
  total_fifo_ring "rep_wf N hd_of tl_of slots_of" "rep_contents hd_of tl_of slots_of" N push pop
proof unfold_locales
  fix r x b r'
  assume wf: "rep_wf N hd_of tl_of slots_of r"
  show "length (rep_contents hd_of tl_of slots_of r) \<le> N" by (rule rep_bounded [OF wf])
  show "\<not> b \<and> rep_wf N hd_of tl_of slots_of r' \<and>
      rep_contents hd_of tl_of slots_of r' = rep_contents hd_of tl_of slots_of r"
    if "length (rep_contents hd_of tl_of slots_of r) = N" "push r x = (b, r')"
    using rep_push_full_contents [OF wf that] by blast
  show "b \<and> rep_wf N hd_of tl_of slots_of r' \<and>
      rep_contents hd_of tl_of slots_of r' = rep_contents hd_of tl_of slots_of r @ [x]"
    if "length (rep_contents hd_of tl_of slots_of r) < N" "push r x = (b, r')"
    using rep_push_room_contents [OF wf that] by blast
  show "pop r = (None, r)" if "rep_contents hd_of tl_of slots_of r = []"
    using that by (intro rep_pop_eq) simp
qed (rule rep_pop_first)

locale nowrap_ring = ring_rep hd_of tl_of slots_of N push
  for hd_of :: "'r \<Rightarrow> u32" and tl_of :: "'r \<Rightarrow> u32" and slots_of :: "'r \<Rightarrow> 'a list"
    and N :: nat and push :: "'r \<Rightarrow> 'a \<Rightarrow> bool \<times> 'r" +
  fixes pop :: "'r \<Rightarrow> 'a option \<times> 'r"
  assumes rep_pop_ge: "tl_of r \<le> hd_of r \<Longrightarrow> pop r = (None, r)"
    and rep_pop_less: "hd_of r < tl_of r \<Longrightarrow> pop r = (y, r') \<Longrightarrow>
      y = Some (slots_of r ! (unat (hd_of r) mod N)) \<and> hd_of r' = hd_of r + 1 \<and>
      tl_of r' = tl_of r \<and> slots_of r' = slots_of r"
begin

lemma linear_push_room:
  assumes "rep_linear N hd_of tl_of slots_of r" "rep_budget tl_of (Suc n) r"
    and "length (rep_contents hd_of tl_of slots_of r) < N" and "push r x = (b, r')"
  shows "b \<and> rep_linear N hd_of tl_of slots_of r' \<and>
    rep_contents hd_of tl_of slots_of r' = rep_contents hd_of tl_of slots_of r @ [x] \<and>
    rep_budget tl_of n r'"
proof -
  have wf: "rep_wf N hd_of tl_of slots_of r" and le: "hd_of r \<le> tl_of r"
    using assms(1) by (auto simp: rep_linear_def)
  have "unat (tl_of r + 1) = Suc (unat (tl_of r))"
    using assms(2) by (intro unat_add1_below) (simp add: rep_budget_def)
  then show ?thesis
    using rep_push_room_contents [OF wf assms(3,4)] le assms(2)
    by (auto simp: rep_linear_def rep_budget_def word_le_nat_alt)
qed

lemma linear_pop_first:
  assumes "rep_linear N hd_of tl_of slots_of r"
    and "rep_contents hd_of tl_of slots_of r = x # xs" and "pop r = (y, r')"
  shows "y = Some x \<and> rep_linear N hd_of tl_of slots_of r' \<and>
    rep_contents hd_of tl_of slots_of r' = xs \<and> tl_of r' = tl_of r"
proof -
  have ne: "hd_of r \<noteq> tl_of r" using assms(2) rep_contents_Nil [of hd_of tl_of slots_of r] by auto
  have wf: "ring_wf N (slots_of r) (hd_of r) (tl_of r)" and "hd_of r \<le> tl_of r"
    using assms(1) by (simp_all add: rep_linear_def rep_wf_def)
  with ne have less: "hd_of r < tl_of r" by (metis order_le_less)
  then have "hd_of r + 1 \<le> tl_of r" by (simp add: inc_le)
  then show ?thesis
    using rep_pop_less [OF less assms(3)] ring_wf_pop [OF wf ne] assms(2)
      ring_contents_pop [OF N_ok ring_wf_length [OF wf] ne]
    by (simp add: rep_linear_def rep_wf_def rep_contents_def)
qed

end

sublocale nowrap_ring \<subseteq>
  fifo_ring "rep_linear N hd_of tl_of slots_of" "rep_contents hd_of tl_of slots_of" N
    "rep_budget tl_of" push pop
proof unfold_locales
  fix r x b r'
  assume lin: "rep_linear N hd_of tl_of slots_of r"
    and full: "length (rep_contents hd_of tl_of slots_of r) = N" and p: "push r x = (b, r')"
  from lin have wf: "rep_wf N hd_of tl_of slots_of r" by (simp add: rep_linear_def)
  from rep_push_full_contents [OF wf full p] lin
  show "\<not> b \<and> rep_linear N hd_of tl_of slots_of r' \<and>
     rep_contents hd_of tl_of slots_of r' = rep_contents hd_of tl_of slots_of r \<and>
     (\<forall>n. rep_budget tl_of n r \<longrightarrow> rep_budget tl_of n r')"
    by (simp add: rep_linear_def rep_budget_def)
next
  fix r x xs y r'
  assume "rep_linear N hd_of tl_of slots_of r"
    "rep_contents hd_of tl_of slots_of r = x # xs" "pop r = (y, r')"
  from linear_pop_first [OF this]
  show "y = Some x \<and> rep_linear N hd_of tl_of slots_of r' \<and>
     rep_contents hd_of tl_of slots_of r' = xs \<and>
     (\<forall>n. rep_budget tl_of n r \<longrightarrow> rep_budget tl_of n r')"
    by (simp add: rep_budget_def)
next
  fix r :: 'r
  assume "rep_linear N hd_of tl_of slots_of r" "rep_contents hd_of tl_of slots_of r = []"
  then show "pop r = (None, r)" by (intro rep_pop_ge) simp
next
  fix r :: 'r
  assume "rep_linear N hd_of tl_of slots_of r"
  then show "length (rep_contents hd_of tl_of slots_of r) \<le> N"
    using rep_bounded by (simp add: rep_linear_def)
next
  show "rep_budget tl_of (Suc n) r \<Longrightarrow> rep_budget tl_of n r" for n r
    by (simp add: rep_budget_def)
qed (rule linear_push_room)

context nowrap_ring
begin

text \<open>
  Once the producer counter has wrapped past the consumer counter, the emptiness test is true
  whatever the producer does, so no later operation delivers anything.
\<close>

lemma wrapped_push:
  assumes "rep_wf N hd_of tl_of slots_of r" "rep_wrapped hd_of tl_of r" "push r x = (b, r')"
  shows "rep_wf N hd_of tl_of slots_of r' \<and> rep_wrapped hd_of tl_of r'"
proof (cases "unat (tl_of r - hd_of r) = N")
  case True
  then show ?thesis
    using rep_push_full_contents [OF assms(1) _ assms(3)] assms(2) by (simp add: rep_wrapped_def)
next
  case False
  with rep_bounded [OF assms(1)] have room: "unat (tl_of r - hd_of r) < N" by simp
  then have "unat (tl_of r - hd_of r) < 2 ^ 32 - 1" using N_ok by (simp add: ring_size_ok_def)
  with assms(2) have "tl_of r + 1 < hd_of r"
    by (intro wrapped_distance) (simp_all add: rep_wrapped_def)
  then show ?thesis
    using rep_push_room_contents [OF assms(1) _ assms(3)] room by (simp add: rep_wrapped_def)
qed

lemma wrapped_delivers_nothing:
  assumes "rep_wf N hd_of tl_of slots_of r" "rep_wrapped hd_of tl_of r"
    and "ring_run push pop ops r = (evs, r')"
  shows "delivered evs = [] \<and> hd_of r' = hd_of r \<and> rep_wrapped hd_of tl_of r'"
  using assms
proof (induction ops arbitrary: r evs)
  case Nil
  then show ?case by simp
next
  case (Cons op ops)
  show ?case
  proof (cases op)
    case (Push x)
    obtain b r1 where p: "push r x = (b, r1)" by fastforce
    obtain evs1 where run: "ring_run push pop ops r1 = (evs1, r')"
      and evs: "evs = (if b then Accepted x else Rejected x) # evs1"
      using Cons.prems(3) Push p by (auto split: prod.splits)
    have "hd_of r1 = hd_of r"
      using rep_push_full [OF _ p] rep_push_room [OF _ p] rep_bounded [OF Cons.prems(1)]
      by (cases "unat (tl_of r - hd_of r) = N") simp_all
    then show ?thesis
      using wrapped_push [OF Cons.prems(1,2) p] Cons.IH [OF _ _ run] by (simp add: evs)
  next
    case Pop
    have "pop r = (None, r)"
      using Cons.prems(2) by (intro rep_pop_ge) (simp add: rep_wrapped_def order_less_imp_le)
    then obtain evs1 where run: "ring_run push pop ops r = (evs1, r')" and evs: "evs = Empty # evs1"
      using Cons.prems(3) Pop by (auto split: prod.splits)
    then show ?thesis using Cons.IH [OF Cons.prems(1,2) run] by simp
  qed
qed

text \<open>A push directly followed by a pop advances both counters of an empty ring by one.\<close>

lemma push_pop_cycle:
  assumes "rep_wf N hd_of tl_of slots_of r" "hd_of r = tl_of r" "unat (tl_of r) + n < 2 ^ 32"
  shows "\<exists>evs r'. ring_run push pop (concat (replicate n [Push x, Pop])) r = (evs, r') \<and>
    rep_wf N hd_of tl_of slots_of r' \<and> hd_of r' = tl_of r' \<and> unat (tl_of r') = unat (tl_of r) + n"
  using assms
proof (induction n arbitrary: r)
  case 0
  then show ?case by simp
next
  case (Suc n)
  obtain b r1 where p: "push r x = (b, r1)" by fastforce
  obtain y r2 where q: "pop r1 = (y, r2)" by fastforce
  have room: "length (rep_contents hd_of tl_of slots_of r) < N"
    using N_ok Suc.prems(2) by (simp add: ring_size_ok_def)
  have tl1: "unat (tl_of r + 1) = Suc (unat (tl_of r))"
    using Suc.prems(3) by (intro unat_add1_below) simp
  have r1: "rep_linear N hd_of tl_of slots_of r1 \<and> hd_of r1 = hd_of r \<and> tl_of r1 = tl_of r + 1 \<and>
      rep_contents hd_of tl_of slots_of r1 = [x]"
    using rep_push_room_contents [OF Suc.prems(1) room p] Suc.prems(2) tl1
    by (simp add: rep_linear_def word_le_nat_alt)
  have r12: "rep_linear N hd_of tl_of slots_of r2" "rep_contents hd_of tl_of slots_of r2 = []"
    and "tl_of r2 = tl_of r1"
    using linear_pop_first [of r1 x "[]" y r2] q r1 by blast+
  then have tl2: "tl_of r2 = tl_of r + 1" using r1 by simp
  from r12 have r2: "rep_wf N hd_of tl_of slots_of r2" "hd_of r2 = tl_of r2"
    by (simp_all only: rep_linear_def rep_contents_Nil)
  then obtain evs r' where run: "ring_run push pop (concat (replicate n [Push x, Pop])) r2 = (evs, r')"
    and r': "rep_wf N hd_of tl_of slots_of r'" "hd_of r' = tl_of r'"
      "unat (tl_of r') = unat (tl_of r) + Suc n"
    using Suc.IH [OF r2] Suc.prems(3) tl1 tl2 by auto
  show ?case using p q run r' by simp
qed

text \<open>
  From every empty well-formed ring some sequence of operations reaches a ring that holds an
  element no later sequence of operations ever delivers.
\<close>

lemma reaches_stuck:
  assumes "rep_wf N hd_of tl_of slots_of r" "hd_of r = tl_of r"
  shows "\<exists>ops evs r'. ring_run push pop ops r = (evs, r') \<and>
    rep_contents hd_of tl_of slots_of r' = [x] \<and>
    (\<forall>more. delivered (fst (ring_run push pop more r')) = [])"
proof -
  let ?n = "2 ^ 32 - 1 - unat (tl_of r)"
  have "unat (tl_of r) + ?n < 2 ^ 32" using unat_lt32 [of "tl_of r"] by simp
  from push_pop_cycle [OF assms this] obtain evs1 r1 where
    run1: "ring_run push pop (concat (replicate ?n [Push x, Pop])) r = (evs1, r1)"
    and r1: "rep_wf N hd_of tl_of slots_of r1" "hd_of r1 = tl_of r1"
      "unat (tl_of r1) = unat (tl_of r) + ?n"
    by blast
  have last: "unat (tl_of r1) = 2 ^ 32 - 1" using r1(3) unat_lt32 [of "tl_of r"] by simp
  obtain b r2 where p: "push r1 x = (b, r2)" by fastforce
  have room: "length (rep_contents hd_of tl_of slots_of r1) < N"
    using N_ok r1(2) by (simp add: ring_size_ok_def)
  have zero: "unat (tl_of r1 + 1) = 0" using last unfolding unat_add1 by simp
  have r2: "rep_wf N hd_of tl_of slots_of r2" "rep_contents hd_of tl_of slots_of r2 = [x]"
    "rep_wrapped hd_of tl_of r2"
    using rep_push_room_contents [OF r1(1) room p] r1(2) zero last
    by (simp_all add: rep_wrapped_def word_less_nat_alt)
  have "ring_run push pop (concat (replicate ?n [Push x, Pop]) @ [Push x]) r
      = (evs1 @ [if b then Accepted x else Rejected x], r2)"
    using run1 p by (simp add: ring_run_append)
  moreover have "delivered (fst (ring_run push pop more r2)) = []" for more
    using wrapped_delivers_nothing [OF r2(1,3), of more] by (metis prod.collapse)
  ultimately show ?thesis using r2(2) by blast
qed

end

end
