(* ===== verification/Hw_Ring.thy ===== *)
theory Hw_Ring
  imports Ring_Rep
begin

text \<open>
  The hardware fast path's descriptor and command ring: \<^verbatim>\<open>include/hw_desc.h\<close>,
  \<^verbatim>\<open>include/hw_ring.h\<close> and \<^verbatim>\<open>src/hw_ring.c\<close>. The ring compares its counters only by
  wrapped difference and by equality, so it refines the abstract bounded queue for every
  number of operations, across any wrap-around of the 32-bit counters.
\<close>

section \<open>Descriptors\<close>

definition DESC_OP_DECODE :: u16 where "DESC_OP_DECODE = 1"
definition DESC_OP_REWARD :: u16 where "DESC_OP_REWARD = 2"
definition DESC_OP_PREFILL :: u16 where "DESC_OP_PREFILL = 3"
definition DESC_OP_STOP :: u16 where "DESC_OP_STOP = 255"

definition DESC_FLAG_NEEDS_REWARD :: u16 where "DESC_FLAG_NEEDS_REWARD = push_bit 0 1"
definition DESC_FLAG_DONE :: u16 where "DESC_FLAG_DONE = push_bit 1 1"
definition DESC_FLAG_COW_PREFIX :: u16 where "DESC_FLAG_COW_PREFIX = push_bit 2 1"

lemmas desc_consts = DESC_OP_DECODE_def DESC_OP_REWARD_def DESC_OP_PREFILL_def
  DESC_OP_STOP_def DESC_FLAG_NEEDS_REWARD_def DESC_FLAG_DONE_def DESC_FLAG_COW_PREFIX_def

record hw_desc_t =
  hd_opcode :: u16
  hd_flags :: u16
  hd_rollout_id :: u32
  hd_kv_arena_id :: u32
  hd_prefix_id :: u32
  hd_kv_offset :: u64
  hd_delta_offset :: u64
  hd_seq_len :: u32
  hd_max_tokens :: u32
  hd_reward_model_id :: u32
  hd_reserved0 :: u32
  hd_user_data :: u64
  hd_checksum_or_cookie :: u64

text \<open>The descriptor that \<open>memset(&desc, 0, sizeof(desc))\<close> leaves.\<close>

definition hw_desc_zero :: hw_desc_t where
  "hw_desc_zero = \<lparr>hd_opcode = 0, hd_flags = 0, hd_rollout_id = 0, hd_kv_arena_id = 0,
     hd_prefix_id = 0, hd_kv_offset = 0, hd_delta_offset = 0, hd_seq_len = 0,
     hd_max_tokens = 0, hd_reward_model_id = 0, hd_reserved0 = 0, hd_user_data = 0,
     hd_checksum_or_cookie = 0\<rparr>"

section \<open>Ring operations\<close>

definition HW_RING_SIZE :: u32 where "HW_RING_SIZE = push_bit 16 1"
definition HW_RING_MASK :: u32 where "HW_RING_MASK = HW_RING_SIZE - 1"

record hw_ring_t =
  hr_head :: u32
  hr_tail :: u32
  hr_desc :: "hw_desc_t list"

text \<open>Acquire loads and release stores, seen by the thread that performs them.\<close>

definition hw_ring_load_acquire :: "u32 \<Rightarrow> u32" where
  "hw_ring_load_acquire p = p"

definition hw_ring_store_release :: "u32 \<Rightarrow> u32 \<Rightarrow> u32" where
  "hw_ring_store_release p value = value"

definition hw_ring_zero :: hw_ring_t where
  "hw_ring_zero = \<lparr>hr_head = 0, hr_tail = 0,
     hr_desc = replicate (unat HW_RING_SIZE) hw_desc_zero\<rparr>"

text \<open>\<open>alloc_ok\<close> is the outcome of \<open>posix_memalign\<close>.\<close>

definition hw_ring_create :: "bool \<Rightarrow> hw_ring_t option" where
  "hw_ring_create alloc_ok = (if \<not> alloc_ok then None else Some hw_ring_zero)"

definition hw_ring_reset :: "hw_ring_t option \<Rightarrow> hw_ring_t option" where
  "hw_ring_reset ring = (case ring of None \<Rightarrow> None | Some r \<Rightarrow> Some hw_ring_zero)"

definition hw_ring_full :: "hw_ring_t \<Rightarrow> bool" where
  "hw_ring_full ring =
     (let head = hw_ring_load_acquire (hr_head ring);
          tail = hw_ring_load_acquire (hr_tail ring)
      in tail - head \<ge> HW_RING_SIZE)"

definition hw_ring_empty :: "hw_ring_t \<Rightarrow> bool" where
  "hw_ring_empty ring =
     (let head = hw_ring_load_acquire (hr_head ring);
          tail = hw_ring_load_acquire (hr_tail ring)
      in head = tail)"

definition hw_ring_push :: "hw_ring_t \<Rightarrow> hw_desc_t \<Rightarrow> int \<times> hw_ring_t" where
  "hw_ring_push ring desc =
     (let tail = hw_ring_load_acquire (hr_tail ring);
          head = hw_ring_load_acquire (hr_head ring)
      in if tail - head \<ge> HW_RING_SIZE then (-1, ring)
         else (0, ring\<lparr>hr_desc := (hr_desc ring)[unat (tail AND HW_RING_MASK) := desc],
                       hr_tail := hw_ring_store_release (hr_tail ring) (tail + 1)\<rparr>))"

definition hw_ring_pop :: "hw_ring_t \<Rightarrow> int \<times> hw_desc_t option \<times> hw_ring_t" where
  "hw_ring_pop ring =
     (let head = hw_ring_load_acquire (hr_head ring);
          tail = hw_ring_load_acquire (hr_tail ring)
      in if head = tail then (-1, None, ring)
         else (0, Some (hr_desc ring ! unat (head AND HW_RING_MASK)),
               ring\<lparr>hr_head := hw_ring_store_release (hr_head ring) (head + 1)\<rparr>))"

lemmas hw_ring_defs = hw_ring_push_def hw_ring_pop_def hw_ring_full_def hw_ring_empty_def
  hw_ring_load_acquire_def hw_ring_store_release_def

section \<open>The ring as a bounded queue\<close>

abbreviation hw_ring_inv :: "hw_ring_t \<Rightarrow> bool" where
  "hw_ring_inv \<equiv> rep_wf 65536 hr_head hr_tail hr_desc"

abbreviation hw_ring_contents :: "hw_ring_t \<Rightarrow> hw_desc_t list" where
  "hw_ring_contents \<equiv> rep_contents hr_head hr_tail hr_desc"

text \<open>Success flag and new ring of a push; output and new ring of a pop.\<close>

definition hw_push_obs :: "hw_ring_t \<Rightarrow> hw_desc_t \<Rightarrow> bool \<times> hw_ring_t" where
  "hw_push_obs r d = (fst (hw_ring_push r d) = 0, snd (hw_ring_push r d))"

definition hw_pop_obs :: "hw_ring_t \<Rightarrow> hw_desc_t option \<times> hw_ring_t" where
  "hw_pop_obs r = snd (hw_ring_pop r)"

lemma hw_ring_size_ok: "ring_size_ok 65536"
  by (rule ring_size_okI [of 16]) simp_all

lemma HW_RING_SIZE_num: "HW_RING_SIZE = 65536"
  by (simp add: HW_RING_SIZE_def)

lemma unat_hw_mask [simp]: "unat (i AND HW_RING_MASK) = unat i mod 65536"
  using unat_and_mask [of i 16] by (simp add: HW_RING_MASK_def HW_RING_SIZE_num)

lemma hw_full_iff [simp]: "HW_RING_SIZE \<le> n \<longleftrightarrow> 65536 \<le> unat n"
  by (simp add: word_le_nat_alt HW_RING_SIZE_num)

lemma hw_ring_zero_inv [simp]: "hw_ring_inv hw_ring_zero" and
  hw_ring_zero_contents [simp]: "hw_ring_contents hw_ring_zero = []"
  by (simp_all add: rep_wf_def hw_ring_zero_def ring_wf_def HW_RING_SIZE_num)

lemma hw_ring_zero_indices [simp]: "hr_head hw_ring_zero = 0" "hr_tail hw_ring_zero = 0"
  by (simp_all add: hw_ring_zero_def)

lemma hw_ring_push_full:
  "65536 \<le> unat (hr_tail r - hr_head r) \<Longrightarrow> hw_ring_push r d = (-1, r)"
  by (simp add: hw_ring_defs)

lemma hw_ring_push_room:
  "unat (hr_tail r - hr_head r) < 65536 \<Longrightarrow> hw_ring_push r d =
     (0, r\<lparr>hr_desc := (hr_desc r)[unat (hr_tail r) mod 65536 := d], hr_tail := hr_tail r + 1\<rparr>)"
  by (simp add: hw_ring_defs)

lemma hw_ring_pop_none: "hr_head r = hr_tail r \<Longrightarrow> hw_ring_pop r = (-1, None, r)"
  by (simp add: hw_ring_defs)

lemma hw_ring_pop_some:
  "hr_head r \<noteq> hr_tail r \<Longrightarrow> hw_ring_pop r =
     (0, Some (hr_desc r ! (unat (hr_head r) mod 65536)), r\<lparr>hr_head := hr_head r + 1\<rparr>)"
  by (simp add: hw_ring_defs)

interpretation hwq: wrap_ring hr_head hr_tail hr_desc 65536 hw_push_obs hw_pop_obs
  by unfold_locales
    (auto simp: hw_ring_size_ok hw_push_obs_def hw_pop_obs_def hw_ring_push_full
      hw_ring_push_room hw_ring_pop_none hw_ring_pop_some)

section \<open>Properties\<close>

text \<open>
  C1. The hardware command ring is a lossless FIFO under every sequence of pushes and pops,
  from every well-formed state, however often the 32-bit counters wrap: the descriptors queued
  before the run followed by the accepted ones are exactly the delivered ones followed by those
  still queued, and the ring stays well formed.
\<close>

theorem hw_ring_lossless_fifo:
  assumes "hw_ring_inv r" and "ring_run hw_push_obs hw_pop_obs ops r = (evs, r')"
  shows "hw_ring_contents r @ accepted evs = delivered evs @ hw_ring_contents r' \<and> hw_ring_inv r'"
  using hwq.run_conserves [OF assms(1) _ assms(2)] hwq.run_invar [OF assms(1) _ assms(2)] by simp

definition hw_ring_at_wrap :: hw_ring_t where
  "hw_ring_at_wrap = hw_ring_zero\<lparr>hr_head := UINT32_MAX, hr_tail := UINT32_MAX\<rparr>"

lemma hw_ring_at_wrap_inv: "hw_ring_inv hw_ring_at_wrap" and
  hw_ring_at_wrap_contents: "hw_ring_contents hw_ring_at_wrap = []"
  by (simp_all add: hw_ring_at_wrap_def hw_ring_zero_def rep_wf_def ring_wf_def HW_RING_SIZE_num)

theorem hw_ring_lossless_fifo_witness:
  "hw_ring_inv hw_ring_at_wrap \<and>
   hw_ring_contents (snd (ring_run hw_push_obs hw_pop_obs
      [Push hw_desc_zero, Push (hw_desc_zero\<lparr>hd_opcode := 255\<rparr>), Pop] hw_ring_at_wrap))
     = [hw_desc_zero\<lparr>hd_opcode := 255\<rparr>]"
proof -
  let ?d = "hw_desc_zero\<lparr>hd_opcode := 255\<rparr>"
  let ?ops = "[Push hw_desc_zero, Push ?d, Pop]"
  note inv = hw_ring_at_wrap_inv and empty = hw_ring_at_wrap_contents
  obtain evs r' where run: "ring_run hw_push_obs hw_pop_obs ?ops hw_ring_at_wrap = (evs, r')"
    by fastforce
  have evs: "evs = [Accepted hw_desc_zero, Accepted ?d, Delivered hw_desc_zero]"
    using hwq.run_refines [OF inv _ run] by (simp add: empty)
  have "hw_ring_contents r' = [?d]"
    using hw_ring_lossless_fifo [OF inv run] by (simp add: evs empty)
  then show ?thesis unfolding run snd_conv using inv by simp
qed

text \<open>
  The tests and return codes of the hardware ring are exact on every well-formed ring:
  \<open>hw_ring_full\<close> holds iff 65536 descriptors are queued, \<open>hw_ring_empty\<close> iff none is, a push
  returns -1 and changes nothing exactly when the ring is full, a pop returns -1 and writes no
  output exactly when it is empty.
\<close>

theorem hw_ring_tests_exact:
  assumes "hw_ring_inv r"
  shows "(hw_ring_full r \<longleftrightarrow> length (hw_ring_contents r) = 65536) \<and>
    (hw_ring_empty r \<longleftrightarrow> hw_ring_contents r = []) \<and>
    (hw_ring_push r d = (-1, r) \<longleftrightarrow> hw_ring_full r) \<and>
    (fst (hw_ring_push r d) = 0 \<longleftrightarrow> \<not> hw_ring_full r) \<and>
    (hw_ring_pop r = (-1, None, r) \<longleftrightarrow> hw_ring_empty r) \<and>
    (fst (hw_ring_pop r) = 0 \<longleftrightarrow> \<not> hw_ring_empty r)"
  using hwq.rep_bounded [OF assms] by (auto simp: hw_ring_defs)

theorem hw_ring_tests_exact_witness:
  "hw_ring_inv hw_ring_zero \<and> \<not> hw_ring_full hw_ring_zero \<and> hw_ring_empty hw_ring_zero \<and>
   hw_ring_pop hw_ring_zero = (-1, None, hw_ring_zero)"
  using hw_ring_tests_exact [of hw_ring_zero hw_desc_zero] by simp

end
