(* ===== verification/Infer_Submit.thy ===== *)
theory Infer_Submit
  imports Hw_Ring
begin

text \<open>
  Host submission on the hardware fast path: \<^verbatim>\<open>include/mmio.h\<close>,
  \<^verbatim>\<open>include/infer_submit.h\<close> and \<^verbatim>\<open>src/infer_submit.c\<close>. A pointer the code compares
  with \<open>NULL\<close> is an \<open>option\<close>; the rings and the doorbell register are held by value in the
  context, which owns them during a call.
\<close>

section \<open>MMIO registers and the submission context\<close>

text \<open>A register write is ordered after every earlier store by \<open>mmio_wmb\<close>.\<close>

definition mmio_write32 :: "u32 \<Rightarrow> u32 \<Rightarrow> u32" where
  "mmio_write32 addr value = value"

definition mmio_read32 :: "u32 \<Rightarrow> u32" where
  "mmio_read32 addr = addr"

record infer_hw_ctx_t =
  ic_cmdq :: "hw_ring_t option"
  ic_doneq :: "hw_ring_t option"
  ic_doorbell :: "u32 option"
  ic_gpu_group_id :: u32
  ic_kv_arena_id :: u32

text \<open>The descriptor \<open>infer_submit_decode\<close> builds on its stack.\<close>

definition infer_decode_desc ::
  "infer_hw_ctx_t \<Rightarrow> u32 \<Rightarrow> u64 \<Rightarrow> u64 \<Rightarrow> u32 \<Rightarrow> u32 \<Rightarrow> u32 \<Rightarrow> hw_desc_t" where
  "infer_decode_desc ctx rollout_id kv_offset delta_offset prefix_id seq_len max_tokens =
     \<lparr>hd_opcode = DESC_OP_DECODE,
      hd_flags = (if prefix_id \<noteq> 0 then DESC_FLAG_COW_PREFIX else 0),
      hd_rollout_id = rollout_id,
      hd_kv_arena_id = ic_kv_arena_id ctx,
      hd_prefix_id = prefix_id,
      hd_kv_offset = kv_offset,
      hd_delta_offset = delta_offset,
      hd_seq_len = seq_len,
      hd_max_tokens = max_tokens,
      hd_reward_model_id = 0,
      hd_reserved0 = ic_gpu_group_id ctx,
      hd_user_data = ucast rollout_id,
      hd_checksum_or_cookie = kv_offset XOR delta_offset XOR push_bit 32 (ucast rollout_id)\<rparr>"

definition infer_submit_decode ::
  "infer_hw_ctx_t option \<Rightarrow> u32 \<Rightarrow> u64 \<Rightarrow> u64 \<Rightarrow> u32 \<Rightarrow> u32 \<Rightarrow> u32 \<Rightarrow> int \<times> infer_hw_ctx_t option" where
  "infer_submit_decode ctx rollout_id kv_offset delta_offset prefix_id seq_len max_tokens =
     (case ctx of
        None \<Rightarrow> (-1, ctx)
      | Some c \<Rightarrow>
          (case (ic_cmdq c, ic_doorbell c) of
             (Some cmdq, Some doorbell) \<Rightarrow>
               (let desc = infer_decode_desc c rollout_id kv_offset delta_offset prefix_id
                             seq_len max_tokens;
                    (rc, cmdq') = hw_ring_push cmdq desc
                in if rc \<noteq> 0 then (-1, Some (c\<lparr>ic_cmdq := Some cmdq'\<rparr>))
                   else (0, Some (c\<lparr>ic_cmdq := Some cmdq',
                                    ic_doorbell := Some (mmio_write32 doorbell
                                      (hw_ring_load_acquire (hr_tail cmdq')))\<rparr>)))
           | _ \<Rightarrow> (-1, ctx)))"

lemma infer_submit_decode_returns:
  "\<exists>rc c'. infer_submit_decode (Some c) rid kv dl pfx sl mx = (rc, Some c')"
  by (cases "ic_cmdq c"; cases "ic_doorbell c")
    (simp_all add: infer_submit_decode_def case_prod_unfold)

section \<open>Properties\<close>

text \<open>
  On a context with a well-formed command ring and a doorbell, \<open>infer_submit_decode\<close>
  succeeds exactly when the ring has room. On success the one new queued descriptor is a DECODE
  carrying the arguments, the COW flag iff a prefix is named, and the context's arena and group;
  the doorbell holds the new producer index. When the ring is full it returns -1 and changes
  nothing.
\<close>

theorem infer_submit_decode_spec:
  assumes "ic_cmdq c = Some q" "ic_doorbell c = Some db" "hw_ring_inv q"
    and "infer_submit_decode (Some c) rid kv dl pfx sl mx = (rc, Some c')"
  shows "(length (hw_ring_contents q) = 65536 \<longrightarrow> rc = -1 \<and> c' = c) \<and>
    (length (hw_ring_contents q) < 65536 \<longrightarrow> rc = 0 \<and>
      (\<exists>q' d. ic_cmdq c' = Some q' \<and> hw_ring_inv q' \<and>
        hw_ring_contents q' = hw_ring_contents q @ [d] \<and>
        ic_doorbell c' = Some (hr_tail q + 1) \<and> hr_tail q' = hr_tail q + 1 \<and>
        hd_opcode d = DESC_OP_DECODE \<and> hd_rollout_id d = rid \<and> hd_prefix_id d = pfx \<and>
        hd_kv_offset d = kv \<and> hd_delta_offset d = dl \<and> hd_seq_len d = sl \<and>
        hd_max_tokens d = mx \<and> hd_kv_arena_id d = ic_kv_arena_id c \<and>
        hd_reserved0 d = ic_gpu_group_id c \<and>
        (bit (hd_flags d) 2 \<longleftrightarrow> pfx \<noteq> 0)))"
proof -
  let ?d = "infer_decode_desc c rid kv dl pfx sl mx"
  obtain b q' where obs: "hw_push_obs q ?d = (b, q')" by fastforce
  have d: "hd_opcode ?d = DESC_OP_DECODE" "hd_rollout_id ?d = rid" "hd_prefix_id ?d = pfx"
    "hd_kv_offset ?d = kv" "hd_delta_offset ?d = dl" "hd_seq_len ?d = sl" "hd_max_tokens ?d = mx"
    "hd_kv_arena_id ?d = ic_kv_arena_id c" "hd_reserved0 ?d = ic_gpu_group_id c"
    "bit (hd_flags ?d) 2 \<longleftrightarrow> pfx \<noteq> 0"
    by (simp_all add: infer_decode_desc_def DESC_FLAG_COW_PREFIX_def bit_push_bit_iff)
  have full: "rc = -1 \<and> c' = c" if "length (hw_ring_contents q) = 65536"
    using that assms by (auto simp: infer_submit_decode_def hw_ring_push_full)
  have room: "rc = 0 \<and> ic_cmdq c' = Some q' \<and> ic_doorbell c' = Some (hr_tail q + 1)"
    if "length (hw_ring_contents q) < 65536"
    using that assms obs
    by (auto simp: infer_submit_decode_def hw_ring_push_room hw_push_obs_def mmio_write32_def
        hw_ring_load_acquire_def)
  show ?thesis
    using full room hwq.rep_push_room_contents [OF assms(3) _ obs] d by blast
qed

definition infer_ctx_example :: infer_hw_ctx_t where
  "infer_ctx_example = \<lparr>ic_cmdq = Some hw_ring_zero, ic_doneq = Some hw_ring_zero,
     ic_doorbell = Some 0, ic_gpu_group_id = 7, ic_kv_arena_id = 42\<rparr>"

theorem infer_submit_decode_spec_witness:
  "\<exists>c' q' d. infer_submit_decode (Some infer_ctx_example) 99 0x1000 0x2000 5 17 64 = (0, Some c') \<and>
     ic_cmdq c' = Some q' \<and> ic_doorbell c' = Some 1 \<and> hw_ring_contents q' = [d] \<and>
     hd_rollout_id d = 99 \<and> hd_kv_arena_id d = 42"
proof -
  obtain rc c' where run:
    "infer_submit_decode (Some infer_ctx_example) 99 0x1000 0x2000 5 17 64 = (rc, Some c')"
    using infer_submit_decode_returns by metis
  have "ic_cmdq infer_ctx_example = Some hw_ring_zero" "ic_doorbell infer_ctx_example = Some 0"
    by (simp_all add: infer_ctx_example_def)
  from infer_submit_decode_spec [OF this hw_ring_zero_inv run] run show ?thesis
    by (auto simp: infer_ctx_example_def)
qed

text \<open>
  \<open>infer_submit_decode\<close> rejects a null context, command ring or doorbell with -1 and
  leaves the context as it was.
\<close>

theorem infer_submit_decode_null:
  assumes "case ctx of None \<Rightarrow> True | Some c \<Rightarrow> ic_cmdq c = None \<or> ic_doorbell c = None"
  shows "infer_submit_decode ctx rid kv dl pfx sl mx = (-1, ctx)"
  using assms by (auto simp: infer_submit_decode_def split: option.splits)

theorem infer_submit_decode_null_witness:
  "infer_submit_decode (Some (infer_ctx_example\<lparr>ic_doorbell := None\<rparr>)) 1 0 0 0 0 8
     = (-1, Some (infer_ctx_example\<lparr>ic_doorbell := None\<rparr>))"
  by (rule infer_submit_decode_null) (simp add: infer_ctx_example_def)

end
