(* ===== verification/Hw_Worker.thy ===== *)
theory Hw_Worker
  imports Hw_Ring
begin

text \<open>
  The CPU worker simulator of the hardware fast path: \<^verbatim>\<open>include/hw_worker_sim.h\<close> and
  \<^verbatim>\<open>src/hw_worker_sim.c\<close>. The decode loop of one descriptor is a terminating function; the
  polling loop is a machine whose ticks are one ring operation each, so that the spin on a full
  completion ring is visible. \<open>hw_worker_sim_run\<close> iterates the ticks under fuel; the relation
  \<open>hw_sys_step\<close> interleaves them with an arbitrary host.
\<close>

section \<open>Decoding one descriptor\<close>

definition fake_decode_token :: "hw_desc_t \<Rightarrow> bool \<times> hw_desc_t" where
  "fake_decode_token desc =
     (let desc' = desc\<lparr>hd_seq_len := hd_seq_len desc + 1\<rparr>
      in (hd_seq_len desc' \<ge> hd_max_tokens desc', desc'))"

function hw_decode_loop :: "hw_desc_t \<Rightarrow> u64 \<Rightarrow> hw_desc_t \<times> u64" where
  "hw_decode_loop desc decoded_tokens =
     (if hd_seq_len desc < hd_max_tokens desc then
        let (done_now, desc1) = fake_decode_token desc; tokens1 = decoded_tokens + 1
        in if done_now then (desc1\<lparr>hd_flags := hd_flags desc1 OR DESC_FLAG_DONE\<rparr>, tokens1)
           else if hd_seq_len desc1 AND 31 = 0
             then (desc1\<lparr>hd_flags := hd_flags desc1 OR DESC_FLAG_NEEDS_REWARD\<rparr>, tokens1)
           else hw_decode_loop desc1 tokens1
      else (desc, decoded_tokens))"
  by pat_completeness auto
termination
proof (relation "measure (\<lambda>(d, t). unat (hd_max_tokens d) - unat (hd_seq_len d))", goal_cases)
  case 1
  then show ?case by simp
next
  case (2 d t x done_now d1 t1)
  have "unat (hd_seq_len d) < unat (hd_max_tokens d)" using 2 by (simp add: word_less_nat_alt)
  moreover have "unat (hd_seq_len d + 1) = Suc (unat (hd_seq_len d))"
    using calculation unat_lt32 [of "hd_max_tokens d"] unfolding unat_add1 by simp
  ultimately show ?case using 2 by (auto simp: fake_decode_token_def)
qed

declare hw_decode_loop.simps [simp del]

section \<open>The worker machine\<close>

record hw_worker_sim_t =
  ws_cmdq :: hw_ring_t
  ws_doneq :: hw_ring_t
  ws_stop :: u32
  ws_decoded_tokens :: u64
  ws_completions :: u64

text \<open>
  Where the worker is: at the head of its loop, spinning on the completion ring with a finished
  descriptor, about to count a completion it has pushed, or returned.
\<close>

datatype hw_worker_pc = WLoop | WPushing hw_desc_t | WCounting | WReturned

fun hw_worker_tick :: "hw_worker_pc \<Rightarrow> hw_worker_sim_t \<Rightarrow> hw_worker_pc \<times> hw_worker_sim_t" where
  "hw_worker_tick WLoop w =
     (if ws_stop w \<noteq> 0 then (WReturned, w)
      else (case hw_ring_pop (ws_cmdq w) of
          (rc, None, q) \<Rightarrow> (WLoop, w)
        | (rc, Some desc, q) \<Rightarrow>
            (let w1 = w\<lparr>ws_cmdq := q\<rparr>
             in if hd_opcode desc = DESC_OP_STOP then (WReturned, w1)
                else if hd_opcode desc \<noteq> DESC_OP_DECODE then (WLoop, w1)
                else (let (desc1, tokens) = hw_decode_loop desc (ws_decoded_tokens w1)
                      in (WPushing desc1, w1\<lparr>ws_decoded_tokens := tokens\<rparr>)))))"
| "hw_worker_tick (WPushing desc) w =
     (let (rc, q) = hw_ring_push (ws_doneq w) desc
      in if rc \<noteq> 0 then (WPushing desc, w\<lparr>ws_doneq := q\<rparr>)
         else (WCounting, w\<lparr>ws_doneq := q\<rparr>))"
| "hw_worker_tick WCounting w = (WLoop, w\<lparr>ws_completions := ws_completions w + 1\<rparr>)"
| "hw_worker_tick WReturned w = (WReturned, w)"

declare hw_worker_tick.simps [simp del]

text \<open>\<open>hw_worker_sim_run\<close> without a host: ticks until the worker returns.\<close>

fun hw_worker_run_from ::
  "nat \<Rightarrow> hw_worker_pc \<Rightarrow> hw_worker_sim_t \<Rightarrow> hw_worker_sim_t option" where
  "hw_worker_run_from fuel WReturned w = Some w"
| "hw_worker_run_from 0 pc w = None"
| "hw_worker_run_from (Suc fuel) pc w =
     (let (pc', w') = hw_worker_tick pc w in hw_worker_run_from fuel pc' w')"

definition hw_worker_sim_run :: "nat \<Rightarrow> hw_worker_sim_t \<Rightarrow> hw_worker_sim_t option" where
  "hw_worker_sim_run fuel w = hw_worker_run_from fuel WLoop w"

section \<open>Closed form of the decode loop\<close>

text \<open>
  Where the loop stops: at the token budget or at the next multiple of 32, whichever is first.
\<close>

definition hw_decode_stop :: "hw_desc_t \<Rightarrow> nat" where
  "hw_decode_stop d = min (unat (hd_max_tokens d)) (32 * (unat (hd_seq_len d) div 32 + 1))"

definition hw_decoded :: "hw_desc_t \<Rightarrow> hw_desc_t" where
  "hw_decoded d = (if hd_seq_len d < hd_max_tokens d then
     d\<lparr>hd_seq_len := of_nat (hw_decode_stop d),
       hd_flags := hd_flags d OR
         (if hw_decode_stop d = unat (hd_max_tokens d) then DESC_FLAG_DONE
          else DESC_FLAG_NEEDS_REWARD)\<rparr> else d)"

definition hw_decode_count :: "hw_desc_t \<Rightarrow> nat" where
  "hw_decode_count d = (if hd_seq_len d < hd_max_tokens d
     then hw_decode_stop d - unat (hd_seq_len d) else 0)"

lemma unat_and_31: "unat (x AND 31 :: u32) = unat x mod 32"
  using unat_and_mask [of x 5] by simp

lemma and_31_eq_0: "(x AND 31 = (0::u32)) \<longleftrightarrow> unat x mod 32 = 0"
  by (metis unat_and_31 unat_eq_0)

lemma unat_Suc_less:
  fixes s m :: u32
  assumes "s < m"
  shows "unat (s + 1) = Suc (unat s)"
  using assms unat_lt32 [of m] unfolding unat_add1 by (simp add: word_less_nat_alt)

lemma hw_decode_stop_step:
  assumes "hd_seq_len d < hd_max_tokens d"
    and "unat (hd_seq_len d + 1) mod 32 \<noteq> 0"
  shows "hw_decode_stop (d\<lparr>hd_seq_len := hd_seq_len d + 1\<rparr>) = hw_decode_stop d"
proof -
  have "Suc (unat (hd_seq_len d)) mod 32 \<noteq> 0"
    using assms(2) unat_Suc_less [OF assms(1)] by simp
  then have "Suc (unat (hd_seq_len d)) div 32 = unat (hd_seq_len d) div 32"
    by (simp add: div_Suc)
  then show ?thesis
    by (simp add: hw_decode_stop_def unat_Suc_less [OF assms(1)])
qed

lemma hw_decode_stop_gt:
  "hd_seq_len d < hd_max_tokens d \<Longrightarrow> unat (hd_seq_len d) < hw_decode_stop d"
  by (simp add: hw_decode_stop_def word_less_nat_alt)

lemma hw_decode_stop_le: "hw_decode_stop d \<le> unat (hd_max_tokens d)"
  by (simp add: hw_decode_stop_def)

lemma hw_decode_loop_eq:
  "hw_decode_loop d t = (hw_decoded d, t + of_nat (hw_decode_count d))"
proof (induction d t rule: hw_decode_loop.induct)
  case (1 d t)
  show ?case
  proof (cases "hd_seq_len d < hd_max_tokens d")
    case False
    then show ?thesis
      by (simp add: hw_decode_loop.simps [of d t] hw_decoded_def hw_decode_count_def)
  next
    case less: True
    let ?d1 = "d\<lparr>hd_seq_len := hd_seq_len d + 1\<rparr>"
    note Suc = unat_Suc_less [OF less]
    have max: "unat (hd_seq_len d) < unat (hd_max_tokens d)" using less by (simp add: word_less_nat_alt)
    consider (fin) "hd_max_tokens d \<le> hd_seq_len d + 1"
      | (reward) "hd_seq_len d + 1 < hd_max_tokens d" "(hd_seq_len d + 1) AND 31 = 0"
      | (more) "hd_seq_len d + 1 < hd_max_tokens d" "(hd_seq_len d + 1) AND 31 \<noteq> 0"
      by (meson linorder_not_le)
    then show ?thesis
    proof cases
      case fin
      then have eq: "unat (hd_max_tokens d) = Suc (unat (hd_seq_len d))"
        using max Suc by (simp add: word_le_nat_alt)
      then have stop: "hw_decode_stop d = Suc (unat (hd_seq_len d))"
        by (simp add: hw_decode_stop_def)
      show ?thesis
        using less fin eq stop
        by (simp add: hw_decode_loop.simps [of d t] fake_decode_token_def hw_decoded_def
            hw_decode_count_def add.commute)
    next
      case reward
      then have "Suc (unat (hd_seq_len d)) mod 32 = 0" using Suc by (simp add: and_31_eq_0)
      then have "32 * (unat (hd_seq_len d) div 32 + 1) = Suc (unat (hd_seq_len d))" by presburger
      moreover have "Suc (unat (hd_seq_len d)) < unat (hd_max_tokens d)"
        using reward(1) Suc by (simp add: word_less_nat_alt)
      ultimately have stop: "hw_decode_stop d = Suc (unat (hd_seq_len d))"
        "hw_decode_stop d \<noteq> unat (hd_max_tokens d)"
        by (simp_all add: hw_decode_stop_def)
      show ?thesis
        using less reward stop
        by (simp add: hw_decode_loop.simps [of d t] fake_decode_token_def hw_decoded_def
            hw_decode_count_def add.commute linorder_not_le [symmetric])
    next
      case more
      have stop: "hw_decode_stop ?d1 = hw_decode_stop d"
        using more(2) by (intro hw_decode_stop_step less) (simp add: and_31_eq_0)
      have IH: "hw_decode_loop ?d1 (t + 1) = (hw_decoded ?d1, (t + 1) + of_nat (hw_decode_count ?d1))"
        using 1 less more by (simp add: fake_decode_token_def)
      have "hw_decode_loop d t = hw_decode_loop ?d1 (t + 1)"
        using less more
        by (simp add: hw_decode_loop.simps [of d t] fake_decode_token_def linorder_not_le [symmetric])
      moreover have "hw_decoded ?d1 = hw_decoded d"
        using less more(1) stop by (simp add: hw_decoded_def)
      moreover have "hw_decode_count d = Suc (hw_decode_count ?d1)"
        using less more(1) stop Suc hw_decode_stop_gt [of ?d1] by (simp add: hw_decode_count_def)
      ultimately show ?thesis using IH by (simp add: add.assoc)
    qed
  qed
qed

lemma hw_decoded_seq_len:
  assumes "hd_seq_len d < hd_max_tokens d"
  shows "unat (hd_seq_len (hw_decoded d)) = hw_decode_stop d"
proof -
  have "hw_decode_stop d < 2 ^ 32"
    using hw_decode_stop_le [of d] unat_lt32 [of "hd_max_tokens d"] by linarith
  then show ?thesis using assms by (simp add: hw_decoded_def unat_of_nat)
qed

section \<open>One descriptor through the worker\<close>

definition hw_worker_inv :: "hw_worker_sim_t \<Rightarrow> bool" where
  "hw_worker_inv w \<longleftrightarrow> hw_ring_inv (ws_cmdq w) \<and> hw_ring_inv (ws_doneq w)"

definition is_decode :: "hw_desc_t \<Rightarrow> bool" where
  "is_decode d \<longleftrightarrow> hd_opcode d = DESC_OP_DECODE"

definition is_stop :: "hw_desc_t \<Rightarrow> bool" where
  "is_stop d \<longleftrightarrow> hd_opcode d = DESC_OP_STOP"

lemma decode_not_stop: "is_decode d \<Longrightarrow> \<not> is_stop d"
  by (simp add: is_decode_def is_stop_def desc_consts)

lemma hw_pop_Cons:
  assumes "hw_ring_inv q" "hw_ring_contents q = d # ds"
  obtains q' where "hw_ring_pop q = (0, Some d, q')" "hw_ring_inv q'" "hw_ring_contents q' = ds"
proof -
  have ne: "hr_head q \<noteq> hr_tail q"
    using assms(2) rep_contents_Nil [of hr_head hr_tail hr_desc q] by auto
  obtain y q' where obs: "hw_pop_obs q = (y, q')" by fastforce
  from hwq.rep_pop_first [OF assms this] have "y = Some d" "hw_ring_inv q'" "hw_ring_contents q' = ds"
    by auto
  moreover have "hw_ring_pop q = (0, y, q')"
    using obs hw_ring_pop_some [OF ne] by (simp add: hw_pop_obs_def)
  ultimately show thesis using that by blast
qed

lemma hw_push_room:
  assumes "hw_ring_inv q" "length (hw_ring_contents q) < 65536"
  obtains q' where "hw_ring_push q d = (0, q')" "hw_ring_inv q'"
    "hw_ring_contents q' = hw_ring_contents q @ [d]"
proof -
  obtain b q' where obs: "hw_push_obs q d = (b, q')" by fastforce
  from hwq.rep_push_room_contents [OF assms this]
  have "b" "hw_ring_inv q'" "hw_ring_contents q' = hw_ring_contents q @ [d]" by auto
  moreover from this obs have "hw_ring_push q d = (0, q')"
    by (auto simp: hw_push_obs_def prod_eq_iff)
  ultimately show thesis using that by blast
qed

lemma hw_tick_pop:
  assumes "hw_ring_pop (ws_cmdq w) = (0, Some d, q)" "ws_stop w = 0"
  shows "hw_worker_tick WLoop w =
    (if is_stop d then (WReturned, w\<lparr>ws_cmdq := q\<rparr>)
     else if is_decode d then (WPushing (hw_decoded d), w\<lparr>ws_cmdq := q,
       ws_decoded_tokens := ws_decoded_tokens w + of_nat (hw_decode_count d)\<rparr>)
     else (WLoop, w\<lparr>ws_cmdq := q\<rparr>))"
  using assms by (simp add: hw_worker_tick.simps is_stop_def is_decode_def hw_decode_loop_eq)

text \<open>What the worker owes for a list of consumed descriptors.\<close>

definition hw_outputs :: "hw_desc_t list \<Rightarrow> hw_desc_t list" where
  "hw_outputs ds = map hw_decoded (filter is_decode ds)"

definition hw_token_total :: "hw_desc_t list \<Rightarrow> nat" where
  "hw_token_total ds = sum_list (map hw_decode_count (filter is_decode ds))"

lemma hw_outputs_simps [simp]:
  "hw_outputs [] = []"
  "hw_outputs (ds @ es) = hw_outputs ds @ hw_outputs es"
  "hw_outputs (d # ds) = (if is_decode d then hw_decoded d # hw_outputs ds else hw_outputs ds)"
  by (simp_all add: hw_outputs_def)

lemma hw_token_total_simps [simp]:
  "hw_token_total [] = 0"
  "hw_token_total (ds @ es) = hw_token_total ds + hw_token_total es"
  "hw_token_total (d # ds) = (if is_decode d then hw_decode_count d else 0) + hw_token_total ds"
  by (simp_all add: hw_token_total_def)

section \<open>The worker alone\<close>

lemma hw_worker_run_Suc:
  "pc \<noteq> WReturned \<Longrightarrow> hw_worker_run_from (Suc fuel) pc w =
     hw_worker_run_from fuel (fst (hw_worker_tick pc w)) (snd (hw_worker_tick pc w))"
  by (cases pc) (simp_all add: case_prod_unfold)

lemma hw_worker_run_returned: "hw_worker_run_from fuel WReturned w = Some w"
  by (cases fuel) simp_all

lemma hw_worker_run_0: "pc \<noteq> WReturned \<Longrightarrow> hw_worker_run_from 0 pc w = None"
  by (cases pc) simp_all

declare hw_worker_run_from.simps [simp del]
declare hw_worker_run_returned [simp]

lemma hw_worker_run_mono:
  "hw_worker_run_from fuel pc w = Some w' \<Longrightarrow> hw_worker_run_from (fuel + k) pc w = Some w'"
proof (induction fuel arbitrary: pc w)
  case 0
  then show ?case by (cases "pc = WReturned") (simp_all add: hw_worker_run_0)
next
  case (Suc fuel)
  then show ?case by (cases "pc = WReturned") (simp_all add: hw_worker_run_Suc)
qed

lemma hw_worker_run_stops:
  assumes "hw_worker_inv w" "ws_stop w = 0"
    and "hw_ring_contents (ws_cmdq w) = ds @ st # rest"
    and "list_all (\<lambda>d. \<not> is_stop d) ds" "is_stop st"
    and "length (hw_ring_contents (ws_doneq w)) + length (hw_outputs ds) \<le> 65536"
  shows "\<exists>w'. hw_worker_run_from (3 * length ds + 1) WLoop w = Some w' \<and>
    hw_ring_contents (ws_cmdq w') = rest \<and>
    hw_ring_contents (ws_doneq w') = hw_ring_contents (ws_doneq w) @ hw_outputs ds \<and>
    ws_completions w' = ws_completions w + of_nat (length (hw_outputs ds)) \<and>
    ws_decoded_tokens w' = ws_decoded_tokens w + of_nat (hw_token_total ds)"
  using assms
proof (induction ds arbitrary: w)
  case Nil
  then have "hw_ring_inv (ws_cmdq w)" "hw_ring_contents (ws_cmdq w) = st # rest"
    by (simp_all add: hw_worker_inv_def)
  then obtain q where "hw_ring_pop (ws_cmdq w) = (0, Some st, q)" "hw_ring_inv q"
    "hw_ring_contents q = rest"
    by (rule hw_pop_Cons)
  then show ?case using Nil.prems by (simp add: hw_tick_pop hw_worker_run_Suc)
next
  case (Cons d ds)
  have inv: "hw_ring_inv (ws_cmdq w)" "hw_ring_inv (ws_doneq w)"
    using Cons.prems(1) by (simp_all add: hw_worker_inv_def)
  have "hw_ring_contents (ws_cmdq w) = d # ds @ st # rest" using Cons.prems(3) by simp
  with inv(1) obtain q where pop: "hw_ring_pop (ws_cmdq w) = (0, Some d, q)"
    and q: "hw_ring_inv q" "hw_ring_contents q = ds @ st # rest"
    by (rule hw_pop_Cons)
  note tick = hw_tick_pop [OF pop Cons.prems(2)]
  show ?case
  proof (cases "is_decode d")
    case False
    let ?w = "w\<lparr>ws_cmdq := q\<rparr>"
    obtain w' where run: "hw_worker_run_from (3 * length ds + 1) WLoop ?w = Some w'"
      and w': "hw_ring_contents (ws_cmdq w') = rest"
        "hw_ring_contents (ws_doneq w') = hw_ring_contents (ws_doneq w) @ hw_outputs ds"
        "ws_completions w' = ws_completions w + of_nat (length (hw_outputs ds))"
        "ws_decoded_tokens w' = ws_decoded_tokens w + of_nat (hw_token_total ds)"
      using Cons.IH [of ?w] Cons.prems q inv False by (auto simp: hw_worker_inv_def)
    have "hw_worker_run_from (3 * length ds + 3) WLoop ?w = Some w'" using hw_worker_run_mono [OF run, of 2] by (simp add: numeral_eq_Suc)
    then have "hw_worker_run_from (Suc (3 * length ds + 3)) WLoop w = Some w'"
      using Cons.prems(4) tick False hw_worker_run_Suc [of WLoop "3 * length ds + 3" w] by simp
    moreover have "Suc (3 * length ds + 3) = 3 * length (d # ds) + 1" by simp
    ultimately have "hw_worker_run_from (3 * length (d # ds) + 1) WLoop w = Some w'" by (simp only:)
    then show ?thesis using w' False by auto
  next
    case True
    let ?w = "w\<lparr>ws_cmdq := q, ws_decoded_tokens := ws_decoded_tokens w + of_nat (hw_decode_count d)\<rparr>"
    have "length (hw_ring_contents (ws_doneq w)) < 65536" using Cons.prems(6) True by simp
    with inv(2) obtain dq where push: "hw_ring_push (ws_doneq w) (hw_decoded d) = (0, dq)"
      and dq: "hw_ring_inv dq" "hw_ring_contents dq = hw_ring_contents (ws_doneq w) @ [hw_decoded d]"
      by (rule hw_push_room)
    let ?w1 = "?w\<lparr>ws_doneq := dq\<rparr>"
    let ?w2 = "?w1\<lparr>ws_completions := ws_completions w + 1\<rparr>"
    have tick2: "hw_worker_tick (WPushing (hw_decoded d)) ?w = (WCounting, ?w1)" "hw_worker_tick WCounting ?w1 = (WLoop, ?w2)"
      using push by (simp_all add: hw_worker_tick.simps)
    obtain w' where "hw_worker_run_from (3 * length ds + 1) WLoop ?w2 = Some w'"
      and w': "hw_ring_contents (ws_cmdq w') = rest"
        "hw_ring_contents (ws_doneq w') = hw_ring_contents dq @ hw_outputs ds"
        "ws_completions w' = ws_completions w + 1 + of_nat (length (hw_outputs ds))"
        "ws_decoded_tokens w' = ws_decoded_tokens ?w + of_nat (hw_token_total ds)"
      using Cons.IH [of ?w2] Cons.prems q dq True by (auto simp: hw_worker_inv_def)
    moreover have "3 * length (d # ds) + 1 = Suc (Suc (Suc (3 * length ds + 1)))" by simp
    ultimately have "hw_worker_run_from (3 * length (d # ds) + 1) WLoop w = Some w'"
      using tick tick2 True decode_not_stop [OF True] by (simp only: hw_worker_run_Suc) (simp add: hw_worker_run_Suc)
    then show ?thesis using w' dq(2) True by (auto simp: add.assoc)
  qed
qed

section \<open>Worker and host interleaved\<close>

text \<open>
  The host submits, polls and raises the stop flag at any time between worker ticks.
  \<open>sy_submitted\<close> and \<open>sy_polled\<close> record what the host pushed and received.
\<close>

record hw_sys =
  sy_pc :: hw_worker_pc
  sy_worker :: hw_worker_sim_t
  sy_submitted :: "hw_desc_t list"
  sy_polled :: "hw_desc_t list"

definition hw_sys_init :: hw_sys where
  "hw_sys_init = \<lparr>sy_pc = WLoop,
     sy_worker = \<lparr>ws_cmdq = hw_ring_zero, ws_doneq = hw_ring_zero, ws_stop = 0,
       ws_decoded_tokens = 0, ws_completions = 0\<rparr>,
     sy_submitted = [], sy_polled = []\<rparr>"

inductive hw_sys_step :: "hw_sys \<Rightarrow> hw_sys \<Rightarrow> bool" where
  host_submit: "hw_ring_push (ws_cmdq (sy_worker s)) d = (0, q) \<Longrightarrow>
     hw_sys_step s (s\<lparr>sy_worker := (sy_worker s)\<lparr>ws_cmdq := q\<rparr>,
                      sy_submitted := sy_submitted s @ [d]\<rparr>)"
| host_poll: "hw_ring_pop (ws_doneq (sy_worker s)) = (0, Some d, q) \<Longrightarrow>
     hw_sys_step s (s\<lparr>sy_worker := (sy_worker s)\<lparr>ws_doneq := q\<rparr>,
                      sy_polled := sy_polled s @ [d]\<rparr>)"
| host_stop: "hw_sys_step s (s\<lparr>sy_worker := (sy_worker s)\<lparr>ws_stop := v\<rparr>\<rparr>)"
| worker_tick: "hw_worker_tick (sy_pc s) (sy_worker s) = (pc, w) \<Longrightarrow>
     hw_sys_step s (s\<lparr>sy_pc := pc, sy_worker := w\<rparr>)"

inductive hw_sys_reachable :: "hw_sys \<Rightarrow> bool" where
  reach_init: "hw_sys_reachable hw_sys_init"
| reach_step: "hw_sys_reachable s \<Longrightarrow> hw_sys_step s t \<Longrightarrow> hw_sys_reachable t"

inductive_cases hw_sys_stepE: "hw_sys_step s t"

fun in_flight :: "hw_worker_pc \<Rightarrow> hw_desc_t list" where
  "in_flight (WPushing d) = [d]"
| "in_flight pc = []"

text \<open>
  The consumed descriptors are a prefix of the submitted ones, and what they owe is exactly
  what was polled, is queued for the host or is about to be pushed.
\<close>

definition hw_sys_inv :: "hw_sys \<Rightarrow> bool" where
  "hw_sys_inv s \<longleftrightarrow> hw_worker_inv (sy_worker s) \<and>
     (\<exists>consumed.
        sy_submitted s = consumed @ hw_ring_contents (ws_cmdq (sy_worker s)) \<and>
        hw_outputs consumed =
          sy_polled s @ hw_ring_contents (ws_doneq (sy_worker s)) @ in_flight (sy_pc s) \<and>
        ws_decoded_tokens (sy_worker s) = of_nat (hw_token_total consumed) \<and>
        ws_completions (sy_worker s) + of_bool (sy_pc s = WCounting) =
          of_nat (length (sy_polled s @ hw_ring_contents (ws_doneq (sy_worker s)))))"

lemma hw_sys_init_inv: "hw_sys_inv hw_sys_init"
  by (simp add: hw_sys_inv_def hw_sys_init_def hw_worker_inv_def)

lemma hw_push_0:
  assumes "hw_ring_inv q" "hw_ring_push q d = (0, q')"
  shows "hw_ring_inv q' \<and> hw_ring_contents q' = hw_ring_contents q @ [d]"
proof -
  have "unat (hr_tail q - hr_head q) < 65536"
    using assms(2) hw_ring_push_full [of q d] by (cases "65536 \<le> unat (hr_tail q - hr_head q)") auto
  then show ?thesis
    using hwq.rep_push_room_contents [OF assms(1), of d True q'] assms(2)
    by (simp add: hw_push_obs_def)
qed

lemma hw_pop_0:
  assumes "hw_ring_inv q" "hw_ring_pop q = (rc, Some d, q')"
  shows "hw_ring_inv q' \<and> hw_ring_contents q = d # hw_ring_contents q'"
proof (cases "hw_ring_contents q")
  case Nil
  then show ?thesis using assms(2) hw_ring_pop_none [of q] by simp
next
  case (Cons e es)
  with assms(1) obtain q1 where "hw_ring_pop q = (0, Some e, q1)" "hw_ring_inv q1"
    "hw_ring_contents q1 = es" by (rule hw_pop_Cons)
  with assms(2) Cons show ?thesis by simp
qed

lemma hw_tick_inv:
  assumes "hw_sys_inv s" "hw_worker_tick (sy_pc s) (sy_worker s) = (pc, w)"
  shows "hw_sys_inv (s\<lparr>sy_pc := pc, sy_worker := w\<rparr>)"
proof (cases "sy_pc s")
  case WReturned
  with assms show ?thesis by (auto simp: hw_worker_tick.simps hw_sys_inv_def)
next
  case WCounting
  with assms show ?thesis by (auto simp: hw_worker_tick.simps hw_sys_inv_def hw_worker_inv_def simp del: length_rep_contents)
next
  case (WPushing d)
  obtain rc q where push: "hw_ring_push (ws_doneq (sy_worker s)) d = (rc, q)" by fastforce
  from assms(1) have inv: "hw_ring_inv (ws_doneq (sy_worker s))"
    by (simp add: hw_sys_inv_def hw_worker_inv_def)
  show ?thesis
  proof (cases "rc = 0")
    case True
    with hw_push_0 [OF inv] push assms WPushing show ?thesis
      by (auto simp: hw_worker_tick.simps hw_sys_inv_def hw_worker_inv_def
          simp del: length_rep_contents)
  next
    case False
    then have "q = ws_doneq (sy_worker s)"
      using push by (auto simp: hw_ring_push_def split: if_splits)
    with False push assms(2) WPushing have "pc = sy_pc s" "w = sy_worker s"
      by (auto simp: hw_worker_tick.simps)
    with assms(1) show ?thesis by (simp add: hw_sys_inv_def)
  qed
next
  case WLoop
  show ?thesis
  proof (cases "ws_stop (sy_worker s) = 0")
    case False
    with assms WLoop show ?thesis by (auto simp: hw_worker_tick.simps hw_sys_inv_def)
  next
    case run: True
    from assms(1) have inv: "hw_ring_inv (ws_cmdq (sy_worker s))"
      by (simp add: hw_sys_inv_def hw_worker_inv_def)
    show ?thesis
    proof (cases "hw_ring_contents (ws_cmdq (sy_worker s))")
      case Nil
      then have "hw_ring_pop (ws_cmdq (sy_worker s)) = (-1, None, ws_cmdq (sy_worker s))"
        by (simp add: hw_ring_pop_none)
      with assms WLoop run show ?thesis by (auto simp: hw_worker_tick.simps hw_sys_inv_def)
    next
      case (Cons d ds)
      with inv obtain q where pop: "hw_ring_pop (ws_cmdq (sy_worker s)) = (0, Some d, q)"
        and q: "hw_ring_inv q" "hw_ring_contents q = ds" by (rule hw_pop_Cons)
      from assms(1) obtain consumed where
        c: "sy_submitted s = (consumed @ [d]) @ ds"
          "hw_outputs consumed = sy_polled s @ hw_ring_contents (ws_doneq (sy_worker s))"
          "ws_decoded_tokens (sy_worker s) = of_nat (hw_token_total consumed)"
        using Cons WLoop by (auto simp: hw_sys_inv_def)
      show ?thesis
        using assms WLoop hw_tick_pop [OF pop run] q c decode_not_stop [of d]
        unfolding hw_sys_inv_def hw_worker_inv_def
        by (intro conjI exI [of _ "consumed @ [d]"])
          (auto split: if_splits simp del: length_rep_contents)
    qed
  qed
qed

lemma hw_sys_step_inv: "hw_sys_step s t \<Longrightarrow> hw_sys_inv s \<Longrightarrow> hw_sys_inv t"
proof (induction rule: hw_sys_step.induct)
  case (host_submit s d q)
  then show ?case
    using hw_push_0 [of "ws_cmdq (sy_worker s)" d q]
    by (auto simp: hw_sys_inv_def hw_worker_inv_def)
next
  case (host_poll s d q)
  then show ?case
    using hw_pop_0 [of "ws_doneq (sy_worker s)" 0 d q]
    by (auto simp: hw_sys_inv_def hw_worker_inv_def simp del: length_rep_contents)
next
  case (host_stop s v)
  then show ?case by (auto simp: hw_sys_inv_def hw_worker_inv_def)
next
  case (worker_tick s pc w)
  then show ?case by (blast intro: hw_tick_inv)
qed

lemma hw_sys_reachable_inv: "hw_sys_reachable s \<Longrightarrow> hw_sys_inv s"
  by (induction rule: hw_sys_reachable.induct) (auto intro: hw_sys_init_inv hw_sys_step_inv)

section \<open>Properties\<close>

text \<open>
  Decoding a descriptor with tokens left terminates after at most 32 tokens, at the token
  budget or at the next multiple of 32; it counts exactly the tokens it decoded, sets DONE when
  the budget is reached and NEEDS_REWARD (at a multiple of 32) otherwise, and touches no other
  field of the descriptor.
\<close>

theorem hw_decode_loop_spec:
  assumes "hd_seq_len d < hd_max_tokens d" and "hw_decode_loop d t = (d', t')"
  shows "unat (hd_seq_len d') =
      min (unat (hd_max_tokens d)) (32 * (unat (hd_seq_len d) div 32 + 1)) \<and>
    t' = t + of_nat (unat (hd_seq_len d') - unat (hd_seq_len d)) \<and>
    0 < unat (hd_seq_len d') - unat (hd_seq_len d) \<and>
    unat (hd_seq_len d') - unat (hd_seq_len d) \<le> 32 \<and>
    (hd_seq_len d' = hd_max_tokens d \<longrightarrow> hd_flags d' = hd_flags d OR DESC_FLAG_DONE) \<and>
    (hd_seq_len d' \<noteq> hd_max_tokens d \<longrightarrow>
       hd_flags d' = hd_flags d OR DESC_FLAG_NEEDS_REWARD \<and> unat (hd_seq_len d') mod 32 = 0) \<and>
    d'\<lparr>hd_seq_len := hd_seq_len d, hd_flags := hd_flags d\<rparr> = d"
proof -
  have d': "d' = hw_decoded d" and t': "t' = t + of_nat (hw_decode_stop d - unat (hd_seq_len d))"
    using assms by (simp_all add: hw_decode_loop_eq hw_decode_count_def)
  have len: "unat (hd_seq_len d') = hw_decode_stop d"
    using hw_decoded_seq_len [OF assms(1)] by (simp add: d')
  have eq: "hd_seq_len d' = hd_max_tokens d \<longleftrightarrow> hw_decode_stop d = unat (hd_max_tokens d)"
    using len by (metis word_unat_eq_iff)
  have flags: "hd_flags d' = hd_flags d OR (if hw_decode_stop d = unat (hd_max_tokens d)
      then DESC_FLAG_DONE else DESC_FLAG_NEEDS_REWARD)"
    and frame: "d'\<lparr>hd_seq_len := hd_seq_len d, hd_flags := hd_flags d\<rparr> = d"
    using assms(1) by (simp_all add: d' hw_decoded_def)
  have "hw_decode_stop d \<le> unat (hd_seq_len d) + 32" by (simp add: hw_decode_stop_def)
  moreover have "hw_decode_stop d \<noteq> unat (hd_max_tokens d) \<Longrightarrow> hw_decode_stop d mod 32 = 0"
    by (auto simp: hw_decode_stop_def min_def split: if_splits)
  ultimately show ?thesis
    using hw_decode_stop_gt [OF assms(1)] t' flags frame
    unfolding eq len by (auto simp: hw_decode_stop_def)
qed

definition decode_example :: hw_desc_t where
  "decode_example = hw_desc_zero\<lparr>hd_opcode := 1, hd_rollout_id := 77, hd_seq_len := 31,
     hd_max_tokens := 96\<rparr>"

theorem hw_decode_loop_spec_witness:
  "hd_seq_len decode_example < hd_max_tokens decode_example \<and>
   unat (hd_seq_len (fst (hw_decode_loop decode_example 5))) = 32 \<and>
   snd (hw_decode_loop decode_example 5) = 6"
proof -
  have less: "hd_seq_len decode_example < hd_max_tokens decode_example"
    by (simp add: decode_example_def)
  have "hd_seq_len decode_example = 31" "hd_max_tokens decode_example = 96"
    by (simp_all add: decode_example_def)
  with hw_decode_loop_spec [OF less, of 5 "fst (hw_decode_loop decode_example 5)"
      "snd (hw_decode_loop decode_example 5)"] less
  show ?thesis by simp
qed

text \<open>
  A descriptor that arrives with its token budget already spent is completed without any
  decoding and without a status: the worker passes it on unchanged, with neither DONE nor
  NEEDS_REWARD added.
\<close>

theorem hw_decode_spent_budget_unmarked:
  assumes "hd_max_tokens d \<le> hd_seq_len d"
  shows "hw_decode_loop d t = (d, t)"
  using assms by (simp add: hw_decode_loop_eq hw_decoded_def hw_decode_count_def leD)

theorem hw_decode_spent_budget_unmarked_witness:
  "hw_decode_loop (hw_desc_zero\<lparr>hd_seq_len := 64, hd_max_tokens := 64\<rparr>) 0 =
     (hw_desc_zero\<lparr>hd_seq_len := 64, hd_max_tokens := 64\<rparr>, 0)"
  by (rule hw_decode_spent_budget_unmarked) simp

text \<open>
  C10. Run alone on a queue whose first STOP descriptor follows \<open>ds\<close>, with room for the
  completions, \<open>hw_worker_sim_run\<close> returns: it has consumed \<open>ds\<close> and the STOP and nothing
  after it, appended the decoded form of every DECODE descriptor of \<open>ds\<close> to the completion ring
  in order, dropped every other opcode, and counted each completion and each token.
\<close>

theorem hw_worker_sim_run_drains:
  assumes "hw_ring_inv (ws_cmdq w)" "hw_ring_inv (ws_doneq w)" "ws_stop w = 0"
    and "hw_ring_contents (ws_cmdq w) = ds @ st # rest"
    and "list_all (\<lambda>d. hd_opcode d \<noteq> DESC_OP_STOP) ds" "hd_opcode st = DESC_OP_STOP"
    and "length (hw_ring_contents (ws_doneq w)) + length ds \<le> 65536"
    and "3 * length ds + 1 \<le> fuel"
  shows "\<exists>w'. hw_worker_sim_run fuel w = Some w' \<and>
    hw_ring_contents (ws_cmdq w') = rest \<and>
    hw_ring_contents (ws_doneq w') = hw_ring_contents (ws_doneq w) @
      map (\<lambda>d. fst (hw_decode_loop d 0)) (filter (\<lambda>d. hd_opcode d = DESC_OP_DECODE) ds) \<and>
    ws_completions w' = ws_completions w +
      of_nat (length (filter (\<lambda>d. hd_opcode d = DESC_OP_DECODE) ds)) \<and>
    ws_decoded_tokens w' = ws_decoded_tokens w + of_nat (hw_token_total ds)"
proof -
  have pre: "hw_worker_inv w" "list_all (\<lambda>d. \<not> is_stop d) ds" "is_stop st"
    using assms by (simp_all add: is_stop_def hw_worker_inv_def)
  have out: "hw_outputs ds = map (\<lambda>d. fst (hw_decode_loop d 0))
      (filter (\<lambda>d. hd_opcode d = DESC_OP_DECODE) ds)"
    by (simp add: hw_outputs_def hw_decode_loop_eq is_decode_def [abs_def])
  have "length (hw_outputs ds) \<le> length ds" unfolding out by simp
  with assms(7) have room:
    "length (hw_ring_contents (ws_doneq w)) + length (hw_outputs ds) \<le> 65536" by linarith
  obtain w' where run: "hw_worker_run_from (3 * length ds + 1) WLoop w = Some w'"
    and w': "hw_ring_contents (ws_cmdq w') = rest"
      "hw_ring_contents (ws_doneq w') = hw_ring_contents (ws_doneq w) @ hw_outputs ds"
      "ws_completions w' = ws_completions w + of_nat (length (hw_outputs ds))"
      "ws_decoded_tokens w' = ws_decoded_tokens w + of_nat (hw_token_total ds)"
    using hw_worker_run_stops [OF pre(1) assms(3,4) pre(2,3) room] by blast
  have "hw_worker_sim_run fuel w = Some w'"
    using hw_worker_run_mono [OF run, of "fuel - (3 * length ds + 1)"] assms(8)
    by (simp add: hw_worker_sim_run_def)
  with w' show ?thesis unfolding out by auto
qed

definition stop_example :: hw_desc_t where
  "stop_example = hw_desc_zero\<lparr>hd_opcode := 255\<rparr>"

definition worker_example :: hw_worker_sim_t where
  "worker_example = \<lparr>
     ws_cmdq = snd (hw_ring_push (snd (hw_ring_push hw_ring_zero decode_example)) stop_example),
     ws_doneq = hw_ring_zero, ws_stop = 0, ws_decoded_tokens = 0, ws_completions = 0\<rparr>"

lemma worker_example_cmdq:
  "hw_ring_inv (ws_cmdq worker_example) \<and>
   hw_ring_contents (ws_cmdq worker_example) = [decode_example] @ stop_example # []"
proof -
  obtain q1 where q1: "hw_ring_push hw_ring_zero decode_example = (0, q1)" "hw_ring_inv q1"
    "hw_ring_contents q1 = hw_ring_contents hw_ring_zero @ [decode_example]"
    by (rule hw_push_room [of hw_ring_zero decode_example]) simp_all
  have "length (hw_ring_contents q1) < 65536" unfolding q1(3) by simp
  with q1(2) obtain q2 where "hw_ring_push q1 stop_example = (0, q2)" "hw_ring_inv q2"
    "hw_ring_contents q2 = hw_ring_contents q1 @ [stop_example]"
    by (rule hw_push_room)
  with q1 show ?thesis by (simp add: worker_example_def)
qed

theorem hw_worker_sim_run_drains_witness:
  "\<exists>w'. hw_worker_sim_run 4 worker_example = Some w' \<and> ws_completions w' = 1 \<and>
     hw_ring_contents (ws_cmdq w') = [] \<and>
     hw_ring_contents (ws_doneq w') = [fst (hw_decode_loop decode_example 0)]"
proof -
  note ex = worker_example_cmdq
  have "hw_ring_inv (ws_doneq worker_example)" "ws_stop worker_example = 0"
    "hw_ring_contents (ws_doneq worker_example) = []" "ws_completions worker_example = 0"
    by (simp_all add: worker_example_def)
  moreover have "list_all (\<lambda>d. hd_opcode d \<noteq> DESC_OP_STOP) [decode_example]"
    "hd_opcode stop_example = DESC_OP_STOP" "hd_opcode decode_example = DESC_OP_DECODE"
    by (simp_all add: decode_example_def stop_example_def desc_consts)
  ultimately show ?thesis
    using hw_worker_sim_run_drains [of worker_example "[decode_example]" stop_example "[]" 4] ex
    by auto
qed

text \<open>
  C4. Under every interleaving of host and worker, each descriptor the host has submitted is accounted for: it waits in the
  command ring, or the worker has consumed it, in order, and then the decoded forms of the consumed DECODE descriptors are,
  in order, those the host has polled, those that wait in the completion ring and the one (if any) the worker is about to push. Nothing is
  lost, completed twice, out of order or without having been submitted. The completion counter is the number of descriptors
  handed to the completion ring, or one less while the worker is between its push and its increment.
\<close>

theorem hw_worker_completions_in_order:
  assumes "hw_sys_reachable s"
  shows "(\<exists>consumed. sy_submitted s = consumed @ hw_ring_contents (ws_cmdq (sy_worker s)) \<and>
      map (\<lambda>d. fst (hw_decode_loop d 0)) (filter (\<lambda>d. hd_opcode d = DESC_OP_DECODE) consumed) =
        sy_polled s @ hw_ring_contents (ws_doneq (sy_worker s)) @ (case sy_pc s of WPushing d \<Rightarrow> [d] | _ \<Rightarrow> [])) \<and>
    ws_completions (sy_worker s) + (if sy_pc s = WCounting then 1 else 0) =
      of_nat (length (sy_polled s @ hw_ring_contents (ws_doneq (sy_worker s))))"
proof -
  have out: "map (\<lambda>d. fst (hw_decode_loop d 0)) (filter (\<lambda>d. hd_opcode d = DESC_OP_DECODE) ds)
      = hw_outputs ds" for ds
    by (simp add: hw_outputs_def hw_decode_loop_eq is_decode_def [abs_def])
  have flight: "(case pc of WPushing d \<Rightarrow> [d] | _ \<Rightarrow> []) = in_flight pc" for pc by (cases pc) simp_all
  from hw_sys_reachable_inv [OF assms] show ?thesis unfolding out flight hw_sys_inv_def by (auto simp: of_bool_def)
qed

text \<open>
  The run of \<^verbatim>\<open>test/test_hw_ring.c\<close> in which the host polls the completion before the worker counts it.
\<close>

lemma hw_sys_lagging_counter:
  "\<exists>s. hw_sys_reachable s \<and> sy_pc s = WCounting \<and> sy_polled s = [hw_decoded decode_example] \<and>
     hw_ring_contents (ws_doneq (sy_worker s)) = []"
proof -
  obtain q1 where q1: "hw_ring_push hw_ring_zero decode_example = (0, q1)" "hw_ring_inv q1" "hw_ring_contents q1 = [decode_example]"
    by (rule hw_push_room [of hw_ring_zero decode_example]) simp_all
  obtain q2 where q2: "hw_ring_pop q1 = (0, Some decode_example, q2)" using hw_pop_Cons [OF q1(2,3)] by blast
  obtain d1 where d1: "hw_ring_push hw_ring_zero (hw_decoded decode_example) = (0, d1)" "hw_ring_inv d1"
    "hw_ring_contents d1 = [hw_decoded decode_example]"
    by (rule hw_push_room [of hw_ring_zero "hw_decoded decode_example"]) simp_all
  obtain d2 where d2: "hw_ring_pop d1 = (0, Some (hw_decoded decode_example), d2)" "hw_ring_contents d2 = []"
    using hw_pop_Cons [OF d1(2,3)] by blast
  have dec: "is_decode decode_example" "\<not> is_stop decode_example"
    by (simp_all add: decode_example_def is_decode_def is_stop_def desc_consts)
  let ?w0 = "sy_worker hw_sys_init"
  let ?w1 = "?w0\<lparr>ws_cmdq := q1\<rparr>"
  let ?w2 = "?w0\<lparr>ws_cmdq := q2, ws_decoded_tokens := of_nat (hw_decode_count decode_example)\<rparr>"
  let ?sub = "[decode_example]"
  have "hw_sys_step hw_sys_init (hw_sys_init\<lparr>sy_worker := ?w1, sy_submitted := ?sub\<rparr>)"
    using host_submit [of hw_sys_init decode_example q1] q1(1) by (simp add: hw_sys_init_def)
  from reach_step [OF reach_init this] have r: "hw_sys_reachable (hw_sys_init\<lparr>sy_worker := ?w1, sy_submitted := ?sub\<rparr>)" .
  have "hw_worker_tick WLoop ?w1 = (WPushing (hw_decoded decode_example), ?w2)"
    using hw_tick_pop [of ?w1 decode_example q2] q2 dec by (simp add: hw_sys_init_def)
  with reach_step [OF r worker_tick]
  have r: "hw_sys_reachable (hw_sys_init\<lparr>sy_pc := WPushing (hw_decoded decode_example), sy_worker := ?w2, sy_submitted := ?sub\<rparr>)"
    by (simp add: hw_sys_init_def)
  have "hw_worker_tick (WPushing (hw_decoded decode_example)) ?w2 = (WCounting, ?w2\<lparr>ws_doneq := d1\<rparr>)"
    using d1(1) by (simp add: hw_sys_init_def hw_worker_tick.simps)
  with reach_step [OF r worker_tick]
  have r: "hw_sys_reachable (hw_sys_init\<lparr>sy_pc := WCounting, sy_worker := ?w2\<lparr>ws_doneq := d1\<rparr>, sy_submitted := ?sub\<rparr>)"
    by (simp add: hw_sys_init_def)
  let ?s = "hw_sys_init\<lparr>sy_pc := WCounting, sy_worker := ?w2\<lparr>ws_doneq := d2\<rparr>, sy_submitted := ?sub, sy_polled := [hw_decoded decode_example]\<rparr>"
  have "hw_sys_reachable ?s" using reach_step [OF r host_poll, of "hw_decoded decode_example" d2] d2(1) by (simp add: hw_sys_init_def)
  then show ?thesis using d2(2) by (intro exI [of _ ?s] conjI) simp_all
qed

theorem hw_worker_completions_in_order_witness:
  "\<exists>s. hw_sys_reachable s \<and> sy_polled s = [fst (hw_decode_loop decode_example 0)] \<and> ws_completions (sy_worker s) = 0"
proof -
  from hw_sys_lagging_counter obtain s where s: "hw_sys_reachable s" "sy_pc s = WCounting" "sy_polled s = [hw_decoded decode_example]"
    "hw_ring_contents (ws_doneq (sy_worker s)) = []" by blast
  with hw_worker_completions_in_order [OF s(1)] show ?thesis by (intro exI [of _ s]) (simp add: hw_decode_loop_eq)
qed

end
