(* ===== verification/Spsc_Protocol.thy ===== *)
theory Spsc_Protocol
  imports Hw_Ring
begin

text \<open>
  \<open>hw_ring_push\<close> and \<open>hw_ring_pop\<close> are not atomic: a producer and a consumer thread
  interleave the single loads and stores of the two functions, each acting on counter values
  that may be stale by the time it uses them. This theory gives every shared access its own
  step and shows that the protocol is still a lossless FIFO. Stores become visible in program
  order, which is what the release store of a counter and the acquire load on the other side
  provide.
\<close>

section \<open>Interleaved accesses\<close>

datatype prod_pc =
    PIdle
  | PTail hw_desc_t u32
  | PBoth hw_desc_t u32 u32
  | PWritten hw_desc_t u32

datatype cons_pc =
    CIdle
  | CHead u32
  | CBoth u32 u32
  | CRead hw_desc_t u32

record spsc_state =
  sp_ring :: hw_ring_t
  sp_prod :: prod_pc
  sp_cons :: cons_pc
  sp_sent :: "hw_desc_t list"
  sp_received :: "hw_desc_t list"

definition spsc_init :: spsc_state where
  "spsc_init = \<lparr>sp_ring = hw_ring_zero, sp_prod = PIdle, sp_cons = CIdle,
     sp_sent = [], sp_received = []\<rparr>"

inductive spsc_step :: "spsc_state \<Rightarrow> spsc_state \<Rightarrow> bool" where
  push_load_tail: "sp_prod s = PIdle \<Longrightarrow>
     spsc_step s (s\<lparr>sp_prod := PTail d (hw_ring_load_acquire (hr_tail (sp_ring s)))\<rparr>)"
| push_load_head: "sp_prod s = PTail d tail \<Longrightarrow>
     spsc_step s (s\<lparr>sp_prod := PBoth d tail (hw_ring_load_acquire (hr_head (sp_ring s)))\<rparr>)"
| push_full: "sp_prod s = PBoth d tail head \<Longrightarrow> tail - head \<ge> HW_RING_SIZE \<Longrightarrow>
     spsc_step s (s\<lparr>sp_prod := PIdle\<rparr>)"
| push_write: "sp_prod s = PBoth d tail head \<Longrightarrow> \<not> tail - head \<ge> HW_RING_SIZE \<Longrightarrow>
     spsc_step s (s\<lparr>sp_prod := PWritten d tail, sp_ring := (sp_ring s)
       \<lparr>hr_desc := (hr_desc (sp_ring s))[unat (tail AND HW_RING_MASK) := d]\<rparr>\<rparr>)"
| push_publish: "sp_prod s = PWritten d tail \<Longrightarrow>
     spsc_step s (s\<lparr>sp_prod := PIdle, sp_sent := sp_sent s @ [d], sp_ring := (sp_ring s)
       \<lparr>hr_tail := hw_ring_store_release (hr_tail (sp_ring s)) (tail + 1)\<rparr>\<rparr>)"
| pop_load_head: "sp_cons s = CIdle \<Longrightarrow>
     spsc_step s (s\<lparr>sp_cons := CHead (hw_ring_load_acquire (hr_head (sp_ring s)))\<rparr>)"
| pop_load_tail: "sp_cons s = CHead head \<Longrightarrow>
     spsc_step s (s\<lparr>sp_cons := CBoth head (hw_ring_load_acquire (hr_tail (sp_ring s)))\<rparr>)"
| pop_empty: "sp_cons s = CBoth head tail \<Longrightarrow> head = tail \<Longrightarrow>
     spsc_step s (s\<lparr>sp_cons := CIdle\<rparr>)"
| pop_read: "sp_cons s = CBoth head tail \<Longrightarrow> head \<noteq> tail \<Longrightarrow>
     spsc_step s (s\<lparr>sp_cons := CRead (hr_desc (sp_ring s) ! unat (head AND HW_RING_MASK)) head\<rparr>)"
| pop_release: "sp_cons s = CRead d head \<Longrightarrow>
     spsc_step s (s\<lparr>sp_cons := CIdle, sp_received := sp_received s @ [d], sp_ring := (sp_ring s)
       \<lparr>hr_head := hw_ring_store_release (hr_head (sp_ring s)) (head + 1)\<rparr>\<rparr>)"

inductive spsc_reachable :: "spsc_state \<Rightarrow> bool" where
  spsc_start: "spsc_reachable spsc_init"
| spsc_next: "spsc_reachable s \<Longrightarrow> spsc_step s t \<Longrightarrow> spsc_reachable t"

section \<open>Invariant\<close>

text \<open>The number of queued descriptors, and what each side knows about the counters.\<close>

abbreviation hw_count :: "hw_ring_t \<Rightarrow> nat" where
  "hw_count r \<equiv> unat (hr_tail r - hr_head r)"

fun prod_ok :: "hw_ring_t \<Rightarrow> prod_pc \<Rightarrow> bool" where
  "prod_ok r PIdle = True"
| "prod_ok r (PTail d t) = (t = hr_tail r)"
| "prod_ok r (PBoth d t h) = (t = hr_tail r \<and> hw_count r \<le> unat (t - h))"
| "prod_ok r (PWritten d t) =
     (t = hr_tail r \<and> hw_count r < 65536 \<and> hr_desc r ! (unat t mod 65536) = d)"

fun cons_ok :: "hw_ring_t \<Rightarrow> cons_pc \<Rightarrow> bool" where
  "cons_ok r CIdle = True"
| "cons_ok r (CHead h) = (h = hr_head r)"
| "cons_ok r (CBoth h t) = (h = hr_head r \<and> (h \<noteq> t \<longrightarrow> 0 < hw_count r))"
| "cons_ok r (CRead d h) =
     (h = hr_head r \<and> 0 < hw_count r \<and> hr_desc r ! (unat h mod 65536) = d)"

definition spsc_inv :: "spsc_state \<Rightarrow> bool" where
  "spsc_inv s \<longleftrightarrow> hw_ring_inv (sp_ring s) \<and>
     sp_sent s = sp_received s @ hw_ring_contents (sp_ring s) \<and>
     prod_ok (sp_ring s) (sp_prod s) \<and> cons_ok (sp_ring s) (sp_cons s)"

lemma hw_wf: "hw_ring_inv r \<Longrightarrow> length (hr_desc r) = 65536 \<and> hw_count r \<le> 65536"
  by (simp add: rep_wf_def ring_wf_def)

text \<open>The slot the producer writes is neither queued nor the one the consumer reads.\<close>

lemma write_keeps_contents:
  assumes "hw_ring_inv r" "hw_count r < 65536"
  shows "hw_ring_contents (r\<lparr>hr_desc := (hr_desc r)[unat (hr_tail r) mod 65536 := d]\<rparr>) =
    hw_ring_contents r"
  using ring_contents_write [OF hw_ring_size_ok] hw_wf [OF assms(1)] assms(2)
  by (simp add: rep_contents_def)

lemma write_keeps_head_slot:
  assumes "0 < hw_count r" "hw_count r < 65536"
  shows "(hr_desc r)[unat (hr_tail r) mod 65536 := d] ! (unat (hr_head r) mod 65536) =
    hr_desc r ! (unat (hr_head r) mod 65536)"
proof -
  have "unat (hr_tail r) mod 65536 = (unat (hr_head r) + hw_count r) mod 65536"
    by (rule unat_eq_mod_diff [OF hw_ring_size_ok])
  moreover have "(unat (hr_head r) + hw_count r) mod 65536 \<noteq> (unat (hr_head r) + 0) mod 65536"
    using mod_add_inj [of "unat (hr_head r)" "hw_count r" 65536 0] assms by auto
  ultimately show ?thesis by simp
qed

lemma publish_contents:
  assumes "hw_ring_inv r" "hw_count r < 65536"
  shows "hw_ring_contents (r\<lparr>hr_tail := hr_tail r + 1\<rparr>) =
      hw_ring_contents r @ [hr_desc r ! (unat (hr_tail r) mod 65536)]"
    and "hw_ring_inv (r\<lparr>hr_tail := hr_tail r + 1\<rparr>)"
    and "unat (hr_tail r + 1 - hr_head r) = Suc (hw_count r)"
proof -
  show Suc: "unat (hr_tail r + 1 - hr_head r) = Suc (hw_count r)"
    using assms(2) by (intro unat_Suc_diff) simp
  show "hw_ring_contents (r\<lparr>hr_tail := hr_tail r + 1\<rparr>) =
      hw_ring_contents r @ [hr_desc r ! (unat (hr_tail r) mod 65536)]"
    using ring_contents_extend [OF hw_ring_size_ok] hw_wf [OF assms(1)] assms(2)
    by (simp add: rep_contents_def)
  show "hw_ring_inv (r\<lparr>hr_tail := hr_tail r + 1\<rparr>)"
    using hw_wf [OF assms(1)] assms(2) Suc by (simp add: rep_wf_def ring_wf_def)
qed

lemma release_contents:
  assumes "hw_ring_inv r" "0 < hw_count r"
  shows "hw_ring_contents r =
      hr_desc r ! (unat (hr_head r) mod 65536) # hw_ring_contents (r\<lparr>hr_head := hr_head r + 1\<rparr>)"
    and "hw_ring_inv (r\<lparr>hr_head := hr_head r + 1\<rparr>)"
    and "hw_count r = Suc (unat (hr_tail r - (hr_head r + 1)))"
proof -
  have ne: "hr_head r \<noteq> hr_tail r" using assms(2) by auto
  show Suc: "hw_count r = Suc (unat (hr_tail r - (hr_head r + 1)))"
    by (rule unat_diff_pop [OF ne])
  show "hw_ring_contents r =
      hr_desc r ! (unat (hr_head r) mod 65536) # hw_ring_contents (r\<lparr>hr_head := hr_head r + 1\<rparr>)"
    unfolding rep_contents_def
    by (subst ring_contents_pop [OF hw_ring_size_ok conjunct1 [OF hw_wf [OF assms(1)]] ne]) simp
  show "hw_ring_inv (r\<lparr>hr_head := hr_head r + 1\<rparr>)"
    using hw_wf [OF assms(1)] Suc by (simp add: rep_wf_def ring_wf_def)
qed

lemma spsc_inv_init: "spsc_inv spsc_init"
  by (simp add: spsc_inv_def spsc_init_def)

lemma spsc_step_inv: "spsc_step s t \<Longrightarrow> spsc_inv s \<Longrightarrow> spsc_inv t"
proof (induction rule: spsc_step.induct)
  case (push_write s d tail head)
  then have inv: "hw_ring_inv (sp_ring s)" and tail: "tail = hr_tail (sp_ring s)"
    and room: "hw_count (sp_ring s) < 65536"
    by (auto simp: spsc_inv_def)
  then have "hw_ring_inv ((sp_ring s)\<lparr>hr_desc :=
      (hr_desc (sp_ring s))[unat (hr_tail (sp_ring s)) mod 65536 := d]\<rparr>)"
    by (simp add: rep_wf_def ring_wf_def)
  then show ?case
    using push_write write_keeps_contents [OF inv room, of d] hw_wf [OF inv] tail room
    by (cases "sp_cons s") (auto simp: spsc_inv_def write_keeps_head_slot)
next
  case (push_publish s d tail)
  then have inv: "hw_ring_inv (sp_ring s)" and room: "hw_count (sp_ring s) < 65536"
    by (auto simp: spsc_inv_def)
  show ?case
    using push_publish publish_contents [OF inv room]
    by (cases "sp_cons s") (auto simp: spsc_inv_def hw_ring_store_release_def)
next
  case (pop_release s d head)
  then have inv: "hw_ring_inv (sp_ring s)" and some: "0 < hw_count (sp_ring s)"
    by (auto simp: spsc_inv_def)
  show ?case
    using pop_release release_contents [OF inv some]
    by (cases "sp_prod s") (auto simp: spsc_inv_def hw_ring_store_release_def)
qed (auto simp: spsc_inv_def hw_ring_load_acquire_def intro!: gr0I)

lemma spsc_reachable_inv: "spsc_reachable s \<Longrightarrow> spsc_inv s"
  by (induction rule: spsc_reachable.induct) (auto intro: spsc_inv_init spsc_step_inv)

section \<open>Properties\<close>

text \<open>
  C2. With one producer thread in \<open>hw_ring_push\<close> and one consumer thread in \<open>hw_ring_pop\<close>,
  interleaved at every single load and store, the descriptors received are at all times exactly
  the descriptors published minus the ones still in the ring, in publication order, and never
  more than 65536 are outstanding. Stale counter values never cause a loss, a duplicate or an
  overwrite of an unread slot.
\<close>

theorem spsc_lossless:
  assumes "spsc_reachable s"
  shows "sp_sent s = sp_received s @ hw_ring_contents (sp_ring s) \<and>
    length (sp_sent s) \<le> length (sp_received s) + 65536"
  using spsc_reachable_inv [OF assms] hwq.rep_bounded [of "sp_ring s"]
  by (simp add: spsc_inv_def)

lemma spsc_load_tail_reachable: "spsc_reachable (spsc_init\<lparr>sp_prod := PTail d 0\<rparr>)"
  using spsc_next [OF spsc_start push_load_tail [of spsc_init d]]
  by (simp add: spsc_init_def hw_ring_load_acquire_def)

theorem spsc_lossless_witness:
  "spsc_reachable (spsc_init\<lparr>sp_prod := PTail hw_desc_zero 0\<rparr>) \<and>
   sp_sent (spsc_init\<lparr>sp_prod := PTail hw_desc_zero 0\<rparr>) = []"
  using spsc_lossless [OF spsc_load_tail_reachable [of hw_desc_zero]]
    spsc_load_tail_reachable [of hw_desc_zero] by (simp add: spsc_init_def)

text \<open>
  A consumer that has read a descriptor out of the ring holds the oldest published
  descriptor that has not been received, even while the producer keeps publishing.
\<close>

theorem spsc_read_is_oldest:
  assumes "spsc_reachable s" and "sp_cons s = CRead d head"
  shows "sp_sent s ! length (sp_received s) = d \<and> length (sp_received s) < length (sp_sent s)"
proof -
  have inv: "hw_ring_inv (sp_ring s)" and some: "0 < hw_count (sp_ring s)"
    and d: "hr_desc (sp_ring s) ! (unat (hr_head (sp_ring s)) mod 65536) = d"
    and sent: "sp_sent s = sp_received s @ hw_ring_contents (sp_ring s)"
    using spsc_reachable_inv [OF assms(1)] assms(2) by (auto simp: spsc_inv_def)
  show ?thesis unfolding sent release_contents(1) [OF inv some] d by simp
qed

text \<open>A single push and the first two accesses of a pop reach such a state.\<close>

definition spsc_after_read :: "hw_desc_t \<Rightarrow> spsc_state" where
  "spsc_after_read d = spsc_init\<lparr>sp_ring := snd (hw_ring_push hw_ring_zero d),
     sp_cons := CRead d 0, sp_sent := [d]\<rparr>"

lemma spsc_after_read_reachable: "spsc_reachable (spsc_after_read d)"
proof -
  note start = spsc_next [OF spsc_start push_load_tail [of spsc_init d]]
  note both = spsc_next [OF start push_load_head [of _ d 0]]
  note written = spsc_next [OF both push_write [of _ d 0 0]]
  note sent = spsc_next [OF written push_publish [of _ d 0]]
  note chead = spsc_next [OF sent pop_load_head]
  note cboth = spsc_next [OF chead pop_load_tail [of _ 0]]
  note cread = spsc_next [OF cboth pop_read [of _ 0 1]]
  show ?thesis
    using cread by (simp add: spsc_init_def spsc_after_read_def hw_ring_defs hw_ring_zero_def
        HW_RING_SIZE_num)
qed

theorem spsc_read_is_oldest_witness:
  "spsc_reachable (spsc_after_read hw_desc_zero) \<and>
   sp_sent (spsc_after_read hw_desc_zero) ! 0 = hw_desc_zero"
  using spsc_read_is_oldest [OF spsc_after_read_reachable [of hw_desc_zero], of hw_desc_zero 0]
    spsc_after_read_reachable [of hw_desc_zero]
  by (simp add: spsc_after_read_def spsc_init_def)

end
