(* ===== verification/Command_Ring.thy ===== *)
theory Command_Ring
  imports Ring_Rep
begin

text \<open>
  The host-to-device command ring: \<^verbatim>\<open>include/descriptor.h\<close>, \<^verbatim>\<open>include/ring.h\<close> and
  \<^verbatim>\<open>src/ring.c\<close>. The producer reserves a window with \<open>ring_acquire\<close>, fills the slots and
  publishes them with \<open>ring_commit\<close>; the consumer takes one descriptor with \<open>ring_consume\<close>.
  \<open>ring_consume\<close> tests for emptiness with \<open>head >= tail\<close>, so the ring is a bounded queue only
  while the 32-bit producer counter has not wrapped.
\<close>

section \<open>Descriptors and the ring\<close>

definition RING_SIZE :: u32 where "RING_SIZE = 4096"
definition MAX_KV_BLOCKS_PER_STEP :: u32 where "MAX_KV_BLOCKS_PER_STEP = 64"
definition DESCRIPTOR_ALIGN :: nat where "DESCRIPTOR_ALIGN = 128"

record Descriptor =
  ds_seq_id :: u64
  ds_kv_block_offset :: u32
  ds_num_kv_blocks :: u16
  ds_attention_flags :: u8
  ds_pad :: u8
  ds_output_token_offset :: u32
  ds_reward_cookie :: u64
  ds_batch_size :: u16
  ds_batch_index :: u16

definition Descriptor_zero :: Descriptor where
  "Descriptor_zero = \<lparr>ds_seq_id = 0, ds_kv_block_offset = 0, ds_num_kv_blocks = 0,
     ds_attention_flags = 0, ds_pad = 0, ds_output_token_offset = 0, ds_reward_cookie = 0,
     ds_batch_size = 0, ds_batch_index = 0\<rparr>"

text \<open>\<open>cr_head\<close> is \<open>cons.head\<close>, \<open>cr_tail\<close> is \<open>prod.tail\<close>; the padding holds no data.\<close>

record CommandRing =
  cr_head :: u32
  cr_tail :: u32
  cr_slots :: "Descriptor list"

definition ring_acquire :: "CommandRing \<Rightarrow> u32 \<Rightarrow> u32" where
  "ring_acquire ring n =
     (let head = cr_head ring; tail = cr_tail ring
      in if RING_SIZE - (tail - head) < n then UINT32_MAX
         else tail AND (RING_SIZE - 1))"

definition ring_commit :: "CommandRing \<Rightarrow> u32 \<Rightarrow> CommandRing" where
  "ring_commit ring n = (let tail = cr_tail ring in ring\<lparr>cr_tail := tail + n\<rparr>)"

definition ring_consume :: "CommandRing \<Rightarrow> int \<times> Descriptor option \<times> CommandRing" where
  "ring_consume ring =
     (let head = cr_head ring; tail = cr_tail ring
      in if head \<ge> tail then (0, None, ring)
         else (1, Some (cr_slots ring ! unat (head AND (RING_SIZE - 1))),
               ring\<lparr>cr_head := head + 1\<rparr>))"

definition CommandRing_zero :: CommandRing where
  "CommandRing_zero = \<lparr>cr_head = 0, cr_tail = 0,
     cr_slots = replicate (unat RING_SIZE) Descriptor_zero\<rparr>"

text \<open>The two arguments are the outcomes of the \<open>mmap\<close> with huge pages and of the fallback.\<close>

definition ring_create :: "bool \<Rightarrow> bool \<Rightarrow> CommandRing option" where
  "ring_create huge_ok small_ok =
     (if \<not> huge_ok then (if \<not> small_ok then None else Some CommandRing_zero)
      else Some CommandRing_zero)"

text \<open>
  One round of the producer loop of \<open>runtime_shutdown\<close>: reserve a slot, store the descriptor,
  commit it. The flag is false when no slot was free.
\<close>

definition ring_send :: "CommandRing \<Rightarrow> Descriptor \<Rightarrow> bool \<times> CommandRing" where
  "ring_send ring desc =
     (let pos = ring_acquire ring 1
      in if pos = UINT32_MAX then (False, ring)
         else (True, ring_commit (ring\<lparr>cr_slots := (cr_slots ring)[unat pos := desc]\<rparr>) 1))"

definition ring_consume_obs :: "CommandRing \<Rightarrow> Descriptor option \<times> CommandRing" where
  "ring_consume_obs ring = snd (ring_consume ring)"

section \<open>The ring as a bounded queue\<close>

abbreviation cmd_inv :: "CommandRing \<Rightarrow> bool" where
  "cmd_inv \<equiv> rep_linear 4096 cr_head cr_tail cr_slots"

abbreviation cmd_contents :: "CommandRing \<Rightarrow> Descriptor list" where
  "cmd_contents \<equiv> rep_contents cr_head cr_tail cr_slots"

abbreviation cmd_budget :: "nat \<Rightarrow> CommandRing \<Rightarrow> bool" where
  "cmd_budget \<equiv> rep_budget cr_tail"

lemma cmd_size_ok: "ring_size_ok 4096"
  by (rule ring_size_okI [of 12]) simp_all

lemma unat_cmd_mask: "unat (i AND 4095 :: u32) = unat i mod 4096"
  using unat_and_mask [of i 12] by simp

lemma unat_mask_not_max: "(i AND 4095 :: u32) \<noteq> UINT32_MAX"
proof
  assume "(i AND 4095 :: u32) = UINT32_MAX"
  then have "unat (i AND 4095) = unat UINT32_MAX" by simp
  then show False unfolding unat_cmd_mask using mod_less_divisor [of 4096 "unat i"] by simp
qed

lemma ring_acquire_full:
  "unat (cr_tail r - cr_head r) \<le> 4096 \<Longrightarrow> 4096 < unat (cr_tail r - cr_head r) + unat n \<Longrightarrow>
   ring_acquire r n = UINT32_MAX"
  using window_full [of "cr_tail r - cr_head r" 4096 n] by (simp add: ring_acquire_def RING_SIZE_def)

lemma ring_acquire_room:
  "unat (cr_tail r - cr_head r) + unat n \<le> 4096 \<Longrightarrow>
   ring_acquire r n = cr_tail r AND 4095"
  using window_free [of "cr_tail r - cr_head r" n 4096] by (simp add: ring_acquire_def RING_SIZE_def)

lemma ring_send_full:
  "unat (cr_tail r - cr_head r) = 4096 \<Longrightarrow> ring_send r d = (False, r)"
  by (simp add: ring_send_def ring_acquire_full)

lemma ring_send_room:
  "unat (cr_tail r - cr_head r) < 4096 \<Longrightarrow> ring_send r d =
     (True, r\<lparr>cr_slots := (cr_slots r)[unat (cr_tail r) mod 4096 := d], cr_tail := cr_tail r + 1\<rparr>)"
  by (simp add: ring_send_def ring_acquire_room unat_mask_not_max ring_commit_def unat_cmd_mask)

lemma ring_consume_ge: "cr_tail r \<le> cr_head r \<Longrightarrow> ring_consume r = (0, None, r)"
  by (simp add: ring_consume_def)

lemma ring_consume_less:
  "cr_head r < cr_tail r \<Longrightarrow> ring_consume r =
     (1, Some (cr_slots r ! (unat (cr_head r) mod 4096)), r\<lparr>cr_head := cr_head r + 1\<rparr>)"
  by (simp add: ring_consume_def leD RING_SIZE_def unat_cmd_mask)

interpretation cmdq: nowrap_ring cr_head cr_tail cr_slots 4096 ring_send ring_consume_obs
  by unfold_locales
    (auto simp: cmd_size_ok ring_send_full ring_send_room ring_consume_obs_def
      ring_consume_ge ring_consume_less)

lemma CommandRing_zero_inv [simp]: "cmd_inv CommandRing_zero" and
  CommandRing_zero_contents [simp]: "cmd_contents CommandRing_zero = []"
  by (simp_all add: rep_linear_def rep_wf_def CommandRing_zero_def ring_wf_def RING_SIZE_def)

lemma CommandRing_zero_budget [simp]: "cmd_budget n CommandRing_zero \<longleftrightarrow> n < 2 ^ 32"
  by (simp add: rep_budget_def CommandRing_zero_def)

section \<open>Properties\<close>

text \<open>
  C17. Until the producer counter has been advanced to \<open>UINT32_MAX\<close>, the command ring is a
  lossless bounded FIFO under every interleaving of whole sends and consumes: every run
  behaves like the abstract queue of capacity 4096 on the ring's contents, so accepted
  descriptors are delivered exactly once and in order.
\<close>

theorem command_ring_fifo:
  assumes "cmd_inv r" and "cmd_budget (pushes ops) r"
    and "ring_run ring_send ring_consume_obs ops r = (evs, r')"
  shows "ring_run (spec_push 4096) spec_pop ops (cmd_contents r) = (evs, cmd_contents r') \<and>
    cmd_contents r @ accepted evs = delivered evs @ cmd_contents r' \<and> cmd_inv r'"
  using cmdq.run_refines [OF assms] cmdq.run_conserves [OF assms] by simp

theorem command_ring_fifo_witness:
  "cmd_contents (snd (ring_run ring_send ring_consume_obs
     [Push Descriptor_zero, Pop, Pop] CommandRing_zero)) = []"
proof -
  let ?ops = "[Push Descriptor_zero, Pop, Pop]"
  obtain evs r' where run: "ring_run ring_send ring_consume_obs ?ops CommandRing_zero = (evs, r')"
    by fastforce
  show ?thesis
    using command_ring_fifo [OF CommandRing_zero_inv _ run] run by simp
qed

text \<open>
  The command ring stops delivering for ever once its producer counter wraps: from the
  freshly created ring some sequence of sends and consumes ends in a state that holds a
  committed descriptor which no later sequence of operations delivers, because
  \<open>ring_consume\<close> compares the free-running counters with \<open>head >= tail\<close>.
\<close>

theorem command_ring_stuck_after_wrap:
  "\<exists>ops evs r'. ring_run ring_send ring_consume_obs ops CommandRing_zero = (evs, r') \<and>
     cmd_contents r' = [d] \<and>
     (\<forall>more. delivered (fst (ring_run ring_send ring_consume_obs more r')) = [])"
  using CommandRing_zero_inv
  by (intro cmdq.reaches_stuck) (simp_all add: rep_linear_def CommandRing_zero_def)

end
