(* ===== verification/Decode_Batch.thy ===== *)
theory Decode_Batch
  imports Command_Ring
begin

text \<open>
  Grouped submission of decode descriptors: \<^verbatim>\<open>include/decode_batch.h\<close> and
  \<^verbatim>\<open>src/decode_batch.c\<close>. A batch collects up to 32 descriptors; \<open>decode_batch_submit\<close> reserves
  one window of the command ring for all of them, stamps every descriptor with the batch size
  and its index, and publishes the window with a single commit. Pointers that the code checks
  against NULL are options.
\<close>

section \<open>Operations\<close>

definition DECODE_DESCRIPTOR_BATCH_LIMIT :: u32 where "DECODE_DESCRIPTOR_BATCH_LIMIT = 32"

record DecodeDispatchBatch =
  db_count :: u32
  db_descs :: "Descriptor list"

record DecodeBatchContract =
  bc_batch_size :: u16
  bc_batch_index :: u16

definition decode_batch_reset :: "DecodeDispatchBatch option \<Rightarrow> DecodeDispatchBatch option" where
  "decode_batch_reset batch =
     (case batch of None \<Rightarrow> None | Some b \<Rightarrow> Some (b\<lparr>db_count := 0\<rparr>))"

definition decode_batch_push ::
  "DecodeDispatchBatch option \<Rightarrow> Descriptor option \<Rightarrow> int \<times> DecodeDispatchBatch option" where
  "decode_batch_push batch desc =
     (case (batch, desc) of
        (Some b, Some d) \<Rightarrow>
          if db_count b \<ge> DECODE_DESCRIPTOR_BATCH_LIMIT then (-1, batch)
          else (0, Some (b\<lparr>db_descs := (db_descs b)[unat (db_count b) := d],
                          db_count := db_count b + 1\<rparr>))
      | _ \<Rightarrow> (-1, batch))"

text \<open>The descriptor the submission loop stores for index \<open>i\<close> of a batch.\<close>

definition batch_stamp :: "DecodeDispatchBatch \<Rightarrow> nat \<Rightarrow> Descriptor" where
  "batch_stamp b i = (db_descs b ! i)
     \<lparr>ds_batch_size := ucast (db_count b), ds_batch_index := ucast (of_nat i :: u32)\<rparr>"

definition decode_batch_submit ::
  "CommandRing option \<Rightarrow> DecodeDispatchBatch option \<Rightarrow> int \<times> CommandRing option" where
  "decode_batch_submit ring batch =
     (case (ring, batch) of
        (Some r, Some b) \<Rightarrow>
          if db_count b = 0 then (-1, ring)
          else let pos = ring_acquire r (db_count b) in
            if pos = UINT32_MAX then (-1, ring)
            else let slots = fold
                   (\<lambda>i s. s[unat ((pos + of_nat i) AND (RING_SIZE - 1)) := batch_stamp b i])
                   [0..<unat (db_count b)] (cr_slots r)
              in (0, Some (ring_commit (r\<lparr>cr_slots := slots\<rparr>) (db_count b)))
      | _ \<Rightarrow> (-1, ring))"

definition decode_batch_contract :: "Descriptor option \<Rightarrow> DecodeBatchContract" where
  "decode_batch_contract desc =
     \<lparr>bc_batch_size = (case desc of Some d \<Rightarrow> ds_batch_size d | None \<Rightarrow> 0),
      bc_batch_index = (case desc of Some d \<Rightarrow> ds_batch_index d | None \<Rightarrow> 0)\<rparr>"

section \<open>Batches as lists\<close>

text \<open>The invariant of a batch and the descriptors it holds.\<close>

definition batch_wf :: "DecodeDispatchBatch \<Rightarrow> bool" where
  "batch_wf b \<longleftrightarrow> length (db_descs b) = 32 \<and> db_count b \<le> 32"

definition batch_items :: "DecodeDispatchBatch \<Rightarrow> Descriptor list" where
  "batch_items b = take (unat (db_count b)) (db_descs b)"

definition batch_stamped :: "DecodeDispatchBatch \<Rightarrow> Descriptor list" where
  "batch_stamped b = map (batch_stamp b) [0..<unat (db_count b)]"

lemma batch_wf_unat: "batch_wf b \<Longrightarrow> length (db_descs b) = 32 \<and> unat (db_count b) \<le> 32"
  by (simp add: batch_wf_def word_le_nat_alt)

lemma length_batch_items [simp]: "batch_wf b \<Longrightarrow> length (batch_items b) = unat (db_count b)"
  using batch_wf_unat [of b] by (simp add: batch_items_def)

lemma length_batch_stamped [simp]: "length (batch_stamped b) = unat (db_count b)"
  by (simp add: batch_stamped_def)

lemma decode_batch_reset_wf:
  "batch_wf b \<Longrightarrow> \<exists>b'. decode_batch_reset (Some b) = Some b' \<and> batch_wf b' \<and> batch_items b' = []"
  by (simp add: decode_batch_reset_def batch_wf_def batch_items_def)

lemma decode_batch_push_full:
  "32 \<le> unat (db_count b) \<Longrightarrow> decode_batch_push (Some b) (Some d) = (-1, Some b)"
  by (simp add: decode_batch_push_def DECODE_DESCRIPTOR_BATCH_LIMIT_def word_le_nat_alt)

lemma decode_batch_push_room:
  assumes "batch_wf b" "unat (db_count b) < 32"
  shows "\<exists>b'. decode_batch_push (Some b) (Some d) = (0, Some b') \<and> batch_wf b' \<and>
    db_count b' = db_count b + 1 \<and> unat (db_count b') = Suc (unat (db_count b)) \<and>
    batch_items b' = batch_items b @ [d]"
proof -
  have "unat (db_count b + 1) = Suc (unat (db_count b))"
    using assms(2) unfolding unat_add1 by simp
  then show ?thesis
    using assms batch_wf_unat [OF assms(1)]
    by (simp add: decode_batch_push_def DECODE_DESCRIPTOR_BATCH_LIMIT_def word_le_nat_alt
        batch_wf_def batch_items_def take_Suc_conv_app_nth)
qed

lemma pos_index:
  fixes t :: u32
  shows "unat ((t AND 4095) + of_nat i AND 4095) = (unat t + i) mod 4096"
  by (simp only: unat_cmd_mask unat_add_nat_mod [OF cmd_size_ok] mod_add_left_eq)

lemma decode_batch_submit_full:
  assumes "unat (cr_tail r - cr_head r) \<le> 4096"
    and "4096 < unat (cr_tail r - cr_head r) + unat (db_count b)"
  shows "decode_batch_submit (Some r) (Some b) = (-1, Some r)"
  using ring_acquire_full [OF assms] by (simp add: decode_batch_submit_def)

lemma decode_batch_submit_room:
  assumes "db_count b \<noteq> 0" "unat (cr_tail r - cr_head r) + unat (db_count b) \<le> 4096"
  shows "decode_batch_submit (Some r) (Some b) = (0, Some (r\<lparr>
    cr_slots := fold (\<lambda>i s. s[(unat (cr_tail r) + i) mod 4096 := batch_stamp b i])
      [0..<unat (db_count b)] (cr_slots r),
    cr_tail := cr_tail r + db_count b\<rparr>))"
  using assms ring_acquire_room [OF assms(2)] unat_mask_not_max [of "cr_tail r"]
  by (simp add: decode_batch_submit_def RING_SIZE_def pos_index ring_commit_def)

lemma decode_batch_submit_appends:
  assumes inv: "cmd_inv r" and budget: "cmd_budget (n + unat (db_count b)) r"
    and "db_count b \<noteq> 0" and room: "length (cmd_contents r) + unat (db_count b) \<le> 4096"
  shows "\<exists>r'. decode_batch_submit (Some r) (Some b) = (0, Some r') \<and> cmd_inv r' \<and>
    cmd_contents r' = cmd_contents r @ batch_stamped b \<and> cmd_budget n r' \<and>
    cr_head r' = cr_head r \<and> cr_tail r' = cr_tail r + db_count b"
proof -
  let ?k = "unat (db_count b)"
  let ?r = "r\<lparr>cr_slots := fold (\<lambda>i s. s[(unat (cr_tail r) + i) mod 4096 := batch_stamp b i])
      [0..<?k] (cr_slots r), cr_tail := cr_tail r + db_count b\<rparr>"
  have room': "unat (cr_tail r - cr_head r) + ?k \<le> 4096" using room by simp
  have len: "length (cr_slots r) = 4096" and le: "cr_head r \<le> cr_tail r"
    using inv by (simp_all add: rep_linear_def rep_wf_def ring_wf_def)
  have "unat (cr_tail r + of_nat ?k - cr_head r) = unat (cr_tail r - cr_head r) + ?k"
    using room' by (intro unat_add_nat_diff) simp
  then have bounded: "unat (cr_tail r + db_count b - cr_head r) \<le> 4096" using room' by simp
  have sum: "unat (cr_tail r + db_count b) = unat (cr_tail r) + ?k"
    using budget by (simp add: rep_budget_def unat_word_ariths)
  then have "cmd_inv ?r" "cmd_budget n ?r"
    using bounded len le budget
    by (simp_all add: rep_linear_def rep_wf_def ring_wf_def rep_budget_def word_le_nat_alt)
  moreover have "cmd_contents ?r = cmd_contents r @ batch_stamped b"
    using ring_contents_write_many [OF cmd_size_ok len room', of "batch_stamp b"]
    by (simp add: rep_contents_def batch_stamped_def)
  ultimately show ?thesis
    using decode_batch_submit_room [OF assms(3) room'] by simp
qed

section \<open>Properties\<close>

text \<open>
  C18. A batch submission is all or nothing. With a non-empty batch that fits the free part of
  the ring it returns 0 and appends, in order, exactly the batch's descriptors, each stamped
  with the batch size and its own index; with a batch that does not fit, an empty batch or a
  NULL argument it returns -1 and the ring is unchanged. The invariant of the ring is kept.
\<close>

theorem decode_batch_submit_atomic:
  assumes "cmd_inv r" and "batch_wf b" and "cmd_budget (unat (db_count b)) r"
  shows "(if batch_items b \<noteq> [] \<and> length (cmd_contents r) + length (batch_items b) \<le> 4096
     then \<exists>r'. decode_batch_submit (Some r) (Some b) = (0, Some r') \<and> cmd_inv r' \<and>
        cmd_contents r' = cmd_contents r @ batch_stamped b
     else decode_batch_submit (Some r) (Some b) = (-1, Some r)) \<and>
    decode_batch_submit None (Some b) = (-1, None) \<and>
    decode_batch_submit (Some r) None = (-1, Some r)"
proof -
  have len: "length (batch_items b) = unat (db_count b)" using assms(2) by simp
  have null: "decode_batch_submit None (Some b) = (-1, None)"
    "decode_batch_submit (Some r) None = (-1, Some r)"
    by (simp_all add: decode_batch_submit_def)
  consider (empty) "db_count b = 0"
    | (fits) "db_count b \<noteq> 0" "length (cmd_contents r) + unat (db_count b) \<le> 4096"
    | (full) "db_count b \<noteq> 0" "4096 < length (cmd_contents r) + unat (db_count b)"
    by linarith
  then show ?thesis
  proof cases
    case empty
    then have "decode_batch_submit (Some r) (Some b) = (-1, Some r)" "batch_items b = []"
      by (simp_all add: decode_batch_submit_def batch_items_def)
    then show ?thesis using null by simp
  next
    case fits
    then have "batch_items b \<noteq> []" using len by (metis length_0_conv unat_eq_zero)
    then show ?thesis
      using decode_batch_submit_appends [of r 0 b] assms fits len null by auto
  next
    case full
    have "length (cmd_contents r) \<le> 4096" using cmdq.bounded [OF assms(1)] .
    then have "decode_batch_submit (Some r) (Some b) = (-1, Some r)"
      using full(2) by (intro decode_batch_submit_full) simp_all
    then show ?thesis using null full(2) len by simp
  qed
qed

definition two_batch :: DecodeDispatchBatch where
  "two_batch = \<lparr>db_count = 2, db_descs = replicate 32 Descriptor_zero\<rparr>"

lemma replicate_numeral_2: "replicate 2 x = [x, x]"
  by (simp add: numeral_2_eq_2)

theorem decode_batch_submit_atomic_witness:
  "\<exists>r'. decode_batch_submit (Some CommandRing_zero) (Some two_batch) = (0, Some r') \<and>
     cmd_contents r' = [Descriptor_zero\<lparr>ds_batch_size := 2, ds_batch_index := 0\<rparr>,
       Descriptor_zero\<lparr>ds_batch_size := 2, ds_batch_index := 1\<rparr>]"
proof -
  have wf: "batch_wf two_batch" and budget: "cmd_budget (unat (db_count two_batch)) CommandRing_zero"
    by (simp_all add: two_batch_def batch_wf_def)
  have items: "batch_items two_batch = [Descriptor_zero, Descriptor_zero]"
    by (simp add: two_batch_def batch_items_def replicate_numeral_2)
  have stamped: "batch_stamped two_batch =
     [Descriptor_zero\<lparr>ds_batch_size := 2, ds_batch_index := 0\<rparr>,
       Descriptor_zero\<lparr>ds_batch_size := 2, ds_batch_index := 1\<rparr>]"
    by (simp add: two_batch_def batch_stamped_def batch_stamp_def upt_rec)
  show ?thesis
    using decode_batch_submit_atomic [OF CommandRing_zero_inv wf budget]
    by (auto simp: items stamped)
qed

text \<open>
  The batch metadata round trip: the contract a consumer reads back from the \<open>i\<close>-th
  descriptor of a submitted batch is the true batch size and the index \<open>i\<close>, and the payload
  of the descriptor is the one that was pushed. A NULL descriptor has the contract (0, 0).
\<close>

theorem decode_batch_contract_roundtrip:
  assumes "batch_wf b" and "i < length (batch_items b)"
  shows "decode_batch_contract (Some (batch_stamped b ! i)) =
      \<lparr>bc_batch_size = of_nat (length (batch_items b)), bc_batch_index = of_nat i\<rparr> \<and>
    unat (bc_batch_size (decode_batch_contract (Some (batch_stamped b ! i)))) =
      length (batch_items b) \<and>
    unat (bc_batch_index (decode_batch_contract (Some (batch_stamped b ! i)))) = i \<and>
    (batch_stamped b ! i)\<lparr>ds_batch_size := 0, ds_batch_index := 0\<rparr> =
      (batch_items b ! i)\<lparr>ds_batch_size := 0, ds_batch_index := 0\<rparr> \<and>
    decode_batch_contract None = \<lparr>bc_batch_size = 0, bc_batch_index = 0\<rparr>"
proof -
  have count: "unat (db_count b) \<le> 32" using batch_wf_unat [OF assms(1)] by simp
  have i: "i < unat (db_count b)" using assms by simp
  have "unat (of_nat i :: u32) = i" using i count by (simp add: unat_of_nat)
  then have "(ucast (of_nat i :: u32) :: u16) = of_nat i" by (metis of_nat_unat)
  moreover have "unat (of_nat i :: u16) = i"
    using i count by (simp add: unat_of_nat)
  moreover have "unat (of_nat (unat (db_count b)) :: u16) = unat (db_count b)"
    using count by (simp add: unat_of_nat del: of_nat_unat)
  then have "unat (ucast (db_count b) :: u16) = unat (db_count b)" by simp
  ultimately show ?thesis
    using i batch_wf_unat [OF assms(1)]
    by (simp add: decode_batch_contract_def batch_stamped_def batch_stamp_def batch_items_def)
qed

theorem decode_batch_contract_roundtrip_witness:
  "decode_batch_contract (Some (batch_stamped two_batch ! 1)) =
     \<lparr>bc_batch_size = 2, bc_batch_index = 1\<rparr>"
  using decode_batch_contract_roundtrip [of two_batch 1]
  by (simp add: two_batch_def batch_wf_def batch_items_def)

end
