(* ===== verification/Completion_Ring.thy ===== *)
theory Completion_Ring
  imports Ring_Rep
begin

text \<open>
  The device-to-host completion ring, \<^verbatim>\<open>include/completion.h\<close> and \<open>comp_ring_create\<close> of
  \<^verbatim>\<open>src/ring.c\<close>. A push into a full ring is rejected and recorded in the overflow counter.
\<close>

section \<open>Completions and the ring\<close>

definition COMP_RING_SIZE :: u32 where "COMP_RING_SIZE = 4096"

record Completion =
  cp_seq_id :: u64
  cp_token_id :: u32
  cp_kv_block_offset :: u32
  cp_reward_cookie :: u64
  cp_cycles_taken :: u64

datatype comp_status = COMP_STATUS_DONE | COMP_STATUS_REWARD_NEEDED | COMP_STATUS_STOPPED

fun comp_status_code :: "comp_status \<Rightarrow> u32" where
  "comp_status_code COMP_STATUS_DONE = 0x01"
| "comp_status_code COMP_STATUS_REWARD_NEEDED = 0x02"
| "comp_status_code COMP_STATUS_STOPPED = 0xFF"

definition Completion_zero :: Completion where
  "Completion_zero = \<lparr>cp_seq_id = 0, cp_token_id = 0, cp_kv_block_offset = 0,
     cp_reward_cookie = 0, cp_cycles_taken = 0\<rparr>"

record CompletionRing =
  cq_head :: u32
  cq_tail :: u32
  cq_overflow :: u32
  cq_slots :: "Completion list"

definition comp_ring_record_overflow :: "u32 \<Rightarrow> u32" where
  "comp_ring_record_overflow value = value + 1"

definition comp_ring_push :: "CompletionRing \<Rightarrow> Completion \<Rightarrow> int \<times> CompletionRing" where
  "comp_ring_push cr c =
     (let head = cq_head cr; tail = cq_tail cr
      in if COMP_RING_SIZE - (tail - head) < 1
         then (-1, cr\<lparr>cq_overflow := comp_ring_record_overflow (cq_overflow cr)\<rparr>)
         else let pos = tail AND (COMP_RING_SIZE - 1)
              in (0, cr\<lparr>cq_slots := (cq_slots cr)[unat pos := c], cq_tail := tail + 1\<rparr>))"

definition comp_ring_poll :: "CompletionRing \<Rightarrow> int \<times> Completion option \<times> CompletionRing" where
  "comp_ring_poll cr =
     (let head = cq_head cr; tail = cq_tail cr
      in if head \<ge> tail then (0, None, cr)
         else (1, Some (cq_slots cr ! unat (head AND (COMP_RING_SIZE - 1))),
               cr\<lparr>cq_head := head + 1\<rparr>))"

definition CompletionRing_zero :: CompletionRing where
  "CompletionRing_zero = \<lparr>cq_head = 0, cq_tail = 0, cq_overflow = 0,
     cq_slots = replicate (unat COMP_RING_SIZE) Completion_zero\<rparr>"

definition comp_ring_create :: "bool \<Rightarrow> bool \<Rightarrow> CompletionRing option" where
  "comp_ring_create huge_ok small_ok =
     (if \<not> huge_ok then (if \<not> small_ok then None else Some CompletionRing_zero)
      else Some CompletionRing_zero)"

definition comp_push_obs :: "CompletionRing \<Rightarrow> Completion \<Rightarrow> bool \<times> CompletionRing" where
  "comp_push_obs cr c = (fst (comp_ring_push cr c) = 0, snd (comp_ring_push cr c))"

definition comp_poll_obs :: "CompletionRing \<Rightarrow> Completion option \<times> CompletionRing" where
  "comp_poll_obs cr = snd (comp_ring_poll cr)"

section \<open>The ring as a bounded queue with an overflow counter\<close>

abbreviation comp_inv :: "CompletionRing \<Rightarrow> bool" where
  "comp_inv \<equiv> rep_linear 4096 cq_head cq_tail cq_slots"

abbreviation comp_contents :: "CompletionRing \<Rightarrow> Completion list" where
  "comp_contents \<equiv> rep_contents cq_head cq_tail cq_slots"

abbreviation comp_budget :: "nat \<Rightarrow> CompletionRing \<Rightarrow> bool" where
  "comp_budget \<equiv> rep_budget cq_tail"

lemma comp_size_ok: "ring_size_ok 4096"
  by (rule ring_size_okI [of 12]) simp_all

lemma unat_comp_mask: "unat (i AND (COMP_RING_SIZE - 1)) = unat i mod 4096"
  using unat_and_mask [of i 12] by (simp add: COMP_RING_SIZE_def)

lemma comp_ring_push_full:
  "unat (cq_tail r - cq_head r) = 4096 \<Longrightarrow>
   comp_ring_push r c = (-1, r\<lparr>cq_overflow := cq_overflow r + 1\<rparr>)"
  using window_full [of "cq_tail r - cq_head r" 4096 1]
  by (simp add: comp_ring_push_def COMP_RING_SIZE_def comp_ring_record_overflow_def)

lemma comp_ring_push_room:
  "unat (cq_tail r - cq_head r) < 4096 \<Longrightarrow> comp_ring_push r c =
     (0, r\<lparr>cq_slots := (cq_slots r)[unat (cq_tail r) mod 4096 := c], cq_tail := cq_tail r + 1\<rparr>)"
  using window_free [of "cq_tail r - cq_head r" 1 COMP_RING_SIZE]
  by (simp add: comp_ring_push_def unat_comp_mask) (simp add: COMP_RING_SIZE_def)

lemma comp_ring_poll_ge: "cq_tail r \<le> cq_head r \<Longrightarrow> comp_ring_poll r = (0, None, r)"
  by (simp add: comp_ring_poll_def)

lemma comp_ring_poll_less:
  "cq_head r < cq_tail r \<Longrightarrow> comp_ring_poll r =
     (1, Some (cq_slots r ! (unat (cq_head r) mod 4096)), r\<lparr>cq_head := cq_head r + 1\<rparr>)"
  by (simp add: comp_ring_poll_def leD unat_comp_mask)

interpretation compq: nowrap_ring cq_head cq_tail cq_slots 4096 comp_push_obs comp_poll_obs
  by unfold_locales
    (auto simp: comp_size_ok comp_push_obs_def comp_poll_obs_def comp_ring_push_full
      comp_ring_push_room comp_ring_poll_ge comp_ring_poll_less)

interpretation compc: counted_ring cq_overflow comp_push_obs comp_poll_obs
  by unfold_locales
    (auto simp: comp_push_obs_def comp_poll_obs_def comp_ring_push_def comp_ring_poll_def
      comp_ring_record_overflow_def split: if_splits)

lemma CompletionRing_zero_inv [simp]: "comp_inv CompletionRing_zero" and
  CompletionRing_zero_contents [simp]: "comp_contents CompletionRing_zero = []"
  by (simp_all add: rep_linear_def rep_wf_def CompletionRing_zero_def ring_wf_def COMP_RING_SIZE_def)

lemma CompletionRing_zero_budget [simp]: "comp_budget n CompletionRing_zero \<longleftrightarrow> n < 2 ^ 32"
  by (simp add: rep_budget_def CompletionRing_zero_def)

lemma CompletionRing_zero_overflow: "cq_overflow CompletionRing_zero = 0"
  by (simp add: CompletionRing_zero_def)

section \<open>Properties\<close>

text \<open>
  C19. No completion is lost silently: until the producer counter reaches \<open>UINT32_MAX\<close>, every
  run of pushes and polls delivers the accepted completions exactly once and in order, and
  the overflow counter has advanced by exactly the number of rejected completions, modulo
  \<open>2 ^ 32\<close>.
\<close>

theorem completion_ring_accounts:
  assumes "comp_inv r" and "comp_budget (pushes ops) r"
    and "ring_run comp_push_obs comp_poll_obs ops r = (evs, r')"
  shows "comp_contents r @ accepted evs = delivered evs @ comp_contents r' \<and>
    cq_overflow r' = cq_overflow r + of_nat (rejections evs) \<and> comp_inv r'"
  using compq.run_conserves [OF assms] compq.run_invar [OF assms] compc.run_counts [OF assms(3)]
  by simp

theorem completion_ring_accounts_witness:
  "cq_overflow (snd (ring_run comp_push_obs comp_poll_obs
     [Push Completion_zero, Pop, Pop] CompletionRing_zero)) = 0"
proof -
  let ?ops = "[Push Completion_zero, Pop, Pop]"
  obtain evs r' where run: "ring_run comp_push_obs comp_poll_obs ?ops CompletionRing_zero = (evs, r')"
    by fastforce
  then have "evs = [Accepted Completion_zero, Delivered Completion_zero, Empty]"
    using compq.run_refines [OF CompletionRing_zero_inv _ run] by simp
  then show ?thesis
    using completion_ring_accounts [OF CompletionRing_zero_inv _ run]
    unfolding run by (simp add: CompletionRing_zero_overflow)
qed

text \<open>
  Once the producer counter of the completion ring has wrapped below the consumer counter,
  \<open>comp_ring_poll\<close> returns 0 for ever, whatever is pushed: the host sees an empty ring although
  completions are stored in it.
\<close>

theorem completion_ring_wrapped_stuck:
  assumes "rep_wf 4096 cq_head cq_tail cq_slots r" and "cq_tail r < cq_head r"
    and "ring_run comp_push_obs comp_poll_obs ops r = (evs, r')"
  shows "delivered evs = [] \<and> fst (comp_ring_poll r') = 0 \<and> comp_contents r \<noteq> []"
proof -
  have wrapped: "rep_wrapped cq_head cq_tail r" using assms(2) by (simp add: rep_wrapped_def)
  have "delivered evs = [] \<and> rep_wrapped cq_head cq_tail r'"
    using compq.wrapped_delivers_nothing [OF assms(1) wrapped assms(3)] by blast
  then show ?thesis
    using comp_ring_poll_ge [of r'] assms(2) by (auto simp: rep_wrapped_def)
qed

definition comp_ring_wrapped :: CompletionRing where
  "comp_ring_wrapped = CompletionRing_zero\<lparr>cq_head := UINT32_MAX, cq_tail := 0\<rparr>"

theorem completion_ring_wrapped_stuck_witness:
  "delivered (fst (ring_run comp_push_obs comp_poll_obs [Pop, Push Completion_zero, Pop]
     comp_ring_wrapped)) = []"
proof -
  obtain evs r' where run: "ring_run comp_push_obs comp_poll_obs [Pop, Push Completion_zero, Pop]
      comp_ring_wrapped = (evs, r')" by fastforce
  moreover have "rep_wf 4096 cq_head cq_tail cq_slots comp_ring_wrapped"
    "cq_tail comp_ring_wrapped < cq_head comp_ring_wrapped"
    by (simp_all add: comp_ring_wrapped_def CompletionRing_zero_def COMP_RING_SIZE_def
        rep_wf_def ring_wf_def)
  ultimately show ?thesis using completion_ring_wrapped_stuck [OF _ _ run] by simp
qed

end
