(* ===== verification/Runtime_Main.thy ===== *)
theory Runtime_Main
  imports Decode_Batch Completion_Ring
begin

text \<open>
  The host loop of \<^verbatim>\<open>src/main.c\<close>: dispatching a trajectory in batches, polling completions,
  sending the shutdown sentinels, and the resource handling of \<open>runtime_init\<close>. Results of CUDA
  calls are parameters. \<open>None\<close> stands for undefined behaviour (a division by zero) and for
  \<open>abort()\<close>.
\<close>

section \<open>Dispatch\<close>

definition dispatch_desc :: "u64 \<Rightarrow> int \<Rightarrow> int \<Rightarrow> Descriptor" where
  "dispatch_desc seq_id kv_blocks i =
     \<lparr>ds_seq_id = seq_id, ds_kv_block_offset = word_of_int (c_rem i kv_blocks),
      ds_num_kv_blocks = 1, ds_attention_flags = 0, ds_pad = 0,
      ds_output_token_offset = word_of_int i,
      ds_reward_cookie = push_bit 32 seq_id OR word_of_int i,
      ds_batch_size = 0, ds_batch_index = 0\<rparr>"

datatype fill_result = FillFailed | FillUndefined | Filled int DecodeDispatchBatch

text \<open>
  \<open>ms seq step slot\<close> and \<open>qp slot\<close> are the return codes of \<open>model_state_prepare_slot\<close> and
  \<open>query_producer_prepare_slot\<close>, which launch a kernel each.
\<close>

function fill_batch :: "(u64 \<Rightarrow> u32 \<Rightarrow> u32 \<Rightarrow> int) \<Rightarrow> (u32 \<Rightarrow> int) \<Rightarrow> u32 \<Rightarrow> u64 \<Rightarrow> int \<Rightarrow> int \<Rightarrow> int
    \<Rightarrow> DecodeDispatchBatch \<Rightarrow> fill_result" where
  "fill_batch ms qp io_slots seq_id n_steps kv_blocks i batch =
     (if i < n_steps \<and> db_count batch < DECODE_DESCRIPTOR_BATCH_LIMIT then
        let slot = word_of_int i AND (io_slots - 1) in
        if ms seq_id (word_of_int i) slot \<noteq> 0 then FillFailed
        else if qp slot \<noteq> 0 then FillFailed
        else if kv_blocks = 0 then FillUndefined
        else case decode_batch_push (Some batch) (Some (dispatch_desc seq_id kv_blocks i)) of
               (c, Some batch1) \<Rightarrow>
                 if c \<noteq> 0 then Filled i batch1
                 else fill_batch ms qp io_slots seq_id n_steps kv_blocks (i + 1) batch1
             | (c, None) \<Rightarrow> Filled i batch
      else Filled i batch)"
  by pat_completeness auto
termination
  by (relation "measure (\<lambda>(ms, qp, io, seq, n, kv, i, b). nat (n - i))") auto

declare fill_batch.simps [simp del]

text \<open>\<open>junk i\<close> is the uninitialised stack batch of the round that starts at step \<open>i\<close>.\<close>

partial_function (option) dispatch_loop ::
  "(u64 \<Rightarrow> u32 \<Rightarrow> u32 \<Rightarrow> int) \<Rightarrow> (u32 \<Rightarrow> int) \<Rightarrow> (int \<Rightarrow> DecodeDispatchBatch) \<Rightarrow> u32 \<Rightarrow> u64 \<Rightarrow> int \<Rightarrow> int
    \<Rightarrow> int \<Rightarrow> CommandRing \<Rightarrow> (int \<times> CommandRing) option" where
  "dispatch_loop ms qp junk io_slots seq_id n_steps kv_blocks i ring =
     (if i < n_steps then
        (case fill_batch ms qp io_slots seq_id n_steps kv_blocks i
                (the (decode_batch_reset (Some (junk i)))) of
           FillUndefined \<Rightarrow> None
         | FillFailed \<Rightarrow> Some (-1, ring)
         | Filled i1 batch \<Rightarrow>
             (case decode_batch_submit (Some ring) (Some batch) of
                (c, r) \<Rightarrow>
                  if c \<noteq> 0 then Some (-1, the r)
                  else dispatch_loop ms qp junk io_slots seq_id n_steps kv_blocks i1 (the r)))
      else Some (0, ring))"

definition runtime_dispatch ::
  "(u64 \<Rightarrow> u32 \<Rightarrow> u32 \<Rightarrow> int) \<Rightarrow> (u32 \<Rightarrow> int) \<Rightarrow> (int \<Rightarrow> DecodeDispatchBatch) \<Rightarrow> u32 \<Rightarrow> CommandRing \<Rightarrow> u64
    \<Rightarrow> int \<Rightarrow> int \<Rightarrow> (int \<times> CommandRing) option" where
  "runtime_dispatch ms qp junk io_slots ring seq_id n_steps kv_blocks =
     dispatch_loop ms qp junk io_slots seq_id n_steps kv_blocks 0 ring"

section \<open>Polling and shutdown\<close>

function poll_loop :: "int \<Rightarrow> int \<Rightarrow> CompletionRing \<Rightarrow> int \<times> CompletionRing" where
  "poll_loop max_poll n cr =
     (if n < max_poll then
        (case comp_ring_poll cr of (c, out, cr1) \<Rightarrow>
           if c \<noteq> 0 then poll_loop max_poll (n + 1) cr1 else (n, cr1))
      else (n, cr))"
  by pat_completeness auto
termination by (relation "measure (\<lambda>(m, n, cr). nat (m - n))") auto

declare poll_loop.simps [simp del]

definition runtime_poll :: "CompletionRing \<Rightarrow> int \<Rightarrow> int \<times> CompletionRing" where
  "runtime_poll cr max_poll = poll_loop max_poll 0 cr"

definition sentinel :: Descriptor where
  "sentinel = Descriptor_zero\<lparr>ds_seq_id := UINT64_MAX\<rparr>"

text \<open>
  The sentinel loop of \<open>runtime_shutdown\<close>. Between two rounds the device consumes descriptors:
  \<open>gpu k\<close> of them before the round with \<open>k\<close> rounds of fuel left. The result is \<open>None\<close> when the
  fuel ends before all sentinels are sent.
\<close>

fun gpu_consume :: "nat \<Rightarrow> CommandRing \<Rightarrow> CommandRing" where
  "gpu_consume 0 ring = ring"
| "gpu_consume (Suc n) ring = gpu_consume n (snd (ring_consume_obs ring))"

fun shutdown_loop :: "nat \<Rightarrow> (nat \<Rightarrow> nat) \<Rightarrow> int \<Rightarrow> int \<Rightarrow> CommandRing \<Rightarrow> CommandRing option" where
  "shutdown_loop fuel gpu num_sms sent ring =
     (if sent < num_sms then
        (case fuel of 0 \<Rightarrow> None | Suc k \<Rightarrow>
           (case ring_send (gpu_consume (gpu k) ring) sentinel of
              (True, ring1) \<Rightarrow> shutdown_loop k gpu num_sms (sent + 1) ring1
            | (False, ring1) \<Rightarrow> shutdown_loop k gpu num_sms sent ring1))
      else Some ring)"

declare shutdown_loop.simps [simp del]

section \<open>Filling a batch\<close>

lemma DECODE_LIMIT_less: "c < DECODE_DESCRIPTOR_BATCH_LIMIT \<longleftrightarrow> unat c < 32"
  by (simp add: DECODE_DESCRIPTOR_BATCH_LIMIT_def word_less_nat_alt)

text \<open>When the kernel launches succeed, a round takes steps until the batch or the run is full.\<close>

lemma fill_batch_fills:
  assumes ok: "\<And>s t u. ms s t u = 0" "\<And>u. qp u = 0" and kv: "kv \<noteq> 0" and "batch_wf b"
    and "i \<le> n" and "k = min (n - i) (32 - unat (db_count b))"
  shows "\<exists>b'. fill_batch ms qp io seq (int n) kv (int i) b = Filled (int (i + k)) b' \<and> batch_wf b' \<and>
    unat (db_count b') = unat (db_count b) + k \<and>
    batch_items b' = batch_items b @ map (\<lambda>j. dispatch_desc seq kv (int j)) [i..<i + k]"
  using assms(4-6)
proof (induction k arbitrary: i b)
  case 0
  then have "\<not> (int i < int n \<and> db_count b < DECODE_DESCRIPTOR_BATCH_LIMIT)"
    by (auto simp: DECODE_LIMIT_less)
  then have "fill_batch ms qp io seq (int n) kv (int i) b = Filled (int i) b"
    by (subst fill_batch.simps) (rule if_not_P)
  then show ?case using 0 by simp
next
  case (Suc k)
  let ?d = "dispatch_desc seq kv (int i)"
  have lt: "i < n" "unat (db_count b) < 32" using Suc.prems(3) by auto
  obtain b1 where b1: "decode_batch_push (Some b) (Some ?d) = (0, Some b1)" "batch_wf b1"
    "unat (db_count b1) = Suc (unat (db_count b))" "batch_items b1 = batch_items b @ [?d]"
    using decode_batch_push_room [OF Suc.prems(1) lt(2), of ?d] by blast
  have step: "fill_batch ms qp io seq (int n) kv (int i) b =
      fill_batch ms qp io seq (int n) kv (int (Suc i)) b1"
    using lt ok kv by (subst fill_batch.simps) (simp add: DECODE_LIMIT_less b1(1) add.commute)
  have "k = min (n - Suc i) (32 - unat (db_count b1))" using Suc.prems(3) b1(3) by auto
  from Suc.IH [OF b1(2) _ this] lt obtain b' where
    "fill_batch ms qp io seq (int n) kv (int (Suc i)) b1 = Filled (int (Suc i + k)) b'"
    "batch_wf b'" "unat (db_count b') = unat (db_count b1) + k"
    "batch_items b' = batch_items b1 @ map (\<lambda>j. dispatch_desc seq kv (int j)) [Suc i..<Suc i + k]"
    by auto
  moreover have "[i..<i + Suc k] = i # [Suc i..<Suc i + k]"
    by (simp add: upt_conv_Cons del: upt_Suc)
  ultimately show ?case
    using step b1(3,4) by (simp del: upt_Suc)
qed

section \<open>Dispatching a trajectory\<close>

text \<open>
  Step \<open>i\<close> of a trajectory of \<open>n\<close> steps as the consumer sees it: batches of 32 and a shorter
  last one.
\<close>

definition dispatched :: "u64 \<Rightarrow> int \<Rightarrow> nat \<Rightarrow> nat \<Rightarrow> Descriptor" where
  "dispatched seq kv n i = (dispatch_desc seq kv (int i))
     \<lparr>ds_batch_size := of_nat (min 32 (n - 32 * (i div 32))), ds_batch_index := of_nat (i mod 32)\<rparr>"

lemma batch_stamped_items:
  assumes "batch_wf b"
  shows "batch_stamped b = map (\<lambda>m. (batch_items b ! m)
    \<lparr>ds_batch_size := of_nat (length (batch_items b)), ds_batch_index := of_nat m\<rparr>)
    [0..<length (batch_items b)]"
proof -
  have wf: "length (db_descs b) = 32" "unat (db_count b) \<le> 32" using batch_wf_unat [OF assms] by simp_all
  have "(ucast (of_nat m :: u32) :: u16) = of_nat m" if "m < unat (db_count b)" for m
  proof -
    have "unat (of_nat m :: u32) = m" using that wf(2) by (simp add: unat_of_nat)
    then show ?thesis by (metis of_nat_unat)
  qed
  then show ?thesis
    using assms by (simp add: batch_stamped_def batch_stamp_def) (simp add: batch_items_def)
qed

lemma stamped_round:
  assumes "batch_wf b" "batch_items b = map (\<lambda>j. dispatch_desc seq kv (int j)) [i..<i + k]"
    and "32 dvd i" "k = min (n - i) 32" "i < n"
  shows "batch_stamped b = map (dispatched seq kv n) [i..<i + k]"
proof -
  have len: "length (batch_items b) = k" using assms(2) by simp
  have "(i + m) div 32 = i div 32" "(i + m) mod 32 = m" if "m < k" for m
    using that assms(3,4) by (auto elim!: dvdE)
  moreover have "32 * (i div 32) = i" using assms(3) by simp
  ultimately have "(batch_items b ! m)\<lparr>ds_batch_size := of_nat k, ds_batch_index := of_nat m\<rparr> =
      dispatched seq kv n (i + m)" if "m < k" for m
    using that assms(2,4) by (simp add: dispatched_def min.commute)
  moreover have "map (dispatched seq kv n) [i..<i + k] = map (\<lambda>m. dispatched seq kv n (i + m)) [0..<k]"
    by (rule nth_equalityI) simp_all
  ultimately show ?thesis unfolding batch_stamped_items [OF assms(1)] len by simp
qed

lemma upt_split: "(a :: nat) \<le> b \<Longrightarrow> b \<le> c \<Longrightarrow> [a..<c] = [a..<b] @ [b..<c]"
  using upt_add_eq_append [of a b "c - b"] by simp

lemma dispatch_loop_outcome:
  assumes ok: "\<And>s t u. ms s t u = 0" "\<And>u. qp u = 0" and kv: "kv \<noteq> 0"
    and junk: "\<And>i. length (db_descs (junk i)) = 32"
    and "cmd_inv r" "cmd_budget (n - i + x) r" "i \<le> n" "32 dvd i \<or> i = n"
    and "free = 4096 - length (cmd_contents r)"
  shows "\<exists>r'. dispatch_loop ms qp junk io seq (int n) kv (int i) r =
      Some (if n - i \<le> free then 0 else -1, r') \<and> cmd_inv r' \<and> cmd_budget x r' \<and>
    cmd_contents r' = cmd_contents r @ map (dispatched seq kv n)
      [i..<if n - i \<le> free then n else i + 32 * (free div 32)]"
  using assms(5-9)
proof (induction "n - i" arbitrary: i r free rule: less_induct)
  case less
  note inv = less.prems(1) and budget = less.prems(2) and free = less.prems(5)
  have bound: "length (cmd_contents r) \<le> 4096" using cmdq.bounded [OF inv] .
  show ?case
  proof (cases "i < n")
    case False
    then show ?thesis using less.prems by (subst dispatch_loop.simps) simp
  next
    case True
    then have dvd: "32 dvd i" using less.prems(4) by auto
    let ?b0 = "(junk (int i))\<lparr>db_count := 0\<rparr>"
    define k where "k = min (n - i) 32"
    have "batch_wf ?b0" using junk by (simp add: batch_wf_def)
    from fill_batch_fills [where ms = ms and qp = qp and io = io and seq = seq and k = k,
        OF ok kv this less.prems(3)]
    obtain b where fill: "fill_batch ms qp io seq (int n) kv (int i) ?b0 = Filled (int (i + k)) b"
      and b: "batch_wf b" "unat (db_count b) = k"
        "batch_items b = map (\<lambda>j. dispatch_desc seq kv (int j)) [i..<i + k]"
      by (auto simp: k_def batch_items_def)
    have unfold: "dispatch_loop ms qp junk io seq (int n) kv (int i) r =
        (case decode_batch_submit (Some r) (Some b) of (c, r1) \<Rightarrow>
           if c \<noteq> 0 then Some (-1, the r1)
           else dispatch_loop ms qp junk io seq (int n) kv (int (i + k)) (the r1))"
      using True by (subst dispatch_loop.simps) (simp add: decode_batch_reset_def fill del: of_nat_add)
    have kpos: "0 < k" "db_count b \<noteq> 0" "i + k \<le> n"
      using True b(2) by (auto simp: k_def)
    show ?thesis
    proof (cases "k \<le> free")
      case fits: True
      have "n - i + x = (n - (i + k) + x) + unat (db_count b)" using kpos(3) b(2) by simp
      then have budget': "cmd_budget (n - (i + k) + x + unat (db_count b)) r" using budget by metis
      have room: "length (cmd_contents r) + unat (db_count b) \<le> 4096"
        using fits bound unfolding free b(2) by linarith
      obtain r1 where r1: "decode_batch_submit (Some r) (Some b) = (0, Some r1)" "cmd_inv r1"
        "cmd_contents r1 = cmd_contents r @ batch_stamped b" "cmd_budget (n - (i + k) + x) r1"
        using decode_batch_submit_appends [OF inv budget' kpos(2) room] by blast
      have free1: "free - k = 4096 - length (cmd_contents r1)"
        unfolding r1(3) length_append length_batch_stamped b(2) free by simp
      have dvd1: "32 dvd i + k \<or> i + k = n" using dvd by (auto simp: k_def min_def)
      have "n - (i + k) < n - i" using kpos True by simp
      from less.hyps [OF this r1(2,4) kpos(3) dvd1 free1] obtain r' where
        r': "dispatch_loop ms qp junk io seq (int n) kv (int (i + k)) r1 =
            Some (if n - (i + k) \<le> free - k then 0 else -1, r')" "cmd_inv r'" "cmd_budget x r'"
          "cmd_contents r' = cmd_contents r1 @ map (dispatched seq kv n)
            [i + k..<if n - (i + k) \<le> free - k then n else i + k + 32 * ((free - k) div 32)]"
        by blast
      have same: "n - (i + k) \<le> free - k \<longleftrightarrow> n - i \<le> free" using fits kpos by auto
      have upto: "i + k + 32 * ((free - k) div 32) = i + 32 * (free div 32)" if "\<not> n - i \<le> free"
      proof -
        have "k = 32" using that fits by (auto simp: k_def)
        then show ?thesis using fits by (simp add: le_div_geq)
      qed
      have le: "i + k \<le> (if n - i \<le> free then n else i + 32 * (free div 32))"
        using kpos(3) upto by auto
      have stop: "(if n - i \<le> free then n else i + k + 32 * ((free - k) div 32)) =
          (if n - i \<le> free then n else i + 32 * (free div 32))"
        using upto by (rule if_cong [OF refl refl])
      have "cmd_contents r' = cmd_contents r @ map (dispatched seq kv n)
          [i..<if n - i \<le> free then n else i + 32 * (free div 32)]"
        using r'(4) unfolding r1(3) stamped_round [OF b(1,3) dvd k_def True] same stop
        by (simp only: upt_split [OF le_add1 le] map_append append_assoc)
      then show ?thesis using unfold r1(1) r'(1,2,3) same by simp
    next
      case False
      then have "decode_batch_submit (Some r) (Some b) = (-1, Some r)"
        using bound free b(2) by (intro decode_batch_submit_full) simp_all
      moreover have "\<not> n - i \<le> free" "free div 32 = 0" using False by (auto simp: k_def)
      moreover have "cmd_budget x r" using budget by (simp add: rep_budget_def)
      ultimately show ?thesis using unfold inv by simp
    qed
  qed
qed

lemma runtime_dispatch_outcome:
  assumes "\<And>s t u. ms s t u = 0" and "\<And>u. qp u = 0" and "kv \<noteq> 0"
    and "\<And>i. length (db_descs (junk i)) = 32"
    and "cmd_inv r" and "cmd_budget (n + x) r" and "free = 4096 - length (cmd_contents r)"
  shows "\<exists>r'. runtime_dispatch ms qp junk io r seq (int n) kv = Some (if n \<le> free then 0 else -1, r') \<and>
    cmd_inv r' \<and> cmd_budget x r' \<and> cmd_contents r' = cmd_contents r @ map (dispatched seq kv n)
      [0..<if n \<le> free then n else 32 * (free div 32)]"
proof -
  have "cmd_budget (n - 0 + x) r" using assms(6) by simp
  from dispatch_loop_outcome [where ms = ms and qp = qp and junk = junk and i = 0 and io = io and
      seq = seq, OF assms(1-5) this _ _ assms(7)]
  show ?thesis by (cases "n \<le> free") (simp_all add: runtime_dispatch_def)
qed

section \<open>Polling and shutdown\<close>

lemma poll_loop_outcome:
  assumes "comp_inv cr" and "n \<le> m" and "k = min (nat (m - n)) (length (comp_contents cr))"
  shows "\<exists>cr'. poll_loop m n cr = (n + int k, cr') \<and> comp_inv cr' \<and>
    comp_contents cr' = drop k (comp_contents cr) \<and> cq_tail cr' = cq_tail cr"
  using assms
proof (induction k arbitrary: n cr)
  case 0
  then have "n = m \<or> cq_tail cr \<le> cq_head cr" by (auto simp: min_def split: if_splits)
  then show ?case
  proof
    assume "n = m"
    then show ?thesis using 0 by (subst poll_loop.simps) simp
  next
    assume "cq_tail cr \<le> cq_head cr"
    then show ?thesis using 0 by (subst poll_loop.simps) (simp add: comp_ring_poll_ge)
  qed
next
  case (Suc k)
  obtain x xs where xs: "comp_contents cr = x # xs"
    using Suc.prems(3) by (metis length_0_conv min_0R neq_Nil_conv Zero_not_Suc)
  have "cq_head cr \<noteq> cq_tail cr" using xs rep_contents_Nil [of cq_head cq_tail cq_slots cr] by auto
  then have less: "cq_head cr < cq_tail cr" using Suc.prems(1) by (simp add: rep_linear_def order_less_le)
  then obtain out cr1 where poll: "comp_ring_poll cr = (1, out, cr1)" by (simp add: comp_ring_poll_less)
  then have obs: "comp_poll_obs cr = (out, cr1)" by (simp add: comp_poll_obs_def)
  have cr1: "comp_inv cr1" "comp_contents cr1 = xs" "cq_tail cr1 = cq_tail cr"
    using compq.linear_pop_first [OF Suc.prems(1) xs obs] by simp_all
  have n: "n < m" using Suc.prems(3) by auto
  have "nat (m - n) = Suc (nat (m - (n + 1)))" using n by simp
  then have "k = min (nat (m - (n + 1))) (length (comp_contents cr1))"
    using Suc.prems(3) unfolding cr1(2) xs by simp
  from Suc.IH [OF cr1(1) _ this] n obtain cr' where
    "poll_loop m (n + 1) cr1 = (n + 1 + int k, cr')" "comp_inv cr'" "comp_contents cr' = drop k xs" "cq_tail cr' = cq_tail cr"
    unfolding cr1(2,3) by auto
  then show ?case using n poll xs by (subst poll_loop.simps) simp
qed

lemma gpu_consume_drops:
  "cmd_inv r \<Longrightarrow> cmd_inv (gpu_consume n r) \<and> cmd_contents (gpu_consume n r) = drop n (cmd_contents r) \<and>
     cr_tail (gpu_consume n r) = cr_tail r"
proof (induction n arbitrary: r)
  case (Suc n)
  show ?case
  proof (cases "cmd_contents r")
    case Nil
    then have "ring_consume_obs r = (None, r)" by (rule cmdq.pop_empty [OF Suc.prems])
    then show ?thesis using Suc.IH [OF Suc.prems] Nil by simp
  next
    case (Cons x xs)
    obtain y r1 where pop: "ring_consume_obs r = (y, r1)" by fastforce
    then have "cmd_inv r1" "cmd_contents r1 = xs" "cr_tail r1 = cr_tail r"
      using cmdq.linear_pop_first [OF Suc.prems Cons pop] by simp_all
    then show ?thesis using Suc.IH [of r1] pop Cons by simp
  qed
qed simp

text \<open>
  Whatever the device consumes meanwhile, sentinels are only appended: the ring ends with the
  sentinels that are still queued, after whatever is left of the earlier descriptors.
\<close>

lemma shutdown_loop_sends:
  assumes "cmd_inv r" and "cmd_budget fuel r" and "length (cmd_contents r) + m \<le> 4096" and "m \<le> fuel"
  shows "\<exists>r' d. shutdown_loop fuel gpu (s + int m) s r = Some r' \<and> cmd_inv r' \<and>
    cmd_contents r' = drop d (cmd_contents r @ replicate m sentinel)"
  using assms
proof (induction m arbitrary: fuel s r)
  case 0
  then show ?case
    by (intro exI [of _ r] exI [of _ 0]) (simp add: shutdown_loop.simps)
next
  case (Suc m)
  obtain k where fuel: "fuel = Suc k" using Suc.prems(4) by (cases fuel) auto
  let ?g = "gpu_consume (gpu k) r"
  have g: "cmd_inv ?g" "cmd_contents ?g = drop (gpu k) (cmd_contents r)" "cr_tail ?g = cr_tail r"
    using gpu_consume_drops [OF Suc.prems(1), of "gpu k"] by simp_all
  have budget: "cmd_budget (Suc k) ?g" using Suc.prems(2) g(3) by (simp add: rep_budget_def fuel)
  have room: "length (cmd_contents ?g) < 4096"
    unfolding g(2) using Suc.prems(3) by simp
  obtain ok r1 where send: "ring_send ?g sentinel = (ok, r1)" by fastforce
  have r1: "ok" "cmd_inv r1" "cmd_contents r1 = cmd_contents ?g @ [sentinel]" "cmd_budget k r1"
    using cmdq.push_room [OF g(1) budget room send] by simp_all
  have "length (cmd_contents r1) + m \<le> 4096" unfolding r1(3) g(2) using Suc.prems(3) by simp
  from Suc.IH [OF r1(2,4) this] Suc.prems(4) fuel obtain r' d where
    r': "shutdown_loop k gpu (s + 1 + int m) (s + 1) r1 = Some r'" "cmd_inv r'"
      "cmd_contents r' = drop d (cmd_contents r1 @ replicate m sentinel)"
    by (metis Suc_le_mono)
  have "shutdown_loop fuel gpu (s + int (Suc m)) s r = Some r'"
    using r'(1) send r1(1) by (subst shutdown_loop.simps) (simp add: fuel add.assoc)
  moreover have "\<exists>d'. cmd_contents r' = drop d' (cmd_contents r @ replicate (Suc m) sentinel)"
  proof -
    have "drop (gpu k) (cmd_contents r) @ sentinel # replicate m sentinel =
        drop (min (gpu k) (length (cmd_contents r))) (cmd_contents r @ replicate (Suc m) sentinel)"
      by (cases "gpu k \<le> length (cmd_contents r)") (simp_all add: min_def)
    then show ?thesis unfolding r'(3) r1(3) g(2) by (metis append.assoc append_Cons append_Nil drop_drop)
  qed
  ultimately show ?case using r'(2) by blast
qed

section \<open>Properties\<close>

text \<open>
  C6. Dispatching a trajectory of \<open>n\<close> steps terminates and is exact. When the kernel launches
  succeed and the command ring has room for \<open>n\<close> descriptors, it returns 0 and the ring has been
  extended by exactly the \<open>n\<close> step descriptors, in step order, in batches of 32 with correct batch
  metadata. When the ring has less room, it returns -1 after submitting exactly the whole batches
  that fit.
\<close>

theorem runtime_dispatch_exact:
  assumes "\<And>s t u. ms s t u = 0" and "\<And>u. qp u = 0" and "kv \<noteq> 0"
    and "\<And>i. length (db_descs (junk i)) = 32"
    and "cmd_inv r" and "cmd_budget n r" and "free = 4096 - length (cmd_contents r)"
  shows "\<exists>r'. runtime_dispatch ms qp junk io r seq (int n) kv = Some (if n \<le> free then 0 else -1, r') \<and>
    cmd_inv r' \<and> cmd_contents r' = cmd_contents r @ map (dispatched seq kv n)
      [0..<if n \<le> free then n else 32 * (free div 32)]"
proof -
  have "cmd_budget (n + 0) r" using assms(6) by simp
  from runtime_dispatch_outcome [where ms = ms and qp = qp and junk = junk and io = io and seq = seq,
      OF assms(1-5) this assms(7)]
  show ?thesis by (elim exE conjE) (rule exI, intro conjI)
qed

definition zero_batch :: DecodeDispatchBatch where
  "zero_batch = \<lparr>db_count = 5, db_descs = replicate 32 Descriptor_zero\<rparr>"

theorem runtime_dispatch_exact_witness:
  "\<exists>r'. runtime_dispatch (\<lambda>_ _ _. 0) (\<lambda>_. 0) (\<lambda>_. zero_batch) 4096 CommandRing_zero 1 (int 40) 128 =
     Some (0, r') \<and> cmd_contents r' = map (dispatched 1 128 40) [0..<40]"
  using runtime_dispatch_exact [of "\<lambda>_ _ _. 0" "\<lambda>_. 0" 128 "\<lambda>_. zero_batch" CommandRing_zero 40 4096 4096 1]
    CommandRing_zero_inv CommandRing_zero_contents CommandRing_zero_budget
  by (auto simp: zero_batch_def CommandRing_zero_def)

text \<open>
  \<open>runtime_poll\<close> terminates and consumes exactly the smaller of \<open>max_poll\<close> and the number of
  queued completions, oldest first; its return value is that number.
\<close>

theorem runtime_poll_exact:
  assumes "comp_inv cr" and "0 \<le> max_poll"
  shows "\<exists>cr'. runtime_poll cr max_poll = (int (min (nat max_poll) (length (comp_contents cr))), cr') \<and>
    comp_inv cr' \<and> comp_contents cr' = drop (min (nat max_poll) (length (comp_contents cr))) (comp_contents cr)"
  using poll_loop_outcome [OF assms refl] by (auto simp: runtime_poll_def)

theorem runtime_poll_exact_witness:
  "fst (runtime_poll CompletionRing_zero 256) = 0"
proof -
  from runtime_poll_exact [OF CompletionRing_zero_inv, of 256] obtain cr' where
    "runtime_poll CompletionRing_zero 256 =
      (int (min (nat 256) (length (comp_contents CompletionRing_zero))), cr')" by auto
  then show ?thesis unfolding CompletionRing_zero_contents by simp
qed

text \<open>
  Shutdown delivers one sentinel per SM behind all pending work: with room for \<open>m\<close> sentinels
  the loop ends after \<open>m\<close> rounds whatever the device consumes meanwhile, and the ring then holds
  the unconsumed tail of the sequence of all earlier descriptors followed by the \<open>m\<close> sentinels.
\<close>

theorem runtime_shutdown_sends_sentinels:
  assumes "cmd_inv r" and "cmd_budget m r" and "length (cmd_contents r) + m \<le> 4096"
  shows "\<exists>r' d. shutdown_loop m gpu (int m) 0 r = Some r' \<and> cmd_inv r' \<and>
    cmd_contents r' = drop d (cmd_contents r @ replicate m sentinel)"
  using shutdown_loop_sends [OF assms order_refl, of gpu 0] by simp

theorem runtime_shutdown_sends_sentinels_witness:
  "\<exists>r' d. shutdown_loop 2 (\<lambda>_. 1) 2 0 CommandRing_zero = Some r' \<and>
     cmd_contents r' = drop d [sentinel, sentinel]"
proof -
  have "length (cmd_contents CommandRing_zero) + 2 \<le> 4096" unfolding CommandRing_zero_contents by simp
  from runtime_shutdown_sends_sentinels [OF CommandRing_zero_inv _ this, of "\<lambda>_. 1"] show ?thesis
    unfolding CommandRing_zero_contents replicate_numeral_2 by auto
qed

end
