(* ===== verification/Device_Buffers.thy ===== *)
theory Device_Buffers
  imports Prelude
begin

text \<open>
  Ownership of the memory the runtime allocates, and the two modules that own device buffers of
  their own: \<^verbatim>\<open>cu/model_state.cu\<close> (hidden state and its projections) and \<^verbatim>\<open>cu/query_producer.cu\<close>
  (the query projection). A pointer is an \<open>option\<close> holding the contents of its buffer, with NULL as
  \<open>None\<close>; the weights are kept as the numerators of the fractions the code computes. Which
  allocations succeed is an argument. The kernels that read these buffers are in \<open>Model_Kernels\<close>.
\<close>

section \<open>Memory accounting\<close>

text \<open>Every allocation site of the runtime, one per pointer.\<close>

datatype res =
    HostInputProj | HostResidualProj | HostBias | HostQueryProj
  | HiddenBuf | InputProj | ResidualProj | Bias | QueryProj
  | CmdRing | CompRing | ArenaMap | StepCount | QueryBuf | OutputBuf | SampleSt

text \<open>
  The live blocks, and whether a block was freed that was not live or allocated a second time
  while it was live (the first block would be lost).
\<close>

record mem =
  mem_live :: "res set"
  mem_error :: bool

definition mem_alloc :: "res \<Rightarrow> mem \<Rightarrow> mem" where
  "mem_alloc r m = (if r \<in> mem_live m then m\<lparr>mem_error := True\<rparr> else m\<lparr>mem_live := insert r (mem_live m)\<rparr>)"

definition mem_free :: "res \<Rightarrow> mem \<Rightarrow> mem" where
  "mem_free r m = (if r \<in> mem_live m then m\<lparr>mem_live := mem_live m - {r}\<rparr> else m\<lparr>mem_error := True\<rparr>)"

text \<open>An allocation that may fail, and a release that ignores NULL.\<close>

definition try_alloc :: "bool \<Rightarrow> res \<Rightarrow> mem \<Rightarrow> mem" where
  "try_alloc ok r m = (if ok then mem_alloc r m else m)"

definition free_if :: "bool \<Rightarrow> res \<Rightarrow> mem \<Rightarrow> mem" where
  "free_if nonnull r m = (if nonnull then mem_free r m else m)"

lemma mem_alloc_fresh [simp]: "r \<notin> mem_live m \<Longrightarrow> mem_alloc r m = m\<lparr>mem_live := insert r (mem_live m)\<rparr>"
  by (simp add: mem_alloc_def)

lemma mem_free_live [simp]: "r \<in> mem_live m \<Longrightarrow> mem_free r m = m\<lparr>mem_live := mem_live m - {r}\<rparr>"
  by (simp add: mem_free_def)

lemma try_alloc_simps [simp]:
  "try_alloc False r m = m" "try_alloc True r m = mem_alloc r m"
  by (simp_all add: try_alloc_def)

lemma free_if_simps [simp]:
  "free_if False r m = m" "free_if True r m = mem_free r m"
  by (simp_all add: free_if_def)

section \<open>Model state\<close>

definition MODEL_STATE_DIM :: nat where "MODEL_STATE_DIM = 128"

record ModelStateBuffers =
  ms_hidden_buf :: "int list option"
  ms_input_proj :: "int list option"
  ms_residual_proj :: "int list option"
  ms_bias :: "int list option"

definition model_state_null :: ModelStateBuffers where
  "model_state_null = \<lparr>ms_hidden_buf = None, ms_input_proj = None, ms_residual_proj = None, ms_bias = None\<rparr>"

text \<open>Numerators of the weights: over 64 for the bias, over 48 and 64 for the two projections.\<close>

definition ms_bias_num :: "u32 \<Rightarrow> int" where
  "ms_bias_num r = c_rem (sint ((r + 5) * 7)) 19 - 9"

definition ms_input_num :: "u32 \<Rightarrow> u32 \<Rightarrow> int" where
  "ms_input_num r c = c_rem (sint ((r + 3) * (c + 1))) 23 - 11"

definition ms_residual_num :: "u32 \<Rightarrow> u32 \<Rightarrow> int" where
  "ms_residual_num r c = c_rem (sint ((r + 9) * (c + 5))) 17 - 8"

definition matrix :: "nat \<Rightarrow> (u32 \<Rightarrow> u32 \<Rightarrow> int) \<Rightarrow> int list" where
  "matrix n f = concat (map (\<lambda>r. map (\<lambda>c. f (of_nat r) (of_nat c)) [0..<n]) [0..<n])"

text \<open>Which of the three \<open>malloc\<close> and the four \<open>cudaMalloc\<close> calls succeed.\<close>

record model_state_env =
  me_h_input :: bool
  me_h_residual :: bool
  me_h_bias :: bool
  me_hidden :: bool
  me_input :: bool
  me_residual :: bool
  me_bias :: bool

definition model_state_init ::
  "model_state_env \<Rightarrow> ModelStateBuffers option \<Rightarrow> u32 \<Rightarrow> mem \<Rightarrow> int \<times> ModelStateBuffers option \<times> mem" where
  "model_state_init env state slots m =
     (let hi = me_h_input env; hr = me_h_residual env; hb = me_h_bias env;
          m = try_alloc hi HostInputProj m;
          m = try_alloc hr HostResidualProj m;
          m = try_alloc hb HostBias m;
          free_host = (\<lambda>m. free_if hb HostBias (free_if hr HostResidualProj (free_if hi HostInputProj m)))
      in case state of
           None \<Rightarrow> (-1, None, free_host m)
         | Some st \<Rightarrow>
             if \<not> hi \<or> \<not> hr \<or> \<not> hb then (-1, Some st, free_host m)
             else
             let h_bias = map (\<lambda>r. ms_bias_num (of_nat r)) [0..<MODEL_STATE_DIM];
                 h_input_proj = matrix MODEL_STATE_DIM ms_input_num;
                 h_residual_proj = matrix MODEL_STATE_DIM ms_residual_num
             in
             if \<not> me_hidden env then (-1, Some st, free_host m)
             else
             let m = mem_alloc HiddenBuf m in
             if \<not> me_input env
             then (-1, Some (st\<lparr>ms_hidden_buf := None\<rparr>), free_host (mem_free HiddenBuf m))
             else
             let m = mem_alloc InputProj m in
             if \<not> me_residual env
             then (-1, Some (st\<lparr>ms_hidden_buf := None, ms_input_proj := None\<rparr>),
                   free_host (mem_free InputProj (mem_free HiddenBuf m)))
             else
             let m = mem_alloc ResidualProj m in
             if \<not> me_bias env
             then (-1, Some (st\<lparr>ms_hidden_buf := None, ms_input_proj := None, ms_residual_proj := None\<rparr>),
                   free_host (mem_free ResidualProj (mem_free InputProj (mem_free HiddenBuf m))))
             else
             let m = mem_alloc Bias m in
             (0, Some \<lparr>ms_hidden_buf = Some (replicate (unat slots * MODEL_STATE_DIM) 0),
                       ms_input_proj = Some h_input_proj, ms_residual_proj = Some h_residual_proj,
                       ms_bias = Some h_bias\<rparr>, free_host m))"

definition model_state_destroy :: "ModelStateBuffers option \<Rightarrow> mem \<Rightarrow> ModelStateBuffers option \<times> mem" where
  "model_state_destroy state m =
     (case state of None \<Rightarrow> (None, m)
      | Some st \<Rightarrow>
          (Some \<lparr>ms_hidden_buf = None, ms_input_proj = None, ms_residual_proj = None, ms_bias = None\<rparr>,
           free_if (ms_bias st \<noteq> None) Bias
             (free_if (ms_residual_proj st \<noteq> None) ResidualProj
                (free_if (ms_input_proj st \<noteq> None) InputProj
                   (free_if (ms_hidden_buf st \<noteq> None) HiddenBuf m)))))"

section \<open>Query producer\<close>

definition qp_proj_num :: "u32 \<Rightarrow> u32 \<Rightarrow> int" where
  "qp_proj_num r c = c_rem (sint ((r + 3) * (c + 5))) 29 - 14"

definition query_producer_init :: "bool \<Rightarrow> bool \<Rightarrow> int list option \<Rightarrow> mem \<Rightarrow> int \<times> int list option \<times> mem" where
  "query_producer_init host_ok dev_ok buf m =
     (if \<not> host_ok then (-1, buf, m)
      else let m = mem_alloc HostQueryProj m; h_proj = matrix 128 qp_proj_num
           in if \<not> dev_ok then (-1, buf, mem_free HostQueryProj m)
              else (0, Some h_proj, mem_free HostQueryProj (mem_alloc QueryProj m)))"

definition query_producer_destroy :: "int list option \<Rightarrow> mem \<Rightarrow> mem" where
  "query_producer_destroy buf m = free_if (buf \<noteq> None) QueryProj m"

section \<open>Ownership\<close>

definition host_temps :: "res set" where
  "host_temps = {HostInputProj, HostResidualProj, HostBias, HostQueryProj}"

definition model_state_blocks :: "res set" where
  "model_state_blocks = {Bias, ResidualProj, InputProj, HiddenBuf}"

lemmas res_sets = host_temps_def model_state_blocks_def

text \<open>A model state that is ready for use.\<close>

definition model_state_ready :: "u32 \<Rightarrow> ModelStateBuffers" where
  "model_state_ready slots =
     \<lparr>ms_hidden_buf = Some (replicate (unat slots * MODEL_STATE_DIM) 0),
      ms_input_proj = Some (matrix MODEL_STATE_DIM ms_input_num),
      ms_residual_proj = Some (matrix MODEL_STATE_DIM ms_residual_num),
      ms_bias = Some (map (\<lambda>r. ms_bias_num (of_nat r)) [0..<MODEL_STATE_DIM])\<rparr>"

lemma mem_update_same [simp]: "m\<lparr>mem_live := mem_live m\<rparr> = m"
  by (cases m) simp

lemma model_state_init_mem:
  assumes "mem_live m \<inter> (host_temps \<union> model_state_blocks) = {}"
    and "model_state_init env (Some model_state_null) slots m = (c, st', m')"
  shows "c = 0 \<and> st' = Some (model_state_ready slots) \<and>
      m' = m\<lparr>mem_live := mem_live m \<union> model_state_blocks\<rparr> \<or>
    c = -1 \<and> st' = Some model_state_null \<and> m' = m"
proof -
  have fresh: "HostInputProj \<notin> mem_live m" "HostResidualProj \<notin> mem_live m" "HostBias \<notin> mem_live m"
    "HiddenBuf \<notin> mem_live m" "InputProj \<notin> mem_live m" "ResidualProj \<notin> mem_live m" "Bias \<notin> mem_live m"
    using assms(1) by (auto simp: res_sets)
  show ?thesis
    using assms(2) fresh unfolding model_state_init_def Let_def
    by (cases "me_h_input env"; cases "me_h_residual env"; cases "me_h_bias env"; cases "me_hidden env";
        cases "me_input env"; cases "me_residual env"; cases "me_bias env")
      (simp_all add: model_state_blocks_def model_state_ready_def model_state_null_def insert_Diff_if)
qed


lemma model_state_destroy_ready:
  assumes "model_state_blocks \<subseteq> mem_live m"
  shows "model_state_destroy (Some (model_state_ready slots)) m =
    (Some model_state_null, m\<lparr>mem_live := mem_live m - model_state_blocks\<rparr>)"
  using assms
  by (auto simp: model_state_destroy_def model_state_ready_def model_state_null_def model_state_blocks_def
      Diff_insert2 [symmetric] intro!: arg_cong [of _ _ "\<lambda>x. m\<lparr>mem_live := x\<rparr>"])

lemma model_state_destroy_null:
  "model_state_destroy (Some model_state_null) m = (Some model_state_null, m)"
  by (simp add: model_state_destroy_def model_state_null_def)

lemma query_producer_init_mem:
  assumes "HostQueryProj \<notin> mem_live m" "QueryProj \<notin> mem_live m"
    and "query_producer_init host_ok dev_ok None m = (c, buf, m')"
  shows "c = 0 \<and> buf = Some (matrix 128 qp_proj_num) \<and> m' = m\<lparr>mem_live := insert QueryProj (mem_live m)\<rparr> \<or>
    c = -1 \<and> buf = None \<and> m' = m"
  using assms by (auto simp: query_producer_init_def insert_Diff_if split: if_splits)

section \<open>Properties\<close>

lemma c_rem_range: "0 < n \<Longrightarrow> \<bar>c_rem a n\<bar> < n"
  by (auto simp: c_rem_def abs_mult sgn_if)

text \<open>Every weight is a fraction below 1 in absolute value, whatever index it is computed for.\<close>

lemma weights_in_range:
  "\<bar>ms_bias_num r\<bar> < 64" "\<bar>ms_input_num r c\<bar> < 48" "\<bar>ms_residual_num r c\<bar> < 64" "\<bar>qp_proj_num r c\<bar> < 64"
  using c_rem_range [of 19 "sint ((r + 5) * 7)"] c_rem_range [of 23 "sint ((r + 3) * (c + 1))"]
    c_rem_range [of 17 "sint ((r + 9) * (c + 5))"] c_rem_range [of 29 "sint ((r + 3) * (c + 5))"]
  by (simp_all add: ms_bias_num_def ms_input_num_def ms_residual_num_def qp_proj_num_def)

text \<open>
  The device buffers of the model state and the query producer are owned exactly: initialising
  either on NULL pointers either succeeds with all its buffers live and every host temporary
  freed, or returns -1 with every pointer NULL and no block left behind, whichever allocation
  failed; destroying gives everything back, and destroying twice is harmless.
\<close>

theorem device_buffers_owned:
  assumes "mem_live m \<inter> (host_temps \<union> model_state_blocks \<union> {QueryProj}) = {}"
    and "model_state_init env (Some model_state_null) slots m = (c, st, m1)"
    and "query_producer_init host_ok dev_ok None m1 = (d, buf, m2)"
  shows "(c = 0 \<longleftrightarrow> model_state_blocks \<subseteq> mem_live m2) \<and> (d = 0 \<longleftrightarrow> QueryProj \<in> mem_live m2) \<and>
    mem_live m2 \<inter> host_temps = {} \<and> mem_error m2 = mem_error m \<and>
    query_producer_destroy buf (snd (model_state_destroy (fst (model_state_destroy st m2))
      (snd (model_state_destroy st m2)))) = m"
proof -
  have ms: "c = 0 \<and> st = Some (model_state_ready slots) \<and>
      m1 = m\<lparr>mem_live := mem_live m \<union> model_state_blocks\<rparr> \<or>
    c = -1 \<and> st = Some model_state_null \<and> m1 = m"
    using assms(1,2) by (intro model_state_init_mem) auto
  have "HostQueryProj \<notin> mem_live m1" "QueryProj \<notin> mem_live m1"
    using ms assms(1) by (auto simp: res_sets)
  note qp = query_producer_init_mem [OF this assms(3)]
  have disj: "mem_live m \<inter> model_state_blocks = {}" "QueryProj \<notin> mem_live m"
    "QueryProj \<notin> model_state_blocks" "model_state_blocks \<noteq> {}" "mem_live m \<inter> host_temps = {}"
    "model_state_blocks \<inter> host_temps = {}" "QueryProj \<notin> host_temps"
    using assms(1) by (auto simp: res_sets)
  then have restore: "insert QueryProj (mem_live m \<union> model_state_blocks) - model_state_blocks =
      insert QueryProj (mem_live m)" "mem_live m \<union> model_state_blocks - model_state_blocks = mem_live m"
    "mem_live m - {QueryProj} = mem_live m" "\<not> model_state_blocks \<subseteq> mem_live m"
    "\<not> model_state_blocks \<subseteq> insert QueryProj (mem_live m)"
    "model_state_blocks \<subseteq> insert QueryProj (mem_live m \<union> model_state_blocks)"
    by blast+
  from ms qp show ?thesis
    by (elim disjE conjE)
      (use disj restore in \<open>simp_all add: model_state_destroy_ready model_state_destroy_null
        query_producer_destroy_def insert_Diff_if Int_Un_distrib2\<close>)
qed

theorem device_buffers_owned_witness:
  "\<exists>c st m1 d buf m2.
     model_state_init \<lparr>me_h_input = True, me_h_residual = True, me_h_bias = True, me_hidden = True,
       me_input = True, me_residual = True, me_bias = False\<rparr> (Some model_state_null) 4096
       \<lparr>mem_live = {CmdRing}, mem_error = False\<rparr> = (c, st, m1) \<and>
     query_producer_init True True None m1 = (d, buf, m2) \<and> QueryProj \<in> mem_live m2 \<and>
     query_producer_destroy buf (snd (model_state_destroy (fst (model_state_destroy st m2))
       (snd (model_state_destroy st m2)))) = \<lparr>mem_live = {CmdRing}, mem_error = False\<rparr>"
proof -
  let ?env = "\<lparr>me_h_input = True, me_h_residual = True, me_h_bias = True, me_hidden = True,
       me_input = True, me_residual = True, me_bias = False\<rparr>"
    and ?m = "\<lparr>mem_live = {CmdRing}, mem_error = False\<rparr>"
  obtain c st m1 where ms: "model_state_init ?env (Some model_state_null) 4096 ?m = (c, st, m1)"
    by (metis prod_cases3)
  obtain d buf m2 where qp: "query_producer_init True True None m1 = (d, buf, m2)"
    by (metis prod_cases3)
  have "d = 0" using qp by (simp add: query_producer_init_def)
  moreover have "mem_live ?m \<inter> (host_temps \<union> model_state_blocks \<union> {QueryProj}) = {}"
    by (simp add: res_sets)
  ultimately show ?thesis using device_buffers_owned [OF _ ms qp] ms qp by blast
qed

end
