(* ===== verification/Sampler.thy ===== *)
theory Sampler
  imports Prelude "HOL-Library.Multiset"
begin

text \<open>
  Token sampling on the device, \<^verbatim>\<open>include/sample.h\<close> and \<^verbatim>\<open>cu/sample.cu\<close>: the xoshiro256** generator,
  the initialisation of a sampling state, the top-k threshold scan and the draw of a token. The
  floating-point operations are an argument, a record of functions, so that what is proved of the
  draw holds for every rounding and for NaNs.
\<close>

section \<open>The random generator\<close>

type_synonym rng = "u64 \<times> u64 \<times> u64 \<times> u64"

definition rotl :: "u64 \<Rightarrow> nat \<Rightarrow> u64" where
  "rotl x k = push_bit k x OR drop_bit (64 - k) x"

definition xoshiro256_next :: "rng \<Rightarrow> u64 \<times> rng" where
  "xoshiro256_next s =
     (case s of (s0, s1, s2, s3) \<Rightarrow>
        let result = rotl (s1 * 5) 7 * 9;
            t = push_bit 17 s1;
            s2 = s2 XOR s0;
            s3 = s3 XOR s1;
            s1 = s1 XOR s2;
            s0 = s0 XOR s3;
            s2 = s2 XOR t;
            s3 = rotl s3 45
        in (result, (s0, s1, s2, s3)))"

section \<open>The sampling state\<close>

definition MAX_VOCAB_SIZE :: u32 where "MAX_VOCAB_SIZE = 131072"

record 'f SampleState =
  ss_rng_state :: rng
  ss_temperature :: 'f
  ss_top_k :: u16
  ss_top_p :: 'f
  ss_vocab_size :: u32

definition sample_init :: "u64 \<Rightarrow> 'f \<Rightarrow> u16 \<Rightarrow> 'f \<Rightarrow> 'f SampleState" where
  "sample_init seed temp top_k top_p =
     \<lparr>ss_rng_state = (seed, seed XOR 0x9e3779b97f4a7c15, rotl seed 17 XOR 0x3c6ef372fe94f82a, NOT seed),
      ss_temperature = temp, ss_top_k = top_k, ss_top_p = top_p, ss_vocab_size = MAX_VOCAB_SIZE\<rparr>"

section \<open>The top-k scan\<close>

text \<open>
  \<open>gt\<close> is the comparison \<open>>\<close> of the element type. The inner loops: the first position whose
  threshold is exceeded, and the shift of the tail that drops the last threshold.
\<close>

function shift_down :: "'f list \<Rightarrow> nat \<Rightarrow> nat \<Rightarrow> 'f list" where
  "shift_down ths j k = (if k > j then shift_down (ths[k := ths ! (k - 1)]) j (k - 1) else ths)"
  by pat_completeness auto
termination by (relation "measure (\<lambda>(ths, j, k). k)") auto

declare shift_down.simps [simp del]

function topk_scan :: "('f \<Rightarrow> 'f \<Rightarrow> bool) \<Rightarrow> nat \<Rightarrow> 'f \<Rightarrow> nat \<Rightarrow> 'f list \<Rightarrow> 'f list" where
  "topk_scan gt nk v j ths =
     (if j < nk then
        if gt v (ths ! j) then (shift_down ths j (nk - 1))[j := v]
        else topk_scan gt nk v (Suc j) ths
      else ths)"
  by pat_completeness auto
termination by (relation "measure (\<lambda>(gt, nk, v, j, ths). nk - j)") auto

declare topk_scan.simps [simp del]

definition topk_thresholds :: "('f \<Rightarrow> 'f \<Rightarrow> bool) \<Rightarrow> 'f \<Rightarrow> nat \<Rightarrow> 'f list \<Rightarrow> 'f list" where
  "topk_thresholds gt lowest nk logits =
     foldl (\<lambda>ths v. topk_scan gt nk v 0 ths) (replicate nk lowest) logits"

text \<open>The filter: everything below the last threshold becomes \<open>-FLT_MAX\<close>.\<close>

definition topk_filter :: "('f \<Rightarrow> 'f \<Rightarrow> bool) \<Rightarrow> 'f \<Rightarrow> u16 \<Rightarrow> 'f list \<Rightarrow> 'f list" where
  "topk_filter gt lowest top_k logits =
     (let nk = (if unat top_k < 256 then unat top_k else 256);
          cutoff = topk_thresholds gt lowest nk logits ! (nk - 1)
      in map (\<lambda>v. if gt cutoff v then lowest else v) logits)"

section \<open>Drawing a token\<close>

text \<open>The floating-point operations the draw uses.\<close>

record 'f float_ops =
  fl_zero :: 'f
  fl_one :: 'f
  fl_lowest :: 'f
  fl_add :: "'f \<Rightarrow> 'f \<Rightarrow> 'f"
  fl_sub :: "'f \<Rightarrow> 'f \<Rightarrow> 'f"
  fl_mul :: "'f \<Rightarrow> 'f \<Rightarrow> 'f"
  fl_div :: "'f \<Rightarrow> 'f \<Rightarrow> 'f"
  fl_exp :: "'f \<Rightarrow> 'f"
  fl_less :: "'f \<Rightarrow> 'f \<Rightarrow> bool"
  fl_ge :: "'f \<Rightarrow> 'f \<Rightarrow> bool"
  fl_of_u64 :: "u64 \<Rightarrow> 'f"

text \<open>The walk over the cumulative probabilities; the fallback is the last index.\<close>

fun cum_walk :: "'f float_ops \<Rightarrow> 'f \<Rightarrow> 'f \<Rightarrow> nat \<Rightarrow> 'f list \<Rightarrow> nat option" where
  "cum_walk fl r cum i [] = None"
| "cum_walk fl r cum i (p # ps) =
     (let cum = fl_add fl cum p in if fl_ge fl cum r then Some i else cum_walk fl r cum (Suc i) ps)"

definition max_logit :: "'f float_ops \<Rightarrow> 'f list \<Rightarrow> 'f" where
  "max_logit fl logits = foldl (\<lambda>m v. if fl_less fl m v then v else m) (fl_lowest fl) logits"

definition draw :: "'f float_ops \<Rightarrow> rng \<Rightarrow> 'f \<times> rng" where
  "draw fl s = (case xoshiro256_next s of (x, s') \<Rightarrow>
     (fl_div fl (fl_of_u64 fl (x AND 0x00FFFFFF)) (fl_of_u64 fl 16777216), s'))"

definition apply_temperature :: "'f float_ops \<Rightarrow> 'f SampleState \<Rightarrow> 'f list \<Rightarrow> 'f list" where
  "apply_temperature fl st logits =
     (if fl_less fl (fl_zero fl) (ss_temperature st)
      then let inv_temp = fl_div fl (fl_one fl) (ss_temperature st)
           in map (\<lambda>x. fl_mul fl x inv_temp) logits
      else logits)"

definition apply_top_k :: "'f float_ops \<Rightarrow> 'f SampleState \<Rightarrow> 'f list \<Rightarrow> 'f list" where
  "apply_top_k fl st logits =
     (if ss_top_k st > 0 \<and> unat (ss_top_k st) < unat (ss_vocab_size st)
      then topk_filter (\<lambda>a b. fl_less fl b a) (fl_lowest fl) (ss_top_k st) logits
      else logits)"

definition pick :: "'f SampleState \<Rightarrow> nat option \<Rightarrow> u32" where
  "pick st i = (case i of Some i \<Rightarrow> of_nat i | None \<Rightarrow> ss_vocab_size st - 1)"

text \<open>The result: the token, the advanced state and the logits as the call leaves them.\<close>

definition sample_token :: "'f float_ops \<Rightarrow> 'f SampleState \<Rightarrow> 'f list \<Rightarrow> u32 \<times> 'f SampleState \<times> 'f list" where
  "sample_token fl st logits =
     (let logits = apply_temperature fl st logits;
          logits = apply_top_k fl st logits
      in if fl_less fl (fl_zero fl) (ss_top_p st) \<and> fl_less fl (ss_top_p st) (fl_one fl) then
           let max_val = max_logit fl logits;
               sum = foldl (\<lambda>a v. fl_add fl a (fl_exp fl (fl_sub fl v max_val))) (fl_zero fl) logits;
               inv_sum = fl_div fl (fl_one fl) sum
           in case draw fl (ss_rng_state st) of (r, s') \<Rightarrow>
                (pick st (cum_walk fl r (fl_zero fl) 0
                   (map (\<lambda>v. fl_mul fl (fl_exp fl (fl_sub fl v max_val)) inv_sum) logits)),
                 st\<lparr>ss_rng_state := s'\<rparr>, logits)
         else
           let max_val = max_logit fl logits;
               logits = map (\<lambda>v. fl_exp fl (fl_sub fl v max_val)) logits;
               sum = foldl (fl_add fl) (fl_zero fl) logits
           in case draw fl (ss_rng_state st) of (r, s') \<Rightarrow>
                (pick st (cum_walk fl r (fl_zero fl) 0 (map (\<lambda>v. fl_div fl v sum) logits)),
                 st\<lparr>ss_rng_state := s'\<rparr>, logits))"

section \<open>The generator never degenerates\<close>

text \<open>The inverse of one step of the generator.\<close>

definition unshift17 :: "u64 \<Rightarrow> u64" where
  "unshift17 y = y XOR push_bit 17 y XOR push_bit 34 y XOR push_bit 51 y"

definition xoshiro256_back :: "rng \<Rightarrow> rng" where
  "xoshiro256_back s =
     (case s of (b0, b1, c2, c3) \<Rightarrow>
        let a3 = rotl c3 19; s0 = b0 XOR a3; s1 = unshift17 (b1 XOR c2); a2 = b1 XOR s1
        in (s0, s1, a2 XOR s0, a3 XOR s1))"

lemma unshift17: "unshift17 (x XOR push_bit 17 x) = x"
proof -
  have "push_bit 68 x = 0" by (rule bit_eqI) (simp add: bit_push_bit_iff bit_imp_le_length)
  then show ?thesis
    by (simp add: unshift17_def push_bit_xor xor.assoc xor.left_commute)
qed

lemma rotl_rotl: "rotl (rotl x 45) 19 = x"
  by (rule bit_eqI) (auto simp: rotl_def bit_or_iff bit_push_bit_iff bit_drop_bit_eq dest: bit_imp_le_length)

lemma xoshiro256_back_next: "xoshiro256_back (snd (xoshiro256_next s)) = s"
proof -
  obtain s0 s1 s2 s3 where s: "s = (s0, s1, s2, s3)" by (cases s)
  have y: "(s1 XOR (s2 XOR s0)) XOR ((s2 XOR s0) XOR push_bit 17 s1) = s1 XOR push_bit 17 s1"
    by (simp add: xor.assoc xor.left_commute)
  show ?thesis
    unfolding s xoshiro256_next_def xoshiro256_back_def
    by (simp add: rotl_rotl y unshift17) (simp add: ac_simps)
qed

lemma xoshiro256_next_nonzero:
  assumes "s \<noteq> (0, 0, 0, 0)"
  shows "snd (xoshiro256_next s) \<noteq> (0, 0, 0, 0)"
proof
  assume "snd (xoshiro256_next s) = (0, 0, 0, 0)"
  then have "s = xoshiro256_back (0, 0, 0, 0)" using xoshiro256_back_next [of s] by simp
  then show False using assms by (simp add: xoshiro256_back_def unshift17_def rotl_def)
qed

lemma sample_init_nonzero: "ss_rng_state (sample_init seed temp k p) \<noteq> (0, 0, 0, 0)"
  by (auto simp: sample_init_def)

section \<open>The top-k scan against its specification\<close>

lemma shift_down_eq:
  "j \<le> k \<Longrightarrow> k < length ths \<Longrightarrow>
   shift_down ths j k = take (Suc j) ths @ take (k - j) (drop j ths) @ drop (Suc k) ths"
proof (induction ths j k rule: shift_down.induct)
  case (1 ths j k)
  show ?case
  proof (cases "j < k")
    case True
    have "shift_down ths j k = shift_down (ths[k := ths ! (k - 1)]) j (k - 1)"
      using True by (subst shift_down.simps) simp
    also have "\<dots> = take (Suc j) (ths[k := ths ! (k - 1)]) @
        take (k - 1 - j) (drop j (ths[k := ths ! (k - 1)])) @ drop (Suc (k - 1)) (ths[k := ths ! (k - 1)])"
      using True 1(1) 1(3) by simp
    also have "\<dots> = take (Suc j) ths @ take (k - 1 - j) (drop j ths) @ ths ! (k - 1) # drop (Suc k) ths"
    proof -
      have "drop k (ths[k := x]) = x # drop (Suc k) ths" for x
        using 1(3) by (metis Cons_nth_drop_Suc drop_update_cancel length_list_update lessI nth_list_update_eq)
      then show ?thesis using True by (simp add: drop_update_swap)
    qed
    also have "\<dots> = take (Suc j) ths @ take (k - j) (drop j ths) @ drop (Suc k) ths"
    proof -
      have "take (k - j) (drop j ths) = take (k - 1 - j) (drop j ths) @ [drop j ths ! (k - 1 - j)]"
        using True 1(3) by (subst take_Suc_conv_app_nth [symmetric]) (auto simp: Suc_diff_Suc)
      then show ?thesis using True 1(3) by simp
    qed
    finally show ?thesis .
  next
    case False
    then have "shift_down ths j k = ths" by (subst shift_down.simps) simp
    then show ?thesis using False 1(2) by simp
  qed
qed

text \<open>Insertion into a descending list, and insertion that keeps the length.\<close>

fun ins_desc :: "'a::linorder \<Rightarrow> 'a list \<Rightarrow> 'a list" where
  "ins_desc v [] = [v]"
| "ins_desc v (t # ts) = (if t < v then v # t # ts else t # ins_desc v ts)"

lemma length_ins_desc [simp]: "length (ins_desc v ts) = Suc (length ts)"
  by (induction ts) simp_all

lemma mset_ins_desc [simp]: "mset (ins_desc v ts) = add_mset v (mset ts)"
  by (induction ts) simp_all

lemma ins_desc_sorted: "sorted_wrt (\<ge>) ts \<Longrightarrow> sorted_wrt (\<ge>) (ins_desc v ts)"
proof (induction ts)
  case (Cons t ts)
  have "set (ins_desc v ts) = insert v (set ts)"
    using mset_ins_desc [of v ts] by (metis set_mset_add_mset_insert set_mset_mset)
  then show ?case using Cons by auto
qed simp

lemma take_ins_desc: "take n (ins_desc v (take n ts)) = take n (ins_desc v ts)"
proof (induction ts arbitrary: n)
  case (Cons t ts)
  show ?case
  proof (cases n)
    case (Suc m)
    have "take m (t # take m ts) = take m (t # ts)" by (cases m) (simp_all add: min_def)
    then show ?thesis using Suc Cons.IH [of m] by simp
  qed simp
qed simp

abbreviation (input) gt :: "'a::linorder \<Rightarrow> 'a \<Rightarrow> bool" where
  "gt a b \<equiv> b < a"

lemma topk_scan_eq:
  "length ths = nk \<Longrightarrow> j \<le> nk \<Longrightarrow>
   topk_scan gt nk v j ths = take j ths @ take (nk - j) (ins_desc v (drop j ths))"
proof (induction "nk - j" arbitrary: j)
  case 0
  then show ?case by (subst topk_scan.simps) simp
next
  case (Suc m)
  then have j: "j < nk" by simp
  then have drop: "drop j ths = ths ! j # drop (Suc j) ths"
    using Suc.prems by (simp add: Cons_nth_drop_Suc)
  show ?case
  proof (cases "ths ! j < v")
    case True
    have "topk_scan gt nk v j ths = (shift_down ths j (nk - 1))[j := v]"
      using j True by (subst topk_scan.simps) simp
    also have "shift_down ths j (nk - 1) = take (Suc j) ths @ take (nk - 1 - j) (drop j ths)"
      using j Suc.prems by (subst shift_down_eq) simp_all
    also have "\<dots>[j := v] = take j ths @ v # take (nk - 1 - j) (drop j ths)"
      using j Suc.prems by (simp add: list_update_append take_Suc_conv_app_nth)
    finally show ?thesis using True j by (simp add: drop Suc_diff_Suc [symmetric] take_Cons')
  next
    case False
    then have "topk_scan gt nk v j ths = topk_scan gt nk v (Suc j) ths"
      using j by (subst topk_scan.simps) simp
    also have "\<dots> = take (Suc j) ths @ take (nk - Suc j) (ins_desc v (drop (Suc j) ths))"
      using Suc by simp
    finally show ?thesis
      using False j Suc.prems by (simp add: drop take_Suc_conv_app_nth Suc_diff_Suc [symmetric])
  qed
qed

lemma topk_thresholds_eq:
  fixes lowest :: "'a::linorder"
  shows "topk_thresholds gt lowest nk xs = take nk (rev (sort (xs @ replicate nk lowest)))"
proof -
  let ?f = "foldl (\<lambda>ths v. ins_desc v ths) (replicate nk lowest)"
  have "foldl (\<lambda>ths v. topk_scan gt nk v 0 ths) (take nk base) xs =
      take nk (foldl (\<lambda>ths v. ins_desc v ths) base xs)" if "nk \<le> length base" for base
    using that
  proof (induction xs arbitrary: base)
    case (Cons v xs)
    have "topk_scan gt nk v 0 (take nk base) = take nk (ins_desc v base)"
      using Cons.prems by (simp add: topk_scan_eq take_ins_desc)
    then show ?case using Cons.IH [of "ins_desc v base"] Cons.prems by simp
  qed simp
  from this [of "replicate nk lowest"] have "topk_thresholds gt lowest nk xs = take nk (?f xs)"
    by (simp add: topk_thresholds_def)
  moreover have "mset (foldl (\<lambda>ths v. ins_desc v ths) base xs) = mset xs + mset base"
    and desc: "sorted_wrt (\<ge>) base \<Longrightarrow> sorted_wrt (\<ge>) (foldl (\<lambda>ths v. ins_desc v ths) base xs)" for base
    by (induction xs arbitrary: base) (simp_all add: ins_desc_sorted)
  then have "mset (rev (?f xs)) = mset (xs @ replicate nk lowest)" by simp
  moreover have "sorted_wrt (\<ge>) (replicate nk lowest)" by (induction nk) simp_all
  then have "sorted (rev (?f xs))" using desc by (simp add: sorted_wrt_rev)
  ultimately have "topk_thresholds gt lowest nk xs = take nk (?f xs)"
    and "mset (rev (?f xs)) = mset (xs @ replicate nk lowest)" "sorted (rev (?f xs))" by auto
  moreover from this(2,3) have "rev (?f xs) = sort (xs @ replicate nk lowest)"
    by (metis properties_for_sort)
  then have "?f xs = rev (sort (xs @ replicate nk lowest))" by (metis rev_rev_ident)
  ultimately show ?thesis by simp
qed

lemma cum_walk_bound: "cum_walk fl r c i ps = Some j \<Longrightarrow> i \<le> j \<and> j < i + length ps"
  by (induction ps arbitrary: c i) (fastforce split: if_splits)+

text \<open>The \<open>k\<close>-th largest element, counted from 1.\<close>

definition kth_largest :: "nat \<Rightarrow> 'a::linorder list \<Rightarrow> 'a" where
  "kth_largest k xs = rev (sort xs) ! (k - 1)"

lemma kth_largest_counts:
  assumes "0 < k" and "k \<le> length xs"
  shows "k \<le> length (filter (\<lambda>v. kth_largest k xs \<le> v) xs)"
    and "length (filter (\<lambda>v. kth_largest k xs < v) xs) < k"
proof -
  let ?d = "rev (sort xs)" and ?c = "kth_largest k xs"
  have filt: "length (filter P xs) = length (filter P ?d)" for P
    by (simp add: rev_filter [symmetric] filter_sort)
  have mono: "?d ! j \<le> ?d ! i" if "i \<le> j" "j < length xs" for i j
    using that by (simp add: rev_nth sorted_nth_mono)
  have split: "length (filter P ?d) = length (filter P (take n ?d)) + length (filter P (drop n ?d))" for P n
    by (metis append_take_drop_id filter_append length_append)
  have "\<forall>v \<in> set (take k ?d). ?c \<le> v"
    using assms mono by (auto simp: in_set_conv_nth kth_largest_def)
  then have "filter (\<lambda>v. ?c \<le> v) (take k ?d) = take k ?d" by simp
  then have "length (filter (\<lambda>v. ?c \<le> v) (take k ?d)) = k" using assms by simp
  then show "k \<le> length (filter (\<lambda>v. ?c \<le> v) xs)"
    unfolding filt using split [of "\<lambda>v. ?c \<le> v" k] by simp
  have "\<forall>v \<in> set (drop (k - 1) ?d). \<not> ?c < v"
    using assms mono by (auto simp: in_set_conv_nth kth_largest_def not_less)
  then have "filter (\<lambda>v. ?c < v) (drop (k - 1) ?d) = []" by (simp add: filter_empty_conv)
  moreover have "length (filter (\<lambda>v. ?c < v) (take (k - 1) ?d)) \<le> k - 1"
    using length_filter_le [of _ "take (k - 1) ?d"] by (metis le_trans length_take min.cobounded2 min.commute)
  ultimately show "length (filter (\<lambda>v. ?c < v) xs) < k"
    unfolding filt using split [of "\<lambda>v. ?c < v" "k - 1"] assms(1) by simp
qed

lemma kth_largest_unique:
  assumes "0 < k" and "k \<le> length (filter (\<lambda>v. c \<le> v) xs)" and "length (filter (\<lambda>v. c < v) xs) < k"
  shows "kth_largest k xs = c"
proof -
  have mono: "length (filter P xs) \<le> length (filter Q xs)" if "\<And>v. P v \<Longrightarrow> Q v" for P Q
    using that by (induction xs) auto
  have "k \<le> length xs" using assms(2) length_filter_le le_trans by blast
  note counts = kth_largest_counts [OF assms(1) this]
  have "\<not> kth_largest k xs < c"
    using mono [of "\<lambda>v. c \<le> v" "\<lambda>v. kth_largest k xs < v"] counts(2) assms(2) by fastforce
  moreover have "\<not> c < kth_largest k xs"
    using mono [of "\<lambda>v. kth_largest k xs \<le> v" "\<lambda>v. c < v"] counts(1) assms(3) by fastforce
  ultimately show ?thesis by simp
qed

lemma kth_largest_upt:
  assumes "0 < k" and "k \<le> n"
  shows "kth_largest k (map int [0..<n]) = int (n - k)"
proof -
  have "sorted (map int [0..<n])" by (simp add: sorted_map sorted_wrt_upt)
  then show ?thesis using assms by (simp add: kth_largest_def sort_key_id_if_sorted rev_nth)
qed

text \<open>The last threshold, with the buffer filled with \<open>lowest\<close> at the start.\<close>

lemma topk_cutoff:
  fixes lowest :: "'a::linorder"
  assumes "0 < k" and "k \<le> length xs"
  shows "topk_thresholds gt lowest k xs ! (k - 1) = max lowest (kth_largest k xs)"
proof -
  let ?c = "max lowest (kth_largest k xs)" and ?ys = "xs @ replicate k lowest"
  have mono: "length (filter (\<lambda>v. a < v) xs) \<le> length (filter (\<lambda>v. b < v) xs)" if "b \<le> a" for a b
    using that by (induction xs) auto
  note counts = kth_largest_counts [OF assms]
  have "k \<le> length (filter (\<lambda>v. ?c \<le> v) ?ys)" using counts(1) by (cases "lowest \<le> kth_largest k xs") (auto simp: max_def)
  moreover have "length (filter (\<lambda>v. ?c < v) ?ys) < k"
    using mono [of "kth_largest k xs" ?c] counts(2) by simp
  ultimately have "kth_largest k ?ys = ?c" by (rule kth_largest_unique [OF assms(1)])
  then show ?thesis using assms(1) by (simp add: topk_thresholds_eq kth_largest_def)
qed

section \<open>Properties\<close>

text \<open>
  The random generator never degenerates: its step is injective, so it never merges two states,
  and from any seed the state of a sampler is never the all-zero fixed point, however many draws
  are made.
\<close>

theorem xoshiro_never_degenerates:
  "inj (\<lambda>s. snd (xoshiro256_next s)) \<and>
   ((\<lambda>s. snd (xoshiro256_next s)) ^^ n) (ss_rng_state (sample_init seed temp k p)) \<noteq> (0, 0, 0, 0)"
proof
  show "inj (\<lambda>s. snd (xoshiro256_next s))"
    by (rule inj_on_inverseI [of _ xoshiro256_back]) (rule xoshiro256_back_next)
  show "((\<lambda>s. snd (xoshiro256_next s)) ^^ n) (ss_rng_state (sample_init seed temp k p)) \<noteq> (0, 0, 0, 0)"
    by (induction n) (simp_all add: sample_init_nonzero xoshiro256_next_nonzero)
qed

text \<open>The number of logits the buffer of 256 thresholds can keep.\<close>

abbreviation topk_kept :: "'f SampleState \<Rightarrow> nat" where
  "topk_kept st \<equiv> min (unat (ss_top_k st)) 256"

text \<open>
  C32. The top-k stage of \<open>sample_token\<close> on every state, for logits that \<open>>\<close> orders linearly (no NaN):
  it acts when \<open>0 < top_k < vocab_size\<close> and leaves the logits alone otherwise. The number of logits it
  keeps is not \<open>top_k\<close> but \<open>nk = min top_k 256\<close>, as the insertion buffer has 256 places: with \<open>c\<close> the
  \<open>nk\<close>-th largest logit, or \<open>-FLT_MAX\<close> if \<open>c\<close> is below it, exactly the logits below \<open>c\<close> become
  \<open>-FLT_MAX\<close>. At least \<open>nk\<close> logits reach the \<open>nk\<close>-th largest and fewer than \<open>nk\<close> exceed it, so only
  ties let more than \<open>nk\<close> survive.
\<close>

theorem apply_top_k_exact:
  fixes logits :: "'a::linorder list"
  assumes "fl_less fl = (<)" and "length logits = unat (ss_vocab_size st)"
  shows "apply_top_k fl st logits =
      (if ss_top_k st > 0 \<and> unat (ss_top_k st) < unat (ss_vocab_size st)
       then map (\<lambda>v. if v < max (fl_lowest fl) (kth_largest (topk_kept st) logits) then fl_lowest fl else v) logits
       else logits) \<and>
    (ss_top_k st > 0 \<and> unat (ss_top_k st) < unat (ss_vocab_size st) \<longrightarrow>
       topk_kept st \<le> length (filter (\<lambda>v. kth_largest (topk_kept st) logits \<le> v) logits) \<and>
       length (filter (\<lambda>v. kth_largest (topk_kept st) logits < v) logits) < topk_kept st)"
proof (cases "ss_top_k st > 0 \<and> unat (ss_top_k st) < unat (ss_vocab_size st)")
  case True
  then have nk: "0 < topk_kept st" "topk_kept st \<le> length logits"
    using assms(2) by (auto simp: word_less_nat_alt)
  have clamp: "(if unat (ss_top_k st) < 256 then unat (ss_top_k st) else 256) = topk_kept st" by simp
  have "topk_filter gt (fl_lowest fl) (ss_top_k st) logits =
      map (\<lambda>v. if v < max (fl_lowest fl) (kth_largest (topk_kept st) logits) then fl_lowest fl else v) logits"
    unfolding topk_filter_def clamp topk_cutoff [OF nk] Let_def by (rule refl)
  then show ?thesis
    using True kth_largest_counts [OF nk] by (simp add: apply_top_k_def assms(1))
next
  case False
  then show ?thesis unfolding apply_top_k_def by auto
qed

theorem apply_top_k_exact_witness:
  "apply_top_k \<lparr>fl_zero = 0, fl_one = 1, fl_lowest = -1000, fl_add = (+), fl_sub = (-), fl_mul = (*),
      fl_div = (div), fl_exp = id, fl_less = (<), fl_ge = (\<ge>), fl_of_u64 = uint\<rparr>
     \<lparr>ss_rng_state = (1, 2, 3, 4), ss_temperature = 1, ss_top_k = 300, ss_top_p = 1, ss_vocab_size = 400\<rparr>
     (map int [0..<400]) = map (\<lambda>v. if v < 144 then - 1000 else v) (map int [0..<400])"
proof -
  let ?xs = "map int [0..<400]"
  have "kth_largest 256 ?xs = 144" using kth_largest_upt [of 256 400] by simp
  then show ?thesis
    by (subst apply_top_k_exact [THEN conjunct1]) (simp_all del: upt_rec_numeral map_map)
qed

text \<open>
  C33. A sampled token is always valid, whatever the floating-point unit does: for a vocabulary of
  \<open>v > 0\<close> entries with as many logits, the returned index is below \<open>v\<close>, the generator has been
  advanced by exactly one step, the rest of the state is unchanged and the logits keep their number.
\<close>

theorem sample_token_valid:
  assumes "length logits = unat (ss_vocab_size st)" and "0 < ss_vocab_size st"
    and "sample_token fl st logits = (tok, st', logits')"
  shows "tok < ss_vocab_size st \<and> st' = st\<lparr>ss_rng_state := snd (xoshiro256_next (ss_rng_state st))\<rparr> \<and>
    length logits' = length logits"
proof -
  let ?l = "apply_top_k fl st (apply_temperature fl st logits)"
  have len: "length ?l = length logits"
    by (simp add: apply_top_k_def apply_temperature_def topk_filter_def)
  have draw: "snd (draw fl s) = snd (xoshiro256_next s)" for s
    by (simp add: draw_def split: prod.splits)
  have pick: "pick st (cum_walk fl r c 0 ps) < ss_vocab_size st"
    if "length ps = length logits" for r c ps
  proof (cases "cum_walk fl r c 0 ps")
    case None
    have "unat (ss_vocab_size st - 1) < unat (ss_vocab_size st)"
      using assms(2) by (metis diff_less less_numeral_extra(1) unat_gt_0 unat_minus_one word_neq_0_conv)
    then show ?thesis using None by (simp add: pick_def word_less_nat_alt)
  next
    case (Some i)
    then have "i < unat (ss_vocab_size st)" using cum_walk_bound [OF Some] that assms(1) by simp
    moreover from this have "i < 2 ^ 32" using unsigned_less [of "ss_vocab_size st", where 'a = nat] by simp
    ultimately show ?thesis using Some by (simp add: pick_def word_less_nat_alt unat_of_nat)
  qed
  show ?thesis
    using assms(3) len unfolding sample_token_def Let_def
    by (auto split: if_splits prod.splits intro!: pick simp: draw [symmetric])
qed

theorem sample_token_valid_witness:
  "fst (sample_token \<lparr>fl_zero = 0, fl_one = 1, fl_lowest = -1000, fl_add = (+), fl_sub = (-), fl_mul = (*),
      fl_div = (div), fl_exp = id, fl_less = (<), fl_ge = (\<ge>), fl_of_u64 = uint\<rparr>
     \<lparr>ss_rng_state = (1, 2, 3, 4), ss_temperature = 1, ss_top_k = 2, ss_top_p = 1, ss_vocab_size = 3\<rparr>
     [4, 7, 2 :: int]) < 3"
proof -
  let ?fl = "\<lparr>fl_zero = 0, fl_one = 1, fl_lowest = -1000, fl_add = (+), fl_sub = (-), fl_mul = (*),
      fl_div = (div), fl_exp = id, fl_less = (<), fl_ge = (\<ge>), fl_of_u64 = uint\<rparr> :: int float_ops"
    and ?st = "\<lparr>ss_rng_state = (1, 2, 3, 4), ss_temperature = 1, ss_top_k = 2, ss_top_p = 1,
      ss_vocab_size = 3\<rparr> :: int SampleState"
  obtain tok st' l where "sample_token ?fl ?st [4, 7, 2] = (tok, st', l)" by (metis prod_cases3)
  then show ?thesis using sample_token_valid [of "[4, 7, 2]" ?st ?fl] by simp
qed

end
