(* ===== verification/Bitmap.thy ===== *)
theory Bitmap
  imports Prelude
begin

text \<open>
  Bitmaps of 64-bit words as finite sets, and the interface of the id allocators that are built
  on them. \<open>ctzll\<close> is \<open>__builtin_ctzll\<close>; \<open>bitmap_scan\<close> is the search loop that the arena, the
  rollout slab and the prefix table share. The locale \<open>id_allocator\<close> states what an allocator
  promises, and its lemmas lift the promise to every sequence of requests.
\<close>

section \<open>Bits of a word list\<close>

definition ctzll :: "u64 \<Rightarrow> nat" where
  "ctzll x = length (takeWhile (\<lambda>i. \<not> bit x i) [0..<64])"

definition bits_of :: "u64 list \<Rightarrow> nat set" where
  "bits_of bm = {i. i < 64 * length bm \<and> bit (bm ! (i div 64)) (i mod 64)}"

text \<open>The loop over the words from index \<open>w\<close> on; the result is a word index and a bit index.\<close>

fun bitmap_scan :: "nat \<Rightarrow> u64 list \<Rightarrow> (nat \<times> nat) option" where
  "bitmap_scan w [] = None"
| "bitmap_scan w (bits # rest) =
     (if bits \<noteq> 0 then Some (w, ctzll bits) else bitmap_scan (Suc w) rest)"

lemma takeWhile_upt_least:
  assumes "k < n" "P k"
  shows "length (takeWhile (\<lambda>i. \<not> P i) [0..<n]) \<le> k \<and>
    P (length (takeWhile (\<lambda>i. \<not> P i) [0..<n])) \<and>
    (\<forall>i < length (takeWhile (\<lambda>i. \<not> P i) [0..<n]). \<not> P i)"
proof -
  let ?l = "takeWhile (\<lambda>i. \<not> P i) [0..<n]"
  have nth: "?l ! i = i" if "i < length ?l" for i
    using that length_takeWhile_le [of "\<lambda>i. \<not> P i" "[0..<n]"] by (simp add: takeWhile_nth)
  have below: "\<not> P i" if "i < length ?l" for i
    using nth_mem [OF that] nth [OF that] by (auto dest: set_takeWhileD)
  then have le: "length ?l \<le> k" using assms(2) by (meson not_le_imp_less)
  then have "length ?l < length [0..<n]" using assms(1) by simp
  from nth_length_takeWhile [OF this] have "P (length ?l)" using le assms(1) by simp
  with le below show ?thesis by simp
qed

lemma ctzll_props:
  assumes "x \<noteq> 0"
  shows "ctzll x < 64" "bit x (ctzll x)" "i < ctzll x \<Longrightarrow> \<not> bit x i"
proof -
  obtain k where k: "bit x k" using assms by (metis bit_eq_iff bit_0_eq bot_apply bot_bool_def)
  then have "k < 64" using bit_imp_le_length [OF k] by simp
  from takeWhile_upt_least [of k 64 "bit x", OF this k] \<open>k < 64\<close>
  show "ctzll x < 64" "bit x (ctzll x)" "i < ctzll x \<Longrightarrow> \<not> bit x i"
    by (simp_all add: ctzll_def)
qed

lemma finite_bits_of [simp]: "finite (bits_of bm)"
  by (simp add: bits_of_def)

lemma bits_of_bound: "i \<in> bits_of bm \<Longrightarrow> i < 64 * length bm"
  by (simp add: bits_of_def)

lemma mem_bits_of_word:
  "w < length bm \<Longrightarrow> b < 64 \<Longrightarrow> w * 64 + b \<in> bits_of bm \<longleftrightarrow> bit (bm ! w) b"
  by (simp add: bits_of_def)

lemma word_bit_bound: "w < n \<Longrightarrow> b < 64 \<Longrightarrow> w * 64 + b < 64 * (n :: nat)"
  by simp

section \<open>Search\<close>

lemma bitmap_scan_None:
  "bitmap_scan w bm = None \<Longrightarrow> j < length bm \<Longrightarrow> bm ! j = 0"
proof (induction w bm arbitrary: j rule: bitmap_scan.induct)
  case (2 w bits rest)
  then show ?case by (cases j) (auto split: if_splits)
qed simp

lemma bitmap_scan_Some:
  "bitmap_scan w bm = Some (w', b) \<Longrightarrow>
     w \<le> w' \<and> w' - w < length bm \<and> bm ! (w' - w) \<noteq> 0 \<and> b = ctzll (bm ! (w' - w)) \<and>
     (\<forall>j < w' - w. bm ! j = 0)"
proof (induction w bm rule: bitmap_scan.induct)
  case (2 w bits rest)
  show ?case
  proof (cases "bits = 0")
    case True
    then have IH: "Suc w \<le> w'" "w' - Suc w < length rest" "rest ! (w' - Suc w) \<noteq> 0"
      "b = ctzll (rest ! (w' - Suc w))" "\<forall>j < w' - Suc w. rest ! j = 0"
      using "2.IH" "2.prems" by auto
    have eq: "w' - w = Suc (w' - Suc w)" using IH(1) by simp
    show ?thesis using IH True by (simp add: eq All_less_Suc2)
  next
    case False
    then show ?thesis using "2.prems" by simp
  qed
qed simp

lemma bitmap_scan_empty: "bitmap_scan 0 bm = None \<longleftrightarrow> bits_of bm = {}"
proof
  assume none: "bitmap_scan 0 bm = None"
  have "bm ! (i div 64) = 0" if "i < 64 * length bm" for i
    using that by (intro bitmap_scan_None [OF none]) (simp add: less_mult_imp_div_less mult.commute)
  then show "bits_of bm = {}" by (auto simp: bits_of_def)
next
  assume empty: "bits_of bm = {}"
  show "bitmap_scan 0 bm = None"
  proof (rule ccontr)
    assume "bitmap_scan 0 bm \<noteq> None"
    then obtain w b where scan: "bitmap_scan 0 bm = Some (w, b)" by auto
    have "w < length bm" "bm ! w \<noteq> 0" using bitmap_scan_Some [OF scan] by simp_all
    then have "w * 64 + ctzll (bm ! w) \<in> bits_of bm"
      using ctzll_props(1,2) [of "bm ! w"] by (simp add: mem_bits_of_word)
    with empty show False by simp
  qed
qed

text \<open>The search returns the least member.\<close>

lemma bitmap_scan_least:
  assumes "bitmap_scan 0 bm = Some (w, b)"
  shows "w < length bm" "b < 64" "w * 64 + b \<in> bits_of bm" "w * 64 + b = Min (bits_of bm)"
proof -
  have w: "w < length bm" "bm ! w \<noteq> 0" "b = ctzll (bm ! w)" "\<forall>j < w. bm ! j = 0"
    using bitmap_scan_Some [OF assms] by simp_all
  then show "w < length bm" and b: "b < 64" using ctzll_props(1) by simp_all
  show mem: "w * 64 + b \<in> bits_of bm"
    using w b ctzll_props(2) by (simp add: mem_bits_of_word)
  have "w * 64 + b \<le> i" if i: "i \<in> bits_of bm" for i
  proof -
    have bit: "bit (bm ! (i div 64)) (i mod 64)" using i by (simp add: bits_of_def)
    then have "\<not> i div 64 < w" using w(4) by (auto simp: bits_of_def)
    moreover have "b \<le> i mod 64" if "i div 64 = w"
      using bit ctzll_props(3) [OF w(2), of "i mod 64"] w(3) that by (metis not_le_imp_less)
    moreover have "i = i div 64 * 64 + i mod 64" by simp
    ultimately show ?thesis using b by (cases "i div 64 = w") linarith+
  qed
  with mem show "w * 64 + b = Min (bits_of bm)" by (intro Min_eqI [symmetric]) auto
qed

section \<open>Clearing and setting a bit\<close>

lemma bit_push_one: "b < 64 \<Longrightarrow> bit (2 ^ b :: u64) n \<longleftrightarrow> n = b"
  by (auto simp: bit_simps)

lemma bits_of_update:
  assumes "w < length bm" "b < 64"
    and "\<And>n. n < 64 \<Longrightarrow> bit x n \<longleftrightarrow> (if n = b then v else bit (bm ! w) n)"
  shows "bits_of (bm[w := x]) =
    (if v then insert (w * 64 + b) (bits_of bm) else bits_of bm - {w * 64 + b})"
proof -
  have "i \<in> bits_of (bm[w := x]) \<longleftrightarrow> (if i = w * 64 + b then v else i \<in> bits_of bm)" for i
  proof (cases "i div 64 = w")
    case True
    then have i: "i = w * 64 + i mod 64" by (metis div_mult_mod_eq)
    then have "i = w * 64 + b \<longleftrightarrow> i mod 64 = b" by linarith
    moreover have "i < 64 * length bm" using assms(1) True by (metis div_less_iff_less_mult mult.commute zero_less_numeral)
    ultimately show ?thesis using True assms(1,3) by (simp add: bits_of_def)
  next
    case False
    then have "i \<noteq> w * 64 + b" using assms(2) by auto
    then show ?thesis using False by (simp add: bits_of_def)
  qed
  then show ?thesis by (simp add: set_eq_iff)
qed

lemma bits_of_clear [bitmap_simps]:
  "w < length bm \<Longrightarrow> b < 64 \<Longrightarrow>
   bits_of (bm[w := bm ! w AND NOT (push_bit b 1)]) = bits_of bm - {w * 64 + b}"
  using bits_of_update [of w bm b "bm ! w AND NOT (push_bit b 1)" False]
  by (simp add: bit_push_one bit_and_iff bit_not_iff)

lemma bits_of_set [bitmap_simps]:
  "w < length bm \<Longrightarrow> b < 64 \<Longrightarrow>
   bits_of (bm[w := bm ! w OR push_bit b 1]) = insert (w * 64 + b) (bits_of bm)"
  using bits_of_update [of w bm b "bm ! w OR push_bit b 1" True]
  by (simp add: bit_push_one bit_or_iff)

lemma bits_of_not: "bits_of (map (\<lambda>x. NOT x) bm) = {..<64 * length bm} - bits_of bm"
proof -
  have "i div 64 < length bm" if "i < 64 * length bm" for i
    using that by (simp add: less_mult_imp_div_less mult.commute)
  then show ?thesis by (auto simp: bits_of_def bit_not_iff)
qed

lemma bits_of_replicate_0 [simp]: "bits_of (replicate n 0) = {}"
  by (auto simp: bits_of_def less_mult_imp_div_less mult.commute)

lemma bits_of_replicate_ones [simp]: "bits_of (replicate n (- 1)) = {..<64 * n}"
  using bits_of_not [of "replicate n 0"] by simp

section \<open>The interface of an id allocator\<close>

datatype alloc_op = Alloc | Release nat

datatype alloc_event = Got nat | Refused | Released nat

fun alloc_run ::
  "('s \<Rightarrow> nat option \<times> 's) \<Rightarrow> ('s \<Rightarrow> nat \<Rightarrow> 's) \<Rightarrow> alloc_op list \<Rightarrow> 's \<Rightarrow> alloc_event list \<times> 's" where
  "alloc_run alloc release [] s = ([], s)"
| "alloc_run alloc release (Alloc # ops) s =
     (let (r, s1) = alloc s; (evs, s2) = alloc_run alloc release ops s1
      in ((case r of None \<Rightarrow> Refused | Some i \<Rightarrow> Got i) # evs, s2))"
| "alloc_run alloc release (Release i # ops) s =
     (let (evs, s2) = alloc_run alloc release ops (release s i) in (Released i # evs, s2))"

text \<open>
  A history is sound from the set \<open>live\<close> of ids in use if every id handed out is in range, is
  not in use at that moment and is the least such id, and a request is refused only when all
  ids are in use.
\<close>

fun sound_history :: "nat \<Rightarrow> nat set \<Rightarrow> alloc_event list \<Rightarrow> bool" where
  "sound_history cap live [] = True"
| "sound_history cap live (Got i # evs) =
     (i < cap \<and> i \<notin> live \<and> {..<i} \<subseteq> live \<and> sound_history cap (insert i live) evs)"
| "sound_history cap live (Refused # evs) = ({..<cap} \<subseteq> live \<and> sound_history cap live evs)"
| "sound_history cap live (Released i # evs) = sound_history cap (live - {i}) evs"

fun live_after :: "nat set \<Rightarrow> alloc_event list \<Rightarrow> nat set" where
  "live_after live [] = live"
| "live_after live (Got i # evs) = live_after (insert i live) evs"
| "live_after live (Refused # evs) = live_after live evs"
| "live_after live (Released i # evs) = live_after (live - {i}) evs"

fun releases_below :: "nat \<Rightarrow> alloc_op list \<Rightarrow> bool" where
  "releases_below cap [] = True"
| "releases_below cap (Alloc # ops) = releases_below cap ops"
| "releases_below cap (Release i # ops) = (i < cap \<and> releases_below cap ops)"

locale id_allocator =
  fixes invar :: "'s \<Rightarrow> bool"
    and free :: "'s \<Rightarrow> nat set"
    and cap :: nat
    and alloc :: "'s \<Rightarrow> nat option \<times> 's"
    and release :: "'s \<Rightarrow> nat \<Rightarrow> 's"
  assumes free_below: "invar s \<Longrightarrow> free s \<subseteq> {..<cap}"
    and alloc_none: "invar s \<Longrightarrow> free s = {} \<Longrightarrow> alloc s = (None, s)"
    and alloc_least: "invar s \<Longrightarrow> free s \<noteq> {} \<Longrightarrow> alloc s = (r, s') \<Longrightarrow>
      r = Some (Min (free s)) \<and> invar s' \<and> free s' = free s - {Min (free s)}"
    and release_free: "invar s \<Longrightarrow> i < cap \<Longrightarrow>
      invar (release s i) \<and> free (release s i) = insert i (free s)"
begin

lemma finite_free: "invar s \<Longrightarrow> finite (free s)"
  using free_below finite_subset by blast

text \<open>The ids in use are exactly those below the capacity that are not free.\<close>

lemma run_sound:
  assumes "invar s" "releases_below cap ops" "alloc_run alloc release ops s = (evs, s')"
  shows "sound_history cap ({..<cap} - free s) evs \<and> invar s' \<and>
    {..<cap} - free s' = live_after ({..<cap} - free s) evs"
  using assms
proof (induction ops arbitrary: s evs)
  case Nil
  then show ?case by simp
next
  case (Cons op ops)
  show ?case
  proof (cases op)
    case Alloc
    obtain r s1 where a: "alloc s = (r, s1)" by fastforce
    obtain evs1 where run: "alloc_run alloc release ops s1 = (evs1, s')"
      and evs: "evs = (case r of None \<Rightarrow> Refused | Some i \<Rightarrow> Got i) # evs1"
      using Cons.prems(3) Alloc a by (auto split: prod.splits)
    have rel: "releases_below cap ops" using Cons.prems(2) Alloc by simp
    show ?thesis
    proof (cases "free s = {}")
      case True
      then have "r = None" "s1 = s" using alloc_none [OF Cons.prems(1)] a by simp_all
      then show ?thesis using Cons.IH [OF Cons.prems(1) rel] run evs True by simp
    next
      case False
      let ?m = "Min (free s)"
      have s1: "r = Some ?m" "invar s1" "free s1 = free s - {?m}"
        using alloc_least [OF Cons.prems(1) False a] by simp_all
      have m: "?m \<in> free s" "\<And>i. i < ?m \<Longrightarrow> i \<notin> free s"
        using Min_in [OF finite_free [OF Cons.prems(1)] False] finite_free [OF Cons.prems(1)]
        by (auto dest: Min_le)
      then have "?m < cap" using free_below [OF Cons.prems(1)] by auto
      moreover have "{..<cap} - free s1 = insert ?m ({..<cap} - free s)"
        using s1(3) m(1) \<open>?m < cap\<close> by auto
      moreover have "{..<?m} \<subseteq> {..<cap} - free s"
        using m(2) \<open>?m < cap\<close> by auto
      ultimately show ?thesis using Cons.IH [OF s1(2) rel run] m(1) by (simp add: evs s1(1))
    qed
  next
    case (Release i)
    then obtain evs1 where run: "alloc_run alloc release ops (release s i) = (evs1, s')"
      and evs: "evs = Released i # evs1" and i: "i < cap" and rel: "releases_below cap ops"
      using Cons.prems by (auto split: prod.splits)
    have s1: "invar (release s i)" "free (release s i) = insert i (free s)"
      using release_free [OF Cons.prems(1) i] by simp_all
    have "{..<cap} - free (release s i) = {..<cap} - free s - {i}" using s1(2) by auto
    then show ?thesis using Cons.IH [OF s1(1) rel run] by (simp add: evs)
  qed
qed

text \<open>A fresh allocator hands out 0, 1, 2, \<dots> in order.\<close>

lemma alloc_sequence:
  assumes "invar s" "free s = {k..<cap}" "k + n \<le> cap"
  shows "\<exists>s'. alloc_run alloc release (replicate n Alloc) s = (map Got [k..<k + n], s') \<and>
    invar s' \<and> free s' = {k + n..<cap}"
  using assms
proof (induction n arbitrary: s k)
  case 0
  then show ?case by simp
next
  case (Suc n)
  have ne: "free s \<noteq> {}" using Suc.prems(2,3) by simp
  have Min: "Min {k..<cap} = k" using Suc.prems(3) by (intro Min_eqI) simp_all
  obtain r s1 where a: "alloc s = (r, s1)" by fastforce
  have "{k..<cap} - {k} = {Suc k..<cap}" by auto
  then have s1: "r = Some k" "invar s1" "free s1 = {Suc k..<cap}"
    using alloc_least [OF Suc.prems(1) ne a] unfolding Suc.prems(2) Min by simp_all
  from Suc.IH [OF s1(2,3)] Suc.prems(3) obtain s' where
    "alloc_run alloc release (replicate n Alloc) s1 = (map Got [Suc k..<Suc k + n], s')"
    "invar s'" "free s' = {Suc k + n..<cap}" by auto
  then show ?case using a s1(1) by (simp add: upt_conv_Cons)
qed

end

end
