(* ===== verification/Arena.thy ===== *)
theory Arena
  imports Bitmap
begin

text \<open>
  The hugepage-backed KV block arena, \<^verbatim>\<open>include/arena.h\<close> and \<^verbatim>\<open>src/arena.c\<close>. A set bit of the
  bitmap marks a block in use. Pointers are 64-bit addresses with NULL as 0 and \<open>MAP_FAILED\<close> as
  the all-ones address; the two addresses \<open>arena_init\<close> is given are the results of its two
  \<open>mmap\<close> calls. \<open>None\<close> stands for \<open>abort()\<close> in \<open>arena_init\<close> and for an access outside the bitmap
  in \<open>arena_release\<close>.
\<close>

section \<open>State and operations\<close>

definition BITMAP_WORDS :: nat where "BITMAP_WORDS = 2 ^ 20 div 64"

definition MAP_FAILED :: u64 where "MAP_FAILED = - 1"

record KVArena =
  ka_base :: u64
  ka_capacity :: u64
  ka_block_size :: u64
  ka_bitmap :: "u64 list"

definition arena_init :: "u64 \<Rightarrow> u64 \<Rightarrow> KVArena \<Rightarrow> u64 \<Rightarrow> u64 \<Rightarrow> KVArena option" where
  "arena_init mmap_huge mmap_small a capacity block_size =
     (let a1 = a\<lparr>ka_capacity := capacity, ka_block_size := block_size, ka_base := mmap_huge\<rparr>;
          a2 = (if ka_base a1 = MAP_FAILED then a1\<lparr>ka_base := mmap_small\<rparr> else a1)
      in if ka_base a2 = MAP_FAILED then None
         else Some (a2\<lparr>ka_bitmap := replicate BITMAP_WORDS 0\<rparr>))"

text \<open>The loop of \<open>arena_acquire\<close> inspects the complement of every word.\<close>

definition arena_acquire :: "KVArena \<Rightarrow> int \<times> KVArena" where
  "arena_acquire a =
     (case bitmap_scan 0 (map (\<lambda>x. NOT x) (take BITMAP_WORDS (ka_bitmap a))) of
        Some (w, b) \<Rightarrow>
          (int (w * 64 + b),
           a\<lparr>ka_bitmap := (ka_bitmap a)[w := ka_bitmap a ! w OR push_bit b 1]\<rparr>)
      | None \<Rightarrow> (-1, a))"

text \<open>\<open>idx\<close> is an \<open>int64_t\<close>; the word index is converted to a 32-bit \<open>int\<close>.\<close>

definition arena_release :: "KVArena \<Rightarrow> int \<Rightarrow> KVArena option" where
  "arena_release a idx =
     (if idx < 0 then Some a
      else let w = sint (word_of_int (idx div 64) :: 32 word); b = nat (idx mod 64)
           in if 0 \<le> w \<and> nat w < BITMAP_WORDS
              then Some (a\<lparr>ka_bitmap := (ka_bitmap a)
                     [nat w := ka_bitmap a ! nat w AND NOT (push_bit b 1)]\<rparr>)
              else None)"

definition arena_block_ptr :: "KVArena \<Rightarrow> int \<Rightarrow> u64" where
  "arena_block_ptr a idx = ka_base a + word_of_int idx * ka_block_size a"

text \<open>The flag says whether \<open>munmap\<close> is called.\<close>

definition arena_destroy :: "KVArena \<Rightarrow> bool \<times> KVArena" where
  "arena_destroy a = (ka_base a \<noteq> 0, a\<lparr>ka_base := 0\<rparr>)"

section \<open>The arena as an id allocator\<close>

definition arena_wf :: "KVArena \<Rightarrow> bool" where
  "arena_wf a \<longleftrightarrow> length (ka_bitmap a) = 16384"

definition arena_free :: "KVArena \<Rightarrow> nat set" where
  "arena_free a = {..<2 ^ 20} - bits_of (ka_bitmap a)"

definition arena_alloc_obs :: "KVArena \<Rightarrow> nat option \<times> KVArena" where
  "arena_alloc_obs a = (let (i, a') = arena_acquire a in (if i < 0 then None else Some (nat i), a'))"

definition arena_release_obs :: "KVArena \<Rightarrow> nat \<Rightarrow> KVArena" where
  "arena_release_obs a i = (case arena_release a (int i) of Some a' \<Rightarrow> a' | None \<Rightarrow> a)"

lemma BITMAP_WORDS_num [simp]: "BITMAP_WORDS = 16384"
  by (simp add: BITMAP_WORDS_def)

lemma arena_scan_bits:
  "arena_wf a \<Longrightarrow> bits_of (map (\<lambda>x. NOT x) (ka_bitmap a)) = arena_free a"
  by (simp add: bits_of_not arena_free_def arena_wf_def)

lemma arena_acquire_none:
  assumes "arena_wf a" "arena_free a = {}"
  shows "arena_acquire a = (-1, a)"
proof -
  have "bitmap_scan 0 (map (\<lambda>x. NOT x) (ka_bitmap a)) = None"
    using assms arena_scan_bits [OF assms(1)] by (simp add: bitmap_scan_empty)
  then show ?thesis using assms(1) by (simp add: arena_acquire_def arena_wf_def)
qed

lemma arena_acquire_least:
  assumes wf: "arena_wf a" and ne: "arena_free a \<noteq> {}"
  shows "\<exists>a'. arena_acquire a = (int (Min (arena_free a)), a') \<and> arena_wf a' \<and>
    arena_free a' = arena_free a - {Min (arena_free a)} \<and> ka_base a' = ka_base a \<and>
    ka_capacity a' = ka_capacity a \<and> ka_block_size a' = ka_block_size a"
proof -
  let ?bm = "map (\<lambda>x. NOT x) (ka_bitmap a)"
  note bits = arena_scan_bits [OF wf]
  have "bitmap_scan 0 ?bm \<noteq> None" using ne bits by (simp only: bitmap_scan_empty) simp
  then obtain w b where scan: "bitmap_scan 0 ?bm = Some (w, b)" by auto
  have w: "w < length (ka_bitmap a)" "b < 64" and Min: "w * 64 + b = Min (arena_free a)"
    using bitmap_scan_least [OF scan] by (simp_all add: bits)
  have "bits_of ((ka_bitmap a)[w := ka_bitmap a ! w OR push_bit b 1]) =
      insert (Min (arena_free a)) (bits_of (ka_bitmap a))"
    using bits_of_set [OF w] Min by simp
  then show ?thesis
    using wf scan Min
    by (auto simp: arena_acquire_def arena_wf_def arena_free_def)
qed

lemma arena_word_index:
  assumes "0 \<le> idx" "idx < 2 ^ 37"
  shows "sint (word_of_int (idx div 64) :: 32 word) = idx div 64"
proof -
  have "0 \<le> idx div 64" "idx div 64 < 2 ^ 31" using assms by auto
  then show ?thesis by (simp add: signed_of_int signed_take_bit_int_eq_self)
qed

lemma arena_release_outside:
  assumes "2 ^ 20 \<le> idx" "idx < 2 ^ 37"
  shows "arena_release a idx = None"
proof -
  have "sint (word_of_int (idx div 64) :: 32 word) = idx div 64"
    using assms by (intro arena_word_index) simp_all
  moreover have "16384 \<le> idx div 64" using assms(1) by auto
  ultimately show ?thesis using assms(1) by (simp add: arena_release_def)
qed

lemma arena_release_in_range:
  assumes "arena_wf a" "i < 2 ^ 20"
  shows "\<exists>a'. arena_release a (int i) = Some a' \<and> arena_wf a' \<and>
    arena_free a' = insert i (arena_free a)"
proof -
  have w: "i div 64 < length (ka_bitmap a)" "i mod 64 < 64"
    using assms by (simp_all add: arena_wf_def less_mult_imp_div_less)
  have eq: "sint (word_of_int (int i div 64) :: 32 word) = int (i div 64)"
    using arena_word_index [of "int i"] assms(2) by (simp add: zdiv_int)
  have "nat (int i mod 64) = i mod 64" by (simp add: nat_mod_distrib)
  then have "arena_release a (int i) = Some (a\<lparr>ka_bitmap := (ka_bitmap a)
      [i div 64 := ka_bitmap a ! (i div 64) AND NOT (push_bit (i mod 64) 1)]\<rparr>)"
    using w assms(1) by (simp add: arena_release_def eq arena_wf_def)
  moreover have "bits_of ((ka_bitmap a)[i div 64 := ka_bitmap a ! (i div 64) AND
      NOT (push_bit (i mod 64) 1)]) = bits_of (ka_bitmap a) - {i}"
    using bits_of_clear [OF w] by simp
  ultimately show ?thesis
    using assms by (auto simp: arena_wf_def arena_free_def)
qed

interpretation arena: id_allocator arena_wf arena_free "2 ^ 20" arena_alloc_obs arena_release_obs
proof unfold_locales
  fix s :: KVArena
  assume wf: "arena_wf s"
  show "arena_free s \<subseteq> {..<2 ^ 20}" by (auto simp: arena_free_def)
  show "arena_alloc_obs s = (None, s)" if "arena_free s = {}"
    using arena_acquire_none [OF wf that] by (simp add: arena_alloc_obs_def)
  show "r = Some (Min (arena_free s)) \<and> arena_wf s' \<and> arena_free s' = arena_free s - {Min (arena_free s)}"
    if ne: "arena_free s \<noteq> {}" and "arena_alloc_obs s = (r, s')" for r s'
  proof -
    obtain a' where "arena_acquire s = (int (Min (arena_free s)), a')" "arena_wf a'"
      "arena_free a' = arena_free s - {Min (arena_free s)}"
      using arena_acquire_least [OF wf ne] by blast
    then show ?thesis using that(2) by (simp add: arena_alloc_obs_def)
  qed
  show "arena_wf (arena_release_obs s i) \<and> arena_free (arena_release_obs s i) = insert i (arena_free s)"
    if i: "i < 2 ^ 20" for i
  proof -
    obtain s' where "arena_release s (int i) = Some s'" "arena_wf s'"
      "arena_free s' = insert i (arena_free s)"
      using arena_release_in_range [OF wf i] by blast
    then show ?thesis by (simp only: arena_release_obs_def option.case)
  qed
qed

lemma arena_init_wf:
  assumes "arena_init h s a cap bs = Some a'"
  shows "arena_wf a' \<and> arena_free a' = {0..<2 ^ 20} \<and> ka_capacity a' = cap \<and>
    ka_block_size a' = bs \<and> ka_base a' \<noteq> MAP_FAILED"
  using assms
  by (auto simp: arena_init_def arena_wf_def arena_free_def atLeast0LessThan split: if_splits)

section \<open>Properties\<close>

text \<open>
  C22. From any well-formed arena, every sequence of acquires and in-range releases is sound: an
  acquire returns the least block that is not in use and never one that is, it fails with -1
  only when all \<open>2 ^ 20\<close> blocks are in use, and the free set afterwards is exactly what the
  history leaves free.
\<close>

theorem arena_allocation_sound:
  assumes "arena_wf a" and "releases_below (2 ^ 20) ops"
    and "alloc_run arena_alloc_obs arena_release_obs ops a = (evs, a')"
  shows "sound_history (2 ^ 20) ({..<2 ^ 20} - arena_free a) evs \<and> arena_wf a' \<and>
    {..<2 ^ 20} - arena_free a' = live_after ({..<2 ^ 20} - arena_free a) evs"
  using arena.run_sound [OF assms] .

definition arena_fresh :: KVArena where
  "arena_fresh = \<lparr>ka_base = 4096, ka_capacity = 32768, ka_block_size = 16384,
     ka_bitmap = replicate 16384 0\<rparr>"

lemma arena_fresh_wf: "arena_wf arena_fresh" and arena_fresh_free: "arena_free arena_fresh = {0..<2 ^ 20}"
  by (auto simp: arena_fresh_def arena_wf_def arena_free_def)

theorem arena_allocation_sound_witness:
  "sound_history (2 ^ 20) {} (fst (alloc_run arena_alloc_obs arena_release_obs
     [Alloc, Alloc, Release 0, Alloc] arena_fresh))"
proof -
  obtain evs a' where run: "alloc_run arena_alloc_obs arena_release_obs
      [Alloc, Alloc, Release 0, Alloc] arena_fresh = (evs, a')" by fastforce
  have empty: "{..<2 ^ 20} - arena_free arena_fresh = {}"
    unfolding arena_fresh_free by (simp only: atLeast0LessThan Diff_cancel)
  show ?thesis
    using arena_allocation_sound [OF arena_fresh_wf _ run] unfolding run empty by simp
qed

text \<open>
  Two distinct blocks that lie inside the mapped region never overlap: with the region not
  wrapping around the address space, the addresses \<open>arena_block_ptr\<close> computes are exact, lie in
  the region, and the byte ranges of different indices are disjoint.
\<close>

theorem arena_blocks_disjoint:
  assumes region: "unat (ka_base a) + unat (ka_capacity a) \<le> 2 ^ 64"
    and i: "(i + 1) * unat (ka_block_size a) \<le> unat (ka_capacity a)"
    and j: "(j + 1) * unat (ka_block_size a) \<le> unat (ka_capacity a)"
    and "i < j" and pos: "0 < ka_block_size a"
  shows "unat (arena_block_ptr a (int i)) = unat (ka_base a) + i * unat (ka_block_size a) \<and>
    unat (arena_block_ptr a (int j)) + unat (ka_block_size a)
      \<le> unat (ka_base a) + unat (ka_capacity a) \<and>
    unat (arena_block_ptr a (int i)) + unat (ka_block_size a) \<le> unat (arena_block_ptr a (int j))"
proof -
  let ?bs = "unat (ka_block_size a)"
  have bs: "0 < ?bs" using pos by (simp add: word_less_nat_alt)
  have exact: "unat (arena_block_ptr a (int k)) = unat (ka_base a) + k * ?bs"
    if "(k + 1) * ?bs \<le> unat (ka_capacity a)" for k
  proof -
    have "unat (ka_base a) + k * ?bs + ?bs \<le> 2 ^ 64" using that region by (simp add: algebra_simps)
    then have lt: "unat (ka_base a) + k * ?bs < 2 ^ 64" using bs by linarith
    have "arena_block_ptr a (int k) = of_nat (unat (ka_base a) + k * ?bs)"
      by (simp add: arena_block_ptr_def)
    then show ?thesis using lt by (simp add: unat_of_nat del: of_nat_add of_nat_mult)
  qed
  have "(i + 1) * ?bs \<le> j * ?bs" using \<open>i < j\<close> by (intro mult_le_mono1) simp
  then show ?thesis using exact [OF i] exact [OF j] j by (simp add: algebra_simps)
qed

theorem arena_blocks_disjoint_witness:
  "unat (arena_block_ptr arena_fresh 0) = 4096 \<and>
   unat (arena_block_ptr arena_fresh 1) + 16384 \<le> 4096 + 32768 \<and>
   unat (arena_block_ptr arena_fresh 0) + 16384 \<le> unat (arena_block_ptr arena_fresh 1)"
  using arena_blocks_disjoint [of arena_fresh 0 1] by (simp add: arena_fresh_def)

text \<open>
  \<open>arena_acquire\<close> does not respect the capacity: an arena initialised with room for \<open>n\<close>
  blocks, \<open>n\<close> below the \<open>2 ^ 20\<close> bits of the bitmap, hands out indices 0, \<dots>, n, and the block of
  index \<open>n\<close> starts where the mapped region ends.
\<close>

theorem arena_acquire_ignores_capacity:
  assumes "arena_init h s a0 capacity bs = Some a"
    and "n < 2 ^ 20" and "unat capacity = n * unat bs"
  shows "fst (alloc_run arena_alloc_obs arena_release_obs (replicate (Suc n) Alloc) a) =
      map Got [0..<Suc n] \<and>
    arena_block_ptr a (int n) = ka_base a + ka_capacity a"
proof -
  have a: "arena_wf a" "arena_free a = {0..<2 ^ 20}" "ka_capacity a = capacity" "ka_block_size a = bs"
    using arena_init_wf [OF assms(1)] by simp_all
  have "of_nat n * bs = of_nat (n * unat bs)" by simp
  also have "\<dots> = capacity" unfolding assms(3) [symmetric] by simp
  finally have "arena_block_ptr a (int n) = ka_base a + ka_capacity a"
    using a by (simp add: arena_block_ptr_def)
  moreover have "0 + Suc n \<le> (2 :: nat) ^ 20" using assms(2) by simp
  then obtain s' where "alloc_run arena_alloc_obs arena_release_obs (replicate (Suc n) Alloc) a =
      (map Got [0..<0 + Suc n], s')"
    using arena.alloc_sequence [OF a(1,2)] by blast
  ultimately show ?thesis by (simp only: fst_conv add_0)
qed

theorem arena_acquire_ignores_capacity_witness:
  "arena_init 4096 0 arena_fresh 32768 16384 = Some arena_fresh \<and>
   fst (alloc_run arena_alloc_obs arena_release_obs (replicate (Suc 2) Alloc) arena_fresh) =
     [Got 0, Got 1, Got 2] \<and>
   arena_block_ptr arena_fresh 2 = ka_base arena_fresh + ka_capacity arena_fresh"
proof -
  have init: "arena_init 4096 0 arena_fresh 32768 16384 = Some arena_fresh"
    by (simp add: arena_init_def arena_fresh_def MAP_FAILED_def)
  have "map Got [0..<Suc 2] = [Got 0, Got 1, Got 2]" by (simp add: upt_rec numeral_2_eq_2)
  then show ?thesis
    using arena_acquire_ignores_capacity [OF init, of 2] init by simp
qed

text \<open>
  Releasing an acquired block is the inverse of acquiring it, a second release of the same
  block and a release of a negative index change nothing, and a release at an index between the
  end of the bitmap and \<open>2 ^ 37\<close> writes outside the bitmap.
\<close>

theorem arena_release_inverse:
  assumes "arena_wf a" and "arena_acquire a = (idx, a1)" and "0 \<le> idx"
    and "arena_release a1 idx = Some a2"
  shows "arena_free a2 = arena_free a \<and> arena_wf a2 \<and>
    (\<exists>a3. arena_release a2 idx = Some a3 \<and> arena_free a3 = arena_free a2) \<and>
    (\<forall>neg < 0. arena_release a neg = Some a) \<and>
    (\<forall>big. 2 ^ 20 \<le> big \<and> big < 2 ^ 37 \<longrightarrow> arena_release a big = None)"
proof -
  have ne: "arena_free a \<noteq> {}"
    using arena_acquire_none [OF assms(1)] assms(2,3) by auto
  let ?m = "Min (arena_free a)"
  obtain idx: "idx = int ?m" and wf1: "arena_wf a1" and free1: "arena_free a1 = arena_free a - {?m}"
    using arena_acquire_least [OF assms(1) ne] assms(2) by auto
  have m: "?m \<in> arena_free a"
    using arena.finite_free [OF assms(1)] ne by (rule Min_in)
  then have bound: "?m < 2 ^ 20" by (simp add: arena_free_def)
  obtain wf2: "arena_wf a2" and free2: "arena_free a2 = insert ?m (arena_free a1)"
    using arena_release_in_range [OF wf1 bound] assms(4) idx by auto
  have eq: "arena_free a2 = arena_free a" using free1 free2 m by auto
  obtain a3 where "arena_release a2 idx = Some a3" "arena_free a3 = insert ?m (arena_free a2)"
    using arena_release_in_range [OF wf2 bound] idx by auto
  then have "\<exists>a3. arena_release a2 idx = Some a3 \<and> arena_free a3 = arena_free a2"
    using free2 by auto
  moreover have "\<forall>neg < 0. arena_release a neg = Some a" by (simp add: arena_release_def)
  ultimately show ?thesis using eq wf2 arena_release_outside [of _ a] by blast
qed

theorem arena_release_inverse_witness:
  "\<exists>a1 a2. arena_acquire arena_fresh = (0, a1) \<and> arena_release a1 0 = Some a2 \<and>
     arena_free a2 = arena_free arena_fresh"
proof -
  have Min: "Min {0..<2 ^ 20 :: nat} = 0" by (intro Min_eqI) simp_all
  have "arena_free arena_fresh \<noteq> {}" unfolding arena_fresh_free by simp
  from arena_acquire_least [OF arena_fresh_wf this] obtain a1 where
    acq: "arena_acquire arena_fresh = (0, a1)" and wf: "arena_wf a1"
    unfolding arena_fresh_free Min by auto
  obtain a2 where rel: "arena_release a1 0 = Some a2"
    using arena_release_in_range [OF wf, of 0] by auto
  show ?thesis
    using arena_release_inverse [OF arena_fresh_wf acq _ rel] acq rel by simp
qed

end
