(* ===== verification/Runtime_Lifecycle.thy ===== *)
theory Runtime_Lifecycle
  imports Runtime_Main Device_Buffers Sampler Arena
begin

text \<open>
  The life of the host runtime of \<^verbatim>\<open>src/main.c\<close> from \<open>runtime_init\<close> to \<open>runtime_shutdown\<close>, over the
  rings, the arena and the device buffers of the other theories. The outcome of every system and
  CUDA call is an argument; a live block is tracked in \<open>mem\<close>, so that a leak, a double free and a
  use of a dead block are visible. After a release the code leaves most pointers dangling: the
  fields keep their value and only \<open>mem\<close> changes.
\<close>

section \<open>State\<close>

text \<open>
  The floats of the sampling state are kept as bit patterns: \<open>0x3F800000\<close> is \<open>1.0f\<close> and
  \<open>0x3F666666\<close> is \<open>0.9f\<close>. The buffers for queries and outputs are kept as their size in bytes.
\<close>

record Runtime =
  rt_cmd_ring :: "CommandRing option"
  rt_comp_ring :: "CompletionRing option"
  rt_kv_arena :: KVArena
  rt_d_sample_st :: "f32_bits SampleState option"
  rt_model_state :: ModelStateBuffers
  rt_d_query_proj :: "int list option"
  rt_d_query_buf :: "u64 option"
  rt_d_output_buf :: "u64 option"
  rt_d_step_count :: "u64 option"
  rt_io_slots :: u32
  rt_num_sms :: int
  rt_dev_id :: int

definition Runtime_zero :: Runtime where
  "Runtime_zero =
     \<lparr>rt_cmd_ring = None, rt_comp_ring = None,
      rt_kv_arena = \<lparr>ka_base = 0, ka_capacity = 0, ka_block_size = 0, ka_bitmap = replicate BITMAP_WORDS 0\<rparr>,
      rt_d_sample_st = None, rt_model_state = model_state_null, rt_d_query_proj = None,
      rt_d_query_buf = None, rt_d_output_buf = None, rt_d_step_count = None, rt_io_slots = 0,
      rt_num_sms = 0, rt_dev_id = 0\<rparr>"

text \<open>What the calls return: success of each CUDA call, the addresses of the arena's two \<open>mmap\<close> calls.\<close>

record runtime_env =
  re_set_device :: bool
  re_sm_count :: int
  re_ring_huge :: bool
  re_ring_small :: bool
  re_comp_huge :: bool
  re_comp_small :: bool
  re_arena_huge :: u64
  re_arena_small :: u64
  re_malloc_step :: bool
  re_memset_step :: bool
  re_model_state :: model_state_env
  re_query_host :: bool
  re_query_dev :: bool
  re_malloc_query :: bool
  re_malloc_output :: bool
  re_memset_output :: bool
  re_malloc_sample :: bool
  re_memcpy_sample :: bool
  re_junk_step :: u64
  re_junk_sample :: "f32_bits SampleState"

section \<open>Initialisation\<close>

text \<open>The host copy of the sampling state.\<close>

definition host_sample_state :: "f32_bits SampleState" where
  "host_sample_state =
     \<lparr>ss_rng_state = (42, 42 XOR 0x9e3779b97f4a7c15, push_bit 17 42 XOR 0x3c6ef372fe94f82a, NOT 42),
      ss_temperature = 0x3F800000, ss_top_k = 50, ss_top_p = 0x3F666666, ss_vocab_size = MAX_VOCAB_SIZE\<rparr>"

text \<open>The block at the label \<open>cleanup\<close>.\<close>

definition runtime_cleanup :: "Runtime \<Rightarrow> mem \<Rightarrow> int \<times> Runtime \<times> mem" where
  "runtime_cleanup rt m =
     (let m = free_if (rt_d_sample_st rt \<noteq> None) SampleSt m;
          m = free_if (rt_d_output_buf rt \<noteq> None) OutputBuf m;
          m = free_if (rt_d_query_buf rt \<noteq> None) QueryBuf m;
          m = free_if (rt_d_step_count rt \<noteq> None) StepCount m;
          m = (if rt_d_query_proj rt \<noteq> None then query_producer_destroy (rt_d_query_proj rt) m else m);
          (ms, m) = model_state_destroy (Some (rt_model_state rt)) m;
          m = free_if (rt_cmd_ring rt \<noteq> None) CmdRing m;
          m = free_if (rt_comp_ring rt \<noteq> None) CompRing m;
          (unmap, arena) = arena_destroy (rt_kv_arena rt);
          m = free_if unmap ArenaMap m
      in (-1, rt\<lparr>rt_model_state := the ms, rt_kv_arena := arena\<rparr>, m))"

text \<open>The second half of \<open>runtime_init\<close>, from the model state on.\<close>

definition runtime_init_device :: "runtime_env \<Rightarrow> Runtime \<Rightarrow> mem \<Rightarrow> int \<times> Runtime \<times> mem" where
  "runtime_init_device env rt m =
     (let rt = rt\<lparr>rt_io_slots := RING_SIZE\<rparr>;
          (c, ms, m) = model_state_init (re_model_state env) (Some (rt_model_state rt)) (rt_io_slots rt) m;
          rt = rt\<lparr>rt_model_state := the ms\<rparr>
      in if c \<noteq> 0 then runtime_cleanup rt m
         else let (c, proj, m) = query_producer_init (re_query_host env) (re_query_dev env) (rt_d_query_proj rt) m;
                  rt = rt\<lparr>rt_d_query_proj := proj\<rparr>
         in if c \<noteq> 0 then runtime_cleanup rt m
         else if \<not> re_malloc_query env then runtime_cleanup rt m
         else let rt = rt\<lparr>rt_d_query_buf := Some (ucast (rt_io_slots rt * 128) * 2)\<rparr>; m = mem_alloc QueryBuf m
         in if \<not> re_malloc_output env then runtime_cleanup rt m
         else let rt = rt\<lparr>rt_d_output_buf := Some (ucast (rt_io_slots rt * 128) * 4)\<rparr>; m = mem_alloc OutputBuf m
         in if \<not> re_memset_output env then runtime_cleanup rt m
         else if \<not> re_malloc_sample env then runtime_cleanup rt m
         else let rt = rt\<lparr>rt_d_sample_st := Some (re_junk_sample env)\<rparr>; m = mem_alloc SampleSt m
         in if \<not> re_memcpy_sample env then runtime_cleanup rt m
         else (0, rt\<lparr>rt_d_sample_st := Some host_sample_state\<rparr>, m))"

text \<open>\<open>None\<close> is the \<open>abort()\<close> of \<open>arena_init\<close>.\<close>

definition runtime_init :: "runtime_env \<Rightarrow> int \<Rightarrow> u64 \<Rightarrow> u64 \<Rightarrow> mem \<Rightarrow> (int \<times> Runtime \<times> mem) option" where
  "runtime_init env dev_id arena_size block_size m =
     (let rt = Runtime_zero\<lparr>rt_dev_id := dev_id\<rparr>
      in if \<not> re_set_device env then Some (runtime_cleanup rt m)
         else let rt = rt\<lparr>rt_num_sms := re_sm_count env,
                          rt_cmd_ring := ring_create (re_ring_huge env) (re_ring_small env)\<rparr>
         in if rt_cmd_ring rt = None then Some (-1, rt, m)
         else let m = mem_alloc CmdRing m;
                  rt = rt\<lparr>rt_comp_ring := comp_ring_create (re_comp_huge env) (re_comp_small env)\<rparr>
         in if rt_comp_ring rt = None then Some (runtime_cleanup rt m)
         else let m = mem_alloc CompRing m
         in case arena_init (re_arena_huge env) (re_arena_small env) (rt_kv_arena rt) arena_size block_size of
              None \<Rightarrow> None
            | Some a \<Rightarrow>
              let rt = rt\<lparr>rt_kv_arena := a\<rparr>; m = mem_alloc ArenaMap m
              in if \<not> re_malloc_step env then Some (runtime_cleanup rt m)
                 else let rt = rt\<lparr>rt_d_step_count := Some (re_junk_step env)\<rparr>; m = mem_alloc StepCount m
                 in if \<not> re_memset_step env then Some (runtime_cleanup rt m)
                 else Some (runtime_init_device env (rt\<lparr>rt_d_step_count := Some 0\<rparr>) m))"

section \<open>Shutdown\<close>

text \<open>
  \<open>runtime_shutdown\<close>: one sentinel per SM, then every resource is released. \<open>None\<close> stands for
  running out of fuel in the sentinel loop.
\<close>

definition runtime_shutdown :: "nat \<Rightarrow> (nat \<Rightarrow> nat) \<Rightarrow> Runtime \<Rightarrow> mem \<Rightarrow> (Runtime \<times> mem) option" where
  "runtime_shutdown fuel gpu rt m =
     (case shutdown_loop fuel gpu (rt_num_sms rt) 0 (the (rt_cmd_ring rt)) of
        None \<Rightarrow> None
      | Some ring \<Rightarrow>
          let m = free_if (rt_d_step_count rt \<noteq> None) StepCount m;
              m = free_if (rt_d_sample_st rt \<noteq> None) SampleSt m;
              (ms, m) = model_state_destroy (Some (rt_model_state rt)) m;
              m = query_producer_destroy (rt_d_query_proj rt) m;
              m = free_if (rt_d_query_buf rt \<noteq> None) QueryBuf m;
              m = free_if (rt_d_output_buf rt \<noteq> None) OutputBuf m;
              m = mem_free CmdRing m;
              m = mem_free CompRing m;
              (unmap, arena) = arena_destroy (rt_kv_arena rt);
              m = free_if unmap ArenaMap m
          in Some (rt\<lparr>rt_cmd_ring := Some ring, rt_model_state := the ms, rt_kv_arena := arena\<rparr>, m))"

section \<open>Ownership\<close>

definition owns_if :: "bool \<Rightarrow> res \<Rightarrow> res set" where
  "owns_if b r = (if b then {r} else {})"

lemma in_owns_if [simp]: "x \<in> owns_if b r \<longleftrightarrow> b \<and> x = r"
  by (simp add: owns_if_def)

lemma free_if_owned [simp]:
  "r \<notin> A \<Longrightarrow> free_if b r (m\<lparr>mem_live := owns_if b r \<union> A\<rparr>) = m\<lparr>mem_live := A\<rparr>"
  by (cases b) (simp_all add: owns_if_def)

lemma free_if_last [simp]: "free_if b r (m\<lparr>mem_live := owns_if b r\<rparr>) = m\<lparr>mem_live := {}\<rparr>"
  using free_if_owned [of r "{}"] by simp

lemma owns_if_Int [simp]: "r \<notin> B \<Longrightarrow> owns_if b r \<inter> B = {}"
  by (simp add: owns_if_def)

text \<open>The blocks the non-NULL pointers of a runtime stand for.\<close>

definition runtime_owns :: "Runtime \<Rightarrow> res set" where
  "runtime_owns rt =
     owns_if (rt_d_sample_st rt \<noteq> None) SampleSt \<union> (owns_if (rt_d_output_buf rt \<noteq> None) OutputBuf \<union>
     (owns_if (rt_d_query_buf rt \<noteq> None) QueryBuf \<union> (owns_if (rt_d_step_count rt \<noteq> None) StepCount \<union>
     (owns_if (rt_d_query_proj rt \<noteq> None) QueryProj \<union>
     ((if rt_model_state rt = model_state_null then {} else model_state_blocks) \<union>
     (owns_if (rt_cmd_ring rt \<noteq> None) CmdRing \<union> (owns_if (rt_comp_ring rt \<noteq> None) CompRing \<union>
     owns_if (ka_base (rt_kv_arena rt) \<noteq> 0) ArenaMap)))))))"

lemma runtime_owns_grow:
  "runtime_owns (rt\<lparr>rt_d_query_buf := Some x\<rparr>) = insert QueryBuf (runtime_owns rt)"
  "runtime_owns (rt\<lparr>rt_d_output_buf := Some x\<rparr>) = insert OutputBuf (runtime_owns rt)"
  "runtime_owns (rt\<lparr>rt_d_sample_st := Some st\<rparr>) = insert SampleSt (runtime_owns rt)"
  by (auto simp: runtime_owns_def)

lemma runtime_owns_out:
  "QueryBuf \<in> runtime_owns rt \<longleftrightarrow> rt_d_query_buf rt \<noteq> None"
  "OutputBuf \<in> runtime_owns rt \<longleftrightarrow> rt_d_output_buf rt \<noteq> None"
  "SampleSt \<in> runtime_owns rt \<longleftrightarrow> rt_d_sample_st rt \<noteq> None"
  by (auto simp: runtime_owns_def model_state_blocks_def)

definition model_state_ok :: "Runtime \<Rightarrow> bool" where
  "model_state_ok rt \<longleftrightarrow> rt_model_state rt = model_state_null \<or> (\<exists>s. rt_model_state rt = model_state_ready s)"

definition runtime_released :: "Runtime \<Rightarrow> Runtime" where
  "runtime_released rt =
     rt\<lparr>rt_model_state := model_state_null, rt_kv_arena := (rt_kv_arena rt)\<lparr>ka_base := 0\<rparr>\<rparr>"

lemma ready_not_null [simp]: "model_state_ready s \<noteq> model_state_null"
  by (simp add: model_state_ready_def model_state_null_def)

lemma model_state_destroy_owned:
  assumes "model_state_ok rt" and "A \<inter> model_state_blocks = {}"
  shows "model_state_destroy (Some (rt_model_state rt))
      (m\<lparr>mem_live := (if rt_model_state rt = model_state_null then {} else model_state_blocks) \<union> A\<rparr>) =
    (Some model_state_null, m\<lparr>mem_live := A\<rparr>)"
proof (cases "rt_model_state rt = model_state_null")
  case True
  then show ?thesis by (simp add: model_state_destroy_null)
next
  case False
  then obtain s where "rt_model_state rt = model_state_ready s" using assms(1) by (auto simp: model_state_ok_def)
  moreover have "model_state_blocks \<union> A - model_state_blocks = A" using assms(2) by blast
  ultimately show ?thesis using False by (simp add: model_state_destroy_ready)
qed

lemma runtime_cleanup_frees:
  assumes "model_state_ok rt"
  shows "runtime_cleanup rt (m\<lparr>mem_live := runtime_owns rt\<rparr>) = (-1, runtime_released rt, m\<lparr>mem_live := {}\<rparr>)"
proof -
  have out: "SampleSt \<notin> model_state_blocks" "OutputBuf \<notin> model_state_blocks" "QueryBuf \<notin> model_state_blocks"
    "StepCount \<notin> model_state_blocks" "QueryProj \<notin> model_state_blocks" "CmdRing \<notin> model_state_blocks"
    "CompRing \<notin> model_state_blocks" "ArenaMap \<notin> model_state_blocks"
    by (simp_all add: model_state_blocks_def)
  have in_if: "x \<in> (if P then {} else B) \<longleftrightarrow> \<not> P \<and> x \<in> B" for x :: res and P B by simp
  have qp: "(if rt_d_query_proj rt \<noteq> None then query_producer_destroy (rt_d_query_proj rt) k else k) =
      free_if (rt_d_query_proj rt \<noteq> None) QueryProj k" for k
    by (simp add: query_producer_destroy_def)
  show ?thesis
    unfolding runtime_cleanup_def runtime_owns_def qp
    by (simp add: out in_if model_state_destroy_owned [OF assms] Int_Un_distrib2 arena_destroy_def
        runtime_released_def del: not_None_eq split del: if_split)
qed

section \<open>Outcomes of initialisation\<close>

text \<open>The runtime after a successful initialisation.\<close>

definition runtime_ready :: "runtime_env \<Rightarrow> int \<Rightarrow> u64 \<Rightarrow> u64 \<Rightarrow> Runtime" where
  "runtime_ready env dev_id arena_size block_size =
     \<lparr>rt_cmd_ring = Some CommandRing_zero, rt_comp_ring = Some CompletionRing_zero,
      rt_kv_arena = \<lparr>ka_base = (if re_arena_huge env = MAP_FAILED then re_arena_small env else re_arena_huge env),
        ka_capacity = arena_size, ka_block_size = block_size, ka_bitmap = replicate BITMAP_WORDS 0\<rparr>,
      rt_d_sample_st = Some (sample_init 42 0x3F800000 50 0x3F666666),
      rt_model_state = model_state_ready 4096, rt_d_query_proj = Some (matrix 128 qp_proj_num),
      rt_d_query_buf = Some (4096 * 128 * 2), rt_d_output_buf = Some (4096 * 128 * 4),
      rt_d_step_count = Some 0, rt_io_slots = 4096, rt_num_sms = re_sm_count env, rt_dev_id = dev_id\<rparr>"

lemma host_sample_state_init: "host_sample_state = sample_init 42 0x3F800000 50 0x3F666666"
  by (simp add: host_sample_state_def sample_init_def rotl_def)

lemma cleanup_outcome:
  assumes "model_state_ok rt" and "mem_live m = runtime_owns rt"
  shows "runtime_cleanup rt m = (-1, runtime_released rt, m\<lparr>mem_live := {}\<rparr>)"
  using runtime_cleanup_frees [OF assms(1), of m] assms(2) by (metis mem_update_same)

lemmas owns_simps = runtime_owns_def owns_if_def model_state_ok_def Runtime_zero_def

lemma runtime_init_device_outcome:
  fixes rt :: Runtime
  assumes rt: "rt_cmd_ring rt = Some cr" "rt_comp_ring rt = Some cq" "ka_base (rt_kv_arena rt) \<noteq> 0"
      "rt_d_step_count rt = Some 0" "rt_d_sample_st rt = None" "rt_model_state rt = model_state_null"
      "rt_d_query_proj rt = None" "rt_d_query_buf rt = None" "rt_d_output_buf rt = None"
    and m: "mem_live m = {CmdRing, CompRing, ArenaMap, StepCount}"
    and run: "runtime_init_device env rt m = (c, rt', m')"
  shows "c = 0 \<and> m' = m\<lparr>mem_live := runtime_owns rt'\<rparr> \<and>
      rt' = rt\<lparr>rt_io_slots := 4096, rt_model_state := model_state_ready 4096,
        rt_d_query_proj := Some (matrix 128 qp_proj_num), rt_d_query_buf := Some (4096 * 128 * 2),
        rt_d_output_buf := Some (4096 * 128 * 4), rt_d_sample_st := Some (sample_init 42 0x3F800000 50 0x3F666666)\<rparr> \<or>
    c = -1 \<and> m' = m\<lparr>mem_live := {}\<rparr>"
proof -
  obtain c1 ms m1 where ms: "model_state_init (re_model_state env) (Some model_state_null) 4096 m = (c1, ms, m1)"
    by (metis prod_cases3)
  have fresh: "mem_live m \<inter> (host_temps \<union> model_state_blocks) = {}" by (simp add: m res_sets)
  obtain c2 proj m2 where qp: "query_producer_init (re_query_host env) (re_query_dev env) None m1 = (c2, proj, m2)"
    by (metis prod_cases3)
  have init_def: "runtime_init_device env rt m =
     (let rt1 = rt\<lparr>rt_io_slots := 4096, rt_model_state := the ms\<rparr> in
      if c1 \<noteq> 0 then runtime_cleanup rt1 m1
      else let rt2 = rt1\<lparr>rt_d_query_proj := proj\<rparr> in
      if c2 \<noteq> 0 \<or> \<not> re_malloc_query env then runtime_cleanup rt2 m2
      else let rt3 = rt2\<lparr>rt_d_query_buf := Some (4096 * 128 * 2)\<rparr>; m3 = mem_alloc QueryBuf m2 in
      if \<not> re_malloc_output env then runtime_cleanup rt3 m3
      else let rt4 = rt3\<lparr>rt_d_output_buf := Some (4096 * 128 * 4)\<rparr>; m4 = mem_alloc OutputBuf m3 in
      if \<not> re_memset_output env \<or> \<not> re_malloc_sample env then runtime_cleanup rt4 m4
      else let rt5 = rt4\<lparr>rt_d_sample_st := Some (re_junk_sample env)\<rparr>; m5 = mem_alloc SampleSt m4 in
      if \<not> re_memcpy_sample env then runtime_cleanup rt5 m5
      else (0, rt5\<lparr>rt_d_sample_st := Some (sample_init 42 0x3F800000 50 0x3F666666)\<rparr>, m5))"
    by (simp add: runtime_init_device_def RING_SIZE_def rt ms qp host_sample_state_init)
  show ?thesis
  proof (cases "c1 = 0")
    case False
    then have ms1: "ms = Some model_state_null" "m1 = m"
      using model_state_init_mem [OF fresh ms] by auto
    then have "runtime_cleanup (rt\<lparr>rt_io_slots := 4096, rt_model_state := the ms\<rparr>) m1 =
        (-1, runtime_released (rt\<lparr>rt_io_slots := 4096, rt_model_state := the ms\<rparr>), m\<lparr>mem_live := {}\<rparr>)"
      by (subst cleanup_outcome) (auto simp: owns_simps rt m)
    then show ?thesis using run False unfolding init_def by simp
  next
    case True
    then have ms1: "ms = Some (model_state_ready 4096)" "m1 = m\<lparr>mem_live := mem_live m \<union> model_state_blocks\<rparr>"
      using model_state_init_mem [OF fresh ms] by auto
    have "HostQueryProj \<notin> mem_live m1" "QueryProj \<notin> mem_live m1" by (simp_all add: ms1 m res_sets)
    note qp1 = query_producer_init_mem [OF this qp]
    let ?rt2 = "rt\<lparr>rt_io_slots := 4096, rt_model_state := the ms, rt_d_query_proj := proj\<rparr>"
    let ?rt3 = "?rt2\<lparr>rt_d_query_buf := Some (4096 * 128 * 2)\<rparr>"
    let ?rt4 = "?rt3\<lparr>rt_d_output_buf := Some (4096 * 128 * 4)\<rparr>"
    let ?rt5 = "?rt4\<lparr>rt_d_sample_st := Some (re_junk_sample env)\<rparr>"
    have own2: "m2 = m\<lparr>mem_live := runtime_owns ?rt2\<rparr>"
      using qp1 by (auto simp: ms1 owns_simps rt m intro!: arg_cong [of _ _ "\<lambda>x. m\<lparr>mem_live := x\<rparr>"])
    have grow: "mem_alloc QueryBuf (m\<lparr>mem_live := runtime_owns ?rt2\<rparr>) = m\<lparr>mem_live := runtime_owns ?rt3\<rparr>"
      "mem_alloc OutputBuf (m\<lparr>mem_live := runtime_owns ?rt3\<rparr>) = m\<lparr>mem_live := runtime_owns ?rt4\<rparr>"
      "mem_alloc SampleSt (m\<lparr>mem_live := runtime_owns ?rt4\<rparr>) = m\<lparr>mem_live := runtime_owns ?rt5\<rparr>"
      by (simp_all add: runtime_owns_grow runtime_owns_out rt)
    have ok: "rt_model_state r = model_state_ready k \<Longrightarrow> model_state_ok r" for r k
      by (auto simp: model_state_ok_def)
    note clean = runtime_cleanup_frees [OF ok, of ?rt2 4096 m] runtime_cleanup_frees [OF ok, of ?rt3 4096 m]
      runtime_cleanup_frees [OF ok, of ?rt4 4096 m] runtime_cleanup_frees [OF ok, of ?rt5 4096 m]
    have proj: "c2 = 0 \<Longrightarrow> proj = Some (matrix 128 qp_proj_num)" using qp1 by auto
    show ?thesis
      using run True proj clean unfolding init_def own2 Let_def grow
      by (cases "c2 \<noteq> 0 \<or> \<not> re_malloc_query env"; cases "re_malloc_output env";
          cases "\<not> re_memset_output env \<or> \<not> re_malloc_sample env"; cases "re_memcpy_sample env")
        (simp_all add: ms1 runtime_owns_grow, auto simp: ms1 runtime_owns_grow)
  qed
qed

lemma runtime_init_outcome:
  assumes "mem_live m = {}" and "re_arena_huge env \<noteq> 0" and "re_arena_small env \<noteq> 0"
    and run: "runtime_init env dev_id arena_size block_size m = Some (c, rt, m')"
  shows "c = 0 \<and> rt = runtime_ready env dev_id arena_size block_size \<and> m' = m\<lparr>mem_live := runtime_owns rt\<rparr> \<or>
    c = -1 \<and> m' = m"
proof -
  let ?z = "Runtime_zero\<lparr>rt_dev_id := dev_id\<rparr>"
  have m0: "m\<lparr>mem_live := {}\<rparr> = m" using assms(1) by (metis mem_update_same)
  have z: "runtime_cleanup ?z m = (-1, runtime_released ?z, m)"
    by (subst cleanup_outcome) (simp_all add: owns_simps assms(1) m0)
  let ?r1 = "?z\<lparr>rt_num_sms := re_sm_count env, rt_cmd_ring := Some CommandRing_zero\<rparr>"
  have r1: "runtime_cleanup (?r1\<lparr>rt_comp_ring := None\<rparr>) (m\<lparr>mem_live := {CmdRing}\<rparr>) =
      (-1, runtime_released (?r1\<lparr>rt_comp_ring := None\<rparr>), m)"
    by (subst cleanup_outcome) (simp_all add: owns_simps m0)
  define b where "b = (if re_arena_huge env = MAP_FAILED then re_arena_small env else re_arena_huge env)"
  let ?arena = "\<lparr>ka_base = b, ka_capacity = arena_size, ka_block_size = block_size,
      ka_bitmap = replicate BITMAP_WORDS 0\<rparr>"
  let ?r2 = "?r1\<lparr>rt_comp_ring := Some CompletionRing_zero, rt_kv_arena := ?arena\<rparr>"
  have base: "b \<noteq> 0" using assms(2,3) by (simp add: b_def)
  have arena: "arena_init (re_arena_huge env) (re_arena_small env) (rt_kv_arena Runtime_zero) arena_size block_size =
      (if b = MAP_FAILED then None else Some ?arena)"
    by (simp add: arena_init_def Runtime_zero_def b_def)
  have r2: "runtime_cleanup ?r2 (m\<lparr>mem_live := {ArenaMap, CompRing, CmdRing}\<rparr>) = (-1, runtime_released ?r2, m)"
    using base by (subst cleanup_outcome) (auto simp: owns_simps m0)
  have r3: "runtime_cleanup (?r2\<lparr>rt_d_step_count := Some j\<rparr>)
      (m\<lparr>mem_live := {StepCount, ArenaMap, CompRing, CmdRing}\<rparr>) =
    (-1, runtime_released (?r2\<lparr>rt_d_step_count := Some j\<rparr>), m)" for j
    using base by (subst cleanup_outcome) (auto simp: owns_simps m0)
  obtain c4 rt4 m4 where dev: "runtime_init_device env (?r2\<lparr>rt_d_step_count := Some 0\<rparr>)
      (m\<lparr>mem_live := {StepCount, ArenaMap, CompRing, CmdRing}\<rparr>) = (c4, rt4, m4)" by (metis prod_cases3)
  have dev4: "c4 = 0 \<and> rt4 = runtime_ready env dev_id arena_size block_size \<and> m4 = m\<lparr>mem_live := runtime_owns rt4\<rparr> \<or>
      c4 = -1 \<and> m4 = m"
    using runtime_init_device_outcome [OF _ _ _ _ _ _ _ _ _ _ dev] base m0
    by (fastforce simp: Runtime_zero_def runtime_ready_def b_def)
  have rings: "ring_create a b = (if a \<or> b then Some CommandRing_zero else None)"
    "comp_ring_create a b = (if a \<or> b then Some CompletionRing_zero else None)" for a b
    by (simp_all add: ring_create_def comp_ring_create_def)
  have none: "rt_cmd_ring Runtime_zero = None" "rt_comp_ring Runtime_zero = None" by (simp_all add: Runtime_zero_def)
  show ?thesis
    using run z r1 r2 r3 dev dev4
    by (auto simp: runtime_init_def rings arena assms(1) none split: if_splits)
qed

section \<open>Shutdown\<close>

text \<open>A runtime in operation: every pointer is valid and nothing else is live.\<close>

definition runtime_live :: "Runtime \<Rightarrow> bool" where
  "runtime_live rt \<longleftrightarrow> rt_cmd_ring rt \<noteq> None \<and> rt_comp_ring rt \<noteq> None \<and> ka_base (rt_kv_arena rt) \<noteq> 0 \<and>
     rt_d_sample_st rt \<noteq> None \<and> rt_model_state rt = model_state_ready (rt_io_slots rt) \<and>
     rt_d_query_proj rt \<noteq> None \<and> rt_d_query_buf rt \<noteq> None \<and> rt_d_output_buf rt \<noteq> None \<and>
     rt_d_step_count rt \<noteq> None"

definition runtime_blocks :: "res set" where
  "runtime_blocks = {ArenaMap, CompRing, CmdRing, Bias, ResidualProj, InputProj, HiddenBuf, QueryProj,
     StepCount, QueryBuf, OutputBuf, SampleSt}"

lemma runtime_live_owns: "runtime_live rt \<Longrightarrow> runtime_owns rt = runtime_blocks"
  by (simp add: runtime_live_def runtime_owns_def runtime_blocks_def owns_if_def model_state_blocks_def)

lemma runtime_ready_live:
  "re_arena_huge env \<noteq> 0 \<Longrightarrow> re_arena_small env \<noteq> 0 \<Longrightarrow> runtime_live (runtime_ready env d a b)"
  by (simp add: runtime_live_def runtime_ready_def)

lemma runtime_shutdown_releases:
  assumes "runtime_live rt" and "shutdown_loop fuel gpu (rt_num_sms rt) 0 (the (rt_cmd_ring rt)) = Some ring"
  shows "\<exists>rt'. runtime_shutdown fuel gpu rt (m\<lparr>mem_live := runtime_blocks\<rparr>) = Some (rt', m\<lparr>mem_live := {}\<rparr>) \<and>
    rt_cmd_ring rt' = Some ring"
proof -
  have ms: "model_state_destroy (Some (model_state_ready k)) (m\<lparr>mem_live := runtime_blocks - {StepCount} - {SampleSt}\<rparr>) =
      (Some model_state_null, m\<lparr>mem_live := {OutputBuf, QueryBuf, QueryProj, CmdRing, CompRing, ArenaMap}\<rparr>)" for k
    by (subst model_state_destroy_ready)
      (auto simp: runtime_blocks_def model_state_blocks_def intro!: arg_cong [of _ _ "\<lambda>x. m\<lparr>mem_live := x\<rparr>"])
  show ?thesis
    using assms ms unfolding runtime_shutdown_def runtime_live_def
    by (auto simp: query_producer_destroy_def arena_destroy_def insert_Diff_if runtime_blocks_def)
qed

section \<open>Properties\<close>

text \<open>
  C30. Initialisation is all or nothing. From an empty memory it either returns 0 with every block
  live, both rings empty, every arena block free, the step counter at 0 and the sampling state
  that \<open>sample_init\<close> makes from the seed 42; or it returns -1, whichever call failed, with every
  block acquired on the way released exactly once. (\<open>mmap\<close> never returns the null address.)
\<close>

theorem runtime_init_all_or_nothing:
  assumes "mem_live m = {}" and "re_arena_huge env \<noteq> 0" and "re_arena_small env \<noteq> 0"
    and "runtime_init env dev_id arena_size block_size m = Some (c, rt, m')"
  shows "c = 0 \<and> runtime_live rt \<and> m' = m\<lparr>mem_live := runtime_blocks\<rparr> \<and>
      (\<exists>r. rt_cmd_ring rt = Some r \<and> cmd_inv r \<and> cmd_contents r = []) \<and>
      (\<exists>q. rt_comp_ring rt = Some q \<and> comp_inv q \<and> comp_contents q = []) \<and>
      arena_free (rt_kv_arena rt) = {0..<2 ^ 20} \<and> rt_d_step_count rt = Some 0 \<and>
      rt_d_sample_st rt = Some (sample_init 42 0x3F800000 50 0x3F666666) \<or>
    c = -1 \<and> m' = m"
proof -
  have free: "arena_free (rt_kv_arena (runtime_ready env dev_id arena_size block_size)) = {0..<2 ^ 20}"
    by (auto simp: arena_free_def runtime_ready_def)
  have live: "runtime_live (runtime_ready env dev_id arena_size block_size)"
    using assms(2,3) by (rule runtime_ready_live)
  have fields: "rt_cmd_ring (runtime_ready env dev_id arena_size block_size) = Some CommandRing_zero"
    "rt_comp_ring (runtime_ready env dev_id arena_size block_size) = Some CompletionRing_zero"
    "rt_d_step_count (runtime_ready env dev_id arena_size block_size) = Some 0"
    "rt_d_sample_st (runtime_ready env dev_id arena_size block_size) =
      Some (sample_init 42 0x3F800000 50 0x3F666666)"
    by (simp_all add: runtime_ready_def)
  show ?thesis
    using runtime_init_outcome [OF assms] free live fields runtime_live_owns [OF live]
      CommandRing_zero_inv CommandRing_zero_contents CompletionRing_zero_inv CompletionRing_zero_contents
    by metis
qed

definition env_example :: runtime_env where
  "env_example =
     \<lparr>re_set_device = True, re_sm_count = 2, re_ring_huge = False, re_ring_small = True,
      re_comp_huge = True, re_comp_small = True, re_arena_huge = MAP_FAILED, re_arena_small = 65536,
      re_malloc_step = True, re_memset_step = True,
      re_model_state = \<lparr>me_h_input = True, me_h_residual = True, me_h_bias = True, me_hidden = True,
        me_input = True, me_residual = True, me_bias = True\<rparr>,
      re_query_host = True, re_query_dev = True, re_malloc_query = True, re_malloc_output = True,
      re_memset_output = True, re_malloc_sample = True, re_memcpy_sample = False,
      re_junk_step = 99, re_junk_sample = host_sample_state\<rparr>"

theorem runtime_init_all_or_nothing_witness:
  "\<exists>c rt m'. runtime_init env_example 0 (2 ^ 30) 16384 \<lparr>mem_live = {}, mem_error = False\<rparr> = Some (c, rt, m') \<and>
     mem_error m' = False \<and> mem_live m' \<in> {runtime_blocks, {}}"
proof -
  let ?m = "\<lparr>mem_live = {}, mem_error = False\<rparr>"
  have "MAP_FAILED \<noteq> 0" "(65536 :: u64) \<noteq> MAP_FAILED" by (simp_all add: MAP_FAILED_def)
  then have nz: "re_arena_huge env_example \<noteq> 0" "re_arena_small env_example \<noteq> 0"
    by (simp_all add: env_example_def)
  have "runtime_init env_example 0 (2 ^ 30) 16384 ?m \<noteq> None"
    using \<open>65536 \<noteq> MAP_FAILED\<close>
    by (simp add: runtime_init_def env_example_def ring_create_def comp_ring_create_def arena_init_def)
  then obtain c rt m' where run: "runtime_init env_example 0 (2 ^ 30) 16384 ?m = Some (c, rt, m')" by auto
  show ?thesis using runtime_init_all_or_nothing [OF _ nz run] run by auto
qed

text \<open>
  Shutdown gives everything back. Whatever work a live runtime has queued, if the command ring
  has room for one sentinel per SM, \<open>runtime_shutdown\<close> ends, the ring it leaves is a tail of the
  pending descriptors followed by the sentinels, and every block is released exactly once, so that
  a successful initialisation followed by a shutdown restores the memory.
\<close>

theorem runtime_shutdown_restores:
  assumes "runtime_live rt" and "rt_num_sms rt = int n" and "rt_cmd_ring rt = Some r"
    and "cmd_inv r" and "cmd_budget n r" and "length (cmd_contents r) + n \<le> 4096"
  shows "\<exists>rt' r' d. runtime_shutdown n gpu rt (m\<lparr>mem_live := runtime_blocks\<rparr>) = Some (rt', m\<lparr>mem_live := {}\<rparr>) \<and>
    rt_cmd_ring rt' = Some r' \<and> cmd_contents r' = drop d (cmd_contents r @ replicate n sentinel)"
proof -
  from shutdown_loop_sends [OF assms(4-6) order_refl, of gpu 0] obtain r' d where
    "shutdown_loop n gpu (rt_num_sms rt) 0 (the (rt_cmd_ring rt)) = Some r'"
    "cmd_contents r' = drop d (cmd_contents r @ replicate n sentinel)"
    using assms(2,3) by auto
  then show ?thesis using runtime_shutdown_releases [OF assms(1), of n gpu r' m] by blast
qed

theorem runtime_shutdown_restores_witness:
  "\<exists>rt'. runtime_shutdown 2 (\<lambda>_. 1) (runtime_ready env_example 0 (2 ^ 30) 16384)
     \<lparr>mem_live = runtime_blocks, mem_error = False\<rparr> = Some (rt', \<lparr>mem_live = {}, mem_error = False\<rparr>)"
proof -
  let ?rt = "runtime_ready env_example 0 (2 ^ 30) 16384"
  have "runtime_live ?rt"
    by (rule runtime_ready_live) (simp_all add: env_example_def MAP_FAILED_def)
  moreover have "rt_num_sms ?rt = int 2" "rt_cmd_ring ?rt = Some CommandRing_zero"
    by (simp_all add: runtime_ready_def env_example_def)
  moreover have "length (cmd_contents CommandRing_zero) + 2 \<le> 4096"
    unfolding CommandRing_zero_contents by simp
  ultimately show ?thesis
    using runtime_shutdown_restores [of ?rt 2 CommandRing_zero "\<lambda>_. 1" "\<lparr>mem_live = {}, mem_error = False\<rparr>"]
      CommandRing_zero_inv by auto
qed

end
