(* ===== verification/Request_Ring.thy ===== *)
theory Request_Ring
  imports Ring_Rep
begin

text \<open>
  The rings between the host and the autonomous device loop, \<^verbatim>\<open>include/request.h\<close>: rollout
  requests flow to the device, done notifications flow back. The request ring splits its
  producer into \<open>req_ring_acquire\<close>, a write into the returned slot and \<open>req_ring_commit\<close>; the
  done ring counts the notifications it had to reject.
\<close>

section \<open>Records\<close>

definition REQUEST_RING_SIZE :: u32 where "REQUEST_RING_SIZE = 1024"
definition GPU_MAX_ROLLOUTS :: u32 where "GPU_MAX_ROLLOUTS = 256"

record RolloutRequest =
  rq_request_id :: u64
  rq_max_tokens :: u32
  rq_kv_blocks :: u32
  rq_temperature :: f32_bits
  rq_top_k :: u16
  rq_top_p :: f32_bits
  rq_rng_seed :: u64

record RolloutDone =
  dn_request_id :: u64
  dn_rollout_id :: u32
  dn_tokens_generated :: u32
  dn_reward :: f32_bits
  dn_status :: u32

record RequestRing =
  rr_head :: u32
  rr_tail :: u32
  rr_slots :: "RolloutRequest list"

record DoneRing =
  dr_head :: u32
  dr_tail :: u32
  dr_overflow :: u32
  dr_slots :: "RolloutDone list"

record GpuRolloutSlot =
  gs_active :: u32
  gs_request_id :: u32
  gs_tokens_generated :: u32
  gs_max_tokens :: u32
  gs_kv_blocks :: u32
  gs_rng_state :: "u64 list"
  gs_temperature :: f32_bits
  gs_top_k :: u16
  gs_top_p :: f32_bits

record GpuRolloutState =
  gr_slots :: "GpuRolloutSlot list"
  gr_bitmap :: "u64 list"

section \<open>Request ring\<close>

definition req_ring_acquire :: "RequestRing \<Rightarrow> u32" where
  "req_ring_acquire r =
     (let head = rr_head r; tail = rr_tail r
      in if REQUEST_RING_SIZE - (tail - head) < 1 then UINT32_MAX
         else tail AND (REQUEST_RING_SIZE - 1))"

definition req_ring_commit :: "RequestRing \<Rightarrow> RequestRing" where
  "req_ring_commit r = (let tail = rr_tail r in r\<lparr>rr_tail := tail + 1\<rparr>)"

definition req_ring_consume :: "RequestRing \<Rightarrow> int \<times> RolloutRequest option \<times> RequestRing" where
  "req_ring_consume r =
     (let head = rr_head r; tail = rr_tail r
      in if head \<ge> tail then (0, None, r)
         else (1, Some (rr_slots r ! unat (head AND (REQUEST_RING_SIZE - 1))),
               r\<lparr>rr_head := head + 1\<rparr>))"

text \<open>The producer side as a whole: reserve, fill the reserved slot, commit.\<close>

definition req_submit :: "RequestRing \<Rightarrow> RolloutRequest \<Rightarrow> bool \<times> RequestRing" where
  "req_submit r q =
     (let pos = req_ring_acquire r
      in if pos = UINT32_MAX then (False, r)
         else (True, req_ring_commit (r\<lparr>rr_slots := (rr_slots r)[unat pos := q]\<rparr>)))"

definition req_consume_obs :: "RequestRing \<Rightarrow> RolloutRequest option \<times> RequestRing" where
  "req_consume_obs r = snd (req_ring_consume r)"

abbreviation req_inv :: "RequestRing \<Rightarrow> bool" where
  "req_inv \<equiv> rep_linear 1024 rr_head rr_tail rr_slots"

abbreviation req_contents :: "RequestRing \<Rightarrow> RolloutRequest list" where
  "req_contents \<equiv> rep_contents rr_head rr_tail rr_slots"

lemma req_size_ok: "ring_size_ok 1024"
  by (rule ring_size_okI [of 10]) simp_all

lemma unat_req_mask: "unat (i AND (REQUEST_RING_SIZE - 1)) = unat i mod 1024"
  using unat_and_mask [of i 10] by (simp add: REQUEST_RING_SIZE_def)

lemma req_mask_not_max: "i AND (REQUEST_RING_SIZE - 1) \<noteq> UINT32_MAX"
proof
  assume "i AND (REQUEST_RING_SIZE - 1) = UINT32_MAX"
  then have "unat (i AND (REQUEST_RING_SIZE - 1)) = unat UINT32_MAX" by simp
  then show False unfolding unat_req_mask using mod_less_divisor [of 1024 "unat i"] by simp
qed

lemma unat_REQUEST_RING_SIZE [simp]: "unat REQUEST_RING_SIZE = 1024"
  by (simp add: REQUEST_RING_SIZE_def)

lemma req_submit_full: "unat (rr_tail r - rr_head r) = 1024 \<Longrightarrow> req_submit r q = (False, r)"
  using window_full [of "rr_tail r - rr_head r" REQUEST_RING_SIZE 1]
  by (simp add: req_submit_def req_ring_acquire_def)

lemma req_submit_room:
  "unat (rr_tail r - rr_head r) < 1024 \<Longrightarrow> req_submit r q =
     (True, r\<lparr>rr_slots := (rr_slots r)[unat (rr_tail r) mod 1024 := q], rr_tail := rr_tail r + 1\<rparr>)"
  using window_free [of "rr_tail r - rr_head r" 1 REQUEST_RING_SIZE] req_mask_not_max [of "rr_tail r"]
  by (simp add: req_submit_def req_ring_acquire_def req_ring_commit_def unat_req_mask)

lemma req_consume_ge: "rr_tail r \<le> rr_head r \<Longrightarrow> req_ring_consume r = (0, None, r)"
  by (simp add: req_ring_consume_def)

lemma req_consume_less:
  "rr_head r < rr_tail r \<Longrightarrow> req_ring_consume r =
     (1, Some (rr_slots r ! (unat (rr_head r) mod 1024)), r\<lparr>rr_head := rr_head r + 1\<rparr>)"
  by (simp add: req_ring_consume_def leD unat_req_mask)

interpretation reqq: nowrap_ring rr_head rr_tail rr_slots 1024 req_submit req_consume_obs
  by unfold_locales
    (auto simp: req_size_ok req_submit_full req_submit_room req_consume_obs_def
      req_consume_ge req_consume_less)

section \<open>Done ring\<close>

definition done_ring_record_overflow :: "u32 \<Rightarrow> u32" where
  "done_ring_record_overflow value = value + 1"

definition done_ring_push :: "DoneRing \<Rightarrow> RolloutDone \<Rightarrow> int \<times> DoneRing" where
  "done_ring_push r d =
     (let head = dr_head r; tail = dr_tail r
      in if REQUEST_RING_SIZE - (tail - head) < 1
         then (-1, r\<lparr>dr_overflow := done_ring_record_overflow (dr_overflow r)\<rparr>)
         else let pos = tail AND (REQUEST_RING_SIZE - 1)
              in (0, r\<lparr>dr_slots := (dr_slots r)[unat pos := d], dr_tail := tail + 1\<rparr>))"

definition done_ring_pop :: "DoneRing \<Rightarrow> int \<times> RolloutDone option \<times> DoneRing" where
  "done_ring_pop r =
     (let head = dr_head r; tail = dr_tail r
      in if head \<ge> tail then (0, None, r)
         else (1, Some (dr_slots r ! unat (head AND (REQUEST_RING_SIZE - 1))),
               r\<lparr>dr_head := head + 1\<rparr>))"

definition done_push_obs :: "DoneRing \<Rightarrow> RolloutDone \<Rightarrow> bool \<times> DoneRing" where
  "done_push_obs r d = (fst (done_ring_push r d) = 0, snd (done_ring_push r d))"

definition done_pop_obs :: "DoneRing \<Rightarrow> RolloutDone option \<times> DoneRing" where
  "done_pop_obs r = snd (done_ring_pop r)"

abbreviation done_inv :: "DoneRing \<Rightarrow> bool" where
  "done_inv \<equiv> rep_linear 1024 dr_head dr_tail dr_slots"

abbreviation done_contents :: "DoneRing \<Rightarrow> RolloutDone list" where
  "done_contents \<equiv> rep_contents dr_head dr_tail dr_slots"

lemma done_ring_push_full:
  "unat (dr_tail r - dr_head r) = 1024 \<Longrightarrow>
   done_ring_push r d = (-1, r\<lparr>dr_overflow := dr_overflow r + 1\<rparr>)"
  using window_full [of "dr_tail r - dr_head r" REQUEST_RING_SIZE 1]
  by (simp add: done_ring_push_def done_ring_record_overflow_def)

lemma done_ring_push_room:
  "unat (dr_tail r - dr_head r) < 1024 \<Longrightarrow> done_ring_push r d =
     (0, r\<lparr>dr_slots := (dr_slots r)[unat (dr_tail r) mod 1024 := d], dr_tail := dr_tail r + 1\<rparr>)"
  using window_free [of "dr_tail r - dr_head r" 1 REQUEST_RING_SIZE]
  by (simp add: done_ring_push_def unat_req_mask)

lemma done_ring_pop_ge: "dr_tail r \<le> dr_head r \<Longrightarrow> done_ring_pop r = (0, None, r)"
  by (simp add: done_ring_pop_def)

lemma done_ring_pop_less:
  "dr_head r < dr_tail r \<Longrightarrow> done_ring_pop r =
     (1, Some (dr_slots r ! (unat (dr_head r) mod 1024)), r\<lparr>dr_head := dr_head r + 1\<rparr>)"
  by (simp add: done_ring_pop_def leD unat_req_mask)

interpretation doneq: nowrap_ring dr_head dr_tail dr_slots 1024 done_push_obs done_pop_obs
  by unfold_locales
    (auto simp: req_size_ok done_push_obs_def done_pop_obs_def done_ring_push_full
      done_ring_push_room done_ring_pop_ge done_ring_pop_less)

interpretation donec: counted_ring dr_overflow done_push_obs done_pop_obs
  by unfold_locales
    (auto simp: done_push_obs_def done_pop_obs_def done_ring_push_def done_ring_pop_def
      done_ring_record_overflow_def split: if_splits)

section \<open>Properties\<close>

text \<open>
  The request and done rings are lossless bounded FIFOs of capacity 1024 until their
  producer counters reach \<open>UINT32_MAX\<close>, and the done ring's overflow counter grows by exactly
  the number of rejected notifications.
\<close>

theorem request_and_done_rings_fifo:
  assumes "req_inv q" and "rep_budget rr_tail (pushes ops) q"
    and "ring_run req_submit req_consume_obs ops q = (evs, q')"
    and "done_inv d" and "rep_budget dr_tail (pushes dops) d"
    and "ring_run done_push_obs done_pop_obs dops d = (devs, d')"
  shows "req_contents q @ accepted evs = delivered evs @ req_contents q' \<and>
    length (req_contents q') \<le> 1024 \<and>
    done_contents d @ accepted devs = delivered devs @ done_contents d' \<and>
    dr_overflow d' = dr_overflow d + of_nat (rejections devs)"
  using reqq.run_conserves [OF assms(1-3)] reqq.run_invar [OF assms(1-3)]
    doneq.run_conserves [OF assms(4-6)] donec.run_counts [OF assms(6)]
  by simp

definition request_ring_empty :: RequestRing where
  "request_ring_empty = \<lparr>rr_head = 0, rr_tail = 0, rr_slots = replicate 1024
     \<lparr>rq_request_id = 0, rq_max_tokens = 0, rq_kv_blocks = 0, rq_temperature = 0,
      rq_top_k = 0, rq_top_p = 0, rq_rng_seed = 0\<rparr>\<rparr>"

definition done_ring_empty :: DoneRing where
  "done_ring_empty = \<lparr>dr_head = 0, dr_tail = 0, dr_overflow = 0, dr_slots = replicate 1024
     \<lparr>dn_request_id = 0, dn_rollout_id = 0, dn_tokens_generated = 0, dn_reward = 0,
      dn_status = 0\<rparr>\<rparr>"

theorem request_and_done_rings_fifo_witness:
  "dr_overflow (snd (ring_run done_push_obs done_pop_obs [Pop] done_ring_empty)) = 0"
proof -
  obtain evs q' where run: "ring_run req_submit req_consume_obs [Pop] request_ring_empty = (evs, q')"
    by fastforce
  obtain devs d' where drun: "ring_run done_push_obs done_pop_obs [Pop] done_ring_empty = (devs, d')"
    by fastforce
  have inv: "req_inv request_ring_empty" "rep_budget rr_tail (pushes [Pop]) request_ring_empty"
    "done_inv done_ring_empty" "rep_budget dr_tail (pushes [Pop]) done_ring_empty"
    by (simp_all add: request_ring_empty_def done_ring_empty_def rep_linear_def rep_wf_def
        ring_wf_def rep_budget_def)
  have "devs = [Empty]"
    using drun done_ring_pop_ge [of done_ring_empty]
    by (simp add: done_pop_obs_def done_ring_empty_def)
  then show ?thesis
    using request_and_done_rings_fifo [OF inv(1,2) run inv(3,4) drun]
    unfolding drun by (simp add: done_ring_empty_def)
qed

text \<open>
  Both rings stop delivering once their counters wrap: from the empty request ring some run
  ends with a committed request that no later consume returns, and likewise for the done ring.
\<close>

theorem request_and_done_rings_stuck:
  "(\<exists>ops evs r'. ring_run req_submit req_consume_obs ops request_ring_empty = (evs, r') \<and>
      req_contents r' = [q] \<and>
      (\<forall>more. delivered (fst (ring_run req_submit req_consume_obs more r')) = [])) \<and>
   (\<exists>ops evs r'. ring_run done_push_obs done_pop_obs ops done_ring_empty = (evs, r') \<and>
      done_contents r' = [d] \<and>
      (\<forall>more. delivered (fst (ring_run done_push_obs done_pop_obs more r')) = []))"
  by (intro conjI reqq.reaches_stuck doneq.reaches_stuck)
    (simp_all add: rep_wf_def ring_wf_def request_ring_empty_def done_ring_empty_def)

end
