(* ===== verification/Reward_Ring.thy ===== *)
theory Reward_Ring
  imports Ring_Rep
begin

text \<open>
  The reward descriptor ring, \<^verbatim>\<open>include/reward.h\<close> and \<^verbatim>\<open>src/reward.c\<close>. Its naming is the
  reverse of the other rings: the producer advances \<open>prod.head\<close>, the consumer \<open>cons.tail\<close>; the
  other two counters of the \<open>RewardIndex\<close> structures are never used after the initial zeroing.
\<close>

section \<open>Records and operations\<close>

definition REWARD_RING_SIZE :: u32 where "REWARD_RING_SIZE = 1024"

record RewardDesc =
  rd_rollout_id :: u32
  rd_token_start :: u32
  rd_token_count :: u32
  rd_reward_model_id :: u32
  rd_reward :: f32_bits
  rd_flags :: u32

record RewardIndex =
  ri_head :: u32
  ri_tail :: u32

record RewardRing =
  rw_prod :: RewardIndex
  rw_cons :: RewardIndex
  rw_slots :: "RewardDesc list"

definition RewardDesc_zero :: RewardDesc where
  "RewardDesc_zero = \<lparr>rd_rollout_id = 0, rd_token_start = 0, rd_token_count = 0,
     rd_reward_model_id = 0, rd_reward = 0, rd_flags = 0\<rparr>"

definition reward_ring_init :: "RewardRing \<Rightarrow> RewardRing" where
  "reward_ring_init r = r\<lparr>rw_prod := \<lparr>ri_head = 0, ri_tail = 0\<rparr>,
     rw_cons := \<lparr>ri_head = 0, ri_tail = 0\<rparr>,
     rw_slots := replicate (unat REWARD_RING_SIZE) RewardDesc_zero\<rparr>"

definition reward_push :: "RewardRing \<Rightarrow> RewardDesc \<Rightarrow> int \<times> RewardRing" where
  "reward_push r d =
     (let h = ri_head (rw_prod r); t = ri_tail (rw_cons r)
      in if REWARD_RING_SIZE - (h - t) < 1 then (-1, r)
         else let pos = h AND (REWARD_RING_SIZE - 1)
              in (0, r\<lparr>rw_slots := (rw_slots r)[unat pos := d],
                       rw_prod := (rw_prod r)\<lparr>ri_head := h + 1\<rparr>\<rparr>))"

definition reward_pop :: "RewardRing \<Rightarrow> int \<times> RewardDesc option \<times> RewardRing" where
  "reward_pop r =
     (let t = ri_tail (rw_cons r); h = ri_head (rw_prod r)
      in if t \<ge> h then (-1, None, r)
         else (0, Some (rw_slots r ! unat (t AND (REWARD_RING_SIZE - 1))),
               r\<lparr>rw_cons := (rw_cons r)\<lparr>ri_tail := t + 1\<rparr>\<rparr>))"

text \<open>\<open>reward_score_mock\<close> divides an exact small integer by 255; this is that integer.\<close>

definition reward_score_numerator :: "u32 \<Rightarrow> u32" where
  "reward_score_numerator n = n AND 0xFF"

definition reward_push_obs :: "RewardRing \<Rightarrow> RewardDesc \<Rightarrow> bool \<times> RewardRing" where
  "reward_push_obs r d = (fst (reward_push r d) = 0, snd (reward_push r d))"

definition reward_pop_obs :: "RewardRing \<Rightarrow> RewardDesc option \<times> RewardRing" where
  "reward_pop_obs r = snd (reward_pop r)"

section \<open>The ring as a bounded queue\<close>

abbreviation rw_cons_of :: "RewardRing \<Rightarrow> u32" where "rw_cons_of r \<equiv> ri_tail (rw_cons r)"
abbreviation rw_prod_of :: "RewardRing \<Rightarrow> u32" where "rw_prod_of r \<equiv> ri_head (rw_prod r)"

abbreviation reward_inv :: "RewardRing \<Rightarrow> bool" where
  "reward_inv \<equiv> rep_linear 1024 rw_cons_of rw_prod_of rw_slots"

abbreviation reward_contents :: "RewardRing \<Rightarrow> RewardDesc list" where
  "reward_contents \<equiv> rep_contents rw_cons_of rw_prod_of rw_slots"

lemma reward_size_ok: "ring_size_ok 1024"
  by (rule ring_size_okI [of 10]) simp_all

lemma unat_reward_mask: "unat (i AND (REWARD_RING_SIZE - 1)) = unat i mod 1024"
  using unat_and_mask [of i 10] by (simp add: REWARD_RING_SIZE_def)

lemma unat_REWARD_RING_SIZE [simp]: "unat REWARD_RING_SIZE = 1024"
  by (simp add: REWARD_RING_SIZE_def)

lemma reward_push_full:
  "unat (rw_prod_of r - rw_cons_of r) = 1024 \<Longrightarrow> reward_push r d = (-1, r)"
  using window_full [of "rw_prod_of r - rw_cons_of r" REWARD_RING_SIZE 1]
  by (simp add: reward_push_def)

lemma reward_push_room:
  "unat (rw_prod_of r - rw_cons_of r) < 1024 \<Longrightarrow> reward_push r d =
     (0, r\<lparr>rw_slots := (rw_slots r)[unat (rw_prod_of r) mod 1024 := d],
           rw_prod := (rw_prod r)\<lparr>ri_head := rw_prod_of r + 1\<rparr>\<rparr>)"
  using window_free [of "rw_prod_of r - rw_cons_of r" 1 REWARD_RING_SIZE]
  by (simp add: reward_push_def unat_reward_mask)

lemma reward_pop_ge: "rw_prod_of r \<le> rw_cons_of r \<Longrightarrow> reward_pop r = (-1, None, r)"
  by (simp add: reward_pop_def)

lemma reward_pop_less:
  "rw_cons_of r < rw_prod_of r \<Longrightarrow> reward_pop r =
     (0, Some (rw_slots r ! (unat (rw_cons_of r) mod 1024)),
      r\<lparr>rw_cons := (rw_cons r)\<lparr>ri_tail := rw_cons_of r + 1\<rparr>\<rparr>)"
  by (simp add: reward_pop_def leD unat_reward_mask)

interpretation rewq: nowrap_ring rw_cons_of rw_prod_of rw_slots 1024 reward_push_obs reward_pop_obs
  by unfold_locales
    (auto simp: reward_size_ok reward_push_obs_def reward_pop_obs_def reward_push_full
      reward_push_room reward_pop_ge reward_pop_less)

lemma reward_ring_init_inv [simp]: "reward_inv (reward_ring_init r)" and
  reward_ring_init_contents [simp]: "reward_contents (reward_ring_init r) = []" and
  reward_ring_init_budget [simp]: "rep_budget rw_prod_of n (reward_ring_init r) \<longleftrightarrow> n < 2 ^ 32"
  by (simp_all add: reward_ring_init_def rep_linear_def rep_wf_def ring_wf_def rep_budget_def)

section \<open>Properties\<close>

text \<open>
  An initialised reward ring is a lossless bounded FIFO of capacity 1024 for the first
  \<open>2 ^ 32 - 1\<close> pushes, whatever memory it was initialised over.
\<close>

theorem reward_ring_fifo:
  assumes "pushes ops < 2 ^ 32"
    and "ring_run reward_push_obs reward_pop_obs ops (reward_ring_init r) = (evs, r')"
  shows "accepted evs = delivered evs @ reward_contents r' \<and>
    length (reward_contents r') \<le> 1024 \<and>
    ring_run (spec_push 1024) spec_pop ops [] = (evs, reward_contents r')"
  using rewq.run_conserves [OF reward_ring_init_inv _ assms(2)]
    rewq.run_invar [OF reward_ring_init_inv _ assms(2)]
    rewq.run_refines [OF reward_ring_init_inv _ assms(2)] assms(1)
  by simp

definition reward_ring_dirty :: RewardRing where
  "reward_ring_dirty = \<lparr>rw_prod = \<lparr>ri_head = 7, ri_tail = 9\<rparr>, rw_cons = \<lparr>ri_head = 1, ri_tail = 3\<rparr>,
     rw_slots = []\<rparr>"

theorem reward_ring_fifo_witness:
  "reward_contents (snd (ring_run reward_push_obs reward_pop_obs [Push RewardDesc_zero]
     (reward_ring_init reward_ring_dirty))) = [RewardDesc_zero]"
proof -
  obtain evs r' where run: "ring_run reward_push_obs reward_pop_obs [Push RewardDesc_zero]
      (reward_ring_init reward_ring_dirty) = (evs, r')" by fastforce
  show ?thesis using reward_ring_fifo [OF _ run] unfolding run by simp
qed

text \<open>
  After \<open>2 ^ 32\<close> pushes the reward ring is stuck: some run from an initialised ring ends
  with a stored reward descriptor that no later pop returns, because \<open>reward_pop\<close> tests
  \<open>t >= h\<close> on the wrapped counters.
\<close>

theorem reward_ring_stuck_after_wrap:
  "\<exists>ops evs r'. ring_run reward_push_obs reward_pop_obs ops (reward_ring_init r) = (evs, r') \<and>
     reward_contents r' = [d] \<and>
     (\<forall>more. delivered (fst (ring_run reward_push_obs reward_pop_obs more r')) = [])"
  by (intro rewq.reaches_stuck) (simp_all add: rep_wf_def ring_wf_def reward_ring_init_def)

end
