(* ===== verification/Rollout.thy ===== *)
theory Rollout
  imports Bitmap
begin

text \<open>
  Rollout records, their life cycle and the slab that owns them: \<^verbatim>\<open>include/rollout.h\<close> and
  \<^verbatim>\<open>src/rollout.c\<close>. A set bit of \<open>free_bitmap\<close> marks a free slot. The state of a rollout changes
  by compare-and-swap along the edges of a fixed graph.
\<close>

section \<open>State and operations\<close>

definition MAX_ROLLOUTS :: u32 where "MAX_ROLLOUTS = 8192"

datatype rollout_state_t =
    ROLL_FREE
  | ROLL_PREFILL_READY
  | ROLL_DECODING
  | ROLL_REWARD_PENDING
  | ROLL_TRAJECTORY_READY
  | ROLL_DONE

fun roll_code :: "rollout_state_t \<Rightarrow> u32" where
  "roll_code ROLL_FREE = 0"
| "roll_code ROLL_PREFILL_READY = 1"
| "roll_code ROLL_DECODING = 2"
| "roll_code ROLL_REWARD_PENDING = 3"
| "roll_code ROLL_TRAJECTORY_READY = 4"
| "roll_code ROLL_DONE = 5"

record rollout_t =
  ro_rollout_id :: u32
  ro_state :: u32
  ro_kv_arena_id :: u32
  ro_kv_block_idx :: i64
  ro_seq_len :: u32
  ro_max_tokens :: u32
  ro_reward_id :: u32
  ro_flags :: u32
  ro_rng_seed :: u64
  ro_pad :: u32

definition rollout_zero :: rollout_t where
  "rollout_zero = \<lparr>ro_rollout_id = 0, ro_state = 0, ro_kv_arena_id = 0, ro_kv_block_idx = 0,
     ro_seq_len = 0, ro_max_tokens = 0, ro_reward_id = 0, ro_flags = 0, ro_rng_seed = 0,
     ro_pad = 0\<rparr>"

record rollout_slab_t =
  sl_slots :: "rollout_t list"
  sl_free_bitmap :: "u64 list"

definition slab_words :: nat where
  "slab_words = (unat MAX_ROLLOUTS + 63) div 64"

definition rollout_slab_init :: "rollout_slab_t \<Rightarrow> rollout_slab_t" where
  "rollout_slab_init slab =
     (let slots = map (\<lambda>i. rollout_zero\<lparr>ro_rollout_id := of_nat i, ro_state := roll_code ROLL_FREE\<rparr>)
                    [0..<unat MAX_ROLLOUTS];
          bm = replicate slab_words (NOT 0);
          r = unat MAX_ROLLOUTS mod 64; k = unat MAX_ROLLOUTS div 64
      in slab\<lparr>sl_slots := slots,
              sl_free_bitmap := (if r \<noteq> 0 then bm[k := bm ! k AND (push_bit r 1 - 1)] else bm)\<rparr>)"

definition rollout_alloc :: "rollout_slab_t \<Rightarrow> int \<times> u32 option \<times> rollout_slab_t" where
  "rollout_alloc slab =
     (case bitmap_scan 0 (take slab_words (sl_free_bitmap slab)) of
        Some (w, b) \<Rightarrow>
          let i = (of_nat (w * 64 + b) :: u32);
              bm = (sl_free_bitmap slab)[w := sl_free_bitmap slab ! w AND NOT (push_bit b 1)];
              r = rollout_zero\<lparr>ro_rollout_id := i, ro_state := roll_code ROLL_FREE\<rparr>
          in (0, Some i, slab\<lparr>sl_free_bitmap := bm, sl_slots := (sl_slots slab)[unat i := r]\<rparr>)
      | None \<Rightarrow> (-1, None, slab))"

definition rollout_free :: "rollout_slab_t \<Rightarrow> u32 \<Rightarrow> rollout_slab_t" where
  "rollout_free slab i =
     (if i \<ge> MAX_ROLLOUTS then slab
      else let r = (sl_slots slab ! unat i)\<lparr>ro_state := roll_code ROLL_FREE\<rparr>;
               w = unat (i div 64); b = unat (i mod 64)
           in slab\<lparr>sl_slots := (sl_slots slab)[unat i := r],
                   sl_free_bitmap := (sl_free_bitmap slab)
                     [w := sl_free_bitmap slab ! w OR push_bit b 1]\<rparr>)"

text \<open>The slot whose address \<open>rollout_get\<close> returns.\<close>

definition rollout_get :: "rollout_slab_t \<Rightarrow> u32 \<Rightarrow> rollout_t option" where
  "rollout_get slab i = (if i \<ge> MAX_ROLLOUTS then None else Some (sl_slots slab ! unat i))"

fun rollout_is_valid_transition :: "rollout_state_t \<Rightarrow> rollout_state_t \<Rightarrow> bool" where
  "rollout_is_valid_transition ROLL_FREE to = (to = ROLL_PREFILL_READY)"
| "rollout_is_valid_transition ROLL_PREFILL_READY to = (to = ROLL_DECODING)"
| "rollout_is_valid_transition ROLL_DECODING to = (to = ROLL_REWARD_PENDING \<or> to = ROLL_DONE)"
| "rollout_is_valid_transition ROLL_REWARD_PENDING to =
     (to = ROLL_TRAJECTORY_READY \<or> to = ROLL_DECODING)"
| "rollout_is_valid_transition ROLL_TRAJECTORY_READY to = (to = ROLL_DONE)"
| "rollout_is_valid_transition ROLL_DONE to = (to = ROLL_FREE)"

definition rollout_transition ::
  "rollout_t \<Rightarrow> rollout_state_t \<Rightarrow> rollout_state_t \<Rightarrow> int \<times> rollout_t" where
  "rollout_transition r from to =
     (if \<not> rollout_is_valid_transition from to then (-1, r)
      else let expected = roll_code from
           in if ro_state r = expected then (0, r\<lparr>ro_state := roll_code to\<rparr>) else (-1, r))"

section \<open>The slab as an id allocator\<close>

definition slab_wf :: "rollout_slab_t \<Rightarrow> bool" where
  "slab_wf s \<longleftrightarrow> length (sl_free_bitmap s) = 128 \<and> length (sl_slots s) = 8192 \<and>
     (\<forall>i < 8192. ro_rollout_id (sl_slots s ! i) = of_nat i)"

definition slab_free :: "rollout_slab_t \<Rightarrow> nat set" where
  "slab_free s = bits_of (sl_free_bitmap s)"

definition slab_alloc_obs :: "rollout_slab_t \<Rightarrow> nat option \<times> rollout_slab_t" where
  "slab_alloc_obs s = (let (c, i, s') = rollout_alloc s in (map_option unat i, s'))"

definition slab_release_obs :: "rollout_slab_t \<Rightarrow> nat \<Rightarrow> rollout_slab_t" where
  "slab_release_obs s i = rollout_free s (of_nat i)"

lemma slab_words_num [simp]: "slab_words = 128"
  by (simp add: slab_words_def MAX_ROLLOUTS_def)

lemma slab_free_below: "slab_wf s \<Longrightarrow> slab_free s \<subseteq> {..<8192}"
  by (auto simp: slab_wf_def slab_free_def dest: bits_of_bound)

lemma rollout_alloc_none:
  "slab_wf s \<Longrightarrow> slab_free s = {} \<Longrightarrow> rollout_alloc s = (-1, None, s)"
  using bitmap_scan_empty [of "sl_free_bitmap s"]
  by (simp add: rollout_alloc_def slab_wf_def slab_free_def)

lemma rollout_alloc_least:
  assumes wf: "slab_wf s" and ne: "slab_free s \<noteq> {}"
  shows "\<exists>s'. rollout_alloc s = (0, Some (of_nat (Min (slab_free s))), s') \<and> slab_wf s' \<and>
    slab_free s' = slab_free s - {Min (slab_free s)} \<and> Min (slab_free s) < 8192 \<and>
    sl_slots s' = (sl_slots s)[Min (slab_free s) :=
      rollout_zero\<lparr>ro_rollout_id := of_nat (Min (slab_free s)), ro_state := roll_code ROLL_FREE\<rparr>]"
proof -
  let ?m = "Min (slab_free s)"
  have "bitmap_scan 0 (sl_free_bitmap s) \<noteq> None"
    using ne by (simp add: bitmap_scan_empty slab_free_def)
  then obtain w b where scan: "bitmap_scan 0 (sl_free_bitmap s) = Some (w, b)" by auto
  note least = bitmap_scan_least [OF scan, folded slab_free_def]
  have bound: "?m < 8192" using least(3,4) slab_free_below [OF wf] by auto
  then have unat: "unat (of_nat ?m :: u32) = ?m" by (simp add: unat_of_nat)
  have bits: "bits_of ((sl_free_bitmap s)[w := sl_free_bitmap s ! w AND NOT (push_bit b 1)]) =
      slab_free s - {?m}"
    using bits_of_clear [OF least(1,2)] least(4) by (simp add: slab_free_def)
  let ?s = "s\<lparr>sl_free_bitmap := (sl_free_bitmap s)[w := sl_free_bitmap s ! w AND NOT (push_bit b 1)],
    sl_slots := (sl_slots s)[?m := rollout_zero\<lparr>ro_rollout_id := of_nat ?m,
      ro_state := roll_code ROLL_FREE\<rparr>]\<rparr>"
  have "take 128 (sl_free_bitmap s) = sl_free_bitmap s" using wf by (simp add: slab_wf_def)
  then have "rollout_alloc s = (0, Some (of_nat ?m), ?s)"
    unfolding rollout_alloc_def slab_words_num
    by (simp only: scan option.case prod.case Let_def least(4) unat)
  moreover have "slab_wf ?s"
    using wf bound by (simp add: slab_wf_def nth_list_update del: Min_in)
  moreover have "slab_free ?s = bits_of (sl_free_bitmap ?s)" by (rule slab_free_def)
  then have "slab_free ?s = slab_free s - {?m}" using bits by simp
  ultimately show ?thesis using bound by simp
qed

lemma rollout_free_in_range:
  assumes "slab_wf s" "i < 8192"
  shows "slab_wf (rollout_free s (of_nat i)) \<and>
    slab_free (rollout_free s (of_nat i)) = insert i (slab_free s)"
proof -
  have unat: "unat (of_nat i :: u32) = i" using assms(2) by (simp add: unat_of_nat)
  have in_range: "\<not> MAX_ROLLOUTS \<le> of_nat i"
    using assms(2) unat by (simp add: MAX_ROLLOUTS_def word_le_nat_alt)
  have parts: "unat (of_nat i div 64 :: u32) = i div 64" "unat (of_nat i mod 64 :: u32) = i mod 64"
    using unat by (simp_all add: unat_div_distrib unat_mod_distrib)
  have w: "i div 64 < length (sl_free_bitmap s)" "i mod 64 < 64"
    using assms by (simp_all add: slab_wf_def less_mult_imp_div_less)
  have "bits_of ((sl_free_bitmap s)[i div 64 := sl_free_bitmap s ! (i div 64) OR
      push_bit (i mod 64) 1]) = insert i (bits_of (sl_free_bitmap s))"
    using bits_of_set [OF w] by simp
  then show ?thesis
    using assms in_range
    by (auto simp: rollout_free_def unat parts slab_wf_def slab_free_def nth_list_update)
qed

interpretation slab: id_allocator slab_wf slab_free 8192 slab_alloc_obs slab_release_obs
proof unfold_locales
  fix s :: rollout_slab_t
  assume wf: "slab_wf s"
  show "slab_free s \<subseteq> {..<8192}" by (rule slab_free_below [OF wf])
  show "slab_alloc_obs s = (None, s)" if "slab_free s = {}"
    using rollout_alloc_none [OF wf that] by (simp add: slab_alloc_obs_def)
  show "r = Some (Min (slab_free s)) \<and> slab_wf s' \<and> slab_free s' = slab_free s - {Min (slab_free s)}"
    if ne: "slab_free s \<noteq> {}" and "slab_alloc_obs s = (r, s')" for r s'
  proof -
    obtain s1 where "rollout_alloc s = (0, Some (of_nat (Min (slab_free s))), s1)" "slab_wf s1"
      "slab_free s1 = slab_free s - {Min (slab_free s)}" and b: "Min (slab_free s) < 8192"
      using rollout_alloc_least [OF wf ne] by blast
    moreover have "unat (of_nat (Min (slab_free s)) :: u32) = Min (slab_free s)"
      using b by (simp add: unat_of_nat)
    ultimately show ?thesis using that(2) by (simp add: slab_alloc_obs_def)
  qed
  show "slab_wf (slab_release_obs s i) \<and> slab_free (slab_release_obs s i) = insert i (slab_free s)"
    if "i < 8192" for i
    unfolding slab_release_obs_def by (rule rollout_free_in_range [OF wf that])
qed

lemma rollout_slab_init_wf: "slab_wf (rollout_slab_init s)" and
  rollout_slab_init_free: "slab_free (rollout_slab_init s) = {0..<8192}"
  by (simp_all add: rollout_slab_init_def slab_wf_def slab_free_def MAX_ROLLOUTS_def
      atLeast0LessThan del: replicate_Suc)

section \<open>The life cycle of a rollout\<close>

lemma roll_code_inj [simp]: "roll_code s = roll_code t \<longleftrightarrow> s = t"
  by (cases s; cases t) simp_all

lemma valid_transition_irrefl [simp]: "\<not> rollout_is_valid_transition s s"
  by (cases s) simp_all

text \<open>
  Threads that race on one rollout: every element of the list is one call of
  \<open>rollout_transition\<close>; the result lists the return codes.
\<close>

fun roll_race ::
  "(rollout_state_t \<times> rollout_state_t) list \<Rightarrow> rollout_t \<Rightarrow> int list \<times> rollout_t" where
  "roll_race [] r = ([], r)"
| "roll_race ((from, to) # calls) r =
     (let (c, r1) = rollout_transition r from to; (cs, r2) = roll_race calls r1 in (c # cs, r2))"

text \<open>The states a rollout goes through: the target of every call that returned 0.\<close>

fun roll_trace :: "(rollout_state_t \<times> rollout_state_t) list \<Rightarrow> rollout_t \<Rightarrow> rollout_state_t list" where
  "roll_trace [] r = []"
| "roll_trace ((from, to) # calls) r =
     (let (c, r1) = rollout_transition r from to
      in if c = 0 then to # roll_trace calls r1 else roll_trace calls r1)"

fun valid_path :: "rollout_state_t \<Rightarrow> rollout_state_t list \<Rightarrow> bool" where
  "valid_path s [] = True"
| "valid_path s (t # ts) = (rollout_is_valid_transition s t \<and> valid_path t ts)"

text \<open>
  The specification of the life cycle, as a language that does not mention the table of the code. A life starts with a prefill; then the rollout
  decodes, any number of times scores a reward and goes on decoding, and ends either directly or with a last reward whose trajectory
  is recorded; then its slot is free again. A history is a sequence of lives.
\<close>

inductive decode_phase :: "rollout_state_t list \<Rightarrow> bool" where
  ends: "decode_phase [ROLL_DONE]"
| records: "decode_phase [ROLL_REWARD_PENDING, ROLL_TRAJECTORY_READY, ROLL_DONE]"
| continues: "decode_phase w \<Longrightarrow> decode_phase (ROLL_REWARD_PENDING # ROLL_DECODING # w)"

inductive histories :: "rollout_state_t list \<Rightarrow> bool" where
  no_life: "histories []"
| life: "decode_phase w \<Longrightarrow> histories h \<Longrightarrow> histories (ROLL_PREFILL_READY # ROLL_DECODING # w @ ROLL_FREE # h)"

text \<open>What can still happen to a rollout in a given state.\<close>

fun future :: "rollout_state_t \<Rightarrow> rollout_state_t list \<Rightarrow> bool" where
  "future ROLL_FREE w = histories w"
| "future ROLL_PREFILL_READY w = (\<exists>v h. decode_phase v \<and> histories h \<and> w = ROLL_DECODING # v @ ROLL_FREE # h)"
| "future ROLL_DECODING w = (\<exists>v h. decode_phase v \<and> histories h \<and> w = v @ ROLL_FREE # h)"
| "future ROLL_REWARD_PENDING w = (\<exists>v h. (v = [ROLL_TRAJECTORY_READY, ROLL_DONE] \<or> (\<exists>u. decode_phase u \<and> v = ROLL_DECODING # u)) \<and>
     histories h \<and> w = v @ ROLL_FREE # h)"
| "future ROLL_TRAJECTORY_READY w = (\<exists>h. histories h \<and> w = ROLL_DONE # ROLL_FREE # h)"
| "future ROLL_DONE w = (\<exists>h. histories h \<and> w = ROLL_FREE # h)"

lemma future_step:
  assumes "rollout_is_valid_transition s t" "future t w"
  shows "future s (t # w)"
proof (cases s)
  case ROLL_FREE
  then show ?thesis using assms by (auto intro: life)
next
  case ROLL_PREFILL_READY
  then show ?thesis using assms by auto
next
  case ROLL_DECODING
  then consider "t = ROLL_REWARD_PENDING" | "t = ROLL_DONE" using assms(1) by auto
  then show ?thesis
  proof cases
    case 1
    then obtain v h where v: "v = [ROLL_TRAJECTORY_READY, ROLL_DONE] \<or> (\<exists>u. decode_phase u \<and> v = ROLL_DECODING # u)"
      and h: "histories h" "w = v @ ROLL_FREE # h" using assms(2) by auto
    have "decode_phase (ROLL_REWARD_PENDING # v)" using v by (auto intro: decode_phase.intros)
    then have "future ROLL_DECODING ((ROLL_REWARD_PENDING # v) @ ROLL_FREE # h)" using h(1) by auto
    then show ?thesis using ROLL_DECODING 1 h(2) by simp
  next
    case 2
    then obtain h where "histories h" "w = ROLL_FREE # h" using assms(2) by auto
    then have "future ROLL_DECODING ([ROLL_DONE] @ ROLL_FREE # h)" using ends by auto
    then show ?thesis using ROLL_DECODING 2 \<open>w = ROLL_FREE # h\<close> by simp
  qed
next
  case ROLL_REWARD_PENDING
  then consider "t = ROLL_TRAJECTORY_READY" | "t = ROLL_DECODING" using assms(1) by auto
  then show ?thesis
  proof cases
    case 1
    then obtain h where "histories h" "w = ROLL_DONE # ROLL_FREE # h" using assms(2) by auto
    then show ?thesis using ROLL_REWARD_PENDING 1 by auto
  next
    case 2
    then obtain v h where "decode_phase v" "histories h" "w = v @ ROLL_FREE # h" using assms(2) by auto
    then show ?thesis using ROLL_REWARD_PENDING 2 by (intro future.simps(4)[THEN iffD2, of "t # w", folded ROLL_REWARD_PENDING] exI[of _ "ROLL_DECODING # v"] exI[of _ h]) auto
  qed
qed (use assms in auto)

lemma future_exists: "\<exists>w. future s w"
proof (cases s)
  case ROLL_REWARD_PENDING
  have "future ROLL_REWARD_PENDING ([ROLL_TRAJECTORY_READY, ROLL_DONE] @ ROLL_FREE # [])" using no_life by auto
  then show ?thesis using ROLL_REWARD_PENDING by blast
qed (use no_life ends in auto)

lemma rollout_transition_cases:
  "rollout_transition r from to =
     (if rollout_is_valid_transition from to \<and> ro_state r = roll_code from
      then (0, r\<lparr>ro_state := roll_code to\<rparr>) else (-1, r))"
  by (simp add: rollout_transition_def)

lemma roll_trace_valid:
  "ro_state r = roll_code s \<Longrightarrow> valid_path s (roll_trace calls r) \<and>
     ro_state (snd (roll_race calls r)) = roll_code (last (s # roll_trace calls r))"
proof (induction calls arbitrary: r s)
  case Nil
  then show ?case by simp
next
  case (Cons call calls)
  obtain "from" to where call: "call = (from, to)" by fastforce
  show ?case
  proof (cases "rollout_is_valid_transition from to \<and> from = s")
    case True
    let ?r = "r\<lparr>ro_state := roll_code to\<rparr>"
    have "rollout_transition r from to = (0, ?r)"
      using True Cons.prems by (auto simp: rollout_transition_cases)
    then show ?thesis
      using Cons.IH [of ?r to] True by (auto simp: call case_prod_unfold)
  next
    case False
    then have "rollout_transition r from to = (-1, r)"
      using Cons.prems by (auto simp: rollout_transition_cases)
    then show ?thesis
      using Cons.IH [OF Cons.prems] by (simp add: call case_prod_unfold)
  qed
qed

lemma roll_race_losers:
  "ro_state r \<noteq> roll_code from \<Longrightarrow>
   roll_race (map (Pair from) tos) r = (replicate (length tos) (-1), r)"
  by (induction tos) (simp_all add: rollout_transition_cases)

section \<open>Properties\<close>

text \<open>
  C20. The rollout slab is a sound id allocator: in every sequence of allocations and frees a
  slot that is in use is never handed out again, allocation fails only when all 8192 slots are
  in use, and every slot keeps its own index as its \<open>rollout_id\<close>.
\<close>

theorem rollout_slab_allocation_sound:
  assumes "slab_wf s" and "releases_below 8192 ops"
    and "alloc_run slab_alloc_obs slab_release_obs ops s = (evs, s')"
  shows "sound_history 8192 ({..<8192} - slab_free s) evs \<and> slab_wf s' \<and>
    {..<8192} - slab_free s' = live_after ({..<8192} - slab_free s) evs"
  using slab.run_sound [OF assms] .

definition slab_garbage :: rollout_slab_t where
  "slab_garbage = \<lparr>sl_slots = [], sl_free_bitmap = []\<rparr>"

theorem rollout_slab_allocation_sound_witness:
  "sound_history 8192 {} (fst (alloc_run slab_alloc_obs slab_release_obs [Alloc, Release 0, Alloc]
     (rollout_slab_init slab_garbage)))"
proof -
  obtain evs s' where run: "alloc_run slab_alloc_obs slab_release_obs [Alloc, Release 0, Alloc]
      (rollout_slab_init slab_garbage) = (evs, s')" by fastforce
  have empty: "{..<8192} - slab_free (rollout_slab_init slab_garbage) = {}"
    unfolding rollout_slab_init_free by (simp only: atLeast0LessThan Diff_cancel)
  show ?thesis
    using rollout_slab_allocation_sound [OF rollout_slab_init_wf _ run] unfolding run empty by simp
qed

text \<open>
  A fresh allocation is clean and local: the slot that \<open>rollout_alloc\<close> returns can be read
  back through \<open>rollout_get\<close>, carries its own id, is in state FREE with every other field zero
  whatever it held before, and no other slot is touched. Freeing it makes the id allocatable
  again.
\<close>

theorem rollout_alloc_clean:
  assumes "slab_wf s" and "rollout_alloc s = (0, Some i, s')"
  shows "rollout_get s' i = Some (rollout_zero\<lparr>ro_rollout_id := i, ro_state := roll_code ROLL_FREE\<rparr>) \<and>
    (\<forall>j. j \<noteq> i \<longrightarrow> rollout_get s' j = rollout_get s j) \<and>
    unat i \<in> slab_free s \<and> unat i \<notin> slab_free s' \<and> unat i \<in> slab_free (rollout_free s' i)"
proof -
  let ?m = "Min (slab_free s)"
  have ne: "slab_free s \<noteq> {}" using rollout_alloc_none [OF assms(1)] assms(2) by auto
  then have m: "?m \<in> slab_free s" using slab.finite_free [OF assms(1)] by (intro Min_in)
  obtain i: "i = of_nat ?m" and wf: "slab_wf s'" and free: "slab_free s' = slab_free s - {?m}"
    and bound: "?m < 8192" and slots: "sl_slots s' = (sl_slots s)[?m := rollout_zero
      \<lparr>ro_rollout_id := of_nat ?m, ro_state := roll_code ROLL_FREE\<rparr>]"
    using rollout_alloc_least [OF assms(1) ne] assms(2) by auto
  have unat: "unat i = ?m" using bound i by (simp add: unat_of_nat)
  have len: "length (sl_slots s) = 8192" using assms(1) by (simp add: slab_wf_def)
  have "\<not> MAX_ROLLOUTS \<le> i" using unat bound by (simp add: MAX_ROLLOUTS_def word_le_nat_alt)
  then have "rollout_get s' i = Some (rollout_zero\<lparr>ro_rollout_id := i, ro_state := roll_code ROLL_FREE\<rparr>)"
    unfolding rollout_get_def unat slots i [symmetric] using bound len by simp
  moreover have "rollout_get s' j = rollout_get s j" if "j \<noteq> i" for j
  proof -
    have "unat j \<noteq> ?m" using that unat by (metis word_unat_eq_iff)
    then show ?thesis by (simp add: rollout_get_def slots)
  qed
  moreover have "unat i \<in> slab_free (rollout_free s' i)"
    using rollout_free_in_range [OF wf bound] unat i by simp
  ultimately show ?thesis using m free unat by simp
qed

theorem rollout_alloc_clean_witness:
  "\<exists>s'. rollout_alloc (rollout_slab_init slab_garbage) = (0, Some 0, s') \<and>
     rollout_get s' 0 = Some rollout_zero"
proof -
  have Min: "Min {0..<8192 :: nat} = 0" by (intro Min_eqI) simp_all
  have "slab_free (rollout_slab_init slab_garbage) \<noteq> {}" unfolding rollout_slab_init_free by simp
  from rollout_alloc_least [OF rollout_slab_init_wf this] obtain s' where
    alloc: "rollout_alloc (rollout_slab_init slab_garbage) = (0, Some 0, s')"
    unfolding rollout_slab_init_free Min by auto
  show ?thesis
    using rollout_alloc_clean [OF rollout_slab_init_wf alloc] alloc by (simp add: rollout_zero_def)
qed

lemma roll_trace_history: "ro_state r = roll_code s \<Longrightarrow> \<exists>w. future s (roll_trace calls r @ w)"
proof (induction calls arbitrary: r s)
  case Nil
  then show ?case using future_exists by simp
next
  case (Cons call calls)
  obtain "from" to where call: "call = (from, to)" by fastforce
  show ?case
  proof (cases "rollout_is_valid_transition from to \<and> from = s")
    case True
    let ?r = "r\<lparr>ro_state := roll_code to\<rparr>"
    have t: "rollout_transition r from to = (0, ?r)" using True Cons.prems by (auto simp: rollout_transition_cases)
    from Cons.IH [of ?r to] obtain w where "future to (roll_trace calls ?r @ w)" by auto
    then have "future s (to # roll_trace calls ?r @ w)" using future_step True by blast
    then show ?thesis using t by (auto simp: call)
  next
    case False
    then have "rollout_transition r from to = (-1, r)" using Cons.prems roll_code_inj by (auto simp: rollout_transition_cases)
    then show ?thesis using Cons.IH [OF Cons.prems] by (simp add: call)
  qed
qed

lemma valid_path_append: "valid_path s (v @ w) \<longleftrightarrow> valid_path s v \<and> valid_path (last (s # v)) w"
  by (induction v arbitrary: s) auto

lemma decode_phase_path: "decode_phase w \<Longrightarrow> valid_path ROLL_DECODING w \<and> last (ROLL_DECODING # w) = ROLL_DONE"
  by (induction rule: decode_phase.induct) auto

lemma histories_path: "histories h \<Longrightarrow> valid_path ROLL_FREE h"
proof (induction rule: histories.induct)
  case (life w h)
  then show ?case using decode_phase_path [of w] by (auto simp: valid_path_append split: if_splits)
qed simp

lemma path_traced: "valid_path s ts \<Longrightarrow> ro_state r = roll_code s \<Longrightarrow> roll_trace (zip (s # ts) ts) r = ts"
proof (induction ts arbitrary: s r)
  case (Cons t ts)
  then show ?case by (simp add: rollout_transition_cases)
qed simp

text \<open>
  C21. \<open>rollout_transition\<close> enforces exactly the life cycle of a rollout. Whatever calls are made on a free rollout, in whatever order and with
  whatever arguments, the states it goes through are the beginning of a history: prefill, decoding, any number of rewards with further decoding, the
  end or a recorded trajectory and the end, and only then a new life; its final state is the last of them. And every history can be
  gone through.
\<close>

theorem rollout_lifecycle:
  assumes "ro_state r = roll_code ROLL_FREE"
  shows "(\<exists>rest. histories (roll_trace calls r @ rest)) \<and>
    ro_state (snd (roll_race calls r)) = roll_code (last (ROLL_FREE # roll_trace calls r)) \<and>
    (\<forall>h. histories h \<longrightarrow> (\<exists>calls. roll_trace calls r = h))"
  using roll_trace_history [OF assms, of calls] roll_trace_valid [OF assms, of calls] path_traced [OF histories_path assms] by auto

theorem rollout_lifecycle_witness:
  "\<exists>rest. histories (roll_trace [(ROLL_FREE, ROLL_PREFILL_READY), (ROLL_FREE, ROLL_DONE),
      (ROLL_PREFILL_READY, ROLL_DECODING), (ROLL_DECODING, ROLL_TRAJECTORY_READY)] rollout_zero @ rest) \<and>
   roll_trace [(ROLL_FREE, ROLL_PREFILL_READY), (ROLL_FREE, ROLL_DONE),
      (ROLL_PREFILL_READY, ROLL_DECODING), (ROLL_DECODING, ROLL_TRAJECTORY_READY)] rollout_zero = [ROLL_PREFILL_READY, ROLL_DECODING]"
proof -
  have free: "ro_state rollout_zero = roll_code ROLL_FREE" by (simp add: rollout_zero_def)
  have trace: "roll_trace [(ROLL_FREE, ROLL_PREFILL_READY), (ROLL_FREE, ROLL_DONE),
      (ROLL_PREFILL_READY, ROLL_DECODING), (ROLL_DECODING, ROLL_TRAJECTORY_READY)] rollout_zero = [ROLL_PREFILL_READY, ROLL_DECODING]"
    by (simp add: rollout_transition_cases rollout_zero_def)
  from rollout_lifecycle [OF free] show ?thesis using trace by metis
qed

text \<open>
  Compare-and-swap arbitration: when several threads try to move the same rollout out of
  the state it is in, exactly one of them succeeds, namely the first, all others get -1, and
  the winner's target is the final state.
\<close>

theorem rollout_transition_one_winner:
  assumes "ro_state r = roll_code from" and "\<forall>to \<in> set (t # ts). rollout_is_valid_transition from to"
  shows "roll_race (map (Pair from) (t # ts)) r =
    (0 # replicate (length ts) (-1), r\<lparr>ro_state := roll_code t\<rparr>)"
proof -
  have "rollout_is_valid_transition from t" using assms(2) by simp
  moreover from this have "t \<noteq> from" using valid_transition_irrefl by blast
  ultimately show ?thesis
    using assms(1) roll_race_losers [of "r\<lparr>ro_state := roll_code t\<rparr>" "from" ts]
    by (simp add: rollout_transition_cases)
qed

theorem rollout_transition_one_winner_witness:
  "fst (roll_race (map (Pair ROLL_DECODING) [ROLL_DONE, ROLL_REWARD_PENDING, ROLL_DONE])
     (rollout_zero\<lparr>ro_state := 2\<rparr>)) = [0, -1, -1]"
  using rollout_transition_one_winner [of "rollout_zero\<lparr>ro_state := 2\<rparr>" ROLL_DECODING ROLL_DONE
      "[ROLL_REWARD_PENDING, ROLL_DONE]"]
  by simp

end
