(* ===== verification/KV_Prefix.thy ===== *)
theory KV_Prefix
  imports Bitmap
begin

text \<open>
  Shared KV prefixes and copy-on-write branches: \<^verbatim>\<open>include/kv_prefix.h\<close>, \<^verbatim>\<open>src/kv_prefix.c\<close> and
  the device-side lookup of \<^verbatim>\<open>cu/kv_prefix.cu\<close>. A prefix is reference counted by the clients
  that registered or acquired it and by the branches that were allocated on it.
\<close>

section \<open>State and operations\<close>

definition MAX_PREFIXES :: u32 where "MAX_PREFIXES = 512"
definition MAX_BRANCHES :: u32 where "MAX_BRANCHES = 8192 * 2"

record KVPrefix =
  px_prefix_id :: u32
  px_refcnt :: u32
  px_kv_block_offset :: i64
  px_token_len :: u32
  px_kv_block_count :: u32
  px_flags :: u32

record KVBranch =
  br_branch_id :: u32
  br_rollout_id :: u32
  br_prefix_id :: u32
  br_delta_kv_offset :: i64
  br_delta_len :: u32
  br_delta_block_count :: u32
  br_state :: u32
  br_flags :: u32

record KVPrefixTable =
  kt_prefixes :: "KVPrefix list"
  kt_prefix_bitmap :: "u64 list"
  kt_branches :: "KVBranch list"
  kt_branch_bitmap :: "u64 list"
  kt_next_branch_id :: u32

definition KVPrefix_zero :: KVPrefix where
  "KVPrefix_zero = \<lparr>px_prefix_id = 0, px_refcnt = 0, px_kv_block_offset = 0, px_token_len = 0,
     px_kv_block_count = 0, px_flags = 0\<rparr>"

definition KVBranch_zero :: KVBranch where
  "KVBranch_zero = \<lparr>br_branch_id = 0, br_rollout_id = 0, br_prefix_id = 0, br_delta_kv_offset = 0,
     br_delta_len = 0, br_delta_block_count = 0, br_state = 0, br_flags = 0\<rparr>"

definition prefix_words :: nat where "prefix_words = (unat MAX_PREFIXES + 63) div 64"
definition branch_words :: nat where "branch_words = (unat MAX_BRANCHES + 63) div 64"

text \<open>All bits set, less the bits beyond \<open>n\<close> in the last word when \<open>n\<close> is not a multiple of 64.\<close>

definition bitmap_ones :: "nat \<Rightarrow> nat \<Rightarrow> u64 list" where
  "bitmap_ones n words =
     (let bm = replicate words (NOT 0); k = n div 64
      in if n mod 64 \<noteq> 0 then bm[k := bm ! k AND (push_bit (n mod 64) 1 - 1)] else bm)"

definition kv_prefix_table_init :: "KVPrefixTable \<Rightarrow> KVPrefixTable" where
  "kv_prefix_table_init t = t\<lparr>kt_prefixes := replicate (unat MAX_PREFIXES) KVPrefix_zero,
     kt_prefix_bitmap := bitmap_ones (unat MAX_PREFIXES) prefix_words,
     kt_branches := replicate (unat MAX_BRANCHES) KVBranch_zero,
     kt_branch_bitmap := bitmap_ones (unat MAX_BRANCHES) branch_words,
     kt_next_branch_id := 0\<rparr>"

definition bitmap_alloc :: "u64 list \<Rightarrow> nat \<Rightarrow> nat \<Rightarrow> int \<times> u32 option \<times> u64 list" where
  "bitmap_alloc bitmap n_words n_total =
     (case bitmap_scan 0 (take n_words bitmap) of
        Some (w, b) \<Rightarrow>
          let i = (of_nat (w * 64 + b) :: u32)
          in (0, Some i, bitmap[w := bitmap ! w AND NOT (push_bit b 1)])
      | None \<Rightarrow> (-1, None, bitmap))"

definition bitmap_free :: "u64 list \<Rightarrow> u32 \<Rightarrow> u64 list" where
  "bitmap_free bitmap i =
     (let w = unat (i div 64); b = unat (i mod 64)
      in bitmap[w := bitmap ! w OR push_bit b 1])"

definition kv_prefix_register ::
  "KVPrefixTable \<Rightarrow> i64 \<Rightarrow> u32 \<Rightarrow> u32 \<Rightarrow> int \<times> u32 option \<times> KVPrefixTable" where
  "kv_prefix_register t kv_offset token_len nblocks =
     (case bitmap_alloc (kt_prefix_bitmap t) prefix_words (unat MAX_PREFIXES) of
        (c, None, bm) \<Rightarrow> (-1, None, t)
      | (c, Some i, bm) \<Rightarrow>
          let p = \<lparr>px_prefix_id = i, px_refcnt = 1, px_kv_block_offset = kv_offset,
                   px_token_len = token_len, px_kv_block_count = nblocks, px_flags = 0\<rparr>
          in (0, Some i, t\<lparr>kt_prefix_bitmap := bm, kt_prefixes := (kt_prefixes t)[unat i := p]\<rparr>))"

definition kv_prefix_acquire :: "KVPrefixTable \<Rightarrow> u32 \<Rightarrow> int \<times> KVPrefixTable" where
  "kv_prefix_acquire t prefix_id =
     (if prefix_id \<ge> MAX_PREFIXES then (-1, t)
      else let p = kt_prefixes t ! unat prefix_id
           in if px_refcnt p = 0 then (-1, t)
              else (0, t\<lparr>kt_prefixes := (kt_prefixes t)
                      [unat prefix_id := p\<lparr>px_refcnt := px_refcnt p + 1\<rparr>]\<rparr>))"

definition kv_prefix_release :: "KVPrefixTable \<Rightarrow> u32 \<Rightarrow> int \<times> KVPrefixTable" where
  "kv_prefix_release t prefix_id =
     (if prefix_id \<ge> MAX_PREFIXES then (-1, t)
      else let p = kt_prefixes t ! unat prefix_id
           in if px_refcnt p = 0 then (-1, t)
              else let p1 = p\<lparr>px_refcnt := px_refcnt p - 1\<rparr>
                   in if px_refcnt p1 = 0
                      then (0, t\<lparr>kt_prefixes := (kt_prefixes t)
                               [unat prefix_id := p1\<lparr>px_kv_block_offset := -1, px_token_len := 0\<rparr>],
                             kt_prefix_bitmap := bitmap_free (kt_prefix_bitmap t) prefix_id\<rparr>)
                      else (0, t\<lparr>kt_prefixes := (kt_prefixes t)[unat prefix_id := p1]\<rparr>))"

definition kv_prefix_get :: "KVPrefixTable \<Rightarrow> u32 \<Rightarrow> KVPrefix option" where
  "kv_prefix_get t prefix_id =
     (if prefix_id \<ge> MAX_PREFIXES then None else Some (kt_prefixes t ! unat prefix_id))"

definition kv_branch_alloc ::
  "KVPrefixTable \<Rightarrow> u32 \<Rightarrow> u32 \<Rightarrow> i64 \<Rightarrow> u32 \<Rightarrow> u32 \<Rightarrow> int \<times> u32 option \<times> KVPrefixTable" where
  "kv_branch_alloc t rollout_id prefix_id delta_kv_offset delta_len delta_blocks =
     (case bitmap_alloc (kt_branch_bitmap t) branch_words (unat MAX_BRANCHES) of
        (c, None, bm) \<Rightarrow> (-1, None, t)
      | (c, Some i, bm) \<Rightarrow>
          let b = \<lparr>br_branch_id = i, br_rollout_id = rollout_id, br_prefix_id = prefix_id,
                   br_delta_kv_offset = delta_kv_offset, br_delta_len = delta_len,
                   br_delta_block_count = delta_blocks, br_state = 0, br_flags = 0\<rparr>;
              t1 = t\<lparr>kt_branch_bitmap := bm, kt_branches := (kt_branches t)[unat i := b]\<rparr>;
              t2 = snd (kv_prefix_acquire t1 prefix_id)
          in (0, Some i, t2))"

definition kv_branch_free :: "KVPrefixTable \<Rightarrow> u32 \<Rightarrow> int \<times> KVPrefixTable" where
  "kv_branch_free t branch_id =
     (if branch_id \<ge> MAX_BRANCHES then (-1, t)
      else let b = kt_branches t ! unat branch_id;
               t1 = snd (kv_prefix_release t (br_prefix_id b));
               b1 = b\<lparr>br_rollout_id := UINT32_MAX\<rparr>
           in (0, t1\<lparr>kt_branches := (kt_branches t1)[unat branch_id := b1],
                     kt_branch_bitmap := bitmap_free (kt_branch_bitmap t1) branch_id\<rparr>))"

definition kv_branch_get :: "KVPrefixTable \<Rightarrow> u32 \<Rightarrow> KVBranch option" where
  "kv_branch_get t branch_id =
     (if branch_id \<ge> MAX_BRANCHES then None else Some (kt_branches t ! unat branch_id))"

definition kv_branch_total_offset :: "KVPrefixTable \<Rightarrow> u32 \<Rightarrow> i64" where
  "kv_branch_total_offset t branch_id =
     (if branch_id \<ge> MAX_BRANCHES then -1
      else let b = kt_branches t ! unat branch_id
           in case kv_prefix_get t (br_prefix_id b) of
                None \<Rightarrow> br_delta_kv_offset b
              | Some p \<Rightarrow> px_kv_block_offset p)"

definition d_kv_branch_total_offset :: "KVPrefixTable \<Rightarrow> u32 \<Rightarrow> i64" where
  "d_kv_branch_total_offset t branch_id =
     (if branch_id \<ge> MAX_BRANCHES then -1
      else let b = kt_branches t ! unat branch_id
           in if br_prefix_id b \<ge> MAX_PREFIXES then br_delta_kv_offset b
              else let p = kt_prefixes t ! unat (br_prefix_id b)
                   in if px_refcnt p = 0 then br_delta_kv_offset b else px_kv_block_offset p)"

section \<open>The two bitmaps as id allocators\<close>

definition bm_alloc_obs :: "nat \<Rightarrow> u64 list \<Rightarrow> nat option \<times> u64 list" where
  "bm_alloc_obs n bm = (let (c, i, bm') = bitmap_alloc bm n (64 * n) in (map_option unat i, bm'))"

definition bm_release_obs :: "u64 list \<Rightarrow> nat \<Rightarrow> u64 list" where
  "bm_release_obs bm i = bitmap_free bm (of_nat i)"

lemma kv_consts [simp]: "prefix_words = 8" "branch_words = 256" "unat MAX_PREFIXES = 512"
  "unat MAX_BRANCHES = 16384"
  by (simp_all add: prefix_words_def branch_words_def MAX_PREFIXES_def MAX_BRANCHES_def)

lemma kv_limits: "MAX_PREFIXES \<le> i \<longleftrightarrow> 512 \<le> unat i" "MAX_BRANCHES \<le> i \<longleftrightarrow> 16384 \<le> unat i"
  by (simp_all add: word_le_nat_alt)

lemma bitmap_alloc_none:
  "length bm = n \<Longrightarrow> bits_of bm = {} \<Longrightarrow> bitmap_alloc bm n m = (-1, None, bm)"
  using bitmap_scan_empty [of bm] by (simp add: bitmap_alloc_def)

lemma bitmap_alloc_least:
  assumes "length bm = n" "64 * n < 2 ^ 32" "bits_of bm \<noteq> {}"
  shows "\<exists>i bm'. bitmap_alloc bm n m = (0, Some i, bm') \<and> unat i = Min (bits_of bm) \<and>
    unat i \<in> bits_of bm \<and> unat i < 64 * n \<and> length bm' = n \<and> bits_of bm' = bits_of bm - {unat i}"
proof -
  have "bitmap_scan 0 bm \<noteq> None" using assms(3) by (simp add: bitmap_scan_empty)
  then obtain w b where scan: "bitmap_scan 0 bm = Some (w, b)" by auto
  note least = bitmap_scan_least [OF scan]
  have bound: "w * 64 + b < 64 * n" using bits_of_bound [OF least(3)] assms(1) by simp
  then have "w * 64 + b < 2 ^ 32" using assms(2) by linarith
  then have unat: "unat (of_nat (w * 64 + b) :: u32) = w * 64 + b"
    by (simp add: unat_of_nat del: of_nat_add of_nat_mult)
  have "bitmap_alloc bm n m = (0, Some (of_nat (w * 64 + b)), bm[w := bm ! w AND NOT (push_bit b 1)])"
    using scan assms(1) by (simp add: bitmap_alloc_def)
  then show ?thesis
    using unat bound least bits_of_clear [OF least(1,2)] assms(1)
    by (metis length_list_update)
qed

lemma bitmap_free_bits:
  assumes "unat i < 64 * length bm"
  shows "length (bitmap_free bm i) = length bm \<and> bits_of (bitmap_free bm i) = insert (unat i) (bits_of bm)"
proof -
  have w: "unat i div 64 < length bm" "unat i mod 64 < 64"
    using assms by (simp_all add: less_mult_imp_div_less mult.commute)
  show ?thesis
    using bits_of_set [OF w] by (simp add: bitmap_free_def unat_div_distrib unat_mod_distrib)
qed

lemma bitmap_id_allocator:
  assumes "64 * n < 2 ^ 32"
  shows "id_allocator (\<lambda>bm. length bm = n) bits_of (64 * n) (bm_alloc_obs n) bm_release_obs"
proof
  fix s :: "u64 list"
  assume len: "length s = n"
  show "bits_of s \<subseteq> {..<64 * n}" using len bits_of_bound by auto
  show "bm_alloc_obs n s = (None, s)" if "bits_of s = {}"
    using bitmap_alloc_none [OF len that] by (simp add: bm_alloc_obs_def)
  show "r = Some (Min (bits_of s)) \<and> length s' = n \<and> bits_of s' = bits_of s - {Min (bits_of s)}"
    if ne: "bits_of s \<noteq> {}" and "bm_alloc_obs n s = (r, s')" for r s'
  proof -
    obtain i bm' where "bitmap_alloc s n (64 * n) = (0, Some i, bm')" "unat i = Min (bits_of s)"
      "length bm' = n" "bits_of bm' = bits_of s - {unat i}"
      using bitmap_alloc_least [OF len assms ne, of "64 * n"] by blast
    then show ?thesis using that(2) by (simp add: bm_alloc_obs_def)
  qed
  show "length (bm_release_obs s i) = n \<and> bits_of (bm_release_obs s i) = insert i (bits_of s)"
    if "i < 64 * n" for i
  proof -
    have "unat (of_nat i :: u32) = i" using that assms by (simp add: unat_of_nat)
    then show ?thesis using bitmap_free_bits [of "of_nat i" s] len that by (simp add: bm_release_obs_def)
  qed
qed

interpretation pfx_ids: id_allocator "\<lambda>bm. length bm = 8" bits_of "64 * 8" "bm_alloc_obs 8" bm_release_obs
  by (rule bitmap_id_allocator) simp

interpretation branch_ids: id_allocator "\<lambda>bm. length bm = 256" bits_of "64 * 256" "bm_alloc_obs 256"
  bm_release_obs
  by (rule bitmap_id_allocator) simp

section \<open>Reference accounting\<close>

text \<open>
  A client follows the protocol when it releases only references it holds, allocates branches
  only on prefixes that are alive, frees each branch once and takes fewer than \<open>2 ^ 32\<close> references to a prefix.
  The conditions of \<open>kv_step\<close> beyond the success of the call are this protocol: the code checks none of them, and
  \<open>kv_live_branch_prefix_alive\<close> and \<open>kv_dead_prefix_branch_steals_reference\<close> say what happens without them. \<open>own p\<close> counts the references to
  prefix \<open>p\<close> held directly by clients, through \<open>kv_prefix_register\<close> and \<open>kv_prefix_acquire\<close>.
\<close>

definition live_branches :: "KVPrefixTable \<Rightarrow> nat set" where
  "live_branches t = {..<16384} - bits_of (kt_branch_bitmap t)"

definition branches_on :: "KVPrefixTable \<Rightarrow> nat \<Rightarrow> nat set" where
  "branches_on t p = {b \<in> live_branches t. unat (br_prefix_id (kt_branches t ! b)) = p}"

abbreviation refcnt :: "KVPrefixTable \<Rightarrow> nat \<Rightarrow> u32" where
  "refcnt t p \<equiv> px_refcnt (kt_prefixes t ! p)"

definition kv_wf :: "KVPrefixTable \<Rightarrow> bool" where
  "kv_wf t \<longleftrightarrow> length (kt_prefixes t) = 512 \<and> length (kt_prefix_bitmap t) = 8 \<and>
     length (kt_branches t) = 16384 \<and> length (kt_branch_bitmap t) = 256"

definition kv_inv :: "KVPrefixTable \<Rightarrow> (nat \<Rightarrow> nat) \<Rightarrow> bool" where
  "kv_inv t own \<longleftrightarrow> kv_wf t \<and>
     (\<forall>p < 512. p \<in> bits_of (kt_prefix_bitmap t) \<longleftrightarrow> refcnt t p = 0) \<and>
     (\<forall>p < 512. unat (refcnt t p) = own p + card (branches_on t p)) \<and>
     (\<forall>b \<in> live_branches t. unat (br_prefix_id (kt_branches t ! b)) < 512)"

inductive kv_step :: "KVPrefixTable \<times> (nat \<Rightarrow> nat) \<Rightarrow> KVPrefixTable \<times> (nat \<Rightarrow> nat) \<Rightarrow> bool" where
  step_register: "kv_prefix_register t off len n = (0, Some i, t') \<Longrightarrow>
     kv_step (t, own) (t', own(unat i := Suc (own (unat i))))"
| step_acquire: "kv_prefix_acquire t i = (0, t') \<Longrightarrow> refcnt t (unat i) \<noteq> UINT32_MAX \<Longrightarrow>
     kv_step (t, own) (t', own(unat i := Suc (own (unat i))))"
| step_release: "kv_prefix_release t i = (0, t') \<Longrightarrow> 0 < own (unat i) \<Longrightarrow>
     kv_step (t, own) (t', own(unat i := own (unat i) - 1))"
| step_branch: "kv_branch_alloc t ro i d dl db = (0, Some b, t') \<Longrightarrow> unat i < 512 \<Longrightarrow>
     refcnt t (unat i) \<noteq> 0 \<Longrightarrow> refcnt t (unat i) \<noteq> UINT32_MAX \<Longrightarrow> kv_step (t, own) (t', own)"
| step_branch_free: "kv_branch_free t b = (0, t') \<Longrightarrow> unat b \<in> live_branches t \<Longrightarrow>
     kv_step (t, own) (t', own)"

inductive kv_reachable :: "KVPrefixTable \<times> (nat \<Rightarrow> nat) \<Rightarrow> bool" where
  kv_start: "kv_reachable (kv_prefix_table_init t, \<lambda>_. 0)"
| kv_next: "kv_reachable s \<Longrightarrow> kv_step s s' \<Longrightarrow> kv_reachable s'"

inductive_cases kv_stepE: "kv_step (t, own) (t', own')"

lemma unat_inc: "x \<noteq> UINT32_MAX \<Longrightarrow> unat (x + 1 :: u32) = Suc (unat x)"
proof -
  assume "x \<noteq> UINT32_MAX"
  then have "unat x \<noteq> unat UINT32_MAX" using word_unat_eq_iff [of x UINT32_MAX] by blast
  then have "unat x < 2 ^ 32 - 1" using unat_lt32 [of x] by simp
  then show ?thesis unfolding unat_add1 by simp
qed

lemma unat_dec: "x \<noteq> 0 \<Longrightarrow> Suc (unat (x - 1 :: u32)) = unat x"
  using unat_diff_pop [of 0 x] by simp

lemma finite_branches_on [simp]: "finite (branches_on t p)"
  by (simp add: branches_on_def live_branches_def)

text \<open>The effect of the operations on the three observations the invariant speaks of.\<close>

lemma register_effect:
  assumes "kv_wf t" "kv_prefix_register t off len n = (0, Some i, t')"
  shows "kv_wf t' \<and> unat i < 512 \<and> unat i \<in> bits_of (kt_prefix_bitmap t) \<and>
    bits_of (kt_prefix_bitmap t') = bits_of (kt_prefix_bitmap t) - {unat i} \<and>
    kt_prefixes t' = (kt_prefixes t)[unat i := \<lparr>px_prefix_id = i, px_refcnt = 1,
      px_kv_block_offset = off, px_token_len = len, px_kv_block_count = n, px_flags = 0\<rparr>] \<and>
    kt_branches t' = kt_branches t \<and> kt_branch_bitmap t' = kt_branch_bitmap t"
proof -
  let ?bm = "kt_prefix_bitmap t"
  have len: "length ?bm = 8" using assms(1) by (simp add: kv_wf_def)
  have ne: "bits_of ?bm \<noteq> {}"
    using assms(2) bitmap_alloc_none [OF len, of 512] by (auto simp: kv_prefix_register_def)
  obtain j bm' where a: "bitmap_alloc ?bm 8 512 = (0, Some j, bm')" and "unat j \<in> bits_of ?bm"
    "unat j < 64 * 8" "length bm' = 8" "bits_of bm' = bits_of ?bm - {unat j}"
    using bitmap_alloc_least [OF len _ ne, of 512] by auto
  moreover have "i = j" "t' = t\<lparr>kt_prefix_bitmap := bm', kt_prefixes := (kt_prefixes t)[unat j :=
      \<lparr>px_prefix_id = j, px_refcnt = 1, px_kv_block_offset = off, px_token_len = len,
       px_kv_block_count = n, px_flags = 0\<rparr>]\<rparr>"
    using assms(2) by (auto simp: kv_prefix_register_def a)
  ultimately show ?thesis using assms(1) by (simp add: kv_wf_def)
qed

lemma acquire_effect:
  assumes "kv_prefix_acquire t i = (0, t')"
  shows "unat i < 512 \<and> refcnt t (unat i) \<noteq> 0 \<and> t' = t\<lparr>kt_prefixes := (kt_prefixes t)
    [unat i := (kt_prefixes t ! unat i)\<lparr>px_refcnt := refcnt t (unat i) + 1\<rparr>]\<rparr>"
  using assms by (auto simp: kv_prefix_acquire_def kv_limits split: if_splits)

lemma release_effect:
  assumes "kv_wf t" "kv_prefix_release t i = (0, t')"
  shows "unat i < 512 \<and> refcnt t (unat i) \<noteq> 0 \<and> kv_wf t' \<and>
    refcnt t' (unat i) = refcnt t (unat i) - 1 \<and>
    (\<forall>p. p \<noteq> unat i \<longrightarrow> kt_prefixes t' ! p = kt_prefixes t ! p) \<and>
    (refcnt t (unat i) \<noteq> 1 \<longrightarrow>
      px_kv_block_offset (kt_prefixes t' ! unat i) = px_kv_block_offset (kt_prefixes t ! unat i)) \<and>
    bits_of (kt_prefix_bitmap t') = bits_of (kt_prefix_bitmap t) \<union>
      (if refcnt t (unat i) = 1 then {unat i} else {}) \<and>
    kt_branches t' = kt_branches t \<and> kt_branch_bitmap t' = kt_branch_bitmap t"
proof -
  have i: "unat i < 512" "refcnt t (unat i) \<noteq> 0"
    using assms(2) by (auto simp: kv_prefix_release_def kv_limits split: if_splits)
  have lens: "length (kt_prefixes t) = 512" "length (kt_prefix_bitmap t) = 8"
    using assms(1) by (simp_all add: kv_wf_def)
  then have bm: "length (bitmap_free (kt_prefix_bitmap t) i) = 8"
    "bits_of (bitmap_free (kt_prefix_bitmap t) i) = insert (unat i) (bits_of (kt_prefix_bitmap t))"
    using bitmap_free_bits [of i "kt_prefix_bitmap t"] i(1) by simp_all
  show ?thesis
  proof (cases "refcnt t (unat i) = 1")
    case True
    then have "t' = t\<lparr>kt_prefixes := (kt_prefixes t)[unat i := (kt_prefixes t ! unat i)
          \<lparr>px_refcnt := 0, px_kv_block_offset := -1, px_token_len := 0\<rparr>],
        kt_prefix_bitmap := bitmap_free (kt_prefix_bitmap t) i\<rparr>"
      using assms(2) i by (simp add: kv_prefix_release_def kv_limits)
    then show ?thesis using True assms(1) i lens bm by (simp add: kv_wf_def)
  next
    case False
    then have "t' = t\<lparr>kt_prefixes := (kt_prefixes t)[unat i := (kt_prefixes t ! unat i)
          \<lparr>px_refcnt := refcnt t (unat i) - 1\<rparr>]\<rparr>"
      using assms(2) i by (simp add: kv_prefix_release_def kv_limits)
    then show ?thesis using False assms(1) i lens by (simp add: kv_wf_def)
  qed
qed

lemma branch_alloc_effect:
  assumes "kv_wf t" "kv_branch_alloc t ro i d dl db = (0, Some b, t')"
  shows "\<exists>t1. kv_wf t1 \<and> t' = snd (kv_prefix_acquire t1 i) \<and> unat b < 16384 \<and>
    unat b \<notin> live_branches t \<and> live_branches t1 = insert (unat b) (live_branches t) \<and>
    kt_prefixes t1 = kt_prefixes t \<and> kt_prefix_bitmap t1 = kt_prefix_bitmap t \<and>
    kt_branches t1 = (kt_branches t)[unat b := \<lparr>br_branch_id = b, br_rollout_id = ro,
      br_prefix_id = i, br_delta_kv_offset = d, br_delta_len = dl, br_delta_block_count = db,
      br_state = 0, br_flags = 0\<rparr>]"
proof -
  let ?bm = "kt_branch_bitmap t"
  have len: "length ?bm = 256" using assms(1) by (simp add: kv_wf_def)
  have ne: "bits_of ?bm \<noteq> {}"
    using assms(2) bitmap_alloc_none [OF len, of 16384] by (auto simp: kv_branch_alloc_def)
  obtain j bm' where a: "bitmap_alloc ?bm 256 16384 = (0, Some j, bm')" and j: "unat j \<in> bits_of ?bm"
    "unat j < 64 * 256" "length bm' = 256" "bits_of bm' = bits_of ?bm - {unat j}"
    using bitmap_alloc_least [OF len _ ne, of 16384] by auto
  let ?b = "\<lparr>br_branch_id = j, br_rollout_id = ro, br_prefix_id = i, br_delta_kv_offset = d,
    br_delta_len = dl, br_delta_block_count = db, br_state = 0, br_flags = 0\<rparr>"
  let ?t = "t\<lparr>kt_branch_bitmap := bm', kt_branches := (kt_branches t)[unat j := ?b]\<rparr>"
  have "b = j" "t' = snd (kv_prefix_acquire ?t i)"
    using assms(2) by (auto simp: kv_branch_alloc_def a)
  moreover have "live_branches ?t = insert (unat j) (live_branches t)" "unat j \<notin> live_branches t"
    using j by (auto simp: live_branches_def)
  moreover have "kv_wf ?t" using assms(1) j(3) by (simp add: kv_wf_def)
  ultimately show ?thesis using j(2) by (intro exI [of _ ?t]) simp
qed

lemma branches_on_cong:
  assumes "kt_branches t' = kt_branches t" "kt_branch_bitmap t' = kt_branch_bitmap t"
  shows "live_branches t' = live_branches t" "branches_on t' p = branches_on t p"
  using assms by (simp_all add: branches_on_def live_branches_def)

lemma acquire_frame:
  "kt_branches (snd (kv_prefix_acquire t i)) = kt_branches t"
  "kt_branch_bitmap (snd (kv_prefix_acquire t i)) = kt_branch_bitmap t"
  "kt_prefix_bitmap (snd (kv_prefix_acquire t i)) = kt_prefix_bitmap t"
  "kv_wf (snd (kv_prefix_acquire t i)) = kv_wf t"
  by (simp_all add: kv_prefix_acquire_def kv_wf_def)

lemma acquire_refcnt:
  assumes "kv_wf t" "unat i < 512" "refcnt t (unat i) \<noteq> 0" "p < 512"
  shows "refcnt (snd (kv_prefix_acquire t i)) p = (if p = unat i then refcnt t p + 1 else refcnt t p)"
    and "px_kv_block_offset (kt_prefixes (snd (kv_prefix_acquire t i)) ! p) =
      px_kv_block_offset (kt_prefixes t ! p)"
  using assms by (simp_all add: kv_prefix_acquire_def kv_limits kv_wf_def nth_list_update)

lemma kv_invI:
  assumes "kv_wf t"
    and "\<And>p. p < 512 \<Longrightarrow> p \<in> bits_of (kt_prefix_bitmap t) \<longleftrightarrow> refcnt t p = 0"
    and "\<And>p. p < 512 \<Longrightarrow> unat (refcnt t p) = own p + card (branches_on t p)"
    and "\<And>b. b \<in> live_branches t \<Longrightarrow> unat (br_prefix_id (kt_branches t ! b)) < 512"
  shows "kv_inv t own"
  using assms by (simp add: kv_inv_def)

lemma kv_invD:
  assumes "kv_inv t own"
  shows "kv_wf t"
    and "p < 512 \<Longrightarrow> p \<in> bits_of (kt_prefix_bitmap t) \<longleftrightarrow> refcnt t p = 0"
    and "p < 512 \<Longrightarrow> unat (refcnt t p) = own p + card (branches_on t p)"
    and "b \<in> live_branches t \<Longrightarrow> unat (br_prefix_id (kt_branches t ! b)) < 512"
  using assms by (simp_all add: kv_inv_def)

lemma kv_inv_register:
  assumes inv: "kv_inv t own" and reg: "kv_prefix_register t off len n = (0, Some i, t')"
  shows "kv_inv t' (own(unat i := Suc (own (unat i))))"
proof -
  note wf = kv_invD(1) [OF inv]
  from register_effect [OF wf reg]
  have i: "unat i < 512" "unat i \<in> bits_of (kt_prefix_bitmap t)" and wf': "kv_wf t'"
    and bits: "bits_of (kt_prefix_bitmap t') = bits_of (kt_prefix_bitmap t) - {unat i}"
    and px: "kt_prefixes t' = (kt_prefixes t)[unat i := \<lparr>px_prefix_id = i, px_refcnt = 1,
      px_kv_block_offset = off, px_token_len = len, px_kv_block_count = n, px_flags = 0\<rparr>]"
    and br: "kt_branches t' = kt_branches t" "kt_branch_bitmap t' = kt_branch_bitmap t" by simp_all
  have ref: "refcnt t' p = (if p = unat i then 1 else refcnt t p)" if "p < 512" for p
    using that i wf by (simp add: px kv_wf_def nth_list_update)
  have zero: "refcnt t (unat i) = 0" using kv_invD(2) [OF inv i(1)] i(2) by simp
  then have "own (unat i) = 0" "branches_on t (unat i) = {}"
    using kv_invD(3) [OF inv i(1)] by simp_all
  then show ?thesis
    using kv_invD [OF inv]
    by (intro kv_invI [OF wf']) (auto simp: ref bits branches_on_cong [OF br] br(1))
qed

lemma kv_inv_acquire:
  assumes inv: "kv_inv t own" and acq: "kv_prefix_acquire t i = (0, t')"
    and "refcnt t (unat i) \<noteq> UINT32_MAX"
  shows "kv_inv t' (own(unat i := Suc (own (unat i))))"
proof -
  note wf = kv_invD(1) [OF inv]
  have t': "t' = snd (kv_prefix_acquire t i)" using acq by simp
  have i: "unat i < 512" "refcnt t (unat i) \<noteq> 0" using acquire_effect [OF acq] by simp_all
  have "refcnt t (unat i) + 1 \<noteq> 0" using unat_inc [OF assms(3)] by (auto simp: unat_eq_0)
  moreover note br = branches_on_cong [OF acquire_frame(1,2), of t i]
  ultimately show ?thesis
    unfolding t' using kv_invD [OF inv] wf i
    by (intro kv_invI)
      (auto simp: acquire_refcnt [OF wf i] acquire_frame br unat_inc [OF assms(3)])
qed

lemma kv_inv_release:
  assumes inv: "kv_inv t own" and rel: "kv_prefix_release t i = (0, t')" and "0 < own (unat i)"
  shows "kv_inv t' (own(unat i := own (unat i) - Suc 0))"
proof -
  from release_effect [OF kv_invD(1) [OF inv] rel]
  have i: "unat i < 512" "refcnt t (unat i) \<noteq> 0" and wf': "kv_wf t'"
    and ref_i: "refcnt t' (unat i) = refcnt t (unat i) - 1"
    and other: "\<And>p. p \<noteq> unat i \<Longrightarrow> kt_prefixes t' ! p = kt_prefixes t ! p"
    and bits: "bits_of (kt_prefix_bitmap t') = bits_of (kt_prefix_bitmap t) \<union>
      (if refcnt t (unat i) = 1 then {unat i} else {})"
    and br: "kt_branches t' = kt_branches t" "kt_branch_bitmap t' = kt_branch_bitmap t" by simp_all
  have dec: "Suc (unat (refcnt t (unat i) - 1)) = unat (refcnt t (unat i))"
    by (rule unat_dec [OF i(2)])
  show ?thesis
  proof (rule kv_invI [OF wf'])
    fix p :: nat assume p: "p < 512"
    show "p \<in> bits_of (kt_prefix_bitmap t') \<longleftrightarrow> refcnt t' p = 0"
      using kv_invD(2) [OF inv p] i(2) other [of p] ref_i by (cases "p = unat i") (auto simp: bits)
    show "unat (refcnt t' p) = (own(unat i := own (unat i) - Suc 0)) p + card (branches_on t' p)"
      using kv_invD(3) [OF inv p] dec other [of p] ref_i assms(3)
      by (cases "p = unat i") (simp_all add: branches_on_cong [OF br])
  next
    fix b assume "b \<in> live_branches t'"
    then show "unat (br_prefix_id (kt_branches t' ! b)) < 512"
      using kv_invD(4) [OF inv] by (simp add: branches_on_cong [OF br] br)
  qed
qed

lemma kv_inv_branch:
  assumes inv: "kv_inv t own" and alloc: "kv_branch_alloc t ro i d dl db = (0, Some b, t')"
    and i: "unat i < 512" "refcnt t (unat i) \<noteq> 0" and max: "refcnt t (unat i) \<noteq> UINT32_MAX"
  shows "kv_inv t' own"
proof -
  obtain t1 where wf1: "kv_wf t1" and t': "t' = snd (kv_prefix_acquire t1 i)"
    and b: "unat b < 16384" "unat b \<notin> live_branches t"
    and live: "live_branches t1 = insert (unat b) (live_branches t)"
    and px: "kt_prefixes t1 = kt_prefixes t" "kt_prefix_bitmap t1 = kt_prefix_bitmap t"
    and br: "kt_branches t1 = (kt_branches t)[unat b := \<lparr>br_branch_id = b, br_rollout_id = ro,
      br_prefix_id = i, br_delta_kv_offset = d, br_delta_len = dl, br_delta_block_count = db,
      br_state = 0, br_flags = 0\<rparr>]"
    using branch_alloc_effect [OF kv_invD(1) [OF inv] alloc] by blast
  have len: "length (kt_branches t) = 16384" using kv_invD(1) [OF inv] by (simp add: kv_wf_def)
  have pid: "br_prefix_id (kt_branches t1 ! x) = (if x = unat b then i else br_prefix_id (kt_branches t ! x))"
    for x using b(1) len by (simp add: br nth_list_update)
  have on: "branches_on t1 p = (if p = unat i then insert (unat b) (branches_on t p) else branches_on t p)"
    for p using b(2) by (auto simp: branches_on_def live pid)
  have fresh: "unat b \<notin> branches_on t p" for p using b(2) by (simp add: branches_on_def)
  have i1: "refcnt t1 (unat i) \<noteq> 0" using i(2) px by simp
  note ref = acquire_refcnt(1) [OF wf1 i(1) i1, unfolded px]
  have nz: "refcnt t (unat i) + 1 \<noteq> 0" using unat_inc [OF max] by (auto simp: unat_eq_0)
  show ?thesis
    unfolding t'
  proof (rule kv_invI)
    show "kv_wf (snd (kv_prefix_acquire t1 i))" using wf1 by (simp add: acquire_frame)
    fix p :: nat assume p: "p < 512"
    show "p \<in> bits_of (kt_prefix_bitmap (snd (kv_prefix_acquire t1 i))) \<longleftrightarrow>
        refcnt (snd (kv_prefix_acquire t1 i)) p = 0"
      using kv_invD(2) [OF inv p] i(2) nz by (simp add: acquire_frame px ref [OF p])
    show "unat (refcnt (snd (kv_prefix_acquire t1 i)) p) =
        own p + card (branches_on (snd (kv_prefix_acquire t1 i)) p)"
      using kv_invD(3) [OF inv p] ref [OF p]
      by (cases "p = unat i")
        (simp_all add: branches_on_cong [OF acquire_frame(1,2)] on fresh unat_inc [OF max])
  next
    fix x assume "x \<in> live_branches (snd (kv_prefix_acquire t1 i))"
    then have "x = unat b \<or> x \<in> live_branches t"
      by (simp add: branches_on_cong [OF acquire_frame(1,2)] live)
    then show "unat (br_prefix_id (kt_branches (snd (kv_prefix_acquire t1 i)) ! x)) < 512"
      using kv_invD(4) [OF inv] i(1) by (auto simp: acquire_frame pid)
  qed
qed

text \<open>Freeing a live branch drops the reference it holds and makes its id allocatable.\<close>

lemma branch_free_effect:
  assumes wf: "kv_wf t" and b: "unat b < 16384" and free: "kv_branch_free t b = (0, t')"
  shows "\<exists>t1. t1 = snd (kv_prefix_release t (br_prefix_id (kt_branches t ! unat b))) \<and>
    kt_prefixes t' = kt_prefixes t1 \<and> kt_prefix_bitmap t' = kt_prefix_bitmap t1 \<and>
    kt_branches t' = (kt_branches t1)[unat b := (kt_branches t ! unat b)\<lparr>br_rollout_id := UINT32_MAX\<rparr>] \<and>
    kt_branch_bitmap t' = bitmap_free (kt_branch_bitmap t1) b"
  using assms by (auto simp: kv_branch_free_def kv_limits)

lemma release_frame:
  "kt_branches (snd (kv_prefix_release t i)) = kt_branches t"
  "kt_branch_bitmap (snd (kv_prefix_release t i)) = kt_branch_bitmap t"
  by (simp_all add: kv_prefix_release_def)

lemma kv_inv_branch_free:
  assumes inv: "kv_inv t own" and free: "kv_branch_free t b = (0, t')" and b: "unat b \<in> live_branches t"
  shows "kv_inv t' own"
proof -
  let ?i = "br_prefix_id (kt_branches t ! unat b)"
  note wf = kv_invD(1) [OF inv]
  have i: "unat ?i < 512" by (rule kv_invD(4) [OF inv b])
  have on_i: "unat b \<in> branches_on t (unat ?i)" using b by (simp add: branches_on_def)
  then have pos: "0 < card (branches_on t (unat ?i))" by (auto simp: card_gt_0_iff)
  then have ref_pos: "refcnt t (unat ?i) \<noteq> 0" using kv_invD(3) [OF inv i] by auto
  have b_lt: "unat b < 16384" using b by (simp add: live_branches_def)
  obtain t1 where t1: "t1 = snd (kv_prefix_release t ?i)"
    and px': "kt_prefixes t' = kt_prefixes t1" "kt_prefix_bitmap t' = kt_prefix_bitmap t1"
    and br': "kt_branches t' = (kt_branches t1)[unat b := (kt_branches t ! unat b)\<lparr>br_rollout_id := UINT32_MAX\<rparr>]"
      "kt_branch_bitmap t' = bitmap_free (kt_branch_bitmap t1) b"
    using branch_free_effect [OF wf b_lt free] by blast
  have "fst (kv_prefix_release t ?i) = 0"
    using i ref_pos by (simp add: kv_prefix_release_def kv_limits)
  then have rel: "kv_prefix_release t ?i = (0, t1)" using t1 by (simp add: prod_eq_iff)
  note eff = release_effect [OF wf rel]
  have lens: "length (kt_branches t) = 16384" "length (kt_branch_bitmap t) = 256"
    using wf by (simp_all add: kv_wf_def)
  have bm: "length (kt_branch_bitmap t') = 256"
    "bits_of (kt_branch_bitmap t') = insert (unat b) (bits_of (kt_branch_bitmap t))"
    using bitmap_free_bits [of b "kt_branch_bitmap t"] b_lt lens
    by (simp_all add: br' t1 release_frame)
  have pid: "br_prefix_id (kt_branches t' ! x) = br_prefix_id (kt_branches t ! x)" for x
    using lens b_lt by (simp add: br' t1 release_frame nth_list_update)
  have live': "live_branches t' = live_branches t - {unat b}" by (auto simp: live_branches_def bm)
  have on: "branches_on t' p = branches_on t p - {unat b}" for p
    by (auto simp: branches_on_def live' pid)
  have dec: "Suc (unat (refcnt t (unat ?i) - 1)) = unat (refcnt t (unat ?i))"
    by (rule unat_dec [OF ref_pos])
  show ?thesis
  proof (rule kv_invI)
    show "kv_wf t'" using eff bm(1) lens by (simp add: kv_wf_def px' br')
    fix p :: nat assume p: "p < 512"
    show "p \<in> bits_of (kt_prefix_bitmap t') \<longleftrightarrow> refcnt t' p = 0"
      using kv_invD(2) [OF inv p] ref_pos eff by (cases "p = unat ?i") (auto simp: px')
    show "unat (refcnt t' p) = own p + card (branches_on t' p)"
    proof (cases "p = unat ?i")
      case True
      have "card (branches_on t p) = Suc (card (branches_on t' p))"
        using on_i True pos by (simp add: on)
      then show ?thesis using kv_invD(3) [OF inv p] dec eff True by (simp add: px')
    next
      case False
      then have "unat b \<notin> branches_on t p" by (simp add: branches_on_def)
      then show ?thesis using kv_invD(3) [OF inv p] eff False by (simp add: px' on)
    qed
  next
    fix x assume "x \<in> live_branches t'"
    then show "unat (br_prefix_id (kt_branches t' ! x)) < 512"
      using kv_invD(4) [OF inv] by (simp add: live' pid)
  qed
qed

lemma kv_inv_init: "kv_inv (kv_prefix_table_init t) (\<lambda>_. 0)"
proof (rule kv_invI)
  have bits: "bits_of (kt_branch_bitmap (kv_prefix_table_init t)) = {..<16384}"
    "bits_of (kt_prefix_bitmap (kv_prefix_table_init t)) = {..<512}"
    by (simp_all add: kv_prefix_table_init_def bitmap_ones_def)
  then have live: "live_branches (kv_prefix_table_init t) = {}"
    by (simp add: live_branches_def)
  show "kv_wf (kv_prefix_table_init t)"
    by (simp add: kv_wf_def kv_prefix_table_init_def bitmap_ones_def)
  show "p \<in> bits_of (kt_prefix_bitmap (kv_prefix_table_init t)) \<longleftrightarrow>
      refcnt (kv_prefix_table_init t) p = 0" if "p < 512" for p
    using that by (simp add: bits) (simp add: kv_prefix_table_init_def KVPrefix_zero_def)
  show "unat (refcnt (kv_prefix_table_init t) p) = 0 + card (branches_on (kv_prefix_table_init t) p)"
    if "p < 512" for p
    using that by (simp add: branches_on_def live)
      (simp add: kv_prefix_table_init_def KVPrefix_zero_def)
  show "unat (br_prefix_id (kt_branches (kv_prefix_table_init t) ! b)) < 512"
    if "b \<in> live_branches (kv_prefix_table_init t)" for b
    using that by (simp add: live)
qed

lemma kv_step_inv: "kv_step s s' \<Longrightarrow> kv_inv (fst s) (snd s) \<Longrightarrow> kv_inv (fst s') (snd s')"
  by (induction rule: kv_step.induct)
    (auto intro: kv_inv_register kv_inv_acquire kv_inv_release kv_inv_branch kv_inv_branch_free)

lemma kv_reachable_inv: "kv_reachable s \<Longrightarrow> kv_inv (fst s) (snd s)"
  by (induction rule: kv_reachable.induct) (auto intro: kv_inv_init kv_step_inv)

section \<open>Properties\<close>

text \<open>
  C7. Exact reference accounting: in every state that clients following the protocol can
  reach, the reference count of each prefix is the number of references clients hold plus the
  number of live branches on it, and a prefix id is allocatable exactly when its count is 0.
\<close>

theorem kv_refcount_exact:
  assumes "kv_reachable (t, own)" and "p < 512"
  shows "unat (refcnt t p) = own p + card (branches_on t p) \<and>
    (p \<in> bits_of (kt_prefix_bitmap t) \<longleftrightarrow> refcnt t p = 0)"
  using kv_reachable_inv [OF assms(1)] kv_invD(2,3) [OF _ assms(2)] by simp

text \<open>The first registration in a fresh table gets id 0.\<close>

definition kv_fresh :: KVPrefixTable where
  "kv_fresh = kv_prefix_table_init \<lparr>kt_prefixes = [], kt_prefix_bitmap = [], kt_branches = [],
     kt_branch_bitmap = [], kt_next_branch_id = 7\<rparr>"

lemma kv_fresh_reachable: "kv_reachable (kv_fresh, \<lambda>_. 0)"
  unfolding kv_fresh_def by (rule kv_start)

lemma kv_fresh_bitmaps: "kt_prefix_bitmap kv_fresh = replicate 8 (- 1)"
  "kt_branch_bitmap kv_fresh = replicate 256 (- 1)"
  by (simp_all add: kv_fresh_def kv_prefix_table_init_def bitmap_ones_def)

lemma bitmap_alloc_ones:
  assumes "0 < n" "64 * n < 2 ^ 32"
  shows "\<exists>bm'. bitmap_alloc (replicate n (- 1)) n m = (0, Some 0, bm') \<and> length bm' = n"
proof -
  have bits: "bits_of (replicate n (- 1)) = {..<64 * n}" by simp
  have "Min {..<64 * n} = 0" using assms(1) by (intro Min_eqI) simp_all
  moreover have "bits_of (replicate n (- 1)) \<noteq> {}" unfolding bits using assms(1) by (auto simp: lessThan_empty_iff)
  ultimately show ?thesis
    using bitmap_alloc_least [of "replicate n (- 1)" n m] assms unfolding bits
    by (auto simp: unat_eq_0)
qed

lemma kv_fresh_register: "\<exists>t'. kv_prefix_register kv_fresh off len n = (0, Some 0, t')"
  using bitmap_alloc_ones [of 8 512] by (auto simp: kv_prefix_register_def kv_fresh_bitmaps)

lemma kv_fresh_after_register:
  assumes "kv_prefix_register kv_fresh 5 6 7 = (0, Some 0, t)"
  shows "kv_reachable (t, (\<lambda>_. 0)(0 := 1))" "refcnt t 0 = 1" "kv_wf t"
    "kt_branch_bitmap t = replicate 256 (- 1)"
proof -
  have wf: "kv_wf kv_fresh" using kv_reachable_inv [OF kv_fresh_reachable] by (simp add: kv_inv_def)
  note eff = register_effect [OF wf assms]
  show "kv_reachable (t, (\<lambda>_. 0)(0 := 1))"
    using kv_next [OF kv_fresh_reachable step_register [OF assms, of "\<lambda>_. 0"]] by simp
  show "refcnt t 0 = 1" using eff wf by (simp add: kv_wf_def)
  show "kv_wf t" "kt_branch_bitmap t = replicate 256 (- 1)" using eff by (simp_all add: kv_fresh_bitmaps)
qed

theorem kv_refcount_exact_witness:
  "\<exists>t. kv_reachable (t, (\<lambda>_. 0)(0 := 1)) \<and> unat (refcnt t 0) = 1 + card (branches_on t 0)"
proof -
  obtain t where "kv_prefix_register kv_fresh 5 6 7 = (0, Some 0, t)" using kv_fresh_register by blast
  from kv_next [OF kv_fresh_reachable step_register [OF this, of "\<lambda>_. 0"]]
  have reach: "kv_reachable (t, (\<lambda>_. 0)(0 := 1))" by simp
  then show ?thesis using kv_refcount_exact [OF reach, of 0] by (intro exI [of _ t]) simp
qed

lemma branch_on_dead_prefix:
  assumes wf: "kv_wf t" and br: "kv_branch_alloc t ro i d dl db = (0, Some b, t')" and dead: "refcnt t (unat i) = 0"
  shows "unat b \<in> live_branches t' \<and> br_prefix_id (kt_branches t' ! unat b) = i \<and> refcnt t' (unat i) = 0 \<and>
    kt_prefix_bitmap t' = kt_prefix_bitmap t"
proof -
  obtain t1 where t1: "kv_wf t1" "t' = snd (kv_prefix_acquire t1 i)" "unat b < 16384" "live_branches t1 = insert (unat b) (live_branches t)"
    "kt_prefixes t1 = kt_prefixes t" "kt_prefix_bitmap t1 = kt_prefix_bitmap t"
    "kt_branches t1 = (kt_branches t)[unat b := \<lparr>br_branch_id = b, br_rollout_id = ro, br_prefix_id = i, br_delta_kv_offset = d,
      br_delta_len = dl, br_delta_block_count = db, br_state = 0, br_flags = 0\<rparr>]"
    using branch_alloc_effect [OF wf br] by blast
  have "t' = t1" using t1(2,5) dead by (simp add: kv_prefix_acquire_def)
  then show ?thesis using t1 dead wf by (simp add: kv_wf_def)
qed

text \<open>
  C24. No use after free of a shared prefix, for clients that keep the protocol of \<open>kv_step\<close> (a branch only on a referenced prefix, a release
  only of a reference one holds, a branch freed once): as long as a branch is live, its prefix is
  referenced and its id cannot be allocated again, and host and device resolve the branch to
  the same offset, the one stored in the prefix. The protocol is up to the clients: from every such table \<open>kv_branch_alloc\<close> on an
  unreferenced prefix returns 0 too, and leaves a live branch whose prefix is unreferenced and can be registered anew.
\<close>

theorem kv_live_branch_prefix_alive:
  assumes "kv_reachable (t, own)" and "unat b \<in> live_branches t"
  shows "refcnt t (unat (br_prefix_id (kt_branches t ! unat b))) \<noteq> 0 \<and>
    unat (br_prefix_id (kt_branches t ! unat b)) \<notin> bits_of (kt_prefix_bitmap t) \<and>
    kv_branch_total_offset t b = d_kv_branch_total_offset t b \<and>
    kv_branch_total_offset t b =
      px_kv_block_offset (kt_prefixes t ! unat (br_prefix_id (kt_branches t ! unat b))) \<and>
    (\<forall>ro i d dl db b' t'. kv_branch_alloc t ro i d dl db = (0, Some b', t') \<and> unat i < 512 \<and> refcnt t (unat i) = 0 \<longrightarrow>
       unat b' \<in> live_branches t' \<and> br_prefix_id (kt_branches t' ! unat b') = i \<and> refcnt t' (unat i) = 0 \<and>
       unat i \<in> bits_of (kt_prefix_bitmap t'))"
proof -
  let ?i = "br_prefix_id (kt_branches t ! unat b)"
  have inv: "kv_inv t own" using kv_reachable_inv [OF assms(1)] by simp
  have i: "unat ?i < 512" by (rule kv_invD(4) [OF inv assms(2)])
  have "unat b \<in> branches_on t (unat ?i)" using assms(2) by (simp add: branches_on_def)
  then have "0 < card (branches_on t (unat ?i))" by (auto simp: card_gt_0_iff)
  then have ref: "refcnt t (unat ?i) \<noteq> 0" using kv_invD(3) [OF inv i] by auto
  have b: "unat b < 16384" using assms(2) by (simp add: live_branches_def)
  have dead: "unat b' \<in> live_branches t' \<and> br_prefix_id (kt_branches t' ! unat b') = i \<and> refcnt t' (unat i) = 0 \<and>
      unat i \<in> bits_of (kt_prefix_bitmap t')"
    if "kv_branch_alloc t ro i d dl db = (0, Some b', t')" "unat i < 512" "refcnt t (unat i) = 0" for ro i d dl db b' t'
    using branch_on_dead_prefix [OF kv_invD(1) [OF inv] that(1,3)] kv_invD(2) [OF inv that(2)] that(3) by simp
  have "unat ?i \<notin> bits_of (kt_prefix_bitmap t)" "kv_branch_total_offset t b = d_kv_branch_total_offset t b"
    "kv_branch_total_offset t b = px_kv_block_offset (kt_prefixes t ! unat ?i)"
    using kv_invD(2) [OF inv i] i ref b
    by (simp_all add: kv_branch_total_offset_def d_kv_branch_total_offset_def kv_prefix_get_def kv_limits)
  then show ?thesis using ref dead by blast
qed

theorem kv_live_branch_prefix_alive_witness:
  "\<exists>t b own. kv_reachable (t, own) \<and> unat b \<in> live_branches t \<and>
     kv_branch_total_offset t b = d_kv_branch_total_offset t b"
proof -
  obtain t where reg: "kv_prefix_register kv_fresh 5 6 7 = (0, Some 0, t)"
    using kv_fresh_register by blast
  note t = kv_fresh_after_register [OF reg]
  obtain t' where br: "kv_branch_alloc t 1 0 2 3 4 = (0, Some 0, t')"
    using bitmap_alloc_ones [of 256 16384] t(4) by (auto simp: kv_branch_alloc_def)
  have reach': "kv_reachable (t', (\<lambda>_. 0)(0 := 1))"
    by (rule kv_next [OF t(1) step_branch [OF br]]) (simp_all add: t(2))
  from branch_alloc_effect [OF t(3) br] have live: "unat (0 :: u32) \<in> live_branches t'"
    using branches_on_cong(1) [OF acquire_frame(1,2)] by auto
  show ?thesis using kv_live_branch_prefix_alive [OF reach' live] reach' live by blast
qed

text \<open>
  A prefix keeps its KV offset for as long as it is referenced: no step of any client
  changes the offset of a prefix that is referenced before and after the step.
\<close>

theorem kv_prefix_offset_stable:
  assumes "kv_reachable (t, own)" and "kv_step (t, own) (t', own')" and "p < 512"
    and "refcnt t p \<noteq> 0" and "refcnt t' p \<noteq> 0"
  shows "px_kv_block_offset (kt_prefixes t' ! p) = px_kv_block_offset (kt_prefixes t ! p)"
proof -
  have inv: "kv_inv t own" using kv_reachable_inv [OF assms(1)] by simp
  note wf = kv_invD(1) [OF inv]
  have rel: "px_kv_block_offset (kt_prefixes t1 ! p) = px_kv_block_offset (kt_prefixes t ! p)"
    if "kv_prefix_release t i = (0, t1)" "refcnt t1 p \<noteq> 0" for i t1
    using release_effect [OF wf that(1)] that(2) by (cases "p = unat i") auto
  from assms(2) show ?thesis
  proof (rule kv_stepE)
    fix off len n i assume 1: "kv_prefix_register t off len n = (0, Some i, t')"
    have "unat i \<noteq> p"
      using register_effect [OF wf 1] kv_invD(2) [OF inv assms(3)] assms(4) by auto
    then show ?thesis using register_effect [OF wf 1] by simp
  next
    fix i assume 2: "kv_prefix_acquire t i = (0, t')"
    then have i: "unat i < 512" "refcnt t (unat i) \<noteq> 0" and t': "t' = snd (kv_prefix_acquire t i)"
      using acquire_effect by auto
    show ?thesis unfolding t' by (rule acquire_refcnt(2) [OF wf i assms(3)])
  next
    fix i assume 3: "kv_prefix_release t i = (0, t')"
    show ?thesis by (rule rel [OF 3 assms(5)])
  next
    fix ro i d dl db b
    assume 4: "kv_branch_alloc t ro i d dl db = (0, Some b, t')" "unat i < 512" "refcnt t (unat i) \<noteq> 0"
    obtain t1 where t1: "kv_wf t1" "t' = snd (kv_prefix_acquire t1 i)" "kt_prefixes t1 = kt_prefixes t"
      using branch_alloc_effect [OF wf 4(1)] by blast
    then have "refcnt t1 (unat i) \<noteq> 0" using 4(3) by simp
    from acquire_refcnt(2) [OF t1(1) 4(2) this assms(3)] show ?thesis by (simp add: t1)
  next
    fix b assume 5: "kv_branch_free t b = (0, t')" "unat b \<in> live_branches t"
    let ?i = "br_prefix_id (kt_branches t ! unat b)"
    have b: "unat b < 16384" using 5(2) by (simp add: live_branches_def)
    obtain t1 where t1: "t1 = snd (kv_prefix_release t ?i)" "kt_prefixes t' = kt_prefixes t1"
      using branch_free_effect [OF wf b 5(1)] by blast
    have "unat b \<in> branches_on t (unat ?i)" using 5(2) by (simp add: branches_on_def)
    then have "0 < card (branches_on t (unat ?i))" by (auto simp: card_gt_0_iff)
    then have "refcnt t (unat ?i) \<noteq> 0" using kv_invD(3,4) [OF inv] 5(2) by fastforce
    then have "kv_prefix_release t ?i = (0, t1)"
      using t1(1) kv_invD(4) [OF inv 5(2)] by (simp add: kv_prefix_release_def kv_limits)
    from rel [OF this] assms(5) show ?thesis by (simp add: t1)
  qed
qed

theorem kv_prefix_offset_stable_witness:
  "\<exists>t t'. kv_step (t, (\<lambda>_. 0)(0 := 1)) (t', (\<lambda>_. 0)(0 := Suc 1)) \<and>
     px_kv_block_offset (kt_prefixes t' ! 0) = px_kv_block_offset (kt_prefixes t ! 0)"
proof -
  obtain t where reg: "kv_prefix_register kv_fresh 5 6 7 = (0, Some 0, t)"
    using kv_fresh_register by blast
  note t = kv_fresh_after_register [OF reg]
  obtain t' where acq: "kv_prefix_acquire t 0 = (0, t')"
    using t(2) by (auto simp: kv_prefix_acquire_def MAX_PREFIXES_def)
  have step: "kv_step (t, (\<lambda>_. 0)(0 := 1)) (t', (\<lambda>_. 0)(0 := Suc 1))"
    using step_acquire [OF acq, of "(\<lambda>_. 0)(0 := 1)"] t(2) by simp
  have "refcnt t' 0 \<noteq> 0"
    using acquire_refcnt(1) [of t 0 0] acq t(2,3) by simp
  then show ?thesis using kv_prefix_offset_stable [OF t(1) step, of 0] step t(2) by auto
qed

text \<open>
  \<open>kv_branch_alloc\<close> succeeds on a prefix that is not alive, because it ignores the result of
  \<open>kv_prefix_acquire\<close>, and freeing such a branch takes away somebody else's reference: in a fresh
  table, a branch allocated on the unregistered prefix 0 is accepted; when prefix 0 is then
  registered and the branch is freed, the count drops to 0 and the owner's prefix is freed.
\<close>

theorem kv_dead_prefix_branch_steals_reference:
  "\<exists>t1 t2 t3. kv_branch_alloc kv_fresh ro 0 d dl db = (0, Some 0, t1) \<and>
     kv_prefix_register t1 off len n = (0, Some 0, t2) \<and> refcnt t2 0 = 1 \<and>
     kv_branch_free t2 0 = (0, t3) \<and> refcnt t3 0 = 0 \<and> 0 \<in> bits_of (kt_prefix_bitmap t3)"
proof -
  have wf: "kv_wf kv_fresh" using kv_reachable_inv [OF kv_fresh_reachable] by (simp add: kv_inv_def)
  have dead: "refcnt kv_fresh 0 = 0"
    by (simp add: kv_fresh_def kv_prefix_table_init_def KVPrefix_zero_def)
  obtain t1 where br: "kv_branch_alloc kv_fresh ro 0 d dl db = (0, Some 0, t1)"
    using bitmap_alloc_ones [of 256 16384] by (auto simp: kv_branch_alloc_def kv_fresh_bitmaps)
  obtain t0 where t0: "kv_wf t0" "t1 = snd (kv_prefix_acquire t0 0)" "kt_prefixes t0 = kt_prefixes kv_fresh"
    "kt_prefix_bitmap t0 = kt_prefix_bitmap kv_fresh"
    and br0: "kt_branches t0 = (kt_branches kv_fresh)[unat (0 :: u32) := \<lparr>br_branch_id = 0,
      br_rollout_id = ro, br_prefix_id = 0, br_delta_kv_offset = d, br_delta_len = dl,
      br_delta_block_count = db, br_state = 0, br_flags = 0\<rparr>]"
    using branch_alloc_effect [OF wf br] by blast
  have t1: "t1 = t0" using t0(2,3) dead by (simp add: kv_prefix_acquire_def kv_limits)
  obtain t2 where reg: "kv_prefix_register t1 off len n = (0, Some 0, t2)"
    using bitmap_alloc_ones [of 8 512] t0(4)
    by (auto simp: kv_prefix_register_def kv_fresh_bitmaps t1)
  note eff = register_effect [OF t0(1) reg [unfolded t1]]
  have wf2: "kv_wf t2" using eff by simp
  have ref2: "refcnt t2 0 = 1" using eff t0(1) by (simp add: kv_wf_def)
  have b0: "br_prefix_id (kt_branches t2 ! 0) = 0" using eff wf by (simp add: br0 kv_wf_def)
  obtain t3 where free: "kv_branch_free t2 0 = (0, t3)"
    by (auto simp: kv_branch_free_def MAX_BRANCHES_def)
  obtain u where u: "u = snd (kv_prefix_release t2 0)" "kt_prefixes t3 = kt_prefixes u"
    "kt_prefix_bitmap t3 = kt_prefix_bitmap u"
    using branch_free_effect [OF wf2 _ free] b0 by auto
  have "kv_prefix_release t2 0 = (0, u)"
    using u(1) ref2 by (simp add: kv_prefix_release_def MAX_PREFIXES_def)
  from release_effect [OF wf2 this] have "refcnt t3 0 = 0" "0 \<in> bits_of (kt_prefix_bitmap t3)"
    using ref2 by (simp_all add: u)
  then show ?thesis using br reg ref2 free by blast
qed

end
