(* ===== verification/Pipeline.thy ===== *)
theory Pipeline
  imports Ring_Rep Rollout
begin

text \<open>
  The rollout pipeline, \<^verbatim>\<open>include/pipeline.h\<close> and \<^verbatim>\<open>src/pipeline.c\<close>: six queues of rollout ids,
  the rollout slab, and per-stage credits that bound how much work is in flight. A queue number
  is a C enum value, hence an \<open>int\<close> that may be out of range; the functions check it.
\<close>

section \<open>Queues of rollout ids\<close>

definition PIPELINE_RING_SIZE :: u32 where "PIPELINE_RING_SIZE = 4096"

record IdRingIndex =
  ix_head :: u32
  ix_tail :: u32

record IdRing =
  ir_prod :: IdRingIndex
  ir_cons :: IdRingIndex
  ir_slots :: "u32 list"

definition id_ring_init :: "IdRing \<Rightarrow> IdRing" where
  "id_ring_init r = r\<lparr>ir_prod := \<lparr>ix_head = 0, ix_tail = 0\<rparr>, ir_cons := \<lparr>ix_head = 0, ix_tail = 0\<rparr>,
     ir_slots := replicate (unat PIPELINE_RING_SIZE) 0\<rparr>"

definition id_ring_push :: "IdRing \<Rightarrow> u32 \<Rightarrow> int \<times> IdRing" where
  "id_ring_push r i =
     (let h = ix_head (ir_prod r); t = ix_tail (ir_cons r)
      in if PIPELINE_RING_SIZE - (h - t) < 1 then (-1, r)
         else let pos = h AND (PIPELINE_RING_SIZE - 1)
              in (0, r\<lparr>ir_slots := (ir_slots r)[unat pos := i],
                       ir_prod := (ir_prod r)\<lparr>ix_head := h + 1\<rparr>\<rparr>))"

definition id_ring_pop :: "IdRing \<Rightarrow> int \<times> u32 option \<times> IdRing" where
  "id_ring_pop r =
     (let t = ix_tail (ir_cons r); h = ix_head (ir_prod r)
      in if t \<ge> h then (-1, None, r)
         else (0, Some (ir_slots r ! unat (t AND (PIPELINE_RING_SIZE - 1))),
               r\<lparr>ir_cons := (ir_cons r)\<lparr>ix_tail := t + 1\<rparr>\<rparr>))"

section \<open>The pipeline\<close>

type_synonym pipeline_q_t = int

definition Q_FREE :: pipeline_q_t where "Q_FREE = 0"
definition Q_PREFILL :: pipeline_q_t where "Q_PREFILL = 1"
definition Q_DECODE :: pipeline_q_t where "Q_DECODE = 2"
definition Q_REWARD :: pipeline_q_t where "Q_REWARD = 3"
definition Q_TRAJECTORY :: pipeline_q_t where "Q_TRAJECTORY = 4"
definition Q_DONE :: pipeline_q_t where "Q_DONE = 5"
definition Q_COUNT :: pipeline_q_t where "Q_COUNT = 6"

lemmas q_consts = Q_FREE_def Q_PREFILL_def Q_DECODE_def Q_REWARD_def Q_TRAJECTORY_def Q_DONE_def
  Q_COUNT_def

record PipelineCredits =
  pc_max_decode_credits :: u32
  pc_max_reward_credits :: u32
  pc_max_trajectory_credits :: u32
  pc_kv_block_limit :: u32
  pc_decode_used :: u32
  pc_reward_used :: u32
  pc_trajectory_used :: u32
  pc_kv_blocks_used :: u32

datatype SchedulePolicy = SCHED_FIFO | SCHED_SHORTEST_REMAINING | SCHED_PREFIX_SHARING

record RolloutPipeline =
  pl_queues :: "IdRing list"
  pl_slab :: rollout_slab_t
  pl_credits :: PipelineCredits
  pl_policy :: SchedulePolicy

record PipelineSnapshot =
  sn_queue_occupancy :: "u32 list"
  sn_stage_credit_headroom :: "u32 list"
  sn_credits :: PipelineCredits
  sn_policy :: SchedulePolicy

definition credits_zero :: PipelineCredits where
  "credits_zero = \<lparr>pc_max_decode_credits = 0, pc_max_reward_credits = 0,
     pc_max_trajectory_credits = 0, pc_kv_block_limit = 0, pc_decode_used = 0,
     pc_reward_used = 0, pc_trajectory_used = 0, pc_kv_blocks_used = 0\<rparr>"

definition id_ring_zero :: IdRing where
  "id_ring_zero = \<lparr>ir_prod = \<lparr>ix_head = 0, ix_tail = 0\<rparr>, ir_cons = \<lparr>ix_head = 0, ix_tail = 0\<rparr>,
     ir_slots = replicate (unat PIPELINE_RING_SIZE) 0\<rparr>"

definition pipeline_init :: "RolloutPipeline \<Rightarrow> int \<times> RolloutPipeline" where
  "pipeline_init p =
     (let p1 = p\<lparr>pl_queues := replicate (nat Q_COUNT) id_ring_zero, pl_credits := credits_zero,
                 pl_policy := SCHED_FIFO\<rparr>;
          p2 = p1\<lparr>pl_queues := map id_ring_init (pl_queues p1),
                  pl_slab := rollout_slab_init (pl_slab p1)\<rparr>
      in (0, p2\<lparr>pl_policy := SCHED_FIFO\<rparr>))"

definition pipeline_push :: "RolloutPipeline \<Rightarrow> pipeline_q_t \<Rightarrow> u32 \<Rightarrow> int \<times> RolloutPipeline" where
  "pipeline_push p q rollout_id =
     (if q < 0 \<or> q \<ge> Q_COUNT then (-1, p)
      else let (c, r) = id_ring_push (pl_queues p ! nat q) rollout_id
           in (c, p\<lparr>pl_queues := (pl_queues p)[nat q := r]\<rparr>))"

definition pipeline_pop ::
  "RolloutPipeline \<Rightarrow> pipeline_q_t \<Rightarrow> int \<times> u32 option \<times> RolloutPipeline" where
  "pipeline_pop p q =
     (if q < 0 \<or> q \<ge> Q_COUNT then (-1, None, p)
      else let (c, out, r) = id_ring_pop (pl_queues p ! nat q)
           in (c, out, p\<lparr>pl_queues := (pl_queues p)[nat q := r]\<rparr>))"

definition pipeline_transition ::
  "RolloutPipeline \<Rightarrow> u32 \<Rightarrow> rollout_state_t \<Rightarrow> rollout_state_t \<Rightarrow> int \<times> RolloutPipeline" where
  "pipeline_transition p rollout_id from to =
     (case rollout_get (pl_slab p) rollout_id of
        None \<Rightarrow> (-1, p)
      | Some r \<Rightarrow>
          let (c, r1) = rollout_transition r from to; slab = pl_slab p
          in (c, p\<lparr>pl_slab := slab\<lparr>sl_slots := (sl_slots slab)[unat rollout_id := r1]\<rparr>\<rparr>))"

definition pipeline_credits_set ::
  "RolloutPipeline \<Rightarrow> u32 \<Rightarrow> u32 \<Rightarrow> u32 \<Rightarrow> u32 \<Rightarrow> RolloutPipeline" where
  "pipeline_credits_set p max_decode max_reward max_trajectory kv_limit =
     p\<lparr>pl_credits := (pl_credits p)\<lparr>pc_max_decode_credits := max_decode,
       pc_max_reward_credits := max_reward, pc_max_trajectory_credits := max_trajectory,
       pc_kv_block_limit := kv_limit\<rparr>\<rparr>"

definition pipeline_try_push :: "RolloutPipeline \<Rightarrow> pipeline_q_t \<Rightarrow> u32 \<Rightarrow> int \<times> RolloutPipeline" where
  "pipeline_try_push p q rollout_id =
     (let c = pl_credits p in
      if q = Q_DECODE then
        if pc_max_decode_credits c \<noteq> 0 \<and> pc_decode_used c \<ge> pc_max_decode_credits c then (-1, p)
        else let (rc, p1) = pipeline_push p q rollout_id in
          if rc \<noteq> 0 then (-1, p1)
          else (0, p1\<lparr>pl_credits := (pl_credits p1)\<lparr>pc_decode_used := pc_decode_used c + 1\<rparr>\<rparr>)
      else if q = Q_REWARD then
        if pc_max_reward_credits c \<noteq> 0 \<and> pc_reward_used c \<ge> pc_max_reward_credits c then (-1, p)
        else let (rc, p1) = pipeline_push p q rollout_id in
          if rc \<noteq> 0 then (-1, p1)
          else (0, p1\<lparr>pl_credits := (pl_credits p1)\<lparr>pc_reward_used := pc_reward_used c + 1\<rparr>\<rparr>)
      else if q = Q_TRAJECTORY then
        if pc_max_trajectory_credits c \<noteq> 0 \<and>
           pc_trajectory_used c \<ge> pc_max_trajectory_credits c then (-1, p)
        else let (rc, p1) = pipeline_push p q rollout_id in
          if rc \<noteq> 0 then (-1, p1)
          else (0, p1\<lparr>pl_credits :=
                     (pl_credits p1)\<lparr>pc_trajectory_used := pc_trajectory_used c + 1\<rparr>\<rparr>)
      else pipeline_push p q rollout_id)"

definition pipeline_release :: "RolloutPipeline \<Rightarrow> pipeline_q_t \<Rightarrow> u32 \<Rightarrow> RolloutPipeline" where
  "pipeline_release p q n =
     (let c = pl_credits p in
      if q = Q_DECODE then p\<lparr>pl_credits := c\<lparr>pc_decode_used :=
        (if n > pc_decode_used c then 0 else pc_decode_used c - n)\<rparr>\<rparr>
      else if q = Q_REWARD then p\<lparr>pl_credits := c\<lparr>pc_reward_used :=
        (if n > pc_reward_used c then 0 else pc_reward_used c - n)\<rparr>\<rparr>
      else if q = Q_TRAJECTORY then p\<lparr>pl_credits := c\<lparr>pc_trajectory_used :=
        (if n > pc_trajectory_used c then 0 else pc_trajectory_used c - n)\<rparr>\<rparr>
      else p)"

definition pipeline_set_schedule_policy ::
  "RolloutPipeline \<Rightarrow> SchedulePolicy \<Rightarrow> int \<times> RolloutPipeline" where
  "pipeline_set_schedule_policy p policy =
     (if policy \<noteq> SCHED_FIFO then (-1, p) else (0, p\<lparr>pl_policy := policy\<rparr>))"

definition pipeline_schedule ::
  "RolloutPipeline \<Rightarrow> pipeline_q_t \<Rightarrow> int \<times> u32 option \<times> RolloutPipeline" where
  "pipeline_schedule p q =
     (if q < 0 \<or> q \<ge> Q_COUNT then (-1, None, p)
      else if pl_policy p = SCHED_FIFO then pipeline_pop p q
      else (-1, None, p))"

definition pipeline_occupancy :: "RolloutPipeline \<Rightarrow> pipeline_q_t \<Rightarrow> u32" where
  "pipeline_occupancy p q =
     (if q < 0 \<or> q \<ge> Q_COUNT then 0
      else let r = pl_queues p ! nat q; t = ix_tail (ir_cons r); h = ix_head (ir_prod r)
           in h - t)"

definition pipeline_stage_available_credits :: "RolloutPipeline option \<Rightarrow> pipeline_q_t \<Rightarrow> u32" where
  "pipeline_stage_available_credits p q =
     (case p of None \<Rightarrow> 0 | Some p \<Rightarrow>
        let c = pl_credits p in
        if q = Q_DECODE then
          (if pc_max_decode_credits c > pc_decode_used c
           then pc_max_decode_credits c - pc_decode_used c else 0)
        else if q = Q_REWARD then
          (if pc_max_reward_credits c > pc_reward_used c
           then pc_max_reward_credits c - pc_reward_used c else 0)
        else if q = Q_TRAJECTORY then
          (if pc_max_trajectory_credits c > pc_trajectory_used c
           then pc_max_trajectory_credits c - pc_trajectory_used c else 0)
        else UINT32_MAX)"

definition pipeline_stage_target_batch :: "RolloutPipeline \<Rightarrow> pipeline_q_t \<Rightarrow> u32 \<Rightarrow> u32" where
  "pipeline_stage_target_batch p q max_batch =
     (let occ = pipeline_occupancy p q;
          credit = pipeline_stage_available_credits (Some p) q;
          limit = max_batch;
          limit1 = (if credit \<noteq> UINT32_MAX \<and> credit < limit then credit else limit);
          limit2 = (if occ < limit1 then occ else limit1)
      in limit2)"

text \<open>\<open>None\<close> when either pointer is NULL, in which case nothing is written.\<close>

definition pipeline_snapshot :: "RolloutPipeline option \<Rightarrow> bool \<Rightarrow> PipelineSnapshot option" where
  "pipeline_snapshot p snap_ok =
     (case p of None \<Rightarrow> None | Some p \<Rightarrow>
        if \<not> snap_ok then None
        else Some \<lparr>sn_queue_occupancy = map (pipeline_occupancy p) [0..Q_COUNT - 1],
                   sn_stage_credit_headroom =
                     map (pipeline_stage_available_credits (Some p)) [0..Q_COUNT - 1],
                   sn_credits = pl_credits p, sn_policy = pl_policy p\<rparr>)"

definition pipeline_q_name :: "pipeline_q_t \<Rightarrow> string" where
  "pipeline_q_name q =
     (if q = Q_FREE then ''free'' else if q = Q_PREFILL then ''prefill''
      else if q = Q_DECODE then ''decode'' else if q = Q_REWARD then ''reward''
      else if q = Q_TRAJECTORY then ''trajectory'' else if q = Q_DONE then ''done'' else ''?'')"

fun rollout_state_name :: "rollout_state_t \<Rightarrow> string" where
  "rollout_state_name ROLL_FREE = ''FREE''"
| "rollout_state_name ROLL_PREFILL_READY = ''PREFILL_READY''"
| "rollout_state_name ROLL_DECODING = ''DECODING''"
| "rollout_state_name ROLL_REWARD_PENDING = ''REWARD_PENDING''"
| "rollout_state_name ROLL_TRAJECTORY_READY = ''TRAJECTORY_READY''"
| "rollout_state_name ROLL_DONE = ''DONE''"

fun schedule_policy_name :: "SchedulePolicy \<Rightarrow> string" where
  "schedule_policy_name SCHED_FIFO = ''FIFO''"
| "schedule_policy_name SCHED_SHORTEST_REMAINING = ''SHORTEST_REMAINING''"
| "schedule_policy_name SCHED_PREFIX_SHARING = ''PREFIX_SHARING''"

section \<open>Each queue as a bounded FIFO\<close>

abbreviation ir_cons_of :: "IdRing \<Rightarrow> u32" where "ir_cons_of r \<equiv> ix_tail (ir_cons r)"
abbreviation ir_prod_of :: "IdRing \<Rightarrow> u32" where "ir_prod_of r \<equiv> ix_head (ir_prod r)"

abbreviation idr_inv :: "IdRing \<Rightarrow> bool" where
  "idr_inv \<equiv> rep_linear 4096 ir_cons_of ir_prod_of ir_slots"

abbreviation idr_contents :: "IdRing \<Rightarrow> u32 list" where
  "idr_contents \<equiv> rep_contents ir_cons_of ir_prod_of ir_slots"

abbreviation idr_budget :: "nat \<Rightarrow> IdRing \<Rightarrow> bool" where
  "idr_budget \<equiv> rep_budget ir_prod_of"

definition id_push_obs :: "IdRing \<Rightarrow> u32 \<Rightarrow> bool \<times> IdRing" where
  "id_push_obs r i = (fst (id_ring_push r i) = 0, snd (id_ring_push r i))"

definition id_pop_obs :: "IdRing \<Rightarrow> u32 option \<times> IdRing" where
  "id_pop_obs r = snd (id_ring_pop r)"

lemma idr_size_ok: "ring_size_ok 4096"
  by (rule ring_size_okI [of 12]) simp_all

lemma unat_idr_mask: "unat (i AND (PIPELINE_RING_SIZE - 1)) = unat i mod 4096"
  using unat_and_mask [of i 12] by (simp add: PIPELINE_RING_SIZE_def)

lemma unat_PIPELINE_RING_SIZE [simp]: "unat PIPELINE_RING_SIZE = 4096"
  by (simp add: PIPELINE_RING_SIZE_def)

lemma id_ring_push_full: "unat (ir_prod_of r - ir_cons_of r) = 4096 \<Longrightarrow> id_ring_push r i = (-1, r)"
  using window_full [of "ir_prod_of r - ir_cons_of r" PIPELINE_RING_SIZE 1]
  by (simp add: id_ring_push_def)

lemma id_ring_push_room:
  "unat (ir_prod_of r - ir_cons_of r) < 4096 \<Longrightarrow> id_ring_push r i =
     (0, r\<lparr>ir_slots := (ir_slots r)[unat (ir_prod_of r) mod 4096 := i],
           ir_prod := (ir_prod r)\<lparr>ix_head := ir_prod_of r + 1\<rparr>\<rparr>)"
  using window_free [of "ir_prod_of r - ir_cons_of r" 1 PIPELINE_RING_SIZE]
  by (simp add: id_ring_push_def unat_idr_mask)

lemma id_ring_pop_ge: "ir_prod_of r \<le> ir_cons_of r \<Longrightarrow> id_ring_pop r = (-1, None, r)"
  by (simp add: id_ring_pop_def)

lemma id_ring_pop_less:
  "ir_cons_of r < ir_prod_of r \<Longrightarrow> id_ring_pop r =
     (0, Some (ir_slots r ! (unat (ir_cons_of r) mod 4096)),
      r\<lparr>ir_cons := (ir_cons r)\<lparr>ix_tail := ir_cons_of r + 1\<rparr>\<rparr>)"
  by (simp add: id_ring_pop_def leD unat_idr_mask)

interpretation idq: nowrap_ring ir_cons_of ir_prod_of ir_slots 4096 id_push_obs id_pop_obs
  by unfold_locales
    (auto simp: idr_size_ok id_push_obs_def id_pop_obs_def id_ring_push_full
      id_ring_push_room id_ring_pop_ge id_ring_pop_less)

lemma id_ring_init_props [simp]:
  "idr_inv (id_ring_init r)" "idr_contents (id_ring_init r) = []"
  "idr_budget n (id_ring_init r) \<longleftrightarrow> n < 2 ^ 32"
  by (simp_all add: id_ring_init_def rep_linear_def rep_wf_def ring_wf_def rep_budget_def)

section \<open>Invariant of the pipeline\<close>

text \<open>The ids waiting in queue \<open>k\<close>.\<close>

abbreviation waiting :: "RolloutPipeline \<Rightarrow> nat \<Rightarrow> u32 list" where
  "waiting p k \<equiv> idr_contents (pl_queues p ! k)"

text \<open>All queues are well formed and can take \<open>n\<close> more pushes before a counter wraps.\<close>

definition pipe_inv :: "nat \<Rightarrow> RolloutPipeline \<Rightarrow> bool" where
  "pipe_inv n p \<longleftrightarrow> length (pl_queues p) = 6 \<and>
     (\<forall>k < 6. idr_inv (pl_queues p ! k) \<and> idr_budget n (pl_queues p ! k))"

definition q_ok :: "pipeline_q_t \<Rightarrow> bool" where
  "q_ok q \<longleftrightarrow> 0 \<le> q \<and> q < 6"

lemma q_ok_guard: "(q < 0 \<or> q \<ge> Q_COUNT) \<longleftrightarrow> \<not> q_ok q" and q_ok_nat: "q_ok q \<Longrightarrow> nat q < 6"
  by (auto simp: q_ok_def q_consts)

lemma idr_budget_le: "idr_budget (Suc n) r \<Longrightarrow> idr_budget n r"
  by (simp add: rep_budget_def)

lemma pipe_inv_le: "pipe_inv (Suc n) p \<Longrightarrow> pipe_inv n p"
  by (auto simp: pipe_inv_def intro: idr_budget_le)

lemma pipe_inv_update:
  assumes "pipe_inv n p" "idr_inv r" "idr_budget n r" "k < 6"
  shows "pipe_inv n (p\<lparr>pl_queues := (pl_queues p)[k := r]\<rparr>)"
  using assms by (auto simp: pipe_inv_def nth_list_update)

lemma pipe_inv_frame: "pl_queues p' = pl_queues p \<Longrightarrow> pipe_inv n p' = pipe_inv n p"
  by (simp add: pipe_inv_def)

lemma pipeline_push_bad: "\<not> q_ok q \<Longrightarrow> pipeline_push p q i = (-1, p)"
  unfolding pipeline_push_def q_ok_guard by simp

lemma pipeline_push_good:
  "q_ok q \<Longrightarrow> pipeline_push p q i =
     (let (c, r) = id_ring_push (pl_queues p ! nat q) i
      in (c, p\<lparr>pl_queues := (pl_queues p)[nat q := r]\<rparr>))"
  unfolding pipeline_push_def q_ok_guard by simp

lemma pipeline_push_full:
  assumes "pipe_inv n p" "q_ok q" "length (waiting p (nat q)) = 4096"
  shows "pipeline_push p q i = (-1, p)"
  using id_ring_push_full [of "pl_queues p ! nat q" i] assms
  by (simp add: pipeline_push_good)

lemma pipeline_push_room:
  assumes inv: "pipe_inv (Suc n) p" and q: "q_ok q" and room: "length (waiting p (nat q)) < 4096"
  shows "\<exists>r. pipeline_push p q i = (0, p\<lparr>pl_queues := (pl_queues p)[nat q := r]\<rparr>) \<and>
    idr_inv r \<and> idr_budget n r \<and> idr_contents r = waiting p (nat q) @ [i]"
proof -
  let ?r = "pl_queues p ! nat q"
  obtain c r where push: "id_ring_push ?r i = (c, r)" by fastforce
  then have obs: "id_push_obs ?r i = (c = 0, r)" by (simp add: id_push_obs_def)
  have "idr_inv ?r" "idr_budget (Suc n) ?r" using inv q_ok_nat [OF q] by (simp_all add: pipe_inv_def)
  from idq.push_room [OF this room obs] push q show ?thesis
    by (intro exI [of _ r]) (simp add: pipeline_push_good)
qed

lemma pipeline_pop_bad: "\<not> q_ok q \<Longrightarrow> pipeline_pop p q = (-1, None, p)"
  unfolding pipeline_pop_def q_ok_guard by simp

lemma pipeline_pop_good:
  "q_ok q \<Longrightarrow> pipeline_pop p q =
     (let (c, out, r) = id_ring_pop (pl_queues p ! nat q)
      in (c, out, p\<lparr>pl_queues := (pl_queues p)[nat q := r]\<rparr>))"
  unfolding pipeline_pop_def q_ok_guard by simp

lemma pipeline_pop_empty:
  assumes "q_ok q" "waiting p (nat q) = []"
  shows "pipeline_pop p q = (-1, None, p)"
  using id_ring_pop_ge [of "pl_queues p ! nat q"] assms by (simp add: pipeline_pop_good)

lemma pipeline_pop_first:
  assumes inv: "pipe_inv n p" and q: "q_ok q" and first: "waiting p (nat q) = i # rest"
  shows "\<exists>r. pipeline_pop p q = (0, Some i, p\<lparr>pl_queues := (pl_queues p)[nat q := r]\<rparr>) \<and>
    idr_inv r \<and> idr_budget n r \<and> idr_contents r = rest"
proof -
  let ?r = "pl_queues p ! nat q"
  have r: "idr_inv ?r" "idr_budget n ?r" using inv q_ok_nat [OF q] by (simp_all add: pipe_inv_def)
  have "ir_cons_of ?r \<noteq> ir_prod_of ?r" using first rep_contents_Nil [of ir_cons_of ir_prod_of ir_slots ?r] by auto
  then have "ir_cons_of ?r < ir_prod_of ?r" using r(1) by (simp add: rep_linear_def order_less_le)
  then obtain out s where pop: "id_ring_pop ?r = (0, out, s)" by (simp add: id_ring_pop_less)
  then have obs: "id_pop_obs ?r = (out, s)" by (simp add: id_pop_obs_def)
  from idq.pop_first [OF r(1) first obs] pop q r(2) show ?thesis
    by (intro exI [of _ s]) (simp add: pipeline_pop_good)
qed

lemma pipeline_schedule_FIFO: "pl_policy p = SCHED_FIFO \<Longrightarrow> pipeline_schedule p q = pipeline_pop p q"
  by (simp add: pipeline_schedule_def pipeline_pop_def)

section \<open>Credits of a stage\<close>

definition credit_max :: "PipelineCredits \<Rightarrow> pipeline_q_t \<Rightarrow> u32" where
  "credit_max c q = (if q = Q_DECODE then pc_max_decode_credits c
     else if q = Q_REWARD then pc_max_reward_credits c
     else if q = Q_TRAJECTORY then pc_max_trajectory_credits c else 0)"

definition credit_used :: "PipelineCredits \<Rightarrow> pipeline_q_t \<Rightarrow> u32" where
  "credit_used c q = (if q = Q_DECODE then pc_decode_used c
     else if q = Q_REWARD then pc_reward_used c
     else if q = Q_TRAJECTORY then pc_trajectory_used c else 0)"

definition credit_set_used :: "PipelineCredits \<Rightarrow> pipeline_q_t \<Rightarrow> u32 \<Rightarrow> PipelineCredits" where
  "credit_set_used c q n = (if q = Q_DECODE then c\<lparr>pc_decode_used := n\<rparr>
     else if q = Q_REWARD then c\<lparr>pc_reward_used := n\<rparr>
     else if q = Q_TRAJECTORY then c\<lparr>pc_trajectory_used := n\<rparr> else c)"

definition credited :: "pipeline_q_t \<Rightarrow> bool" where
  "credited q \<longleftrightarrow> q = Q_DECODE \<or> q = Q_REWARD \<or> q = Q_TRAJECTORY"

lemmas credit_defs = credit_max_def credit_used_def credit_set_used_def credited_def q_consts

lemma credited_ok: "credited q \<Longrightarrow> q_ok q"
  by (auto simp: credited_def q_ok_def q_consts)

lemma credit_used_set [simp]:
  "credit_used (credit_set_used c q n) q' = (if q' = q \<and> credited q then n else credit_used c q')"
  by (auto simp: credit_defs)

lemma credit_max_set [simp]: "credit_max (credit_set_used c q n) q' = credit_max c q'"
  by (auto simp: credit_defs)

text \<open>The switch of \<open>pipeline_try_push\<close> as one rule for all stages.\<close>

lemma pipeline_try_push_stage:
  "pipeline_try_push p q i =
     (if credit_max (pl_credits p) q \<noteq> 0 \<and> credit_used (pl_credits p) q \<ge> credit_max (pl_credits p) q
      then (-1, p)
      else case pipeline_push p q i of (c, p1) \<Rightarrow>
        if c \<noteq> 0 then (if credited q then (-1, p1) else (c, p1))
        else (0, p1\<lparr>pl_credits := credit_set_used (pl_credits p1) q
                                   (credit_used (pl_credits p) q + 1)\<rparr>))"
  by (simp add: pipeline_try_push_def credit_defs split: prod.splits)

lemma pipeline_release_stage:
  "pipeline_release p q n = p\<lparr>pl_credits := credit_set_used (pl_credits p) q
     (if n > credit_used (pl_credits p) q then 0 else credit_used (pl_credits p) q - n)\<rparr>"
  by (simp add: pipeline_release_def credit_defs)

lemma pipeline_push_code: "fst (pipeline_push p q i) = 0 \<or> fst (pipeline_push p q i) = -1"
  by (simp add: pipeline_push_def id_ring_push_def split: prod.splits if_splits)

lemma pipeline_push_frame:
  "pl_credits (snd (pipeline_push p q i)) = pl_credits p"
  "pl_slab (snd (pipeline_push p q i)) = pl_slab p"
  "pl_policy (snd (pipeline_push p q i)) = pl_policy p"
  by (simp_all add: pipeline_push_def split: prod.splits)

section \<open>Runs of the pipeline\<close>

datatype pipe_op =
    PushQ pipeline_q_t u32
  | TryPushQ pipeline_q_t u32
  | PopQ pipeline_q_t
  | ScheduleQ pipeline_q_t
  | ReleaseQ pipeline_q_t u32
  | TransitionR u32 rollout_state_t rollout_state_t
  | SetPolicy SchedulePolicy

datatype pipe_event = Enqueued pipeline_q_t u32 | Dequeued pipeline_q_t u32

text \<open>One call of the public interface, with the id that entered or left a queue.\<close>

fun pipe_step :: "pipe_op \<Rightarrow> RolloutPipeline \<Rightarrow> pipe_event list \<times> RolloutPipeline" where
  "pipe_step (PushQ q i) p =
     (let (c, p') = pipeline_push p q i in (if c = 0 then [Enqueued q i] else [], p'))"
| "pipe_step (TryPushQ q i) p =
     (let (c, p') = pipeline_try_push p q i in (if c = 0 then [Enqueued q i] else [], p'))"
| "pipe_step (PopQ q) p =
     (let (c, out, p') = pipeline_pop p q
      in (case out of Some i \<Rightarrow> [Dequeued q i] | None \<Rightarrow> [], p'))"
| "pipe_step (ScheduleQ q) p =
     (let (c, out, p') = pipeline_schedule p q
      in (case out of Some i \<Rightarrow> [Dequeued q i] | None \<Rightarrow> [], p'))"
| "pipe_step (ReleaseQ q n) p = ([], pipeline_release p q n)"
| "pipe_step (TransitionR i from to) p = ([], snd (pipeline_transition p i from to))"
| "pipe_step (SetPolicy pol) p = ([], snd (pipeline_set_schedule_policy p pol))"

fun pipe_run :: "pipe_op list \<Rightarrow> RolloutPipeline \<Rightarrow> pipe_event list \<times> RolloutPipeline" where
  "pipe_run [] p = ([], p)"
| "pipe_run (op # ops) p =
     (let (evs, p1) = pipe_step op p; (evs', p2) = pipe_run ops p1 in (evs @ evs', p2))"

fun enqueued :: "nat \<Rightarrow> pipe_event list \<Rightarrow> u32 list" where
  "enqueued k [] = []"
| "enqueued k (Enqueued q i # evs) = (if nat q = k then i # enqueued k evs else enqueued k evs)"
| "enqueued k (Dequeued q i # evs) = enqueued k evs"

fun dequeued :: "nat \<Rightarrow> pipe_event list \<Rightarrow> u32 list" where
  "dequeued k [] = []"
| "dequeued k (Dequeued q i # evs) = (if nat q = k then i # dequeued k evs else dequeued k evs)"
| "dequeued k (Enqueued q i # evs) = dequeued k evs"

lemma enqueued_append [simp]: "enqueued k (xs @ ys) = enqueued k xs @ enqueued k ys"
  by (induction k xs rule: enqueued.induct) auto

lemma dequeued_append [simp]: "dequeued k (xs @ ys) = dequeued k xs @ dequeued k ys"
  by (induction k xs rule: dequeued.induct) auto

text \<open>What one call may do to the queues: conserve the ids of every queue.\<close>

definition conserves :: "nat \<Rightarrow> RolloutPipeline \<Rightarrow> pipe_event list \<Rightarrow> RolloutPipeline \<Rightarrow> bool" where
  "conserves n p evs p' \<longleftrightarrow> pipe_inv n p' \<and>
     (\<forall>k < 6. waiting p k @ enqueued k evs = dequeued k evs @ waiting p' k)"

lemma conserves_frame: "pipe_inv n p \<Longrightarrow> pl_queues p' = pl_queues p \<Longrightarrow> conserves n p [] p'"
  by (simp add: conserves_def pipe_inv_def)

lemma waiting_update:
  "length (pl_queues p) = 6 \<Longrightarrow> k < 6 \<Longrightarrow>
   waiting (p\<lparr>pl_queues := (pl_queues p)[j := r]\<rparr>) k = (if k = j then idr_contents r else waiting p k)"
  by (auto simp: nth_list_update)

lemma push_conserves:
  assumes inv: "pipe_inv (Suc n) p" and push: "pipeline_push p q i = (c, p')"
  shows "conserves n p (if c = 0 then [Enqueued q i] else []) p'"
proof (cases "q_ok q \<and> length (waiting p (nat q)) < 4096")
  case True
  then obtain r where r: "c = 0" "p' = p\<lparr>pl_queues := (pl_queues p)[nat q := r]\<rparr>"
    "idr_inv r" "idr_budget n r" "idr_contents r = waiting p (nat q) @ [i]"
    using pipeline_push_room [OF inv, of q i] push by auto
  have "length (pl_queues p) = 6" using inv by (simp add: pipe_inv_def)
  then show ?thesis
    using pipe_inv_update [OF pipe_inv_le [OF inv] r(3,4)] q_ok_nat True waiting_update [of p] r(1,5)
    by (simp add: conserves_def r(2))
next
  case False
  have "length (waiting p (nat q)) \<le> 4096" if "q_ok q"
    using idq.bounded [of "pl_queues p ! nat q"] inv q_ok_nat [OF that] by (simp add: pipe_inv_def)
  then have "pipeline_push p q i = (-1, p)"
    using False pipeline_push_full [OF inv, of q i] pipeline_push_bad [of q p i] by fastforce
  then show ?thesis using conserves_frame [OF pipe_inv_le [OF inv]] push by simp
qed

lemma pop_conserves:
  assumes inv: "pipe_inv n p" and pop: "pipeline_pop p q = (c, out, p')"
  shows "conserves n p (case out of Some i \<Rightarrow> [Dequeued q i] | None \<Rightarrow> []) p'"
proof (cases "q_ok q \<and> waiting p (nat q) \<noteq> []")
  case True
  then obtain i rest where first: "waiting p (nat q) = i # rest" by (meson neq_Nil_conv)
  obtain r where r: "out = Some i" "p' = p\<lparr>pl_queues := (pl_queues p)[nat q := r]\<rparr>"
    "idr_inv r" "idr_budget n r" "idr_contents r = rest"
    using pipeline_pop_first [OF inv conjunct1 [OF True] first] pop by auto
  have "length (pl_queues p) = 6" using inv by (simp add: pipe_inv_def)
  then show ?thesis
    using pipe_inv_update [OF inv r(3,4)] q_ok_nat True waiting_update [of p] r(1,5) first
    by (simp add: conserves_def r(2))
next
  case False
  then have "pipeline_pop p q = (-1, None, p)"
    using pipeline_pop_empty [of q p] pipeline_pop_bad [of q p] by blast
  then show ?thesis using conserves_frame [OF inv] pop by simp
qed

lemma conserves_credits:
  "conserves n p evs p' \<Longrightarrow> conserves n p evs (p'\<lparr>pl_credits := c\<rparr>)"
  by (simp add: conserves_def pipe_inv_def)

lemma other_ops_frame:
  "pl_queues (snd (pipeline_transition p i from to)) = pl_queues p"
  "pl_credits (snd (pipeline_transition p i from to)) = pl_credits p"
  "pl_policy (snd (pipeline_transition p i from to)) = pl_policy p"
  "pl_queues (pipeline_release p q n) = pl_queues p"
  "pl_policy (pipeline_release p q n) = pl_policy p"
  "pl_queues (snd (pipeline_set_schedule_policy p pol)) = pl_queues p"
  "pl_credits (snd (pipeline_set_schedule_policy p pol)) = pl_credits p"
  by (simp_all add: pipeline_transition_def pipeline_release_def pipeline_set_schedule_policy_def
      split: option.splits prod.splits)

lemma pipe_step_conserves:
  assumes inv: "pipe_inv (Suc n) p" and step: "pipe_step op p = (evs, p')"
  shows "conserves n p evs p'"
proof (cases op)
  case (PushQ q i)
  then show ?thesis
    using step push_conserves [OF inv, of q i] by (auto split: prod.splits)
next
  case (TryPushQ q i)
  obtain c p1 where push: "pipeline_push p q i = (c, p1)" by fastforce
  have "conserves n p (if c = 0 then [Enqueued q i] else []) p1" by (rule push_conserves [OF inv push])
  moreover have "conserves n p [] p" using conserves_frame [OF pipe_inv_le [OF inv]] by simp
  ultimately show ?thesis
    using step TryPushQ by (auto simp: pipeline_try_push_stage push split: if_splits
        intro: conserves_credits)
next
  case (PopQ q)
  then show ?thesis
    using step pop_conserves [OF pipe_inv_le [OF inv], of q] by (auto split: prod.splits)
next
  case (ScheduleQ q)
  show ?thesis
  proof (cases "pl_policy p = SCHED_FIFO")
    case True
    then show ?thesis
      using step ScheduleQ pop_conserves [OF pipe_inv_le [OF inv], of q]
      by (auto simp: pipeline_schedule_FIFO split: prod.splits)
  next
    case False
    then have "pipeline_schedule p q = (-1, None, p)" by (simp add: pipeline_schedule_def)
    then show ?thesis using step ScheduleQ conserves_frame [OF pipe_inv_le [OF inv]] by simp
  qed
qed (use step conserves_frame [OF pipe_inv_le [OF inv], of p'] in
      \<open>auto simp: other_ops_frame\<close>)

lemma pipe_run_conserves:
  "pipe_inv (length ops + n) p \<Longrightarrow> pipe_run ops p = (evs, p') \<Longrightarrow> conserves n p evs p'"
proof (induction ops arbitrary: p evs)
  case Nil
  then show ?case by (simp add: conserves_def)
next
  case (Cons op ops)
  obtain evs1 p1 where step: "pipe_step op p = (evs1, p1)" by fastforce
  obtain evs2 where run: "pipe_run ops p1 = (evs2, p')" and evs: "evs = evs1 @ evs2"
    using Cons.prems(2) step by (auto split: prod.splits)
  have "conserves (length ops + n) p evs1 p1"
    using pipe_step_conserves [OF _ step] Cons.prems(1) by simp
  moreover from this have "conserves n p1 evs2 p'"
    using Cons.IH [OF _ run] by (simp add: conserves_def)
  ultimately show ?case by (auto simp: conserves_def evs) (metis append.assoc)
qed

lemma pipeline_init_inv:
  assumes "n < 2 ^ 32"
  shows "pipe_inv n (snd (pipeline_init p))" "k < 6 \<Longrightarrow> waiting (snd (pipeline_init p)) k = []"
    "pl_policy (snd (pipeline_init p)) = SCHED_FIFO" "pl_credits (snd (pipeline_init p)) = credits_zero"
  using assms by (simp_all add: pipeline_init_def pipe_inv_def Q_COUNT_def)

lemma pop_frame:
  "pl_credits (snd (snd (pipeline_pop p q))) = pl_credits p"
  "pl_policy (snd (snd (pipeline_pop p q))) = pl_policy p"
  by (simp_all add: pipeline_pop_def split: prod.splits)

lemma schedule_frame:
  "pl_credits (snd (snd (pipeline_schedule p q))) = pl_credits p"
  "pl_policy (snd (snd (pipeline_schedule p q))) = pl_policy p"
  by (simp_all add: pipeline_schedule_def pop_frame)

lemma pipe_step_policy:
  assumes "pl_policy p = SCHED_FIFO"
  shows "pl_policy (snd (pipe_step op p)) = SCHED_FIFO"
proof (cases op)
  case (TryPushQ q i)
  then show ?thesis
    using assms pipeline_push_frame(3) [of p q i]
    by (auto simp: pipeline_try_push_stage split: prod.splits)
next
  case (SetPolicy pol)
  then show ?thesis using assms by (simp add: pipeline_set_schedule_policy_def)
qed (use assms in \<open>simp_all add: other_ops_frame pipeline_push_frame pop_frame schedule_frame
      case_prod_unfold\<close>)

lemma pipe_step_credit_bound:
  assumes "credit_max (pl_credits p) q \<noteq> 0" "credit_used (pl_credits p) q \<le> credit_max (pl_credits p) q"
    and "pipe_step op p = (evs, p')"
  shows "credit_max (pl_credits p') q = credit_max (pl_credits p) q \<and>
    credit_used (pl_credits p') q \<le> credit_max (pl_credits p) q"
proof (cases op)
  case (TryPushQ q' i)
  obtain c p1 where push: "pipeline_push p q' i = (c, p1)" by fastforce
  have p1: "pl_credits p1 = pl_credits p" using pipeline_push_frame(1) [of p q' i] push by simp
  have "credit_used (pl_credits p) q + 1 \<le> credit_max (pl_credits p) q"
    if "\<not> credit_max (pl_credits p) q \<le> credit_used (pl_credits p) q"
    using that by (simp add: inc_le not_le)
  then show ?thesis
    using assms TryPushQ p1 by (auto simp: pipeline_try_push_stage push split: if_splits)
next
  case (ReleaseQ q' n)
  have "x - n \<le> m" if "\<not> x < n" "x \<le> m" for x m :: u32
    using that by (simp add: word_le_nat_alt unat_sub word_less_nat_alt)
  then show ?thesis using assms ReleaseQ by (auto simp: pipeline_release_stage)
qed (use assms in \<open>auto simp: other_ops_frame pipeline_push_frame pop_frame schedule_frame
      case_prod_unfold\<close>)

section \<open>Properties\<close>

text \<open>
  C15. No rollout is lost, duplicated or reordered in the pipeline: in every sequence of fewer
  than \<open>2 ^ 32\<close> interface calls on a freshly initialised pipeline, the ids enqueued on a queue
  are exactly those dequeued from it followed by those still waiting, in order, and the policy
  stays FIFO whatever policy a client asks for.
\<close>

theorem pipeline_conserves_rollouts:
  assumes "length ops < 2 ^ 32" and "pipe_run ops (snd (pipeline_init p)) = (evs, p')" and "k < 6"
  shows "enqueued k evs = dequeued k evs @ waiting p' k \<and> length (waiting p' k) \<le> 4096 \<and>
    pl_policy p' = SCHED_FIFO"
proof -
  have "conserves 0 (snd (pipeline_init p)) evs p'"
    using pipe_run_conserves [OF _ assms(2)] pipeline_init_inv(1) assms(1) by simp
  then have "waiting (snd (pipeline_init p)) k @ enqueued k evs = dequeued k evs @ waiting p' k"
    "pipe_inv 0 p'" using assms(3) by (simp_all add: conserves_def)
  moreover from this have "length (waiting p' k) \<le> 4096"
    using idq.bounded [of "pl_queues p' ! k"] assms(3) by (simp add: pipe_inv_def)
  moreover have "pl_policy x = SCHED_FIFO \<Longrightarrow> pl_policy (snd (pipe_run os x)) = SCHED_FIFO" for os x
    by (induction os arbitrary: x) (auto simp: case_prod_unfold pipe_step_policy)
  from this [of _ ops] have "pl_policy p' = SCHED_FIFO"
    using pipeline_init_inv(3) assms(2) by (metis snd_conv zero_less_numeral zero_less_power)
  moreover have "waiting (snd (pipeline_init p)) k = []"
    using pipeline_init_inv(2) [of 0 k p] assms(3) by simp
  ultimately show ?thesis by (simp only: append_Nil)
qed

definition pipe_fresh :: RolloutPipeline where
  "pipe_fresh = snd (pipeline_init \<lparr>pl_queues = [], pl_slab = \<lparr>sl_slots = [], sl_free_bitmap = []\<rparr>,
     pl_credits = credits_zero, pl_policy = SCHED_PREFIX_SHARING\<rparr>)"

theorem pipeline_conserves_rollouts_witness:
  "enqueued 2 (fst (pipe_run [PushQ Q_DECODE 7, SetPolicy SCHED_PREFIX_SHARING, ScheduleQ Q_DECODE]
       pipe_fresh)) =
   dequeued 2 (fst (pipe_run [PushQ Q_DECODE 7, SetPolicy SCHED_PREFIX_SHARING, ScheduleQ Q_DECODE]
       pipe_fresh)) @
   waiting (snd (pipe_run [PushQ Q_DECODE 7, SetPolicy SCHED_PREFIX_SHARING, ScheduleQ Q_DECODE]
       pipe_fresh)) 2"
  unfolding pipe_fresh_def
  by (rule conjunct1 [OF pipeline_conserves_rollouts [OF _ prod.collapse [symmetric]]])
    simp_all

text \<open>
  C16. The credit limit of a stage is never exceeded: from a state where a stage with a nonzero
  limit uses at most its limit, every sequence of interface calls keeps it so and keeps the
  limit. A push that would exceed the limit is refused and changes nothing.
\<close>

theorem pipeline_credit_limit:
  assumes "credit_max (pl_credits p) q \<noteq> 0"
    and "credit_used (pl_credits p) q \<le> credit_max (pl_credits p) q"
    and "pipe_run ops p = (evs, p')"
  shows "credit_used (pl_credits p') q \<le> credit_max (pl_credits p) q \<and>
    credit_max (pl_credits p') q = credit_max (pl_credits p) q \<and>
    (credit_used (pl_credits p') q = credit_max (pl_credits p') q \<longrightarrow>
      pipeline_try_push p' q i = (-1, p'))"
proof -
  have "credit_used (pl_credits p') q \<le> credit_max (pl_credits p) q \<and>
    credit_max (pl_credits p') q = credit_max (pl_credits p) q"
    using assms
  proof (induction ops arbitrary: p evs)
    case Nil
    then show ?case by simp
  next
    case (Cons op ops)
    obtain evs1 p1 where step: "pipe_step op p = (evs1, p1)" by fastforce
    obtain evs2 where run: "pipe_run ops p1 = (evs2, p')"
      using Cons.prems(3) step by (auto split: prod.splits)
    have "credit_max (pl_credits p1) q = credit_max (pl_credits p) q \<and>
        credit_used (pl_credits p1) q \<le> credit_max (pl_credits p) q"
      by (rule pipe_step_credit_bound [OF Cons.prems(1,2) step])
    then show ?case using Cons.IH [OF _ _ run] Cons.prems(1) by simp
  qed
  then show ?thesis using assms(1) by (simp add: pipeline_try_push_stage)
qed

lemma pipe_fresh_props:
  "n < 2 ^ 32 \<Longrightarrow> pipe_inv n pipe_fresh" "k < 6 \<Longrightarrow> waiting pipe_fresh k = []"
  "pl_policy pipe_fresh = SCHED_FIFO" "pl_credits pipe_fresh = credits_zero"
  unfolding pipe_fresh_def using pipeline_init_inv [of n] pipeline_init_inv(2-4) [of 0]
  by simp_all

definition pipe_limited :: RolloutPipeline where
  "pipe_limited = pipeline_credits_set pipe_fresh 2 2 2 0"

lemma pipe_limited_credits:
  "credit_max (pl_credits pipe_limited) Q_DECODE = 2" "credit_used (pl_credits pipe_limited) Q_DECODE = 0"
  by (simp_all add: pipe_limited_def pipeline_credits_set_def pipe_fresh_props credits_zero_def
      credit_defs)

theorem pipeline_credit_limit_witness:
  "credit_used (pl_credits (snd (pipe_run [TryPushQ Q_DECODE 1, TryPushQ Q_DECODE 2, TryPushQ Q_DECODE 3]
     pipe_limited))) Q_DECODE \<le> 2"
  using pipeline_credit_limit [of pipe_limited Q_DECODE, OF _ _ prod.collapse [symmetric]]
  by (simp add: pipe_limited_credits del: pipe_run.simps)

text \<open>
  \<open>pipeline_try_push\<close> does exactly one thing: if the stage has a free credit (or an unlimited
  one) and its queue has room, the id is appended to that queue and one credit is taken;
  otherwise it returns -1 and the pipeline is unchanged. Other queues, other stages' credits,
  the slab and the policy never change.
\<close>

theorem pipeline_try_push_exact:
  assumes "pipe_inv (Suc n) p" and "credited q"
  shows "if (credit_max (pl_credits p) q = 0 \<or> credit_used (pl_credits p) q < credit_max (pl_credits p) q) \<and>
      length (waiting p (nat q)) < 4096
    then \<exists>p'. pipeline_try_push p q i = (0, p') \<and> waiting p' (nat q) = waiting p (nat q) @ [i] \<and>
      (\<forall>k < 6. k \<noteq> nat q \<longrightarrow> waiting p' k = waiting p k) \<and>
      credit_used (pl_credits p') q = credit_used (pl_credits p) q + 1 \<and>
      (\<forall>q'. q' \<noteq> q \<longrightarrow> credit_used (pl_credits p') q' = credit_used (pl_credits p) q') \<and>
      pl_slab p' = pl_slab p \<and> pl_policy p' = pl_policy p
    else pipeline_try_push p q i = (-1, p)"
proof -
  note q = credited_ok [OF assms(2)]
  have len: "length (pl_queues p) = 6" using assms(1) by (simp add: pipe_inv_def)
  have bounded: "length (waiting p (nat q)) \<le> 4096"
    using idq.bounded [of "pl_queues p ! nat q"] assms(1) q_ok_nat [OF q] by (simp add: pipe_inv_def)
  show ?thesis
  proof (cases "length (waiting p (nat q)) < 4096")
    case True
    obtain r where r: "pipeline_push p q i = (0, p\<lparr>pl_queues := (pl_queues p)[nat q := r]\<rparr>)"
      "idr_contents r = waiting p (nat q) @ [i]"
      using pipeline_push_room [OF assms(1) q True, of i] by blast
    then show ?thesis
      using True assms(2) q_ok_nat [OF q] len
      by (auto simp: pipeline_try_push_stage not_le nth_list_update)
  next
    case False
    then have "pipeline_push p q i = (-1, p)"
      using bounded by (intro pipeline_push_full [OF assms(1) q]) simp
    then show ?thesis using False assms(2) by (simp add: pipeline_try_push_stage)
  qed
qed

theorem pipeline_try_push_exact_witness:
  "\<exists>p'. pipeline_try_push pipe_limited Q_DECODE 9 = (0, p') \<and> waiting p' 2 = [9]"
proof -
  have inv: "pipe_inv (Suc 0) pipe_limited"
    using pipe_fresh_props(1) [of "Suc 0"]
    by (simp add: pipe_limited_def pipeline_credits_set_def pipe_inv_def)
  have empty: "waiting pipe_limited 2 = []"
    using pipe_fresh_props(2) [of 2] by (simp add: pipe_limited_def pipeline_credits_set_def)
  have q: "credited Q_DECODE" "nat Q_DECODE = 2" by (simp_all add: credited_def Q_DECODE_def)
  have "(credit_max (pl_credits pipe_limited) Q_DECODE = 0 \<or>
      credit_used (pl_credits pipe_limited) Q_DECODE < credit_max (pl_credits pipe_limited) Q_DECODE) \<and>
      length (waiting pipe_limited (nat Q_DECODE)) < 4096"
    unfolding q(2) empty pipe_limited_credits by simp
  then show ?thesis
    using pipeline_try_push_exact [OF inv q(1), of 9] unfolding q(2) empty by auto
qed

lemma occupancy_waiting: "q_ok q \<Longrightarrow> unat (pipeline_occupancy p q) = length (waiting p (nat q))"
  unfolding pipeline_occupancy_def q_ok_guard by simp

lemma target_batch_min:
  assumes "q_ok q"
  shows "unat (pipeline_stage_target_batch p q m) =
    min (min (unat m) (unat (pipeline_stage_available_credits (Some p) q))) (length (waiting p (nat q)))"
proof -
  have le_max: "x \<le> UINT32_MAX" for x :: u32
    using unat_lt32 [of x] by (simp add: word_le_nat_alt)
  show ?thesis
    unfolding occupancy_waiting [OF assms, symmetric]
    using le_max [of m] le_max [of "pipeline_stage_available_credits (Some p) q"]
    by (auto simp: pipeline_stage_target_batch_def word_less_nat_alt word_le_nat_alt min_def
        split: if_splits)
qed

text \<open>
  The target batch of a stage is the least of the requested size, the stage's free credits
  and the number of waiting ids, and it can always be filled: that many calls of
  \<open>pipeline_schedule\<close> all succeed and return the oldest waiting ids in order.
\<close>

theorem pipeline_target_batch_fillable:
  assumes "pipe_inv n p" and "pl_policy p = SCHED_FIFO" and "q_ok q"
  shows "unat (pipeline_stage_target_batch p q m) =
      min (min (unat m) (unat (pipeline_stage_available_credits (Some p) q)))
        (length (waiting p (nat q))) \<and>
    (\<exists>p'. pipe_run (replicate (unat (pipeline_stage_target_batch p q m)) (ScheduleQ q)) p =
      (map (Dequeued q) (take (unat (pipeline_stage_target_batch p q m)) (waiting p (nat q))), p'))"
proof -
  have "\<exists>p'. pipe_run (replicate j (ScheduleQ q)) p = (map (Dequeued q) (take j (waiting p (nat q))), p')"
    if "j \<le> length (waiting p (nat q))" for j
    using assms(1,2) that
  proof (induction j arbitrary: p)
    case 0
    then show ?case by simp
  next
    case (Suc j)
    obtain i rest where first: "waiting p (nat q) = i # rest"
      using Suc.prems(3) by (metis Suc_le_length_iff)
    obtain r where r: "pipeline_pop p q = (0, Some i, p\<lparr>pl_queues := (pl_queues p)[nat q := r]\<rparr>)"
      "idr_inv r" "idr_budget n r" "idr_contents r = rest"
      using pipeline_pop_first [OF Suc.prems(1) assms(3) first] by blast
    let ?p = "p\<lparr>pl_queues := (pl_queues p)[nat q := r]\<rparr>"
    have inv: "pipe_inv n ?p" by (rule pipe_inv_update [OF Suc.prems(1) r(2,3) q_ok_nat [OF assms(3)]])
    have w: "waiting ?p (nat q) = rest"
      using Suc.prems(1) q_ok_nat [OF assms(3)] r(4) by (simp add: pipe_inv_def)
    have "j \<le> length (waiting ?p (nat q))" using Suc.prems(3) unfolding w first by simp
    from Suc.IH [OF inv _ this] Suc.prems(2) obtain p' where
      "pipe_run (replicate j (ScheduleQ q)) ?p = (map (Dequeued q) (take j rest), p')"
      unfolding w by auto
    then show ?case
      using r(1) Suc.prems(2) by (simp add: first pipeline_schedule_FIFO)
  qed
  then show ?thesis using target_batch_min [OF assms(3), of p m] by simp
qed

theorem pipeline_target_batch_fillable_witness:
  "unat (pipeline_stage_target_batch pipe_fresh Q_PREFILL 32) = 0"
proof -
  have q: "q_ok Q_PREFILL" "nat Q_PREFILL = 1" by (simp_all add: q_ok_def Q_PREFILL_def)
  have "pipe_inv 0 pipe_fresh" using pipe_fresh_props(1) by simp
  then have "unat (pipeline_stage_target_batch pipe_fresh Q_PREFILL 32) =
      min (min (unat (32 :: u32)) (unat (pipeline_stage_available_credits (Some pipe_fresh) Q_PREFILL)))
        (length (waiting pipe_fresh 1))"
    using pipeline_target_batch_fillable [OF _ pipe_fresh_props(3) q(1), of 0 32] unfolding q(2) by blast
  moreover have "waiting pipe_fresh 1 = []" by (rule pipe_fresh_props(2)) simp
  ultimately show ?thesis by (simp only: list.size min_0R)
qed

text \<open>
  A zero limit means two different things: \<open>pipeline_try_push\<close> treats it as unlimited and
  accepts pushes as long as the queue has room, while the available credits and hence the
  target batch of the same stage are 0 however many ids are waiting.
\<close>

theorem pipeline_zero_limit_disagreement:
  assumes "pipe_inv (Suc n) p" and "credited q" and "credit_max (pl_credits p) q = 0"
    and "length (waiting p (nat q)) < 4096"
  shows "fst (pipeline_try_push p q i) = 0 \<and> pipeline_stage_available_credits (Some p) q = 0 \<and>
    pipeline_stage_target_batch p q m = 0"
proof -
  obtain p' where "pipeline_try_push p q i = (0, p')"
    using pipeline_push_room [OF assms(1) credited_ok [OF assms(2)] assms(4), of i] assms(3)
    by (auto simp: pipeline_try_push_stage)
  moreover have credit: "pipeline_stage_available_credits (Some p) q = 0"
    using assms(2,3) by (auto simp: pipeline_stage_available_credits_def credit_defs)
  moreover have "pipeline_stage_target_batch p q m = 0"
    by (simp add: pipeline_stage_target_batch_def credit word_gt_0)
  ultimately show ?thesis by simp
qed

theorem pipeline_zero_limit_disagreement_witness:
  "fst (pipeline_try_push pipe_fresh Q_DECODE 3) = 0 \<and>
   pipeline_stage_target_batch pipe_fresh Q_DECODE 8 = 0"
proof -
  have q: "credited Q_DECODE" "nat Q_DECODE = 2" by (simp_all add: credited_def Q_DECODE_def)
  have "credit_max (pl_credits pipe_fresh) Q_DECODE = 0"
    by (simp add: pipe_fresh_props credits_zero_def credit_defs)
  moreover have "waiting pipe_fresh 2 = []" by (rule pipe_fresh_props(2)) simp
  then have "length (waiting pipe_fresh (nat Q_DECODE)) < 4096" unfolding q(2) by simp
  ultimately show ?thesis
    using pipeline_zero_limit_disagreement [OF pipe_fresh_props(1) [of "Suc 0"] q(1)] by simp
qed

end
