(* ===== verification/Trace.thy ===== *)
theory Trace
  imports Prelude
begin

text \<open>
  The event trace and its latency report: \<^verbatim>\<open>include/trace.h\<close> and \<^verbatim>\<open>src/trace.c\<close>. Events are
  written into a ring of \<open>2 ^ 20\<close> entries that overwrites the oldest ones; a report pairs start
  and end events and prints percentiles of the latencies. The clock of \<open>trace_push\<close> is an
  argument. Printed numbers are returned as values; the labels and the \<open>double\<close> formatting of
  the wall time are not modelled.
\<close>

section \<open>The trace ring\<close>

definition TRACE_CAPACITY :: u64 where "TRACE_CAPACITY = push_bit 20 1"

datatype trace_event_t =
    TRACE_ROLLOUT_ALLOC
  | TRACE_ROLLOUT_FREE
  | TRACE_DESC_POSTED
  | TRACE_DESC_COMMITTED
  | TRACE_DESC_CONSUMED
  | TRACE_COMPLETION_POSTED
  | TRACE_COMPLETION_POLLED
  | TRACE_DECODE_BATCH
  | TRACE_REWARD_POSTED
  | TRACE_REWARD_SCORED
  | TRACE_TRAJECTORY_DONE
  | TRACE_EVENT_COUNT

fun trace_code :: "trace_event_t \<Rightarrow> u32" where
  "trace_code TRACE_ROLLOUT_ALLOC = 0"
| "trace_code TRACE_ROLLOUT_FREE = 1"
| "trace_code TRACE_DESC_POSTED = 2"
| "trace_code TRACE_DESC_COMMITTED = 3"
| "trace_code TRACE_DESC_CONSUMED = 4"
| "trace_code TRACE_COMPLETION_POSTED = 5"
| "trace_code TRACE_COMPLETION_POLLED = 6"
| "trace_code TRACE_DECODE_BATCH = 7"
| "trace_code TRACE_REWARD_POSTED = 8"
| "trace_code TRACE_REWARD_SCORED = 9"
| "trace_code TRACE_TRAJECTORY_DONE = 10"
| "trace_code TRACE_EVENT_COUNT = 11"

record trace_entry_t =
  te_tsc :: u64
  te_type :: u32
  te_rollout_id :: u32
  te_seq :: u32

record TraceRing =
  tr_entries :: "trace_entry_t list"
  tr_head :: u64

definition trace_entry_zero :: trace_entry_t where
  "trace_entry_zero = \<lparr>te_tsc = 0, te_type = 0, te_rollout_id = 0, te_seq = 0\<rparr>"

definition trace_init :: "TraceRing \<Rightarrow> TraceRing" where
  "trace_init r = r\<lparr>tr_entries := replicate (unat TRACE_CAPACITY) trace_entry_zero, tr_head := 0\<rparr>"

definition trace_push_ts :: "TraceRing \<Rightarrow> u64 \<Rightarrow> trace_event_t \<Rightarrow> u32 \<Rightarrow> u32 \<Rightarrow> TraceRing" where
  "trace_push_ts r tsc ty rollout_id seq =
     (let h = tr_head r;
          pos = (ucast (h AND (TRACE_CAPACITY - 1)) :: u32);
          e = \<lparr>te_tsc = tsc, te_type = trace_code ty, te_rollout_id = rollout_id, te_seq = seq\<rparr>
      in r\<lparr>tr_entries := (tr_entries r)[unat pos := e], tr_head := h + 1\<rparr>)"

text \<open>\<open>now\<close> is the value that \<open>now_ns\<close> reads from the monotonic clock.\<close>

definition trace_push :: "u64 \<Rightarrow> TraceRing \<Rightarrow> trace_event_t \<Rightarrow> u32 \<Rightarrow> u32 \<Rightarrow> TraceRing" where
  "trace_push now r ty rollout_id seq = trace_push_ts r now ty rollout_id seq"

definition now_ns :: "i64 \<Rightarrow> i64 \<Rightarrow> u64" where
  "now_ns tv_sec tv_nsec = tv_sec * 1000000000 + tv_nsec"

definition event_name :: "u32 \<Rightarrow> string" where
  "event_name t =
     (if t = trace_code TRACE_ROLLOUT_ALLOC then ''ROLLOUT_ALLOC''
      else if t = trace_code TRACE_ROLLOUT_FREE then ''ROLLOUT_FREE''
      else if t = trace_code TRACE_DESC_POSTED then ''DESC_POSTED''
      else if t = trace_code TRACE_DESC_COMMITTED then ''DESC_COMMITTED''
      else if t = trace_code TRACE_DESC_CONSUMED then ''DESC_CONSUMED''
      else if t = trace_code TRACE_COMPLETION_POSTED then ''COMPLETION_POSTED''
      else if t = trace_code TRACE_COMPLETION_POLLED then ''COMPLETION_POLLED''
      else if t = trace_code TRACE_REWARD_POSTED then ''REWARD_POSTED''
      else if t = trace_code TRACE_REWARD_SCORED then ''REWARD_SCORED''
      else if t = trace_code TRACE_TRAJECTORY_DONE then ''TRAJECTORY_DONE''
      else ''?'')"

section \<open>Latency report\<close>

definition cmp_u64 :: "u64 \<Rightarrow> u64 \<Rightarrow> int" where
  "cmp_u64 x y = of_bool (x > y) - of_bool (x < y)"

text \<open>
  The pairing loop of \<open>report_pair\<close>. \<open>lats\<close> is the part of the buffer that has been filled, so
  its length is the counter \<open>n\<close>; the buffer has \<open>count\<close> elements.
\<close>

definition pair_matches :: "trace_event_t \<Rightarrow> trace_event_t \<Rightarrow> trace_entry_t \<Rightarrow> trace_entry_t \<Rightarrow> bool" where
  "pair_matches start_ev end_ev a b \<longleftrightarrow> te_type a = trace_code start_ev \<and> te_type b = trace_code end_ev \<and>
     te_rollout_id a = te_rollout_id b \<and> te_seq a = te_seq b \<and> te_tsc b \<ge> te_tsc a"

function pair_loop :: "trace_entry_t list \<Rightarrow> nat \<Rightarrow> trace_event_t \<Rightarrow> trace_event_t \<Rightarrow> nat \<Rightarrow> nat
    \<Rightarrow> u64 list \<Rightarrow> u64 list" where
  "pair_loop es count start_ev end_ev si ei lats =
     (if si < count \<and> ei < count \<and> length lats < count then
        let a = es ! si; b = es ! ei in
        if pair_matches start_ev end_ev a b then
          pair_loop es count start_ev end_ev (Suc si) (Suc ei) (lats @ [te_tsc b - te_tsc a])
        else if te_type a = trace_code start_ev \<and> te_type b \<noteq> trace_code end_ev then
          pair_loop es count start_ev end_ev si (Suc ei) lats
        else if te_type a \<noteq> trace_code start_ev then
          pair_loop es count start_ev end_ev (Suc si) ei lats
        else pair_loop es count start_ev end_ev (Suc si) (Suc ei) lats
      else lats)"
  by pat_completeness auto
termination
  by (relation "measure (\<lambda>(es, count, s, e, si, ei, lats). (count - si) + (count - ei))") auto

declare pair_loop.simps [simp del]

datatype pair_report =
    NoBuffer
  | NoSamples
  | Report (samples: nat) (average: u64) (p50: u64) (p90: u64) (p99: u64)

text \<open>
  The C library's \<open>qsort\<close> arranges the elements so that the comparison of neighbours is not
  positive; insertion by the comparison function is one such arrangement.
\<close>

fun qinsert :: "('a \<Rightarrow> 'a \<Rightarrow> int) \<Rightarrow> 'a \<Rightarrow> 'a list \<Rightarrow> 'a list" where
  "qinsert cmp x [] = [x]"
| "qinsert cmp x (y # ys) = (if cmp x y \<le> 0 then x # y # ys else y # qinsert cmp x ys)"

definition qsort :: "('a \<Rightarrow> 'a \<Rightarrow> int) \<Rightarrow> 'a list \<Rightarrow> 'a list" where
  "qsort cmp xs = foldr (qinsert cmp) xs []"

text \<open>The statistics of a non-empty buffer.\<close>

definition pair_stats :: "u64 list \<Rightarrow> pair_report" where
  "pair_stats lats =
     (let n = length lats; s = qsort cmp_u64 lats
      in Report n (sum_list s div of_nat n) (s ! (n div 2)) (s ! (n * 9 div 10)) (s ! (n * 99 div 100)))"

text \<open>\<open>alloc_ok\<close> is the outcome of \<open>calloc\<close>.\<close>

definition report_pair :: "bool \<Rightarrow> TraceRing \<Rightarrow> u64 \<Rightarrow> trace_event_t \<Rightarrow> trace_event_t \<Rightarrow> pair_report" where
  "report_pair alloc_ok r count start_ev end_ev =
     (if \<not> alloc_ok then NoBuffer
      else let lats = pair_loop (tr_entries r) (unat count) start_ev end_ev 0 0 []
           in if length lats = 0 then NoSamples else pair_stats lats)"

definition trace_count :: "TraceRing \<Rightarrow> u64" where
  "trace_count r = (let count = tr_head r in if count > TRACE_CAPACITY then TRACE_CAPACITY else count)"

definition trace_report_from :: "bool \<Rightarrow> TraceRing \<Rightarrow> int \<times> (u64 \<times> pair_report list)" where
  "trace_report_from alloc_ok r =
     (let count = trace_count r
      in (0, count, map (\<lambda>(s, e). report_pair alloc_ok r count s e)
           [(TRACE_DESC_POSTED, TRACE_DESC_COMMITTED),
            (TRACE_DESC_POSTED, TRACE_DESC_CONSUMED),
            (TRACE_DESC_POSTED, TRACE_COMPLETION_POLLED),
            (TRACE_DESC_CONSUMED, TRACE_COMPLETION_POLLED),
            (TRACE_ROLLOUT_ALLOC, TRACE_REWARD_POSTED),
            (TRACE_ROLLOUT_ALLOC, TRACE_TRAJECTORY_DONE),
            (TRACE_REWARD_POSTED, TRACE_REWARD_SCORED),
            (TRACE_REWARD_POSTED, TRACE_TRAJECTORY_DONE)]))"

section \<open>Lemmas\<close>

lemma TRACE_CAPACITY_num: "TRACE_CAPACITY = 1048576"
  by (simp add: TRACE_CAPACITY_def)

lemma trace_pos: "unat (ucast (h AND (TRACE_CAPACITY - 1)) :: u32) = unat h mod 2 ^ 20"
proof -
  have *: "unat (h AND (TRACE_CAPACITY - 1)) = unat h mod 2 ^ 20"
    using unat_and_mask [of h 20] by (simp add: TRACE_CAPACITY_num)
  moreover have "unat h mod 2 ^ 20 < 2 ^ 20" by (rule mod_less_divisor) simp
  ultimately have "unat (h AND (TRACE_CAPACITY - 1)) < 2 ^ 32" by simp
  then show ?thesis using * by (simp add: unsigned_ucast_eq take_bit_nat_eq_self)
qed

lemma qsort_cmp_u64: "qsort cmp_u64 = sort"
proof -
  have "qinsert cmp_u64 x ys = insort x ys" for x ys
    by (induction ys) (auto simp: cmp_u64_def)
  then have "qinsert cmp_u64 = insort" by blast
  then show ?thesis by (intro ext) (simp add: qsort_def sort_key_def)
qed

text \<open>The events of a history, pushed in order.\<close>

fun trace_pushes :: "(u64 \<times> trace_event_t \<times> u32 \<times> u32) list \<Rightarrow> TraceRing \<Rightarrow> TraceRing" where
  "trace_pushes [] r = r"
| "trace_pushes ((tsc, ty, i, seq) # evs) r = trace_pushes evs (trace_push_ts r tsc ty i seq)"

definition event_entry :: "u64 \<times> trace_event_t \<times> u32 \<times> u32 \<Rightarrow> trace_entry_t" where
  "event_entry e = (case e of (tsc, ty, i, seq) \<Rightarrow>
     \<lparr>te_tsc = tsc, te_type = trace_code ty, te_rollout_id = i, te_seq = seq\<rparr>)"

lemma trace_pushes_snoc:
  "trace_pushes (evs @ [(tsc, ty, i, seq)]) r = trace_push_ts (trace_pushes evs r) tsc ty i seq"
  by (induction evs r rule: trace_pushes.induct) simp_all

lemma trace_pushes_entries:
  assumes "length evs < 2 ^ 64"
  shows "unat (tr_head (trace_pushes evs (trace_init r))) = length evs \<and>
    length (tr_entries (trace_pushes evs (trace_init r))) = 2 ^ 20 \<and>
    (\<forall>j < length evs. length evs \<le> j + 2 ^ 20 \<longrightarrow>
      tr_entries (trace_pushes evs (trace_init r)) ! (j mod 2 ^ 20) = event_entry (evs ! j))"
  using assms
proof (induction evs rule: rev_induct)
  case Nil
  then show ?case by (simp add: trace_init_def TRACE_CAPACITY_num)
next
  case (snoc e evs)
  obtain tsc ty i seq where e: "e = (tsc, ty, i, seq)" by (cases e) auto
  let ?r = "trace_pushes evs (trace_init r)" and ?n = "length evs"
  have IH: "unat (tr_head ?r) = ?n" "length (tr_entries ?r) = 2 ^ 20"
    and IHe: "\<And>j. j < ?n \<Longrightarrow> ?n \<le> j + 2 ^ 20 \<Longrightarrow> tr_entries ?r ! (j mod 2 ^ 20) = event_entry (evs ! j)"
    using snoc by auto
  let ?r' = "trace_push_ts ?r tsc ty i seq"
  have entries: "tr_entries ?r' = (tr_entries ?r)[?n mod 2 ^ 20 := event_entry e]"
    by (simp add: trace_push_ts_def trace_pos IH(1) event_entry_def e del: power_numeral)
  have head: "unat (tr_head ?r') = Suc ?n"
    using snoc.prems IH(1) by (simp add: trace_push_ts_def unat_word_ariths)
  have "tr_entries ?r' ! (j mod 2 ^ 20) = event_entry ((evs @ [e]) ! j)"
    if j: "j < Suc ?n" "Suc ?n \<le> j + 2 ^ 20" for j
  proof (cases "j = ?n")
    case True
    then show ?thesis using IH(2) unfolding entries by simp
  next
    case False
    have "?n - j < 2 ^ 20" "j \<le> ?n" using j by simp_all
    then have "?n mod 2 ^ 20 \<noteq> j mod 2 ^ 20"
      using mod_add_inj [of j "?n - j" "2 ^ 20" 0] False by auto
    then show ?thesis using IHe [of j] j False unfolding entries by (simp add: nth_append)
  qed
  then show ?case
    using head IH(2) unfolding e trace_pushes_snoc
    by (simp add: entries [unfolded e] trace_push_ts_def)
qed

text \<open>One iteration of the pairing loop, by the branch it takes.\<close>

lemma pair_loop_match:
  "si < count \<Longrightarrow> ei < count \<Longrightarrow> length lats < count \<Longrightarrow> pair_matches s e (es ! si) (es ! ei) \<Longrightarrow>
   pair_loop es count s e si ei lats =
     pair_loop es count s e (Suc si) (Suc ei) (lats @ [te_tsc (es ! ei) - te_tsc (es ! si)])"
  by (subst pair_loop.simps) simp

lemma pair_loop_next_end:
  "si < count \<Longrightarrow> ei < count \<Longrightarrow> length lats < count \<Longrightarrow> te_type (es ! si) = trace_code s \<Longrightarrow>
   te_type (es ! ei) \<noteq> trace_code e \<Longrightarrow>
   pair_loop es count s e si ei lats = pair_loop es count s e si (Suc ei) lats"
  by (subst pair_loop.simps) (simp add: pair_matches_def)

lemma pair_loop_next_start:
  "si < count \<Longrightarrow> ei < count \<Longrightarrow> length lats < count \<Longrightarrow> te_type (es ! si) \<noteq> trace_code s \<Longrightarrow>
   pair_loop es count s e si ei lats = pair_loop es count s e (Suc si) ei lats"
  by (subst pair_loop.simps) (simp add: pair_matches_def)

lemma pair_loop_done:
  "\<not> (si < count \<and> ei < count \<and> length lats < count) \<Longrightarrow> pair_loop es count s e si ei lats = lats"
  by (subst pair_loop.simps) (rule if_not_P)

text \<open>
  The latency of the pair of positions \<open>(i, j)\<close>, what makes such a pair genuine, and the order in
  which the loop meets the pairs: both cursors have moved on, so no event is used twice.
\<close>

definition pair_latency :: "trace_entry_t list \<Rightarrow> nat \<times> nat \<Rightarrow> u64" where
  "pair_latency es = (\<lambda>(i, j). te_tsc (es ! j) - te_tsc (es ! i))"

definition genuine_pair :: "trace_entry_t list \<Rightarrow> nat \<Rightarrow> trace_event_t \<Rightarrow> trace_event_t \<Rightarrow> nat \<times> nat \<Rightarrow> bool" where
  "genuine_pair es count s e = (\<lambda>(i, j). i < count \<and> j < count \<and> pair_matches s e (es ! i) (es ! j))"

definition pair_before :: "nat \<times> nat \<Rightarrow> nat \<times> nat \<Rightarrow> bool" where
  "pair_before = (\<lambda>(i, j) (i', j'). i < i' \<and> j < j')"

lemma pair_latency_exact:
  "genuine_pair es count s e (i, j) \<Longrightarrow>
   unat (pair_latency es (i, j)) = unat (te_tsc (es ! j)) - unat (te_tsc (es ! i))"
  by (simp add: genuine_pair_def pair_matches_def pair_latency_def unat_sub)

lemma pair_loop_pairs:
  "\<exists>ps. pair_loop es count s e si ei lats = lats @ map (pair_latency es) ps \<and>
     (\<forall>(i, j) \<in> set ps. si \<le> i \<and> ei \<le> j \<and> genuine_pair es count s e (i, j)) \<and>
     sorted_wrt pair_before ps"
proof (induction es count s e si ei lats rule: pair_loop.induct)
  case (1 es count s e si ei lats)
  let ?a = "es ! si" and ?b = "es ! ei"
  show ?case
  proof (cases "si < count \<and> ei < count \<and> length lats < count")
    case False
    then show ?thesis by (intro exI [of _ "[]"]) (simp add: pair_loop_done)
  next
    case True
    consider (m) "pair_matches s e ?a ?b"
      | (ne) "\<not> pair_matches s e ?a ?b" "te_type ?a = trace_code s" "te_type ?b \<noteq> trace_code e"
      | (ns) "\<not> pair_matches s e ?a ?b" "te_type ?a \<noteq> trace_code s"
      | (both) "\<not> pair_matches s e ?a ?b" "te_type ?a = trace_code s" "te_type ?b = trace_code e"
      by blast
    then show ?thesis
    proof cases
      case m
      have eq: "pair_loop es count s e si ei lats =
          pair_loop es count s e (Suc si) (Suc ei) (lats @ [pair_latency es (si, ei)])"
        using True m by (simp add: pair_loop_match pair_latency_def)
      from 1(1) [OF True refl refl m] obtain ps where
        "pair_loop es count s e (Suc si) (Suc ei) (lats @ [pair_latency es (si, ei)]) =
           (lats @ [pair_latency es (si, ei)]) @ map (pair_latency es) ps"
        "\<forall>(i, j) \<in> set ps. Suc si \<le> i \<and> Suc ei \<le> j \<and> genuine_pair es count s e (i, j)"
        "sorted_wrt pair_before ps"
        by (auto simp: pair_latency_def)
      then show ?thesis
        using True m unfolding eq
        by (intro exI [of _ "(si, ei) # ps"]) (auto simp: genuine_pair_def pair_before_def)
    next
      case ne
      have "pair_loop es count s e si ei lats = pair_loop es count s e si (Suc ei) lats"
        using True ne by (intro pair_loop_next_end) simp_all
      then show ?thesis using 1(2) [OF True refl refl ne(1)] ne by fastforce
    next
      case ns
      have "pair_loop es count s e si ei lats = pair_loop es count s e (Suc si) ei lats"
        using True ns by (intro pair_loop_next_start) simp_all
      then show ?thesis using 1(3) [OF True refl refl ns(1)] ns by fastforce
    next
      case both
      have "pair_loop es count s e si ei lats = pair_loop es count s e (Suc si) (Suc ei) lats"
        using True both by (subst pair_loop.simps) simp
      then show ?thesis using 1(4) [OF True refl refl both(1)] both by fastforce
    qed
  qed
qed

lemma pair_before_length:
  assumes "sorted_wrt pair_before ps" and "\<forall>(i, j) \<in> set ps. i < count"
  shows "length ps \<le> count"
proof -
  have "sorted_wrt (<) (map fst ps)"
    unfolding sorted_wrt_map
    by (rule sorted_wrt_mono_rel [OF _ assms(1)]) (simp add: pair_before_def case_prod_unfold)
  then have "card (set (map fst ps)) = length ps"
    by (metis distinct_card length_map strict_sorted_iff)
  moreover have "set (map fst ps) \<subseteq> {..<count}" using assms(2) by auto
  then have "card (set (map fst ps)) \<le> count" using card_mono [of "{..<count}"] by fastforce
  ultimately show ?thesis by simp
qed

text \<open>Traces in which every start event is directly followed by its end event.\<close>

definition pair_trace :: "(trace_entry_t \<times> trace_entry_t) list \<Rightarrow> trace_entry_t list" where
  "pair_trace ps = concat (map (\<lambda>(a, b). [a, b]) ps)"

lemma length_pair_trace [simp]: "length (pair_trace ps) = 2 * length ps"
  by (induction ps) (auto simp: pair_trace_def)

lemma pair_trace_nth:
  "k < length ps \<Longrightarrow> pair_trace ps ! (2 * k) = fst (ps ! k)"
  "k < length ps \<Longrightarrow> pair_trace ps ! Suc (2 * k) = snd (ps ! k)"
proof (induction ps arbitrary: k)
  case (Cons p ps)
  {
    case 1
    then show ?case using Cons.IH(1) by (cases k) (auto simp: pair_trace_def case_prod_unfold)
  next
    case 2
    then show ?case using Cons.IH(2) by (cases k) (auto simp: pair_trace_def case_prod_unfold)
  }
qed simp_all

lemma pair_loop_pair_trace:
  assumes "trace_code s \<noteq> trace_code e" and "\<forall>(a, b) \<in> set ps. pair_matches s e a b"
    and "k \<le> length ps" and "length lats = k"
  shows "pair_loop (pair_trace ps) (2 * length ps) s e (2 * k) (2 * k) lats =
    lats @ map (\<lambda>(a, b). te_tsc b - te_tsc a) (drop k ps)"
  using assms(3,4)
proof (induction "length ps - k" arbitrary: k lats)
  case 0
  then show ?case by (simp add: pair_loop_done)
next
  case (Suc m)
  let ?es = "pair_trace ps" and ?c = "2 * length ps"
  have k: "k < length ps" using Suc.hyps(2) by simp
  obtain a b where ab: "ps ! k = (a, b)" by fastforce
  then have m: "pair_matches s e a b" using assms(2) k nth_mem [OF k] by auto
  have nth: "?es ! (2 * k) = a" "?es ! Suc (2 * k) = b" using pair_trace_nth [OF k] ab by simp_all
  let ?l = "lats @ [te_tsc b - te_tsc a]"
  have "pair_loop ?es ?c s e (2 * k) (2 * k) lats = pair_loop ?es ?c s e (2 * k) (Suc (2 * k)) lats"
    using k m assms(1) Suc.prems by (intro pair_loop_next_end) (simp_all add: nth pair_matches_def)
  also have "\<dots> = pair_loop ?es ?c s e (Suc (2 * k)) (Suc (Suc (2 * k))) ?l"
    using k m Suc.prems by (subst pair_loop_match) (simp_all add: nth)
  also have "\<dots> = pair_loop ?es ?c s e (2 * Suc k) (2 * Suc k) ?l"
  proof (cases "Suc k < length ps")
    case True
    then show ?thesis
      using m assms(1) Suc.prems
      by (subst pair_loop_next_start) (auto simp: nth pair_matches_def)
  next
    case False
    then show ?thesis using Suc.prems by (simp add: pair_loop_done)
  qed
  also have "\<dots> = ?l @ map (\<lambda>(a, b). te_tsc b - te_tsc a) (drop (Suc k) ps)"
    using Suc.hyps(1) [of "Suc k" ?l] Suc.hyps(2) Suc.prems k by simp
  also have "\<dots> = lats @ map (\<lambda>(a, b). te_tsc b - te_tsc a) (drop k ps)"
    using Cons_nth_drop_Suc [OF k, symmetric] ab by simp
  finally show ?case .
qed

lemma unat_sum_list:
  fixes xs :: "u64 list"
  assumes "sum_list (map unat xs) < 2 ^ 64"
  shows "unat (sum_list xs) = sum_list (map unat xs)"
  using assms by (induction xs) (simp_all add: unat_word_ariths)

lemma sum_list_map_insort: "sum_list (map f (insort x xs)) = (f x :: nat) + sum_list (map f xs)"
  by (induction xs) auto

lemma sum_list_map_sort: "sum_list (map f (sort xs)) = (sum_list (map f xs) :: nat)"
  by (induction xs) (simp_all add: sum_list_map_insort)

section \<open>Properties\<close>

text \<open>
  C39. The trace ring keeps the most recent \<open>2 ^ 20\<close> events: after any history of fewer than
  \<open>2 ^ 64\<close> events, the reported count is the smaller of the history's length and the capacity,
  and every event among the last \<open>2 ^ 20\<close> is stored, unmodified, at its number modulo the
  capacity.
\<close>

theorem trace_keeps_recent_events:
  assumes "length evs < 2 ^ 64"
  shows "unat (trace_count (trace_pushes evs (trace_init r))) = min (length evs) (2 ^ 20) \<and>
    (\<forall>j < length evs. length evs \<le> j + 2 ^ 20 \<longrightarrow>
      tr_entries (trace_pushes evs (trace_init r)) ! (j mod 2 ^ 20) = event_entry (evs ! j))"
proof -
  let ?r = "trace_pushes evs (trace_init r)"
  have "unat (tr_head ?r) = length evs" using trace_pushes_entries [OF assms, of r] by blast
  then have "unat (trace_count ?r) = min (length evs) (2 ^ 20)"
    by (simp add: trace_count_def TRACE_CAPACITY_num word_less_nat_alt min_def)
  then show ?thesis using trace_pushes_entries [OF assms, of r] by blast
qed

theorem trace_keeps_recent_events_witness:
  "let evs = [(5, TRACE_DESC_POSTED, 1, 2), (8, TRACE_DESC_POSTED, 1, 3)];
       r = trace_pushes evs (trace_init \<lparr>tr_entries = [], tr_head = 9\<rparr>) in
   unat (trace_count r) = 2 \<and> tr_entries r ! 1 = event_entry (8, TRACE_DESC_POSTED, 1, 3)"
proof -
  let ?evs = "[(5, TRACE_DESC_POSTED, 1, 2), (8, TRACE_DESC_POSTED, 1, 3)]"
  note kept = trace_keeps_recent_events [of ?evs "\<lparr>tr_entries = [], tr_head = 9\<rparr>"]
  have "length ?evs < 2 ^ 64" "(1 :: nat) < length ?evs" "length ?evs \<le> 1 + 2 ^ 20" by simp_all
  then have "tr_entries (trace_pushes ?evs (trace_init \<lparr>tr_entries = [], tr_head = 9\<rparr>)) ! (1 mod 2 ^ 20) = event_entry (?evs ! 1)"
    using kept by blast
  then show ?thesis using kept unfolding Let_def by simp
qed

text \<open>
  C23. Every latency of a report is genuine: for any trace contents and any two event types, the
  samples are the exact, non-negative time differences of recorded events of those types with the
  same rollout and sequence number, no event is used for two samples, and the sample buffer of
  \<open>count\<close> elements is never overrun. The pairing loop terminates on every trace.
\<close>

theorem report_pair_genuine:
  "\<exists>ps. pair_loop es count s e 0 0 [] = map (pair_latency es) ps \<and>
     (\<forall>p \<in> set ps. genuine_pair es count s e p \<and>
        unat (pair_latency es p) = unat (te_tsc (es ! snd p)) - unat (te_tsc (es ! fst p))) \<and>
     sorted_wrt pair_before ps \<and> length ps \<le> count"
proof -
  from pair_loop_pairs [of es count s e 0 0 "[]"] obtain ps where
    ps: "pair_loop es count s e 0 0 [] = map (pair_latency es) ps" "sorted_wrt pair_before ps"
      "\<forall>(i, j) \<in> set ps. genuine_pair es count s e (i, j)"
    by fastforce
  moreover have "\<forall>(i, j) \<in> set ps. i < count" using ps(3) by (auto simp: genuine_pair_def)
  ultimately show ?thesis
    using pair_before_length [of ps count] pair_latency_exact by (intro exI [of _ ps]) fastforce
qed

theorem report_pair_genuine_witness:
  "genuine_pair [event_entry (10, TRACE_DESC_POSTED, 1, 0), event_entry (17, TRACE_DESC_COMMITTED, 1, 0)] 2
     TRACE_DESC_POSTED TRACE_DESC_COMMITTED (0, 1)"
proof -
  let ?es = "[event_entry (10, TRACE_DESC_POSTED, 1, 0), event_entry (17, TRACE_DESC_COMMITTED, 1, 0)]"
  obtain ps where ps: "pair_loop ?es 2 TRACE_DESC_POSTED TRACE_DESC_COMMITTED 0 0 [] = map (pair_latency ?es) ps"
    "\<forall>p \<in> set ps. genuine_pair ?es 2 TRACE_DESC_POSTED TRACE_DESC_COMMITTED p"
    using report_pair_genuine [of ?es 2 TRACE_DESC_POSTED TRACE_DESC_COMMITTED] by blast
  have "pair_loop ?es 2 TRACE_DESC_POSTED TRACE_DESC_COMMITTED 0 0 [] = [7]"
    by (simp add: pair_loop.simps event_entry_def pair_matches_def)
  with ps(1) obtain i j where "ps = [(i, j)]" "pair_latency ?es (i, j) = 7" by auto
  moreover with ps(2) have "i < 2" "j < 2" by (auto simp: genuine_pair_def)
  ultimately show ?thesis
    using ps(2) by (auto simp: less_2_cases_iff pair_latency_def event_entry_def genuine_pair_def pair_matches_def)
qed

text \<open>
  On a trace in which every start event is directly followed by its end event, the report
  misses nothing: the samples are the latencies of all pairs, in order.
\<close>

theorem report_pair_complete_sequential:
  assumes "trace_code s \<noteq> trace_code e" and "\<forall>(a, b) \<in> set ps. pair_matches s e a b"
  shows "pair_loop (pair_trace ps) (length (pair_trace ps)) s e 0 0 [] =
    map (\<lambda>(a, b). te_tsc b - te_tsc a) ps"
  using pair_loop_pair_trace [OF assms, of 0 "[]"] by simp

theorem report_pair_complete_sequential_witness:
  "pair_loop (pair_trace [(event_entry (10, TRACE_DESC_POSTED, 1, 0), event_entry (17, TRACE_DESC_COMMITTED, 1, 0))])
     2 TRACE_DESC_POSTED TRACE_DESC_COMMITTED 0 0 [] = [7]"
  using report_pair_complete_sequential [of TRACE_DESC_POSTED TRACE_DESC_COMMITTED
      "[(event_entry (10, TRACE_DESC_POSTED, 1, 0), event_entry (17, TRACE_DESC_COMMITTED, 1, 0))]"]
  by (simp add: event_entry_def pair_matches_def)

lemma nth_sort_share:
  fixes xs :: "'a::linorder list"
  assumes "k < length xs"
  shows "k < length (filter (\<lambda>x. x \<le> sort xs ! k) xs)"
proof -
  let ?s = "sort xs"
  have "\<forall>x \<in> set (take (Suc k) ?s). x \<le> ?s ! k"
    using assms by (auto simp: in_set_conv_nth intro!: sorted_nth_mono)
  then have "filter (\<lambda>x. x \<le> ?s ! k) (take (Suc k) ?s) = take (Suc k) ?s" by simp
  then have "length (filter (\<lambda>x. x \<le> ?s ! k) (take (Suc k) ?s)) = Suc k" using assms by simp
  moreover have "length (filter (\<lambda>x. x \<le> ?s ! k) ?s) =
      length (filter (\<lambda>x. x \<le> ?s ! k) (take (Suc k) ?s)) +
      length (filter (\<lambda>x. x \<le> ?s ! k) (drop (Suc k) ?s))"
    by (metis append_take_drop_id filter_append length_append)
  ultimately show ?thesis by (simp add: filter_sort)
qed

text \<open>
  The statistics of a non-empty sample set are sound: the three percentiles are samples, they
  are ordered p50 <= p90 <= p99, at least the stated share of the samples does not exceed each of
  them, and the average is the exact integer average whenever the sum fits 64 bits.
\<close>

theorem pair_stats_sound:
  assumes "lats \<noteq> []"
  shows "samples (pair_stats lats) = length lats \<and>
    p50 (pair_stats lats) \<le> p90 (pair_stats lats) \<and> p90 (pair_stats lats) \<le> p99 (pair_stats lats) \<and>
    {p50 (pair_stats lats), p90 (pair_stats lats), p99 (pair_stats lats)} \<subseteq> set lats \<and>
    length lats div 2 < length (filter (\<lambda>x. x \<le> p50 (pair_stats lats)) lats) \<and>
    length lats * 9 div 10 < length (filter (\<lambda>x. x \<le> p90 (pair_stats lats)) lats) \<and>
    length lats * 99 div 100 < length (filter (\<lambda>x. x \<le> p99 (pair_stats lats)) lats) \<and>
    (sum_list (map unat lats) < 2 ^ 64 \<longrightarrow> length lats < 2 ^ 64 \<longrightarrow>
      unat (average (pair_stats lats)) = sum_list (map unat lats) div length lats)"
proof -
  let ?s = "sort lats" and ?n = "length lats"
  have n: "0 < ?n" using assms by simp
  then have i99: "?n * 99 div 100 < ?n" by (simp add: div_less_iff_less_mult)
  have "?n div 2 = ?n * 5 div 10" by simp
  also have "\<dots> \<le> ?n * 9 div 10" by (intro div_le_mono) simp
  finally have i50: "?n div 2 \<le> ?n * 9 div 10" .
  have "?n * 9 div 10 = ?n * 90 div 100" by simp
  also have "\<dots> \<le> ?n * 99 div 100" by (intro div_le_mono) simp
  finally have i90: "?n * 9 div 10 \<le> ?n * 99 div 100" .
  have i90': "?n * 9 div 10 < ?n" using i90 i99 by simp
  have mono: "?s ! i \<le> ?s ! j" if "i \<le> j" "j < ?n" for i j
    using that by (intro sorted_nth_mono) simp_all
  have mem: "?s ! i \<in> set lats" if "i < ?n" for i
    using nth_mem [of i ?s] that by simp
  have share: "k < length (filter (\<lambda>x. x \<le> ?s ! k) lats)" if "k < ?n" for k
    using that by (rule nth_sort_share)
  moreover have "unat (sum_list ?s div of_nat ?n) = sum_list (map unat lats) div ?n"
    if "sum_list (map unat lats) < 2 ^ 64" "?n < 2 ^ 64"
  proof -
    have "sum_list (map unat ?s) = sum_list (map unat lats)"
      by (rule sum_list_map_sort)
    then have "unat (sum_list ?s) = sum_list (map unat lats)" using that unat_sum_list [of ?s] by simp
    moreover have "unat (of_nat ?n :: u64) = ?n" using that by (simp add: unat_of_nat)
    ultimately show ?thesis by (simp add: unat_div_distrib)
  qed
  ultimately show ?thesis
    using mono [OF i50] mono [OF i90 i99] mem i50 i90 i99
      share [OF order.strict_trans1 [OF i50 i90']] share [OF i90'] share [OF i99]
    by (simp add: pair_stats_def qsort_cmp_u64)
qed

theorem pair_stats_sound_witness:
  "p50 (pair_stats [30, 10, 20]) \<le> p99 (pair_stats [30, 10, 20]) \<and>
   unat (average (pair_stats [30, 10, 20])) = 20"
  using pair_stats_sound [of "[30, 10, 20]"] by (auto intro: order_trans)

text \<open>
  The report can miss pairs when two rollouts overlap: on the trace start 1, start 2, end 2,
  end 1 the loop discards the mismatched pair (start 1, end 2) on both sides, so no latency is
  reported although both rollouts completed.
\<close>

theorem report_pair_drops_interleaved:
  "pair_loop [event_entry (1, TRACE_DESC_POSTED, 1, 0), event_entry (2, TRACE_DESC_POSTED, 2, 0),
      event_entry (3, TRACE_DESC_COMMITTED, 2, 0), event_entry (4, TRACE_DESC_COMMITTED, 1, 0)]
     4 TRACE_DESC_POSTED TRACE_DESC_COMMITTED 0 0 [] = []"
  by (simp add: pair_loop.simps event_entry_def pair_matches_def)

end
