(* ===== verification/Publication.thy ===== *)
theory Publication
  imports Prelude
begin

text \<open>
  The publication protocol of \<^verbatim>\<open>lab/06_memory_ordering/bench.c\<close>, which isolates the rule that all
  rings of the runtime follow: write the payload, then publish the index. Every access to the
  shared state is a step of its own and the two threads interleave arbitrarily. The flag
  \<open>correct\<close> selects the mode: payload first, or the deliberately broken index first. A single
  thread's stores become visible in program order. The measured window of a stale read is an
  arbitrary number.
\<close>

section \<open>State and steps\<close>

record SharedState =
  sh_seq :: u64
  sh_payload :: u64
  sh_published :: u64
  sh_consumed :: u64
  sh_stop :: bool
  sh_stale_reads :: u64
  sh_max_window_cycles :: u64
  sh_iterations :: u64

datatype producer_pc = PWait u64 | PSeq u64 | PPay u64 | PPub u64 | PDone

datatype consumer_pc = CTop u64 | CPub u64 bool | CSeq u64 u64 | CPay u64 u64 u64 | CAck u64 | CExit

record pub_state =
  pb_shared :: SharedState
  pb_prod :: producer_pc
  pb_cons :: consumer_pc

definition pub_init :: "u64 \<Rightarrow> pub_state" where
  "pub_init n = \<lparr>pb_shared = \<lparr>sh_seq = 0, sh_payload = 0, sh_published = 0, sh_consumed = 0,
     sh_stop = False, sh_stale_reads = 0, sh_max_window_cycles = 0, sh_iterations = n\<rparr>,
     pb_prod = PWait 1, pb_cons = CTop 0\<rparr>"

text \<open>The next access of the producer thread; spinning changes nothing.\<close>

fun producer_thread :: "bool \<Rightarrow> producer_pc \<Rightarrow> SharedState \<Rightarrow> producer_pc \<times> SharedState" where
  "producer_thread correct (PWait seq) sh =
     (if seq \<le> sh_iterations sh then
        if sh_consumed sh \<noteq> seq - 1 then (PWait seq, sh)
        else (if correct then PSeq seq else PPub seq, sh)
      else (PDone, sh\<lparr>sh_stop := True\<rparr>))"
| "producer_thread correct (PSeq seq) sh = (PPay seq, sh\<lparr>sh_seq := seq\<rparr>)"
| "producer_thread correct (PPay seq) sh =
     (if correct then PPub seq else PWait (seq + 1), sh\<lparr>sh_payload := seq\<rparr>)"
| "producer_thread correct (PPub seq) sh =
     (if correct then PWait (seq + 1) else PSeq seq, sh\<lparr>sh_published := seq\<rparr>)"
| "producer_thread correct PDone sh = (PDone, sh)"

text \<open>The next access of the consumer thread; \<open>window\<close> is the clock difference it measures.\<close>

fun consumer_thread :: "u64 \<Rightarrow> consumer_pc \<Rightarrow> SharedState \<Rightarrow> consumer_pc \<times> SharedState" where
  "consumer_thread window (CTop last_seen) sh = (CPub last_seen (sh_stop sh), sh)"
| "consumer_thread window (CPub last_seen stopped) sh =
     (let published = sh_published sh in
      if published \<noteq> last_seen then (CSeq last_seen published, sh)
      else if stopped then (CExit, sh)
      else (CTop last_seen, sh))"
| "consumer_thread window (CSeq last_seen published) sh = (CPay last_seen published (sh_seq sh), sh)"
| "consumer_thread window (CPay last_seen published payload_seq) sh =
     (let payload = sh_payload sh in
      if payload_seq \<noteq> published \<or> payload \<noteq> published then
        (CTop last_seen, sh\<lparr>sh_stale_reads := sh_stale_reads sh + 1,
           sh_max_window_cycles := (if window > sh_max_window_cycles sh then window
                                    else sh_max_window_cycles sh)\<rparr>)
      else (CAck published, sh))"
| "consumer_thread window (CAck published) sh = (CTop published, sh\<lparr>sh_consumed := published\<rparr>)"
| "consumer_thread window CExit sh = (CExit, sh)"

inductive pub_step :: "bool \<Rightarrow> pub_state \<Rightarrow> pub_state \<Rightarrow> bool" for correct where
  producer_moves: "producer_thread correct (pb_prod s) (pb_shared s) = (pc, sh) \<Longrightarrow>
     pub_step correct s (s\<lparr>pb_prod := pc, pb_shared := sh\<rparr>)"
| consumer_moves: "consumer_thread window (pb_cons s) (pb_shared s) = (pc, sh) \<Longrightarrow>
     pub_step correct s (s\<lparr>pb_cons := pc, pb_shared := sh\<rparr>)"

inductive pub_reachable :: "bool \<Rightarrow> u64 \<Rightarrow> pub_state \<Rightarrow> bool" for correct n where
  pub_start: "pub_reachable correct n (pub_init n)"
| pub_next: "pub_reachable correct n s \<Longrightarrow> pub_step correct s t \<Longrightarrow> pub_reachable correct n t"

section \<open>Invariant of the correct mode\<close>

fun producer_ok :: "SharedState \<Rightarrow> producer_pc \<Rightarrow> bool" where
  "producer_ok sh (PWait s) = (sh_published sh = s - 1 \<and> sh_seq sh = s - 1 \<and> sh_payload sh = s - 1)"
| "producer_ok sh (PSeq s) = (sh_published sh = s - 1 \<and> sh_consumed sh = sh_published sh)"
| "producer_ok sh (PPay s) =
     (sh_published sh = s - 1 \<and> sh_consumed sh = sh_published sh \<and> sh_seq sh = s)"
| "producer_ok sh (PPub s) =
     (sh_published sh = s - 1 \<and> sh_consumed sh = sh_published sh \<and> sh_seq sh = s \<and> sh_payload sh = s)"
| "producer_ok sh PDone = (sh_seq sh = sh_published sh \<and> sh_payload sh = sh_published sh)"

fun consumer_ok :: "SharedState \<Rightarrow> consumer_pc \<Rightarrow> bool" where
  "consumer_ok sh (CTop l) = (l = sh_consumed sh)"
| "consumer_ok sh (CPub l d) = (l = sh_consumed sh)"
| "consumer_ok sh (CSeq l p) = (l = sh_consumed sh \<and> p = sh_published sh \<and> p \<noteq> l)"
| "consumer_ok sh (CPay l p q) = (l = sh_consumed sh \<and> p = sh_published sh \<and> p \<noteq> l \<and> q = p)"
| "consumer_ok sh (CAck p) = (p = sh_published sh \<and> p \<noteq> sh_consumed sh)"
| "consumer_ok sh CExit = True"

definition pub_inv :: "pub_state \<Rightarrow> bool" where
  "pub_inv s \<longleftrightarrow> (let sh = pb_shared s in
     producer_ok sh (pb_prod s) \<and> consumer_ok sh (pb_cons s) \<and> sh_stale_reads sh = 0 \<and>
     (sh_published sh = sh_consumed sh \<or> sh_published sh = sh_consumed sh + 1))"

lemma pub_inv_init: "pub_inv (pub_init n)"
  by (simp add: pub_inv_def pub_init_def)

lemma consumer_ok_frame:
  "sh_consumed sh' = sh_consumed sh \<Longrightarrow> sh_published sh' = sh_published sh \<Longrightarrow>
   consumer_ok sh' c = consumer_ok sh c"
  by (cases c) simp_all

lemma consumer_ok_publish:
  "sh_consumed sh = sh_published sh \<Longrightarrow> consumer_ok sh c \<Longrightarrow> consumer_ok (sh\<lparr>sh_published := x\<rparr>) c"
  by (cases c) simp_all

lemma producer_ok_ack:
  "sh_consumed sh \<noteq> sh_published sh \<Longrightarrow> producer_ok sh p \<Longrightarrow> producer_ok (sh\<lparr>sh_consumed := x\<rparr>) p"
  by (cases p) simp_all

text \<open>While a published item is unconsumed, the producer does not touch the slot.\<close>

lemma producer_ok_slot:
  "sh_consumed sh \<noteq> sh_published sh \<Longrightarrow> producer_ok sh p \<Longrightarrow>
   sh_seq sh = sh_published sh \<and> sh_payload sh = sh_published sh"
  by (cases p) simp_all

lemma pub_invD:
  assumes "pub_inv s"
  shows "producer_ok (pb_shared s) (pb_prod s)" "consumer_ok (pb_shared s) (pb_cons s)"
    "sh_stale_reads (pb_shared s) = 0"
    "sh_published (pb_shared s) = sh_consumed (pb_shared s) \<or>
     sh_published (pb_shared s) = sh_consumed (pb_shared s) + 1"
  using assms by (simp_all add: pub_inv_def)

lemma pub_inv_producer:
  assumes "pub_inv s" "producer_thread True (pb_prod s) (pb_shared s) = (pc, sh)"
  shows "pub_inv (s\<lparr>pb_prod := pc, pb_shared := sh\<rparr>)"
proof (cases "pb_prod s")
  case (PWait x)
  then show ?thesis
    using assms(2) pub_invD [OF assms(1)] consumer_ok_frame [of sh "pb_shared s" "pb_cons s"]
    by (auto simp: pub_inv_def split: if_splits)
next
  case (PSeq x)
  then show ?thesis
    using assms(2) pub_invD [OF assms(1)] consumer_ok_frame [of sh "pb_shared s" "pb_cons s"]
    by (auto simp: pub_inv_def)
next
  case (PPay x)
  then show ?thesis
    using assms(2) pub_invD [OF assms(1)] consumer_ok_frame [of sh "pb_shared s" "pb_cons s"]
    by (auto simp: pub_inv_def)
next
  case (PPub x)
  then have sh: "sh = (pb_shared s)\<lparr>sh_published := x\<rparr>" "pc = PWait (x + 1)"
    and p: "sh_published (pb_shared s) = x - 1" "sh_consumed (pb_shared s) = sh_published (pb_shared s)"
      "sh_seq (pb_shared s) = x" "sh_payload (pb_shared s) = x"
    using assms(2) pub_invD(1) [OF assms(1)] by simp_all
  have "consumer_ok sh (pb_cons s)"
    unfolding sh(1) by (rule consumer_ok_publish [OF p(2) pub_invD(2) [OF assms(1)]])
  then show ?thesis using pub_invD(3) [OF assms(1)] p by (simp add: pub_inv_def sh)
next
  case PDone
  then show ?thesis using assms by (simp add: pub_inv_def)
qed

lemma pub_inv_consumer:
  assumes "pub_inv s" "consumer_thread w (pb_cons s) (pb_shared s) = (pc, sh)"
  shows "pub_inv (s\<lparr>pb_cons := pc, pb_shared := sh\<rparr>)"
proof (cases "pb_cons s")
  case (CSeq l p)
  then show ?thesis
    using assms(2) pub_invD [OF assms(1)] producer_ok_slot [of "pb_shared s" "pb_prod s"]
    by (auto simp: pub_inv_def)
next
  case (CPay l p q)
  then show ?thesis
    using assms(2) pub_invD [OF assms(1)] producer_ok_slot [of "pb_shared s" "pb_prod s"]
    by (auto simp: pub_inv_def)
next
  case (CAck p)
  then show ?thesis
    using assms(2) pub_invD [OF assms(1)] producer_ok_ack [of "pb_shared s" "pb_prod s" p]
    by (auto simp: pub_inv_def)
qed (use assms(2) pub_invD [OF assms(1)] in \<open>auto simp: pub_inv_def split: if_splits\<close>)

lemma pub_reachable_inv: "pub_reachable True n s \<Longrightarrow> pub_inv s"
proof (induction rule: pub_reachable.induct)
  case (pub_next s t)
  from pub_next(2) show ?case
    by (cases rule: pub_step.cases) (use pub_next(3) pub_inv_producer pub_inv_consumer in blast)+
qed (rule pub_inv_init)

section \<open>Properties\<close>

text \<open>
  C38. Payload-before-index publication is safe under every interleaving of single accesses: in
  the correct mode the consumer never observes a stale payload, and the published sequence
  number is at most one ahead of the consumed one.
\<close>

theorem publication_no_stale_read:
  assumes "pub_reachable True n s"
  shows "sh_stale_reads (pb_shared s) = 0 \<and>
    (sh_published (pb_shared s) = sh_consumed (pb_shared s) \<or>
     sh_published (pb_shared s) = sh_consumed (pb_shared s) + 1)"
  using pub_reachable_inv [OF assms] by (simp add: pub_inv_def)

theorem publication_no_stale_read_witness:
  "pub_reachable True 3 (pub_init 3) \<and> sh_stale_reads (pb_shared (pub_init 3)) = 0"
  using publication_no_stale_read [OF pub_start] pub_start by blast

text \<open>
  Index-before-payload publication is broken: with at least one iteration, some interleaving
  lets the consumer observe the new index with the old payload.
\<close>

theorem broken_publication_stale_read:
  assumes "1 \<le> n"
  shows "\<exists>s. pub_reachable False n s \<and> sh_stale_reads (pb_shared s) = 1"
proof -
  note s0 = pub_start [of False n]
  note s1 = pub_next [OF s0 producer_moves [of False "pub_init n" "PPub 1" "pb_shared (pub_init n)"]]
  note s2 = pub_next [OF s1 producer_moves [of False _ "PSeq 1"
        "(pb_shared (pub_init n))\<lparr>sh_published := 1\<rparr>"]]
  note s3 = pub_next [OF s2 consumer_moves [of 0 _ "CPub 0 False"
        "(pb_shared (pub_init n))\<lparr>sh_published := 1\<rparr>"]]
  note s4 = pub_next [OF s3 consumer_moves [of 0 _ "CSeq 0 1"
        "(pb_shared (pub_init n))\<lparr>sh_published := 1\<rparr>"]]
  note s5 = pub_next [OF s4 consumer_moves [of 0 _ "CPay 0 1 0"
        "(pb_shared (pub_init n))\<lparr>sh_published := 1\<rparr>"]]
  note s6 = pub_next [OF s5 consumer_moves [of 0 _ "CTop 0"
        "(pb_shared (pub_init n))\<lparr>sh_published := 1, sh_stale_reads := 1\<rparr>"]]
  show ?thesis
    using s6 assms by (intro exI) (auto simp: pub_init_def)
qed

theorem broken_publication_stale_read_witness:
  "\<exists>s. pub_reachable False 1 s \<and> sh_stale_reads (pb_shared s) = 1"
  using broken_publication_stale_read [of 1] by simp

end
