(* ===== verification/Lab_Rings.thy ===== *)
theory Lab_Rings
  imports Ring_Rep
begin

text \<open>
  The two teaching rings, \<^verbatim>\<open>lab/02_spsc_ring/bench.c\<close> and \<^verbatim>\<open>lab/05_doorbell_mock/bench.c\<close>, with
  their producer and consumer threads. Both test for emptiness by equality of the counters, so
  both are total FIFOs. A schedule decides which thread makes its next call.
\<close>

section \<open>The SPSC ring of lab 2\<close>

definition LAB_RING_SIZE :: u32 where "LAB_RING_SIZE = 4096"
definition LAB_MASK :: u32 where "LAB_MASK = LAB_RING_SIZE - 1"

text \<open>Each side's structure holds the index it owns and an unused copy of the other.\<close>

record prod_idx =
  pi_head :: u32
  pi_tail :: u32

record cons_idx =
  ci_tail :: u32
  ci_head :: u32

record Ring =
  rg_p :: prod_idx
  rg_c :: cons_idx
  rg_slots :: "u64 list"

definition ring_push :: "Ring \<Rightarrow> u64 \<Rightarrow> int \<times> Ring" where
  "ring_push r val =
     (let h = pi_head (rg_p r); t = ci_tail (rg_c r)
      in if h - t \<ge> LAB_RING_SIZE then (-1, r)
         else (0, r\<lparr>rg_slots := (rg_slots r)[unat (h AND LAB_MASK) := val],
                    rg_p := (rg_p r)\<lparr>pi_head := h + 1\<rparr>\<rparr>))"

definition ring_pop :: "Ring \<Rightarrow> int \<times> u64 option \<times> Ring" where
  "ring_pop r =
     (let t = ci_tail (rg_c r); h = pi_head (rg_p r)
      in if t = h then (-1, None, r)
         else (0, Some (rg_slots r ! unat (t AND LAB_MASK)),
               r\<lparr>rg_c := (rg_c r)\<lparr>ci_tail := t + 1\<rparr>\<rparr>))"

definition Ring_zero :: Ring where
  "Ring_zero = \<lparr>rg_p = \<lparr>pi_head = 0, pi_tail = 0\<rparr>, rg_c = \<lparr>ci_tail = 0, ci_head = 0\<rparr>,
     rg_slots = replicate 4096 0\<rparr>"

definition lab_push_obs :: "Ring \<Rightarrow> u64 \<Rightarrow> bool \<times> Ring" where
  "lab_push_obs r v = (fst (ring_push r v) = 0, snd (ring_push r v))"

definition lab_pop_obs :: "Ring \<Rightarrow> u64 option \<times> Ring" where
  "lab_pop_obs r = snd (ring_pop r)"

abbreviation lab_cons_of :: "Ring \<Rightarrow> u32" where "lab_cons_of r \<equiv> ci_tail (rg_c r)"
abbreviation lab_prod_of :: "Ring \<Rightarrow> u32" where "lab_prod_of r \<equiv> pi_head (rg_p r)"

abbreviation lab_inv :: "Ring \<Rightarrow> bool" where
  "lab_inv \<equiv> rep_wf 4096 lab_cons_of lab_prod_of rg_slots"

abbreviation lab_contents :: "Ring \<Rightarrow> u64 list" where
  "lab_contents \<equiv> rep_contents lab_cons_of lab_prod_of rg_slots"

lemma unat_lab_mask: "unat (i AND LAB_MASK) = unat i mod 4096"
  using unat_and_mask [of i 12] by (simp add: LAB_MASK_def LAB_RING_SIZE_def)

lemma lab_full: "LAB_RING_SIZE \<le> n \<longleftrightarrow> 4096 \<le> unat n"
  by (simp add: LAB_RING_SIZE_def word_le_nat_alt)

lemma lab_size_ok: "ring_size_ok 4096"
  by (rule ring_size_okI [of 12]) simp_all

interpretation labq: wrap_ring lab_cons_of lab_prod_of rg_slots 4096 lab_push_obs lab_pop_obs
  by unfold_locales
    (auto simp: lab_size_ok lab_push_obs_def lab_pop_obs_def ring_push_def ring_pop_def
      lab_full unat_lab_mask split: if_splits)

section \<open>The doorbell ring of lab 5\<close>

definition DOORBELL_RING_SIZE :: u32 where "DOORBELL_RING_SIZE = 1024"
definition DOORBELL_MASK :: u32 where "DOORBELL_MASK = DOORBELL_RING_SIZE - 1"

record WorkDescriptor =
  wd_command_id :: u64
  wd_payload_addr :: u64
  wd_payload_len :: u32
  wd_flags :: u32

record DoorbellRing =
  bl_doorbell :: u32
  bl_consumed :: u32
  bl_slots :: "WorkDescriptor list"

definition doorbell_enqueue :: "DoorbellRing \<Rightarrow> u64 \<Rightarrow> u64 \<Rightarrow> u32 \<Rightarrow> int \<times> DoorbellRing" where
  "doorbell_enqueue r i addr len =
     (let prod = bl_doorbell r; cons = bl_consumed r
      in if prod - cons \<ge> DOORBELL_RING_SIZE then (-1, r)
         else let pos = prod AND DOORBELL_MASK;
                  d = \<lparr>wd_command_id = i, wd_payload_addr = addr, wd_payload_len = len, wd_flags = 0\<rparr>
              in (0, r\<lparr>bl_slots := (bl_slots r)[unat pos := d], bl_doorbell := prod + 1\<rparr>))"

definition doorbell_dequeue :: "DoorbellRing \<Rightarrow> int \<times> WorkDescriptor option \<times> DoorbellRing" where
  "doorbell_dequeue r =
     (let cons = bl_consumed r; prod = bl_doorbell r
      in if cons = prod then (-1, None, r)
         else (0, Some (bl_slots r ! unat (cons AND DOORBELL_MASK)), r\<lparr>bl_consumed := cons + 1\<rparr>))"

text \<open>What the producer chooses of a descriptor; the flags are always stored as 0.\<close>

definition wd_view :: "WorkDescriptor \<Rightarrow> u64 \<times> u64 \<times> u32" where
  "wd_view d = (wd_command_id d, wd_payload_addr d, wd_payload_len d)"

definition bl_view :: "DoorbellRing \<Rightarrow> (u64 \<times> u64 \<times> u32) list" where
  "bl_view r = map wd_view (bl_slots r)"

definition doorbell_push_obs :: "DoorbellRing \<Rightarrow> u64 \<times> u64 \<times> u32 \<Rightarrow> bool \<times> DoorbellRing" where
  "doorbell_push_obs r d =
     (case d of (i, addr, len) \<Rightarrow>
        (fst (doorbell_enqueue r i addr len) = 0, snd (doorbell_enqueue r i addr len)))"

definition doorbell_pop_obs :: "DoorbellRing \<Rightarrow> (u64 \<times> u64 \<times> u32) option \<times> DoorbellRing" where
  "doorbell_pop_obs r = (case doorbell_dequeue r of (c, out, r') \<Rightarrow> (map_option wd_view out, r'))"

definition DoorbellRing_zero :: DoorbellRing where
  "DoorbellRing_zero = \<lparr>bl_doorbell = 0, bl_consumed = 0, bl_slots = replicate 1024
     \<lparr>wd_command_id = 0, wd_payload_addr = 0, wd_payload_len = 0, wd_flags = 0\<rparr>\<rparr>"

lemma unat_doorbell_mask: "unat (i AND DOORBELL_MASK) = unat i mod 1024"
  using unat_and_mask [of i 10] by (simp add: DOORBELL_MASK_def DOORBELL_RING_SIZE_def)

lemma doorbell_full: "DOORBELL_RING_SIZE \<le> n \<longleftrightarrow> 1024 \<le> unat n"
  by (simp add: DOORBELL_RING_SIZE_def word_le_nat_alt)

lemma doorbell_size_ok: "ring_size_ok 1024"
  by (rule ring_size_okI [of 10]) simp_all

interpretation bellq: wrap_ring bl_consumed bl_doorbell bl_view 1024 doorbell_push_obs doorbell_pop_obs
  by unfold_locales
    (auto simp: doorbell_size_ok doorbell_push_obs_def doorbell_pop_obs_def doorbell_enqueue_def
      doorbell_dequeue_def doorbell_full unat_doorbell_mask bl_view_def wd_view_def map_update
      split: if_splits prod.splits)

section \<open>Producer and consumer threads\<close>

text \<open>
  Both benchmarks run the same two loops: the producer offers item \<open>i\<close> until it is accepted and
  goes on to \<open>i + 1\<close>, the consumer pops until it has received \<open>count\<close> items. \<open>True\<close> in the schedule
  lets the producer make one call, \<open>False\<close> the consumer.
\<close>

record ('r, 'a) bench_state =
  be_ring :: 'r
  be_next :: nat
  be_received :: "'a list"

fun bench_run ::
  "('r \<Rightarrow> 'a \<Rightarrow> bool \<times> 'r) \<Rightarrow> ('r \<Rightarrow> 'a option \<times> 'r) \<Rightarrow> (nat \<Rightarrow> 'a) \<Rightarrow> nat \<Rightarrow> bool list
    \<Rightarrow> ('r, 'a) bench_state \<Rightarrow> ('r, 'a) bench_state" where
  "bench_run push pop item n [] s = s"
| "bench_run push pop item n (True # sched) s =
     bench_run push pop item n sched
       (if be_next s < n then
          (case push (be_ring s) (item (be_next s)) of (ok, r) \<Rightarrow>
             if ok then s\<lparr>be_ring := r, be_next := Suc (be_next s)\<rparr> else s\<lparr>be_ring := r\<rparr>)
        else s)"
| "bench_run push pop item n (False # sched) s =
     bench_run push pop item n sched
       (if length (be_received s) < n then
          (case pop (be_ring s) of
             (Some x, r) \<Rightarrow> s\<lparr>be_ring := r, be_received := be_received s @ [x]\<rparr>
           | (None, r) \<Rightarrow> s\<lparr>be_ring := r\<rparr>)
        else s)"

text \<open>The command the producer of lab 5 enqueues as number \<open>i\<close>.\<close>

definition doorbell_item :: "nat \<Rightarrow> u64 \<times> u64 \<times> u32" where
  "doorbell_item i = (of_nat i, 0xDEADBEEF, 4096)"

context total_fifo_ring
begin

text \<open>Sent items are the received ones followed by the queued ones, at every moment.\<close>

lemma bench_run_in_order:
  assumes "invar (be_ring s)" "map item [0..<be_next s] = be_received s @ contents (be_ring s)"
    and "s' = bench_run push pop item n sched s"
  shows "invar (be_ring s') \<and> map item [0..<be_next s'] = be_received s' @ contents (be_ring s')"
  using assms
proof (induction sched arbitrary: s)
  case Nil
  then show ?case by simp
next
  case (Cons turn sched)
  obtain ok r where p: "push (be_ring s) (item (be_next s)) = (ok, r)" by fastforce
  obtain y q where o: "pop (be_ring s) = (y, q)" by fastforce
  note push = push_refines [OF Cons.prems(1) _ p]
  note pop = pop_refines [OF Cons.prems(1) o]
  show ?case
  proof (cases turn)
    case True
    let ?t = "if be_next s < n then
        (if ok then s\<lparr>be_ring := r, be_next := Suc (be_next s)\<rparr> else s\<lparr>be_ring := r\<rparr>) else s"
    have "invar (be_ring ?t) \<and> map item [0..<be_next ?t] = be_received ?t @ contents (be_ring ?t)"
      using push Cons.prems(1,2) by (auto simp: spec_push_def split: if_splits)
    then show ?thesis using Cons.IH [of ?t] Cons.prems(3) True p by simp
  next
    case False
    let ?t = "if length (be_received s) < n then
        (case y of Some x \<Rightarrow> s\<lparr>be_ring := q, be_received := be_received s @ [x]\<rparr>
         | None \<Rightarrow> s\<lparr>be_ring := q\<rparr>) else s"
    have "invar (be_ring ?t) \<and> map item [0..<be_next ?t] = be_received ?t @ contents (be_ring ?t)"
      using pop Cons.prems(1,2)
      by (auto simp: spec_pop_def split: option.splits list.splits)
    moreover have "(case pop (be_ring s) of
        (Some x, r) \<Rightarrow> s\<lparr>be_ring := r, be_received := be_received s @ [x]\<rparr>
      | (None, r) \<Rightarrow> s\<lparr>be_ring := r\<rparr>) =
        (case y of Some x \<Rightarrow> s\<lparr>be_ring := q, be_received := be_received s @ [x]\<rparr>
         | None \<Rightarrow> s\<lparr>be_ring := q\<rparr>)"
      by (simp add: o split: option.splits)
    ultimately show ?thesis using Cons.IH [of ?t] Cons.prems(3) False by simp
  qed
qed

end

section \<open>Properties\<close>

text \<open>
  Both lab benchmarks deliver in order: under every schedule of the two threads the consumer
  of lab 2 has received exactly 0, 1, 2, \<dots> up to some point and the rest of what was sent is in
  the ring; likewise the consumer of lab 5 receives the commands in order with the producer's
  address and length.
\<close>

theorem lab_benches_in_order:
  "(let s = bench_run lab_push_obs lab_pop_obs of_nat n sched
        \<lparr>be_ring = Ring_zero, be_next = 0, be_received = []\<rparr>
      in map of_nat [0..<be_next s] = be_received s @ lab_contents (be_ring s) \<and>
         length (lab_contents (be_ring s)) \<le> 4096) \<and>
    (let s = bench_run doorbell_push_obs doorbell_pop_obs doorbell_item n sched
        \<lparr>be_ring = DoorbellRing_zero, be_next = 0, be_received = []\<rparr>
      in map doorbell_item [0..<be_next s] = be_received s @ rep_contents bl_consumed bl_doorbell bl_view (be_ring s))"
proof -
  have lab0: "lab_inv Ring_zero" "lab_contents Ring_zero = []"
    by (simp_all add: Ring_zero_def rep_wf_def ring_wf_def)
  have bell0: "rep_wf 1024 bl_consumed bl_doorbell bl_view DoorbellRing_zero"
    "rep_contents bl_consumed bl_doorbell bl_view DoorbellRing_zero = []"
    by (simp_all add: DoorbellRing_zero_def bl_view_def rep_wf_def ring_wf_def)
  show ?thesis
    using labq.bench_run_in_order [of "\<lparr>be_ring = Ring_zero, be_next = 0, be_received = []\<rparr>" of_nat
        _ n sched, OF _ _ refl] labq.rep_bounded
      bellq.bench_run_in_order [of "\<lparr>be_ring = DoorbellRing_zero, be_next = 0, be_received = []\<rparr>"
        doorbell_item _ n sched, OF _ _ refl] lab0 bell0
    by simp
qed

end
