(* ===== verification/Layout.thy ===== *)
theory Layout
  imports Prelude
begin

text \<open>
  Memory layout: the sizes of the packed structures that host and device share, against the
  \<open>_Static_assert\<close>s of their headers, and the KV block layout of \<^verbatim>\<open>include/kv_layout.h\<close>.
\<close>

section \<open>Packed structures\<close>

text \<open>
  A packed structure is the list of its field sizes in bytes, in declaration order; its size is
  their sum. A field with an \<open>aligned\<close> attribute keeps its alignment inside a packed structure.
\<close>

definition packed_size :: "nat list \<Rightarrow> nat" where
  "packed_size fields = sum_list fields"

definition packed_offset :: "nat list \<Rightarrow> nat \<Rightarrow> nat" where
  "packed_offset fields i = sum_list (take i fields)"

definition Descriptor_layout :: "nat list" where
  [layout_defs]: "Descriptor_layout = [8, 4, 2, 1, 1, 4, 8, 2, 2]"

definition Completion_layout :: "nat list" where
  [layout_defs]: "Completion_layout = [8, 4, 4, 8, 8]"

definition hw_desc_layout :: "nat list" where
  [layout_defs]: "hw_desc_layout = [2, 2, 4, 4, 4, 8, 8, 4, 4, 4, 4, 8, 8]"

definition RolloutRequest_layout :: "nat list" where
  [layout_defs]: "RolloutRequest_layout = [8, 4, 4, 4, 2, 4, 8]"

definition RolloutDone_layout :: "nat list" where
  [layout_defs]: "RolloutDone_layout = [8, 4, 4, 4, 4]"

definition RewardDesc_layout :: "nat list" where
  [layout_defs]: "RewardDesc_layout = [4, 4, 4, 4, 4, 4]"

definition rollout_layout :: "nat list" where
  [layout_defs]: "rollout_layout = [4, 4, 4, 8, 4, 4, 4, 4, 8, 4]"

definition trace_entry_layout :: "nat list" where
  [layout_defs]: "trace_entry_layout = [8, 4, 4, 4]"

definition KVPrefix_layout :: "nat list" where
  [layout_defs]: "KVPrefix_layout = [4, 4, 8, 4, 4, 4]"

definition KVBranch_layout :: "nat list" where
  [layout_defs]: "KVBranch_layout = [4, 4, 4, 8, 4, 4, 4, 4]"

text \<open>The padded index structures: a 4-byte counter and 60 bytes of padding.\<close>

definition index_layout :: "nat list" where
  [layout_defs]: "index_layout = [4, 60]"

text \<open>A static assertion pairs a layout with the size its header claims.\<close>

definition static_assert_size :: "nat list \<Rightarrow> nat \<Rightarrow> bool" where
  "static_assert_size fields n \<longleftrightarrow> packed_size fields = n"

section \<open>KV block layout\<close>

definition KV_LAYOUT_HEAD_DIM :: u32 where "KV_LAYOUT_HEAD_DIM = 128"
definition KV_LAYOUT_TOKENS_PER_BLOCK :: u32 where "KV_LAYOUT_TOKENS_PER_BLOCK = 32"
definition KV_LAYOUT_SCALAR_BYTES :: u32 where "KV_LAYOUT_SCALAR_BYTES = 2"
definition KV_LAYOUT_VEC_BYTES :: u32 where "KV_LAYOUT_VEC_BYTES = 16"
definition KV_LAYOUT_ALIGNMENT :: u32 where "KV_LAYOUT_ALIGNMENT = 128"

definition KV_LAYOUT_K_BYTES :: u32 where
  "KV_LAYOUT_K_BYTES = KV_LAYOUT_TOKENS_PER_BLOCK * KV_LAYOUT_HEAD_DIM * KV_LAYOUT_SCALAR_BYTES"
definition KV_LAYOUT_V_BYTES :: u32 where "KV_LAYOUT_V_BYTES = KV_LAYOUT_K_BYTES"
definition KV_LAYOUT_BLOCK_BYTES :: u32 where
  "KV_LAYOUT_BLOCK_BYTES = KV_LAYOUT_K_BYTES + KV_LAYOUT_V_BYTES"

lemmas kv_layout_consts = KV_LAYOUT_HEAD_DIM_def KV_LAYOUT_TOKENS_PER_BLOCK_def
  KV_LAYOUT_SCALAR_BYTES_def KV_LAYOUT_VEC_BYTES_def KV_LAYOUT_ALIGNMENT_def KV_LAYOUT_K_BYTES_def
  KV_LAYOUT_V_BYTES_def KV_LAYOUT_BLOCK_BYTES_def

record KvLayoutDesc =
  kl_token_count :: u32
  kl_head_dim :: u32
  kl_scalar_bytes :: u32
  kl_vec_bytes :: u32
  kl_k_stride_bytes :: u32
  kl_v_stride_bytes :: u32
  kl_block_bytes :: u32
  kl_alignment :: u32

definition kv_layout_desc_fixed128 :: KvLayoutDesc where
  "kv_layout_desc_fixed128 =
     \<lparr>kl_token_count = KV_LAYOUT_TOKENS_PER_BLOCK, kl_head_dim = KV_LAYOUT_HEAD_DIM,
      kl_scalar_bytes = KV_LAYOUT_SCALAR_BYTES, kl_vec_bytes = KV_LAYOUT_VEC_BYTES,
      kl_k_stride_bytes = KV_LAYOUT_HEAD_DIM * KV_LAYOUT_SCALAR_BYTES,
      kl_v_stride_bytes = KV_LAYOUT_HEAD_DIM * KV_LAYOUT_SCALAR_BYTES,
      kl_block_bytes = KV_LAYOUT_BLOCK_BYTES, kl_alignment = KV_LAYOUT_ALIGNMENT\<rparr>"

definition kv_layout_block_offset_bytes :: "u32 \<Rightarrow> u32" where
  "kv_layout_block_offset_bytes block_idx = block_idx * KV_LAYOUT_BLOCK_BYTES"

definition kv_layout_k_offset_bytes :: "u32 \<Rightarrow> u32" where
  "kv_layout_k_offset_bytes token_idx = token_idx * (KV_LAYOUT_HEAD_DIM * KV_LAYOUT_SCALAR_BYTES)"

definition kv_layout_v_plane_base_bytes :: u32 where
  "kv_layout_v_plane_base_bytes = KV_LAYOUT_K_BYTES"

definition kv_layout_v_offset_bytes :: "u32 \<Rightarrow> u32" where
  "kv_layout_v_offset_bytes token_idx =
     kv_layout_v_plane_base_bytes + token_idx * (KV_LAYOUT_HEAD_DIM * KV_LAYOUT_SCALAR_BYTES)"

lemma unat_mult_small:
  fixes i c :: u32
  assumes "unat i * unat c < 2 ^ 32"
  shows "unat (i * c) = unat i * unat c"
  using assms by (simp add: unat_word_ariths)

lemma kv_k_offset:
  "unat t < 32 \<Longrightarrow> unat (kv_layout_k_offset_bytes t) = unat t * 256"
  using unat_mult_small [of t 256] by (simp add: kv_layout_k_offset_bytes_def kv_layout_consts)

lemma kv_v_offset:
  assumes "unat t < 32"
  shows "unat (kv_layout_v_offset_bytes t) = 8192 + unat t * 256"
proof -
  have "unat (t * 256) = unat t * 256" using assms unat_mult_small [of t 256] by simp
  then show ?thesis
    using assms by (simp add: kv_layout_v_offset_bytes_def kv_layout_v_plane_base_bytes_def
        kv_layout_consts unat_word_ariths)
qed

section \<open>Properties\<close>

text \<open>
  The wire structures have the sizes their headers assert, and their fields tile them without
  gaps: descriptor 32, hardware descriptor 64, request 34, done notification 24, reward 24,
  rollout 48, trace entry 20 and index line 64 bytes. The assertions on \<open>KVPrefix\<close> (24) and
  \<open>KVBranch\<close> (28) are false: the structures have 28 and 36 bytes, so the header does not compile.
\<close>

theorem packed_sizes:
  "static_assert_size Descriptor_layout 32 \<and> static_assert_size Completion_layout 32 \<and>
   static_assert_size hw_desc_layout 64 \<and> static_assert_size RolloutRequest_layout 34 \<and>
   static_assert_size RolloutDone_layout 24 \<and> static_assert_size RewardDesc_layout 24 \<and>
   static_assert_size rollout_layout 48 \<and> static_assert_size trace_entry_layout 20 \<and>
   static_assert_size index_layout 64 \<and>
   \<not> static_assert_size KVPrefix_layout 24 \<and> static_assert_size KVPrefix_layout 28 \<and>
   \<not> static_assert_size KVBranch_layout 28 \<and> static_assert_size KVBranch_layout 36"
  by (simp add: static_assert_size_def packed_size_def layout_defs)

text \<open>
  The KV block layout is sound: for the 32 tokens of a block, every K row lies in the first
  half and every V row in the second half of the 16384-byte block, rows of different tokens do
  not overlap, and every row starts on a 128-byte boundary, hence on a vector boundary.
\<close>

theorem kv_layout_rows_disjoint:
  assumes "unat t < 32" and "unat u < 32" and "unat t < unat u"
  shows "unat (kv_layout_k_offset_bytes t) + 256 \<le> unat (kv_layout_k_offset_bytes u) \<and>
    unat (kv_layout_k_offset_bytes u) + 256 \<le> unat kv_layout_v_plane_base_bytes \<and>
    unat kv_layout_v_plane_base_bytes \<le> unat (kv_layout_v_offset_bytes t) \<and>
    unat (kv_layout_v_offset_bytes t) + 256 \<le> unat (kv_layout_v_offset_bytes u) \<and>
    unat (kv_layout_v_offset_bytes u) + 256 \<le> unat KV_LAYOUT_BLOCK_BYTES \<and>
    128 dvd unat (kv_layout_k_offset_bytes t) \<and> 128 dvd unat (kv_layout_v_offset_bytes t)"
proof -
  have "128 dvd unat t * (256 :: nat)" by (simp add: dvd_mult)
  moreover have "128 dvd (8192 :: nat) + unat t * 256" by (intro dvd_add) (simp_all add: dvd_mult)
  ultimately show ?thesis
    using assms kv_k_offset [OF assms(1)] kv_k_offset [OF assms(2)] kv_v_offset [OF assms(1)]
      kv_v_offset [OF assms(2)]
    by (simp add: kv_layout_v_plane_base_bytes_def kv_layout_consts)
qed

theorem kv_layout_rows_disjoint_witness:
  "unat (kv_layout_k_offset_bytes 0) + 256 \<le> unat (kv_layout_k_offset_bytes 31) \<and>
   unat (kv_layout_v_offset_bytes 31) + 256 \<le> unat KV_LAYOUT_BLOCK_BYTES"
  using kv_layout_rows_disjoint [of 0 31] by simp

text \<open>
  The byte offset of a block is exact and below the offset of the next block up to index
  \<open>2 ^ 18 - 1\<close>; from \<open>2 ^ 18\<close> on the 32-bit product wraps, and block \<open>2 ^ 18\<close> gets the offset of
  block 0, although an arena hands out indices up to \<open>2 ^ 20 - 1\<close>.
\<close>

theorem kv_block_offset_bound:
  assumes "unat i < 2 ^ 18"
  shows "unat (kv_layout_block_offset_bytes i) = unat i * 16384 \<and>
    kv_layout_block_offset_bytes (2 ^ 18 + i) = kv_layout_block_offset_bytes i"
proof -
  have block: "KV_LAYOUT_BLOCK_BYTES = 16384" by (simp add: kv_layout_consts)
  have "unat (i * 16384) = unat i * 16384" using assms unat_mult_small [of i 16384] by simp
  moreover have "(2 ^ 18 + i) * 16384 = i * 16384 + 2 ^ 18 * 16384" by (simp add: algebra_simps)
  ultimately show ?thesis by (simp add: kv_layout_block_offset_bytes_def block)
qed

theorem kv_block_offset_bound_witness:
  "unat (kv_layout_block_offset_bytes 3) = 49152"
  using kv_block_offset_bound [of 3] by simp

end
