(* ===== verification/Metrics_Guard.thy ===== *)
theory Metrics_Guard
  imports Prelude
begin

text \<open>
  The hot-path guard, \<^verbatim>\<open>include/hotpath_guard.h\<close> and \<^verbatim>\<open>src/hotpath_guard.c\<close>, and the runtime
  metrics, \<^verbatim>\<open>include/metrics.h\<close> and \<^verbatim>\<open>src/metrics.c\<close>. The message of \<open>hp_violation\<close> is returned
  as a value; the metrics report is the list of its integer columns.
\<close>

section \<open>Hot-path guard\<close>

record HotpathGuard =
  hg_malloc_count :: u64
  hg_calloc_count :: u64
  hg_realloc_count :: u64
  hg_free_count :: u64
  hg_cuda_malloc_count :: u64
  hg_cuda_free_count :: u64
  hg_page_fault_count :: u64
  hg_active :: bool

definition hp_guard_init :: "HotpathGuard \<Rightarrow> HotpathGuard" where
  "hp_guard_init g = \<lparr>hg_malloc_count = 0, hg_calloc_count = 0, hg_realloc_count = 0,
     hg_free_count = 0, hg_cuda_malloc_count = 0, hg_cuda_free_count = 0,
     hg_page_fault_count = 0, hg_active = False\<rparr>"

definition hp_guard_activate :: "HotpathGuard \<Rightarrow> HotpathGuard" where
  "hp_guard_activate g = g\<lparr>hg_active := True\<rparr>"

definition hp_guard_deactivate :: "HotpathGuard \<Rightarrow> HotpathGuard" where
  "hp_guard_deactivate g = g\<lparr>hg_active := False\<rparr>"

definition hp_violation :: "string \<Rightarrow> string" where
  "hp_violation what = ''HOT PATH VIOLATION: '' @ what @ '' in hot path''"

text \<open>Each tracker returns what it prints and the updated guard.\<close>

definition hp_track_malloc :: "HotpathGuard \<Rightarrow> string option \<times> HotpathGuard" where
  "hp_track_malloc g = (let g = g\<lparr>hg_malloc_count := hg_malloc_count g + 1\<rparr>
     in (if hg_active g then Some (hp_violation ''malloc'') else None, g))"

definition hp_track_calloc :: "HotpathGuard \<Rightarrow> string option \<times> HotpathGuard" where
  "hp_track_calloc g = (let g = g\<lparr>hg_calloc_count := hg_calloc_count g + 1\<rparr>
     in (if hg_active g then Some (hp_violation ''calloc'') else None, g))"

definition hp_track_realloc :: "HotpathGuard \<Rightarrow> string option \<times> HotpathGuard" where
  "hp_track_realloc g = (let g = g\<lparr>hg_realloc_count := hg_realloc_count g + 1\<rparr>
     in (if hg_active g then Some (hp_violation ''realloc'') else None, g))"

definition hp_track_free :: "HotpathGuard \<Rightarrow> string option \<times> HotpathGuard" where
  "hp_track_free g = (let g = g\<lparr>hg_free_count := hg_free_count g + 1\<rparr>
     in (if hg_active g then Some (hp_violation ''free'') else None, g))"

definition hp_track_cuda_malloc :: "HotpathGuard \<Rightarrow> string option \<times> HotpathGuard" where
  "hp_track_cuda_malloc g = (let g = g\<lparr>hg_cuda_malloc_count := hg_cuda_malloc_count g + 1\<rparr>
     in (if hg_active g then Some (hp_violation ''cudaMalloc'') else None, g))"

definition hp_track_cuda_free :: "HotpathGuard \<Rightarrow> string option \<times> HotpathGuard" where
  "hp_track_cuda_free g = (let g = g\<lparr>hg_cuda_free_count := hg_cuda_free_count g + 1\<rparr>
     in (if hg_active g then Some (hp_violation ''cudaFree'') else None, g))"

definition hp_track_page_fault :: "HotpathGuard \<Rightarrow> string option \<times> HotpathGuard" where
  "hp_track_page_fault g = (let g = g\<lparr>hg_page_fault_count := hg_page_fault_count g + 1\<rparr>
     in (if hg_active g then Some (hp_violation ''page fault'') else None, g))"

lemmas hp_defs = hp_guard_activate_def hp_guard_deactivate_def hp_track_malloc_def
  hp_track_calloc_def hp_track_realloc_def hp_track_free_def hp_track_cuda_malloc_def
  hp_track_cuda_free_def hp_track_page_fault_def

datatype hp_call = Activate | Deactivate | Malloc | Calloc | Realloc | Free | CudaMalloc | CudaFree
  | PageFault

fun hp_call_step :: "hp_call \<Rightarrow> HotpathGuard \<Rightarrow> string option \<times> HotpathGuard" where
  "hp_call_step Activate g = (None, hp_guard_activate g)"
| "hp_call_step Deactivate g = (None, hp_guard_deactivate g)"
| "hp_call_step Malloc g = hp_track_malloc g"
| "hp_call_step Calloc g = hp_track_calloc g"
| "hp_call_step Realloc g = hp_track_realloc g"
| "hp_call_step Free g = hp_track_free g"
| "hp_call_step CudaMalloc g = hp_track_cuda_malloc g"
| "hp_call_step CudaFree g = hp_track_cuda_free g"
| "hp_call_step PageFault g = hp_track_page_fault g"

fun hp_run :: "hp_call list \<Rightarrow> HotpathGuard \<Rightarrow> string list \<times> HotpathGuard" where
  "hp_run [] g = ([], g)"
| "hp_run (c # cs) g =
     (let (m, g1) = hp_call_step c g; (ms, g2) = hp_run cs g1
      in ((case m of None \<Rightarrow> [] | Some x \<Rightarrow> [x]) @ ms, g2))"

fun hp_label :: "hp_call \<Rightarrow> string" where
  "hp_label Malloc = ''malloc''"
| "hp_label Calloc = ''calloc''"
| "hp_label Realloc = ''realloc''"
| "hp_label Free = ''free''"
| "hp_label CudaMalloc = ''cudaMalloc''"
| "hp_label CudaFree = ''cudaFree''"
| "hp_label PageFault = ''page fault''"
| "hp_label c = ''''"

text \<open>The tracked calls of a history that fall into an active period.\<close>

fun hot_calls :: "bool \<Rightarrow> hp_call list \<Rightarrow> hp_call list" where
  "hot_calls a [] = []"
| "hot_calls a (Activate # cs) = hot_calls True cs"
| "hot_calls a (Deactivate # cs) = hot_calls False cs"
| "hot_calls a (c # cs) = (if a then c # hot_calls a cs else hot_calls a cs)"

fun count_of :: "hp_call \<Rightarrow> HotpathGuard \<Rightarrow> u64" where
  "count_of Malloc g = hg_malloc_count g"
| "count_of Calloc g = hg_calloc_count g"
| "count_of Realloc g = hg_realloc_count g"
| "count_of Free g = hg_free_count g"
| "count_of CudaMalloc g = hg_cuda_malloc_count g"
| "count_of CudaFree g = hg_cuda_free_count g"
| "count_of PageFault g = hg_page_fault_count g"
| "count_of c g = 0"

definition tracked :: "hp_call \<Rightarrow> bool" where
  "tracked c \<longleftrightarrow> c \<noteq> Activate \<and> c \<noteq> Deactivate"

lemma hp_call_count:
  "tracked k \<Longrightarrow> count_of k (snd (hp_call_step c g)) = count_of k g + (if c = k then 1 else 0)"
  by (cases k; cases c) (simp_all add: tracked_def hp_defs)

lemma hp_run_count:
  "tracked k \<Longrightarrow> count_of k (snd (hp_run cs g)) = count_of k g + of_nat (length (filter ((=) k) cs))"
  by (induction cs arbitrary: g) (auto simp: case_prod_unfold hp_call_count)

lemma hp_run_messages: "fst (hp_run cs g) = map (\<lambda>c. hp_violation (hp_label c)) (hot_calls (hg_active g) cs)"
proof (induction cs arbitrary: g)
  case (Cons c cs)
  then show ?case by (cases c) (simp_all add: hp_defs case_prod_unfold)
qed simp

section \<open>Metrics\<close>

record RuntimeMetrics =
  me_descriptors_posted :: u64
  me_descriptors_consumed :: u64
  me_reward_handoffs :: u64
  me_ring_full_spins :: u64
  me_completion_overflow_attempts :: u64
  me_done_overflow_attempts :: u64
  me_kv_blocks_allocated :: u64
  me_kv_blocks_freed :: u64
  me_gpu_idle_loops :: u64
  me_hotpath_mallocs_caught :: u64
  me_rollouts_completed :: u64
  me_pipeline_overflow :: u64
  me_decode_batches :: u64
  me_decode_rollouts_scheduled :: u64
  me_decode_batch_peak :: u64

definition metrics_init :: "RuntimeMetrics \<Rightarrow> RuntimeMetrics" where
  "metrics_init m = \<lparr>me_descriptors_posted = 0, me_descriptors_consumed = 0, me_reward_handoffs = 0,
     me_ring_full_spins = 0, me_completion_overflow_attempts = 0, me_done_overflow_attempts = 0,
     me_kv_blocks_allocated = 0, me_kv_blocks_freed = 0, me_gpu_idle_loops = 0,
     me_hotpath_mallocs_caught = 0, me_rollouts_completed = 0, me_pipeline_overflow = 0,
     me_decode_batches = 0, me_decode_rollouts_scheduled = 0, me_decode_batch_peak = 0\<rparr>"

text \<open>
  The integer rows of the report in the order they are printed, and the verdict on the last line;
  the two rows computed in floating point, wall time and throughput, are left out.
\<close>

definition metrics_fprintf :: "RuntimeMetrics \<Rightarrow> u64 \<Rightarrow> u64 \<Rightarrow> (string \<times> u64 list) list \<times> string" where
  "metrics_fprintf m n_tokens n_rollouts =
     ([(''Tokens'', [n_tokens]),
       (''Rollouts'', [n_rollouts]),
       (''Descriptors posted'', [me_descriptors_posted m]),
       (''Descriptors consumed'', [me_descriptors_consumed m]),
       (''Reward handoffs'', [me_reward_handoffs m]),
       (''Ring full spins'', [me_ring_full_spins m]),
       (''Completion overflows'', [me_completion_overflow_attempts m]),
       (''Done ring overflows'', [me_done_overflow_attempts m]),
       (''KV blocks allocated'', [me_kv_blocks_allocated m]),
       (''KV blocks freed'', [me_kv_blocks_freed m]),
       (''KV arena utilization'',
          [me_kv_blocks_allocated m - me_kv_blocks_freed m, me_kv_blocks_allocated m]),
       (''GPU idle loops'', [me_gpu_idle_loops m]),
       (''Rollouts completed'', [me_rollouts_completed m]),
       (''Pipeline overflows'', [me_pipeline_overflow m]),
       (''Decode batches'', [me_decode_batches m]),
       (''Decode rollouts sched.'', [me_decode_rollouts_scheduled m]),
       (''Decode batch peak'', [me_decode_batch_peak m]),
       (''Wrapper-tracked mallocs'', [me_hotpath_mallocs_caught m])],
      if me_hotpath_mallocs_caught m = 0 then ''(wrapper-clean)'' else ''(WRAPPER VIOLATION)'')"

record PageFaultSnapshot =
  pf_minor_faults :: u64
  pf_major_faults :: u64
  pf_supported :: bool

text \<open>\<open>usage\<close> is what \<open>getrusage\<close> delivers, \<open>None\<close> when it fails.\<close>

definition metrics_snapshot_page_faults :: "(u64 \<times> u64) option \<Rightarrow> PageFaultSnapshot" where
  "metrics_snapshot_page_faults usage =
     (case usage of
        None \<Rightarrow> \<lparr>pf_minor_faults = 0, pf_major_faults = 0, pf_supported = False\<rparr>
      | Some (minflt, majflt) \<Rightarrow>
          \<lparr>pf_minor_faults = minflt, pf_major_faults = majflt, pf_supported = True\<rparr>)"

definition metrics_diff_page_faults ::
  "PageFaultSnapshot \<Rightarrow> PageFaultSnapshot \<Rightarrow> PageFaultSnapshot" where
  "metrics_diff_page_faults start stop =
     (if \<not> pf_supported start \<or> \<not> pf_supported stop
      then \<lparr>pf_minor_faults = 0, pf_major_faults = 0, pf_supported = False\<rparr>
      else \<lparr>pf_minor_faults = pf_minor_faults stop - pf_minor_faults start,
            pf_major_faults = pf_major_faults stop - pf_major_faults start,
            pf_supported = True\<rparr>)"

section \<open>Properties\<close>

text \<open>
  The guard sees everything and reports exactly the hot path: in every history of calls on a
  fresh guard, the messages are one per tracked call made while the guard was active, in call
  order and with the right label, and each counter is the number of calls of its kind whether the
  guard was active or not, modulo \<open>2 ^ 64\<close>.
\<close>

theorem hotpath_guard_exact:
  "fst (hp_run cs (hp_guard_init g)) = map (\<lambda>c. hp_violation (hp_label c)) (hot_calls False cs) \<and>
   (tracked k \<longrightarrow> count_of k (snd (hp_run cs (hp_guard_init g))) = of_nat (length (filter ((=) k) cs)))"
proof -
  have "count_of k (hp_guard_init g) = 0" by (cases k) (simp_all add: hp_guard_init_def)
  moreover have "\<not> hg_active (hp_guard_init g)" by (simp add: hp_guard_init_def)
  ultimately show ?thesis by (simp add: hp_run_messages hp_run_count)
qed

theorem hotpath_guard_exact_witness:
  "tracked Malloc \<and>
   count_of Malloc (snd (hp_run [Malloc, Activate, Malloc, Deactivate, Free]
     (hp_guard_init (hp_guard_init undefined)))) = 2"
  using hotpath_guard_exact [of "[Malloc, Activate, Malloc, Deactivate, Free]" "hp_guard_init undefined" Malloc]
  by (simp add: tracked_def del: hp_run.simps)

text \<open>
  A page-fault delta is supported exactly when both samples are, and for counters that did not
  decrease it is the exact number of faults between the samples.
\<close>

theorem page_fault_delta_exact:
  assumes "\<And>x y. start = Some (x, y) \<Longrightarrow> stop = Some (x', y') \<and> x \<le> x' \<and> y \<le> y'"
  shows "let d = metrics_diff_page_faults (metrics_snapshot_page_faults start)
      (metrics_snapshot_page_faults stop)
    in (pf_supported d \<longleftrightarrow> start \<noteq> None \<and> stop \<noteq> None) \<and>
      (\<forall>x y. start = Some (x, y) \<longrightarrow> unat (pf_minor_faults d) = unat x' - unat x \<and>
        unat (pf_major_faults d) = unat y' - unat y)"
  using assms
  by (cases start)
    (auto simp: metrics_diff_page_faults_def metrics_snapshot_page_faults_def unat_sub
      split: option.splits)

theorem page_fault_delta_exact_witness:
  "unat (pf_minor_faults (metrics_diff_page_faults (metrics_snapshot_page_faults (Some (3, 1)))
     (metrics_snapshot_page_faults (Some (10, 1))))) = 7"
  using page_fault_delta_exact [of "Some (3, 1)" "Some (10, 1)" 10 1] by simp

end
