(* ===== verification/Attention.thy ===== *)
theory Attention
  imports Complex_Main Layout Command_Ring Sampler
begin

text \<open>
  The fixed-shape decode attention of \<^verbatim>\<open>include/attention_decode.h\<close> and \<^verbatim>\<open>cu/attention_decode.cu\<close>: one
  query of 128 components against one KV block of at most 32 tokens, computed tile by tile with a
  running maximum and a running normaliser. The 32 lanes of the warp run in lock step between
  barriers, so a phase of the kernel is a map over the components or tokens its lanes own, and the
  order of the additions inside a lane and of the shuffle tree is kept. The floating-point
  operations are an argument; the properties evaluate them exactly, over the reals extended by
  minus infinity.
\<close>

section \<open>Constants and data\<close>

definition DECODE_FIXED_HEAD_DIM :: u32 where "DECODE_FIXED_HEAD_DIM = KV_LAYOUT_HEAD_DIM"
definition DECODE_TILE_TOKENS :: u32 where "DECODE_TILE_TOKENS = 16"
definition DECODE_PREFETCH_STAGES :: u32 where "DECODE_PREFETCH_STAGES = 3"

datatype DecodePathKind = DECODE_PATH_STUB | DECODE_PATH_FIXED128

text \<open>A pointer into the query or output buffer is the row of 128 components it points to.\<close>

record 'f DecodeStepArgs =
  da_q_ptr :: "'f list option"
  da_o_ptr :: "'f list option"
  da_seq_len :: u32
  da_head_dim :: u32
  da_kv_block_base_idx :: u32
  da_kv_block_count :: u32
  da_output_token_offset :: u32

record DecodeStepResult =
  dr_path_kind :: DecodePathKind
  dr_token_id :: u32
  dr_bytes_touched :: u32
  dr_tile_count :: u32
  dr_cycle_estimate :: u64

record DecodeMicrokernelConfig =
  dc_head_dim :: u32
  dc_tokens_per_block :: u32
  dc_tile_tokens :: u32
  dc_prefetch_stages :: u32
  dc_shared_bytes :: u32

definition attention_decode_config_fixed128 :: DecodeMicrokernelConfig where
  "attention_decode_config_fixed128 =
     \<lparr>dc_head_dim = DECODE_FIXED_HEAD_DIM, dc_tokens_per_block = KV_LAYOUT_TOKENS_PER_BLOCK,
      dc_tile_tokens = DECODE_TILE_TOKENS, dc_prefetch_stages = DECODE_PREFETCH_STAGES,
      dc_shared_bytes = DECODE_PREFETCH_STAGES * KV_LAYOUT_BLOCK_BYTES\<rparr>"

text \<open>The further floating-point operations of the kernel.\<close>

record 'f attn_ops = "'f float_ops" +
  fl_neg_inf :: 'f
  fl_max :: "'f \<Rightarrow> 'f \<Rightarrow> 'f"
  fl_eq :: "'f \<Rightarrow> 'f \<Rightarrow> bool"
  fl_rsqrt :: "'f \<Rightarrow> 'f"
  fl_of_int :: "int \<Rightarrow> 'f"

section \<open>The query\<close>

text \<open>Without a query buffer a component is synthesised: an integer between -127 and 128 over 127.\<close>

definition rng_word :: "rng \<Rightarrow> u32 \<Rightarrow> u64" where
  "rng_word s i = (case s of (s0, s1, s2, s3) \<Rightarrow> [s0, s1, s2, s3] ! unat i)"

definition synth_query_num :: "Descriptor \<Rightarrow> 'f SampleState option \<Rightarrow> u32 \<Rightarrow> int" where
  "synth_query_num desc sample_st idx =
     (let seed = ds_seq_id desc XOR ds_reward_cookie desc XOR (ucast (idx + 1) * 0x9e3779b97f4a7c15);
          seed = (case sample_st of None \<Rightarrow> seed | Some st \<Rightarrow> seed XOR rng_word (ss_rng_state st) (idx AND 3));
          bits = (ucast (seed XOR drop_bit 32 seed) :: u32)
      in uint (bits AND 0xFF) - 127)"

definition decode_synth_query_component ::
  "'f attn_ops \<Rightarrow> Descriptor \<Rightarrow> 'f SampleState option \<Rightarrow> u32 \<Rightarrow> 'f" where
  "decode_synth_query_component fl desc sample_st idx =
     fl_div fl (fl_of_int fl (synth_query_num desc sample_st idx)) (fl_of_int fl 127)"

definition decode_load_query ::
  "'f attn_ops \<Rightarrow> Descriptor \<Rightarrow> 'f DecodeStepArgs option \<Rightarrow> 'f SampleState option \<Rightarrow> 'f list" where
  "decode_load_query fl desc args sample_st =
     (case args of
        Some a \<Rightarrow>
          (case da_q_ptr a of
             Some q \<Rightarrow> map (\<lambda>d. q ! d) [0..<128]
           | None \<Rightarrow> map (\<lambda>d. decode_synth_query_component fl desc sample_st (of_nat d)) [0..<128])
      | None \<Rightarrow> map (\<lambda>d. decode_synth_query_component fl desc sample_st (of_nat d)) [0..<128])"

section \<open>Scores of a tile\<close>

text \<open>
  \<open>kv\<close> is the staged block as its 8192 half-precision elements: the K rows, then the V rows.
  The eight lanes of a group take every eighth component and are summed by a shuffle tree.
\<close>

definition k_elem :: "'f list \<Rightarrow> nat \<Rightarrow> nat \<Rightarrow> 'f" where
  "k_elem kv t d = kv ! (t * 128 + d)"

definition v_elem :: "'f list \<Rightarrow> nat \<Rightarrow> nat \<Rightarrow> 'f" where
  "v_elem kv t d = kv ! (unat kv_layout_v_plane_base_bytes div 2 + t * 128 + d)"

definition qk_partial :: "'f attn_ops \<Rightarrow> 'f list \<Rightarrow> 'f list \<Rightarrow> nat \<Rightarrow> nat \<Rightarrow> 'f" where
  "qk_partial fl q kv t lane =
     foldl (\<lambda>acc d. fl_add fl acc (fl_mul fl (q ! d) (k_elem kv t d))) (fl_zero fl)
       (map (\<lambda>i. lane + 8 * i) [0..<16])"

definition shfl_down_add :: "'f attn_ops \<Rightarrow> nat \<Rightarrow> 'f list \<Rightarrow> 'f list" where
  "shfl_down_add fl offset ps =
     map (\<lambda>i. fl_add fl (ps ! i) (ps ! (if i + offset < 8 then i + offset else i))) [0..<8]"

definition group_sum :: "'f attn_ops \<Rightarrow> 'f list \<Rightarrow> 'f" where
  "group_sum fl ps = shfl_down_add fl 1 (shfl_down_add fl 2 (shfl_down_add fl 4 ps)) ! 0"

definition qk_score :: "'f attn_ops \<Rightarrow> 'f list \<Rightarrow> 'f list \<Rightarrow> nat \<Rightarrow> 'f" where
  "qk_score fl q kv t =
     fl_mul fl (group_sum fl (map (qk_partial fl q kv t) [0..<8])) (fl_rsqrt fl (fl_of_int fl 128))"

section \<open>The tile loop\<close>

text \<open>The running maximum, the running normaliser and the unnormalised output.\<close>

record 'f attn_state =
  at_max :: 'f
  at_norm :: 'f
  at_out :: "'f list"

definition attn_tile :: "'f attn_ops \<Rightarrow> 'f list \<Rightarrow> 'f list \<Rightarrow> nat \<Rightarrow> nat \<Rightarrow> 'f attn_state \<Rightarrow> 'f attn_state" where
  "attn_tile fl q kv tile_base tile_count s =
     (let scores = map (\<lambda>lt. qk_score fl q kv (tile_base + lt)) [0..<tile_count];
          tile_max = foldl (\<lambda>m t. fl_max fl m (scores ! t)) (scores ! 0) [1..<tile_count];
          new_max = fl_max fl (at_max s) tile_max;
          scale_old = (if fl_eq fl (at_norm s) (fl_zero fl) then fl_zero fl
                       else fl_exp fl (fl_sub fl (at_max s) new_max));
          tile_norm = foldl (\<lambda>a t. fl_add fl a (fl_exp fl (fl_sub fl (scores ! t) new_max))) (fl_zero fl)
                        [0..<tile_count];
          new_norm = fl_add fl (fl_mul fl (at_norm s) scale_old) tile_norm;
          out = map (\<lambda>d. foldl (\<lambda>acc lt. fl_add fl acc
                    (fl_mul fl (fl_exp fl (fl_sub fl (scores ! lt) new_max)) (v_elem kv (tile_base + lt) d)))
                  (fl_mul fl (at_out s ! d) scale_old) [0..<tile_count]) [0..<128]
      in \<lparr>at_max = new_max, at_norm = new_norm, at_out = out\<rparr>)"

function attn_loop :: "'f attn_ops \<Rightarrow> 'f list \<Rightarrow> 'f list \<Rightarrow> nat \<Rightarrow> nat \<Rightarrow> 'f attn_state \<Rightarrow> 'f attn_state" where
  "attn_loop fl q kv seq_len tile_base s =
     (if tile_base < seq_len
      then attn_loop fl q kv seq_len (tile_base + 16)
             (attn_tile fl q kv tile_base (if seq_len - tile_base < 16 then seq_len - tile_base else 16) s)
      else s)"
  by pat_completeness auto
termination by (relation "measure (\<lambda>(fl, q, kv, n, b, s). n - b)") auto

declare attn_loop.simps [simp del]

definition attn_clamp :: "'f DecodeStepArgs option \<Rightarrow> u32" where
  "attn_clamp args =
     (let seq_len = (case args of Some a \<Rightarrow> if da_seq_len a \<noteq> 0 then da_seq_len a else 1 | None \<Rightarrow> 1)
      in if seq_len > KV_LAYOUT_TOKENS_PER_BLOCK then KV_LAYOUT_TOKENS_PER_BLOCK else seq_len)"

definition attn_output :: "'f attn_ops \<Rightarrow> 'f list \<Rightarrow> 'f list \<Rightarrow> nat \<Rightarrow> 'f list" where
  "attn_output fl q kv seq_len =
     (let s = attn_loop fl q kv seq_len 0
                \<lparr>at_max = fl_neg_inf fl, at_norm = fl_zero fl, at_out = replicate 128 (fl_zero fl)\<rparr>;
          norm = (if fl_eq fl (at_norm s) (fl_zero fl) then fl_one fl else at_norm s)
      in map (\<lambda>x. fl_div fl x norm) (at_out s))"

section \<open>The arg-max reduction and the result\<close>

text \<open>A lane inspects its components in order; lane 0 then inspects the lanes in order.\<close>

definition lane_best :: "'f attn_ops \<Rightarrow> 'f list \<Rightarrow> nat \<Rightarrow> 'f \<times> nat" where
  "lane_best fl out lane =
     foldl (\<lambda>(b, i) d. if fl_less fl b (out ! d) then (out ! d, d) else (b, i)) (fl_neg_inf fl, 0)
       (map (\<lambda>i. lane + 32 * i) [0..<4])"

definition warp_argmax :: "'f attn_ops \<Rightarrow> 'f list \<Rightarrow> nat" where
  "warp_argmax fl out =
     (let bests = map (lane_best fl out) [0..<32]
      in snd (foldl (\<lambda>(b, i) (v, j). if fl_less fl b v then (v, j) else (b, i)) (bests ! 0) (drop 1 bests)))"

text \<open>The result and the output row, if there is an output buffer.\<close>

definition attention_decode_step_fixed128 ::
  "'f attn_ops \<Rightarrow> Descriptor \<Rightarrow> 'f DecodeStepArgs option \<Rightarrow> 'f list \<Rightarrow> 'f SampleState option
    \<Rightarrow> DecodeStepResult \<times> 'f list option" where
  "attention_decode_step_fixed128 fl desc args kv sample_st =
     (let q = decode_load_query fl desc args sample_st;
          seq_len = attn_clamp args;
          out = attn_output fl q kv (unat seq_len);
          tiles = (seq_len + DECODE_TILE_TOKENS - 1) div DECODE_TILE_TOKENS
      in (\<lparr>dr_path_kind = DECODE_PATH_FIXED128, dr_token_id = of_nat (warp_argmax fl out),
           dr_bytes_touched = seq_len * DECODE_FIXED_HEAD_DIM * KV_LAYOUT_SCALAR_BYTES * 2,
           dr_tile_count = tiles,
           dr_cycle_estimate = ucast tiles * ucast DECODE_FIXED_HEAD_DIM * 24\<rparr>,
          (case args of Some a \<Rightarrow> map_option (\<lambda>_. out) (da_o_ptr a) | None \<Rightarrow> None)))"

section \<open>Exact arithmetic\<close>

text \<open>
  The reals with minus infinity: what the kernel computes when no operation rounds. Minus infinity
  only enters as the running maximum before the first tile.
\<close>

datatype xreal = NegInf | Fin real

fun x_lift :: "(real \<Rightarrow> real \<Rightarrow> real) \<Rightarrow> xreal \<Rightarrow> xreal \<Rightarrow> xreal" where
  "x_lift f (Fin a) (Fin b) = Fin (f a b)"
| "x_lift f _ _ = NegInf"

fun x_less :: "xreal \<Rightarrow> xreal \<Rightarrow> bool" where
  "x_less (Fin a) (Fin b) \<longleftrightarrow> a < b"
| "x_less NegInf (Fin b) \<longleftrightarrow> True"
| "x_less _ NegInf \<longleftrightarrow> False"

fun x_exp :: "xreal \<Rightarrow> xreal" where
  "x_exp (Fin a) = Fin (exp a)"
| "x_exp NegInf = Fin 0"

fun x_rsqrt :: "xreal \<Rightarrow> xreal" where
  "x_rsqrt (Fin a) = Fin (1 / sqrt a)"
| "x_rsqrt NegInf = NegInf"

definition exact_ops :: "xreal attn_ops" where
  "exact_ops =
     \<lparr>fl_zero = Fin 0, fl_one = Fin 1, fl_lowest = NegInf,
      fl_add = x_lift (+), fl_sub = x_lift (-), fl_mul = x_lift (*), fl_div = x_lift (/),
      fl_exp = x_exp, fl_less = x_less, fl_ge = (\<lambda>a b. \<not> x_less a b),
      fl_of_u64 = (\<lambda>w. Fin (real (unat w))),
      fl_neg_inf = NegInf, fl_max = (\<lambda>a b. if x_less a b then b else a), fl_eq = (=),
      fl_rsqrt = x_rsqrt, fl_of_int = (\<lambda>i. Fin (real_of_int i))\<rparr>"

lemma exact_simps [simp]:
  "fl_zero exact_ops = Fin 0" "fl_one exact_ops = Fin 1" "fl_neg_inf exact_ops = NegInf"
  "fl_add exact_ops = x_lift (+)" "fl_sub exact_ops = x_lift (-)"
  "fl_mul exact_ops = x_lift (*)" "fl_div exact_ops = x_lift (/)"
  "fl_exp exact_ops = x_exp" "fl_less exact_ops = x_less" "fl_eq exact_ops = (=)"
  "fl_rsqrt exact_ops = x_rsqrt" "fl_of_int exact_ops i = Fin (real_of_int i)"
  "fl_max exact_ops a b = (if x_less a b then b else a)"
  by (simp_all add: exact_ops_def)

lemma foldl_x_add:
  assumes "\<And>x. x \<in> set xs \<Longrightarrow> g x = Fin (h x)"
  shows "foldl (\<lambda>acc x. x_lift (+) acc (g x)) (Fin a) xs = Fin (a + sum_list (map h xs))"
  using assms by (induction xs arbitrary: a) (simp_all add: add.assoc)

lemma foldl_x_add_upt:
  assumes "\<And>i. i < n \<Longrightarrow> g i = Fin (h i)"
  shows "foldl (\<lambda>acc i. x_lift (+) acc (g i)) (Fin a) [0..<n] = Fin (a + (\<Sum>i<n. h i))"
  using foldl_x_add[of "[0..<n]" g h a] assms
  by (simp add: interv_sum_list_conv_sum_set_nat atLeast0LessThan)

section \<open>The reference attention\<close>

definition ref_score :: "real list \<Rightarrow> real list \<Rightarrow> nat \<Rightarrow> real" where
  "ref_score q kv t = (\<Sum>d<128. q ! d * kv ! (t * 128 + d)) / sqrt 128"

definition ref_attention :: "real list \<Rightarrow> real list \<Rightarrow> nat \<Rightarrow> nat \<Rightarrow> real" where
  "ref_attention q kv n d =
     (\<Sum>t<n. exp (ref_score q kv t) * kv ! (4096 + t * 128 + d)) / (\<Sum>t<n. exp (ref_score q kv t))"

lemma sum_strided:
  fixes f :: "nat \<Rightarrow> real"
  shows "(\<Sum>l<8. \<Sum>i<16. f (l + 8 * i)) = (\<Sum>d<128. f d)"
proof -
  have "(\<Sum>l<8. f (l + 8 * i)) = sum f {i * 8..<i * 8 + 8}" for i
    using sum.shift_bounds_nat_ivl[of f 0 "i * 8" 8, symmetric]
    by (simp add: atLeast0LessThan mult.commute add.commute)
  then have "(\<Sum>i<16. \<Sum>l<8. f (l + 8 * i)) = (\<Sum>i<16. sum f {i * 8..<i * 8 + 8})" by simp
  also have "\<dots> = sum f {..<16 * 8}" by (rule sum.nat_group)
  finally show ?thesis using sum.swap[of "\<lambda>l i. f (l + 8 * i)" "{..<16}" "{..<8}"] by simp
qed

lemma group_sum_exact:
  "group_sum exact_ops (map (\<lambda>l. Fin (f l)) [0..<8]) = Fin (\<Sum>l<8. f l)"
proof -
  have "[0..<8] = [0, 1, 2, 3, 4, 5, 6, 7::nat]" by (simp add: upt_conv_Cons)
  then show ?thesis
    by (simp add: group_sum_def shfl_down_add_def eval_nat_numeral)
qed

lemma qk_score_exact:
  assumes "length q = 128" "length kv = 8192" "t < 32"
  shows "qk_score exact_ops (map Fin q) (map Fin kv) t = Fin (ref_score q kv t)"
proof -
  have "qk_partial exact_ops (map Fin q) (map Fin kv) t l =
      Fin (\<Sum>i<16. q ! (l + 8 * i) * kv ! (t * 128 + (l + 8 * i)))" if "l < 8" for l
    using assms that
    by (simp add: qk_partial_def k_elem_def foldl_map
          foldl_x_add_upt[of 16 _ "\<lambda>i. q ! (l + 8 * i) * kv ! (t * 128 + (l + 8 * i))"])
  then have parts: "map (qk_partial exact_ops (map Fin q) (map Fin kv) t) [0..<8] =
      map (\<lambda>l. Fin (\<Sum>i<16. q ! (l + 8 * i) * kv ! (t * 128 + (l + 8 * i)))) [0..<8]"
    by simp
  show ?thesis
    unfolding qk_score_def parts
    by (simp add: group_sum_exact sum_strided[of "\<lambda>d. q ! d * kv ! (t * 128 + d)"] ref_score_def)
qed

section \<open>The tiled loop computes the softmax average\<close>

text \<open>
  What the loop maintains after \<open>n\<close> tokens: the running maximum is the greatest score so far, and
  the normaliser and the output are the sums of the weights relative to it.
\<close>

definition attn_inv :: "real list \<Rightarrow> real list \<Rightarrow> nat \<Rightarrow> xreal attn_state \<Rightarrow> bool" where
  "attn_inv q kv n s \<longleftrightarrow>
     (if n = 0 then s = \<lparr>at_max = NegInf, at_norm = Fin 0, at_out = replicate 128 (Fin 0)\<rparr>
      else \<exists>M. s = \<lparr>at_max = Fin M,
                   at_norm = Fin (\<Sum>t<n. exp (ref_score q kv t - M)),
                   at_out = map (\<lambda>d. Fin (\<Sum>t<n. exp (ref_score q kv t - M) * kv ! (4096 + t * 128 + d))) [0..<128]\<rparr>
             \<and> (\<forall>t<n. ref_score q kv t \<le> M) \<and> (\<exists>t<n. ref_score q kv t = M))"

lemma foldl_x_max:
  assumes "0 < k"
  shows "\<exists>m. foldl (\<lambda>m t. if x_less m (Fin (f t)) then Fin (f t) else m) (Fin (f 0)) [1..<k] = Fin m
    \<and> (\<forall>t<k. f t \<le> m) \<and> (\<exists>t<k. f t = m)"
  using assms
proof (induction k)
  case (Suc k)
  show ?case
  proof (cases "k = 0")
    case False
    with Suc obtain m where m: "foldl (\<lambda>m t. if x_less m (Fin (f t)) then Fin (f t) else m) (Fin (f 0)) [1..<k] = Fin m"
      "\<forall>t<k. f t \<le> m" "\<exists>t<k. f t = m" by auto
    have "[1..<Suc k] = [1..<k] @ [k]" using False by simp
    then show ?thesis
      using m by (cases "m < f k") (auto simp: less_Suc_eq intro: order_trans[OF _ less_imp_le])
  qed simp
qed simp

lemma sum_lessThan_add:
  fixes f :: "nat \<Rightarrow> real"
  shows "(\<Sum>t<n + k. f t) = (\<Sum>t<n. f t) + (\<Sum>t<k. f (n + t))"
  by (induction k) (simp_all add: add.assoc)

lemma rescale_sum:
  fixes f g :: "nat \<Rightarrow> real"
  shows "(\<Sum>t<n. exp (f t - M) * g t) * exp (M - M') = (\<Sum>t<n. exp (f t - M') * g t)"
  by (simp add: sum_distrib_right mult.assoc mult.left_commute[of _ "exp _"] mult_exp_exp
        flip: exp_add) (simp add: algebra_simps flip: exp_add)

lemma rescale_norm:
  fixes f :: "nat \<Rightarrow> real"
  shows "(\<Sum>t<n. exp (f t - M)) * exp (M - M') = (\<Sum>t<n. exp (f t - M'))"
  using rescale_sum[where n = n and f = f and M = M and g = "\<lambda>_. 1" and M' = M'] by simp

lemma foldl_cong_set:
  assumes "\<And>a x. x \<in> set xs \<Longrightarrow> f a x = g a x"
  shows "foldl f a xs = foldl g a xs"
  using assms by (induction xs arbitrary: a) simp_all

lemma attn_tile_exact:
  assumes len: "length q = 128" "length kv = 8192" and k: "0 < k" "b + k \<le> 32"
    and s: "at_max s = (if b = 0 then NegInf else Fin M)" "at_norm s = Fin N" "(N = 0) = (b = 0)"
      "at_out s = map (\<lambda>d. Fin (out d)) [0..<128]"
  shows "\<exists>m. (\<forall>t<k. ref_score q kv (b + t) \<le> m) \<and> (\<exists>t<k. ref_score q kv (b + t) = m) \<and>
    (let M' = (if b = 0 then m else max M m); c = (if b = 0 then 0 else exp (M - M')) in
     attn_tile exact_ops (map Fin q) (map Fin kv) b k s =
       \<lparr>at_max = Fin M', at_norm = Fin (N * c + (\<Sum>t<k. exp (ref_score q kv (b + t) - M'))),
        at_out = map (\<lambda>d. Fin (out d * c +
          (\<Sum>t<k. exp (ref_score q kv (b + t) - M') * kv ! (4096 + (b + t) * 128 + d)))) [0..<128]\<rparr>)"
proof -
  let ?f = "\<lambda>t. ref_score q kv (b + t)"
  let ?sc = "map (\<lambda>lt. qk_score exact_ops (map Fin q) (map Fin kv) (b + lt)) [0..<k]"
  have sc: "?sc = map (\<lambda>t. Fin (?f t)) [0..<k]" using k by (simp add: qk_score_exact[OF len])
  obtain m where m: "foldl (\<lambda>m t. if x_less m (Fin (?f t)) then Fin (?f t) else m) (Fin (?f 0)) [1..<k] = Fin m"
    "\<forall>t<k. ?f t \<le> m" "\<exists>t<k. ?f t = m"
    using foldl_x_max[OF k(1), of ?f] by auto
  have tm: "foldl (\<lambda>m t. fl_max exact_ops m (?sc ! t)) (?sc ! 0) [1..<k] = Fin m"
    unfolding sc using k(1) m(1)
    by (simp cong: foldl_cong) (subst foldl_cong_set[where g = "\<lambda>m t. if x_less m (Fin (?f t)) then Fin (?f t) else m"], auto)
  let ?M = "if b = 0 then m else max M m"
  let ?c = "if b = 0 then 0 else exp (M - ?M)"
  have nm: "fl_max exact_ops (at_max s) (Fin m) = Fin ?M" using s(1) by simp
  have c: "(if fl_eq exact_ops (at_norm s) (fl_zero exact_ops) then fl_zero exact_ops
      else fl_exp exact_ops (fl_sub exact_ops (at_max s) (Fin ?M))) = Fin ?c"
    using s(1-3) by simp
  have norm: "foldl (\<lambda>a t. fl_add exact_ops a (fl_exp exact_ops (fl_sub exact_ops (?sc ! t) (Fin ?M))))
      (fl_zero exact_ops) [0..<k] = Fin (\<Sum>t<k. exp (?f t - ?M))"
    unfolding sc using foldl_x_add_upt[of k "\<lambda>t. x_exp (x_lift (-) (map (\<lambda>t. Fin (?f t)) [0..<k] ! t) (Fin ?M))"
        "\<lambda>t. exp (?f t - ?M)" 0] by simp
  have v: "v_elem (map Fin kv) (b + t) d = Fin (kv ! (4096 + (b + t) * 128 + d))"
    if "t < k" "d < 128" for t d
    using len k that by (simp add: v_elem_def kv_layout_v_plane_base_bytes_def kv_layout_consts)
  have out: "map (\<lambda>d. foldl (\<lambda>acc lt. fl_add exact_ops acc
        (fl_mul exact_ops (fl_exp exact_ops (fl_sub exact_ops (?sc ! lt) (Fin ?M))) (v_elem (map Fin kv) (b + lt) d)))
      (fl_mul exact_ops (at_out s ! d) (Fin ?c)) [0..<k]) [0..<128] =
    map (\<lambda>d. Fin (out d * ?c + (\<Sum>t<k. exp (?f t - ?M) * kv ! (4096 + (b + t) * 128 + d)))) [0..<128]"
    unfolding sc s(4)
    by (intro map_cong refl) (simp add: v foldl_x_add_upt[where h = "\<lambda>t. exp (?f t - ?M) * kv ! (4096 + (b + t) * 128 + _)"])
  show ?thesis
    by (intro exI[of _ m] conjI m(2,3))
      (unfold attn_tile_def Let_def tm nm c norm out, unfold s(2), simp only: exact_simps x_lift.simps)
qed

lemma attn_tile_inv:
  assumes len: "length q = 128" "length kv = 8192" and k: "0 < k" "b + k \<le> 32"
    and inv: "attn_inv q kv b s"
  shows "attn_inv q kv (b + k) (attn_tile exact_ops (map Fin q) (map Fin kv) b k s)"
proof (cases "b = 0")
  case True
  then have "at_max s = (if b = 0 then NegInf else Fin 0)" "at_norm s = Fin 0" "(0::real) = 0 \<longleftrightarrow> b = 0"
    "at_out s = map (\<lambda>d. Fin ((\<lambda>_. 0) d)) [0..<128]"
    using inv by (simp_all add: attn_inv_def map_replicate_const)
  from attn_tile_exact[OF len k this] True k show ?thesis
    by (auto simp: attn_inv_def)
next
  case False
  then obtain M where s: "s = \<lparr>at_max = Fin M,
      at_norm = Fin (\<Sum>t<b. exp (ref_score q kv t - M)),
      at_out = map (\<lambda>d. Fin (\<Sum>t<b. exp (ref_score q kv t - M) * kv ! (4096 + t * 128 + d))) [0..<128]\<rparr>"
    and M: "\<forall>t<b. ref_score q kv t \<le> M" "\<exists>t<b. ref_score q kv t = M"
    using inv by (auto simp: attn_inv_def)
  have "(\<Sum>t<b. exp (ref_score q kv t - M)) > 0" using False by (intro sum_pos) auto
  then have pre: "at_max s = (if b = 0 then NegInf else Fin M)"
    "at_norm s = Fin (\<Sum>t<b. exp (ref_score q kv t - M))"
    "(\<Sum>t<b. exp (ref_score q kv t - M)) = 0 \<longleftrightarrow> b = 0"
    "at_out s = map (\<lambda>d. Fin ((\<lambda>d. \<Sum>t<b. exp (ref_score q kv t - M) * kv ! (4096 + t * 128 + d)) d)) [0..<128]"
    using False by (simp_all add: s)
  obtain m where m: "\<forall>t<k. ref_score q kv (b + t) \<le> m" "\<exists>t<k. ref_score q kv (b + t) = m"
    and tile: "attn_tile exact_ops (map Fin q) (map Fin kv) b k s =
       \<lparr>at_max = Fin (max M m), at_norm = Fin (\<Sum>t<b + k. exp (ref_score q kv t - max M m)),
        at_out = map (\<lambda>d. Fin (\<Sum>t<b + k. exp (ref_score q kv t - max M m) * kv ! (4096 + t * 128 + d))) [0..<128]\<rparr>"
    using attn_tile_exact[OF len k pre] False
    by (auto simp: rescale_norm rescale_sum sum_lessThan_add)
  have split: "t < b + k \<longleftrightarrow> t < b \<or> (\<exists>u<k. t = b + u)" for t
    by (auto intro: exI[of _ "t - b"])
  have "\<forall>t<b + k. ref_score q kv t \<le> max M m" using M(1) m(1) by (auto simp: split le_max_iff_disj)
  moreover have "\<exists>t<b + k. ref_score q kv t = max M m"
    using M(2) m(2) by (cases "M \<le> m") (auto simp: split max_def)
  ultimately show ?thesis using False by (auto simp: attn_inv_def tile)
qed

lemma attn_loop_inv:
  assumes "length q = 128" "length kv = 8192" "n \<le> 32" "b \<le> n" "attn_inv q kv b s"
  shows "attn_inv q kv n (attn_loop exact_ops (map Fin q) (map Fin kv) n b s)"
  using assms(4,5)
proof (induction "n - b" arbitrary: b s rule: less_induct)
  case less
  show ?case
  proof (cases "b < n")
    case True
    let ?k = "if n - b < 16 then n - b else 16"
    have tile: "attn_inv q kv (b + ?k) (attn_tile exact_ops (map Fin q) (map Fin kv) b ?k s)"
      using less.prems assms(3) True by (intro attn_tile_inv[OF assms(1,2)]) auto
    show ?thesis
    proof (cases "n - b < 16")
      case True
      then have "attn_loop exact_ops (map Fin q) (map Fin kv) n (b + 16) s' = s'" for s'
        by (subst attn_loop.simps) simp
      then show ?thesis using tile True \<open>b < n\<close> by (subst attn_loop.simps) simp
    next
      case False
      then show ?thesis
        using tile True less.hyps[of "b + 16"]
        by (subst attn_loop.simps) simp
    qed
  next
    case False
    then show ?thesis using less.prems by (subst attn_loop.simps) simp
  qed
qed

text \<open>Dividing by the normaliser removes the shift by the running maximum.\<close>

lemma attn_output_exact:
  assumes len: "length q = 128" "length kv = 8192" and n: "0 < n" "n \<le> 32"
  shows "attn_output exact_ops (map Fin q) (map Fin kv) n = map (\<lambda>d. Fin (ref_attention q kv n d)) [0..<128]"
proof -
  let ?s0 = "\<lparr>at_max = NegInf, at_norm = Fin 0, at_out = replicate 128 (Fin 0)\<rparr>"
  have "attn_inv q kv n (attn_loop exact_ops (map Fin q) (map Fin kv) n 0 ?s0)"
    using n by (intro attn_loop_inv[OF len]) (simp_all add: attn_inv_def)
  then obtain M where s: "attn_loop exact_ops (map Fin q) (map Fin kv) n 0 ?s0 =
      \<lparr>at_max = Fin M, at_norm = Fin (\<Sum>t<n. exp (ref_score q kv t - M)),
       at_out = map (\<lambda>d. Fin (\<Sum>t<n. exp (ref_score q kv t - M) * kv ! (4096 + t * 128 + d))) [0..<128]\<rparr>"
    using n by (auto simp: attn_inv_def)
  have pos: "(\<Sum>t<n. exp (ref_score q kv t - M)) > 0" using n by (intro sum_pos) auto
  have shift: "(\<Sum>t<n. exp (ref_score q kv t - M) * g t) = (\<Sum>t<n. exp (ref_score q kv t) * g t) * exp (- M)" for g
    using rescale_sum[where M = 0 and M' = M and f = "ref_score q kv" and g = g and n = n] by simp
  have "(\<Sum>t<n. exp (ref_score q kv t - M) * g t) / (\<Sum>t<n. exp (ref_score q kv t - M)) =
      (\<Sum>t<n. exp (ref_score q kv t) * g t) / (\<Sum>t<n. exp (ref_score q kv t))" for g
    using shift[of g] shift[of "\<lambda>_. 1"] by simp
  then show ?thesis
    using pos by (simp add: attn_output_def s ref_attention_def)
qed

section \<open>The arg-max reduction\<close>

lemma argmax_foldl:
  assumes "fst p = Fin (f (snd p))"
  shows "\<exists>i\<in>insert (snd p) (set ds).
    foldl (\<lambda>(b, i) d. if x_less b (Fin (f d)) then (Fin (f d), d) else (b, i)) p ds = (Fin (f i), i)
    \<and> (\<forall>d\<in>insert (snd p) (set ds). f d \<le> (f i :: real))"
  using assms
proof (induction ds arbitrary: p)
  case (Cons d ds)
  obtain b i where p: "p = (b, i)" by (cases p)
  show ?case
  proof (cases "f i < f d")
    case True
    with Cons.IH[of "(Fin (f d), d)"] Cons.prems p show ?thesis by (fastforce intro: less_imp_le)
  next
    case False
    with Cons.IH[of p] Cons.prems p show ?thesis by fastforce
  qed
qed (simp add: prod_eq_iff)

lemma lane_best_exact:
  assumes "lane < 32" "length r = 128"
  shows "\<exists>i\<in>{lane + 32 * j |j. j < 4}. lane_best exact_ops (map Fin r) lane = (Fin (r ! i), i)
    \<and> (\<forall>d\<in>{lane + 32 * j |j. j < 4}. r ! d \<le> r ! i)"
proof -
  have ds: "map (\<lambda>i. lane + 32 * i) [0..<4] = lane # map (\<lambda>i. lane + 32 * i) [1..<4]"
    by (simp add: upt_conv_Cons)
  have set_ds: "insert lane (set (map (\<lambda>i. lane + 32 * i) [1..<4])) = {lane + 32 * j |j. j < 4}"
    by (auto simp: image_iff intro: exI[of _ 0])
  have "lane_best exact_ops (map Fin r) lane =
      foldl (\<lambda>(b, i) d. if x_less b (Fin (r ! d)) then (Fin (r ! d), d) else (b, i))
        (Fin (r ! lane), lane) (map (\<lambda>i. lane + 32 * i) [1..<4])"
    unfolding lane_best_def ds
    using assms by (auto intro!: foldl_cong_set)
  with argmax_foldl[of "(Fin (r ! lane), lane)" "\<lambda>d. r ! d" "map (\<lambda>i. lane + 32 * i) [1..<4]"]
  show ?thesis unfolding set_ds[symmetric] by simp
qed

lemma warp_argmax_exact:
  assumes len: "length r = 128"
  shows "warp_argmax exact_ops (map Fin r) < 128 \<and> (\<forall>d<128. r ! d \<le> r ! warp_argmax exact_ops (map Fin r))"
proof -
  let ?ix = "\<lambda>l. snd (lane_best exact_ops (map Fin r) l)"
  have lane: "d \<in> {d mod 32 + 32 * j |j. j < 4}" if "d < 128" for d :: nat
    using that by (auto intro!: exI[of _ "d div 32"])
  have lb: "lane_best exact_ops (map Fin r) l = (Fin (r ! ?ix l), ?ix l) \<and> ?ix l < 128 \<and>
      (\<forall>d<128. d mod 32 = l \<longrightarrow> r ! d \<le> r ! ?ix l)" if "l < 32" for l
    using lane_best_exact[OF that len] that lane by (elim bexE conjE) auto
  have bests: "map (lane_best exact_ops (map Fin r)) [0..<32] =
      (Fin (r ! ?ix 0), ?ix 0) # map (\<lambda>j. (Fin (r ! j), j)) (map ?ix [1..<32])"
    using lb by (simp add: upt_conv_Cons[of 0 32])
  have pairs: "foldl (\<lambda>(b, i) (v, j). if x_less b v then (v, j) else (b, i)) p (map (\<lambda>j. (Fin (r ! j), j)) js) =
      foldl (\<lambda>(b, i) d. if x_less b (Fin (r ! d)) then (Fin (r ! d), d) else (b, i)) p js" for p js
    by (induction js arbitrary: p) (auto split: prod.split)
  let ?js = "map ?ix [1..<32]"
  obtain i where i: "i \<in> insert (?ix 0) (set ?js)" "\<forall>d\<in>insert (?ix 0) (set ?js). r ! d \<le> r ! i"
    and fold: "foldl (\<lambda>(b, i) d. if x_less b (Fin (r ! d)) then (Fin (r ! d), d) else (b, i))
      (Fin (r ! ?ix 0), ?ix 0) ?js = (Fin (r ! i), i)"
    using argmax_foldl[of "(Fin (r ! ?ix 0), ?ix 0)" "\<lambda>d. r ! d" ?js] unfolding fst_conv snd_conv by blast
  have wi: "warp_argmax exact_ops (map Fin r) = i"
    unfolding warp_argmax_def Let_def bests using fold by (simp add: pairs del: map_map)
  have ixs: "insert (?ix 0) (set (map ?ix [1..<32])) = ?ix ` {0..<32}"
    by (auto simp: image_iff Bex_def) (metis One_nat_def Suc_leI neq0_conv)
  have "r ! d \<le> r ! i" if "d < 128" for d
    using lb[of "d mod 32"] i(2) that unfolding ixs by (fastforce intro: order_trans)
  then show ?thesis using i(1) wi lb unfolding ixs by auto
qed

section \<open>Properties of the decode step\<close>

lemma unat_attn_clamp:
  "unat (attn_clamp args) =
     (case args of Some a \<Rightarrow> if da_seq_len a = 0 then 1 else min (unat (da_seq_len a)) 32 | None \<Rightarrow> 1)"
  by (auto simp: attn_clamp_def kv_layout_consts word_less_nat_alt min_def split: option.splits)

lemma attn_clamp_bounds: "0 < unat (attn_clamp args)" "unat (attn_clamp args) \<le> 32"
  by (auto simp: unat_attn_clamp unat_gt_0 split: option.splits)

lemma decode_load_query_buffer:
  assumes "args = Some a" "da_q_ptr a = Some row" "length row = 128"
  shows "decode_load_query fl desc args st = row"
  using assms by (simp add: decode_load_query_def) (metis map_nth)

text \<open>
  C5. With exact arithmetic the tiled kernel is plain attention. For a query row and a staged KV
  block, the row written to the output buffer is the softmax-weighted average of the first
  \<open>seq_len\<close> value rows (clamped to 1..32), with scores \<open>q \<sqdot> k / sqrt 128\<close>: neither the
  tiling, nor the running maximum, nor the eight-lane shuffle sum changes the result. The token is
  an index below 128 at which that row is maximal.
\<close>

theorem attention_step_is_softmax:
  assumes "length q = 128" "length kv = 8192" "da_q_ptr a = Some (map Fin q)"
  shows "let n = unat (attn_clamp (Some a));
             step = attention_decode_step_fixed128 exact_ops desc (Some a) (map Fin kv) st in
    snd step = map_option (\<lambda>_. map (\<lambda>d. Fin (ref_attention q kv n d)) [0..<128]) (da_o_ptr a) \<and>
    unat (dr_token_id (fst step)) < 128 \<and>
    Max (ref_attention q kv n ` {..<128}) = ref_attention q kv n (unat (dr_token_id (fst step)))"
proof -
  let ?n = "unat (attn_clamp (Some a))"
  let ?r = "map (ref_attention q kv ?n) [0..<128]"
  have load: "decode_load_query exact_ops desc (Some a) st = map Fin q"
    using decode_load_query_buffer[of "Some a" a "map Fin q"] assms(1,3) by simp
  have out: "attn_output exact_ops (map Fin q) (map Fin kv) ?n = map Fin ?r"
    using attn_output_exact[OF assms(1,2) attn_clamp_bounds, of "Some a"] by (simp add: comp_def)
  define i where "i = warp_argmax exact_ops (map Fin ?r)"
  have "i < 128 \<and> (\<forall>d<128. ?r ! d \<le> ?r ! i)"
    unfolding i_def by (rule warp_argmax_exact) simp
  then have i: "i < 128" "Max (ref_attention q kv ?n ` {..<128}) = ref_attention q kv ?n i"
    by (auto intro!: Max_eqI)
  then show ?thesis
    unfolding attention_decode_step_fixed128_def Let_def load out i_def[symmetric]
    by (simp add: unat_of_nat comp_def)
qed

theorem attention_step_is_softmax_witness:
  "let a = \<lparr>da_q_ptr = Some (map Fin (replicate 128 1)), da_o_ptr = Some [], da_seq_len = 20, da_head_dim = 128,
            da_kv_block_base_idx = 0, da_kv_block_count = 1, da_output_token_offset = 0\<rparr>;
       step = attention_decode_step_fixed128 exact_ops Descriptor_zero (Some a) (map Fin (replicate 8192 2)) None in
   snd step = Some (map (\<lambda>d. Fin (ref_attention (replicate 128 1) (replicate 8192 2) 20 d)) [0..<128])"
  using attention_step_is_softmax[of "replicate 128 1" "replicate 8192 2"
      "\<lparr>da_q_ptr = Some (map Fin (replicate 128 1)), da_o_ptr = Some [], da_seq_len = 20, da_head_dim = 128,
        da_kv_block_base_idx = 0, da_kv_block_count = 1, da_output_token_offset = 0\<rparr>" Descriptor_zero None]
  by (simp add: unat_attn_clamp)

text \<open>
  The costs the step reports, for every arithmetic and every argument: one or two tiles, the
  bytes of the K and V rows it really reads, never more than one KV block, and 3072 cycles a tile.
\<close>

theorem attention_step_costs:
  "let r = fst (attention_decode_step_fixed128 fl desc args kv st); n = unat (attn_clamp args) in
   dr_path_kind r = DECODE_PATH_FIXED128 \<and>
   unat (dr_tile_count r) = (n + 15) div 16 \<and> unat (dr_tile_count r) \<in> {1, 2} \<and>
   unat (dr_bytes_touched r) = n * 512 \<and> unat (dr_bytes_touched r) \<le> unat KV_LAYOUT_BLOCK_BYTES \<and>
   unat (dr_cycle_estimate r) = 3072 * unat (dr_tile_count r)"
proof -
  let ?c = "attn_clamp args"
  note b = attn_clamp_bounds[of args]
  have t: "unat ((?c + DECODE_TILE_TOKENS - 1) div DECODE_TILE_TOKENS) = (unat ?c + 15) div 16"
    using b by (simp add: DECODE_TILE_TOKENS_def unat_div unat_word_ariths)
  have bytes: "unat (?c * DECODE_FIXED_HEAD_DIM * KV_LAYOUT_SCALAR_BYTES * 2) = unat ?c * 512"
    using b by (simp add: DECODE_FIXED_HEAD_DIM_def kv_layout_consts unat_word_ariths)
  have "(unat ?c + 15) div 16 \<in> {1, 2}" using b by auto
  with t have cyc: "unat (ucast ((?c + DECODE_TILE_TOKENS - 1) div DECODE_TILE_TOKENS) *
      ucast DECODE_FIXED_HEAD_DIM * (24 :: u64)) = 3072 * ((unat ?c + 15) div 16)"
    by (auto simp: DECODE_FIXED_HEAD_DIM_def kv_layout_consts unat_word_ariths unsigned_ucast_eq take_bit_nat_eq_self)
  show ?thesis
    unfolding attention_decode_step_fixed128_def Let_def
    using t bytes cyc \<open>(unat ?c + 15) div 16 \<in> {1, 2}\<close> b by (simp add: kv_layout_consts)
qed

end
