(* ===== verification/Prefetch.thy ===== *)
theory Prefetch
  imports Prelude
begin

text \<open>
  The KV prefetch engine, \<^verbatim>\<open>include/prefetch.h\<close> and \<^verbatim>\<open>cu/prefetch.cu\<close>, and the warp broadcasts of
  \<^verbatim>\<open>include/warp_broadcast.cuh\<close>. The 32 lanes of a warp copy a block in strided chunks. Issuing a copy and
  waiting for it are separate operations: a \<open>cp.async\<close> chunk is in flight from the issue on and lands at
  some moment up to the end of the wait. The order of the lanes and of the landings is not fixed by the
  code, so the operations take it as an argument.
\<close>

section \<open>Constants and the pipeline state\<close>

definition PREFETCH_DEPTH :: u32 where "PREFETCH_DEPTH = 3"
definition KV_BLOCK_SIZE :: u32 where "KV_BLOCK_SIZE = 16384"
definition PREFETCH_CHUNK_BYTES :: u32 where "PREFETCH_CHUNK_BYTES = 16"

text \<open>A pointer into shared memory is the offset from its start.\<close>

record PrefetchPipelineState =
  pp_smem_base :: u32
  pp_stage_count :: u32
  pp_stage_bytes :: u32

definition prefetch_pipeline_init :: "u32 \<Rightarrow> u32 \<Rightarrow> u32 \<Rightarrow> PrefetchPipelineState" where
  "prefetch_pipeline_init smem_base stage_count stage_bytes =
     \<lparr>pp_smem_base = smem_base, pp_stage_count = stage_count, pp_stage_bytes = stage_bytes\<rparr>"

definition prefetch_pipeline_stage_ptr :: "PrefetchPipelineState \<Rightarrow> u32 \<Rightarrow> u32" where
  "prefetch_pipeline_stage_ptr state stage_idx =
     (let bounded = (if pp_stage_count state = 0 then 0 else stage_idx mod pp_stage_count state)
      in pp_smem_base state + bounded * pp_stage_bytes state)"

section \<open>Copying a block\<close>

text \<open>One chunk: \<open>n\<close> bytes at offset \<open>off\<close> of the source \<open>src\<close> and of the destination \<open>dst\<close>.\<close>

definition copy_chunk :: "(nat \<Rightarrow> u8) \<Rightarrow> nat \<Rightarrow> nat \<Rightarrow> u8 list \<Rightarrow> nat \<Rightarrow> u8 list" where
  "copy_chunk src dst n smem off =
     map (\<lambda>i. if dst + off \<le> i \<and> i < dst + off + n then src (i - dst) else smem ! i) [0..<length smem]"

text \<open>
  The offsets of one lane's loop \<open>for (off = first; off < nbytes; off += stride)\<close> in 32-bit arithmetic.
  \<open>None\<close>: the offset wraps and the loop never ends.
\<close>

partial_function (option) lane_loop :: "u32 \<Rightarrow> u32 \<Rightarrow> u32 \<Rightarrow> u32 list option" where
  "lane_loop off stride nbytes =
     (if off < nbytes then Option.bind (lane_loop (off + stride) stride nbytes) (\<lambda>offs. Some (off # offs)) else Some [])"

text \<open>
  The chunk size is 16 where \<open>cp.async\<close> exists (\<open>__CUDA_ARCH__ >= 800\<close>) and one byte elsewhere.
\<close>

definition chunk_bytes :: "bool \<Rightarrow> u32" where
  "chunk_bytes cp_async = (if cp_async then PREFETCH_CHUNK_BYTES else 1)"

definition lane_offsets :: "bool \<Rightarrow> u32 \<Rightarrow> u32 \<Rightarrow> u32 list option" where
  "lane_offsets cp_async nbytes lane = lane_loop (lane * chunk_bytes cp_async) (32 * chunk_bytes cp_async) nbytes"

definition warp_offsets :: "bool \<Rightarrow> u32 \<Rightarrow> u32 list option" where
  "warp_offsets cp_async nbytes = map_option concat (those (map (\<lambda>lane. lane_offsets cp_async nbytes (of_nat lane)) [0..<32]))"

text \<open>
  Shared memory and the \<open>cp.async\<close> chunks in flight, each with its destination, source and offset.
  \<open>rearrange\<close> brings a list into the order given for its indices.
\<close>

record staging =
  sg_smem :: "u8 list"
  sg_inflight :: "(nat \<times> (nat \<Rightarrow> u8) \<times> nat) list"

definition rearrange :: "(nat list \<Rightarrow> nat list) \<Rightarrow> 'a list \<Rightarrow> 'a list" where
  "rearrange order xs = map ((!) xs) (order [0..<length xs])"

definition cp_async_land :: "u8 list \<Rightarrow> nat \<times> (nat \<Rightarrow> u8) \<times> nat \<Rightarrow> u8 list" where
  "cp_async_land smem chunk = (case chunk of (dst, src, off) \<Rightarrow> copy_chunk src dst (unat PREFETCH_CHUNK_BYTES) smem off)"

text \<open>
  \<open>prefetch_issue_partial\<close> puts the chunks in flight, or copies byte by byte in the order of the lanes given;
  a chunk in flight may land early; \<open>prefetch_wait\<close> ends when all have landed.
\<close>

definition prefetch_issue_partial ::
  "bool \<Rightarrow> (nat list \<Rightarrow> nat list) \<Rightarrow> (nat \<Rightarrow> u8) \<Rightarrow> nat \<Rightarrow> u32 \<Rightarrow> staging \<Rightarrow> staging option" where
  "prefetch_issue_partial cp_async order src dst nbytes st =
     (case warp_offsets cp_async nbytes of
        None \<Rightarrow> None
      | Some offs \<Rightarrow>
          Some (if cp_async then st\<lparr>sg_inflight := sg_inflight st @ map (\<lambda>off. (dst, src, unat off)) offs\<rparr>
                else st\<lparr>sg_smem := foldl (copy_chunk src dst 1) (sg_smem st) (map unat (rearrange order offs))\<rparr>))"

definition land_early :: "nat \<Rightarrow> staging \<Rightarrow> staging" where
  "land_early k st =
     (if k < length (sg_inflight st)
      then st\<lparr>sg_smem := cp_async_land (sg_smem st) (sg_inflight st ! k),
              sg_inflight := take k (sg_inflight st) @ drop (Suc k) (sg_inflight st)\<rparr>
      else st)"

definition prefetch_wait :: "bool \<Rightarrow> (nat list \<Rightarrow> nat list) \<Rightarrow> staging \<Rightarrow> staging" where
  "prefetch_wait cp_async order st =
     (if cp_async
      then st\<lparr>sg_smem := foldl cp_async_land (sg_smem st) (rearrange order (sg_inflight st)), sg_inflight := []\<rparr>
      else st)"

definition prefetch_issue ::
  "bool \<Rightarrow> (nat list \<Rightarrow> nat list) \<Rightarrow> (nat \<Rightarrow> u8) \<Rightarrow> nat \<Rightarrow> staging \<Rightarrow> staging option" where
  "prefetch_issue cp_async order src dst st = prefetch_issue_partial cp_async order src dst KV_BLOCK_SIZE st"

definition prefetch_pipeline_stage ::
  "bool \<Rightarrow> (nat list \<Rightarrow> nat list) \<Rightarrow> PrefetchPipelineState \<Rightarrow> u32 \<Rightarrow> (nat \<Rightarrow> u8) \<Rightarrow> staging \<Rightarrow> staging option" where
  "prefetch_pipeline_stage cp_async order state stage_idx src st =
     prefetch_issue_partial cp_async order src (unat (prefetch_pipeline_stage_ptr state stage_idx)) (pp_stage_bytes state) st"

definition prefetch_pipeline_wait_stage ::
  "bool \<Rightarrow> (nat list \<Rightarrow> nat list) \<Rightarrow> PrefetchPipelineState \<Rightarrow> u32 \<Rightarrow> staging \<Rightarrow> staging" where
  "prefetch_pipeline_wait_stage cp_async order state stage_idx st = prefetch_wait cp_async order st"

section \<open>Warp broadcasts\<close>

text \<open>
  The value of a variable in the 32 lanes is a list. \<open>__shfl_sync\<close> gives every lane the value of
  lane \<open>src\<close>; the 64-bit broadcast shuffles the two halves of the union.
\<close>

definition shfl_sync :: "'a list \<Rightarrow> nat \<Rightarrow> 'a list" where
  "shfl_sync vals src = map (\<lambda>_. vals ! src) vals"

definition warp_broadcast_u32 :: "u32 list \<Rightarrow> nat \<Rightarrow> u32 list" where
  "warp_broadcast_u32 value src = shfl_sync value src"

definition warp_broadcast_u64 :: "u64 list \<Rightarrow> nat \<Rightarrow> u64 list" where
  "warp_broadcast_u64 value src =
     (let x = shfl_sync (map (\<lambda>v. ucast v :: u32) value) src;
          y = shfl_sync (map (\<lambda>v. ucast (drop_bit 32 v) :: u32) value) src
      in map2 (\<lambda>lo hi. ucast lo OR push_bit 32 (ucast hi)) x y)"

section \<open>The loops without wrap-around\<close>

function strided :: "nat \<Rightarrow> nat \<Rightarrow> nat \<Rightarrow> nat list" where
  "strided off stride nbytes =
     (if off < nbytes \<and> 0 < stride then off # strided (off + stride) stride nbytes else [])"
  by pat_completeness auto
termination by (relation "measure (\<lambda>(off, stride, nbytes). nbytes - off)") auto

declare strided.simps [simp del]

definition warp_chunks :: "nat \<Rightarrow> nat \<Rightarrow> nat list" where
  "warp_chunks c nbytes = concat (map (\<lambda>lane. strided (lane * c) (32 * c) nbytes) [0..<32])"

lemma set_strided:
  "0 < s \<Longrightarrow> set (strided off s n) = {off + s * k |k. off + s * k < n}"
proof (induction off s n rule: strided.induct)
  case (1 off s n)
  show ?case
  proof (cases "off < n")
    case True
    have "{off + s * k |k. off + s * k < n} = insert off {off + s + s * k |k. off + s + s * k < n}"
    proof (intro set_eqI iffI)
      fix x assume "x \<in> {off + s * k |k. off + s * k < n}"
      then obtain k where "x = off + s * k" "x < n" by auto
      then show "x \<in> insert off {off + s + s * k |k. off + s + s * k < n}"
        by (cases k) auto
    next
      fix x assume "x \<in> insert off {off + s + s * k |k. off + s + s * k < n}"
      then show "x \<in> {off + s * k |k. off + s * k < n}"
        using True by (auto intro: exI[of _ 0]) (metis add.assoc mult_Suc_right)
    qed
    then show ?thesis using 1 True by (simp add: strided.simps[of off])
  next
    case False
    then show ?thesis by (auto simp: strided.simps[of off])
  qed
qed

text \<open>Together the lanes visit exactly the multiples of the chunk size.\<close>

lemma set_warp_chunks:
  assumes c: "0 < c"
  shows "set (warp_chunks c nbytes) = {c * m |m. c * m < nbytes}"
proof -
  have "x \<in> set (warp_chunks c nbytes) \<longleftrightarrow> (\<exists>l<32. \<exists>k. x = l * c + 32 * c * k \<and> x < nbytes)" for x
    using c by (auto simp: warp_chunks_def set_strided)
  moreover have "(\<exists>l<32. \<exists>k. x = l * c + 32 * c * k \<and> x < nbytes) \<longleftrightarrow> (\<exists>m. x = c * m \<and> x < nbytes)" for x
  proof
    assume "\<exists>l<32. \<exists>k. x = l * c + 32 * c * k \<and> x < nbytes"
    then obtain l k where "x = c * (l + 32 * k)" "x < nbytes" by (auto simp: algebra_simps)
    then show "\<exists>m. x = c * m \<and> x < nbytes" by blast
  next
    assume "\<exists>m. x = c * m \<and> x < nbytes"
    then obtain m where m: "x = c * m" "x < nbytes" by auto
    have "m = m mod 32 + 32 * (m div 32)" by simp
    then have "x = m mod 32 * c + 32 * c * (m div 32)"
      unfolding m(1) by (metis (no_types, opaque_lifting) distrib_left mult.assoc mult.commute)
    then show "\<exists>l<32. \<exists>k. x = l * c + 32 * c * k \<and> x < nbytes"
      using m(2) by (metis mod_less_divisor zero_less_numeral)
  qed
  ultimately show ?thesis by auto
qed

lemma lane_loop_ends:
  assumes "unat nbytes + unat stride \<le> 2 ^ 32" and "stride \<noteq> 0"
  shows "lane_loop off stride nbytes = Some (map of_nat (strided (unat off) (unat stride) (unat nbytes)))"
proof (induction "unat nbytes - unat off" arbitrary: off rule: less_induct)
  case less
  have s: "0 < unat stride" using assms(2) by (simp add: unat_gt_0)
  show ?case
  proof (cases "off < nbytes")
    case True
    then have lt: "unat off < unat nbytes" by (simp add: word_less_nat_alt)
    then have sum: "unat (off + stride) = unat off + unat stride" using assms(1) by (simp add: unat_word_ariths)
    have "lane_loop (off + stride) stride nbytes = Some (map of_nat (strided (unat off + unat stride) (unat stride) (unat nbytes)))"
      using less [of "off + stride"] lt s unfolding sum by simp
    then show ?thesis using True lt s by (simp add: lane_loop.simps [of off] strided.simps [of "unat off"])
  next
    case False
    then show ?thesis by (simp add: lane_loop.simps [of off] strided.simps [of "unat off"] word_less_nat_alt)
  qed
qed



lemma those_Some: "those (map (\<lambda>x. Some (f x)) xs) = Some (map f xs)"
  by (induction xs) simp_all

lemma chunk_bytes_cases: "unat (chunk_bytes cp) = (if cp then 16 else 1)" "unat (32 * chunk_bytes cp) = 32 * unat (chunk_bytes cp)"
  by (simp_all add: chunk_bytes_def PREFETCH_CHUNK_BYTES_def)

lemma warp_offsets_ends:
  assumes "unat nbytes + 32 * unat (chunk_bytes cp) \<le> 2 ^ 32"
  shows "warp_offsets cp nbytes = Some (map of_nat (warp_chunks (unat (chunk_bytes cp)) (unat nbytes)))"
proof -
  let ?c = "unat (chunk_bytes cp)"
  have nz: "32 * chunk_bytes cp \<noteq> 0" by (simp add: chunk_bytes_def PREFETCH_CHUNK_BYTES_def)
  have "lane_offsets cp nbytes (of_nat l) = Some (map of_nat (strided (l * ?c) (32 * ?c) (unat nbytes)))" if "l < 32" for l
  proof -
    have "unat (of_nat l * chunk_bytes cp) = l * ?c"
      using that by (simp add: chunk_bytes_def PREFETCH_CHUNK_BYTES_def unat_word_ariths unat_of_nat)
    then show ?thesis
      using assms unfolding lane_offsets_def by (subst lane_loop_ends [OF _ nz]) (simp_all only: chunk_bytes_cases(2))
  qed
  then have offs: "map (\<lambda>l. lane_offsets cp nbytes (of_nat l)) [0..<32] =
      map (\<lambda>l. Some (map of_nat (strided (l * ?c) (32 * ?c) (unat nbytes)))) [0..<32]" by (intro map_cong) simp_all
  show ?thesis unfolding warp_offsets_def offs those_Some by (simp add: warp_chunks_def map_concat comp_def)
qed


lemma length_copy_chunk [simp]: "length (copy_chunk src dst n smem off) = length smem"
  by (simp add: copy_chunk_def)

lemma nth_copy_chunks:
  "i < length smem \<Longrightarrow> foldl (copy_chunk src dst n) smem offs ! i =
     (if \<exists>off\<in>set offs. dst + off \<le> i \<and> i < dst + off + n then src (i - dst) else smem ! i)"
  by (induction offs arbitrary: smem) (auto simp: copy_chunk_def)

lemma length_copy_chunks [simp]: "length (foldl (copy_chunk src dst n) smem offs) = length smem"
  by (induction offs arbitrary: smem) auto

text \<open>The bytes covered: \<open>nbytes\<close> rounded up to a whole number of chunks.\<close>

definition covered :: "nat \<Rightarrow> nat \<Rightarrow> nat" where
  "covered c nbytes = c * ((nbytes + c - 1) div c)"

lemma covered_dvd: "0 < c \<Longrightarrow> c dvd nbytes \<Longrightarrow> covered c nbytes = nbytes"
  by (auto simp: covered_def div_nat_eqI elim!: dvdE)

lemma chunk_cover:
  assumes c: "0 < c"
  shows "(\<exists>off\<in>set (warp_chunks c nbytes). dst + off \<le> i \<and> i < dst + off + c) \<longleftrightarrow> dst \<le> i \<and> i < dst + covered c nbytes"
proof -
  have lt: "c * m < nbytes \<longleftrightarrow> m < (nbytes + c - 1) div c" for m
  proof -
    have "m < (nbytes + c - 1) div c \<longleftrightarrow> Suc m * c \<le> nbytes + c - 1"
      using c by (metis Suc_le_eq less_eq_div_iff_mult_less_eq)
    then show ?thesis using c by (auto simp: algebra_simps)
  qed
  show ?thesis
  proof
    assume "\<exists>off\<in>set (warp_chunks c nbytes). dst + off \<le> i \<and> i < dst + off + c"
    then obtain m where m: "m < (nbytes + c - 1) div c" "dst + c * m \<le> i" "i < dst + c * m + c"
      by (auto simp: set_warp_chunks [OF c] lt)
    then have "c * Suc m \<le> covered c nbytes" unfolding covered_def by (intro mult_le_mono2) simp
    then show "dst \<le> i \<and> i < dst + covered c nbytes" using m by simp
  next
    assume i: "dst \<le> i \<and> i < dst + covered c nbytes"
    let ?m = "(i - dst) div c"
    have "i - dst < (nbytes + c - 1) div c * c" using i by (simp add: covered_def mult.commute less_diff_conv2)
    then have "?m < (nbytes + c - 1) div c" by (rule less_mult_imp_div_less)
    then have "c * ?m \<in> set (warp_chunks c nbytes)" by (auto simp: set_warp_chunks [OF c] lt)
    moreover have "dst + c * ?m \<le> i" "i < dst + c * ?m + c"
      using i dividend_less_times_div [OF c, of "i - dst"] times_div_less_eq_dividend [of c "i - dst"] by linarith+
    ultimately show "\<exists>off\<in>set (warp_chunks c nbytes). dst + off \<le> i \<and> i < dst + off + c"
      by (intro bexI [of _ "c * ?m"]) auto
  qed
qed

lemma copy_warp_chunks:
  assumes "0 < c" and "set offs = set (warp_chunks c nbytes)" and "dst + covered c nbytes \<le> length smem"
  shows "foldl (copy_chunk src dst c) smem offs =
    take dst smem @ map src [0..<covered c nbytes] @ drop (dst + covered c nbytes) smem"
proof (rule nth_equalityI)
  fix i assume "i < length (foldl (copy_chunk src dst c) smem offs)"
  then show "foldl (copy_chunk src dst c) smem offs ! i =
      (take dst smem @ map src [0..<covered c nbytes] @ drop (dst + covered c nbytes) smem) ! i"
    using assms(3) by (auto simp: nth_copy_chunks assms(2) chunk_cover [OF assms(1)] nth_append)
qed (use assms(3) in simp)

lemma set_rearrange: "(\<And>xs. set (order xs) = set xs) \<Longrightarrow> set (rearrange order xs) = set xs"
  unfolding rearrange_def set_map by (simp add: atLeast0LessThan nth_image lessThan_atLeast0 [symmetric]) (auto simp: set_conv_nth)

lemma unat_warp_chunks: "0 < c \<Longrightarrow> nbytes \<le> 2 ^ 32 \<Longrightarrow> map (\<lambda>x. unat (of_nat x :: u32)) (warp_chunks c nbytes) = warp_chunks c nbytes"
  by (intro map_idI) (auto simp: set_warp_chunks unat_of_nat)

section \<open>Landing\<close>

text \<open>
  What shared memory will hold once everything in flight has landed; a chunk that lands early does not
  change it, and the wait brings it about.
\<close>

definition settled :: "staging \<Rightarrow> u8 list" where
  "settled st = foldl cp_async_land (sg_smem st) (sg_inflight st)"

definition one_copy :: "nat \<Rightarrow> (nat \<Rightarrow> u8) \<Rightarrow> staging \<Rightarrow> bool" where
  "one_copy dst src st \<longleftrightarrow> (\<forall>c \<in> set (sg_inflight st). fst c = dst \<and> fst (snd c) = src)"

lemma cp_async_lands:
  assumes "\<forall>c \<in> set cs. fst c = dst \<and> fst (snd c) = src"
  shows "foldl cp_async_land smem cs = foldl (copy_chunk src dst 16) smem (map (\<lambda>c. snd (snd c)) cs)"
  using assms by (induction cs arbitrary: smem) (auto simp: cp_async_land_def PREFETCH_CHUNK_BYTES_def)

lemma lands_cong:
  assumes "set offs = set offs'"
  shows "foldl (copy_chunk src dst n) smem offs = foldl (copy_chunk src dst n) smem offs'"
  by (rule nth_equalityI) (simp_all add: nth_copy_chunks assms)

lemma land_early_settled:
  assumes "one_copy dst src st"
  shows "settled (land_early k st) = settled st \<and> one_copy dst src (land_early k st)"
proof (cases "k < length (sg_inflight st)")
  case True
  let ?cs = "sg_inflight st"
  have split: "?cs = take k ?cs @ ?cs ! k # drop (Suc k) ?cs" using True by (rule id_take_nth_drop)
  then have perm: "set (?cs ! k # take k ?cs @ drop (Suc k) ?cs) = set ?cs" by (metis Un_insert_right list.set(2) set_append)
  then have "one_copy dst src (land_early k st)" using assms True unfolding one_copy_def land_early_def by auto
  moreover have "settled (land_early k st) = foldl cp_async_land (sg_smem st) (?cs ! k # take k ?cs @ drop (Suc k) ?cs)"
    using True by (simp add: settled_def land_early_def)
  moreover have "\<dots> = settled st"
    unfolding settled_def using assms perm
    by (subst (1 2) cp_async_lands [where dst = dst and src = src])
      (auto simp only: one_copy_def set_map intro!: lands_cong)
  ultimately show ?thesis by simp
qed (use assms in \<open>simp add: land_early_def\<close>)

lemma land_early_fold:
  "one_copy dst src st \<Longrightarrow> settled (fold land_early ks st) = settled st \<and> one_copy dst src (fold land_early ks st)"
  using land_early_settled by (induction ks arbitrary: st) auto

lemma prefetch_wait_settles:
  assumes "\<And>xs. set (order xs) = set xs" and "one_copy dst src st"
  shows "prefetch_wait True order st = \<lparr>sg_smem = settled st, sg_inflight = []\<rparr>"
proof -
  have perm: "set (rearrange order (sg_inflight st)) = set (sg_inflight st)" by (rule set_rearrange [OF assms(1)])
  have "foldl cp_async_land (sg_smem st) (rearrange order (sg_inflight st)) = settled st"
    unfolding settled_def using assms(2) perm
    by (subst (1 2) cp_async_lands [where dst = dst and src = src])
      (auto simp only: one_copy_def set_map intro!: lands_cong)
  then show ?thesis by (simp add: prefetch_wait_def)
qed

lemma prefetch_issue_partial_copies:
  fixes cp nbytes
  defines "c \<equiv> unat (chunk_bytes cp)" and "n \<equiv> covered (unat (chunk_bytes cp)) (unat nbytes)"
  assumes ord: "\<And>xs. set (order xs) = set xs" "\<And>xs. set (order' xs) = set xs"
    and ends: "unat nbytes + 32 * c \<le> 2 ^ 32" and fit: "dst + n \<le> length (sg_smem st)" and idle: "sg_inflight st = []"
  shows "\<exists>st'. prefetch_issue_partial cp order src dst nbytes st = Some st' \<and> (cp \<longrightarrow> sg_smem st' = sg_smem st) \<and>
    (\<forall>early. prefetch_wait cp order' (fold land_early early st') =
       \<lparr>sg_smem = take dst (sg_smem st) @ map src [0..<n] @ drop (dst + n) (sg_smem st), sg_inflight = []\<rparr>)"
proof -
  let ?w = "warp_chunks c (unat nbytes)"
  have c: "0 < c" by (simp add: c_def chunk_bytes_cases)
  have offs: "warp_offsets cp nbytes = Some (map of_nat ?w)" using warp_offsets_ends ends by (simp add: c_def)
  have un: "map (\<lambda>x. unat (of_nat x :: u32)) ?w = ?w" using unat_warp_chunks [OF c] ends by simp
  have copies: "foldl (copy_chunk src dst c) (sg_smem st) offs = take dst (sg_smem st) @ map src [0..<n] @ drop (dst + n) (sg_smem st)"
    if "set offs = set ?w" for offs
    using copy_warp_chunks [OF c that] fit by (simp add: n_def c_def)
  show ?thesis
  proof (cases cp)
    case True
    let ?st = "st\<lparr>sg_inflight := map (\<lambda>x. (dst, src, unat (of_nat x :: u32))) ?w\<rparr>"
    have one: "one_copy dst src ?st" by (simp add: one_copy_def)
    have "settled ?st = foldl (copy_chunk src dst 16) (sg_smem st) ?w"
      unfolding settled_def by (subst cp_async_lands [where dst = dst and src = src]) (simp_all add: comp_def un)
    also have "\<dots> = take dst (sg_smem st) @ map src [0..<n] @ drop (dst + n) (sg_smem st)"
      using copies [of ?w] True by (simp add: c_def chunk_bytes_cases)
    finally have "prefetch_wait True order' (fold land_early early ?st) =
        \<lparr>sg_smem = take dst (sg_smem st) @ map src [0..<n] @ drop (dst + n) (sg_smem st), sg_inflight = []\<rparr>" for early
      using land_early_fold [OF one] prefetch_wait_settles [OF ord(2)] by metis
    then show ?thesis
      using True idle offs by (intro exI [of _ ?st]) (simp add: prefetch_issue_partial_def comp_def)
  next
    case False
    then have c1: "c = 1" by (simp add: c_def chunk_bytes_cases)
    have early: "fold land_early ks s = s" if "sg_inflight s = []" for ks s
      using that by (induction ks) (simp_all add: land_early_def)
    have "set (map unat (rearrange order (map (of_nat :: nat \<Rightarrow> u32) ?w))) = set (map (\<lambda>x. unat (of_nat x :: u32)) ?w)"
      by (simp add: set_rearrange [where order = order, OF ord(1)] image_image)
    then have "foldl (copy_chunk src dst c) (sg_smem st) (map unat (rearrange order (map (of_nat :: nat \<Rightarrow> u32) ?w))) =
        take dst (sg_smem st) @ map src [0..<n] @ drop (dst + n) (sg_smem st)"
      unfolding un by (rule copies)
    then show ?thesis
      using False idle offs unfolding c1 by (simp add: prefetch_issue_partial_def prefetch_wait_def early)
  qed
qed

text \<open>The issue of a whole KV block always returns, and the wait after it leaves the block staged.\<close>

lemma prefetch_block_staged:
  assumes "\<And>xs. set (order xs) = set xs" and "dst + 16384 \<le> length smem"
  shows "\<exists>st'. prefetch_issue cp order src dst \<lparr>sg_smem = smem, sg_inflight = []\<rparr> = Some st' \<and>
    sg_smem (prefetch_wait cp order st') = take dst smem @ map src [0..<16384] @ drop (dst + 16384) smem"
proof -
  have n: "covered (unat (chunk_bytes cp)) (unat KV_BLOCK_SIZE) = 16384"
    by (subst covered_dvd) (simp_all add: chunk_bytes_cases KV_BLOCK_SIZE_def)
  have "unat KV_BLOCK_SIZE + 32 * unat (chunk_bytes cp) \<le> 2 ^ 32" by (simp add: chunk_bytes_cases KV_BLOCK_SIZE_def)
  from prefetch_issue_partial_copies [OF assms(1) assms(1) this, unfolded n, of dst "\<lparr>sg_smem = smem, sg_inflight = []\<rparr>" src, simplified, OF assms(2)]
  obtain st' where "prefetch_issue cp order src dst \<lparr>sg_smem = smem, sg_inflight = []\<rparr> = Some st'"
    and settles: "\<forall>early. prefetch_wait cp order (fold land_early early st') =
      \<lparr>sg_smem = take dst smem @ map src [0..<16384] @ drop (dst + 16384) smem, sg_inflight = []\<rparr>"
    unfolding prefetch_issue_def by blast
  moreover have "prefetch_wait cp order st' = \<lparr>sg_smem = take dst smem @ map src [0..<16384] @ drop (dst + 16384) smem, sg_inflight = []\<rparr>"
    using spec [OF settles, of "[]"] by simp
  ultimately show ?thesis by simp
qed



text \<open>Every stage of a pipeline of at most three block-sized stages lies in the launched 49152 bytes.\<close>

lemma stage_ptr_bound:
  assumes "stage_count \<le> PREFETCH_DEPTH"
  shows "unat (prefetch_pipeline_stage_ptr (prefetch_pipeline_init 0 stage_count KV_BLOCK_SIZE) idx) + 16384 \<le> 3 * 16384"
proof -
  have lt: "unat idx mod unat stage_count < 3" if "stage_count \<noteq> 0"
  proof -
    have "unat idx mod unat stage_count < unat stage_count" using that by (simp add: unat_gt_0)
    also have "\<dots> \<le> 3" using assms by (simp add: PREFETCH_DEPTH_def word_le_nat_alt)
    finally show ?thesis .
  qed
  show ?thesis
    using lt by (cases "stage_count = 0") (simp_all add: prefetch_pipeline_stage_ptr_def prefetch_pipeline_init_def KV_BLOCK_SIZE_def
          unat_word_ariths)
qed

section \<open>Broadcasts\<close>

lemma u64_halves: "ucast (ucast v :: u32) OR push_bit 32 (ucast (ucast (drop_bit 32 v) :: u32)) = (v :: u64)"
  by (rule bit_word_eqI) (auto simp: bit_simps)

lemma warp_broadcast_u32_all: "warp_broadcast_u32 vs src = replicate (length vs) (vs ! src)"
  by (simp add: warp_broadcast_u32_def shfl_sync_def map_replicate_const)

lemma warp_broadcast_u64_all:
  "src < length vs \<Longrightarrow> warp_broadcast_u64 vs src = replicate (length vs) (vs ! src)"
  by (simp add: warp_broadcast_u64_def shfl_sync_def map_replicate_const zip_replicate u64_halves)

end
