(* ===== verification/Gpu_Worker.thy ===== *)
theory Gpu_Worker
  imports Attention Prefetch Arena Runtime_Main
begin

text \<open>
  The persistent decode worker, \<^verbatim>\<open>cu/worker.cu\<close>: a warp that polls the command ring, stages the KV
  block in shared memory, runs the attention step and pushes a completion. It is a machine with one
  step per access to shared state, so that it can be interleaved with the host. \<open>main\<close>'s wait loop
  closes the circle from \<open>runtime_dispatch\<close> to \<open>runtime_poll\<close>.
\<close>

section \<open>The broadcast of a descriptor\<close>

text \<open>The argument holds the variable \<open>desc\<close> of the 32 lanes; only lane 0 has read the ring.\<close>

definition broadcast_desc :: "Descriptor list \<Rightarrow> Descriptor list" where
  "broadcast_desc descs =
     (let seq = warp_broadcast_u64 (map ds_seq_id descs) 0;
          kvo = warp_broadcast_u32 (map ds_kv_block_offset descs) 0;
          nkv = warp_broadcast_u32 (map (\<lambda>d. ucast (ds_num_kv_blocks d)) descs) 0;
          flg = warp_broadcast_u32 (map (\<lambda>d. ucast (ds_attention_flags d)) descs) 0;
          pad = warp_broadcast_u32 (map (\<lambda>d. ucast (ds_pad d)) descs) 0;
          oto = warp_broadcast_u32 (map ds_output_token_offset descs) 0;
          rwc = warp_broadcast_u64 (map ds_reward_cookie descs) 0;
          bsz = warp_broadcast_u32 (map (\<lambda>d. ucast (ds_batch_size d)) descs) 0;
          bix = warp_broadcast_u32 (map (\<lambda>d. ucast (ds_batch_index d)) descs) 0
      in map (\<lambda>l. \<lparr>ds_seq_id = seq ! l, ds_kv_block_offset = kvo ! l, ds_num_kv_blocks = ucast (nkv ! l),
                   ds_attention_flags = ucast (flg ! l), ds_pad = ucast (pad ! l),
                   ds_output_token_offset = oto ! l, ds_reward_cookie = rwc ! l,
                   ds_batch_size = ucast (bsz ! l), ds_batch_index = ucast (bix ! l)\<rparr>) [0..<length descs])"

section \<open>Processing a descriptor\<close>

text \<open>
  What the kernel is launched with and does not change: the arithmetic, \<open>__half2float\<close>, the build
  and the chunk order of the prefetch, the arena, device memory, the sampling state, the query
  buffer (rows of 128 components), the number of io slots, and whether there is a step counter.
\<close>

record 'f worker_env =
  we_ops :: "'f attn_ops"
  we_half :: "u16 \<Rightarrow> 'f"
  we_cp_async :: bool
  we_order :: "nat list \<Rightarrow> nat list"
  we_arena :: KVArena
  we_hbm :: "u64 \<Rightarrow> u8"
  we_sample :: "'f SampleState option"
  we_q_buffer :: "'f list list option"
  we_io_slots :: u32
  we_counts :: bool

datatype worker_pc = WPoll | WPush Completion | WCount | WStopped

record 'f worker_state =
  ws_ring :: CommandRing
  ws_comp :: CompletionRing
  ws_smem :: "u8 list"
  ws_o_buffer :: "'f list list option"
  ws_step_count :: u64
  ws_pc :: worker_pc

definition io_slot :: "u32 \<Rightarrow> Descriptor \<Rightarrow> u32" where
  "io_slot io_slots desc = (if io_slots = 0 then 0 else ds_output_token_offset desc AND (io_slots - 1))"

definition step_args :: "'f worker_env \<Rightarrow> 'f list list option \<Rightarrow> Descriptor \<Rightarrow> 'f DecodeStepArgs" where
  "step_args env o_buffer desc =
     (let slot = io_slot (we_io_slots env) desc in
      \<lparr>da_q_ptr = map_option (\<lambda>q. q ! unat slot) (we_q_buffer env),
       da_o_ptr = map_option (\<lambda>b. b ! unat slot) o_buffer,
       da_seq_len = (if ds_num_kv_blocks desc = 0 then 1 else ucast (ds_num_kv_blocks desc)),
       da_head_dim = DECODE_FIXED_HEAD_DIM, da_kv_block_base_idx = ds_kv_block_offset desc,
       da_kv_block_count = 1, da_output_token_offset = slot\<rparr>)"

definition batch_remaining :: "Descriptor \<Rightarrow> u32" where
  "batch_remaining desc =
     (let batch = decode_batch_contract (Some desc);
          remaining = (if bc_batch_size batch > bc_batch_index batch
                       then ucast (bc_batch_size batch - bc_batch_index batch) else 1)
      in if remaining > PREFETCH_DEPTH then PREFETCH_DEPTH else remaining)"

text \<open>The little-endian half-precision elements of a staged block.\<close>

definition block_halves :: "(u16 \<Rightarrow> 'f) \<Rightarrow> u8 list \<Rightarrow> 'f list" where
  "block_halves half bytes =
     map (\<lambda>i. half (ucast (bytes ! (2 * i)) OR push_bit 8 (ucast (bytes ! (2 * i + 1))))) [0..<8192]"

definition kv_bytes :: "'f worker_env \<Rightarrow> Descriptor \<Rightarrow> nat \<Rightarrow> u8" where
  "kv_bytes env desc i =
     we_hbm env (arena_block_ptr (we_arena env) (uint (ds_kv_block_offset desc)) + of_nat i)"

definition step_completion :: "Descriptor \<Rightarrow> DecodeStepResult \<Rightarrow> Completion" where
  "step_completion desc result =
     \<lparr>cp_seq_id = ds_seq_id desc, cp_token_id = dr_token_id result,
      cp_kv_block_offset = ds_kv_block_offset desc, cp_reward_cookie = ds_reward_cookie desc,
      cp_cycles_taken = dr_cycle_estimate result\<rparr>"

text \<open>
  Up to the push of the completion, which is a loop of its own. The prefetch is issued and then waited for; the issue of a block of
  \<open>KV_BLOCK_SIZE\<close> bytes always returns (\<open>prefetch_block_staged\<close>).
\<close>

definition process_descriptor :: "'f worker_env \<Rightarrow> Descriptor \<Rightarrow> 'f worker_state \<Rightarrow> 'f worker_state" where
  "process_descriptor env desc s =
     (let args = step_args env (ws_o_buffer s) desc;
          stage = unat (prefetch_pipeline_stage_ptr
                    (prefetch_pipeline_init 0 (batch_remaining desc) KV_BLOCK_SIZE) 0);
          issued = the (prefetch_issue (we_cp_async env) (we_order env) (kv_bytes env desc) stage
                         \<lparr>sg_smem = ws_smem s, sg_inflight = []\<rparr>);
          smem = sg_smem (prefetch_wait (we_cp_async env) (we_order env) issued);
          kv = block_halves (we_half env) (take (unat KV_BLOCK_SIZE) (drop stage smem));
          (result, row) = attention_decode_step_fixed128 (we_ops env) desc (Some args) kv (we_sample env)
      in s\<lparr>ws_smem := smem,
           ws_o_buffer := (case row of None \<Rightarrow> ws_o_buffer s
                           | Some r \<Rightarrow> map_option (\<lambda>b. b[unat (da_output_token_offset args) := r]) (ws_o_buffer s)),
           ws_pc := WPush (step_completion desc result)\<rparr>)"

section \<open>The worker loop\<close>

definition decode_worker_tick :: "'f worker_env \<Rightarrow> 'f worker_state \<Rightarrow> 'f worker_state" where
  "decode_worker_tick env s =
     (case ws_pc s of
        WPoll \<Rightarrow>
          (case ring_consume (ws_ring s) of (got, desc, ring) \<Rightarrow>
             (case desc of
                None \<Rightarrow> s\<lparr>ws_ring := ring\<rparr>
              | Some d \<Rightarrow>
                  if got = 0 then s\<lparr>ws_ring := ring\<rparr>
                  else if ds_seq_id d = UINT64_MAX then s\<lparr>ws_ring := ring, ws_pc := WStopped\<rparr>
                  else process_descriptor env d (s\<lparr>ws_ring := ring\<rparr>)))
      | WPush c \<Rightarrow>
          (case comp_ring_push (ws_comp s) c of (rc, cr) \<Rightarrow>
             s\<lparr>ws_comp := cr, ws_pc := (if rc \<noteq> 0 then WPush c else WCount)\<rparr>)
      | WCount \<Rightarrow> s\<lparr>ws_step_count := (if we_counts env then ws_step_count s + 1 else ws_step_count s), ws_pc := WPoll\<rparr>
      | WStopped \<Rightarrow> s)"

text \<open>
  The worker beside the host: an action is a step of the worker, a send of a descriptor or a poll
  of a completion. The two lists record the accepted descriptors and the polled completions.
\<close>

datatype sys_action = WorkerTick | HostSend Descriptor | HostPoll

type_synonym 'f sys = "'f worker_state \<times> Descriptor list \<times> Completion list"

fun sys_step :: "'f worker_env \<Rightarrow> sys_action \<Rightarrow> 'f sys \<Rightarrow> 'f sys" where
  "sys_step env WorkerTick (s, sent, polled) = (decode_worker_tick env s, sent, polled)"
| "sys_step env (HostSend d) (s, sent, polled) =
     (case ring_send (ws_ring s) d of (ok, ring) \<Rightarrow>
        (s\<lparr>ws_ring := ring\<rparr>, if ok then sent @ [d] else sent, polled))"
| "sys_step env HostPoll (s, sent, polled) =
     (case comp_poll_obs (ws_comp s) of (c, cr) \<Rightarrow>
        (s\<lparr>ws_comp := cr\<rparr>, sent, polled @ (case c of None \<Rightarrow> [] | Some c \<Rightarrow> [c])))"

fun sys_run :: "'f worker_env \<Rightarrow> sys_action list \<Rightarrow> 'f sys \<Rightarrow> 'f sys" where
  "sys_run env [] st = st"
| "sys_run env (a # as) st = sys_run env as (sys_step env a st)"

text \<open>
  The wait loop of \<open>main\<close>. Before each poll the worker makes \<open>gpu k\<close> steps, \<open>k\<close> the fuel left; the
  result is \<open>None\<close> when the fuel ends before the loop.
\<close>

fun wait_loop :: "nat \<Rightarrow> 'f worker_env \<Rightarrow> (nat \<Rightarrow> nat) \<Rightarrow> int \<Rightarrow> int \<Rightarrow> 'f worker_state \<Rightarrow> (int \<times> 'f worker_state) option" where
  "wait_loop fuel env gpu n_steps total_completed s =
     (if total_completed < n_steps then
        (case fuel of 0 \<Rightarrow> None | Suc k \<Rightarrow>
           let s1 = (decode_worker_tick env ^^ gpu k) s in
           (case runtime_poll (ws_comp s1) 256 of (n, cr) \<Rightarrow>
              wait_loop k env gpu n_steps (total_completed + n) (s1\<lparr>ws_comp := cr\<rparr>)))
      else Some (total_completed, s))"

declare wait_loop.simps [simp del]

section \<open>The broadcast\<close>

text \<open>
  After the broadcast every lane of the warp holds the descriptor lane 0 consumed, whatever was in
  its registers: no field is truncated, although the 64-bit fields travel as two halves and the 8-
  and 16-bit fields as 32-bit words.
\<close>

theorem broadcast_desc_uniform: "broadcast_desc (d # junk) = replicate (Suc (length junk)) d"
proof (rule nth_equalityI)
  fix l assume "l < length (broadcast_desc (d # junk))"
  then have l: "l < Suc (length junk)" by (simp add: broadcast_desc_def)
  then show "broadcast_desc (d # junk) ! l = replicate (Suc (length junk)) d ! l"
    by (simp add: broadcast_desc_def warp_broadcast_u32_all warp_broadcast_u64_all nth_append
          del: upt_Suc replicate_Suc)
qed (simp add: broadcast_desc_def)

section \<open>The result of a descriptor\<close>

text \<open>The completion of a descriptor, from the block in device memory.\<close>

definition completion_of :: "'f worker_env \<Rightarrow> Descriptor \<Rightarrow> Completion" where
  "completion_of env desc = step_completion desc (fst (attention_decode_step_fixed128 (we_ops env) desc
     (Some (step_args env None desc)) (block_halves (we_half env) (map (kv_bytes env desc) [0..<16384])) (we_sample env)))"

definition env_ok :: "'f worker_env \<Rightarrow> bool" where
  "env_ok env \<longleftrightarrow> (\<forall>xs. set (we_order env xs) = set xs)"

definition smem_ok :: "'f worker_state \<Rightarrow> bool" where
  "smem_ok s \<longleftrightarrow> length (ws_smem s) = 3 * 16384"

lemma step_result_o_ptr:
  "fst (attention_decode_step_fixed128 fl desc (Some (step_args env ob desc)) kv st) =
   fst (attention_decode_step_fixed128 fl desc (Some (step_args env None desc)) kv st)"
  by (simp add: attention_decode_step_fixed128_def step_args_def attn_clamp_def decode_load_query_def)

lemma process_descriptor_outcome:
  assumes "env_ok env" "smem_ok s"
  shows "\<exists>smem ob. process_descriptor env desc s =
      s\<lparr>ws_smem := smem, ws_o_buffer := ob, ws_pc := WPush (completion_of env desc)\<rparr> \<and> length smem = 3 * 16384"
proof -
  let ?stage = "unat (prefetch_pipeline_stage_ptr (prefetch_pipeline_init 0 (batch_remaining desc) KV_BLOCK_SIZE) 0)"
  have "batch_remaining desc \<le> PREFETCH_DEPTH" by (simp add: batch_remaining_def linorder_not_less PREFETCH_DEPTH_def)
  then have st: "?stage + 16384 \<le> length (ws_smem s)"
    using stage_ptr_bound assms(2) by (simp add: smem_ok_def)
  have smem: "sg_smem (prefetch_wait (we_cp_async env) (we_order env)
        (the (prefetch_issue (we_cp_async env) (we_order env) (kv_bytes env desc) ?stage \<lparr>sg_smem = ws_smem s, sg_inflight = []\<rparr>))) =
      take ?stage (ws_smem s) @ map (kv_bytes env desc) [0..<16384] @ drop (?stage + 16384) (ws_smem s)"
    using prefetch_block_staged [of "we_order env" ?stage "ws_smem s" "we_cp_async env" "kv_bytes env desc"] st assms(1)
    by (auto simp: env_ok_def)
  have block: "take (unat KV_BLOCK_SIZE) (drop ?stage (take ?stage (ws_smem s) @ map (kv_bytes env desc) [0..<16384] @
      drop (?stage + 16384) (ws_smem s))) = map (kv_bytes env desc) [0..<16384]"
    using st by (simp add: KV_BLOCK_SIZE_def)
  have len: "length (take ?stage (ws_smem s) @ map (kv_bytes env desc) [0..<16384] @
      drop (?stage + 16384) (ws_smem s)) = 3 * 16384"
    using st assms(2) by (simp add: smem_ok_def)
  show ?thesis
    unfolding process_descriptor_def Let_def smem block completion_of_def case_prod_beta
      step_result_o_ptr[of "we_ops env" desc env "ws_o_buffer s"]
    by (intro exI conjI, rule refl, rule len)
qed

section \<open>Conservation\<close>

text \<open>The completion the worker holds but has not pushed yet, and whether the count is still due.\<close>

fun pending :: "worker_pc \<Rightarrow> Completion list" where
  "pending (WPush c) = [c]"
| "pending _ = []"

fun uncounted :: "worker_pc \<Rightarrow> nat" where
  "uncounted (WPush c) = 1"
| "uncounted WCount = 1"
| "uncounted _ = 0"

text \<open>
  \<open>handled\<close> are the descriptors the worker has taken from the ring to process, in order. They are
  what was sent, up to the descriptors still in the ring and the sentinel that stopped the worker.
\<close>

definition sys_inv :: "'f worker_env \<Rightarrow> 'f sys \<Rightarrow> Descriptor list \<Rightarrow> bool" where
  "sys_inv env st handled \<longleftrightarrow>
     (case st of (s, sent, polled) \<Rightarrow>
        cmd_inv (ws_ring s) \<and> comp_inv (ws_comp s) \<and> smem_ok s \<and>
        (\<forall>d\<in>set handled. ds_seq_id d \<noteq> UINT64_MAX) \<and>
        (if ws_pc s = WStopped
         then \<exists>d. ds_seq_id d = UINT64_MAX \<and> sent = handled @ d # cmd_contents (ws_ring s)
         else sent = handled @ cmd_contents (ws_ring s)) \<and>
        polled @ comp_contents (ws_comp s) @ pending (ws_pc s) = map (completion_of env) handled \<and>
        (we_counts env \<longrightarrow> ws_step_count s + of_nat (uncounted (ws_pc s)) = of_nat (length handled)))"

lemma comp_push_obs_eq:
  "comp_ring_push cr c = (rc, cr') \<Longrightarrow> comp_push_obs cr c = (rc = 0, cr')"
  by (simp add: comp_push_obs_def)

lemma sys_inv_poll_tick:
  assumes env: "env_ok env" and inv: "sys_inv env (s, sent, polled) handled" and pc: "ws_pc s = WPoll"
  shows "\<exists>handled'. sys_inv env (decode_worker_tick env s, sent, polled) handled' \<and>
    ws_comp (decode_worker_tick env s) = ws_comp s \<and> cr_tail (ws_ring (decode_worker_tick env s)) = cr_tail (ws_ring s)"
proof (cases "cmd_contents (ws_ring s)")
  case Nil
  then have "ring_consume_obs (ws_ring s) = (None, ws_ring s)"
    using inv by (intro cmdq.pop_empty) (auto simp: sys_inv_def)
  then obtain got where "ring_consume (ws_ring s) = (got, None, ws_ring s)"
    by (cases "ring_consume (ws_ring s)") (auto simp: ring_consume_obs_def)
  then have "decode_worker_tick env s = s" using pc by (simp add: decode_worker_tick_def)
  then show ?thesis using inv by auto
next
  case (Cons d ds)
  have inv': "cmd_inv (ws_ring s)" using inv by (simp add: sys_inv_def)
  obtain y r where pop: "ring_consume_obs (ws_ring s) = (y, r)" by fastforce
  have r: "y = Some d" "cmd_inv r" "cmd_contents r = ds" "cr_tail r = cr_tail (ws_ring s)"
    using cmdq.linear_pop_first[OF inv' Cons pop] by simp_all
  have "ring_consume (ws_ring s) = (1, Some d, r)"
    using pop r(1) by (auto simp: ring_consume_obs_def ring_consume_def split: if_splits)
  then have tick: "decode_worker_tick env s =
      (if ds_seq_id d = UINT64_MAX then s\<lparr>ws_ring := r, ws_pc := WStopped\<rparr>
       else process_descriptor env d (s\<lparr>ws_ring := r\<rparr>))"
    using pc by (simp add: decode_worker_tick_def)
  show ?thesis
  proof (cases "ds_seq_id d = UINT64_MAX")
    case True
    then show ?thesis using inv r Cons pc unfolding tick
      by (intro exI[of _ handled]) (simp add: sys_inv_def smem_ok_def)
  next
    case False
    have "smem_ok (s\<lparr>ws_ring := r\<rparr>)" using inv by (simp add: sys_inv_def smem_ok_def)
    from process_descriptor_outcome[OF env this, of d] obtain smem ob where
      p: "process_descriptor env d (s\<lparr>ws_ring := r\<rparr>) =
        s\<lparr>ws_ring := r, ws_smem := smem, ws_o_buffer := ob, ws_pc := WPush (completion_of env d)\<rparr>"
      "length smem = 3 * 16384" by auto
    then show ?thesis using inv r Cons pc False unfolding tick
      by (intro exI[of _ "handled @ [d]"]) (simp add: sys_inv_def smem_ok_def)
  qed
qed

lemma sys_inv_tick:
  assumes env: "env_ok env" and inv: "sys_inv env (s, sent, polled) handled"
    and budget: "comp_budget (Suc n) (ws_comp s)"
  shows "\<exists>handled'. sys_inv env (decode_worker_tick env s, sent, polled) handled' \<and>
    comp_budget n (ws_comp (decode_worker_tick env s)) \<and>
    cr_tail (ws_ring (decode_worker_tick env s)) = cr_tail (ws_ring s)"
proof (cases "ws_pc s")
  case WPoll
  then show ?thesis
    using sys_inv_poll_tick[OF env inv WPoll] compq.ok_less[OF budget] by auto
next
  case (WPush c)
  obtain rc cr where push: "comp_ring_push (ws_comp s) c = (rc, cr)" by fastforce
  then have tick: "decode_worker_tick env s = s\<lparr>ws_comp := cr, ws_pc := (if rc \<noteq> 0 then WPush c else WCount)\<rparr>"
    using WPush by (simp add: decode_worker_tick_def)
  have cinv: "comp_inv (ws_comp s)" using inv by (simp add: sys_inv_def)
  note obs = comp_push_obs_eq[OF push]
  show ?thesis
  proof (cases "length (comp_contents (ws_comp s)) = 4096")
    case True
    then have "rc \<noteq> 0" "comp_inv cr" "comp_contents cr = comp_contents (ws_comp s)" "comp_budget (Suc n) cr"
      using compq.push_full[OF cinv True obs] budget by simp_all
    then show ?thesis using inv WPush compq.ok_less unfolding tick
      by (intro exI[of _ handled]) (simp add: sys_inv_def smem_ok_def)
  next
    case False
    then have "length (comp_contents (ws_comp s)) < 4096" using compq.bounded[OF cinv] by simp
    from compq.push_room[OF cinv budget this obs]
    have "rc = 0" "comp_inv cr" "comp_contents cr = comp_contents (ws_comp s) @ [c]" "comp_budget n cr" by simp_all
    then show ?thesis using inv WPush unfolding tick
      by (intro exI[of _ handled]) (simp add: sys_inv_def smem_ok_def)
  qed
next
  case WCount
  then show ?thesis
    using inv compq.ok_less[OF budget]
    by (intro exI[of _ handled]) (simp add: sys_inv_def smem_ok_def decode_worker_tick_def)
next
  case WStopped
  then show ?thesis using inv compq.ok_less[OF budget] by (auto simp: decode_worker_tick_def)
qed

lemma sys_inv_polled:
  assumes "sys_inv env (s, sent, polled) handled" "comp_inv cr" "xs @ comp_contents cr = comp_contents (ws_comp s)"
  shows "sys_inv env (s\<lparr>ws_comp := cr\<rparr>, sent, polled @ xs) handled"
  using assms(1,2) by (simp add: sys_inv_def smem_ok_def flip: assms(3))

lemma sys_inv_step:
  assumes env: "env_ok env" and inv: "sys_inv env (s, sent, polled) handled"
    and budget: "comp_budget (Suc n) (ws_comp s)" "cmd_budget (Suc n) (ws_ring s)"
    and step: "sys_step env a (s, sent, polled) = (s', sent', polled')"
  shows "\<exists>handled'. sys_inv env (s', sent', polled') handled' \<and>
    comp_budget n (ws_comp s') \<and> cmd_budget n (ws_ring s')"
proof (cases a)
  case WorkerTick
  then show ?thesis
    using sys_inv_tick[OF env inv budget(1)] step cmdq.ok_less[OF budget(2)]
    by (auto simp: rep_budget_def)
next
  case (HostSend d)
  obtain ok r where send: "ring_send (ws_ring s) d = (ok, r)" by fastforce
  have rinv: "cmd_inv (ws_ring s)" using inv by (simp add: sys_inv_def)
  have "cmd_inv r \<and> cmd_contents r = cmd_contents (ws_ring s) @ (if ok then [d] else []) \<and> cmd_budget n r"
    using cmdq.push_refines[OF rinv budget(2) send]
    by (cases "length (cmd_contents (ws_ring s)) < 4096") auto
  then show ?thesis
    using HostSend step send inv compq.ok_less[OF budget(1)]
    by (intro exI[of _ handled]) (auto simp: sys_inv_def smem_ok_def split: if_splits)
next
  case HostPoll
  obtain y cr where poll: "comp_poll_obs (ws_comp s) = (y, cr)" by fastforce
  have cinv: "comp_inv (ws_comp s)" using inv by (simp add: sys_inv_def)
  have "spec_pop (comp_contents (ws_comp s)) = (y, comp_contents cr)" "comp_inv cr" "comp_budget (Suc n) cr"
    using compq.pop_refines[OF cinv poll, of "Suc n"] budget(1) by simp_all
  then show ?thesis
    using sys_inv_polled[OF inv _ spec_pop_conserves] HostPoll step poll cmdq.ok_less[OF budget(2)] compq.ok_less
    by auto
qed

lemma sys_inv_run:
  assumes "env_ok env" and "sys_inv env (s, sent, polled) handled"
    and "comp_budget (length acts) (ws_comp s)" "cmd_budget (length acts) (ws_ring s)"
    and "sys_run env acts (s, sent, polled) = (s', sent', polled')"
  shows "\<exists>handled'. sys_inv env (s', sent', polled') handled'"
  using assms(2-)
proof (induction acts arbitrary: s sent polled handled)
  case (Cons a acts)
  obtain s1 sent1 polled1 where step: "sys_step env a (s, sent, polled) = (s1, sent1, polled1)"
    by (cases "sys_step env a (s, sent, polled)")
  obtain h where "sys_inv env (s1, sent1, polled1) h" "comp_budget (length acts) (ws_comp s1)"
    "cmd_budget (length acts) (ws_ring s1)"
    using sys_inv_step[OF assms(1) Cons.prems(1) _ _ step, of "length acts"] Cons.prems(2,3) by auto
  then show ?case using Cons.IH[of s1 sent1 polled1 h] Cons.prems(4) step by simp
qed auto

section \<open>Work without a sentinel\<close>

text \<open>
  The worker while no sentinel has been sent. The measure weighs a queued descriptor by the steps it
  still needs, the poll included. A worker without work is idle; one that holds a completion while
  the completion ring is full is stalled; in every other state a step makes progress.
\<close>

definition dev_inv :: "'f worker_env \<Rightarrow> Descriptor list \<Rightarrow> 'f worker_state \<Rightarrow> Completion list \<Rightarrow> bool" where
  "dev_inv env sent s polled \<longleftrightarrow>
     (\<exists>handled. sys_inv env (s, sent, polled) handled) \<and> (\<forall>d\<in>set sent. ds_seq_id d \<noteq> UINT64_MAX) \<and>
     comp_budget (length (cmd_contents (ws_ring s)) + length (pending (ws_pc s))) (ws_comp s)"

fun pc_weight :: "worker_pc \<Rightarrow> nat" where
  "pc_weight (WPush c) = 3"
| "pc_weight WCount = 1"
| "pc_weight _ = 0"

definition wait_measure :: "'f worker_state \<Rightarrow> nat" where
  "wait_measure s = 4 * length (cmd_contents (ws_ring s)) + pc_weight (ws_pc s) + length (comp_contents (ws_comp s))"

definition idle :: "'f worker_state \<Rightarrow> bool" where
  "idle s \<longleftrightarrow> cmd_contents (ws_ring s) = [] \<and> ws_pc s = WPoll"

definition stalled :: "'f worker_state \<Rightarrow> bool" where
  "stalled s \<longleftrightarrow> pending (ws_pc s) \<noteq> [] \<and> length (comp_contents (ws_comp s)) = 4096"

lemma dev_inv_running: "dev_inv env sent s polled \<Longrightarrow> ws_pc s \<noteq> WStopped"
  by (auto simp: dev_inv_def sys_inv_def)

lemma dev_inv_rings: "dev_inv env sent s polled \<Longrightarrow> cmd_inv (ws_ring s) \<and> comp_inv (ws_comp s)"
  by (auto simp: dev_inv_def sys_inv_def)

lemma dev_inv_accounts:
  assumes "dev_inv env sent s polled"
  shows "length polled + length (comp_contents (ws_comp s)) + length (pending (ws_pc s)) +
    length (cmd_contents (ws_ring s)) = length sent"
proof -
  obtain handled where "polled @ comp_contents (ws_comp s) @ pending (ws_pc s) = map (completion_of env) handled"
    "sent = handled @ cmd_contents (ws_ring s)"
    using assms dev_inv_running[OF assms] by (auto simp: dev_inv_def sys_inv_def)
  from arg_cong[OF this(1), of length] arg_cong[OF this(2), of length] show ?thesis by simp
qed

lemma poll_tick_progress:
  assumes "env_ok env" "dev_inv env sent s polled" "ws_pc s = WPoll" "cmd_contents (ws_ring s) = d # ds"
  shows "ws_comp (decode_worker_tick env s) = ws_comp s \<and> cmd_contents (ws_ring (decode_worker_tick env s)) = ds \<and>
    (\<exists>c. ws_pc (decode_worker_tick env s) = WPush c)"
proof -
  obtain handled where inv: "sys_inv env (s, sent, polled) handled" "\<forall>d\<in>set sent. ds_seq_id d \<noteq> UINT64_MAX"
    using assms(2) by (auto simp: dev_inv_def)
  have rinv: "cmd_inv (ws_ring s)" and d: "ds_seq_id d \<noteq> UINT64_MAX"
    using inv assms(3,4) by (auto simp: sys_inv_def)
  obtain y r where pop: "ring_consume_obs (ws_ring s) = (y, r)" by fastforce
  have r: "y = Some d" "cmd_contents r = ds"
    using cmdq.linear_pop_first[OF rinv assms(4) pop] by simp_all
  have "ring_consume (ws_ring s) = (1, Some d, r)"
    using pop r(1) by (auto simp: ring_consume_obs_def ring_consume_def split: if_splits)
  moreover have "smem_ok (s\<lparr>ws_ring := r\<rparr>)" using inv(1) by (simp add: sys_inv_def smem_ok_def)
  from process_descriptor_outcome[OF assms(1) this, of d] obtain smem ob where
    "process_descriptor env d (s\<lparr>ws_ring := r\<rparr>) =
      s\<lparr>ws_ring := r, ws_smem := smem, ws_o_buffer := ob, ws_pc := WPush (completion_of env d)\<rparr>" by auto
  ultimately show ?thesis using d r assms(3) by (simp add: decode_worker_tick_def)
qed

lemma push_tick_progress:
  assumes "dev_inv env sent s polled" "ws_pc s = WPush c"
  shows "ws_ring (decode_worker_tick env s) = ws_ring s \<and>
    (if length (comp_contents (ws_comp s)) = 4096
     then ws_pc (decode_worker_tick env s) = WPush c \<and>
       comp_contents (ws_comp (decode_worker_tick env s)) = comp_contents (ws_comp s) \<and>
       comp_budget (Suc (length (cmd_contents (ws_ring s)))) (ws_comp (decode_worker_tick env s))
     else ws_pc (decode_worker_tick env s) = WCount \<and>
       comp_contents (ws_comp (decode_worker_tick env s)) = comp_contents (ws_comp s) @ [c] \<and>
       comp_budget (length (cmd_contents (ws_ring s))) (ws_comp (decode_worker_tick env s)))"
proof -
  have cinv: "comp_inv (ws_comp s)" and budget: "comp_budget (Suc (length (cmd_contents (ws_ring s)))) (ws_comp s)"
    using assms by (auto simp: dev_inv_def sys_inv_def)
  obtain rc cr where push: "comp_ring_push (ws_comp s) c = (rc, cr)" by fastforce
  then have tick: "decode_worker_tick env s = s\<lparr>ws_comp := cr, ws_pc := (if rc \<noteq> 0 then WPush c else WCount)\<rparr>"
    using assms(2) by (simp add: decode_worker_tick_def)
  show ?thesis
  proof (cases "length (comp_contents (ws_comp s)) = 4096")
    case True
    from compq.push_full[OF cinv True comp_push_obs_eq[OF push]] show ?thesis
      unfolding tick using True budget by simp
  next
    case False
    then have "length (comp_contents (ws_comp s)) < 4096" using compq.bounded[OF cinv] by simp
    from compq.push_room[OF cinv budget this comp_push_obs_eq[OF push]] show ?thesis
      unfolding tick using False by simp
  qed
qed

lemma dev_inv_tick:
  assumes "env_ok env" "dev_inv env sent s polled"
  shows "dev_inv env sent (decode_worker_tick env s) polled \<and>
    cr_tail (ws_ring (decode_worker_tick env s)) = cr_tail (ws_ring s) \<and>
    (if idle s then decode_worker_tick env s = s
     else if stalled s then wait_measure (decode_worker_tick env s) = wait_measure s \<and> stalled (decode_worker_tick env s)
     else wait_measure (decode_worker_tick env s) < wait_measure s)"
proof -
  obtain handled where inv: "sys_inv env (s, sent, polled) handled" "\<forall>d\<in>set sent. ds_seq_id d \<noteq> UINT64_MAX"
    "comp_budget (length (cmd_contents (ws_ring s)) + length (pending (ws_pc s))) (ws_comp s)"
    using assms(2) by (auto simp: dev_inv_def)
  let ?s = "decode_worker_tick env s"
  have facts: "(\<exists>h. sys_inv env (?s, sent, polled) h) \<and> cr_tail (ws_ring ?s) = cr_tail (ws_ring s) \<and>
      comp_budget (length (cmd_contents (ws_ring ?s)) + length (pending (ws_pc ?s))) (ws_comp ?s) \<and>
      (if idle s then ?s = s else if stalled s then wait_measure ?s = wait_measure s \<and> stalled ?s
       else wait_measure ?s < wait_measure s)"
  proof (cases "ws_pc s")
    case WPoll
    note step = sys_inv_poll_tick[OF assms(1) inv(1) WPoll]
    show ?thesis
    proof (cases "cmd_contents (ws_ring s)")
      case Nil
      then have "ring_consume_obs (ws_ring s) = (None, ws_ring s)"
        using inv(1) by (intro cmdq.pop_empty) (auto simp: sys_inv_def)
      then obtain got where "ring_consume (ws_ring s) = (got, None, ws_ring s)"
        by (cases "ring_consume (ws_ring s)") (auto simp: ring_consume_obs_def)
      then have "?s = s" using WPoll by (simp add: decode_worker_tick_def)
      then show ?thesis using inv Nil WPoll by (auto simp: idle_def)
    next
      case (Cons d ds)
      from poll_tick_progress[OF assms WPoll Cons] show ?thesis
        using step inv(3) WPoll Cons by (auto simp: wait_measure_def idle_def stalled_def)
    qed
  next
    case (WPush c)
    from push_tick_progress[OF assms(2) WPush]
    have "\<exists>h. sys_inv env (?s, sent, polled) h"
      using sys_inv_tick[OF assms(1) inv(1), of "length (cmd_contents (ws_ring s))"] inv(3) WPush by auto
    with push_tick_progress[OF assms(2) WPush] WPush show ?thesis
      by (auto simp: wait_measure_def idle_def stalled_def split: if_splits)
  next
    case WCount
    then have "sys_inv env (?s, sent, polled) handled"
      using inv by (simp add: sys_inv_def smem_ok_def decode_worker_tick_def)
    then show ?thesis
      using inv(3) WCount by (auto simp: decode_worker_tick_def wait_measure_def idle_def stalled_def)
  next
    case WStopped
    then show ?thesis using dev_inv_running[OF assms(2)] by simp
  qed
  then show ?thesis using inv(2) unfolding dev_inv_def by blast
qed

lemma dev_inv_ticks:
  assumes "env_ok env" "dev_inv env sent s polled"
  shows "dev_inv env sent ((decode_worker_tick env ^^ k) s) polled \<and>
    cr_tail (ws_ring ((decode_worker_tick env ^^ k) s)) = cr_tail (ws_ring s) \<and>
    wait_measure ((decode_worker_tick env ^^ k) s) \<le> wait_measure s \<and>
    (0 < k \<longrightarrow> wait_measure ((decode_worker_tick env ^^ k) s) = wait_measure s \<longrightarrow>
       idle ((decode_worker_tick env ^^ k) s) \<or> stalled ((decode_worker_tick env ^^ k) s))"
proof (induction k)
  case (Suc k)
  then show ?case
    using dev_inv_tick[OF assms(1), of sent "(decode_worker_tick env ^^ k) s" polled] by (auto split: if_splits)
qed (simp add: assms(2))

section \<open>Progress of the wait loop\<close>

text \<open>No more descriptors than the completion ring has slots: the worker never stalls.\<close>

definition wait_inv :: "'f worker_env \<Rightarrow> Descriptor list \<Rightarrow> 'f worker_state \<Rightarrow> Completion list \<Rightarrow> bool" where
  "wait_inv env sent s polled \<longleftrightarrow> dev_inv env sent s polled \<and> length sent \<le> 4096"

lemma wait_inv_running: "wait_inv env sent s polled \<Longrightarrow> ws_pc s \<noteq> WStopped"
  unfolding wait_inv_def by (elim conjE) (rule dev_inv_running)

lemma wait_inv_accounts:
  "wait_inv env sent s polled \<Longrightarrow> length polled + length (comp_contents (ws_comp s)) + length (pending (ws_pc s)) +
    length (cmd_contents (ws_ring s)) = length sent"
  unfolding wait_inv_def by (elim conjE) (rule dev_inv_accounts)

lemma wait_inv_not_stalled:
  assumes "wait_inv env sent s polled"
  shows "\<not> stalled s"
proof
  assume "stalled s"
  then have "0 < length (pending (ws_pc s))" "length (comp_contents (ws_comp s)) = 4096"
    unfolding stalled_def length_greater_0_conv by blast+
  then show False using wait_inv_accounts[OF assms] assms unfolding wait_inv_def by linarith
qed

lemma wait_inv_ticks:
  assumes "env_ok env" "wait_inv env sent s polled"
  shows "wait_inv env sent ((decode_worker_tick env ^^ k) s) polled \<and>
    wait_measure ((decode_worker_tick env ^^ k) s) \<le> wait_measure s \<and>
    (0 < k \<longrightarrow> wait_measure ((decode_worker_tick env ^^ k) s) = wait_measure s \<longrightarrow> idle ((decode_worker_tick env ^^ k) s))"
proof -
  have "dev_inv env sent s polled" "length sent \<le> 4096" using assms(2) by (simp_all add: wait_inv_def)
  then show ?thesis
    using dev_inv_ticks[OF assms(1), of sent s polled k] wait_inv_not_stalled[of env sent "(decode_worker_tick env ^^ k) s" polled]
    by (auto simp: wait_inv_def)
qed

lemma wait_inv_poll:
  assumes "wait_inv env sent s polled"
  shows "\<exists>cr k. runtime_poll (ws_comp s) 256 = (int k, cr) \<and> k = min 256 (length (comp_contents (ws_comp s))) \<and>
    wait_inv env sent (s\<lparr>ws_comp := cr\<rparr>) (polled @ take k (comp_contents (ws_comp s))) \<and>
    wait_measure (s\<lparr>ws_comp := cr\<rparr>) + k = wait_measure s"
proof -
  let ?c = "comp_contents (ws_comp s)"
  obtain handled where inv: "sys_inv env (s, sent, polled) handled" using assms by (auto simp: wait_inv_def dev_inv_def)
  then have "comp_inv (ws_comp s)" by (simp add: sys_inv_def)
  let ?k = "min 256 (length ?c)"
  have "\<exists>cr. poll_loop 256 0 (ws_comp s) = (0 + int ?k, cr) \<and> comp_inv cr \<and> comp_contents cr = drop ?k ?c \<and>
      cq_tail cr = cq_tail (ws_comp s)"
    by (rule poll_loop_outcome[OF \<open>comp_inv (ws_comp s)\<close>]) simp_all
  then obtain cr where loop: "poll_loop 256 0 (ws_comp s) = (0 + int ?k, cr)" and cr2: "comp_inv cr"
      and cr3: "comp_contents cr = drop ?k ?c" and cr4: "cq_tail cr = cq_tail (ws_comp s)"
    by (elim exE conjE)
  have cr1: "runtime_poll (ws_comp s) 256 = (int ?k, cr)"
    unfolding runtime_poll_def loop by (rule arg_cong[of _ _ "\<lambda>x. (x, cr)"]) (rule add_0)
  note cr = cr1 cr2 cr3 cr4
  have "sys_inv env (s\<lparr>ws_comp := cr\<rparr>, sent, polled @ take ?k ?c) handled"
    using cr(3) by (intro sys_inv_polled[OF inv cr(2)]) simp
  moreover have "comp_budget m cr = comp_budget m (ws_comp s)" for m using cr(4) by (simp add: rep_budget_def)
  ultimately have "wait_inv env sent (s\<lparr>ws_comp := cr\<rparr>) (polled @ take ?k ?c)"
    using assms by (auto simp: wait_inv_def dev_inv_def)
  moreover have "wait_measure (s\<lparr>ws_comp := cr\<rparr>) + ?k = wait_measure s"
    by (simp add: wait_measure_def cr(3))
  ultimately show ?thesis using cr(1) by blast
qed

lemma wait_loop_returns:
  assumes "env_ok env" "\<And>k. 0 < gpu k" and "wait_inv env sent s polled" "wait_measure s \<le> fuel"
  shows "\<exists>s' polled'. wait_loop fuel env gpu (int (length sent)) (int (length polled)) s = Some (int (length sent), s') \<and>
    wait_inv env sent s' polled' \<and> length polled' = length sent"
  using assms(3,4)
proof (induction fuel arbitrary: s polled)
  case 0
  then have "length polled = length sent"
    using wait_inv_accounts[OF 0(1)] by (cases "ws_pc s") (simp_all add: wait_measure_def)
  then show ?case using 0 by (subst wait_loop.simps) auto
next
  case (Suc k)
  show ?case
  proof (cases "length polled < length sent")
    case False
    then have "length polled = length sent" using wait_inv_accounts[OF Suc.prems(1)] by simp
    then show ?thesis using Suc.prems by (subst wait_loop.simps) auto
  next
    case True
    let ?s = "(decode_worker_tick env ^^ gpu k) s"
    have t: "wait_inv env sent ?s polled" "wait_measure ?s \<le> wait_measure s"
      "wait_measure ?s = wait_measure s \<longrightarrow> idle ?s"
      using wait_inv_ticks[OF assms(1) Suc.prems(1), of "gpu k"] assms(2) by auto
    obtain cr m where p: "runtime_poll (ws_comp ?s) 256 = (int m, cr)"
      "m = min 256 (length (comp_contents (ws_comp ?s)))"
      "wait_inv env sent (?s\<lparr>ws_comp := cr\<rparr>) (polled @ take m (comp_contents (ws_comp ?s)))"
      "wait_measure (?s\<lparr>ws_comp := cr\<rparr>) + m = wait_measure ?s"
      using wait_inv_poll[OF t(1)] by blast
    have "0 < m" if "idle ?s"
      using wait_inv_accounts[OF t(1)] that True p(2) by (auto simp: idle_def)
    then have "wait_measure (?s\<lparr>ws_comp := cr\<rparr>) \<le> k" using t(2,3) p(4) Suc.prems(2) by fastforce
    from Suc.IH[OF p(3) this] show ?thesis
      using True p(1,2) by (subst wait_loop.simps) simp
  qed
qed

section \<open>Properties\<close>

definition worker_start :: "CommandRing \<Rightarrow> u8 list \<Rightarrow> 'f list list option \<Rightarrow> 'f worker_state" where
  "worker_start ring smem o_buffer =
     \<lparr>ws_ring = ring, ws_comp = CompletionRing_zero, ws_smem = smem, ws_o_buffer = o_buffer,
      ws_step_count = 0, ws_pc = WPoll\<rparr>"

lemma worker_start_inv:
  "cmd_inv ring \<Longrightarrow> length smem = 3 * 16384 \<Longrightarrow> sys_inv env (worker_start ring smem ob, cmd_contents ring, []) []"
  by (simp add: sys_inv_def worker_start_def smem_ok_def) (simp add: CompletionRing_zero_def)

text \<open>
  C3. A single worker handles every descriptor exactly once and in order, under every interleaving
  of its steps with sends and polls of the host (fewer than \<open>2 ^ 32\<close> actions). The accepted
  descriptors are those it has handled, the sentinel it stopped at, and those still in the ring;
  what the host has polled, what is in the completion ring and what the worker is about to push are
  together the completions of the handled descriptors, in that order; the step counter is the
  number of handled descriptors, less the one that is not counted yet.
\<close>

theorem decode_worker_exactly_once:
  assumes "env_ok env" and "length smem = 3 * 16384" and "length acts < 2 ^ 32"
    and "sys_run env acts (worker_start CommandRing_zero smem ob, [], []) = (s, sent, polled)"
  shows "\<exists>handled. (\<forall>d. d \<in> set handled \<longrightarrow> ds_seq_id d \<noteq> UINT64_MAX) \<and>
    (if ws_pc s = WStopped
     then \<exists>d. ds_seq_id d = UINT64_MAX \<and> sent = handled @ d # cmd_contents (ws_ring s)
     else sent = handled @ cmd_contents (ws_ring s)) \<and>
    polled @ comp_contents (ws_comp s) @ pending (ws_pc s) = map (completion_of env) handled \<and>
    (we_counts env \<longrightarrow> ws_step_count s + of_nat (uncounted (ws_pc s)) = of_nat (length handled))"
proof -
  have "sys_inv env (worker_start CommandRing_zero smem ob, [], []) []"
    using worker_start_inv[OF CommandRing_zero_inv assms(2)] by simp
  from sys_inv_run[OF assms(1) this _ _ assms(4)] assms(3) show ?thesis
    by (auto simp: worker_start_def sys_inv_def)
qed

definition idle_env :: "xreal worker_env" where
  "idle_env = \<lparr>we_ops = exact_ops, we_half = (\<lambda>w. Fin (real (unat w))), we_cp_async = True, we_order = (\<lambda>xs. xs),
     we_arena = \<lparr>ka_base = 4096, ka_capacity = 32768, ka_block_size = 16384, ka_bitmap = []\<rparr>,
     we_hbm = (\<lambda>_. 0), we_sample = None, we_q_buffer = None, we_io_slots = 4096, we_counts = True\<rparr>"

lemma idle_env_ok [simp]: "env_ok idle_env"
  by (simp add: env_ok_def idle_env_def)

lemma idle_env_counts [simp]: "we_counts idle_env"
  by (simp add: idle_env_def)

theorem decode_worker_exactly_once_witness:
  "let (s, sent, polled) = sys_run idle_env [HostSend sentinel, WorkerTick]
     (worker_start CommandRing_zero (replicate 49152 0) None, [], []) in
   ws_step_count s + of_nat (uncounted (ws_pc s)) = of_nat (length (polled @ comp_contents (ws_comp s) @ pending (ws_pc s)))"
proof -
  obtain s sent polled where run: "sys_run idle_env [HostSend sentinel, WorkerTick]
     (worker_start CommandRing_zero (replicate 49152 0) None, [], []) = (s, sent, polled)"
    by (cases "sys_run idle_env [HostSend sentinel, WorkerTick]
     (worker_start CommandRing_zero (replicate 49152 0) None, [], [])")
  from decode_worker_exactly_once[OF idle_env_ok _ _ run] obtain handled where
    "polled @ comp_contents (ws_comp s) @ pending (ws_pc s) = map (completion_of idle_env) handled"
    "ws_step_count s + of_nat (uncounted (ws_pc s)) = of_nat (length handled)"
    by (auto simp: idle_env_def)
  then show ?thesis unfolding run by (metis (mono_tags, lifting) case_prod_conv length_map)
qed

text \<open>A dispatched step is never the sentinel, unless the trajectory is numbered \<open>UINT64_MAX\<close>.\<close>

lemma dispatched_seq_id [simp]: "ds_seq_id (dispatched seq kv n i) = seq"
  by (simp add: dispatched_def dispatch_desc_def)

text \<open>With fewer descriptors in flight than the loop waits for, it never ends.\<close>

lemma wait_loop_hangs:
  assumes "env_ok env" and "wait_inv env sent s polled" "length sent < n"
  shows "wait_loop fuel env gpu (int n) (int (length polled)) s = None"
  using assms(2)
proof (induction fuel arbitrary: s polled)
  case 0
  then show ?case using wait_inv_accounts[OF 0] assms(3) by (subst wait_loop.simps) simp
next
  case (Suc k)
  let ?s = "(decode_worker_tick env ^^ gpu k) s"
  have t: "wait_inv env sent ?s polled" using wait_inv_ticks[OF assms(1) Suc.prems, of "gpu k"] by simp
  obtain cr m where p: "runtime_poll (ws_comp ?s) 256 = (int m, cr)" "m = min 256 (length (comp_contents (ws_comp ?s)))"
    "wait_inv env sent (?s\<lparr>ws_comp := cr\<rparr>) (polled @ take m (comp_contents (ws_comp ?s)))"
    using wait_inv_poll[OF t] by blast
  have "int (length polled) < int n" using wait_inv_accounts[OF Suc.prems] assms(3) by simp
  then show ?case using Suc.IH[OF p(3)] p(1,2) by (subst wait_loop.simps) simp
qed

lemma tick_keeps_tail: "cr_tail (ws_ring (decode_worker_tick env s)) = cr_tail (ws_ring s)"
  by (auto simp: decode_worker_tick_def ring_consume_def process_descriptor_def Let_def case_prod_beta
      split: worker_pc.split option.split)

lemma wait_loop_keeps_tail:
  "wait_loop fuel env gpu n t s = Some (t', s') \<Longrightarrow> cr_tail (ws_ring s') = cr_tail (ws_ring s)"
proof (induction fuel arbitrary: t s)
  case 0
  then show ?case by (subst (asm) wait_loop.simps) (simp split: if_splits)
next
  case (Suc k)
  have "cr_tail (ws_ring ((decode_worker_tick env ^^ m) s)) = cr_tail (ws_ring s)" for m
    by (induction m) (simp_all add: tick_keeps_tail)
  then show ?case
    using Suc by (subst (asm) wait_loop.simps) (auto simp: Let_def split: if_splits prod.splits)
qed

text \<open>The worker on a ring that \<open>runtime_dispatch\<close> has filled.\<close>

lemma dispatched_wait_inv:
  assumes "cmd_inv ring" "cmd_contents ring = map (dispatched seq kv n) [0..<k]" "k \<le> 4096" "seq \<noteq> UINT64_MAX"
    and "length smem = 3 * 16384"
  shows "wait_inv env (cmd_contents ring) (worker_start ring smem ob) []"
proof -
  have "\<forall>d\<in>set (cmd_contents ring). ds_seq_id d \<noteq> UINT64_MAX" unfolding assms(2) using assms(4) by auto
  moreover have "comp_budget k CompletionRing_zero" using assms(3) by simp
  moreover have "length (cmd_contents ring) = k" unfolding assms(2) by simp
  ultimately show ?thesis
    using worker_start_inv[OF assms(1,5)] assms(3)
    unfolding wait_inv_def dev_inv_def by (auto simp: worker_start_def)
qed

lemma decode_path_returns:
  assumes "\<And>s t u. ms s t u = 0" and "\<And>u. qp u = 0" and "kv \<noteq> 0"
    and "\<And>i. length (db_descs (junk i)) = 32" and "n \<le> 4096" and "seq \<noteq> UINT64_MAX"
    and "env_ok env" and "we_counts env" and "length smem = 3 * 16384" and "\<And>k. 0 < gpu k"
    and "cmd_budget (n + x) CommandRing_zero"
  shows "\<exists>ring s. runtime_dispatch ms qp junk io CommandRing_zero seq (int n) kv = Some (0, ring) \<and>
    wait_loop (4 * n) env gpu (int n) 0 (worker_start ring smem ob) = Some (int n, s) \<and>
    cmd_contents (ws_ring s) = [] \<and> comp_contents (ws_comp s) = [] \<and>
    ws_step_count s + of_nat (uncounted (ws_pc s)) = of_nat n \<and>
    ws_pc s \<noteq> WStopped \<and> cmd_inv (ws_ring s) \<and> cmd_budget x (ws_ring s)"
proof -
  have fresh: "length (cmd_contents CommandRing_zero) = 0" unfolding CommandRing_zero_contents by simp
  from runtime_dispatch_outcome[where ms = ms and qp = qp and junk = junk and io = io and seq = seq,
      OF assms(1-4) CommandRing_zero_inv assms(11) refl] fresh assms(5)
  obtain ring where ring: "runtime_dispatch ms qp junk io CommandRing_zero seq (int n) kv = Some (0, ring)"
    "cmd_inv ring" "cmd_budget x ring" "cmd_contents ring = map (dispatched seq kv n) [0..<n]"
    unfolding CommandRing_zero_contents by auto
  let ?s = "worker_start ring smem ob" and ?sent = "cmd_contents ring"
  have len: "length ?sent = n" unfolding ring(4) by simp
  have inv: "wait_inv env ?sent ?s []" by (rule dispatched_wait_inv[OF ring(2,4) assms(5,6,9)])
  have "wait_measure ?s \<le> 4 * n"
    using len by (simp add: wait_measure_def worker_start_def)
  from wait_loop_returns[where gpu = gpu, OF assms(7,10) inv this] obtain s polled where
    s: "wait_loop (4 * n) env gpu (int n) 0 ?s = Some (int n, s)" "wait_inv env ?sent s polled" "length polled = n"
    unfolding len by auto
  have empty: "cmd_contents (ws_ring s) = []" "comp_contents (ws_comp s) = []"
    using wait_inv_accounts[OF s(2)] s(3) len by (simp_all flip: length_0_conv)
  obtain handled where h: "sys_inv env (s, ?sent, polled) handled" using s(2) by (auto simp: wait_inv_def dev_inv_def)
  then have "ws_step_count s + of_nat (uncounted (ws_pc s)) = of_nat n"
    using assms(8) empty(1) len wait_inv_running[OF s(2)] by (auto simp: sys_inv_def)
  moreover have "cr_tail (ws_ring s) = cr_tail ring" using wait_loop_keeps_tail[OF s(1)] by (simp add: worker_start_def)
  then have "cmd_budget x (ws_ring s)" using ring(3) by (simp add: rep_budget_def)
  moreover have "cmd_inv (ws_ring s)" using h by (simp add: sys_inv_def)
  ultimately show ?thesis using ring(1) s(1) empty wait_inv_running[OF s(2)] by blast
qed

text \<open>
  The decode path returns end to end. After \<open>runtime_dispatch\<close> has queued \<open>n\<close> steps (at most 4096) on
  a fresh ring, the wait loop of \<open>main\<close> ends, whatever the number of steps the worker makes between
  two polls as long as it makes one: within \<open>4 n\<close> rounds it has counted exactly \<open>n\<close> completions, no
  descriptor and no completion is left, and the worker's step counter is \<open>n\<close> or, because the worker
  counts a step after it has published the completion, one less.
\<close>

theorem decode_path_completes:
  assumes "\<And>s t u. ms s t u = 0" and "\<And>u. qp u = 0" and "kv \<noteq> 0"
    and "\<And>i. length (db_descs (junk i)) = 32" and "n \<le> 4096" and "seq \<noteq> UINT64_MAX"
    and "env_ok env" and "we_counts env" and "length smem = 3 * 16384" and "\<And>k. 0 < gpu k"
  shows "\<exists>ring s. runtime_dispatch ms qp junk io CommandRing_zero seq (int n) kv = Some (0, ring) \<and>
    wait_loop (4 * n) env gpu (int n) 0 (worker_start ring smem ob) = Some (int n, s) \<and>
    cmd_contents (ws_ring s) = [] \<and> comp_contents (ws_comp s) = [] \<and>
    ws_step_count s + of_nat (uncounted (ws_pc s)) = of_nat n"
proof -
  have "cmd_budget (n + 0) CommandRing_zero" using assms(5) by simp
  from decode_path_returns[where ms = ms and qp = qp and junk = junk and gpu = gpu and io = io and ob = ob, OF assms this]
  show ?thesis by (elim exE conjE) (intro exI conjI)
qed

theorem decode_path_completes_witness:
  "\<exists>ring s. runtime_dispatch (\<lambda>_ _ _. 0) (\<lambda>_. 0) (\<lambda>_. zero_batch) 4096 CommandRing_zero 1 (int 40) 128 = Some (0, ring) \<and>
     wait_loop (4 * 40) idle_env (\<lambda>_. 1) (int 40) 0 (worker_start ring (replicate 49152 0) None) = Some (int 40, s) \<and>
     ws_step_count s + of_nat (uncounted (ws_pc s)) = of_nat 40"
  using decode_path_completes[of "\<lambda>_ _ _. 0" "\<lambda>_. 0" 128 "\<lambda>_. zero_batch" 40 1 idle_env
      "replicate 49152 0" "\<lambda>_. 1" 4096 None]
  by (auto simp: zero_batch_def)

section \<open>Several workers on one ring\<close>

text \<open>
  \<open>main\<close> launches one worker per SM on the same command ring. The accesses of \<open>ring_consume\<close>, one
  step each: the loads of the counters, the copy of the slot, the store of the head.
\<close>

datatype consume_pc = CLoad | CCopy u32 | CStore u32 Descriptor | CDone "Descriptor option"

definition consume_step :: "CommandRing \<Rightarrow> consume_pc \<Rightarrow> CommandRing \<times> consume_pc" where
  "consume_step ring pc =
     (case pc of
        CLoad \<Rightarrow> (ring, if cr_head ring \<ge> cr_tail ring then CDone None else CCopy (cr_head ring))
      | CCopy head \<Rightarrow> (ring, CStore head (cr_slots ring ! unat (head AND (RING_SIZE - 1))))
      | CStore head d \<Rightarrow> (ring\<lparr>cr_head := head + 1\<rparr>, CDone (Some d))
      | CDone d \<Rightarrow> (ring, pc))"

text \<open>The schedule says which of the two workers makes the next step.\<close>

fun two_consumers :: "bool list \<Rightarrow> CommandRing \<Rightarrow> consume_pc \<Rightarrow> consume_pc \<Rightarrow> CommandRing \<times> consume_pc \<times> consume_pc" where
  "two_consumers [] ring p q = (ring, p, q)"
| "two_consumers (first # sched) ring p q =
     (if first then case consume_step ring p of (ring1, p1) \<Rightarrow> two_consumers sched ring1 p1 q
      else case consume_step ring q of (ring1, q1) \<Rightarrow> two_consumers sched ring1 p q1)"

text \<open>Undisturbed, the three steps are \<open>ring_consume\<close>.\<close>

lemma consume_steps_alone:
  "two_consumers [True, True, True] ring CLoad q =
     (case ring_consume ring of (got, d, ring1) \<Rightarrow> (ring1, CDone d, q))"
  by (simp add: consume_step_def ring_consume_def)

text \<open>
  The command ring does not support the several workers it is launched with: whenever a
  descriptor is queued, two workers can both consume it. With the steps of their \<open>ring_consume\<close>
  interleaved, both return the oldest descriptor while the head advances by one, so one dispatched
  step is processed twice and gives two completions.
\<close>

theorem two_workers_consume_twice:
  assumes "cmd_inv ring" and "cmd_contents ring = d # ds"
  shows "\<exists>sched ring'. two_consumers sched ring CLoad CLoad = (ring', CDone (Some d), CDone (Some d)) \<and>
    cmd_contents ring' = ds"
proof -
  obtain y r where pop: "ring_consume_obs ring = (y, r)" by fastforce
  have r: "y = Some d" "cmd_contents r = ds" using cmdq.linear_pop_first[OF assms pop] by simp_all
  then have less: "cr_head ring < cr_tail ring" and
    d: "cr_slots ring ! unat (cr_head ring AND (RING_SIZE - 1)) = d" and ring1: "r = ring\<lparr>cr_head := cr_head ring + 1\<rparr>"
    using pop by (auto simp: ring_consume_obs_def ring_consume_def split: if_splits)
  have "two_consumers [True, False, True, False, True, False] ring CLoad CLoad = (r, CDone (Some d), CDone (Some d))"
    using less d by (simp add: consume_step_def ring1)
  then show ?thesis using r(2) by blast
qed

theorem two_workers_consume_twice_witness:
  "\<exists>sched ring'. two_consumers sched (snd (ring_send CommandRing_zero Descriptor_zero)) CLoad CLoad =
     (ring', CDone (Some Descriptor_zero), CDone (Some Descriptor_zero))"
proof -
  obtain b r where send: "ring_send CommandRing_zero Descriptor_zero = (b, r)" by fastforce
  have room: "length (cmd_contents CommandRing_zero) < 4096" unfolding CommandRing_zero_contents by simp
  have "cmd_budget (Suc 0) CommandRing_zero" by simp
  from cmdq.push_room[OF CommandRing_zero_inv this room send]
  have "cmd_inv r" "cmd_contents r = [Descriptor_zero]" unfolding CommandRing_zero_contents by simp_all
  from two_workers_consume_twice[OF this] show ?thesis using send by auto
qed

end
