(* ===== verification/Gpu_Scheduler.thy ===== *)
theory Gpu_Scheduler
  imports Request_Ring Bitmap "HOL-Library.Multiset"
begin

text \<open>
  The autonomous device loop, \<^verbatim>\<open>cu/gpu_scheduler.cu\<close>: thread 0 polls the request ring, gives a request
  one of 256 slots, advances every active rollout by one token a sweep and pushes a done
  notification when a rollout has its tokens. The loop is a machine with one step per poll, slot,
  push attempt, release of a slot and increment of the step counter, so that it can be interleaved with the host.
\<close>

section \<open>Slots\<close>

definition find_free_slot :: "GpuRolloutState \<Rightarrow> int \<times> GpuRolloutState" where
  "find_free_slot st =
     (case bitmap_scan 0 (map (\<lambda>x. NOT x) (gr_bitmap st)) of
        Some (w, b) \<Rightarrow>
          (int (w * 64 + b), st\<lparr>gr_bitmap := (gr_bitmap st)[w := gr_bitmap st ! w OR push_bit b 1]\<rparr>)
      | None \<Rightarrow> (-1, st))"

definition release_slot :: "GpuRolloutState \<Rightarrow> nat \<Rightarrow> GpuRolloutState" where
  "release_slot st idx =
     (let w = idx div 64; b = idx mod 64
      in st\<lparr>gr_bitmap := (gr_bitmap st)[w := gr_bitmap st ! w AND NOT (push_bit b 1)]\<rparr>)"

text \<open>The fields a new rollout's slot is given.\<close>

definition slot_of_request :: "RolloutRequest \<Rightarrow> GpuRolloutSlot" where
  "slot_of_request req =
     (let seed = rq_rng_seed req in
      \<lparr>gs_active = 1, gs_request_id = ucast (rq_request_id req AND 0xFFFFFFFF), gs_tokens_generated = 0,
       gs_max_tokens = rq_max_tokens req, gs_kv_blocks = rq_kv_blocks req,
       gs_rng_state = [seed, seed XOR 0x9e3779b97f4a7c15, push_bit 17 seed XOR 0x3c6ef372fe94f82a, NOT seed],
       gs_temperature = rq_temperature req, gs_top_k = rq_top_k req, gs_top_p = rq_top_p req\<rparr>)"

definition admit :: "GpuRolloutState \<Rightarrow> RolloutRequest \<Rightarrow> GpuRolloutState" where
  "admit st req =
     (case find_free_slot st of (slot, st1) \<Rightarrow>
        if slot \<ge> 0 then st1\<lparr>gr_slots := (gr_slots st1)[nat slot := slot_of_request req]\<rparr> else st1)"

text \<open>\<open>reward\<close> is the float \<open>(tokens & 0xFF) / 255.0f\<close>.\<close>

definition done_of_slot :: "(u32 \<Rightarrow> f32_bits) \<Rightarrow> nat \<Rightarrow> GpuRolloutSlot \<Rightarrow> RolloutDone" where
  "done_of_slot reward s rs =
     \<lparr>dn_request_id = ucast (gs_request_id rs), dn_rollout_id = of_nat s,
      dn_tokens_generated = gs_tokens_generated rs,
      dn_reward = reward (gs_tokens_generated rs AND 0xFF), dn_status = 0\<rparr>"

section \<open>The loop\<close>

text \<open>
  Where the loop is: at its head, before slot \<open>s\<close>, in the push loop of slot \<open>s\<close>, after it, before the step counter, or returned.
  The step counter is \<open>None\<close> when its pointer is NULL.
\<close>

datatype sched_pc = GPoll | GSlot nat | GPush nat RolloutDone | GRelease nat | GCount nat | GReturned

record sched_state =
  sd_req :: RequestRing
  sd_done :: DoneRing
  sd_state :: GpuRolloutState
  sd_step_count :: "u64 option"
  sd_pc :: sched_pc

definition slot_visit :: "(u32 \<Rightarrow> f32_bits) \<Rightarrow> nat \<Rightarrow> sched_state \<Rightarrow> sched_state" where
  "slot_visit reward s g =
     (let st = sd_state g; rs = gr_slots st ! s in
      if gs_active rs = 0 then g\<lparr>sd_pc := GSlot (Suc s)\<rparr>
      else if gs_tokens_generated rs \<ge> gs_max_tokens rs
      then g\<lparr>sd_state := st\<lparr>gr_slots := (gr_slots st)[s := rs\<lparr>gs_active := 0\<rparr>]\<rparr>,
             sd_pc := GPush s (done_of_slot reward s rs)\<rparr>
      else g\<lparr>sd_state := st\<lparr>gr_slots := (gr_slots st)[s := rs\<lparr>gs_tokens_generated := gs_tokens_generated rs + 1\<rparr>]\<rparr>,
             sd_pc := GSlot (Suc s)\<rparr>)"

definition rollout_worker_tick :: "(u32 \<Rightarrow> f32_bits) \<Rightarrow> sched_state \<Rightarrow> sched_state" where
  "rollout_worker_tick reward g =
     (case sd_pc g of
        GPoll \<Rightarrow>
          (case req_ring_consume (sd_req g) of (got, req, ring) \<Rightarrow>
             (case req of
                None \<Rightarrow> g\<lparr>sd_req := ring, sd_pc := GSlot 0\<rparr>
              | Some q \<Rightarrow>
                  if rq_request_id q = UINT64_MAX then g\<lparr>sd_req := ring, sd_pc := GReturned\<rparr>
                  else g\<lparr>sd_req := ring, sd_state := admit (sd_state g) q, sd_pc := GSlot 0\<rparr>))
      | GSlot s \<Rightarrow> if s < 256 then slot_visit reward s g else g\<lparr>sd_pc := GPoll\<rparr>
      | GPush s d \<Rightarrow>
          (case done_ring_push (sd_done g) d of (rc, ring) \<Rightarrow>
             if rc \<noteq> 0 then g\<lparr>sd_done := ring\<rparr> else g\<lparr>sd_done := ring, sd_pc := GRelease s\<rparr>)
      | GRelease s \<Rightarrow> g\<lparr>sd_state := release_slot (sd_state g) s, sd_pc := GCount s\<rparr>
      | GCount s \<Rightarrow> g\<lparr>sd_step_count := map_option (\<lambda>n. n + 1) (sd_step_count g), sd_pc := GSlot (Suc s)\<rparr>
      | GReturned \<Rightarrow> g)"

text \<open>
  The loop beside the host. The log records the accepted requests, the requests the loop has
  taken with a flag that says whether they were given a slot, and the notifications the host took.
\<close>

datatype sched_action = SchedTick | HostSubmit RolloutRequest | HostTakeDone

record sched_log =
  sl_submitted :: "RolloutRequest list"
  sl_taken :: "(RolloutRequest \<times> bool) list"
  sl_popped :: "RolloutDone list"

definition log_tick :: "sched_state \<Rightarrow> sched_log \<Rightarrow> sched_log" where
  "log_tick g l =
     (case (sd_pc g, req_consume_obs (sd_req g)) of
        (GPoll, Some q, _) \<Rightarrow>
          if rq_request_id q = UINT64_MAX then l
          else l\<lparr>sl_taken := sl_taken l @ [(q, 0 \<le> fst (find_free_slot (sd_state g)))]\<rparr>
      | _ \<Rightarrow> l)"

fun sched_step :: "(u32 \<Rightarrow> f32_bits) \<Rightarrow> sched_action \<Rightarrow> sched_state \<times> sched_log \<Rightarrow> sched_state \<times> sched_log" where
  "sched_step reward SchedTick (g, l) = (rollout_worker_tick reward g, log_tick g l)"
| "sched_step reward (HostSubmit q) (g, l) =
     (case req_submit (sd_req g) q of (ok, ring) \<Rightarrow>
        (g\<lparr>sd_req := ring\<rparr>, if ok then l\<lparr>sl_submitted := sl_submitted l @ [q]\<rparr> else l))"
| "sched_step reward HostTakeDone (g, l) =
     (case done_pop_obs (sd_done g) of (d, ring) \<Rightarrow>
        (g\<lparr>sd_done := ring\<rparr>, l\<lparr>sl_popped := sl_popped l @ (case d of None \<Rightarrow> [] | Some d \<Rightarrow> [d])\<rparr>))"

fun sched_run :: "(u32 \<Rightarrow> f32_bits) \<Rightarrow> sched_action list \<Rightarrow> sched_state \<times> sched_log \<Rightarrow> sched_state \<times> sched_log" where
  "sched_run reward [] st = st"
| "sched_run reward (a # as) st = sched_run reward as (sched_step reward a st)"

section \<open>The slot bitmap\<close>

definition slots_wf :: "GpuRolloutState \<Rightarrow> bool" where
  "slots_wf st \<longleftrightarrow> length (gr_slots st) = 256 \<and> length (gr_bitmap st) = 4"

lemma find_free_slot_cases:
  assumes "slots_wf st"
  obtains (full) "find_free_slot st = (-1, st)" "bits_of (gr_bitmap st) = {..<256}"
  | (found) i st' where "find_free_slot st = (int i, st')" "i < 256" "i \<notin> bits_of (gr_bitmap st)"
      "slots_wf st'" "gr_slots st' = gr_slots st" "bits_of (gr_bitmap st') = insert i (bits_of (gr_bitmap st))"
proof (cases "bitmap_scan 0 (map (\<lambda>x. NOT x) (gr_bitmap st))")
  case None
  then have "{..<256} - bits_of (gr_bitmap st) = {}"
    using assms by (simp add: bitmap_scan_empty bits_of_not slots_wf_def)
  moreover have "bits_of (gr_bitmap st) \<subseteq> {..<256}"
    using assms bits_of_bound[of _ "gr_bitmap st"] by (auto simp: slots_wf_def)
  ultimately show ?thesis using full None by (auto simp: find_free_slot_def)
next
  case (Some wb)
  obtain w b where wb: "wb = (w, b)" by (cases wb)
  note least = bitmap_scan_least[OF Some[unfolded wb]]
  have "bits_of ((gr_bitmap st)[w := gr_bitmap st ! w OR push_bit b 1]) = insert (w * 64 + b) (bits_of (gr_bitmap st))"
    using least(1,2) by (intro bits_of_set) simp_all
  moreover have "w * 64 + b < 256" "w * 64 + b \<notin> bits_of (gr_bitmap st)"
    using least(3) assms by (auto simp: bits_of_not slots_wf_def)
  ultimately show ?thesis
    using found[of "w * 64 + b"] assms Some by (simp add: find_free_slot_def wb slots_wf_def)
qed

lemma release_slot_effect:
  assumes "slots_wf st" "i < 256"
  shows "slots_wf (release_slot st i)" "gr_slots (release_slot st i) = gr_slots st"
    "bits_of (gr_bitmap (release_slot st i)) = bits_of (gr_bitmap st) - {i}"
  using assms bits_of_clear[of "i div 64" "gr_bitmap st" "i mod 64"]
  by (auto simp: release_slot_def slots_wf_def)

section \<open>Conservation\<close>

text \<open>
  A request, a slot and a notification are matched by the 32-bit request id the slot keeps and by
  the number of tokens.
\<close>

definition req_key :: "RolloutRequest \<Rightarrow> u32 \<times> u32" where
  "req_key q = (ucast (rq_request_id q), rq_max_tokens q)"

definition slot_key :: "GpuRolloutSlot \<Rightarrow> u32 \<times> u32" where
  "slot_key rs = (gs_request_id rs, gs_max_tokens rs)"

definition done_key :: "RolloutDone \<Rightarrow> u32 \<times> u32" where
  "done_key d = (ucast (dn_request_id d), dn_tokens_generated d)"

definition admitted :: "sched_log \<Rightarrow> RolloutRequest list" where
  "admitted l = map fst (filter snd (sl_taken l))"

definition live :: "GpuRolloutState \<Rightarrow> (u32 \<times> u32) multiset" where
  "live st = mset (map slot_key (filter (\<lambda>rs. gs_active rs \<noteq> 0) (gr_slots st)))"

fun pushing :: "sched_pc \<Rightarrow> nat set" where
  "pushing (GPush s d) = {s}"
| "pushing (GRelease s) = {s}"
| "pushing _ = {}"

fun pushed_next :: "sched_pc \<Rightarrow> RolloutDone list" where
  "pushed_next (GPush s d) = [d]"
| "pushed_next _ = []"

text \<open>A notification that has been pushed but not counted.\<close>

fun uncounted :: "sched_pc \<Rightarrow> u64" where
  "uncounted (GRelease s) = 1"
| "uncounted (GCount s) = 1"
| "uncounted _ = 0"

text \<open>The well-formedness of the slots: the bitmap marks the active slots and the one being reported.\<close>

definition slots_inv :: "GpuRolloutState \<Rightarrow> sched_pc \<Rightarrow> bool" where
  "slots_inv st pc \<longleftrightarrow> slots_wf st \<and>
     bits_of (gr_bitmap st) = {i. i < 256 \<and> gs_active (gr_slots st ! i) \<noteq> 0} \<union> pushing pc \<and>
     (\<forall>i\<in>pushing pc. i < 256 \<and> gs_active (gr_slots st ! i) = 0) \<and>
     (\<forall>i<256. gs_active (gr_slots st ! i) \<noteq> 0 \<longrightarrow>
        gs_tokens_generated (gr_slots st ! i) \<le> gs_max_tokens (gr_slots st ! i))"

definition done_ok :: "(u32 \<Rightarrow> f32_bits) \<Rightarrow> RolloutDone \<Rightarrow> bool" where
  "done_ok reward d \<longleftrightarrow> dn_status d = 0 \<and> unat (dn_rollout_id d) < 256 \<and>
     dn_reward d = reward (dn_tokens_generated d AND 0xFF)"

text \<open>The notifications pushed so far: those the host has taken and those in the ring.\<close>

definition reported :: "sched_state \<Rightarrow> sched_log \<Rightarrow> RolloutDone list" where
  "reported g l = sl_popped l @ done_contents (sd_done g)"

definition sched_inv :: "(u32 \<Rightarrow> f32_bits) \<Rightarrow> sched_state \<times> sched_log \<Rightarrow> bool" where
  "sched_inv reward = (\<lambda>(g, l).
     req_inv (sd_req g) \<and> done_inv (sd_done g) \<and> slots_inv (sd_state g) (sd_pc g) \<and>
     mset (map req_key (admitted l)) = live (sd_state g) +
       mset (map done_key (reported g l @ pushed_next (sd_pc g))) \<and>
     (\<forall>d\<in>set (reported g l @ pushed_next (sd_pc g)). done_ok reward d) \<and>
     (\<exists>stop. sl_submitted l = map fst (sl_taken l) @ stop @ req_contents (sd_req g) \<and>
        (if sd_pc g = GReturned then \<exists>q. stop = [q] \<and> rq_request_id q = UINT64_MAX else stop = [])) \<and>
     (\<forall>q\<in>set (map fst (sl_taken l)). rq_request_id q \<noteq> UINT64_MAX) \<and>
     (\<forall>n. sd_step_count g = Some n \<longrightarrow> n + uncounted (sd_pc g) = of_nat (length (reported g l))) \<and>
     (uncounted (sd_pc g) \<noteq> 0 \<longrightarrow> reported g l \<noteq> []))"

lemma reported_cong:
  "sd_done g' = sd_done g \<Longrightarrow> sl_popped l' = sl_popped l \<Longrightarrow> reported g' l' = reported g l"
  by (simp add: reported_def)

lemma reported_simps [simp]:
  "reported (g\<lparr>sd_req := a\<rparr>) l = reported g l" "reported (g\<lparr>sd_state := b\<rparr>) l = reported g l"
  "reported (g\<lparr>sd_step_count := c\<rparr>) l = reported g l" "reported (g\<lparr>sd_pc := e\<rparr>) l = reported g l"
  "reported g (l\<lparr>sl_submitted := x\<rparr>) = reported g l" "reported g (l\<lparr>sl_taken := y\<rparr>) = reported g l"
  by (simp_all add: reported_def)

lemma mset_filter_update:
  assumes "i < length xs"
  shows "mset (filter P (xs[i := x])) + (if P (xs ! i) then {#xs ! i#} else {#}) =
    mset (filter P xs) + (if P x then {#x#} else {#})"
proof -
  obtain ys a zs where xs: "xs = ys @ a # zs" and i: "i = length ys"
    using id_take_nth_drop[OF assms] assms by (metis length_take min.absorb4)
  show ?thesis unfolding xs i by simp
qed

lemma live_update:
  assumes "i < length (gr_slots st)"
  shows "live (st\<lparr>gr_slots := (gr_slots st)[i := rs]\<rparr>) +
      (if gs_active (gr_slots st ! i) \<noteq> 0 then {#slot_key (gr_slots st ! i)#} else {#}) =
    live st + (if gs_active rs \<noteq> 0 then {#slot_key rs#} else {#})"
  using arg_cong[OF mset_filter_update[OF assms, of "\<lambda>rs. gs_active rs \<noteq> 0" rs], of "image_mset slot_key"]
  by (simp add: live_def split: if_splits)

lemma live_slots [simp]: "live (st\<lparr>gr_bitmap := bm\<rparr>) = live st"
  by (simp add: live_def)

lemma slot_key_of_request [simp]: "slot_key (slot_of_request q) = req_key q"
proof -
  have "(ucast (w AND 0xFFFFFFFF :: u64) :: u32) = ucast w" for w
  proof -
    have "w AND 0xFFFFFFFF = take_bit 32 w" by (simp add: take_bit_eq_mask mask_eq_exp_minus_1)
    then show ?thesis by (auto intro: bit_word_eqI simp: bit_simps)
  qed
  then show ?thesis by (simp add: slot_key_def slot_of_request_def req_key_def)
qed

lemma admit_effect:
  assumes inv: "slots_inv st pc" and pc: "pushing pc = {}" "pushing pc' = {}"
  shows "slots_inv (admit st q) pc' \<and>
    live (admit st q) = live st + (if 0 \<le> fst (find_free_slot st) then {#req_key q#} else {#})"
proof -
  have wf: "slots_wf st" using inv by (simp add: slots_inv_def)
  from wf show ?thesis
  proof (cases rule: find_free_slot_cases)
    case full
    then show ?thesis using inv pc by (simp add: admit_def slots_inv_def)
  next
    case (found i st')
    have idle: "gs_active (gr_slots st ! i) = 0" using inv found(2,3) by (auto simp: slots_inv_def)
    have len: "i < length (gr_slots st')" using found(2,4) by (simp add: slots_wf_def)
    have admit: "admit st q = st'\<lparr>gr_slots := (gr_slots st')[i := slot_of_request q]\<rparr>"
      using found(1) by (simp add: admit_def)
    have act: "gs_active (slot_of_request q) \<noteq> 0" "gs_tokens_generated (slot_of_request q) = 0"
      by (simp_all add: slot_of_request_def)
    have "live (admit st q) = live st' + {#req_key q#}"
      using live_update[OF len, of "slot_of_request q"] idle found(5) act(1) by (simp add: admit)
    moreover have "live st' = live st" using found(5) by (simp add: live_def)
    moreover have "slots_inv (admit st q) pc'"
      using inv found pc act len unfolding admit slots_inv_def
      by (auto simp: nth_list_update slots_wf_def)
    ultimately show ?thesis using found(1) by simp
  qed
qed

lemma slot_visit_effect:
  fixes reward :: "u32 \<Rightarrow> f32_bits"
  assumes inv: "slots_inv (sd_state g) (GSlot s)" and s: "s < 256"
  defines "g' \<equiv> slot_visit reward s g"
  shows "slots_inv (sd_state g') (sd_pc g') \<and>
    live (sd_state g') + mset (map done_key (pushed_next (sd_pc g'))) = live (sd_state g) \<and>
    (\<forall>d\<in>set (pushed_next (sd_pc g')). done_ok reward d) \<and> sd_pc g' \<noteq> GReturned \<and> uncounted (sd_pc g') = 0 \<and>
    sd_req g' = sd_req g \<and> sd_done g' = sd_done g \<and> sd_step_count g' = sd_step_count g"
proof -
  let ?st = "sd_state g" and ?rs = "gr_slots (sd_state g) ! s"
  have len: "s < length (gr_slots ?st)" and wf: "slots_wf ?st" using inv s by (simp_all add: slots_inv_def slots_wf_def)
  consider (idle) "gs_active ?rs = 0" | (fin) "gs_active ?rs \<noteq> 0" "gs_max_tokens ?rs \<le> gs_tokens_generated ?rs"
    | (run) "gs_active ?rs \<noteq> 0" "gs_tokens_generated ?rs < gs_max_tokens ?rs"
    by fastforce
  then show ?thesis
  proof cases
    case idle
    then show ?thesis using inv by (simp add: g'_def slot_visit_def slots_inv_def)
  next
    case fin
    then have eq: "gs_tokens_generated ?rs = gs_max_tokens ?rs"
      using inv s by (auto simp: slots_inv_def)
    have "done_key (done_of_slot reward s ?rs) = slot_key ?rs"
      using eq by (simp add: done_key_def done_of_slot_def slot_key_def)
    moreover have "live (?st\<lparr>gr_slots := (gr_slots ?st)[s := ?rs\<lparr>gs_active := 0\<rparr>]\<rparr>) + {#slot_key ?rs#} = live ?st"
      using live_update[OF len, of "?rs\<lparr>gs_active := 0\<rparr>"] fin by simp
    moreover have "done_ok reward (done_of_slot reward s ?rs)"
      using s by (simp add: done_ok_def done_of_slot_def unat_of_nat)
    ultimately show ?thesis
      using fin inv len s by (auto simp: g'_def slot_visit_def slots_inv_def slots_wf_def nth_list_update)
  next
    case run
    let ?new = "?rs\<lparr>gs_tokens_generated := gs_tokens_generated ?rs + 1\<rparr>"
    have "gs_tokens_generated ?rs + 1 \<le> gs_max_tokens ?rs" using run(2) by (simp add: inc_le)
    moreover have "live (?st\<lparr>gr_slots := (gr_slots ?st)[s := ?new]\<rparr>) = live ?st"
      using live_update[OF len, of ?new] run by (simp add: slot_key_def)
    ultimately show ?thesis
      using run inv len by (auto simp: g'_def slot_visit_def slots_inv_def slots_wf_def nth_list_update)
  qed
qed

abbreviation req_budget :: "nat \<Rightarrow> RequestRing \<Rightarrow> bool" where
  "req_budget \<equiv> rep_budget rr_tail"

abbreviation done_budget :: "nat \<Rightarrow> DoneRing \<Rightarrow> bool" where
  "done_budget \<equiv> rep_budget dr_tail"

lemma admitted_snoc [simp]:
  "admitted (l\<lparr>sl_taken := sl_taken l @ [(q, b)]\<rparr>) = admitted l @ (if b then [q] else [])"
  by (simp add: admitted_def)

lemma admitted_other [simp]:
  "admitted (l\<lparr>sl_submitted := x\<rparr>) = admitted l" "admitted (l\<lparr>sl_popped := y\<rparr>) = admitted l"
  by (simp_all add: admitted_def)

lemma sched_inv_poll:
  assumes inv: "sched_inv reward (g, l)" and pc: "sd_pc g = GPoll"
  shows "sched_inv reward (rollout_worker_tick reward g, log_tick g l) \<and>
    sd_done (rollout_worker_tick reward g) = sd_done g \<and>
    rr_tail (sd_req (rollout_worker_tick reward g)) = rr_tail (sd_req g)"
proof -
  have rinv: "req_inv (sd_req g)" and sinv: "slots_inv (sd_state g) GPoll"
    using inv pc by (auto simp: sched_inv_def)
  obtain y ring where pop: "req_consume_obs (sd_req g) = (y, ring)" by fastforce
  have tick: "rollout_worker_tick reward g = (case y of None \<Rightarrow> g\<lparr>sd_req := ring, sd_pc := GSlot 0\<rparr>
      | Some q \<Rightarrow> if rq_request_id q = UINT64_MAX then g\<lparr>sd_req := ring, sd_pc := GReturned\<rparr>
         else g\<lparr>sd_req := ring, sd_state := admit (sd_state g) q, sd_pc := GSlot 0\<rparr>)"
    using pop pc by (auto simp: rollout_worker_tick_def req_consume_obs_def split: prod.splits option.splits)
  show ?thesis
  proof (cases "req_contents (sd_req g)")
    case Nil
    then have "y = None" "ring = sd_req g" using reqq.pop_empty[OF rinv Nil] pop by auto
    then show ?thesis
      using inv pc pop by (simp add: tick log_tick_def sched_inv_def slots_inv_def)
  next
    case (Cons q qs)
    have r: "y = Some q" "req_inv ring" "req_contents ring = qs" "rr_tail ring = rr_tail (sd_req g)"
      using reqq.linear_pop_first[OF rinv Cons pop] by simp_all
    show ?thesis
    proof (cases "rq_request_id q = UINT64_MAX")
      case True
      then show ?thesis
        using inv pc pop r Cons by (simp add: tick log_tick_def sched_inv_def slots_inv_def)
    next
      case False
      have "slots_inv (admit (sd_state g) q) (GSlot 0)"
        "live (admit (sd_state g) q) = live (sd_state g) +
          (if 0 \<le> fst (find_free_slot (sd_state g)) then {#req_key q#} else {#})"
        using admit_effect[OF sinv, of "GSlot 0" q] by simp_all
      then show ?thesis
        using inv pc pop r Cons False by (auto simp: tick log_tick_def sched_inv_def)
    qed
  qed
qed

lemma log_tick_other: "sd_pc g \<noteq> GPoll \<Longrightarrow> log_tick g l = l"
  by (auto simp: log_tick_def split: sched_pc.splits option.splits prod.splits)

lemma sched_inv_push:
  assumes inv: "sched_inv reward (g, l)" and pc: "sd_pc g = GPush s d" and budget: "done_budget (Suc n) (sd_done g)"
  shows "sched_inv reward (rollout_worker_tick reward g, l) \<and>
    done_budget n (sd_done (rollout_worker_tick reward g)) \<and> sd_req (rollout_worker_tick reward g) = sd_req g"
proof -
  have dinv: "done_inv (sd_done g)" and sinv: "slots_inv (sd_state g) (GPush s d)"
    using inv pc by (auto simp: sched_inv_def)
  obtain rc ring where push: "done_ring_push (sd_done g) d = (rc, ring)" by fastforce
  then have obs: "done_push_obs (sd_done g) d = (rc = 0, ring)" by (simp add: done_push_obs_def)
  show ?thesis
  proof (cases "length (done_contents (sd_done g)) = 1024")
    case True
    then have "rc \<noteq> 0" "done_inv ring" "done_contents ring = done_contents (sd_done g)" "done_budget n ring"
      using doneq.push_full[OF dinv True obs] doneq.ok_less[OF budget] by simp_all
    moreover from this(3) have "reported (g\<lparr>sd_done := ring\<rparr>) l = reported g l" by (simp add: reported_def)
    ultimately show ?thesis using inv pc push by (simp add: rollout_worker_tick_def sched_inv_def)
  next
    case False
    then have "length (done_contents (sd_done g)) < 1024" using doneq.bounded[OF dinv] by simp
    from doneq.push_room[OF dinv budget this obs]
    have r: "rc = 0" "done_inv ring" "done_contents ring = done_contents (sd_done g) @ [d]" "done_budget n ring"
      by simp_all
    have "slots_inv (sd_state g) (GRelease s)" using sinv by (simp add: slots_inv_def)
    moreover from r(3) have "reported (g\<lparr>sd_done := ring\<rparr>) l = reported g l @ [d]" by (simp add: reported_def)
    ultimately show ?thesis
      using inv pc push r by (auto simp: rollout_worker_tick_def sched_inv_def)
  qed
qed

lemma sched_inv_release:
  assumes inv: "sched_inv reward (g, l)" and pc: "sd_pc g = GRelease s"
  shows "sched_inv reward (rollout_worker_tick reward g, l)"
proof -
  have sinv: "slots_inv (sd_state g) (GRelease s)" using inv pc by (auto simp: sched_inv_def)
  then have wf: "slots_wf (sd_state g)" "s < 256" by (simp_all add: slots_inv_def)
  note rel = release_slot_effect[OF wf]
  have "slots_inv (release_slot (sd_state g) s) (GCount s)" using sinv rel by (auto simp: slots_inv_def)
  moreover have "live (release_slot (sd_state g) s) = live (sd_state g)" using rel(2) by (simp add: live_def)
  ultimately show ?thesis using inv pc by (simp add: rollout_worker_tick_def sched_inv_def)
qed

lemma sched_inv_count:
  assumes inv: "sched_inv reward (g, l)" and pc: "sd_pc g = GCount s"
  shows "sched_inv reward (rollout_worker_tick reward g, l)"
proof -
  have "slots_inv (sd_state g) (GSlot (Suc s))" using inv pc by (simp add: sched_inv_def slots_inv_def)
  then show ?thesis using inv pc by (auto simp: rollout_worker_tick_def sched_inv_def)
qed

lemma sched_inv_tick:
  assumes inv: "sched_inv reward (g, l)" and budget: "done_budget (Suc n) (sd_done g)"
  shows "sched_inv reward (rollout_worker_tick reward g, log_tick g l) \<and>
    done_budget n (sd_done (rollout_worker_tick reward g)) \<and>
    rr_tail (sd_req (rollout_worker_tick reward g)) = rr_tail (sd_req g)"
proof (cases "sd_pc g")
  case GPoll
  then show ?thesis using sched_inv_poll[OF inv] doneq.ok_less[OF budget] by simp
next
  case (GPush s d)
  then show ?thesis using sched_inv_push[OF inv GPush budget] by (simp add: log_tick_other)
next
  case (GRelease s)
  then show ?thesis
    using sched_inv_release[OF inv GRelease] doneq.ok_less[OF budget] by (simp add: log_tick_other rollout_worker_tick_def)
next
  case (GCount s)
  then show ?thesis
    using sched_inv_count[OF inv GCount] doneq.ok_less[OF budget] by (simp add: log_tick_other rollout_worker_tick_def)
next
  case GReturned
  then show ?thesis
    using inv doneq.ok_less[OF budget] by (simp add: log_tick_other rollout_worker_tick_def)
next
  case (GSlot s)
  have log: "log_tick g l = l" using GSlot by (simp add: log_tick_other)
  show ?thesis
  proof (cases "s < 256")
    case False
    then show ?thesis
      using inv GSlot log doneq.ok_less[OF budget]
      by (simp add: rollout_worker_tick_def sched_inv_def slots_inv_def)
  next
    case True
    have "slots_inv (sd_state g) (GSlot s)" using inv GSlot by (simp add: sched_inv_def)
    note v = slot_visit_effect[OF this True, of reward]
    have rep: "reported (slot_visit reward s g) l = reported g l" using v by (intro reported_cong) simp_all
    have "sched_inv reward (slot_visit reward s g, l)"
      using inv GSlot v unfolding sched_inv_def prod.case rep by (auto simp: ac_simps)
    then show ?thesis
      using GSlot True log v doneq.ok_less[OF budget] by (simp add: rollout_worker_tick_def)
  qed
qed

lemma sched_inv_step:
  assumes inv: "sched_inv reward (g, l)" and budget: "done_budget (Suc n) (sd_done g)" "req_budget (Suc n) (sd_req g)"
    and step: "sched_step reward a (g, l) = (g', l')"
  shows "sched_inv reward (g', l') \<and> done_budget n (sd_done g') \<and> req_budget n (sd_req g')"
proof (cases a)
  case SchedTick
  then show ?thesis
    using sched_inv_tick[OF inv budget(1)] step reqq.ok_less[OF budget(2)] by (auto simp: rep_budget_def)
next
  case (HostSubmit q)
  obtain ok ring where sub: "req_submit (sd_req g) q = (ok, ring)" by fastforce
  have rinv: "req_inv (sd_req g)" using inv by (simp add: sched_inv_def)
  have "req_inv ring \<and> req_contents ring = req_contents (sd_req g) @ (if ok then [q] else []) \<and> req_budget n ring"
    using reqq.push_refines[OF rinv budget(2) sub]
    by (cases "length (req_contents (sd_req g)) < 1024") auto
  then show ?thesis
    using HostSubmit step sub inv doneq.ok_less[OF budget(1)]
    by (auto simp: sched_inv_def slots_inv_def split: if_splits)
next
  case HostTakeDone
  obtain y ring where pop: "done_pop_obs (sd_done g) = (y, ring)" by fastforce
  have dinv: "done_inv (sd_done g)" using inv by (simp add: sched_inv_def)
  have p: "spec_pop (done_contents (sd_done g)) = (y, done_contents ring)" "done_inv ring" "done_budget (Suc n) ring"
    using doneq.pop_refines[OF dinv pop, of "Suc n"] budget(1) by simp_all
  have "reported (g\<lparr>sd_done := ring\<rparr>) (l\<lparr>sl_popped := sl_popped l @ (case y of None \<Rightarrow> [] | Some d \<Rightarrow> [d])\<rparr>) = reported g l"
    using spec_pop_conserves[OF p(1)] by (simp add: reported_def)
  then show ?thesis
    using HostTakeDone step pop inv p(2) doneq.ok_less[OF p(3)] reqq.ok_less[OF budget(2)]
    by (auto simp: sched_inv_def)
qed

lemma sched_inv_run:
  assumes "sched_inv reward (g, l)" "done_budget (length acts) (sd_done g)" "req_budget (length acts) (sd_req g)"
    and "sched_run reward acts (g, l) = (g', l')"
  shows "sched_inv reward (g', l')"
  using assms
proof (induction acts arbitrary: g l)
  case (Cons a acts)
  obtain g1 l1 where step: "sched_step reward a (g, l) = (g1, l1)" by fastforce
  have "sched_inv reward (g1, l1) \<and> done_budget (length acts) (sd_done g1) \<and> req_budget (length acts) (sd_req g1)"
    using sched_inv_step[OF Cons.prems(1) _ _ step, of "length acts"] Cons.prems(2,3) by simp
  then show ?case using Cons.IH[of g1 l1] Cons.prems(4) step by simp
qed simp

section \<open>Properties\<close>

definition slot_empty :: GpuRolloutSlot where
  "slot_empty = \<lparr>gs_active = 0, gs_request_id = 0, gs_tokens_generated = 0, gs_max_tokens = 0, gs_kv_blocks = 0,
     gs_rng_state = [0, 0, 0, 0], gs_temperature = 0, gs_top_k = 0, gs_top_p = 0\<rparr>"

definition sched_start :: sched_state where
  "sched_start = \<lparr>sd_req = request_ring_empty, sd_done = done_ring_empty,
     sd_state = \<lparr>gr_slots = replicate 256 slot_empty, gr_bitmap = replicate 4 0\<rparr>, sd_step_count = Some 0, sd_pc = GPoll\<rparr>"

definition log_empty :: sched_log where
  "log_empty = \<lparr>sl_submitted = [], sl_taken = [], sl_popped = []\<rparr>"

lemma sched_start_with_inv:
  "c \<in> {None, Some 0} \<Longrightarrow> sched_inv reward (sched_start\<lparr>sd_step_count := c\<rparr>, log_empty)"
  by (auto simp: sched_inv_def sched_start_def log_empty_def slots_inv_def slots_wf_def reported_def admitted_def
        live_def slot_empty_def request_ring_empty_def done_ring_empty_def rep_linear_def rep_wf_def ring_wf_def
        rep_contents_def ring_contents_def)

lemma sched_start_inv: "sched_inv reward (sched_start, log_empty)"
proof -
  have "sched_start\<lparr>sd_step_count := Some 0\<rparr> = sched_start" by (simp add: sched_start_def)
  then show ?thesis using sched_start_with_inv[of "Some 0" reward] by simp
qed

text \<open>Whether there is a step counter never changes.\<close>

lemma tick_null_counter: "(sd_step_count (rollout_worker_tick reward g) = None) = (sd_step_count g = None)"
  by (simp add: rollout_worker_tick_def slot_visit_def Let_def split: sched_pc.split prod.split option.split)

lemma run_null_counter: "sched_run reward acts (g, l) = (g', l') \<Longrightarrow> (sd_step_count g' = None) = (sd_step_count g = None)"
proof (induction acts arbitrary: g l)
  case (Cons a acts)
  obtain g1 l1 where step: "sched_step reward a (g, l) = (g1, l1)" by fastforce
  then have "(sd_step_count g1 = None) = (sd_step_count g = None)"
    using tick_null_counter[of reward g] by (cases a) (auto split: prod.splits)
  then show ?case using Cons step by simp
qed simp

text \<open>
  C8. The device loop loses no admitted rollout and reports each one once, under every interleaving
  with the host (fewer than \<open>2 ^ 32\<close> actions). The accepted requests are, in order, those the loop has
  taken, the one that told it to return and those still queued; the ones it gave a slot are, by 32-bit request id and token
  budget, exactly the rollouts in the active slots, the notification being pushed and the
  notifications reported so far, so each reported rollout has generated exactly its token budget;
  every notification has status 0, a slot number below 256 and the reward of its token count;
  the occupancy bitmap marks the active slots and the one being reported. The step counter, if there is one, counts the
  notifications, with the last one outstanding between its push and the increment.
\<close>

theorem rollouts_conserved:
  assumes "length acts < 2 ^ 32" and "c \<in> {None, Some 0}"
    and "sched_run reward acts (sched_start\<lparr>sd_step_count := c\<rparr>, log_empty) = (g, l)"
  shows "mset (map req_key (admitted l)) = live (sd_state g) +
      mset (map done_key (reported g l @ pushed_next (sd_pc g))) \<and>
    (\<exists>stop. sl_submitted l = map fst (sl_taken l) @ stop @ req_contents (sd_req g) \<and>
       (if sd_pc g = GReturned then \<exists>q. stop = [q] \<and> rq_request_id q = UINT64_MAX else stop = [])) \<and>
    list_all (done_ok reward) (reported g l @ pushed_next (sd_pc g)) \<and>
    bits_of (gr_bitmap (sd_state g)) =
      {i. i < 256 \<and> gs_active (gr_slots (sd_state g) ! i) \<noteq> 0} \<union> pushing (sd_pc g) \<and>
    sd_step_count g = (if c = None then None else Some (of_nat (length (reported g l)) - uncounted (sd_pc g)))"
proof -
  let ?g = "sched_start\<lparr>sd_step_count := c\<rparr>"
  have "done_budget (length acts) (sd_done ?g)" "req_budget (length acts) (sd_req ?g)"
    using assms(1) by (simp_all add: sched_start_def rep_budget_def request_ring_empty_def done_ring_empty_def)
  from sched_inv_run[OF sched_start_with_inv[OF assms(2)] this assms(3)] have inv: "sched_inv reward (g, l)" .
  have null: "(sd_step_count g = None) = (c = None)" using run_null_counter[OF assms(3)] by simp
  have "sd_step_count g = (if c = None then None else Some (of_nat (length (reported g l)) - uncounted (sd_pc g)))"
  proof (cases "sd_step_count g")
    case (Some n)
    then have "n + uncounted (sd_pc g) = of_nat (length (reported g l))" using inv by (simp add: sched_inv_def)
    then have "n = of_nat (length (reported g l)) - uncounted (sd_pc g)" by (metis add_diff_cancel_right')
    then show ?thesis using Some null by auto
  qed (use null in simp)
  with inv show ?thesis unfolding sched_inv_def slots_inv_def list_all_iff prod.case by blast
qed

definition one_request :: RolloutRequest where
  "one_request = \<lparr>rq_request_id = 7, rq_max_tokens = 2, rq_kv_blocks = 1, rq_temperature = 0, rq_top_k = 0,
     rq_top_p = 0, rq_rng_seed = 5\<rparr>"

theorem rollouts_conserved_witness:
  "let (g, l) = sched_run (\<lambda>_. 0) (HostSubmit one_request # replicate 520 SchedTick) (sched_start\<lparr>sd_step_count := Some 0\<rparr>, log_empty) in
   mset (map req_key (admitted l)) = live (sd_state g) + mset (map done_key (reported g l @ pushed_next (sd_pc g))) \<and>
   sd_step_count g = Some (of_nat (length (reported g l)) - uncounted (sd_pc g))"
proof -
  obtain g l where run: "sched_run (\<lambda>_. 0) (HostSubmit one_request # replicate 520 SchedTick)
      (sched_start\<lparr>sd_step_count := Some 0\<rparr>, log_empty) = (g, l)"
    by fastforce
  show ?thesis unfolding run using rollouts_conserved[OF _ _ run] by simp
qed

section \<open>Sweeps\<close>

text \<open>What one sweep does to a slot and the notifications it sends, written over the slots alone.\<close>

definition sweep_slot :: "GpuRolloutSlot \<Rightarrow> GpuRolloutSlot" where
  "sweep_slot rs =
     (if gs_active rs = 0 then rs
      else if gs_max_tokens rs \<le> gs_tokens_generated rs then rs\<lparr>gs_active := 0\<rparr>
      else rs\<lparr>gs_tokens_generated := gs_tokens_generated rs + 1\<rparr>)"

definition finishes :: "GpuRolloutSlot \<Rightarrow> bool" where
  "finishes rs \<longleftrightarrow> gs_active rs \<noteq> 0 \<and> gs_max_tokens rs \<le> gs_tokens_generated rs"

definition sweep_dones :: "(u32 \<Rightarrow> f32_bits) \<Rightarrow> GpuRolloutSlot list \<Rightarrow> nat list \<Rightarrow> RolloutDone list" where
  "sweep_dones reward slots is = map (\<lambda>i. done_of_slot reward i (slots ! i)) (filter (\<lambda>i. finishes (slots ! i)) is)"

lemma sweep_one:
  assumes pc: "sd_pc g = GSlot s" and s: "s < 256" and wf: "slots_wf (sd_state g)" and dinv: "done_inv (sd_done g)"
    and room: "length (done_contents (sd_done g)) < 1024" and budget: "done_budget (Suc m) (sd_done g)"
  shows "\<exists>j g1. j \<le> 4 \<and> (rollout_worker_tick reward ^^ j) g = g1 \<and> sd_pc g1 = GSlot (Suc s) \<and> sd_req g1 = sd_req g \<and>
    slots_wf (sd_state g1) \<and> gr_slots (sd_state g1) = (gr_slots (sd_state g))[s := sweep_slot (gr_slots (sd_state g) ! s)] \<and>
    done_inv (sd_done g1) \<and> done_budget m (sd_done g1) \<and>
    done_contents (sd_done g1) = done_contents (sd_done g) @ sweep_dones reward (gr_slots (sd_state g)) [s]"
proof -
  let ?st = "sd_state g" and ?rs = "gr_slots (sd_state g) ! s"
  define st1 where "st1 = ?st\<lparr>gr_slots := (gr_slots ?st)[s := sweep_slot ?rs]\<rparr>"
  show ?thesis
  proof (cases "finishes ?rs")
    case False
    have "rollout_worker_tick reward g = g\<lparr>sd_state := st1, sd_pc := GSlot (Suc s)\<rparr>"
      using False pc s
      by (auto simp: rollout_worker_tick_def slot_visit_def st1_def sweep_slot_def finishes_def list_update_id)
    then show ?thesis
      using wf dinv False doneq.ok_less[OF budget]
      by (intro exI[of _ 1]) (auto simp: st1_def slots_wf_def sweep_dones_def)
  next
    case True
    let ?d = "done_of_slot reward s ?rs"
    let ?g1 = "g\<lparr>sd_state := st1, sd_pc := GPush s ?d\<rparr>"
    have t1: "rollout_worker_tick reward g = ?g1"
      using True pc s
      by (auto simp: rollout_worker_tick_def slot_visit_def st1_def sweep_slot_def finishes_def)
    obtain rc ring where push: "done_ring_push (sd_done g) ?d = (rc, ring)" by fastforce
    then have obs: "done_push_obs (sd_done g) ?d = (rc = 0, ring)" by (simp add: done_push_obs_def)
    from doneq.push_room[OF dinv budget room obs]
    have r: "rc = 0" "done_inv ring" "done_contents ring = done_contents (sd_done g) @ [?d]" "done_budget m ring"
      by simp_all
    have wf1: "slots_wf st1" using wf by (simp add: st1_def slots_wf_def)
    let ?g2 = "g\<lparr>sd_state := release_slot st1 s, sd_done := ring, sd_step_count := map_option (\<lambda>n. n + 1) (sd_step_count g), sd_pc := GSlot (Suc s)\<rparr>"
    have "rollout_worker_tick reward ?g1 = ?g1\<lparr>sd_done := ring, sd_pc := GRelease s\<rparr>"
      using push r(1) by (simp add: rollout_worker_tick_def)
    then have t2: "(rollout_worker_tick reward ^^ 4) g = ?g2"
      using t1 by (simp add: eval_nat_numeral rollout_worker_tick_def)
    have "sd_pc ?g2 = GSlot (Suc s) \<and> sd_req ?g2 = sd_req g \<and> slots_wf (sd_state ?g2) \<and>
        gr_slots (sd_state ?g2) = (gr_slots ?st)[s := sweep_slot ?rs] \<and> done_inv (sd_done ?g2) \<and> done_budget m (sd_done ?g2) \<and>
        done_contents (sd_done ?g2) = done_contents (sd_done g) @ sweep_dones reward (gr_slots ?st) [s]"
      using release_slot_effect[OF wf1 s] r True by (simp add: sweep_dones_def st1_def)
    with t2 show ?thesis by (intro exI[of _ 4] exI[of _ ?g2]) simp
  qed
qed

lemma sweep_from:
  assumes "sd_pc g = GSlot s" "s \<le> 256" "slots_wf (sd_state g)" "done_inv (sd_done g)"
    and "length (done_contents (sd_done g)) + (256 - s) \<le> 1024" "done_budget (256 - s) (sd_done g)"
  shows "\<exists>k g'. k \<le> 4 * (256 - s) \<and> (rollout_worker_tick reward ^^ k) g = g' \<and> sd_pc g' = GSlot 256 \<and>
    sd_req g' = sd_req g \<and> slots_wf (sd_state g') \<and> done_inv (sd_done g') \<and>
    gr_slots (sd_state g') = take s (gr_slots (sd_state g)) @ map sweep_slot (drop s (gr_slots (sd_state g))) \<and>
    done_contents (sd_done g') = done_contents (sd_done g) @ sweep_dones reward (gr_slots (sd_state g)) [s..<256]"
  using assms
proof (induction "256 - s" arbitrary: s g)
  case 0
  then show ?case by (intro exI[of _ 0]) (auto simp: slots_wf_def sweep_dones_def)
next
  case (Suc m)
  let ?st = "sd_state g" and ?rs = "gr_slots (sd_state g) ! s"
  have s: "s < 256" and m: "m = 256 - Suc s" and len: "s < length (gr_slots ?st)"
    using Suc.hyps(2) Suc.prems(3) by (auto simp: slots_wf_def)
  have room: "length (done_contents (sd_done g)) < 1024" and budget: "done_budget (Suc m) (sd_done g)"
    using Suc.prems(5,6) Suc.hyps(2) by simp_all
  from sweep_one[OF Suc.prems(1) s Suc.prems(3,4) room budget, of reward]
  obtain j g1 where g1: "j \<le> 4" "(rollout_worker_tick reward ^^ j) g = g1" "sd_pc g1 = GSlot (Suc s)" "sd_req g1 = sd_req g"
      "slots_wf (sd_state g1)" "gr_slots (sd_state g1) = (gr_slots ?st)[s := sweep_slot ?rs]" "done_inv (sd_done g1)"
      "done_contents (sd_done g1) = done_contents (sd_done g) @ sweep_dones reward (gr_slots ?st) [s]"
      "done_budget m (sd_done g1)"
    by blast
  have "length (sweep_dones reward (gr_slots ?st) [s]) \<le> 1" by (simp add: sweep_dones_def)
  then have "length (done_contents (sd_done g1)) + (256 - Suc s) \<le> 1024"
    unfolding g1(8) length_append using Suc.prems(5) s by linarith
  from Suc.hyps(1)[OF m g1(3) _ g1(5,7) this] s g1(9) m obtain k g' where
    g': "k \<le> 4 * (256 - Suc s)" "(rollout_worker_tick reward ^^ k) g1 = g'" "sd_pc g' = GSlot 256" "sd_req g' = sd_req g1"
      "slots_wf (sd_state g')" "done_inv (sd_done g')"
      "gr_slots (sd_state g') = take (Suc s) (gr_slots (sd_state g1)) @ map sweep_slot (drop (Suc s) (gr_slots (sd_state g1)))"
      "done_contents (sd_done g') = done_contents (sd_done g1) @ sweep_dones reward (gr_slots (sd_state g1)) [Suc s..<256]"
    by auto
  have "(rollout_worker_tick reward ^^ (k + j)) g = g'" using g1(2) g'(2) by (simp add: funpow_add)
  moreover have "k + j \<le> 4 * (256 - s)" using g1(1) g'(1) s by linarith
  moreover have "take (Suc s) (gr_slots (sd_state g1)) @ map sweep_slot (drop (Suc s) (gr_slots (sd_state g1))) =
      take s (gr_slots ?st) @ map sweep_slot (drop s (gr_slots ?st))"
    unfolding g1(6) using len by (simp add: take_Suc_conv_app_nth Cons_nth_drop_Suc[symmetric])
  moreover have "sweep_dones reward (gr_slots (sd_state g1)) [Suc s..<256] = sweep_dones reward (gr_slots ?st) [Suc s..<256]"
    unfolding g1(6) sweep_dones_def by (auto intro!: map_cong filter_cong)
  moreover have "sweep_dones reward (gr_slots ?st) [s..<256] =
      sweep_dones reward (gr_slots ?st) [s] @ sweep_dones reward (gr_slots ?st) [Suc s..<256]"
    using s by (simp add: sweep_dones_def upt_conv_Cons)
  ultimately show ?case using g' g1(4,8) by (intro exI[of _ "k + j"] exI[of _ g']) simp
qed

text \<open>
  C9. A sweep of the loop over the 256 slots ends and is exact. With room for 256 notifications, at
  most 1024 steps take the loop from the first slot past the last one: an idle slot is untouched,
  an active rollout below its budget has one more token, one at its budget is inactive, and the
  notifications of the finished rollouts have been appended to the done ring in slot order.
\<close>

theorem sweep_exact:
  assumes "sd_pc g = GSlot 0" and "slots_wf (sd_state g)" and "done_inv (sd_done g)"
    and "length (done_contents (sd_done g)) \<le> 768" and "done_budget 256 (sd_done g)"
  shows "\<exists>k g'. k \<le> 1024 \<and> (rollout_worker_tick reward ^^ k) g = g' \<and> sd_pc g' = GSlot 256 \<and>
    gr_slots (sd_state g') = map sweep_slot (gr_slots (sd_state g)) \<and>
    done_contents (sd_done g') = done_contents (sd_done g) @ sweep_dones reward (gr_slots (sd_state g)) [0..<256]"
  using sweep_from[OF assms(1) _ assms(2,3), of reward] assms(4,5) by fastforce

theorem sweep_exact_witness:
  "let rs = (slot_of_request one_request)\<lparr>gs_tokens_generated := 2\<rparr>;
       g = sched_start\<lparr>sd_pc := GSlot 0, sd_state := \<lparr>gr_slots = replicate 256 rs, gr_bitmap = replicate 4 (- 1)\<rparr>\<rparr> in
   \<exists>k g'. k \<le> 1024 \<and> (rollout_worker_tick (\<lambda>_. 0) ^^ k) g = g' \<and> gr_slots (sd_state g') = replicate 256 (rs\<lparr>gs_active := 0\<rparr>) \<and>
     length (done_contents (sd_done g')) = 256"
proof -
  let ?rs = "(slot_of_request one_request)\<lparr>gs_tokens_generated := 2\<rparr>"
  let ?g = "sched_start\<lparr>sd_pc := GSlot 0, sd_state := \<lparr>gr_slots = replicate 256 ?rs, gr_bitmap = replicate 4 (- 1)\<rparr>\<rparr>"
  have g: "slots_wf (sd_state ?g)" "done_inv (sd_done ?g)" "done_contents (sd_done ?g) = []" "done_budget 256 (sd_done ?g)"
    by (simp_all add: sched_start_def slots_wf_def done_ring_empty_def rep_linear_def rep_wf_def ring_wf_def
        rep_contents_def ring_contents_def rep_budget_def)
  have rs: "finishes ?rs" "sweep_slot ?rs = ?rs\<lparr>gs_active := 0\<rparr>"
    by (simp_all add: finishes_def sweep_slot_def slot_of_request_def one_request_def)
  then have "filter (\<lambda>i. finishes (replicate 256 ?rs ! i)) [0..<256] = [0..<256]" by (intro filter_True) auto
  then have "length (sweep_dones (\<lambda>_. 0) (replicate 256 ?rs) [0..<256]) = 256"
    unfolding sweep_dones_def length_map by (simp only: length_upt)
  then show ?thesis using sweep_exact[of ?g "\<lambda>_. 0"] g rs(2) unfolding Let_def by (fastforce simp: map_replicate)
qed

lemma slot_of_request_fields [simp]:
  "gs_active (slot_of_request q) = 1" "gs_tokens_generated (slot_of_request q) = 0"
  "gs_max_tokens (slot_of_request q) = rq_max_tokens q"
  by (simp_all add: slot_of_request_def)

lemma sweep_slot_counts:
  "k \<le> unat (rq_max_tokens q) \<Longrightarrow>
   (sweep_slot ^^ k) (slot_of_request q) = (slot_of_request q)\<lparr>gs_tokens_generated := of_nat k\<rparr>"
proof (induction k)
  case (Suc k)
  have "unat (of_nat k :: u32) = k" using Suc.prems unat_lt32[of "rq_max_tokens q"] by (simp add: unat_of_nat)
  then have "\<not> rq_max_tokens q \<le> of_nat k" using Suc.prems by (simp add: word_le_nat_alt)
  then show ?case using Suc by (simp add: sweep_slot_def slot_of_request_def add.commute)
qed (simp add: slot_of_request_def)

text \<open>
  An admitted rollout generates its tokens and ends: after \<open>k\<close> sweeps, \<open>k\<close> at most its budget, its
  slot is active and counts \<open>k\<close> tokens; only the sweep after that, number \<open>max_tokens\<close> counted from 0,
  finishes it, and it stays inactive.
\<close>

theorem rollout_runs_its_budget:
  "(k \<le> unat (rq_max_tokens q) \<longrightarrow>
      gs_active ((sweep_slot ^^ k) (slot_of_request q)) = 1 \<and>
      unat (gs_tokens_generated ((sweep_slot ^^ k) (slot_of_request q))) = k \<and>
      (finishes ((sweep_slot ^^ k) (slot_of_request q)) \<longleftrightarrow> k = unat (rq_max_tokens q))) \<and>
   (unat (rq_max_tokens q) < k \<longrightarrow> gs_active ((sweep_slot ^^ k) (slot_of_request q)) = 0)"
proof (intro conjI impI)
  assume k: "k \<le> unat (rq_max_tokens q)"
  then have u: "unat (of_nat k :: u32) = k" using unat_lt32[of "rq_max_tokens q"] by (simp add: unat_of_nat)
  show "gs_active ((sweep_slot ^^ k) (slot_of_request q)) = 1"
    "unat (gs_tokens_generated ((sweep_slot ^^ k) (slot_of_request q))) = k"
    "finishes ((sweep_slot ^^ k) (slot_of_request q)) \<longleftrightarrow> k = unat (rq_max_tokens q)"
    using k u unfolding sweep_slot_counts[OF k] by (auto simp: finishes_def word_le_nat_alt)
next
  assume "unat (rq_max_tokens q) < k"
  then obtain j where k: "k = j + Suc (unat (rq_max_tokens q))" by (metis add.commute less_iff_Suc_add add_Suc_right)
  have "gs_active ((sweep_slot ^^ Suc (unat (rq_max_tokens q))) (slot_of_request q)) = 0"
    by (simp add: sweep_slot_counts) (simp add: sweep_slot_def)
  moreover have "gs_active rs = 0 \<Longrightarrow> gs_active ((sweep_slot ^^ j) rs) = 0" for rs
    by (induction j) (simp_all add: sweep_slot_def)
  ultimately show "gs_active ((sweep_slot ^^ k) (slot_of_request q)) = 0"
    unfolding k funpow_add comp_def by blast
qed

theorem rollout_runs_its_budget_witness:
  "gs_active ((sweep_slot ^^ 3) (slot_of_request one_request)) = 0"
  using rollout_runs_its_budget[of 3 one_request] by (simp add: one_request_def)

text \<open>
  A request that arrives while all 256 slots are in use is lost: the loop takes it from the ring,
  gives it no slot and reports nothing; slots, done ring and step counter are as before.
\<close>

theorem request_dropped_when_full:
  assumes "sd_pc g = GPoll" and "slots_wf (sd_state g)" and "bits_of (gr_bitmap (sd_state g)) = {..<256}"
    and "req_inv (sd_req g)" and "req_contents (sd_req g) = q # qs" and "rq_request_id q \<noteq> UINT64_MAX"
  shows "\<exists>ring. rollout_worker_tick reward g = g\<lparr>sd_req := ring, sd_pc := GSlot 0\<rparr> \<and> req_contents ring = qs"
proof -
  obtain y ring where pop: "req_consume_obs (sd_req g) = (y, ring)" by fastforce
  have r: "y = Some q" "req_contents ring = qs"
    using reqq.linear_pop_first[OF assms(4,5) pop] by simp_all
  have "admit (sd_state g) q = sd_state g"
    using assms(2) by (cases rule: find_free_slot_cases) (use assms(3) in \<open>auto simp: admit_def\<close>)
  then have "rollout_worker_tick reward g = g\<lparr>sd_req := ring, sd_pc := GSlot 0\<rparr>"
    using pop r(1) assms(1,6) by (auto simp: rollout_worker_tick_def req_consume_obs_def split: prod.splits)
  then show ?thesis using r(2) by blast
qed

definition sched_full :: sched_state where
  "sched_full = sched_start\<lparr>sd_req := snd (req_submit request_ring_empty one_request),
     sd_state := \<lparr>gr_slots = replicate 256 slot_empty, gr_bitmap = replicate 4 (- 1)\<rparr>\<rparr>"

theorem request_dropped_when_full_witness:
  "\<exists>ring. rollout_worker_tick (\<lambda>_. 0) sched_full = sched_full\<lparr>sd_req := ring, sd_pc := GSlot 0\<rparr>"
proof -
  obtain b ring where sub: "req_submit request_ring_empty one_request = (b, ring)" by fastforce
  have e: "req_inv request_ring_empty" "req_contents request_ring_empty = []" "req_budget (Suc 0) request_ring_empty"
    by (simp_all add: request_ring_empty_def rep_linear_def rep_wf_def ring_wf_def rep_contents_def ring_contents_def rep_budget_def)
  then have "length (req_contents request_ring_empty) < 1024" by (metis list.size(3) zero_less_numeral)
  from reqq.push_room[OF e(1,3) this sub] e(2) have "req_inv (sd_req sched_full)" "req_contents (sd_req sched_full) = [one_request]"
    using sub by (simp_all add: sched_full_def)
  moreover have "sd_pc sched_full = GPoll" "slots_wf (sd_state sched_full)" by (simp_all add: sched_full_def sched_start_def slots_wf_def)
  moreover have "rq_request_id one_request \<noteq> UINT64_MAX" by (simp add: one_request_def)
  moreover have "bits_of (gr_bitmap (sd_state sched_full)) = {..<256}"
    by (simp add: sched_full_def)
  ultimately show ?thesis using request_dropped_when_full[of sched_full one_request "[]" "\<lambda>_. 0"] by blast
qed

end
