(* ===== verification/Rtl.thy ===== *)
theory Rtl
  imports Hw_Worker
begin

text \<open>
  The hardware model of the runtime, \<^verbatim>\<open>rtl/*.sv\<close>, at the level of clock cycles: the descriptor and
  completion rings, the worker state machine and the top level that connects them. A flip-flop
  is a field; a function of the current fields gives the value after the next rising edge.
\<close>

section \<open>Descriptors and completions\<close>

definition RTL_OP_DECODE :: u8 where "RTL_OP_DECODE = 1"
definition RTL_OP_STOP :: u8 where "RTL_OP_STOP = 255"
definition RTL_STATUS_DONE :: u8 where "RTL_STATUS_DONE = 0x01"
definition RTL_STATUS_REWARD_NEEDED :: u8 where "RTL_STATUS_REWARD_NEEDED = 0x02"
definition RTL_STATUS_STOPPED :: u8 where "RTL_STATUS_STOPPED = 0xff"

lemmas rtl_consts = RTL_OP_DECODE_def RTL_OP_STOP_def RTL_STATUS_DONE_def
  RTL_STATUS_REWARD_NEEDED_def RTL_STATUS_STOPPED_def

record desc_t =
  rd_opcode :: u8
  rd_flags :: u8
  rd_rollout_id :: u16
  rd_kv_arena_id :: u16
  rd_prefix_id :: u16
  rd_kv_offset :: u32
  rd_delta_offset :: u32
  rd_seq_len :: u16
  rd_max_tokens :: u16
  rd_reward_model_id :: u16
  rd_reserved :: u16

record completion_t =
  rc_rollout_id :: u16
  rc_status :: u8
  rc_final_seq_len :: u16
  rc_reward_id :: u16

section \<open>The rings\<close>

text \<open>16 entries; the pointers have one bit more than an index, so that full and empty differ.\<close>

record 'a sv_ring =
  sr_mem :: "'a list"
  sr_head :: "5 word"
  sr_tail :: "5 word"

definition sv_empty :: "'a sv_ring \<Rightarrow> bool" where
  "sv_empty r \<longleftrightarrow> sr_head r = sr_tail r"

definition sv_full :: "'a sv_ring \<Rightarrow> bool" where
  "sv_full r \<longleftrightarrow> take_bit 4 (sr_head r) = take_bit 4 (sr_tail r) \<and> bit (sr_head r) 4 \<noteq> bit (sr_tail r) 4"

definition sv_front :: "'a sv_ring \<Rightarrow> 'a" where
  "sv_front r = sr_mem r ! unat (take_bit 4 (sr_head r))"

definition sv_reset :: "'a sv_ring \<Rightarrow> 'a sv_ring" where
  "sv_reset r = r\<lparr>sr_head := 0, sr_tail := 0\<rparr>"

definition sv_clk :: "bool \<Rightarrow> 'a \<Rightarrow> bool \<Rightarrow> 'a sv_ring \<Rightarrow> 'a sv_ring" where
  "sv_clk push_valid x pop_ready r =
     (let push_fire = push_valid \<and> \<not> sv_full r;
          pop_fire = \<not> sv_empty r \<and> pop_ready
      in \<lparr>sr_mem = (if push_fire then (sr_mem r)[unat (take_bit 4 (sr_tail r)) := x] else sr_mem r),
          sr_head = (if pop_fire then sr_head r + 1 else sr_head r),
          sr_tail = (if push_fire then sr_tail r + 1 else sr_tail r)\<rparr>)"

section \<open>The worker state machine\<close>

datatype fsm_pc = S_IDLE | S_DECODE | S_COMPLETE

record fsm =
  fs_state :: fsm_pc
  fs_active :: desc_t
  fs_comp :: completion_t
  fs_tokens :: u16

definition completion_with :: "desc_t \<Rightarrow> u8 \<Rightarrow> u16 \<Rightarrow> completion_t" where
  "completion_with d status len =
     \<lparr>rc_rollout_id = rd_rollout_id d, rc_status = status, rc_final_seq_len = len,
      rc_reward_id = rd_reward_model_id d\<rparr>"

definition fsm_clk :: "desc_t \<Rightarrow> bool \<Rightarrow> bool \<Rightarrow> fsm \<Rightarrow> fsm" where
  "fsm_clk in_desc in_valid out_ready f =
     (case fs_state f of
        S_IDLE \<Rightarrow>
          if in_valid then
            let f1 = f\<lparr>fs_active := in_desc, fs_tokens := rd_seq_len in_desc\<rparr> in
            if rd_opcode in_desc = RTL_OP_STOP
            then f1\<lparr>fs_comp := completion_with in_desc RTL_STATUS_STOPPED (rd_seq_len in_desc), fs_state := S_COMPLETE\<rparr>
            else if rd_opcode in_desc = RTL_OP_DECODE then f1\<lparr>fs_state := S_DECODE\<rparr>
            else f1\<lparr>fs_comp := completion_with in_desc RTL_STATUS_DONE (rd_seq_len in_desc), fs_state := S_COMPLETE\<rparr>
          else f
      | S_DECODE \<Rightarrow>
          let f1 = f\<lparr>fs_tokens := fs_tokens f + 1\<rparr> in
          if fs_tokens f + 1 \<ge> rd_max_tokens (fs_active f)
          then f1\<lparr>fs_comp := completion_with (fs_active f) RTL_STATUS_DONE (fs_tokens f + 1), fs_state := S_COMPLETE\<rparr>
          else if (fs_tokens f + 1) mod 32 = 0
          then f1\<lparr>fs_comp := completion_with (fs_active f) RTL_STATUS_REWARD_NEEDED (fs_tokens f + 1),
                  fs_state := S_COMPLETE\<rparr>
          else f1
      | S_COMPLETE \<Rightarrow> if out_ready then f\<lparr>fs_state := S_IDLE\<rparr> else f)"

section \<open>The top level\<close>

record rl_runtime_top =
  rt_cmd :: "desc_t sv_ring"
  rt_fsm :: fsm
  rt_comp :: "completion_t sv_ring"

definition fsm_reset :: "fsm \<Rightarrow> desc_t \<Rightarrow> completion_t \<Rightarrow> fsm" where
  "fsm_reset f zero_desc zero_comp =
     f\<lparr>fs_state := S_IDLE, fs_active := zero_desc, fs_comp := zero_comp, fs_tokens := 0\<rparr>"

definition desc_zero :: desc_t where
  "desc_zero = \<lparr>rd_opcode = 0, rd_flags = 0, rd_rollout_id = 0, rd_kv_arena_id = 0, rd_prefix_id = 0,
     rd_kv_offset = 0, rd_delta_offset = 0, rd_seq_len = 0, rd_max_tokens = 0, rd_reward_model_id = 0, rd_reserved = 0\<rparr>"

definition completion_zero :: completion_t where
  "completion_zero = \<lparr>rc_rollout_id = 0, rc_status = 0, rc_final_seq_len = 0, rc_reward_id = 0\<rparr>"

definition top_reset :: "rl_runtime_top \<Rightarrow> rl_runtime_top" where
  "top_reset t = \<lparr>rt_cmd = sv_reset (rt_cmd t), rt_fsm = fsm_reset (rt_fsm t) desc_zero completion_zero,
     rt_comp = sv_reset (rt_comp t)\<rparr>"

definition top_clk :: "desc_t \<Rightarrow> bool \<Rightarrow> bool \<Rightarrow> rl_runtime_top \<Rightarrow> rl_runtime_top" where
  "top_clk host_desc host_desc_valid host_comp_ready t =
     (let worker_desc = sv_front (rt_cmd t);
          worker_desc_valid = \<not> sv_empty (rt_cmd t);
          worker_desc_ready = (fs_state (rt_fsm t) = S_IDLE);
          worker_comp_valid = (fs_state (rt_fsm t) = S_COMPLETE);
          worker_comp_ready = \<not> sv_full (rt_comp t);
          cmd_pop_ready = worker_desc_ready \<and> worker_desc_valid
      in \<lparr>rt_cmd = sv_clk host_desc_valid host_desc cmd_pop_ready (rt_cmd t),
          rt_fsm = fsm_clk worker_desc worker_desc_valid worker_comp_ready (rt_fsm t),
          rt_comp = sv_clk worker_comp_valid (fs_comp (rt_fsm t)) host_comp_ready (rt_comp t)\<rparr>)"

section \<open>The rings as queues\<close>

definition sv_contents :: "'a sv_ring \<Rightarrow> 'a list" where
  "sv_contents r = map (\<lambda>i. sr_mem r ! ((unat (sr_head r) + i) mod 16)) [0..<unat (sr_tail r - sr_head r)]"

definition sv_wf :: "'a sv_ring \<Rightarrow> bool" where
  "sv_wf r \<longleftrightarrow> length (sr_mem r) = 16 \<and> unat (sr_tail r - sr_head r) \<le> 16"

lemma unat5_lt: "unat (x :: 5 word) < 32"
  using unsigned_less[of x] by simp

lemma unat5_diff: "unat (t - h :: 5 word) = (if unat h \<le> unat t then unat t - unat h else unat t + 32 - unat h)"
  using unat5_lt[of t] unat5_lt[of h] by (simp add: unat_sub_if')

lemma unat5_add1: "unat (x + 1 :: 5 word) = (if unat x = 31 then 0 else Suc (unat x))"
  using unat5_lt[of x] by (auto simp: unat_word_ariths mod_Suc)

lemma unat_take4: "unat (take_bit 4 (x :: 5 word)) = unat x mod 16"
proof -
  have "unat (take_bit 4 x) = take_bit 4 (unat x)" by (simp only: unsigned_take_bit_eq)
  then show ?thesis by (simp only: take_bit_eq_mod) simp
qed

lemma sv_empty_iff: "sv_empty r \<longleftrightarrow> sv_contents r = []"
  by (auto simp: sv_empty_def sv_contents_def unat_eq_0)

lemma bit4: "bit (x :: 5 word) 4 \<longleftrightarrow> 16 \<le> unat x"
proof -
  have "bit x 4 \<longleftrightarrow> bit (unat x) 4" by (simp add: bit_unsigned_iff)
  also have "\<dots> \<longleftrightarrow> odd (unat x div 16)" by (simp add: bit_iff_odd)
  also have "\<dots> \<longleftrightarrow> 16 \<le> unat x" using unat5_lt[of x] by presburger
  finally show ?thesis .
qed

lemma sv_full_iff:
  assumes "sv_wf r"
  shows "sv_full r \<longleftrightarrow> length (sv_contents r) = 16"
proof -
  let ?h = "unat (sr_head r)" and ?t = "unat (sr_tail r)"
  have "sv_full r \<longleftrightarrow> ?h mod 16 = ?t mod 16 \<and> (16 \<le> ?h) \<noteq> (16 \<le> ?t)"
    unfolding sv_full_def bit4 word_unat_eq_iff unat_take4 ..
  also have "\<dots> \<longleftrightarrow> unat (sr_tail r - sr_head r) = 16"
    using unat5_lt[of "sr_head r"] unat5_lt[of "sr_tail r"] unfolding unat5_diff
    by (simp add: mod_if[of _ 16] le_mod_geq split: if_splits) auto
  finally show ?thesis by (simp add: sv_contents_def)
qed

lemma unat5_pos: "unat (t :: 5 word) mod 16 = (unat h + unat (t - h)) mod 16"
proof -
  have "unat (h + (t - h)) = (unat h + unat (t - h)) mod 32"
    by (simp only: unat_word_ariths) simp
  then have "unat t mod 16 = (unat h + unat (t - h)) mod 32 mod 16" by simp
  also have "\<dots> = (unat h + unat (t - h)) mod 16" by (rule mod_mod_cancel) simp
  finally show ?thesis .
qed

lemma sv_front_contents:
  assumes "\<not> sv_empty r"
  shows "sv_contents r = sv_front r # map (\<lambda>i. sr_mem r ! ((unat (sr_head r + 1) + i) mod 16))
    [0..<unat (sr_tail r - (sr_head r + 1))]"
proof -
  let ?h = "sr_head r" and ?t = "sr_tail r"
  have "?h \<noteq> ?t" using assms by (simp add: sv_empty_def)
  then have cnt: "unat (?t - ?h) = Suc (unat (?t - (?h + 1)))"
    using unat5_lt[of ?h] unat5_lt[of ?t] unfolding unat5_diff unat5_add1 word_unat_eq_iff by auto
  have pos: "(unat (?h + 1) + i) mod 16 = (unat ?h + Suc i) mod 16" for i
    using unat5_lt[of ?h] mod_add_left_eq[of "32" 16 i] unfolding unat5_add1 by (auto simp: mod_add_left_eq[of 32 16, symmetric])
  show ?thesis
    unfolding sv_contents_def cnt sv_front_def unat_take4 pos
    by (simp only: upt_conv_Cons map_Suc_upt[symmetric] zero_less_Suc list.map map_map comp_def add_0_right)
qed

lemma sv_push_contents:
  assumes "sv_wf r" "\<not> sv_full r"
  shows "sv_contents (r\<lparr>sr_mem := (sr_mem r)[unat (take_bit 4 (sr_tail r)) := x], sr_tail := sr_tail r + 1\<rparr>) =
    sv_contents r @ [x]"
proof -
  let ?h = "sr_head r" and ?t = "sr_tail r" and ?n = "unat (sr_tail r - sr_head r)"
  have n: "?n < 16" and len: "length (sr_mem r) = 16"
    using assms sv_full_iff[OF assms(1)] by (auto simp: sv_wf_def sv_contents_def)
  then have cnt: "unat (?t + 1 - ?h) = Suc ?n"
    using unat5_lt[of ?h] unat5_lt[of ?t] unfolding unat5_diff unat5_add1 by auto
  have pos: "unat (take_bit 4 ?t) = (unat ?h + ?n) mod 16" unfolding unat_take4 by (rule unat5_pos)
  have other: "(unat ?h + ?n) mod 16 \<noteq> (unat ?h + i) mod 16" if "i < ?n" for i
    using mod_add_inj[of "unat ?h" i 16 ?n] that n by auto
  show ?thesis
    using len other by (simp add: sv_contents_def cnt pos)
qed

lemma sv_clk_effect:
  assumes wf: "sv_wf r"
  shows "sv_wf (sv_clk pv x pr r) \<and> sv_contents (sv_clk pv x pr r) =
    (if pr \<and> sv_contents r \<noteq> [] then tl (sv_contents r) else sv_contents r) @
    (if pv \<and> length (sv_contents r) < 16 then [x] else [])"
proof -
  define push where "push = (pv \<and> \<not> sv_full r)"
  define pop where "pop = (\<not> sv_empty r \<and> pr)"
  define r1 where "r1 = (if push then r\<lparr>sr_mem := (sr_mem r)[unat (take_bit 4 (sr_tail r)) := x], sr_tail := sr_tail r + 1\<rparr> else r)"
  have full: "sv_full r \<longleftrightarrow> \<not> length (sv_contents r) < 16"
    using sv_full_iff[OF wf] wf by (auto simp: sv_wf_def sv_contents_def)
  have r1: "sv_contents r1 = sv_contents r @ (if pv \<and> length (sv_contents r) < 16 then [x] else [])"
    using sv_push_contents[OF wf, of x] by (simp add: r1_def push_def full)
  have clk: "sv_clk pv x pr r = (if pop then r1\<lparr>sr_head := sr_head r1 + 1\<rparr> else r1)"
    by (cases r) (simp add: sv_clk_def r1_def push_def pop_def)
  have len1: "length (sr_mem r1) = 16" and head1: "sr_head r1 = sr_head r" using wf by (simp_all add: r1_def sv_wf_def)
  have cnt: "length (sv_contents s) = unat (sr_tail s - sr_head s)" for s :: "'a sv_ring" by (simp add: sv_contents_def)
  have le1: "length (sv_contents r1) \<le> 16"
    unfolding r1 using wf cnt[of r] by (simp add: sv_wf_def)
  show ?thesis
  proof (cases pop)
    case False
    then show ?thesis
      unfolding clk using r1 len1 le1 cnt[of r1] by (auto simp: sv_wf_def pop_def sv_empty_iff)
  next
    case True
    then have ne: "sv_contents r \<noteq> []" by (simp add: pop_def sv_empty_iff)
    then have "\<not> sv_empty r1" by (simp add: sv_empty_iff r1)
    from sv_front_contents[OF this]
    have "sv_contents r1 = sv_front r1 # sv_contents (r1\<lparr>sr_head := sr_head r1 + 1\<rparr>)" by (simp add: sv_contents_def)
    then have "sv_contents (r1\<lparr>sr_head := sr_head r1 + 1\<rparr>) = tl (sv_contents r1)" by simp
    moreover have pr using True by (simp add: pop_def)
    moreover have "length (tl (sv_contents r1)) \<le> 16" using le1 by simp
    ultimately show ?thesis
      unfolding clk using True ne r1 len1 cnt[of "r1\<lparr>sr_head := sr_head r1 + 1\<rparr>"]
      by (simp add: sv_wf_def)
  qed
qed

lemma sv_front_hd: "sv_contents r \<noteq> [] \<Longrightarrow> sv_front r = hd (sv_contents r)"
  using sv_front_contents[of r] by (simp add: sv_empty_iff)

section \<open>The result of a descriptor\<close>

text \<open>The decode state run to its end; every run meets a multiple of 32 after at most 32 steps.\<close>

lemma unat16_lt: "unat (x :: u16) < 65536"
  using unsigned_less[of x] by simp

lemma unat16_add1: "unat (x + 1 :: u16) = (if unat x = 65535 then 0 else Suc (unat x))"
  using unat16_lt[of x] by (auto simp: unat_word_ariths mod_Suc)

lemma u16_mod32: "(x :: u16) mod 32 = 0 \<longleftrightarrow> unat x mod 32 = 0"
  by (simp add: word_unat_eq_iff unat_mod)

function rtl_decode :: "desc_t \<Rightarrow> u16 \<Rightarrow> completion_t" where
  "rtl_decode d t =
     (if t + 1 \<ge> rd_max_tokens d then completion_with d RTL_STATUS_DONE (t + 1)
      else if (t + 1) mod 32 = 0 then completion_with d RTL_STATUS_REWARD_NEEDED (t + 1)
      else rtl_decode d (t + 1))"
  by pat_completeness auto
termination
proof (relation "measure (\<lambda>(d, t). 31 - unat t mod 32)", goal_cases)
  case (2 d t)
  then have "unat (t + 1) mod 32 \<noteq> 0" by (simp add: u16_mod32)
  then have "Suc (unat t) mod 32 \<noteq> 0" "unat (t + 1) = Suc (unat t)" by (auto simp: unat16_add1 split: if_splits)
  then show ?case by (simp add: mod_Suc split: if_splits)
qed simp

declare rtl_decode.simps [simp del]

definition rtl_result :: "desc_t \<Rightarrow> completion_t" where
  "rtl_result d =
     (if rd_opcode d = RTL_OP_STOP then completion_with d RTL_STATUS_STOPPED (rd_seq_len d)
      else if rd_opcode d = RTL_OP_DECODE then rtl_decode d (rd_seq_len d)
      else completion_with d RTL_STATUS_DONE (rd_seq_len d))"

section \<open>In-order completion\<close>

text \<open>The completion the state machine is working on.\<close>

definition held :: "fsm \<Rightarrow> completion_t list" where
  "held f = (case fs_state f of S_IDLE \<Rightarrow> [] | S_DECODE \<Rightarrow> [rtl_decode (fs_active f) (fs_tokens f)]
     | S_COMPLETE \<Rightarrow> [fs_comp f])"

text \<open>Everything in flight, oldest first, as the completions it will give.\<close>

definition rtl_pending :: "rl_runtime_top \<Rightarrow> completion_t list" where
  "rtl_pending t = sv_contents (rt_comp t) @ held (rt_fsm t) @ map rtl_result (sv_contents (rt_cmd t))"

definition top_wf :: "rl_runtime_top \<Rightarrow> bool" where
  "top_wf t \<longleftrightarrow> sv_wf (rt_cmd t) \<and> sv_wf (rt_comp t)"

lemma held_fsm_clk:
  "held (fsm_clk d valid ready f) =
     (case fs_state f of
        S_IDLE \<Rightarrow> if valid then [rtl_result d] else []
      | S_DECODE \<Rightarrow> held f
      | S_COMPLETE \<Rightarrow> if ready then [] else held f)"
  by (auto simp: held_def fsm_clk_def rtl_result_def rtl_decode.simps[of "fs_active f" "fs_tokens f"] rtl_consts
      split: fsm_pc.splits)

text \<open>
  One cycle: the front completion leaves when the host takes it, an acc_in descriptor enters at
  the end, and nothing else changes.
\<close>

lemma top_clk_pending:
  assumes "top_wf t"
  shows "top_wf (top_clk d valid ready t) \<and>
    rtl_pending (top_clk d valid ready t) =
      (if ready \<and> sv_contents (rt_comp t) \<noteq> [] then tl (rtl_pending t) else rtl_pending t) @
      (if valid \<and> \<not> sv_full (rt_cmd t) then [rtl_result d] else [])"
proof -
  let ?cmd = "rt_cmd t" and ?f = "rt_fsm t" and ?comp = "rt_comp t"
  let ?pop = "fs_state ?f = S_IDLE \<and> \<not> sv_empty ?cmd"
  have wf: "sv_wf ?cmd" "sv_wf ?comp" using assms by (simp_all add: top_wf_def)
  have full: "\<not> sv_full r \<longleftrightarrow> length (sv_contents r) < 16" if "sv_wf r" for r :: "'b sv_ring"
    using sv_full_iff[OF that] that by (auto simp: sv_wf_def sv_contents_def)
  note cmd = sv_clk_effect[OF wf(1), of valid d ?pop]
  note cmp = sv_clk_effect[OF wf(2), of "fs_state ?f = S_COMPLETE" "fs_comp ?f" ready]
  have clk: "top_clk d valid ready t = \<lparr>rt_cmd = sv_clk valid d ?pop ?cmd,
      rt_fsm = fsm_clk (sv_front ?cmd) (\<not> sv_empty ?cmd) (\<not> sv_full ?comp) ?f,
      rt_comp = sv_clk (fs_state ?f = S_COMPLETE) (fs_comp ?f) ready ?comp\<rparr>"
    by (simp add: top_clk_def)
  have front: "map rtl_result (sv_contents ?cmd) = rtl_result (sv_front ?cmd) # map rtl_result (tl (sv_contents ?cmd))"
    if "\<not> sv_empty ?cmd"
    using that sv_front_hd[of ?cmd] by (cases "sv_contents ?cmd") (simp_all add: sv_empty_iff)
  let ?new = "if valid \<and> \<not> sv_full ?cmd then [rtl_result d] else []"
  have cmd': "map rtl_result (sv_contents (sv_clk valid d ?pop ?cmd)) =
      map rtl_result (if ?pop then tl (sv_contents ?cmd) else sv_contents ?cmd) @ ?new"
    using cmd full[OF wf(1)] by (auto simp: sv_empty_iff)
  have cmp': "sv_contents (sv_clk (fs_state ?f = S_COMPLETE) (fs_comp ?f) ready ?comp) =
      (if ready \<and> sv_contents ?comp \<noteq> [] then tl (sv_contents ?comp) else sv_contents ?comp) @
      (if fs_state ?f = S_COMPLETE \<and> \<not> sv_full ?comp then [fs_comp ?f] else [])"
    using cmp full[OF wf(2)] by simp
  have "rtl_pending (top_clk d valid ready t) =
      (if ready \<and> sv_contents ?comp \<noteq> [] then tl (rtl_pending t) else rtl_pending t) @ ?new"
    unfolding rtl_pending_def clk rl_runtime_top.simps cmd' cmp' held_fsm_clk
    using front by (cases "fs_state ?f"; cases "sv_empty ?cmd"; cases "sv_full ?comp") (simp_all add: held_def sv_empty_iff tl_append2)
  then show ?thesis using cmd cmp by (simp add: top_wf_def clk)
qed

section \<open>Cycle-level runs\<close>

text \<open>
  The inputs of a cycle are the descriptor bus, its valid bit and the host's ready bit. The run
  collects the descriptors the command ring accepts and the completions the host takes.
\<close>

fun top_run :: "(desc_t \<times> bool \<times> bool) list \<Rightarrow> rl_runtime_top \<Rightarrow> desc_t list \<times> completion_t list \<times> rl_runtime_top" where
  "top_run [] t = ([], [], t)"
| "top_run ((d, valid, ready) # ins) t =
     (let (acc_in, taken, t') = top_run ins (top_clk d valid ready t)
      in ((if valid \<and> \<not> sv_full (rt_cmd t) then [d] else []) @ acc_in,
          (if ready \<and> \<not> sv_empty (rt_comp t) then [sv_front (rt_comp t)] else []) @ taken, t'))"

lemma top_run_conserves:
  assumes "top_wf t" "top_run ins t = (acc_in, taken, t')"
  shows "rtl_pending t @ map rtl_result acc_in = taken @ rtl_pending t' \<and> top_wf t'"
  using assms
proof (induction ins t arbitrary: acc_in taken rule: top_run.induct)
  case (2 d valid ready ins t)
  obtain acc tk where run: "top_run ins (top_clk d valid ready t) = (acc, tk, t')"
    and acc: "acc_in = (if valid \<and> \<not> sv_full (rt_cmd t) then [d] else []) @ acc"
      "taken = (if ready \<and> \<not> sv_empty (rt_comp t) then [sv_front (rt_comp t)] else []) @ tk"
    using "2.prems"(2) by (auto split: prod.splits)
  note clk = top_clk_pending[OF "2.prems"(1), of d valid ready]
  have IH: "rtl_pending (top_clk d valid ready t) @ map rtl_result acc = tk @ rtl_pending t' \<and> top_wf t'"
    using "2.IH" clk run by simp
  show ?case
  proof (cases "sv_empty (rt_comp t)")
    case True
    then show ?thesis using IH clk by (auto simp: acc sv_empty_iff split: if_splits)
  next
    case False
    then obtain cs where "rtl_pending t = sv_front (rt_comp t) # cs"
      using sv_front_hd[of "rt_comp t"]
      by (cases "sv_contents (rt_comp t)") (simp_all add: sv_empty_iff rtl_pending_def)
    then show ?thesis using False IH clk by (auto simp: acc sv_empty_iff split: if_splits)
  qed
qed simp

lemma top_reset_empty:
  assumes "length (sr_mem (rt_cmd t)) = 16" "length (sr_mem (rt_comp t)) = 16"
  shows "top_wf (top_reset t) \<and> rtl_pending (top_reset t) = []"
  using assms by (simp add: top_reset_def top_wf_def sv_wf_def sv_reset_def rtl_pending_def held_def fsm_reset_def sv_contents_def)

section \<open>Agreement with the software worker\<close>

lemma rtl_decode_closed:
  assumes "t < rd_max_tokens d"
  defines "stop \<equiv> min (unat (rd_max_tokens d)) (32 * (unat t div 32 + 1))"
  shows "rtl_decode d t = completion_with d
    (if stop = unat (rd_max_tokens d) then RTL_STATUS_DONE else RTL_STATUS_REWARD_NEEDED) (of_nat stop)"
  using assms(1) unfolding stop_def
proof (induction d t rule: rtl_decode.induct)
  case (1 d t)
  have lt: "unat t < unat (rd_max_tokens d)" using "1.prems" by (simp add: word_less_nat_alt)
  then have Suc: "unat (t + 1) = Suc (unat t)" using unat16_lt[of "rd_max_tokens d"] by (simp add: unat16_add1)
  consider (fin) "rd_max_tokens d \<le> t + 1" | (reward) "t + 1 < rd_max_tokens d" "(t + 1) mod 32 = 0"
    | (more) "t + 1 < rd_max_tokens d" "(t + 1) mod 32 \<noteq> 0"
    by (meson linorder_not_le)
  then show ?case
  proof cases
    case fin
    then have "unat (rd_max_tokens d) = Suc (unat t)" using lt Suc by (simp add: word_le_nat_alt)
    then have "min (unat (rd_max_tokens d)) (32 * (unat t div 32 + 1)) = Suc (unat t)"
      "unat (rd_max_tokens d) = Suc (unat t)" by simp_all
    then show ?thesis using fin by (simp add: rtl_decode.simps[of d t] add.commute)
  next
    case reward
    then have "Suc (unat t) mod 32 = 0" using Suc by (simp add: u16_mod32)
    then have "32 * (unat t div 32 + 1) = Suc (unat t)" by presburger
    moreover have "Suc (unat t) < unat (rd_max_tokens d)" using reward(1) Suc by (simp add: word_less_nat_alt)
    ultimately have "min (unat (rd_max_tokens d)) (32 * (unat t div 32 + 1)) = Suc (unat t)"
      "Suc (unat t) \<noteq> unat (rd_max_tokens d)" by simp_all
    then show ?thesis using reward by (simp add: rtl_decode.simps[of d t] linorder_not_le[symmetric] add.commute)
  next
    case more
    then have "Suc (unat t) mod 32 \<noteq> 0" using Suc by (simp add: u16_mod32)
    then have "Suc (unat t) div 32 = unat t div 32" by (simp add: div_Suc)
    then show ?thesis
      using 1 more Suc by (simp add: rtl_decode.simps[of d t] linorder_not_le[symmetric])
  qed
qed

text \<open>The software descriptor with the same lengths.\<close>

definition hw_desc_of :: "desc_t \<Rightarrow> hw_desc_t" where
  "hw_desc_of d = hw_desc_zero\<lparr>hd_opcode := ucast (rd_opcode d), hd_rollout_id := ucast (rd_rollout_id d),
     hd_seq_len := ucast (rd_seq_len d), hd_max_tokens := ucast (rd_max_tokens d),
     hd_reward_model_id := ucast (rd_reward_model_id d)\<rparr>"

text \<open>
  C12. The hardware model and the software worker decode alike: for a decode descriptor whose length is
  below its budget, the state machine's completion has the sequence length the software's decode
  loop stops at, and the status DONE exactly when the software sets \<open>DESC_FLAG_DONE\<close>, REWARD_NEEDED
  exactly when it sets \<open>DESC_FLAG_NEEDS_REWARD\<close>.
\<close>

theorem rtl_agrees_with_simulator:
  assumes "rd_opcode d = RTL_OP_DECODE" and "rd_seq_len d < rd_max_tokens d"
  shows "let h = fst (hw_decode_loop (hw_desc_of d) 0); c = rtl_result d in
    ucast (rc_final_seq_len c) = hd_seq_len h \<and>
    (rc_status c = RTL_STATUS_DONE \<longleftrightarrow> hd_flags h = DESC_FLAG_DONE) \<and>
    (rc_status c = RTL_STATUS_REWARD_NEEDED \<longleftrightarrow> hd_flags h = DESC_FLAG_NEEDS_REWARD)"
proof -
  have lens: "unat (hd_seq_len (hw_desc_of d)) = unat (rd_seq_len d)"
    "unat (hd_max_tokens (hw_desc_of d)) = unat (rd_max_tokens d)" "hd_flags (hw_desc_of d) = 0"
    using unat16_lt[of "rd_seq_len d"] unat16_lt[of "rd_max_tokens d"]
    by (simp_all add: hw_desc_of_def hw_desc_zero_def unsigned_ucast_eq take_bit_nat_eq_self)
  then have less: "hd_seq_len (hw_desc_of d) < hd_max_tokens (hw_desc_of d)"
    using assms(2) by (simp add: word_less_nat_alt)
  define stop where "stop = min (unat (rd_max_tokens d)) (32 * (unat (rd_seq_len d) div 32 + 1))"
  have "stop < 65536" using unat16_lt[of "rd_max_tokens d"] by (simp add: stop_def min_def)
  then have cast: "ucast (of_nat stop :: u16) = (of_nat stop :: u32)"
    by (simp add: word_unat_eq_iff unsigned_ucast_eq unat_of_nat take_bit_nat_eq_self)
  have "fst (hw_decode_loop (hw_desc_of d) 0) = hw_decoded (hw_desc_of d)" by (simp add: hw_decode_loop_eq)
  moreover have "hw_decode_stop (hw_desc_of d) = stop" by (simp add: hw_decode_stop_def lens stop_def)
  ultimately show ?thesis
    using assms less cast rtl_decode_closed[OF assms(2), folded stop_def] lens
    by (simp add: rtl_result_def hw_decoded_def completion_with_def rtl_consts desc_consts)
qed

definition small_desc :: desc_t where
  "small_desc = desc_zero\<lparr>rd_opcode := 1, rd_rollout_id := 8, rd_max_tokens := 64\<rparr>"

theorem rtl_agrees_with_simulator_witness:
  "ucast (rc_final_seq_len (rtl_result small_desc)) = hd_seq_len (fst (hw_decode_loop (hw_desc_of small_desc) 0))"
  using rtl_agrees_with_simulator[of small_desc] by (simp add: small_desc_def desc_zero_def rtl_consts)

text \<open>
  C13. The hardware model completes descriptors in order, whatever the inputs of each cycle are. From
  reset, the completions the host has taken, followed by what is still pending, are the results of
  the descriptors the command ring accepted, in the order in which they were accepted.
\<close>

theorem rtl_completes_in_order:
  assumes "length (sr_mem (rt_cmd t)) = 16" and "length (sr_mem (rt_comp t)) = 16"
    and "top_run ins (top_reset t) = (acc_in, taken, t')"
  shows "taken @ rtl_pending t' = map rtl_result acc_in"
  using top_run_conserves[OF _ assms(3)] top_reset_empty[OF assms(1,2)] by simp

definition rtl_blank :: rl_runtime_top where
  "rtl_blank = \<lparr>rt_cmd = \<lparr>sr_mem = replicate 16 desc_zero, sr_head = 3, sr_tail = 9\<rparr>,
     rt_fsm = \<lparr>fs_state = S_DECODE, fs_active = desc_zero, fs_comp = completion_zero, fs_tokens = 5\<rparr>,
     rt_comp = \<lparr>sr_mem = replicate 16 completion_zero, sr_head = 1, sr_tail = 2\<rparr>\<rparr>"

theorem rtl_completes_in_order_witness:
  "let (acc_in, taken, t') = top_run [(small_desc, True, True), (desc_zero, False, True)] (top_reset rtl_blank) in
   taken @ rtl_pending t' = map rtl_result acc_in"
proof -
  obtain acc_in taken t' where run:
    "top_run [(small_desc, True, True), (desc_zero, False, True)] (top_reset rtl_blank) = (acc_in, taken, t')"
    by (cases "top_run [(small_desc, True, True), (desc_zero, False, True)] (top_reset rtl_blank)")
  show ?thesis unfolding run using rtl_completes_in_order[OF _ _ run] by (simp add: rtl_blank_def)
qed

text \<open>
  The two implementations diverge on the other descriptors. A decode descriptor whose budget is
  already spent gets one more token and the status DONE from the hardware model, while the
  software leaves it unchanged and marks nothing; and a descriptor that is neither decode nor stop
  is completed as DONE by the hardware model, while the software worker drops it.
\<close>

theorem rtl_diverges_from_simulator:
  "(rd_opcode d = RTL_OP_DECODE \<and> rd_max_tokens d \<le> rd_seq_len d \<and> rd_seq_len d \<noteq> 0xFFFF \<longrightarrow>
      rtl_result d = completion_with d RTL_STATUS_DONE (rd_seq_len d + 1) \<and>
      fst (hw_decode_loop (hw_desc_of d) 0) = hw_desc_of d) \<and>
   (rd_opcode d \<noteq> RTL_OP_DECODE \<and> rd_opcode d \<noteq> RTL_OP_STOP \<longrightarrow>
      rtl_result d = completion_with d RTL_STATUS_DONE (rd_seq_len d) \<and>
      (\<forall>w q. ws_stop w = 0 \<longrightarrow> hw_ring_pop (ws_cmdq w) = (0, Some (hw_desc_of d), q) \<longrightarrow>
         hw_worker_tick WLoop w = (WLoop, w\<lparr>ws_cmdq := q\<rparr>)))"
proof (intro conjI impI allI; (elim conjE)?)
  assume d: "rd_opcode d = RTL_OP_DECODE" "rd_max_tokens d \<le> rd_seq_len d" "rd_seq_len d \<noteq> 0xFFFF"
  have "unat (rd_seq_len d) \<noteq> 65535" using d(3) by (simp add: word_unat_eq_iff)
  then have "rd_max_tokens d \<le> rd_seq_len d + 1" using d(2) by (simp add: word_le_nat_alt unat16_add1)
  then show "rtl_result d = completion_with d RTL_STATUS_DONE (rd_seq_len d + 1)"
    using d(1) by (simp add: rtl_result_def rtl_decode.simps[of d] rtl_consts)
  have "hd_max_tokens (hw_desc_of d) \<le> hd_seq_len (hw_desc_of d)"
    using d(2) by (simp add: hw_desc_of_def word_le_nat_alt unsigned_ucast_eq take_bit_nat_eq_self unat16_lt less_trans[OF unat16_lt])
  then show "fst (hw_decode_loop (hw_desc_of d) 0) = hw_desc_of d"
    by (simp add: hw_decode_loop.simps leD)
next
  assume d: "rd_opcode d \<noteq> RTL_OP_DECODE" "rd_opcode d \<noteq> RTL_OP_STOP"
  then show "rtl_result d = completion_with d RTL_STATUS_DONE (rd_seq_len d)" by (simp add: rtl_result_def)
  fix w :: hw_worker_sim_t and q
  assume w: "ws_stop w = 0" "hw_ring_pop (ws_cmdq w) = (0, Some (hw_desc_of d), q)"
  have "(ucast (rd_opcode d) :: u16) = ucast c \<longleftrightarrow> rd_opcode d = c" for c :: u8
    by (metis ucast_narrow(4))
  from this[of 1] this[of 255] d have "hd_opcode (hw_desc_of d) \<noteq> DESC_OP_DECODE" "hd_opcode (hw_desc_of d) \<noteq> DESC_OP_STOP"
    by (simp_all add: hw_desc_of_def desc_consts rtl_consts)
  then show "hw_worker_tick WLoop w = (WLoop, w\<lparr>ws_cmdq := q\<rparr>)"
    using w by (simp add: hw_worker_tick.simps)
qed

theorem rtl_diverges_from_simulator_witness:
  "rtl_result (desc_zero\<lparr>rd_opcode := 1, rd_seq_len := 4\<rparr>) =
     completion_with (desc_zero\<lparr>rd_opcode := 1, rd_seq_len := 4\<rparr>) RTL_STATUS_DONE 5"
  using rtl_diverges_from_simulator[of "desc_zero\<lparr>rd_opcode := 1, rd_seq_len := 4\<rparr>"]
  by (simp add: desc_zero_def rtl_consts)

end
