(* ===== verification/Rtl_Bridge.thy ===== *)
theory Rtl_Bridge
  imports Rtl
begin

text \<open>
  The co-simulation bridge, \<^verbatim>\<open>verilator/rtl_bridge.h\<close> and \<^verbatim>\<open>verilator/rtl_bridge.cpp\<close>, and its driver
  \<^verbatim>\<open>verilator/sim_main.cpp\<close>: packing a descriptor into the words of the input bus, unpacking a
  completion, submitting and polling. The class that Verilator generates from the RTL is the model
  of \<open>Rtl\<close>; a rising clock edge is one \<open>top_clk\<close>, or a reset while \<open>rst_n\<close> is low.
\<close>

section \<open>Packing\<close>

definition bit_mask :: "nat \<Rightarrow> u64" where
  "bit_mask width = (if width \<ge> 64 then NOT 0 else push_bit width 1 - 1)"

definition extract_bits :: "u64 \<Rightarrow> nat \<Rightarrow> nat \<Rightarrow> u64" where
  "extract_bits value lsb width =
     (let sliced = drop_bit lsb value in if width < 64 then sliced AND bit_mask width else sliced)"

text \<open>The overload for buses wider than 64 bits, here of two words.\<close>

definition extract_bits_wide :: "u32 list \<Rightarrow> nat \<Rightarrow> nat \<Rightarrow> u64" where
  "extract_bits_wide words lsb width =
     (let w = lsb div 32; shift = lsb mod 32;
          value = drop_bit shift (ucast (words ! w));
          value = (if shift + width > 32 \<and> w + 1 < 2 then value OR push_bit (32 - shift) (ucast (words ! (w + 1))) else value)
      in if width < 64 then value AND bit_mask width else value)"

definition pack_desc :: "desc_t \<Rightarrow> u32 list" where
  "pack_desc d =
     [ucast (rd_reserved d) OR push_bit 16 (ucast (rd_reward_model_id d)),
      ucast (rd_max_tokens d) OR push_bit 16 (ucast (rd_seq_len d)),
      rd_delta_offset d,
      rd_kv_offset d,
      ucast (rd_prefix_id d) OR push_bit 16 (ucast (rd_kv_arena_id d)),
      ucast (rd_rollout_id d) OR push_bit 16 (ucast (rd_flags d)) OR push_bit 24 (ucast (rd_opcode d))]"

text \<open>
  The RTL side: word 0 holds bits 31 to 0 of the bus, and the first field of a packed structure
  its most significant bits.
\<close>

definition bus_of_words :: "u32 list \<Rightarrow> 192 word" where
  "bus_of_words ws = ucast (ws ! 0) OR push_bit 32 (ucast (ws ! 1)) OR push_bit 64 (ucast (ws ! 2)) OR
     push_bit 96 (ucast (ws ! 3)) OR push_bit 128 (ucast (ws ! 4)) OR push_bit 160 (ucast (ws ! 5))"

definition desc_of_bus :: "192 word \<Rightarrow> desc_t" where
  "desc_of_bus v =
     \<lparr>rd_opcode = ucast (drop_bit 184 v), rd_flags = ucast (drop_bit 176 v), rd_rollout_id = ucast (drop_bit 160 v),
      rd_kv_arena_id = ucast (drop_bit 144 v), rd_prefix_id = ucast (drop_bit 128 v), rd_kv_offset = ucast (drop_bit 96 v),
      rd_delta_offset = ucast (drop_bit 64 v), rd_seq_len = ucast (drop_bit 48 v), rd_max_tokens = ucast (drop_bit 32 v),
      rd_reward_model_id = ucast (drop_bit 16 v), rd_reserved = ucast v\<rparr>"

definition bus_of_completion :: "completion_t \<Rightarrow> u64" where
  "bus_of_completion c = push_bit 40 (ucast (rc_rollout_id c)) OR push_bit 32 (ucast (rc_status c)) OR
     push_bit 16 (ucast (rc_final_seq_len c)) OR ucast (rc_reward_id c)"

definition read_completion :: "u64 \<Rightarrow> completion_t" where
  "read_completion host_comp =
     \<lparr>rc_rollout_id = ucast (extract_bits host_comp 40 16), rc_status = ucast (extract_bits host_comp 32 8),
      rc_final_seq_len = ucast (extract_bits host_comp 16 16), rc_reward_id = ucast (extract_bits host_comp 0 16)\<rparr>"

section \<open>The bridge\<close>

record bridge =
  br_top :: rl_runtime_top
  br_rst_n :: bool
  br_host_desc :: "u32 list"
  br_desc_valid :: bool
  br_comp_ready :: bool
  br_doorbell :: bool
  br_cycles :: u64

text \<open>The constructor; \<open>powerup\<close> are the registers before any clock edge.\<close>

definition RtlRuntimeBridge :: "rl_runtime_top \<Rightarrow> bridge" where
  "RtlRuntimeBridge powerup = \<lparr>br_top = powerup, br_rst_n = False, br_host_desc = replicate 6 0, br_desc_valid = False,
     br_comp_ready = False, br_doorbell = False, br_cycles = 0\<rparr>"

definition tick :: "bridge \<Rightarrow> bridge" where
  "tick b = b\<lparr>br_top := (if br_rst_n b
       then top_clk (desc_of_bus (bus_of_words (br_host_desc b))) (br_desc_valid b) (br_comp_ready b) (br_top b)
       else top_reset (br_top b)),
     br_cycles := br_cycles b + 1\<rparr>"

definition reset :: "nat \<Rightarrow> bridge \<Rightarrow> bridge" where
  "reset cycles b =
     (let b1 = b\<lparr>br_rst_n := False, br_desc_valid := False, br_comp_ready := False, br_doorbell := False\<rparr>
      in tick (((tick ^^ cycles) b1)\<lparr>br_rst_n := True\<rparr>))"

definition host_desc_ready :: "bridge \<Rightarrow> bool" where
  "host_desc_ready b \<longleftrightarrow> \<not> sv_full (rt_cmd (br_top b))"

definition host_comp_valid :: "bridge \<Rightarrow> bool" where
  "host_comp_valid b \<longleftrightarrow> \<not> sv_empty (rt_comp (br_top b))"

fun wait_ready :: "nat \<Rightarrow> bridge \<Rightarrow> bridge" where
  "wait_ready 0 b = b"
| "wait_ready (Suc n) b = (if \<not> host_desc_ready b then wait_ready n (tick b) else b)"

definition submit_desc :: "desc_t \<Rightarrow> bridge \<Rightarrow> bool \<times> bridge" where
  "submit_desc d b =
     (let b1 = wait_ready 16 (b\<lparr>br_host_desc := pack_desc d\<rparr>)
      in if \<not> host_desc_ready b1 then (False, b1)
         else (True, (tick (b1\<lparr>br_desc_valid := True, br_doorbell := True\<rparr>))\<lparr>br_desc_valid := False, br_doorbell := False\<rparr>))"

definition decode_desc :: "u16 \<Rightarrow> u16 \<Rightarrow> u16 \<Rightarrow> u16 \<Rightarrow> u16 \<Rightarrow> u16 \<Rightarrow> u32 \<Rightarrow> u32 \<Rightarrow> desc_t" where
  "decode_desc rollout_id seq_len max_tokens reward_model_id kv_arena_id prefix_id kv_offset delta_offset =
     \<lparr>rd_opcode = RTL_OP_DECODE, rd_flags = 0, rd_rollout_id = rollout_id, rd_kv_arena_id = kv_arena_id,
      rd_prefix_id = prefix_id, rd_kv_offset = kv_offset, rd_delta_offset = delta_offset, rd_seq_len = seq_len,
      rd_max_tokens = max_tokens, rd_reward_model_id = reward_model_id, rd_reserved = 0\<rparr>"

text \<open>The width checks compare a 16-bit or 32-bit argument with its greatest value.\<close>

definition submit_decode :: "u16 \<Rightarrow> u16 \<Rightarrow> u16 \<Rightarrow> u16 \<Rightarrow> u16 \<Rightarrow> u16 \<Rightarrow> u32 \<Rightarrow> u32 \<Rightarrow> bridge \<Rightarrow> bool \<times> bridge" where
  "submit_decode rollout_id seq_len max_tokens reward_model_id kv_arena_id prefix_id kv_offset delta_offset b =
     (if seq_len > 0xFFFF \<or> max_tokens > 0xFFFF then (False, b)
      else if kv_offset > 0xFFFFFFFF \<or> delta_offset > 0xFFFFFFFF then (False, b)
      else submit_desc (decode_desc rollout_id seq_len max_tokens reward_model_id kv_arena_id prefix_id kv_offset delta_offset) b)"

definition submit_stop :: "u16 \<Rightarrow> bridge \<Rightarrow> bool \<times> bridge" where
  "submit_stop rollout_id b =
     (let d = desc_zero\<lparr>rd_opcode := RTL_OP_STOP, rd_rollout_id := rollout_id\<rparr>
      in if rollout_id > 0xFFFF then (False, b\<lparr>br_host_desc := pack_desc d\<rparr>) else submit_desc d b)"

definition set_completion_ready :: "bool \<Rightarrow> bridge \<Rightarrow> bridge" where
  "set_completion_ready ready b = b\<lparr>br_comp_ready := ready\<rparr>"

definition poll_completion :: "bridge \<Rightarrow> completion_t option \<times> bridge" where
  "poll_completion b =
     (if \<not> host_comp_valid b then (None, b)
      else (Some (read_completion (bus_of_completion (sv_front (rt_comp (br_top b))))),
            if br_comp_ready b then tick b else b))"

section \<open>The driver\<close>

fun wait_polls :: "nat \<Rightarrow> bridge \<Rightarrow> completion_t option \<times> bridge" where
  "wait_polls 0 b = (None, b)"
| "wait_polls (Suc n) b =
     (case poll_completion b of (Some c, b1) \<Rightarrow> (Some c, b1) | (None, b1) \<Rightarrow> wait_polls n (tick b1))"

definition wait_for_completion :: "bridge \<Rightarrow> nat \<Rightarrow> completion_t option \<times> bridge" where
  "wait_for_completion b timeout_cycles =
     (case wait_polls timeout_cycles (set_completion_ready True b) of (c, b1) \<Rightarrow> (c, set_completion_ready False b1))"

definition run_basic_decode :: "rl_runtime_top \<Rightarrow> int" where
  "run_basic_decode powerup =
     (case submit_decode 7 0 10 3 0 0 0 0 (reset 5 (RtlRuntimeBridge powerup)) of (ok, b) \<Rightarrow>
        if \<not> ok then 1
        else case fst (wait_for_completion b 256) of
          None \<Rightarrow> 1
        | Some c \<Rightarrow> if rc_rollout_id c \<noteq> 7 \<or> rc_status c \<noteq> RTL_STATUS_DONE \<or> rc_final_seq_len c \<noteq> 10 \<or> rc_reward_id c \<noteq> 3
                     then 1 else 0)"

definition run_reward_boundary :: "rl_runtime_top \<Rightarrow> int" where
  "run_reward_boundary powerup =
     (case submit_decode 8 0 64 4 0 0 0 0 (reset 5 (RtlRuntimeBridge powerup)) of (ok, b) \<Rightarrow>
        if \<not> ok then 1
        else case fst (wait_for_completion b 256) of
          None \<Rightarrow> 1
        | Some c \<Rightarrow> if rc_rollout_id c \<noteq> 8 \<or> rc_status c \<noteq> RTL_STATUS_REWARD_NEEDED \<or> rc_final_seq_len c \<noteq> 32
                     then 1 else 0)"

definition run_backpressure :: "rl_runtime_top \<Rightarrow> int" where
  "run_backpressure powerup =
     (case submit_decode 9 8 12 5 0 0 0 0 (reset 5 (RtlRuntimeBridge powerup)) of (ok, b) \<Rightarrow>
        if \<not> ok then 1
        else let b1 = set_completion_ready True ((tick ^^ 16) (set_completion_ready False b)) in
          case fst (wait_for_completion b1 256) of
            None \<Rightarrow> 1
          | Some c \<Rightarrow> if rc_rollout_id c \<noteq> 9 \<or> rc_status c \<noteq> RTL_STATUS_DONE \<or> rc_final_seq_len c \<noteq> 12 then 1 else 0)"

definition sim_main :: "rl_runtime_top \<Rightarrow> rl_runtime_top \<Rightarrow> rl_runtime_top \<Rightarrow> int" where
  "sim_main p1 p2 p3 =
     (if run_basic_decode p1 \<noteq> 0 then 1 else if run_reward_boundary p2 \<noteq> 0 then 1
      else if run_backpressure p3 \<noteq> 0 then 1 else 0)"

section \<open>Round trips\<close>

lemma bit_beyond:
  "8 \<le> n \<Longrightarrow> \<not> bit (a :: u8) n" "16 \<le> n \<Longrightarrow> \<not> bit (b :: u16) n" "32 \<le> n \<Longrightarrow> \<not> bit (c :: u32) n"
  by (auto dest: bit_imp_le_length)

lemma bit_bit_mask: "bit (bit_mask w) n \<longleftrightarrow> n < w \<and> n < 64"
proof (cases "w < 64")
  case True
  then have "bit_mask w = mask w" by (simp add: bit_mask_def mask_eq_exp_minus_1)
  then show ?thesis by (simp add: bit_mask_iff) auto
qed (auto simp: bit_mask_def bit_simps)

lemma bit_extract_bits: "bit (extract_bits v lsb w) n \<longleftrightarrow> n < w \<and> bit v (lsb + n)"
  by (auto simp: extract_bits_def bit_bit_mask bit_simps dest: bit_imp_le_length)

text \<open>The two overloads agree on a 64-bit value split into two words.\<close>

lemma extract_bits_overloads:
  assumes "lsb + w \<le> 64" "lsb < 64"
  shows "extract_bits_wide [ucast v, ucast (drop_bit 32 v)] lsb w = extract_bits v lsb w"
proof (rule bit_word_eqI)
  fix n :: nat
  assume "n < LENGTH(64)"
  then show "bit (extract_bits_wide [ucast v, ucast (drop_bit 32 v)] lsb w) n = bit (extract_bits v lsb w) n"
    using assms unfolding bit_extract_bits
    by (cases "lsb < 32") (auto simp: extract_bits_wide_def bit_bit_mask bit_simps nth_Cons' div_if mod_if not_less add.commute
        dest: bit_imp_le_length)
qed

lemma desc_bus_roundtrip: "desc_of_bus (bus_of_words (pack_desc d)) = d"
  by (cases d) (auto intro!: bit_word_eqI simp: desc_of_bus_def bus_of_words_def pack_desc_def bit_simps bit_beyond)

lemma completion_bus_roundtrip: "read_completion (bus_of_completion c) = c"
  by (cases c) (auto intro!: bit_word_eqI simp: read_completion_def bus_of_completion_def
      bit_extract_bits bit_simps bit_beyond)

text \<open>
  C37. The packing of the bridge matches the packed structures of the RTL: a descriptor packed into the
  six words of the bus is read back unchanged by the hardware, and a completion driven on the 56-bit
  bus is read back unchanged by the bridge.
\<close>

theorem bridge_packing_roundtrip:
  "desc_of_bus (bus_of_words (pack_desc d)) = d \<and> read_completion (bus_of_completion c) = c"
  by (simp add: desc_bus_roundtrip completion_bus_roundtrip)

section \<open>Progress\<close>

text \<open>An upper bound on the cycles until a completion is visible.\<close>

definition rtl_distance :: "rl_runtime_top \<Rightarrow> nat" where
  "rtl_distance t =
     (if sv_contents (rt_comp t) \<noteq> [] then 0
      else case fs_state (rt_fsm t) of S_IDLE \<Rightarrow> 34 | S_DECODE \<Rightarrow> 33 - unat (fs_tokens (rt_fsm t)) mod 32 | S_COMPLETE \<Rightarrow> 1)"

lemma rtl_distance_bound: "rtl_distance t \<le> 34"
  by (auto simp: rtl_distance_def intro: order_trans[OF diff_le_self] split: fsm_pc.split)

lemma rtl_distance_decreases:
  assumes wf: "top_wf t" and none: "sv_contents (rt_comp t) = []" and some: "rtl_pending t \<noteq> []"
  shows "rtl_distance (top_clk d valid ready t) < rtl_distance t"
proof (cases "fs_state (rt_fsm t)")
  case S_IDLE
  then have "\<not> sv_empty (rt_cmd t)" using none some by (simp add: rtl_pending_def held_def sv_empty_iff)
  then have "fs_state (rt_fsm (top_clk d valid ready t)) \<noteq> S_IDLE"
    using S_IDLE by (simp add: top_clk_def fsm_clk_def)
  then show ?thesis
    using S_IDLE none by (auto simp: rtl_distance_def split: fsm_pc.split)
next
  case S_DECODE
  let ?f = "rt_fsm (top_clk d valid ready t)" and ?t = "fs_tokens (rt_fsm t)"
  have "unat ?t mod 32 < 32" by simp
  moreover have "fs_state ?f = S_COMPLETE \<or>
      fs_state ?f = S_DECODE \<and> unat (fs_tokens ?f) mod 32 = Suc (unat ?t mod 32) \<and> Suc (unat ?t mod 32) < 32"
  proof (cases "(?t + 1) mod 32 = 0")
    case True
    then show ?thesis using S_DECODE by (simp add: top_clk_def fsm_clk_def)
  next
    case False
    then have ne: "unat (?t + 1) mod 32 \<noteq> 0" by (simp add: u16_mod32)
    then have "unat (?t + 1) = Suc (unat ?t)" by (auto simp: unat16_add1 split: if_splits)
    then have "unat (?t + 1) mod 32 = Suc (unat ?t mod 32) \<and> Suc (unat ?t mod 32) < 32"
      using ne by (auto simp: mod_Suc split: if_splits)
    then show ?thesis using S_DECODE by (simp add: top_clk_def fsm_clk_def)
  qed
  ultimately show ?thesis
    using S_DECODE none by (auto simp: rtl_distance_def)
next
  case S_COMPLETE
  have "sv_contents (rt_comp (top_clk d valid ready t)) \<noteq> []"
    using sv_clk_effect[of "rt_comp t" True "fs_comp (rt_fsm t)" ready] wf none S_COMPLETE
    by (simp add: top_wf_def top_clk_def)
  then show ?thesis using S_COMPLETE none by (simp add: rtl_distance_def)
qed

section \<open>The bridge as a queue\<close>

definition bridge_ok :: "bridge \<Rightarrow> bool" where
  "bridge_ok b \<longleftrightarrow> br_rst_n b \<and> \<not> br_desc_valid b \<and> top_wf (br_top b)"

definition outstanding :: "bridge \<Rightarrow> completion_t list" where
  "outstanding b = rtl_pending (br_top b)"

lemma tick_inputs [simp]:
  "br_rst_n (tick b) = br_rst_n b" "br_desc_valid (tick b) = br_desc_valid b" "br_comp_ready (tick b) = br_comp_ready b"
  "br_host_desc (tick b) = br_host_desc b"
  by (simp_all add: tick_def)

lemma tick_outstanding:
  assumes "bridge_ok b"
  shows "bridge_ok (tick b) \<and> outstanding (tick b) =
    (if br_comp_ready b \<and> host_comp_valid b then tl (outstanding b) else outstanding b)"
  using assms top_clk_pending[of "br_top b"]
  by (simp add: bridge_ok_def outstanding_def tick_def host_comp_valid_def sv_empty_iff)

lemma outstanding_hd:
  assumes "host_comp_valid b"
  shows "outstanding b = sv_front (rt_comp (br_top b)) # tl (outstanding b)"
  using assms sv_front_hd[of "rt_comp (br_top b)"]
  by (cases "sv_contents (rt_comp (br_top b))")
    (simp_all add: host_comp_valid_def sv_empty_iff outstanding_def rtl_pending_def)

lemma wait_polls_returns:
  assumes "bridge_ok b" "br_comp_ready b" "outstanding b = c # cs" "rtl_distance (br_top b) < n"
  shows "\<exists>b'. wait_polls n b = (Some c, b') \<and> bridge_ok b' \<and> outstanding b' = cs"
  using assms
proof (induction n arbitrary: b)
  case (Suc n)
  show ?case
  proof (cases "host_comp_valid b")
    case True
    then have "c = sv_front (rt_comp (br_top b))" using outstanding_hd[OF True] Suc.prems(3) by simp
    then show ?thesis
      using True Suc.prems tick_outstanding[OF Suc.prems(1)] desc_bus_roundtrip completion_bus_roundtrip
      by (simp add: poll_completion_def)
  next
    case False
    have "rtl_distance (br_top (tick b)) < rtl_distance (br_top b)"
      using Suc.prems(1,3) False rtl_distance_decreases[of "br_top b"]
      by (simp add: tick_def bridge_ok_def outstanding_def host_comp_valid_def sv_empty_iff)
    then have "\<exists>b'. wait_polls n (tick b) = (Some c, b') \<and> bridge_ok b' \<and> outstanding b' = cs"
      using Suc tick_outstanding[OF Suc.prems(1)] False by simp
    then show ?thesis using False by (simp add: poll_completion_def)
  qed
qed simp

lemma wait_polls_empty:
  assumes "bridge_ok b" "outstanding b = []"
  shows "\<exists>b'. wait_polls n b = (None, b') \<and> bridge_ok b' \<and> outstanding b' = []"
  using assms
proof (induction n arbitrary: b)
  case (Suc n)
  then have "\<not> host_comp_valid b"
    by (auto simp: outstanding_def rtl_pending_def host_comp_valid_def sv_empty_iff)
  then show ?case using Suc tick_outstanding[OF Suc.prems(1)] by (simp add: poll_completion_def)
qed simp

lemma wait_ready_outstanding:
  assumes "bridge_ok b" "\<not> br_comp_ready b"
  shows "bridge_ok (wait_ready n b) \<and> outstanding (wait_ready n b) = outstanding b \<and>
    \<not> br_comp_ready (wait_ready n b) \<and> br_host_desc (wait_ready n b) = br_host_desc b \<and>
    (host_desc_ready b \<longrightarrow> wait_ready n b = b)"
  using assms
proof (induction n arbitrary: b)
  case (Suc n)
  then show ?case using tick_outstanding[OF Suc.prems(1)] by simp
qed simp

lemma submit_desc_outstanding:
  assumes "bridge_ok b" "\<not> br_comp_ready b" "submit_desc d b = (ok, b')"
  shows "bridge_ok b' \<and> \<not> br_comp_ready b' \<and> outstanding b' = outstanding b @ (if ok then [rtl_result d] else []) \<and>
    (host_desc_ready b \<longrightarrow> ok)"
proof -
  let ?b1 = "wait_ready 16 (b\<lparr>br_host_desc := pack_desc d\<rparr>)"
  have b0: "bridge_ok (b\<lparr>br_host_desc := pack_desc d\<rparr>)" "\<not> br_comp_ready (b\<lparr>br_host_desc := pack_desc d\<rparr>)"
    "host_desc_ready (b\<lparr>br_host_desc := pack_desc d\<rparr>) = host_desc_ready b"
    using assms by (simp_all add: bridge_ok_def host_desc_ready_def)
  have b1: "bridge_ok ?b1" "outstanding ?b1 = outstanding b" "\<not> br_comp_ready ?b1" "br_host_desc ?b1 = pack_desc d"
    "host_desc_ready b \<longrightarrow> ?b1 = b\<lparr>br_host_desc := pack_desc d\<rparr>"
    using wait_ready_outstanding[OF b0(1,2), of 16] b0(3) by (simp_all add: outstanding_def)
  show ?thesis
  proof (cases "host_desc_ready ?b1")
    case False
    then show ?thesis using assms(3) b0(3) b1 by (auto simp: submit_desc_def)
  next
    case True
    let ?b2 = "(tick (?b1\<lparr>br_desc_valid := True, br_doorbell := True\<rparr>))\<lparr>br_desc_valid := False, br_doorbell := False\<rparr>"
    have "submit_desc d b = (True, ?b2)" using True by (simp add: submit_desc_def)
    then have "ok" "b' = ?b2" using assms(3) by simp_all
    moreover have "outstanding ?b2 = outstanding b @ [rtl_result d]" "bridge_ok ?b2"
      using b1 True top_clk_pending[of "br_top ?b1" d True False] desc_bus_roundtrip completion_bus_roundtrip
      by (simp_all add: outstanding_def tick_def bridge_ok_def host_desc_ready_def)
    ultimately show ?thesis using b1(3) by simp
  qed
qed

lemma submit_decode_desc:
  "submit_decode r s m w k p o1 o2 b = submit_desc (decode_desc r s m w k p o1 o2) b"
proof -
  have "\<not> 0xFFFF < (x :: u16)" for x using unat16_lt[of x] by (simp add: word_less_nat_alt)
  moreover have "\<not> 0xFFFFFFFF < (y :: u32)" for y using unat_lt32[of y] by (simp add: word_less_nat_alt)
  ultimately show ?thesis by (simp add: submit_decode_def)
qed

lemma reset_ticks:
  "\<not> br_rst_n b \<Longrightarrow> br_top ((tick ^^ Suc n) b) = top_reset (br_top b) \<and> \<not> br_rst_n ((tick ^^ Suc n) b) \<and>
     br_desc_valid ((tick ^^ Suc n) b) = br_desc_valid b \<and> br_comp_ready ((tick ^^ Suc n) b) = br_comp_ready b"
proof (induction n)
  case (Suc n)
  have "br_top (tick b') = top_reset (br_top b')" if "\<not> br_rst_n b'" for b' using that by (simp add: tick_def)
  moreover have "top_reset (top_reset t) = top_reset t" for t by (simp add: top_reset_def sv_reset_def fsm_reset_def)
  moreover have "(tick ^^ Suc (Suc n)) b = tick ((tick ^^ Suc n) b)" by simp
  ultimately show ?case using Suc.IH[OF Suc.prems] by (simp del: funpow.simps)
qed (simp add: tick_def)

lemma reset_ok:
  assumes "length (sr_mem (rt_cmd (br_top b))) = 16" "length (sr_mem (rt_comp (br_top b))) = 16"
  shows "bridge_ok (reset (Suc n) b) \<and> outstanding (reset (Suc n) b) = [] \<and> \<not> br_comp_ready (reset (Suc n) b) \<and>
    host_desc_ready (reset (Suc n) b)"
proof -
  let ?b1 = "b\<lparr>br_rst_n := False, br_desc_valid := False, br_comp_ready := False, br_doorbell := False\<rparr>"
  let ?b2 = "((tick ^^ Suc n) ?b1)\<lparr>br_rst_n := True\<rparr>"
  have "br_top ?b2 = top_reset (br_top b)" "br_rst_n ?b2" "\<not> br_desc_valid ?b2" "\<not> br_comp_ready ?b2"
    using reset_ticks[of ?b1 n] by (simp_all del: funpow.simps)
  then have b2: "bridge_ok ?b2" "outstanding ?b2 = []" "\<not> br_comp_ready ?b2"
    using top_reset_empty[OF assms] by (simp_all add: bridge_ok_def outstanding_def del: funpow.simps)
  have r: "reset (Suc n) b = tick ?b2" by (simp add: reset_def del: funpow.simps)
  have t: "bridge_ok (tick ?b2)" "outstanding (tick ?b2) = []" using tick_outstanding[OF b2(1)] b2(2,3) by simp_all
  then have "host_desc_ready (tick ?b2)"
    using sv_full_iff[of "rt_cmd (br_top (tick ?b2))"]
    by (auto simp: host_desc_ready_def bridge_ok_def outstanding_def rtl_pending_def top_wf_def)
  then show ?thesis unfolding r using t b2(3) by (simp del: funpow.simps)
qed

lemma wait_for_completion_returns:
  assumes "bridge_ok b" "outstanding b = c # cs" "34 < n"
  shows "\<exists>b'. wait_for_completion b n = (Some c, b') \<and> bridge_ok b' \<and> outstanding b' = cs \<and> \<not> br_comp_ready b'"
proof -
  have "bridge_ok (set_completion_ready True b)" "br_comp_ready (set_completion_ready True b)"
    "outstanding (set_completion_ready True b) = c # cs" "rtl_distance (br_top (set_completion_ready True b)) < n"
    using assms rtl_distance_bound[of "br_top b"]
    by (simp_all add: bridge_ok_def set_completion_ready_def outstanding_def)
  from wait_polls_returns[OF this] show ?thesis
    by (auto simp: wait_for_completion_def set_completion_ready_def bridge_ok_def outstanding_def)
qed

section \<open>Properties\<close>

text \<open>
  C14. The bridge is a queue of decode requests whose answers always arrive. Out of reset with the host
  not ready: a submission that returns true has appended its descriptor, one that returns false has
  changed nothing, and it returns true when the command ring has room; waiting at least 35 cycles
  returns the result of the oldest outstanding descriptor and removes exactly that one.
\<close>

theorem bridge_queue:
  assumes "bridge_ok b" and "\<not> br_comp_ready b"
    and "submit_decode r s m w k p o1 o2 b = (ok, b')"
    and "outstanding b' = c # cs" and "35 \<le> n"
  shows "outstanding b' = outstanding b @ (if ok then [rtl_result (decode_desc r s m w k p o1 o2)] else []) \<and>
    (host_desc_ready b \<longrightarrow> ok) \<and>
    (\<exists>b''. wait_for_completion b' n = (Some c, b'') \<and> outstanding b'' = cs \<and> bridge_ok b'' \<and> \<not> br_comp_ready b'')"
proof -
  have "submit_desc (decode_desc r s m w k p o1 o2) b = (ok, b')" using assms(3) by (simp add: submit_decode_desc)
  note sub = submit_desc_outstanding[OF assms(1,2) this]
  then have "bridge_ok b'" by simp
  moreover have "34 < n" using assms(5) by simp
  ultimately show ?thesis using wait_for_completion_returns[OF _ assms(4)] sub by blast
qed

lemma scenario:
  assumes "length (sr_mem (rt_cmd p)) = 16" "length (sr_mem (rt_comp p)) = 16"
  obtains b where "submit_decode r s m w 0 0 0 0 (reset 5 (RtlRuntimeBridge p)) = (True, b)" "bridge_ok b"
    "\<not> br_comp_ready b" "outstanding b = [rtl_result (decode_desc r s m w 0 0 0 0)]"
proof -
  have "length (sr_mem (rt_cmd (br_top (RtlRuntimeBridge p)))) = 16" "length (sr_mem (rt_comp (br_top (RtlRuntimeBridge p)))) = 16"
    using assms by (simp_all add: RtlRuntimeBridge_def)
  from reset_ok[OF this, of 4] have r: "bridge_ok (reset 5 (RtlRuntimeBridge p))" "outstanding (reset 5 (RtlRuntimeBridge p)) = []"
    "\<not> br_comp_ready (reset 5 (RtlRuntimeBridge p))" "host_desc_ready (reset 5 (RtlRuntimeBridge p))"
    by (simp_all add: numeral_eq_Suc)
  obtain ok b where "submit_decode r s m w 0 0 0 0 (reset 5 (RtlRuntimeBridge p)) = (ok, b)" by fastforce
  with submit_desc_outstanding[OF r(1,3), of "decode_desc r s m w 0 0 0 0" ok b] r(2,4) that show ?thesis
    by (simp add: submit_decode_desc)
qed

lemma ticks_held:
  "bridge_ok b \<Longrightarrow> \<not> br_comp_ready b \<Longrightarrow> bridge_ok ((tick ^^ n) b) \<and> outstanding ((tick ^^ n) b) = outstanding b \<and>
     \<not> br_comp_ready ((tick ^^ n) b)"
  by (induction n) (simp_all add: tick_outstanding)

lemma decode_result:
  assumes "s < m"
  defines "stop \<equiv> min (unat m) (32 * (unat s div 32 + 1))"
  shows "rc_rollout_id (rtl_result (decode_desc r s m w k p o1 o2)) = r"
    "rc_status (rtl_result (decode_desc r s m w k p o1 o2)) = (if stop = unat m then RTL_STATUS_DONE else RTL_STATUS_REWARD_NEEDED)"
    "rc_final_seq_len (rtl_result (decode_desc r s m w k p o1 o2)) = of_nat stop"
    "rc_reward_id (rtl_result (decode_desc r s m w k p o1 o2)) = w"
  using rtl_decode_closed[of s "decode_desc r s m w k p o1 o2"] assms
  by (simp_all add: rtl_result_def decode_desc_def completion_with_def rtl_consts)

text \<open>
  The co-simulation driver passes: whatever the registers hold at power-up, its three scenarios,
  the budget, the reward boundary and the back-pressured completion, return 0 and so does \<open>main\<close>.
\<close>

theorem sim_main_passes:
  assumes "length (sr_mem (rt_cmd p1)) = 16" "length (sr_mem (rt_comp p1)) = 16"
    and "length (sr_mem (rt_cmd p2)) = 16" "length (sr_mem (rt_comp p2)) = 16"
    and "length (sr_mem (rt_cmd p3)) = 16" "length (sr_mem (rt_comp p3)) = 16"
  shows "sim_main p1 p2 p3 = 0"
proof -
  have "run_basic_decode p1 = 0"
  proof -
    obtain b where b: "submit_decode 7 0 10 3 0 0 0 0 (reset 5 (RtlRuntimeBridge p1)) = (True, b)" "bridge_ok b"
      "\<not> br_comp_ready b" "outstanding b = [rtl_result (decode_desc 7 0 10 3 0 0 0 0)]"
      using scenario[OF assms(1,2)] by blast
    from wait_for_completion_returns[OF b(2,4), of 256] b(1) show ?thesis
      by (auto simp: run_basic_decode_def decode_result)
  qed
  moreover have "run_reward_boundary p2 = 0"
  proof -
    obtain b where b: "submit_decode 8 0 64 4 0 0 0 0 (reset 5 (RtlRuntimeBridge p2)) = (True, b)" "bridge_ok b"
      "\<not> br_comp_ready b" "outstanding b = [rtl_result (decode_desc 8 0 64 4 0 0 0 0)]"
      using scenario[OF assms(3,4)] by blast
    from wait_for_completion_returns[OF b(2,4), of 256] b(1) show ?thesis
      by (auto simp: run_reward_boundary_def decode_result)
  qed
  moreover have "run_backpressure p3 = 0"
  proof -
    obtain b where b: "submit_decode 9 8 12 5 0 0 0 0 (reset 5 (RtlRuntimeBridge p3)) = (True, b)" "bridge_ok b"
      "\<not> br_comp_ready b" "outstanding b = [rtl_result (decode_desc 9 8 12 5 0 0 0 0)]"
      using scenario[OF assms(5,6)] by blast
    have "bridge_ok (set_completion_ready False b)" "\<not> br_comp_ready (set_completion_ready False b)"
      "outstanding (set_completion_ready False b) = outstanding b"
      using b(2) by (simp_all add: set_completion_ready_def bridge_ok_def outstanding_def)
    with ticks_held[of "set_completion_ready False b" 16] b(4)
    have "bridge_ok (set_completion_ready True ((tick ^^ 16) (set_completion_ready False b)))"
      "outstanding (set_completion_ready True ((tick ^^ 16) (set_completion_ready False b))) =
        [rtl_result (decode_desc 9 8 12 5 0 0 0 0)]"
      by (simp_all add: set_completion_ready_def bridge_ok_def outstanding_def)
    from wait_for_completion_returns[OF this, of 256] b(1) show ?thesis
      by (auto simp: run_backpressure_def decode_result)
  qed
  ultimately show ?thesis by (simp add: sim_main_def)
qed

theorem sim_main_passes_witness: "sim_main rtl_blank rtl_blank rtl_blank = 0"
  by (rule sim_main_passes) (simp_all add: rtl_blank_def)

theorem bridge_queue_witness:
  "\<exists>b'. outstanding b' = [rtl_result (decode_desc 7 0 10 3 0 0 0 0)] \<and>
     fst (wait_for_completion b' 256) = Some (rtl_result (decode_desc 7 0 10 3 0 0 0 0))"
proof -
  have lens: "length (sr_mem (rt_cmd (br_top (RtlRuntimeBridge rtl_blank)))) = 16"
    "length (sr_mem (rt_comp (br_top (RtlRuntimeBridge rtl_blank)))) = 16"
    by (simp_all add: RtlRuntimeBridge_def rtl_blank_def)
  note r = reset_ok[OF lens, of 4]
  obtain ok b' where sub: "submit_decode 7 0 10 3 0 0 0 0 (reset (Suc 4) (RtlRuntimeBridge rtl_blank)) = (ok, b')"
    by fastforce
  have sub': "submit_desc (decode_desc 7 0 10 3 0 0 0 0) (reset (Suc 4) (RtlRuntimeBridge rtl_blank)) = (ok, b')"
    using sub by (simp only: submit_decode_desc)
  have out: "outstanding b' = [rtl_result (decode_desc 7 0 10 3 0 0 0 0)]"
    using submit_desc_outstanding[OF _ _ sub'] r by simp
  have "\<exists>b''. wait_for_completion b' 256 = (Some (rtl_result (decode_desc 7 0 10 3 0 0 0 0)), b'')"
    using bridge_queue[OF _ _ sub out, of 256] r by auto
  then show ?thesis using out by auto
qed

end
