(* ===== verification/Bench_Pipeline.thy ===== *)
theory Bench_Pipeline
  imports Pipeline Reward_Ring Metrics_Guard Gpu_Worker
begin

text \<open>
  The pipeline benchmark, \<^verbatim>\<open>bench/bench_pipeline.cu\<close>: it takes rollouts from the slab through the
  queues of the pipeline, dispatches their decode steps to the device in batches, hands them to
  the reward ring and waits for the completions. The device is the decode worker of \<open>Gpu_Worker\<close>:
  before every access of the host to one of the shared rings it makes some number of steps. Loops
  that depend on the device return \<open>None\<close> when they do not end.
\<close>

section \<open>State\<close>

text \<open>
  Of the context the parts that the loops use. \<open>bx_dev\<close> holds the two shared rings and the state of
  the kernel; \<open>bx_clock\<close> numbers the accesses to the rings.
\<close>

record 'f BenchContext =
  bx_pipeline :: RolloutPipeline
  bx_metrics :: RuntimeMetrics
  bx_hp_guard :: HotpathGuard
  bx_reward_ring :: RewardRing
  bx_dev :: "'f worker_state"
  bx_clock :: nat

text \<open>
  What the benchmark meets: the kernel's environment, the steps the device makes before each
  access, the return codes of the two slot preparations, the float of a mock score, the number of
  io slots and the contents of an uninitialised batch.
\<close>

record 'f bench_env =
  be_worker :: "'f worker_env"
  be_gpu :: "nat \<Rightarrow> nat"
  be_prepare_state :: "u32 \<Rightarrow> u32 \<Rightarrow> u32 \<Rightarrow> int"
  be_prepare_query :: "u32 \<Rightarrow> int"
  be_score :: "u32 \<Rightarrow> f32_bits"
  be_io_slots :: u32
  be_junk :: "nat \<Rightarrow> DecodeDispatchBatch"

definition DECODE_BATCH_LIMIT :: u32 where "DECODE_BATCH_LIMIT = 32"

definition gpu_runs :: "'f bench_env \<Rightarrow> ('f, 'z) BenchContext_scheme \<Rightarrow> ('f, 'z) BenchContext_scheme" where
  "gpu_runs env c = c\<lparr>bx_dev := (decode_worker_tick (be_worker env) ^^ be_gpu env (bx_clock c)) (bx_dev c),
     bx_clock := Suc (bx_clock c)\<rparr>"

abbreviation set_metrics :: "(RuntimeMetrics \<Rightarrow> RuntimeMetrics) \<Rightarrow> ('f, 'z) BenchContext_scheme \<Rightarrow> ('f, 'z) BenchContext_scheme" where
  "set_metrics f c \<equiv> c\<lparr>bx_metrics := f (bx_metrics c)\<rparr>"

abbreviation set_pipeline :: "(RolloutPipeline \<Rightarrow> RolloutPipeline) \<Rightarrow> ('f, 'z) BenchContext_scheme \<Rightarrow> ('f, 'z) BenchContext_scheme" where
  "set_pipeline f c \<equiv> c\<lparr>bx_pipeline := f (bx_pipeline c)\<rparr>"

definition inc_consumed :: "RuntimeMetrics \<Rightarrow> RuntimeMetrics" where
  "inc_consumed m = m\<lparr>me_descriptors_consumed := me_descriptors_consumed m + 1\<rparr>"

definition inc_ring_full_spins :: "RuntimeMetrics \<Rightarrow> RuntimeMetrics" where
  "inc_ring_full_spins m = m\<lparr>me_ring_full_spins := me_ring_full_spins m + 1\<rparr>"

definition inc_pipeline_overflow :: "RuntimeMetrics \<Rightarrow> RuntimeMetrics" where
  "inc_pipeline_overflow m = m\<lparr>me_pipeline_overflow := me_pipeline_overflow m + 1\<rparr>"

definition add_posted :: "u32 \<Rightarrow> RuntimeMetrics \<Rightarrow> RuntimeMetrics" where
  "add_posted n m = m\<lparr>me_descriptors_posted := me_descriptors_posted m + ucast n\<rparr>"

section \<open>Completions and dispatch\<close>

definition bench_poll :: "'f bench_env \<Rightarrow> ('f, 'z) BenchContext_scheme \<Rightarrow> Completion option \<times> ('f, 'z) BenchContext_scheme" where
  "bench_poll env c =
     (let c = gpu_runs env c in
      case comp_ring_poll (ws_comp (bx_dev c)) of (rc, out, cr) \<Rightarrow>
        (if rc = 0 then None else out, c\<lparr>bx_dev := (bx_dev c)\<lparr>ws_comp := cr\<rparr>\<rparr>))"

partial_function (option) drain_loop :: "'f bench_env \<Rightarrow> int \<Rightarrow> ('f, 'z) BenchContext_scheme \<Rightarrow> (int \<times> ('f, 'z) BenchContext_scheme) option" where
  "drain_loop env n c =
     (case bench_poll env c of
        (None, c1) \<Rightarrow> Some (n, c1)
      | (Some x, c1) \<Rightarrow> drain_loop env (n + 1) (set_metrics inc_consumed c1))"

definition drain_completions :: "'f bench_env \<Rightarrow> ('f, 'z) BenchContext_scheme \<Rightarrow> (int \<times> ('f, 'z) BenchContext_scheme) option" where
  "drain_completions env c = drain_loop env 0 c"

definition window_desc :: "u32 \<Rightarrow> u32 \<Rightarrow> u32 \<Rightarrow> Descriptor" where
  "window_desc rollout_id kv_block step =
     \<lparr>ds_seq_id = ucast rollout_id, ds_kv_block_offset = kv_block, ds_num_kv_blocks = 1,
      ds_attention_flags = 0, ds_pad = 0, ds_output_token_offset = step,
      ds_reward_cookie = push_bit 32 (ucast rollout_id) OR ucast step, ds_batch_size = 0, ds_batch_index = 0\<rparr>"

lemma decode_batch_push_count:
  assumes "decode_batch_push (Some b) (Some d) = (0, Some b')"
  shows "32 - unat (db_count b') < 32 - unat (db_count b)"
proof -
  have "unat (db_count b) < 32" "db_count b' = db_count b + 1"
    using assms by (auto simp: decode_batch_push_def DECODE_DESCRIPTOR_BATCH_LIMIT_def word_le_nat_alt split: if_splits)
  then show ?thesis using unat_add1[of "db_count b"] by simp
qed

function fill_window :: "'f bench_env \<Rightarrow> u32 \<Rightarrow> u32 \<Rightarrow> u32 \<Rightarrow> u32 \<Rightarrow> DecodeDispatchBatch \<Rightarrow> DecodeDispatchBatch option" where
  "fill_window env rollout_id step_start step_count kv_block_base batch =
     (if db_count batch < step_count then
        let step = step_start + db_count batch;
            kv_block = (kv_block_base + db_count batch) mod 128;
            slot = step AND (be_io_slots env - 1) in
        if be_prepare_state env rollout_id step slot \<noteq> 0 then None
        else if be_prepare_query env slot \<noteq> 0 then None
        else (case decode_batch_push (Some batch) (Some (window_desc rollout_id kv_block step)) of
                (rc, Some batch1) \<Rightarrow>
                  if rc \<noteq> 0 then None
                  else fill_window env rollout_id step_start step_count kv_block_base batch1
              | (rc, None) \<Rightarrow> None)
      else Some batch)"
  by pat_completeness auto
termination
proof (relation "measure (\<lambda>(env, r, s, n, kv, b). 32 - unat (db_count b))", goal_cases)
  case 2
  then show ?case
    using decode_batch_push_count by fastforce
qed simp

declare fill_window.simps [simp del]

text \<open>One submission to the shared ring.\<close>

definition bench_submit :: "'f bench_env \<Rightarrow> DecodeDispatchBatch \<Rightarrow> ('f, 'z) BenchContext_scheme \<Rightarrow> int \<times> ('f, 'z) BenchContext_scheme" where
  "bench_submit env batch c =
     (let c = gpu_runs env c in
      case decode_batch_submit (Some (ws_ring (bx_dev c))) (Some batch) of (rc, ring) \<Rightarrow>
        (rc, c\<lparr>bx_dev := (bx_dev c)\<lparr>ws_ring := the ring\<rparr>\<rparr>))"

definition dispatch_decode_window ::
  "'f bench_env \<Rightarrow> u32 \<Rightarrow> u32 \<Rightarrow> u32 \<Rightarrow> u32 \<Rightarrow> ('f, 'z) BenchContext_scheme \<Rightarrow> (int \<times> ('f, 'z) BenchContext_scheme) option" where
  "dispatch_decode_window env rollout_id step_start step_count kv_block_base c =
     (let batch = the (decode_batch_reset (Some (be_junk env (bx_clock c))));
          step_count = (if step_count > DECODE_DESCRIPTOR_BATCH_LIMIT then DECODE_DESCRIPTOR_BATCH_LIMIT else step_count) in
      case fill_window env rollout_id step_start step_count kv_block_base batch of
        None \<Rightarrow> Some (-1, c)
      | Some batch \<Rightarrow>
          (case bench_submit env batch c of (rc, c) \<Rightarrow>
             if rc \<noteq> 0 then
               (case drain_loop env 0 (set_metrics inc_ring_full_spins c) of
                  None \<Rightarrow> None
                | Some (_, c) \<Rightarrow>
                    (case bench_submit env batch c of (rc, c) \<Rightarrow>
                       if rc \<noteq> 0 then Some (-1, c)
                       else Some (0, set_metrics (add_posted (db_count batch)) c)))
             else Some (0, set_metrics (add_posted (db_count batch)) c)))"

section \<open>Scheduling\<close>

text \<open>
  The peak is raised by a compare-and-swap loop; the benchmark is its only writer, so the first
  exchange succeeds.
\<close>

definition note_decode_batch_metrics :: "u32 \<Rightarrow> RuntimeMetrics \<Rightarrow> RuntimeMetrics" where
  "note_decode_batch_metrics batch_size m =
     (let m = m\<lparr>me_decode_batches := me_decode_batches m + 1\<rparr>;
          m = m\<lparr>me_decode_rollouts_scheduled := me_decode_rollouts_scheduled m + ucast batch_size\<rparr>;
          peak = me_decode_batch_peak m
      in if peak < ucast batch_size then m\<lparr>me_decode_batch_peak := ucast batch_size\<rparr> else m)"

definition reward_of_rollout :: "'f bench_env \<Rightarrow> u32 \<Rightarrow> u32 \<Rightarrow> RewardDesc" where
  "reward_of_rollout env rid tokens =
     \<lparr>rd_rollout_id = rid, rd_token_start = 0, rd_token_count = tokens, rd_reward_model_id = 0,
      rd_reward = be_score env (reward_score_numerator tokens), rd_flags = 0\<rparr>"

text \<open>\<open>rollout_transition\<close> through the pointer that \<open>rollout_get\<close> returned writes the slab.\<close>

abbreviation step_rollout :: "u32 \<Rightarrow> rollout_state_t \<Rightarrow> rollout_state_t \<Rightarrow> RolloutPipeline \<Rightarrow> RolloutPipeline" where
  "step_rollout rid from to p \<equiv> snd (pipeline_transition p rid from to)"

abbreviation enqueue :: "pipeline_q_t \<Rightarrow> u32 \<Rightarrow> RolloutPipeline \<Rightarrow> RolloutPipeline" where
  "enqueue q rid p \<equiv> snd (pipeline_push p q rid)"

definition finish_rollout :: "'f bench_env \<Rightarrow> u32 \<Rightarrow> u32 \<Rightarrow> ('f, 'z) BenchContext_scheme \<Rightarrow> ('f, 'z) BenchContext_scheme" where
  "finish_rollout env rid tokens c =
     (if rollout_get (pl_slab (bx_pipeline c)) rid = None then c
      else
        let c = set_pipeline (enqueue Q_REWARD rid \<circ> step_rollout rid ROLL_DECODING ROLL_REWARD_PENDING) c;
            c = c\<lparr>bx_reward_ring := snd (reward_push (bx_reward_ring c) (reward_of_rollout env rid tokens))\<rparr>;
            c = set_metrics (\<lambda>m. m\<lparr>me_reward_handoffs := me_reward_handoffs m + 1\<rparr>) c;
            c = set_pipeline (enqueue Q_TRAJECTORY rid \<circ> step_rollout rid ROLL_REWARD_PENDING ROLL_TRAJECTORY_READY) c;
            c = set_pipeline (enqueue Q_DONE rid \<circ> step_rollout rid ROLL_TRAJECTORY_READY ROLL_DONE) c;
            c = set_metrics (\<lambda>m. m\<lparr>me_rollouts_completed := me_rollouts_completed m + 1\<rparr>) c
        in set_pipeline (\<lambda>p. p\<lparr>pl_slab := rollout_free (pl_slab p) rid\<rparr>) c)"

partial_function (option) window_loop ::
  "'f bench_env \<Rightarrow> u32 \<Rightarrow> u32 \<Rightarrow> u32 \<Rightarrow> int \<Rightarrow> ('f, 'z) BenchContext_scheme \<Rightarrow> ('f, 'z) BenchContext_scheme option" where
  "window_loop env rid tokens t kv_block c =
     (if t < tokens then
        (let window = (if tokens - t > DECODE_DESCRIPTOR_BATCH_LIMIT then DECODE_DESCRIPTOR_BATCH_LIMIT else tokens - t) in
         case dispatch_decode_window env rid t window (word_of_int kv_block) c of
           None \<Rightarrow> None
         | Some (rc, c) \<Rightarrow>
             if rc \<noteq> 0 then Some (set_metrics inc_pipeline_overflow c)
             else window_loop env rid tokens (t + DECODE_DESCRIPTOR_BATCH_LIMIT) (c_rem (kv_block + uint window) 128) c)
      else Some c)"

fun schedule_ids :: "nat \<Rightarrow> RolloutPipeline \<Rightarrow> u32 list \<times> RolloutPipeline" where
  "schedule_ids 0 p = ([], p)"
| "schedule_ids (Suc n) p =
     (case pipeline_schedule p Q_DECODE of (rc, out, p1) \<Rightarrow>
        (case out of
           Some rid \<Rightarrow> if rc \<noteq> 0 then ([], p1) else (case schedule_ids n p1 of (ids, p2) \<Rightarrow> (rid # ids, p2))
         | None \<Rightarrow> ([], p1)))"

fun run_rollouts :: "'f bench_env \<Rightarrow> u32 \<Rightarrow> u32 list \<Rightarrow> ('f, 'z) BenchContext_scheme \<Rightarrow> ('f, 'z) BenchContext_scheme option" where
  "run_rollouts env tokens [] c = Some c"
| "run_rollouts env tokens (rid # ids) c =
     (case window_loop env rid tokens 0 (uint (rid mod 128)) c of
        None \<Rightarrow> None
      | Some c \<Rightarrow> run_rollouts env tokens ids (finish_rollout env rid tokens c))"

definition schedule_decode_batches :: "'f bench_env \<Rightarrow> u32 \<Rightarrow> u32 \<Rightarrow> ('f, 'z) BenchContext_scheme \<Rightarrow> (int \<times> ('f, 'z) BenchContext_scheme) option" where
  "schedule_decode_batches env batch_max tokens c =
     (let batch = pipeline_stage_target_batch (bx_pipeline c) Q_DECODE batch_max;
          batch = (if batch > DECODE_BATCH_LIMIT then DECODE_BATCH_LIMIT else batch) in
      if batch = 0 then Some (0, c)
      else case schedule_ids (unat batch) (bx_pipeline c) of (ids, p) \<Rightarrow>
        let c = c\<lparr>bx_pipeline := p\<rparr>; launched = of_nat (length ids) in
        if launched = (0 :: u32) then Some (0, c)
        else (case run_rollouts env tokens ids (set_metrics (note_decode_batch_metrics launched) c) of
                None \<Rightarrow> None
              | Some c \<Rightarrow> Some (uint launched, set_pipeline (\<lambda>p. pipeline_release p Q_DECODE launched) c)))"

section \<open>The main loop\<close>

partial_function (option) admit_loop ::
  "'f bench_env \<Rightarrow> u32 \<Rightarrow> u32 \<Rightarrow> ('f, 'z) BenchContext_scheme \<Rightarrow> (bool \<times> ('f, 'z) BenchContext_scheme) option" where
  "admit_loop env tokens rid c =
     (case pipeline_try_push (bx_pipeline c) Q_DECODE rid of (rc, p) \<Rightarrow>
        if rc = 0 then Some (True, c\<lparr>bx_pipeline := p\<rparr>)
        else (case schedule_decode_batches env DECODE_BATCH_LIMIT tokens (c\<lparr>bx_pipeline := p\<rparr>) of
                None \<Rightarrow> None
              | Some (n, c) \<Rightarrow>
                  if n = 0 then Some (False, set_metrics inc_pipeline_overflow c)
                  else admit_loop env tokens rid c))"

definition start_rollout :: "u32 \<Rightarrow> int \<Rightarrow> u32 \<Rightarrow> RolloutPipeline \<Rightarrow> RolloutPipeline" where
  "start_rollout tokens r rid p =
     (let slab = pl_slab p; ro = sl_slots slab ! unat rid;
          p = p\<lparr>pl_slab := slab\<lparr>sl_slots := (sl_slots slab)[unat rid :=
                ro\<lparr>ro_max_tokens := tokens, ro_rng_seed := word_of_int (42 + r)\<rparr>]\<rparr>\<rparr>;
          p = enqueue Q_PREFILL rid (step_rollout rid ROLL_FREE ROLL_PREFILL_READY p)
      in step_rollout rid ROLL_PREFILL_READY ROLL_DECODING p)"

partial_function (option) rollout_loop ::
  "'f bench_env \<Rightarrow> u32 \<Rightarrow> int \<Rightarrow> int \<Rightarrow> ('f, 'z) BenchContext_scheme \<Rightarrow> ('f, 'z) BenchContext_scheme option" where
  "rollout_loop env tokens n_rollouts r c =
     (if r < n_rollouts then
        (case rollout_alloc (pl_slab (bx_pipeline c)) of (rc, out, slab) \<Rightarrow>
           if rc \<noteq> 0 then Some c
           else
             let rid = the out;
                 c = set_pipeline (start_rollout tokens r rid) (set_pipeline (\<lambda>p. p\<lparr>pl_slab := slab\<rparr>) c) in
             case admit_loop env tokens rid c of
               None \<Rightarrow> None
             | Some (admitted, c) \<Rightarrow>
                 if \<not> admitted
                 then rollout_loop env tokens n_rollouts (r + 1) (set_pipeline (\<lambda>p. p\<lparr>pl_slab := rollout_free (pl_slab p) rid\<rparr>) c)
                 else if (word_of_int (r + 1) :: u32) mod DECODE_BATCH_LIMIT = 0
                 then (case schedule_decode_batches env DECODE_BATCH_LIMIT tokens c of
                         None \<Rightarrow> None
                       | Some (_, c) \<Rightarrow> rollout_loop env tokens n_rollouts (r + 1) c)
                 else rollout_loop env tokens n_rollouts (r + 1) c)
      else Some c)"

partial_function (option) flush_loop :: "'f bench_env \<Rightarrow> u32 \<Rightarrow> ('f, 'z) BenchContext_scheme \<Rightarrow> ('f, 'z) BenchContext_scheme option" where
  "flush_loop env tokens c =
     (if pipeline_occupancy (bx_pipeline c) Q_DECODE > 0
      then (case schedule_decode_batches env DECODE_BATCH_LIMIT tokens c of
              None \<Rightarrow> None
            | Some (_, c) \<Rightarrow> flush_loop env tokens c)
      else Some c)"

partial_function (option) comps_loop :: "'f bench_env \<Rightarrow> u64 \<Rightarrow> u64 \<Rightarrow> ('f, 'z) BenchContext_scheme \<Rightarrow> (u64 \<times> ('f, 'z) BenchContext_scheme) option" where
  "comps_loop env expected comps c =
     (if comps < expected
      then (case drain_completions env c of
              None \<Rightarrow> None
            | Some (n, c) \<Rightarrow> comps_loop env expected (comps + word_of_int n) c)
      else Some (comps, c))"

text \<open>
  The three numbers \<open>report_pipeline_window\<close> prints: occupancy, credit headroom (0 when unlimited) and
  suggested batch of the decode stage.
\<close>

definition report_pipeline_window :: "RolloutPipeline \<Rightarrow> u32 \<Rightarrow> u32 list" where
  "report_pipeline_window p max_decode_batch =
     (let snap = the (pipeline_snapshot (Some p) True);
          headroom = sn_stage_credit_headroom snap ! nat Q_DECODE
      in [sn_queue_occupancy snap ! nat Q_DECODE, if headroom = UINT32_MAX then 0 else headroom,
          pipeline_stage_target_batch p Q_DECODE max_decode_batch])"

text \<open>The part of \<open>main\<close> that admits, schedules and finishes the rollouts, and the whole timed section.\<close>

definition bench_rollouts :: "'f bench_env \<Rightarrow> int \<Rightarrow> int \<Rightarrow> ('f, 'z) BenchContext_scheme \<Rightarrow> ('f, 'z) BenchContext_scheme option" where
  "bench_rollouts env n_rollouts tokens c =
     (let c = set_pipeline (\<lambda>p. pipeline_credits_set p 256 128 128 1024) (c\<lparr>bx_hp_guard := hp_guard_activate (bx_hp_guard c)\<rparr>) in
      case rollout_loop env (word_of_int tokens) n_rollouts 0 c of
        None \<Rightarrow> None
      | Some c \<Rightarrow> flush_loop env (word_of_int tokens) c)"

definition bench_main :: "'f bench_env \<Rightarrow> int \<Rightarrow> int \<Rightarrow> ('f, 'z) BenchContext_scheme \<Rightarrow> (u64 \<times> ('f, 'z) BenchContext_scheme) option" where
  "bench_main env n_rollouts tokens c =
     (case bench_rollouts env n_rollouts tokens c of
        None \<Rightarrow> None
      | Some c \<Rightarrow>
          (case comps_loop env (me_descriptors_posted (bx_metrics c)) 0 c of
             None \<Rightarrow> None
           | Some (comps, c) \<Rightarrow>
               let c = c\<lparr>bx_hp_guard := hp_guard_deactivate (bx_hp_guard c)\<rparr> in
               Some (comps, set_metrics (\<lambda>m. m\<lparr>me_completion_overflow_attempts := ucast (cq_overflow (ws_comp (bx_dev c)))\<rparr>) c)))"

section \<open>The device beside the host\<close>

text \<open>
  \<open>host_inv\<close>: the descriptors sent and the completions polled so far account for the rings, and the
  counters, which start at zero, have not wrapped. \<open>tally\<close> are the metrics no ring access touches.
\<close>

definition host_inv :: "'f bench_env \<Rightarrow> ('f, 'z) BenchContext_scheme \<Rightarrow> Descriptor list \<Rightarrow> Completion list \<Rightarrow> bool" where
  "host_inv env c sent polled \<longleftrightarrow> dev_inv (be_worker env) sent (bx_dev c) polled \<and>
     unat (cr_tail (ws_ring (bx_dev c))) = length sent \<and> unat (cq_head (ws_comp (bx_dev c))) = length polled"

definition tally :: "RuntimeMetrics \<Rightarrow> u64 \<times> u64 \<times> u64 \<times> u64 \<times> u64" where
  "tally m = (me_reward_handoffs m, me_rollouts_completed m, me_decode_batches m,
     me_decode_rollouts_scheduled m, me_decode_batch_peak m)"

definition frame :: "('f, 'z) BenchContext_scheme \<Rightarrow> ('f, 'z) BenchContext_scheme \<Rightarrow> bool" where
  "frame c c' \<longleftrightarrow> bx_pipeline c' = bx_pipeline c \<and> bx_hp_guard c' = bx_hp_guard c \<and>
     bx_reward_ring c' = bx_reward_ring c \<and> tally (bx_metrics c') = tally (bx_metrics c)"

lemma frame_refl [simp]: "frame c c"
  by (simp add: frame_def)

lemma frame_trans: "frame a b \<Longrightarrow> frame b c \<Longrightarrow> frame a c"
  by (simp add: frame_def)

lemma tick_cq_head [simp]: "cq_head (ws_comp (decode_worker_tick env s)) = cq_head (ws_comp s)"
  by (auto simp: decode_worker_tick_def process_descriptor_def comp_ring_push_def Let_def
      split: worker_pc.splits prod.splits option.splits if_splits)

lemma ticks_cq_head [simp]: "cq_head (ws_comp ((decode_worker_tick env ^^ k) s)) = cq_head (ws_comp s)"
  by (induction k) simp_all

lemma gpu_runs_inv:
  assumes "env_ok (be_worker env)" "host_inv env c sent polled"
  shows "host_inv env (gpu_runs env c) sent polled \<and> frame c (gpu_runs env c) \<and> bx_metrics (gpu_runs env c) = bx_metrics c \<and>
    wait_measure (bx_dev (gpu_runs env c)) \<le> wait_measure (bx_dev c) \<and>
    (0 < be_gpu env (bx_clock c) \<longrightarrow> wait_measure (bx_dev (gpu_runs env c)) = wait_measure (bx_dev c) \<longrightarrow>
       idle (bx_dev (gpu_runs env c)) \<or> stalled (bx_dev (gpu_runs env c)))"
  using assms(2) dev_inv_ticks[OF assms(1), of sent "bx_dev c" polled "be_gpu env (bx_clock c)"]
  by (simp add: host_inv_def gpu_runs_def frame_def)

lemma comp_linear: "comp_inv r \<Longrightarrow> unat (cq_tail r) = unat (cq_head r) + length (comp_contents r)"
  by (simp add: rep_linear_def word_le_nat_alt unat_sub)

lemma comp_pop:
  assumes "comp_inv r" and "comp_contents r = x # xs"
  shows "\<exists>r'. comp_ring_poll r = (1, Some x, r') \<and> comp_inv r' \<and> comp_contents r' = xs \<and> cq_tail r' = cq_tail r \<and>
    unat (cq_head r') = Suc (unat (cq_head r))"
proof -
  obtain y r' where pop: "comp_poll_obs r = (y, r')" by fastforce
  from compq.linear_pop_first[OF assms pop]
  have r': "y = Some x" "comp_inv r'" "comp_contents r' = xs" "cq_tail r' = cq_tail r" by simp_all
  have "comp_ring_poll r = (1, Some x, r')"
    using pop r'(1) by (auto simp: comp_poll_obs_def comp_ring_poll_def split: if_splits)
  moreover have "unat (cq_head r') = Suc (unat (cq_head r))"
    using comp_linear[OF assms(1)] comp_linear[OF r'(2)] r'(3,4) assms(2) by (simp del: length_rep_contents)
  ultimately show ?thesis using r' by blast
qed

lemma comp_pop_empty: "comp_inv r \<Longrightarrow> comp_contents r = [] \<Longrightarrow> comp_ring_poll r = (0, None, r)"
  by (simp add: comp_ring_poll_def)

lemma bench_poll_inv:
  assumes "env_ok (be_worker env)" "host_inv env c sent polled"
  shows "\<exists>out c'. bench_poll env c = (out, c') \<and> frame c c' \<and> bx_metrics c' = bx_metrics c \<and>
    host_inv env c' sent (polled @ (case out of None \<Rightarrow> [] | Some x \<Rightarrow> [x])) \<and>
    wait_measure (bx_dev c') + (if out = None then 0 else 1) \<le> wait_measure (bx_dev c) \<and>
    (0 < be_gpu env (bx_clock c) \<longrightarrow> length polled < length sent \<longrightarrow>
       wait_measure (bx_dev c') < wait_measure (bx_dev c))"
proof -
  let ?c = "gpu_runs env c" and ?s = "bx_dev (gpu_runs env c)"
  have g: "host_inv env ?c sent polled" "frame c ?c" "bx_metrics ?c = bx_metrics c"
    "wait_measure ?s \<le> wait_measure (bx_dev c)"
    "0 < be_gpu env (bx_clock c) \<Longrightarrow> wait_measure ?s = wait_measure (bx_dev c) \<Longrightarrow> idle ?s \<or> stalled ?s"
    using gpu_runs_inv[OF assms] by auto
  then have dev: "dev_inv (be_worker env) sent ?s polled" and inv: "comp_inv (ws_comp ?s)"
    using dev_inv_rings by (auto simp: host_inv_def)
  show ?thesis
  proof (cases "comp_contents (ws_comp ?s)")
    case Nil
    then have "bench_poll env c = (None, ?c)"
      using comp_pop_empty[OF inv Nil] by (simp add: bench_poll_def Let_def)
    moreover have "wait_measure ?s < wait_measure (bx_dev c)"
      if "0 < be_gpu env (bx_clock c)" "length polled < length sent"
    proof (rule ccontr)
      assume "\<not> ?thesis"
      then have "idle ?s \<or> stalled ?s" using g(4) g(5)[OF that(1)] by linarith
      then have "length (comp_contents (ws_comp ?s)) + length (pending (ws_pc ?s)) + length (cmd_contents (ws_ring ?s)) = 0"
        unfolding idle_def stalled_def Nil by auto
      then show False using dev_inv_accounts[OF dev] that(2) by linarith
    qed
    ultimately show ?thesis using g(1-4) by simp
  next
    case (Cons x xs)
    obtain r' where r': "comp_ring_poll (ws_comp ?s) = (1, Some x, r')" "comp_inv r'" "comp_contents r' = xs"
      "cq_tail r' = cq_tail (ws_comp ?s)" "unat (cq_head r') = Suc (unat (cq_head (ws_comp ?s)))"
      using comp_pop[OF inv Cons] by blast
    let ?c' = "?c\<lparr>bx_dev := ?s\<lparr>ws_comp := r'\<rparr>\<rparr>"
    have b: "bench_poll env c = (Some x, ?c')" by (simp add: bench_poll_def Let_def r'(1))
    obtain h where "sys_inv (be_worker env) (?s, sent, polled) h" using g(1) by (auto simp: host_inv_def dev_inv_def)
    from sys_inv_polled[OF this r'(2), of "[x]"] have "sys_inv (be_worker env) (?s\<lparr>ws_comp := r'\<rparr>, sent, polled @ [x]) h"
      using r'(3) Cons by simp
    then have "host_inv env ?c' sent (polled @ [x])"
      using g(1) r'(4,5) by (auto simp: host_inv_def dev_inv_def rep_budget_def)
    moreover have "wait_measure (?s\<lparr>ws_comp := r'\<rparr>) + 1 = wait_measure ?s"
      using r'(3) Cons by (simp add: wait_measure_def del: length_rep_contents)
    ultimately show ?thesis using g(2-4) b by (simp add: frame_def)
  qed
qed

text \<open>The counters of the ring traffic; \<open>acct\<close> ties them to the two lists.\<close>

definition acct :: "'f bench_env \<Rightarrow> ('f, 'z) BenchContext_scheme \<Rightarrow> Descriptor list \<Rightarrow> Completion list \<Rightarrow> bool" where
  "acct env c sent polled \<longleftrightarrow> host_inv env c sent polled \<and>
     me_descriptors_posted (bx_metrics c) = of_nat (length sent) \<and>
     me_descriptors_consumed (bx_metrics c) = of_nat (length polled)"

lemma host_inv_metrics [simp]: "host_inv env (c\<lparr>bx_metrics := m\<rparr>) = host_inv env c"
  by (simp add: host_inv_def fun_eq_iff)

lemma host_inv_pipeline [simp]: "host_inv env (c\<lparr>bx_pipeline := p\<rparr>) = host_inv env c"
  by (simp add: host_inv_def fun_eq_iff)

lemma host_inv_polled: "host_inv env c sent polled \<Longrightarrow> length polled \<le> length sent"
  using dev_inv_accounts[of "be_worker env" sent "bx_dev c" polled] by (simp add: host_inv_def)

lemma drain_loop_ends:
  assumes env: "env_ok (be_worker env)" and "host_inv env c sent polled"
  shows "\<exists>xs c'. drain_loop env n c = Some (n + int (length xs), c') \<and> frame c c' \<and>
    host_inv env c' sent (polled @ xs) \<and>
    bx_metrics c' = (bx_metrics c)\<lparr>me_descriptors_consumed := me_descriptors_consumed (bx_metrics c) + of_nat (length xs)\<rparr> \<and>
    wait_measure (bx_dev c') \<le> wait_measure (bx_dev c) \<and>
    (0 < be_gpu env (bx_clock c) \<longrightarrow> length polled < length sent \<longrightarrow> wait_measure (bx_dev c') < wait_measure (bx_dev c))"
  using assms(2)
proof (induction "length sent - length polled" arbitrary: c polled n rule: less_induct)
  case less
  obtain out c1 where p: "bench_poll env c = (out, c1)" "frame c c1" "bx_metrics c1 = bx_metrics c"
    "host_inv env c1 sent (polled @ (case out of None \<Rightarrow> [] | Some x \<Rightarrow> [x]))"
    "wait_measure (bx_dev c1) + (if out = None then 0 else 1) \<le> wait_measure (bx_dev c)"
    "0 < be_gpu env (bx_clock c) \<longrightarrow> length polled < length sent \<longrightarrow> wait_measure (bx_dev c1) < wait_measure (bx_dev c)"
    using bench_poll_inv[OF env less.prems] by (elim exE conjE) (rule that)
  show ?case
  proof (cases out)
    case None
    then show ?thesis using p by (intro exI[of _ "[]"] exI[of _ c1]) (simp add: drain_loop.simps)
  next
    case (Some x)
    let ?c = "set_metrics inc_consumed c1"
    have inv: "host_inv env ?c sent (polled @ [x])" using p(4) Some by simp
    then have "length sent - length (polled @ [x]) < length sent - length polled"
      using host_inv_polled[OF inv] by simp
    from less.hyps[OF this inv] obtain xs c' where ih:
      "drain_loop env (n + 1) ?c = Some (n + 1 + int (length xs), c')" "frame ?c c'"
      "host_inv env c' sent ((polled @ [x]) @ xs)"
      "bx_metrics c' = (bx_metrics ?c)\<lparr>me_descriptors_consumed := me_descriptors_consumed (bx_metrics ?c) + of_nat (length xs)\<rparr>"
      "wait_measure (bx_dev c') \<le> wait_measure (bx_dev ?c)"
      by blast
    have "frame c ?c" using p(2) by (simp add: frame_def tally_def inc_consumed_def)
    then have "frame c c'" by (rule frame_trans[OF _ ih(2)])
    then show ?thesis
      using ih p(1,3,5) Some
      by (intro exI[of _ "x # xs"] exI[of _ c']) (simp add: drain_loop.simps[of env n] inc_consumed_def)
  qed
qed

lemma fill_window_outcome:
  assumes "batch_wf b" "db_count b \<le> step_count" "step_count \<le> 32"
    and "\<forall>d\<in>set (batch_items b). ds_seq_id d = ucast rid"
  shows "case fill_window env rid start step_count kv b of
      None \<Rightarrow> \<not> (\<forall>s u. be_prepare_state env rid s u = 0 \<and> be_prepare_query env u = 0)
    | Some b' \<Rightarrow> batch_wf b' \<and> db_count b' = step_count \<and> (\<forall>d\<in>set (batch_items b'). ds_seq_id d = ucast rid)"
  using assms
proof (induction "32 - unat (db_count b)" arbitrary: b rule: less_induct)
  case less
  show ?case
  proof (cases "db_count b < step_count")
    case False
    then have "fill_window env rid start step_count kv b = Some b" by (subst fill_window.simps) simp
    then show ?thesis using less.prems False by simp
  next
    case True
    let ?step = "start + db_count b"
    let ?slot = "?step AND (be_io_slots env - 1)" and ?d = "window_desc rid ((kv + db_count b) mod 128) ?step"
    have lt: "unat (db_count b) < 32" using True less.prems(3) by (simp add: word_less_nat_alt word_le_nat_alt)
    obtain b1 where b1: "decode_batch_push (Some b) (Some ?d) = (0, Some b1)" "batch_wf b1" "db_count b1 = db_count b + 1"
      "batch_items b1 = batch_items b @ [?d]" "unat (db_count b1) = Suc (unat (db_count b))"
      using decode_batch_push_room[OF less.prems(1) lt, of ?d] by blast
    show ?thesis
    proof (cases "be_prepare_state env rid ?step ?slot = 0 \<and> be_prepare_query env ?slot = 0")
      case False
      then have "fill_window env rid start step_count kv b = None"
        using True by (subst fill_window.simps) (auto simp: Let_def)
      then show ?thesis using False by auto
    next
      case ok: True
      have "db_count b1 \<le> step_count"
        using b1(5) True by (simp add: word_less_nat_alt word_le_nat_alt)
      moreover have "\<forall>d\<in>set (batch_items b1). ds_seq_id d = ucast rid"
        using less.prems(4) by (simp add: b1(4) window_desc_def)
      moreover have "fill_window env rid start step_count kv b = fill_window env rid start step_count kv b1"
        using True ok b1(1) by (subst fill_window.simps) (simp add: Let_def)
      ultimately show ?thesis
        using less.hyps[of b1] lt b1(2,5) less.prems(3) by simp
    qed
  qed
qed

lemma seq_id_not_sentinel: "(ucast (rid :: u32) :: u64) \<noteq> UINT64_MAX"
proof
  assume "(ucast rid :: u64) = UINT64_MAX"
  then have "unat (ucast rid :: u64) = unat (UINT64_MAX :: u64)" by simp
  moreover have "unat (ucast rid :: u64) = unat rid"
    using unat_lt32[of rid] by (simp add: unsigned_ucast_eq take_bit_nat_eq_self)
  ultimately show False using unat_lt32[of rid] by simp
qed

lemma sys_inv_sent:
  assumes "sys_inv env (s, sent, polled) h" "ws_pc s \<noteq> WStopped" "cmd_inv r" "cmd_contents r = cmd_contents (ws_ring s) @ xs"
  shows "sys_inv env (s\<lparr>ws_ring := r\<rparr>, sent @ xs, polled) h"
  using assms(1,2,3) unfolding sys_inv_def smem_ok_def by (simp add: assms(4) del: rep_contents_Nil)

lemma batch_stamped_seq_id:
  assumes "batch_wf b" "\<forall>d\<in>set (batch_items b). ds_seq_id d = q"
  shows "\<forall>d\<in>set (batch_stamped b). ds_seq_id d = q"
proof
  fix d
  assume "d \<in> set (batch_stamped b)"
  then obtain i where i: "i < unat (db_count b)" "d = batch_stamp b i" by (auto simp: batch_stamped_def)
  then have "batch_items b ! i \<in> set (batch_items b)" using assms(1) by (intro nth_mem) simp
  moreover have "batch_items b ! i = db_descs b ! i" using i(1) by (simp add: batch_items_def)
  ultimately show "ds_seq_id d = q" using assms(2) i(2) by (simp add: batch_stamp_def)
qed

lemma bench_submit_outcome:
  assumes env: "env_ok (be_worker env)" and inv: "host_inv env c sent polled" and wf: "batch_wf b" "db_count b \<noteq> 0"
    and ids: "\<forall>d\<in>set (batch_items b). ds_seq_id d = ucast (rid :: u32)" and len: "length sent + unat (db_count b) < 2 ^ 32"
  shows "\<exists>rc c' xs. bench_submit env b c = (rc, c') \<and> frame c c' \<and> bx_metrics c' = bx_metrics c \<and>
    host_inv env c' (sent @ xs) polled \<and> length xs = (if rc = 0 then unat (db_count b) else 0) \<and>
    (length sent + unat (db_count b) \<le> 4096 \<longrightarrow> rc = 0)"
proof -
  let ?c = "gpu_runs env c" and ?s = "bx_dev (gpu_runs env c)"
  let ?r = "ws_ring ?s"
  have g: "host_inv env ?c sent polled" "frame c ?c" "bx_metrics ?c = bx_metrics c" using gpu_runs_inv[OF env inv] by auto
  have rinv: "cmd_inv ?r" "comp_inv (ws_comp ?s)" using g(1) dev_inv_rings by (auto simp: host_inv_def)
  have tl: "unat (cr_tail ?r) = length sent" using g(1) by (simp add: host_inv_def)
  show ?thesis
  proof (cases "length (cmd_contents ?r) + unat (db_count b) \<le> 4096")
    case False
    have "decode_batch_submit (Some ?r) (Some b) = (-1, Some ?r)"
      using False cmdq.bounded[OF rinv(1)] by (intro decode_batch_submit_full) simp_all
    then have "bench_submit env b c = (-1, ?c)" by (simp add: bench_submit_def Let_def)
    moreover have "length (cmd_contents ?r) \<le> length sent"
      using dev_inv_accounts g(1) unfolding host_inv_def by fastforce
    ultimately show ?thesis using g False by (intro exI[of _ "-1"] exI[of _ ?c] exI[of _ "[]"]) simp
  next
    case True
    have "cmd_budget (0 + unat (db_count b)) ?r" using tl len by (simp add: rep_budget_def)
    from decode_batch_submit_appends[OF rinv(1) this wf(2) True] obtain r' where
      r': "decode_batch_submit (Some ?r) (Some b) = (0, Some r')" "cmd_inv r'"
      "cmd_contents r' = cmd_contents ?r @ batch_stamped b" "cr_tail r' = cr_tail ?r + db_count b" by blast
    let ?c' = "?c\<lparr>bx_dev := ?s\<lparr>ws_ring := r'\<rparr>\<rparr>"
    have sub: "bench_submit env b c = (0, ?c')" by (simp add: bench_submit_def Let_def r'(1))
    have dev: "dev_inv (be_worker env) sent ?s polled" using g(1) by (simp add: host_inv_def)
    obtain h where h: "sys_inv (be_worker env) (?s, sent, polled) h" using dev by (auto simp: dev_inv_def)
    have sys: "sys_inv (be_worker env) (?s\<lparr>ws_ring := r'\<rparr>, sent @ batch_stamped b, polled) h"
      by (rule sys_inv_sent[OF h dev_inv_running[OF dev] r'(2,3)])
    have "\<forall>d\<in>set (batch_stamped b). ds_seq_id d = ucast rid"
      by (rule batch_stamped_seq_id[OF wf(1) ids])
    then have seq: "\<forall>d\<in>set (sent @ batch_stamped b). ds_seq_id d \<noteq> UINT64_MAX"
      using dev seq_id_not_sentinel[of rid] by (auto simp: dev_inv_def)
    have "length polled + length (comp_contents (ws_comp ?s)) = unat (cq_tail (ws_comp ?s))"
      using comp_linear[OF rinv(2)] g(1) by (simp add: host_inv_def)
    then have "comp_budget (length (cmd_contents r') + length (pending (ws_pc ?s))) (ws_comp ?s)"
      using dev_inv_accounts[OF dev] len r'(3) unfolding rep_budget_def by (simp del: length_rep_contents)
    then have "dev_inv (be_worker env) (sent @ batch_stamped b) (?s\<lparr>ws_ring := r'\<rparr>) polled"
      using sys seq unfolding dev_inv_def by auto
    moreover have "unat (cr_tail r') = length (sent @ batch_stamped b)"
      using r'(4) tl len by (simp add: unat_word_ariths)
    ultimately have "host_inv env ?c' (sent @ batch_stamped b) polled" using g(1) by (simp add: host_inv_def)
    then show ?thesis using sub g by (intro exI[of _ 0] exI[of _ ?c'] exI[of _ "batch_stamped b"]) (simp add: frame_def)
  qed
qed

text \<open>Opening a window either posts all its steps or changes nothing but the completions polled.\<close>

definition prepares :: "'f bench_env \<Rightarrow> bool" where
  "prepares env \<longleftrightarrow> (\<forall>r s u. be_prepare_state env r s u = 0) \<and> (\<forall>u. be_prepare_query env u = 0)"

lemma dispatch_window_outcome:
  assumes env: "env_ok (be_worker env)" "\<And>i. batch_wf (be_junk env i)"
    and inv: "acct env c sent polled" and cnt: "cnt \<noteq> 0" "cnt \<le> 32" and len: "length sent + unat cnt < 2 ^ 32"
  shows "\<exists>rc c' sent' polled'. dispatch_decode_window env rid start cnt kv c = Some (rc, c') \<and>
    frame c c' \<and> acct env c' sent' polled' \<and> length sent' = length sent + (if rc = 0 then unat cnt else 0) \<and>
    me_pipeline_overflow (bx_metrics c') = me_pipeline_overflow (bx_metrics c) \<and>
    (length sent + unat cnt \<le> 4096 \<longrightarrow> polled' = polled \<and> (prepares env \<longrightarrow> rc = 0))"
proof -
  let ?b = "(be_junk env (bx_clock c))\<lparr>db_count := 0\<rparr>"
  have reset: "the (decode_batch_reset (Some (be_junk env (bx_clock c)))) = ?b" by (simp add: decode_batch_reset_def)
  have b: "batch_wf ?b" "\<forall>d\<in>set (batch_items ?b). ds_seq_id d = ucast rid"
    using env(2)[of "bx_clock c"] by (simp_all add: batch_wf_def batch_items_def)
  have clamp: "(if cnt > DECODE_DESCRIPTOR_BATCH_LIMIT then DECODE_DESCRIPTOR_BATCH_LIMIT else cnt) = cnt"
    using cnt(2) by (simp add: DECODE_DESCRIPTOR_BATCH_LIMIT_def not_less[symmetric])
  note fill = fill_window_outcome[OF b(1) _ cnt(2) b(2), of env start kv]
  note unf = dispatch_decode_window_def[of env rid start cnt kv c] Let_def reset clamp
  show ?thesis
  proof (cases "fill_window env rid start cnt kv ?b")
    case None
    then have "\<not> prepares env" using fill by (auto simp: prepares_def)
    then show ?thesis using inv None unfolding unf
      by (intro exI[of _ "-1"] exI[of _ c] exI[of _ sent] exI[of _ polled]) simp
  next
    case (Some b1)
    then have b1: "batch_wf b1" "db_count b1 = cnt" "\<forall>d\<in>set (batch_items b1). ds_seq_id d = ucast rid"
      using fill by simp_all
    have host: "host_inv env c sent polled" and m: "me_descriptors_posted (bx_metrics c) = of_nat (length sent)"
      "me_descriptors_consumed (bx_metrics c) = of_nat (length polled)" using inv by (simp_all add: acct_def)
    have ne: "db_count b1 \<noteq> 0" and lb: "length sent + unat (db_count b1) < 2 ^ 32" using b1(2) cnt(1) len by simp_all
    obtain rc c1 xs where s1: "bench_submit env b1 c = (rc, c1)" "frame c c1" "bx_metrics c1 = bx_metrics c"
      "host_inv env c1 (sent @ xs) polled" "length xs = (if rc = 0 then unat cnt else 0)"
      "length sent + unat cnt \<le> 4096 \<longrightarrow> rc = 0"
      using bench_submit_outcome[OF env(1) host b1(1) ne b1(3) lb] unfolding b1(2) by (elim exE conjE) (rule that)
    have posted: "acct env (set_metrics (add_posted cnt) c') (sent @ ys) polled'" "frame c' (set_metrics (add_posted cnt) c')"
      if "host_inv env c' (sent @ ys) polled'" "length ys = unat cnt" "me_descriptors_posted (bx_metrics c') = of_nat (length sent)"
        "me_descriptors_consumed (bx_metrics c') = of_nat (length polled')" for c' ys polled'
      using that by (simp_all add: acct_def add_posted_def frame_def tally_def)
    show ?thesis
    proof (cases "rc = 0")
      case True
      let ?c = "set_metrics (add_posted cnt) c1"
      have "dispatch_decode_window env rid start cnt kv c = Some (0, ?c)"
        unfolding unf using Some True s1(1) b1(2) by simp
      moreover have "acct env ?c (sent @ xs) polled" "frame c1 ?c" using posted[OF s1(4)] s1(3,5) m True by simp_all
      moreover have "me_pipeline_overflow (bx_metrics ?c) = me_pipeline_overflow (bx_metrics c)"
        using s1(3) by (simp add: add_posted_def)
      ultimately show ?thesis
        using frame_trans[OF s1(2)] s1(5) True
        by (intro exI[of _ 0] exI[of _ ?c] exI[of _ "sent @ xs"] exI[of _ polled]) simp
    next
      case False
      let ?c1 = "set_metrics inc_ring_full_spins c1"
      have h1: "host_inv env ?c1 sent polled" using s1(4,5) False by simp
      obtain ys c2 where d: "drain_loop env 0 ?c1 = Some (0 + int (length ys), c2)" "frame ?c1 c2" "host_inv env c2 sent (polled @ ys)"
        "bx_metrics c2 = (bx_metrics ?c1)\<lparr>me_descriptors_consumed := me_descriptors_consumed (bx_metrics ?c1) + of_nat (length ys)\<rparr>"
        using drain_loop_ends[OF env(1) h1, of 0] by blast
      obtain rc2 c3 zs where s2: "bench_submit env b1 c2 = (rc2, c3)" "frame c2 c3" "bx_metrics c3 = bx_metrics c2"
        "host_inv env c3 (sent @ zs) (polled @ ys)" "length zs = (if rc2 = 0 then unat cnt else 0)"
        "length sent + unat cnt \<le> 4096 \<longrightarrow> rc2 = 0"
        using bench_submit_outcome[OF env(1) d(3) b1(1) ne b1(3) lb] unfolding b1(2) by (elim exE conjE) (rule that)
      have "frame c ?c1" using s1(2) by (simp add: frame_def tally_def inc_ring_full_spins_def)
      then have f: "frame c c3" using d(2) s2(2) by (blast intro: frame_trans)
      have m3: "me_descriptors_posted (bx_metrics c3) = of_nat (length sent)"
        "me_descriptors_consumed (bx_metrics c3) = of_nat (length (polled @ ys))"
        "me_pipeline_overflow (bx_metrics c3) = me_pipeline_overflow (bx_metrics c)"
        using m d(4) s1(3) s2(3) by (simp_all add: inc_ring_full_spins_def)
      let ?c = "if rc2 = 0 then set_metrics (add_posted cnt) c3 else c3"
      have "dispatch_decode_window env rid start cnt kv c = Some (if rc2 = 0 then 0 else -1, ?c)"
        unfolding unf using Some False s1(1) b1(2) d(1) s2(1) by simp
      moreover have "acct env ?c (sent @ zs) (polled @ ys)" "frame c3 ?c"
        using posted[OF s2(4) _ m3(1,2)] s2(4,5) m3(1,2) by (auto simp: acct_def)
      moreover have "me_pipeline_overflow (bx_metrics ?c) = me_pipeline_overflow (bx_metrics c)"
        using m3(3) by (simp add: add_posted_def)
      ultimately show ?thesis
        using frame_trans[OF f] s2(5) s1(6) False
        by (intro exI[of _ "if rc2 = 0 then 0 else -1"] exI[of _ ?c] exI[of _ "sent @ zs"] exI[of _ "polled @ ys"]) simp
    qed
  qed
qed

text \<open>All steps of a rollout are posted, or the overflow counter records that they were not.\<close>

lemma window_loop_outcome:
  assumes env: "env_ok (be_worker env)" "\<And>i. batch_wf (be_junk env i)"
    and "acct env c sent polled" and "length sent + (unat tokens - unat t) < 2 ^ 32" and "unat tokens < 2 ^ 31"
    and "unat t < 2 ^ 31 + 32"
  shows "\<exists>c' sent' polled'. window_loop env rid tokens t kv c = Some c' \<and> frame c c' \<and> acct env c' sent' polled' \<and>
    (me_pipeline_overflow (bx_metrics c') = me_pipeline_overflow (bx_metrics c) \<and>
       length sent' = length sent + (unat tokens - unat t) \<or>
     me_pipeline_overflow (bx_metrics c') = me_pipeline_overflow (bx_metrics c) + 1 \<and>
       length sent \<le> length sent' \<and> length sent' \<le> length sent + (unat tokens - unat t) \<and>
       \<not> (length sent + (unat tokens - unat t) \<le> 4096 \<and> prepares env)) \<and>
    (length sent + (unat tokens - unat t) \<le> 4096 \<longrightarrow> polled' = polled)"
  using assms(3-)
proof (induction "unat tokens - unat t" arbitrary: c sent polled t kv rule: less_induct)
  case less
  show ?case
  proof (cases "t < tokens")
    case False
    then have "window_loop env rid tokens t kv c = Some c" by (subst window_loop.simps) simp
    then show ?thesis using less.prems(1) False by (auto simp: word_less_nat_alt)
  next
    case True
    let ?w = "if tokens - t > DECODE_DESCRIPTOR_BATCH_LIMIT then DECODE_DESCRIPTOR_BATCH_LIMIT else tokens - t"
    have t: "unat t < unat tokens" "unat (tokens - t) = unat tokens - unat t"
      using True by (simp_all add: word_less_nat_alt unat_sub word_le_nat_alt)
    have uw: "unat ?w = min 32 (unat tokens - unat t)"
      using t by (simp add: DECODE_DESCRIPTOR_BATCH_LIMIT_def word_less_nat_alt min_def)
    then have w: "?w \<noteq> 0" "?w \<le> 32" "length sent + unat ?w < 2 ^ 32"
      using t less.prems(2) by (auto simp: word_le_nat_alt simp flip: unat_0_iff)
    obtain rc c1 sent1 polled1 where d: "dispatch_decode_window env rid t ?w (word_of_int kv) c = Some (rc, c1)"
      "frame c c1" "acct env c1 sent1 polled1" "length sent1 = length sent + (if rc = 0 then unat ?w else 0)"
      "me_pipeline_overflow (bx_metrics c1) = me_pipeline_overflow (bx_metrics c)"
      "length sent + unat ?w \<le> 4096 \<longrightarrow> polled1 = polled \<and> (prepares env \<longrightarrow> rc = 0)"
      using dispatch_window_outcome[OF env less.prems(1) w, of rid t "word_of_int kv"] by blast
    show ?thesis
    proof (cases "rc = 0")
      case False
      let ?c = "set_metrics inc_pipeline_overflow c1"
      have "window_loop env rid tokens t kv c = Some ?c"
        using True d(1) False by (subst window_loop.simps) (simp add: Let_def)
      moreover have "frame c ?c" "acct env ?c sent1 polled1"
        using d(2,3) by (simp_all add: frame_def tally_def acct_def inc_pipeline_overflow_def)
      ultimately show ?thesis using d(4,5,6) False uw
        by (intro exI[of _ ?c] exI[of _ sent1] exI[of _ polled1]) (simp add: inc_pipeline_overflow_def)
    next
      case ok: True
      let ?t = "t + DECODE_DESCRIPTOR_BATCH_LIMIT"
      have "unat (t + 32) = unat t + 32" using t(1) less.prems(3) by (subst unat_add_lem[THEN iffD1]) simp_all
      then have ut: "unat ?t = unat t + 32" by (simp add: DECODE_DESCRIPTOR_BATCH_LIMIT_def)
      have s1: "length sent1 + (unat tokens - unat ?t) = length sent + (unat tokens - unat t)"
        using d(4) ok uw ut t(1) by simp
      have "unat tokens - unat ?t < unat tokens - unat t" using ut t(1) by simp
      from less.hyps[OF this d(3) _ less.prems(3)] s1 less.prems(2,3) ut t(1) obtain c2 sent2 polled2 where
        ih: "window_loop env rid tokens ?t (c_rem (kv + uint ?w) 128) c1 = Some c2" "frame c1 c2" "acct env c2 sent2 polled2"
        "me_pipeline_overflow (bx_metrics c2) = me_pipeline_overflow (bx_metrics c1) \<and>
           length sent2 = length sent1 + (unat tokens - unat ?t) \<or>
         me_pipeline_overflow (bx_metrics c2) = me_pipeline_overflow (bx_metrics c1) + 1 \<and>
           length sent1 \<le> length sent2 \<and> length sent2 \<le> length sent1 + (unat tokens - unat ?t) \<and>
           \<not> (length sent1 + (unat tokens - unat ?t) \<le> 4096 \<and> prepares env)"
        "length sent1 + (unat tokens - unat ?t) \<le> 4096 \<longrightarrow> polled2 = polled1"
        by fastforce
      have "window_loop env rid tokens t kv c = window_loop env rid tokens ?t (c_rem (kv + uint ?w) 128) c1"
        using True d(1) ok by (subst window_loop.simps) (simp add: Let_def)
      with ih(1) have loop: "window_loop env rid tokens t kv c = Some c2" by simp
      have le: "length sent \<le> length sent1" using d(4) by simp
      have quiet: "length sent + unat ?w \<le> 4096" if "length sent + (unat tokens - unat t) \<le> 4096"
        using that uw by linarith
      have "length sent + (unat tokens - unat t) \<le> 4096 \<longrightarrow> polled2 = polled"
        using quiet ih(5) d(6) unfolding s1 by blast
      moreover have "me_pipeline_overflow (bx_metrics c2) = me_pipeline_overflow (bx_metrics c) \<and>
          length sent2 = length sent + (unat tokens - unat t) \<or>
        me_pipeline_overflow (bx_metrics c2) = me_pipeline_overflow (bx_metrics c) + 1 \<and>
          length sent \<le> length sent2 \<and> length sent2 \<le> length sent + (unat tokens - unat t) \<and>
          \<not> (length sent + (unat tokens - unat t) \<le> 4096 \<and> prepares env)"
        using ih(4) le order_trans[OF le] unfolding s1 d(5) by blast
      ultimately show ?thesis using loop frame_trans[OF d(2) ih(2)] ih(3) by blast
    qed
  qed
qed

end
