(* ===== verification/Bench_Rollouts.thy ===== *)
theory Bench_Rollouts
  imports Bench_Pipeline
begin

text \<open>
  Correctness of the pipeline benchmark. The first part follows a rollout through the slab and the
  queues, the second a scheduling round and the main loop, the third the wait for completions.
\<close>

section \<open>Rollouts and queues\<close>

text \<open>\<open>slab_ok p live\<close>: the slots in use are those of \<open>live\<close>.\<close>

definition slab_ok :: "RolloutPipeline \<Rightarrow> u32 list \<Rightarrow> bool" where
  "slab_ok p live \<longleftrightarrow> slab_wf (pl_slab p) \<and> slab_free (pl_slab p) = {i. i < 8192} - unat ` set live \<and>
     distinct live \<and> (\<forall>i\<in>set live. unat i < 8192)"

lemma enqueue_effect:
  assumes inv: "pipe_inv (Suc n) p" and q: "q_ok q"
  shows "pipe_inv n (enqueue q i p) \<and>
    (\<forall>k < 6. waiting (enqueue q i p) k = (if k = nat q then take 4096 (waiting p k @ [i]) else waiting p k)) \<and>
    pl_slab (enqueue q i p) = pl_slab p \<and> pl_credits (enqueue q i p) = pl_credits p \<and> pl_policy (enqueue q i p) = pl_policy p"
proof -
  have len: "length (pl_queues p) = 6" using inv by (simp add: pipe_inv_def)
  have bounded: "length (waiting p (nat q)) \<le> 4096"
    using idq.bounded[of "pl_queues p ! nat q"] inv q_ok_nat[OF q] by (simp add: pipe_inv_def)
  have "pipe_inv n (enqueue q i p) \<and>
    (\<forall>k < 6. waiting (enqueue q i p) k = (if k = nat q then take 4096 (waiting p k @ [i]) else waiting p k))"
  proof (cases "length (waiting p (nat q)) = 4096")
    case True
    then have "enqueue q i p = p" using pipeline_push_full[OF inv q True] by simp
    then show ?thesis using pipe_inv_le[OF inv] True by simp
  next
    case False
    then have room: "length (waiting p (nat q)) < 4096" using bounded by linarith
    obtain r where r: "enqueue q i p = p\<lparr>pl_queues := (pl_queues p)[nat q := r]\<rparr>" "idr_inv r" "idr_budget n r"
      "idr_contents r = waiting p (nat q) @ [i]"
      using pipeline_push_room[OF inv q room, of i] by auto
    have "pipe_inv n (enqueue q i p)"
      unfolding r(1) by (rule pipe_inv_update[OF pipe_inv_le[OF inv] r(2,3) q_ok_nat[OF q]])
    moreover have "waiting (enqueue q i p) k = (if k = nat q then take 4096 (waiting p k @ [i]) else waiting p k)" if "k < 6" for k
      using that len r(4) room unfolding r(1) by (simp del: length_rep_contents)
    ultimately show ?thesis by blast
  qed
  then show ?thesis using pipeline_push_frame by blast
qed

lemma slab_wf_update:
  assumes "slab_wf s" "i < 8192" "ro_rollout_id ro = of_nat i"
  shows "slab_wf (s\<lparr>sl_slots := (sl_slots s)[i := ro]\<rparr>) \<and> slab_free (s\<lparr>sl_slots := (sl_slots s)[i := ro]\<rparr>) = slab_free s"
  using assms by (auto simp: slab_wf_def slab_free_def nth_list_update)

lemma transition_keeps_id: "ro_rollout_id (snd (rollout_transition r from to)) = ro_rollout_id r"
  by (simp add: rollout_transition_def Let_def)

lemma step_rollout_effect:
  assumes "slab_ok p live"
  shows "slab_ok (step_rollout rid from to p) live \<and> pl_queues (step_rollout rid from to p) = pl_queues p \<and>
    pl_credits (step_rollout rid from to p) = pl_credits p \<and> pl_policy (step_rollout rid from to p) = pl_policy p"
proof (cases "rid \<ge> MAX_ROLLOUTS")
  case True
  then show ?thesis using assms by (simp add: pipeline_transition_def rollout_get_def)
next
  case False
  then have lt: "unat rid < 8192" by (simp add: MAX_ROLLOUTS_def word_le_nat_alt)
  let ?ro = "snd (rollout_transition (sl_slots (pl_slab p) ! unat rid) from to)"
  have "ro_rollout_id ?ro = of_nat (unat rid)"
    using assms lt unfolding transition_keeps_id by (simp add: slab_ok_def slab_wf_def)
  from slab_wf_update[OF _ lt this] have
    "slab_wf ((pl_slab p)\<lparr>sl_slots := (sl_slots (pl_slab p))[unat rid := ?ro]\<rparr>)"
    "slab_free ((pl_slab p)\<lparr>sl_slots := (sl_slots (pl_slab p))[unat rid := ?ro]\<rparr>) = slab_free (pl_slab p)"
    using assms by (auto simp: slab_ok_def)
  then show ?thesis
    using assms False by (simp add: pipeline_transition_def rollout_get_def slab_ok_def Let_def case_prod_beta)
qed

lemma step_enqueue_effect:
  assumes "pipe_inv (Suc n) p" "q_ok q" "slab_ok p live"
  shows "pipe_inv n (enqueue q rid (step_rollout rid from to p)) \<and> slab_ok (enqueue q rid (step_rollout rid from to p)) live \<and>
    (\<forall>k < 6. waiting (enqueue q rid (step_rollout rid from to p)) k =
       (if k = nat q then take 4096 (waiting p k @ [rid]) else waiting p k)) \<and>
    pl_credits (enqueue q rid (step_rollout rid from to p)) = pl_credits p \<and>
    pl_policy (enqueue q rid (step_rollout rid from to p)) = pl_policy p"
proof -
  let ?p = "step_rollout rid from to p"
  have s: "slab_ok ?p live" "pl_queues ?p = pl_queues p" "pl_credits ?p = pl_credits p" "pl_policy ?p = pl_policy p"
    using step_rollout_effect[OF assms(3)] by auto
  have "pipe_inv (Suc n) ?p" using assms(1) pipe_inv_frame[OF s(2)] by simp
  note e = enqueue_effect[OF this assms(2), of rid, unfolded s(2-4)]
  have "pl_slab (enqueue q rid ?p) = pl_slab ?p" using e by blast
  then have "slab_ok (enqueue q rid ?p) live" using s(1) unfolding slab_ok_def by argo
  then show ?thesis using e by blast
qed

lemma insert_Diff_insert: "x \<in> A \<Longrightarrow> x \<notin> B \<Longrightarrow> A - B = insert x (A - insert x B)"
  by blast

lemma slab_ok_free:
  assumes "slab_ok p (rid # live)"
  shows "slab_ok (p\<lparr>pl_slab := rollout_free (pl_slab p) rid\<rparr>) live"
proof -
  have wf: "slab_wf (pl_slab p)" and lt: "unat rid < 8192" and rid: "rid \<notin> set live"
    and free: "slab_free (pl_slab p) = {i. i < 8192} - insert (unat rid) (unat ` set live)"
    and live: "distinct live" "\<forall>i\<in>set live. unat i < 8192"
    using assms by (simp_all add: slab_ok_def)
  have "unat rid \<notin> unat ` set live" using rid by (metis imageE word_unat_eq_iff)
  then have "{i. i < 8192} - unat ` set live = insert (unat rid) (slab_free (pl_slab p))"
    unfolding free using lt by (intro insert_Diff_insert) simp_all
  moreover from rollout_free_in_range[OF wf lt] have
    "slab_wf (rollout_free (pl_slab p) rid)" "slab_free (rollout_free (pl_slab p) rid) = insert (unat rid) (slab_free (pl_slab p))"
    by simp_all
  ultimately show ?thesis using live by (simp add: slab_ok_def)
qed

lemma finish_rollout_outcome:
  assumes inv: "pipe_inv (n + 3) (bx_pipeline c)" and slab: "slab_ok (bx_pipeline c) (rid # live)"
    and c': "c' = finish_rollout env rid tokens c"
  shows "pipe_inv n (bx_pipeline c') \<and> slab_ok (bx_pipeline c') live \<and>
    (\<forall>k < 6. waiting (bx_pipeline c') k =
       (if k \<in> {3, 4, 5} then take 4096 (waiting (bx_pipeline c) k @ [rid]) else waiting (bx_pipeline c) k)) \<and>
    pl_credits (bx_pipeline c') = pl_credits (bx_pipeline c) \<and> pl_policy (bx_pipeline c') = pl_policy (bx_pipeline c) \<and>
    bx_dev c' = bx_dev c \<and> bx_clock c' = bx_clock c \<and>
    bx_metrics c' = (bx_metrics c)\<lparr>me_reward_handoffs := me_reward_handoffs (bx_metrics c) + 1,
      me_rollouts_completed := me_rollouts_completed (bx_metrics c) + 1\<rparr>"
proof -
  let ?p0 = "bx_pipeline c"
  define p1 where "p1 = enqueue Q_REWARD rid (step_rollout rid ROLL_DECODING ROLL_REWARD_PENDING ?p0)"
  define p2 where "p2 = enqueue Q_TRAJECTORY rid (step_rollout rid ROLL_REWARD_PENDING ROLL_TRAJECTORY_READY p1)"
  define p3 where "p3 = enqueue Q_DONE rid (step_rollout rid ROLL_TRAJECTORY_READY ROLL_DONE p2)"
  have q: "q_ok Q_REWARD" "q_ok Q_TRAJECTORY" "q_ok Q_DONE" "nat Q_REWARD = 3" "nat Q_TRAJECTORY = 4" "nat Q_DONE = 5"
    by (simp_all add: q_ok_def q_consts)
  have inv0: "pipe_inv (Suc (Suc (Suc n))) ?p0" using inv by (simp add: eval_nat_numeral)
  note s1 = step_enqueue_effect[OF inv0 q(1) slab, of rid ROLL_DECODING ROLL_REWARD_PENDING, folded p1_def]
  note s2 = step_enqueue_effect[OF s1[THEN conjunct1] q(2) s1[THEN conjunct2, THEN conjunct1],
    of rid ROLL_REWARD_PENDING ROLL_TRAJECTORY_READY, folded p2_def]
  note s3 = step_enqueue_effect[OF s2[THEN conjunct1] q(3) s2[THEN conjunct2, THEN conjunct1],
    of rid ROLL_TRAJECTORY_READY ROLL_DONE, folded p3_def]
  have "\<exists>ro. rollout_get (pl_slab ?p0) rid = Some ro"
    using slab by (simp add: rollout_get_def slab_ok_def MAX_ROLLOUTS_def word_le_nat_alt)
  then obtain ro where "rollout_get (pl_slab ?p0) rid = Some ro" by blast
  then have p: "bx_pipeline c' = p3\<lparr>pl_slab := rollout_free (pl_slab p3) rid\<rparr>" and rest: "bx_dev c' = bx_dev c"
    "bx_clock c' = bx_clock c" "bx_metrics c' = (bx_metrics c)\<lparr>me_reward_handoffs := me_reward_handoffs (bx_metrics c) + 1,
      me_rollouts_completed := me_rollouts_completed (bx_metrics c) + 1\<rparr>"
    unfolding c' finish_rollout_def p1_def p2_def p3_def by (simp_all add: Let_def)
  have "slab_ok (bx_pipeline c') live" unfolding p using s3 by (intro slab_ok_free) blast
  moreover have "pipe_inv n (bx_pipeline c')" unfolding p using s3 by (simp add: pipe_inv_def)
  moreover have "waiting (bx_pipeline c') k =
      (if k \<in> {3, 4, 5} then take 4096 (waiting ?p0 k @ [rid]) else waiting ?p0 k)" if "k < 6" for k
    using s1 s2 s3 that unfolding p q(4-6) by auto
  moreover have "pl_credits (bx_pipeline c') = pl_credits ?p0" "pl_policy (bx_pipeline c') = pl_policy ?p0"
    unfolding p using s1 s2 s3 by simp_all
  ultimately show ?thesis using rest by blast
qed

section \<open>A scheduling round\<close>

text \<open>
  What the dispatches of a round may do to the ring traffic: at most \<open>steps\<close> steps are posted, all of
  them when no dispatch fails; as long as everything fits the command ring, no completion is
  discarded and no dispatch fails.
\<close>

definition traffic :: "'f bench_env \<Rightarrow> nat \<Rightarrow> Descriptor list \<times> Completion list \<Rightarrow> Descriptor list \<times> Completion list \<Rightarrow> nat \<Rightarrow> bool" where
  "traffic env steps s s' failed \<longleftrightarrow> length (fst s) \<le> length (fst s') \<and> length (fst s') \<le> length (fst s) + steps \<and>
     (failed = 0 \<longrightarrow> length (fst s') = length (fst s) + steps) \<and>
     (length (fst s) + steps \<le> 4096 \<longrightarrow> snd s' = snd s \<and> (prepares env \<longrightarrow> failed = 0))"

lemma traffic_0 [simp]: "traffic env 0 s s 0"
  by (simp add: traffic_def)

lemma traffic_trans:
  "traffic env a s s' f \<Longrightarrow> traffic env b s' s'' g \<Longrightarrow> traffic env (a + b) s s'' (f + g)"
  unfolding traffic_def by (elim conjE) (intro conjI impI; simp)

lemma window_loop_traffic:
  assumes "env_ok (be_worker env)" "\<And>i. batch_wf (be_junk env i)" "acct env c sent polled"
    and "length sent + unat tokens < 2 ^ 32" "unat tokens < 2 ^ 31"
  shows "\<exists>c' sent' polled' f. window_loop env rid tokens 0 kv c = Some c' \<and> frame c c' \<and> acct env c' sent' polled' \<and>
    traffic env (unat tokens) (sent, polled) (sent', polled') f \<and> f \<le> 1 \<and>
    me_pipeline_overflow (bx_metrics c') = me_pipeline_overflow (bx_metrics c) + of_nat f"
proof -
  obtain c' sent' polled' where w: "window_loop env rid tokens 0 kv c = Some c'" "frame c c'" "acct env c' sent' polled'"
    "me_pipeline_overflow (bx_metrics c') = me_pipeline_overflow (bx_metrics c) \<and> length sent' = length sent + unat tokens \<or>
     me_pipeline_overflow (bx_metrics c') = me_pipeline_overflow (bx_metrics c) + 1 \<and>
       length sent \<le> length sent' \<and> length sent' \<le> length sent + unat tokens \<and>
       \<not> (length sent + unat tokens \<le> 4096 \<and> prepares env)"
    "length sent + unat tokens \<le> 4096 \<longrightarrow> polled' = polled"
    using window_loop_outcome[OF assms(1-3), of tokens 0 rid kv] assms(4,5) by auto
  from w(4) show ?thesis
  proof
    assume "me_pipeline_overflow (bx_metrics c') = me_pipeline_overflow (bx_metrics c) \<and> length sent' = length sent + unat tokens"
    then show ?thesis using w(1-3,5)
      by (intro exI[of _ c'] exI[of _ sent'] exI[of _ polled'] exI[of _ 0]) (simp add: traffic_def)
  next
    assume "me_pipeline_overflow (bx_metrics c') = me_pipeline_overflow (bx_metrics c) + 1 \<and>
       length sent \<le> length sent' \<and> length sent' \<le> length sent + unat tokens \<and>
       \<not> (length sent + unat tokens \<le> 4096 \<and> prepares env)"
    then show ?thesis using w(1-3,5)
      by (intro exI[of _ c'] exI[of _ sent'] exI[of _ polled'] exI[of _ 1]) (simp add: traffic_def)
  qed
qed

lemma take_snoc_append: "take n (take n (xs @ [x]) @ ys) = take n (xs @ x # ys)"
  by (cases "length xs < n") simp_all

lemma frame_tally:
  "tally m' = tally m \<longleftrightarrow> me_reward_handoffs m' = me_reward_handoffs m \<and> me_rollouts_completed m' = me_rollouts_completed m \<and>
     me_decode_batches m' = me_decode_batches m \<and> me_decode_rollouts_scheduled m' = me_decode_rollouts_scheduled m \<and>
     me_decode_batch_peak m' = me_decode_batch_peak m"
  by (simp add: tally_def)

lemma run_rollouts_outcome:
  assumes env: "env_ok (be_worker env)" "\<And>i. batch_wf (be_junk env i)" and tok: "unat tokens < 2 ^ 31"
    and "acct env c sent polled" "length sent + length ids * unat tokens < 2 ^ 32"
    and "pipe_inv (n + 3 * length ids) (bx_pipeline c)" "slab_ok (bx_pipeline c) ids"
  shows "\<exists>c' sent' polled' f. run_rollouts env tokens ids c = Some c' \<and> acct env c' sent' polled' \<and>
    traffic env (length ids * unat tokens) (sent, polled) (sent', polled') f \<and> f \<le> length ids \<and>
    me_pipeline_overflow (bx_metrics c') = me_pipeline_overflow (bx_metrics c) + of_nat f \<and>
    tally (bx_metrics c') = tally ((bx_metrics c)\<lparr>me_reward_handoffs := me_reward_handoffs (bx_metrics c) + of_nat (length ids),
      me_rollouts_completed := me_rollouts_completed (bx_metrics c) + of_nat (length ids)\<rparr>) \<and>
    pipe_inv n (bx_pipeline c') \<and> slab_ok (bx_pipeline c') [] \<and>
    (\<forall>k < 6. waiting (bx_pipeline c') k =
       (if k \<in> {3, 4, 5} then take 4096 (waiting (bx_pipeline c) k @ ids) else waiting (bx_pipeline c) k)) \<and>
    pl_credits (bx_pipeline c') = pl_credits (bx_pipeline c) \<and> pl_policy (bx_pipeline c') = pl_policy (bx_pipeline c)"
  using assms(4-)
proof (induction ids arbitrary: c sent polled)
  case Nil
  have "\<forall>k < 6. waiting (bx_pipeline c) k = take 4096 (waiting (bx_pipeline c) k @ [])"
    using Nil.prems(3) idq.bounded by (simp add: pipe_inv_def)
  then show ?case using Nil.prems
    by (intro exI[of _ c] exI[of _ sent] exI[of _ polled] exI[of _ 0]) (simp add: tally_def)
next
  case (Cons rid ids)
  let ?kv = "uint (rid mod 128)"
  have "length sent + unat tokens < 2 ^ 32" using Cons.prems(2) by simp
  from window_loop_traffic[OF env Cons.prems(1) this tok, of rid ?kv] obtain c1 sent1 polled1 f1 where
    w: "window_loop env rid tokens 0 ?kv c = Some c1" "frame c c1" "acct env c1 sent1 polled1"
    "traffic env (unat tokens) (sent, polled) (sent1, polled1) f1" "f1 \<le> 1"
    "me_pipeline_overflow (bx_metrics c1) = me_pipeline_overflow (bx_metrics c) + of_nat f1"
    by (elim exE conjE)
  let ?c = "finish_rollout env rid tokens c1"
  have p1: "bx_pipeline c1 = bx_pipeline c" using w(2) by (simp add: frame_def)
  have "pipe_inv ((n + 3 * length ids) + 3) (bx_pipeline c1)" using Cons.prems(3) unfolding p1 by (simp add: ac_simps)
  from finish_rollout_outcome[OF this Cons.prems(4)[folded p1] refl, of env tokens] have
    fin: "pipe_inv (n + 3 * length ids) (bx_pipeline ?c)" "slab_ok (bx_pipeline ?c) ids"
    "\<forall>k < 6. waiting (bx_pipeline ?c) k =
       (if k \<in> {3, 4, 5} then take 4096 (waiting (bx_pipeline c) k @ [rid]) else waiting (bx_pipeline c) k)"
    "pl_credits (bx_pipeline ?c) = pl_credits (bx_pipeline c)" "pl_policy (bx_pipeline ?c) = pl_policy (bx_pipeline c)"
    "bx_dev ?c = bx_dev c1" "bx_metrics ?c = (bx_metrics c1)\<lparr>me_reward_handoffs := me_reward_handoffs (bx_metrics c1) + 1,
      me_rollouts_completed := me_rollouts_completed (bx_metrics c1) + 1\<rparr>"
    unfolding p1 by blast+
  have acct: "acct env ?c sent1 polled1" using w(3) fin(6,7) by (simp add: acct_def host_inv_def)
  have "length sent1 \<le> length sent + unat tokens" using w(4) by (simp add: traffic_def)
  then have len: "length sent1 + length ids * unat tokens < 2 ^ 32" using Cons.prems(2) by simp
  obtain c2 sent2 polled2 f2 where ih: "run_rollouts env tokens ids ?c = Some c2" "acct env c2 sent2 polled2"
    "traffic env (length ids * unat tokens) (sent1, polled1) (sent2, polled2) f2" "f2 \<le> length ids"
    "me_pipeline_overflow (bx_metrics c2) = me_pipeline_overflow (bx_metrics ?c) + of_nat f2"
    "tally (bx_metrics c2) = tally ((bx_metrics ?c)\<lparr>me_reward_handoffs := me_reward_handoffs (bx_metrics ?c) + of_nat (length ids),
      me_rollouts_completed := me_rollouts_completed (bx_metrics ?c) + of_nat (length ids)\<rparr>)"
    "pipe_inv n (bx_pipeline c2)" "slab_ok (bx_pipeline c2) []"
    "\<forall>k < 6. waiting (bx_pipeline c2) k =
       (if k \<in> {3, 4, 5} then take 4096 (waiting (bx_pipeline ?c) k @ ids) else waiting (bx_pipeline ?c) k)"
    "pl_credits (bx_pipeline c2) = pl_credits (bx_pipeline ?c)" "pl_policy (bx_pipeline c2) = pl_policy (bx_pipeline ?c)"
    using Cons.IH[OF acct len fin(1,2)] by (elim exE conjE) (rule that)
  have "run_rollouts env tokens (rid # ids) c = Some c2" using w(1) ih(1) by simp
  moreover have "traffic env (length (rid # ids) * unat tokens) (sent, polled) (sent2, polled2) (f1 + f2)"
    using traffic_trans[OF w(4) ih(3)] by simp
  moreover have "f1 + f2 \<le> length (rid # ids)" using w(5) ih(4) by simp
  moreover have "me_pipeline_overflow (bx_metrics c2) = me_pipeline_overflow (bx_metrics c) + of_nat (f1 + f2)"
    using ih(5) w(6) by (simp add: fin(7))
  moreover have "tally (bx_metrics c2) = tally ((bx_metrics c)\<lparr>me_reward_handoffs := me_reward_handoffs (bx_metrics c) + of_nat (length (rid # ids)),
      me_rollouts_completed := me_rollouts_completed (bx_metrics c) + of_nat (length (rid # ids))\<rparr>)"
    using ih(6) w(2) by (simp add: fin(7) frame_def frame_tally)
  moreover have "\<forall>k < 6. waiting (bx_pipeline c2) k =
      (if k \<in> {3, 4, 5} then take 4096 (waiting (bx_pipeline c) k @ rid # ids) else waiting (bx_pipeline c) k)"
    using ih(9) fin(3) by (simp add: take_snoc_append del: take_append)
  moreover have "pl_credits (bx_pipeline c2) = pl_credits (bx_pipeline c)" "pl_policy (bx_pipeline c2) = pl_policy (bx_pipeline c)"
    using ih(10,11) fin(4,5) by simp_all
  ultimately show ?case using ih(2,7,8) by blast
qed

lemma schedule_ids_all:
  assumes "pipe_inv n p" "pl_policy p = SCHED_FIFO"
  shows "\<exists>p'. schedule_ids (length (waiting p 2)) p = (waiting p 2, p') \<and> pipe_inv n p' \<and>
    (\<forall>k < 6. waiting p' k = (if k = 2 then [] else waiting p k)) \<and>
    pl_slab p' = pl_slab p \<and> pl_credits p' = pl_credits p \<and> pl_policy p' = pl_policy p"
  using assms
proof (induction "waiting p 2" arbitrary: p)
  case Nil
  then have "\<forall>k < 6. waiting p k = (if k = 2 then [] else waiting p k)" by presburger
  then show ?case using Nil.prems unfolding Nil.hyps[symmetric] by (intro exI[of _ p]) (simp del: rep_contents_Nil)
next
  case (Cons i rest)
  have q: "q_ok Q_DECODE" "nat Q_DECODE = 2" by (simp_all add: q_ok_def Q_DECODE_def)
  note first = Cons.hyps(2)[symmetric]
  obtain r where r: "pipeline_pop p Q_DECODE = (0, Some i, p\<lparr>pl_queues := (pl_queues p)[2 := r]\<rparr>)"
    "idr_inv r" "idr_budget n r" "idr_contents r = rest"
    using pipeline_pop_first[OF Cons.prems(1) q(1), unfolded q(2), OF first] by blast
  let ?p = "p\<lparr>pl_queues := (pl_queues p)[2 := r]\<rparr>"
  have len: "length (pl_queues p) = 6" using Cons.prems(1) by (simp add: pipe_inv_def)
  have inv: "pipe_inv n ?p" by (rule pipe_inv_update[OF Cons.prems(1) r(2,3)]) simp
  have w: "waiting ?p 2 = rest" using len r(4) by simp
  obtain p' where p': "schedule_ids (length rest) ?p = (rest, p')" "pipe_inv n p'"
    "\<forall>k < 6. waiting p' k = (if k = 2 then [] else waiting ?p k)"
    "pl_slab p' = pl_slab ?p" "pl_credits p' = pl_credits ?p" "pl_policy p' = pl_policy ?p"
    using Cons.hyps(1)[OF w[symmetric] inv] Cons.prems(2) unfolding w by auto
  have "schedule_ids (length (i # rest)) p = (i # rest, p')"
    using r(1) p'(1) Cons.prems(2) by (simp add: pipeline_schedule_FIFO)
  moreover have "\<forall>k < 6. waiting p' k = (if k = 2 then [] else waiting p k)" using p'(3) len by simp
  ultimately show ?case unfolding first using p'(2,4,5,6) by (intro exI[of _ p']) simp
qed

text \<open>
  The state between two rounds of the main loop: \<open>r\<close> of \<open>n\<close> rollouts have been admitted, those of
  \<open>ids\<close> wait for their decode batch with one credit each and own the slots in use, all others are
  finished; \<open>failed\<close> rollouts could not post all their steps.
\<close>

definition bench_inv :: "'f bench_env \<Rightarrow> u32 \<Rightarrow> nat \<Rightarrow> nat \<Rightarrow> u32 list \<Rightarrow> nat \<Rightarrow> ('f, 'z) BenchContext_scheme \<Rightarrow> Descriptor list \<Rightarrow> Completion list \<Rightarrow> bool" where
  "bench_inv env tokens n r ids failed c sent polled \<longleftrightarrow>
     (let p = bx_pipeline c; m = bx_metrics c; finished = r - length ids in
      pipe_inv (5 * (n - r) + 3 * length ids) p \<and> pl_policy p = SCHED_FIFO \<and>
      pc_max_decode_credits (pl_credits p) = 256 \<and> pc_decode_used (pl_credits p) = of_nat (length ids) \<and>
      waiting p 2 = ids \<and> slab_ok p ids \<and> length ids \<le> r \<and> r \<le> n \<and>
      acct env c sent polled \<and> traffic env (finished * unat tokens) ([], []) (sent, polled) failed \<and> failed \<le> finished \<and>
      me_pipeline_overflow m = of_nat failed \<and> me_rollouts_completed m = of_nat finished \<and>
      me_reward_handoffs m = of_nat finished \<and> me_decode_rollouts_scheduled m = of_nat finished \<and>
      length (waiting p 1) = min 4096 r \<and> (\<forall>k\<in>{3, 4, 5}. length (waiting p k) = min 4096 finished))"

lemma note_metrics_fields:
  "me_decode_rollouts_scheduled (note_decode_batch_metrics k m) = me_decode_rollouts_scheduled m + ucast k"
  "me_reward_handoffs (note_decode_batch_metrics k m) = me_reward_handoffs m"
  "me_rollouts_completed (note_decode_batch_metrics k m) = me_rollouts_completed m"
  "me_pipeline_overflow (note_decode_batch_metrics k m) = me_pipeline_overflow m"
  "me_descriptors_posted (note_decode_batch_metrics k m) = me_descriptors_posted m"
  "me_descriptors_consumed (note_decode_batch_metrics k m) = me_descriptors_consumed m"
  "me_decode_batch_peak (note_decode_batch_metrics k m) = max (me_decode_batch_peak m) (ucast k)"
  by (auto simp: note_decode_batch_metrics_def Let_def max_def)

lemma schedule_round:
  assumes env: "env_ok (be_worker env)" "\<And>i. batch_wf (be_junk env i)" and tok: "unat tokens < 2 ^ 31"
    and inv: "bench_inv env tokens n r ids failed c sent polled" and len: "length ids \<le> 32" and fits: "n * unat tokens < 2 ^ 32"
  shows "\<exists>c' sent' polled' failed'. schedule_decode_batches env DECODE_BATCH_LIMIT tokens c = Some (int (length ids), c') \<and>
    bench_inv env tokens n r [] failed' c' sent' polled'"
proof -
  let ?p = "bx_pipeline c" and ?k = "length ids" and ?m = "bx_metrics c"
  have p: "pipe_inv (5 * (n - r) + 3 * ?k) ?p" "pl_policy ?p = SCHED_FIFO" "pc_max_decode_credits (pl_credits ?p) = 256"
    "pc_decode_used (pl_credits ?p) = of_nat ?k" "waiting ?p 2 = ids" "slab_ok ?p ids" "?k \<le> r" "r \<le> n"
    and a: "acct env c sent polled" and t: "traffic env ((r - ?k) * unat tokens) ([], []) (sent, polled) failed" "failed \<le> r - ?k"
    and m: "me_pipeline_overflow ?m = of_nat failed" "me_rollouts_completed ?m = of_nat (r - ?k)"
      "me_reward_handoffs ?m = of_nat (r - ?k)" "me_decode_rollouts_scheduled ?m = of_nat (r - ?k)"
    and w: "length (waiting ?p 1) = min 4096 r" "\<forall>k\<in>{3, 4, 5}. length (waiting ?p k) = min 4096 (r - ?k)"
    using inv unfolding bench_inv_def Let_def by blast+
  have q: "q_ok Q_DECODE" "nat Q_DECODE = 2" by (simp_all add: q_ok_def Q_DECODE_def)
  have uk: "unat (of_nat ?k :: u32) = ?k" using len by (simp add: unat_of_nat)
  then have ui: "uint (of_nat ?k :: u32) = int ?k" using arg_cong[OF uk, of int] by simp
  have "unat (pipeline_stage_available_credits (Some ?p) Q_DECODE) = 256 - ?k"
    using p(3,4) uk len by (simp add: pipeline_stage_available_credits_def Let_def word_less_nat_alt unat_sub word_le_nat_alt)
  then have "unat (pipeline_stage_target_batch ?p Q_DECODE DECODE_BATCH_LIMIT) = ?k"
    using target_batch_min[OF q(1), of ?p DECODE_BATCH_LIMIT] len
    unfolding q(2) p(5) by (simp add: DECODE_BATCH_LIMIT_def)
  then have batch: "pipeline_stage_target_batch ?p Q_DECODE DECODE_BATCH_LIMIT = of_nat ?k" using uk by (metis word_unat_eq_iff)
  have clamp: "\<not> DECODE_BATCH_LIMIT < of_nat ?k" using uk len by (simp add: DECODE_BATCH_LIMIT_def word_less_nat_alt)
  show ?thesis
  proof (cases "ids = []")
    case True
    then have "schedule_decode_batches env DECODE_BATCH_LIMIT tokens c = Some (0, c)"
      using batch clamp by (simp add: schedule_decode_batches_def)
    then show ?thesis using inv True by (intro exI[of _ c] exI[of _ sent] exI[of _ polled] exI[of _ failed]) simp
  next
    case False
    then have nz: "(of_nat ?k :: u32) \<noteq> 0" using uk by (metis length_0_conv unat_0)
    obtain p1 where p1: "schedule_ids ?k ?p = (ids, p1)" "pipe_inv (5 * (n - r) + 3 * ?k) p1"
      "\<forall>k < 6. waiting p1 k = (if k = 2 then [] else waiting ?p k)" "pl_slab p1 = pl_slab ?p"
      "pl_credits p1 = pl_credits ?p" "pl_policy p1 = pl_policy ?p"
      using schedule_ids_all[OF p(1,2)] unfolding p(5) by (elim exE conjE) (rule that)
    let ?c = "set_metrics (note_decode_batch_metrics (of_nat ?k)) (c\<lparr>bx_pipeline := p1\<rparr>)"
    have a1: "acct env ?c sent polled" using a by (simp add: acct_def note_metrics_fields)
    have "length sent \<le> (r - ?k) * unat tokens" using t(1) by (simp add: traffic_def)
    also have "\<dots> + ?k * unat tokens = r * unat tokens" using p(7) by (simp flip: add_mult_distrib)
    also have "\<dots> \<le> n * unat tokens" using p(8) by simp
    finally have l1: "length sent + ?k * unat tokens < 2 ^ 32" using fits by simp
    have s1: "slab_ok (bx_pipeline ?c) ids" using p(6) p1(4) by (simp add: slab_ok_def)
    have i1: "pipe_inv (5 * (n - r) + 3 * ?k) (bx_pipeline ?c)" using p1(2) by simp
    obtain c2 sent2 polled2 f2 where run: "run_rollouts env tokens ids ?c = Some c2" "acct env c2 sent2 polled2"
      "traffic env (?k * unat tokens) (sent, polled) (sent2, polled2) f2" "f2 \<le> ?k"
      "me_pipeline_overflow (bx_metrics c2) = me_pipeline_overflow (bx_metrics ?c) + of_nat f2"
      "tally (bx_metrics c2) = tally ((bx_metrics ?c)\<lparr>me_reward_handoffs := me_reward_handoffs (bx_metrics ?c) + of_nat ?k,
        me_rollouts_completed := me_rollouts_completed (bx_metrics ?c) + of_nat ?k\<rparr>)"
      "pipe_inv (5 * (n - r)) (bx_pipeline c2)" "slab_ok (bx_pipeline c2) []"
      "\<forall>k < 6. waiting (bx_pipeline c2) k =
         (if k \<in> {3, 4, 5} then take 4096 (waiting (bx_pipeline ?c) k @ ids) else waiting (bx_pipeline ?c) k)"
      "pl_credits (bx_pipeline c2) = pl_credits (bx_pipeline ?c)" "pl_policy (bx_pipeline c2) = pl_policy (bx_pipeline ?c)"
      using run_rollouts_outcome[OF env tok a1 l1 i1 s1] by (elim exE conjE) (rule that)
    let ?c' = "set_pipeline (\<lambda>p. pipeline_release p Q_DECODE (of_nat ?k)) c2"
    have sched: "schedule_decode_batches env DECODE_BATCH_LIMIT tokens c = Some (int ?k, ?c')"
      using batch clamp nz p1(1) run(1) uk ui unfolding schedule_decode_batches_def by (simp add: Let_def)
    have cr: "pl_credits (bx_pipeline ?c') = (pl_credits ?p)\<lparr>pc_decode_used := 0\<rparr>" "pl_queues (bx_pipeline ?c') = pl_queues (bx_pipeline c2)"
      "pl_slab (bx_pipeline ?c') = pl_slab (bx_pipeline c2)" "pl_policy (bx_pipeline ?c') = SCHED_FIFO"
      using run(10,11) p1(5,6) p(2,4) by (simp_all add: pipeline_release_def Q_DECODE_def Let_def)
    have fin: "r - ?k + ?k = r" using p(7) by simp
    have traf: "traffic env (r * unat tokens) ([], []) (sent2, polled2) (failed + f2)"
      using traffic_trans[OF t(1) run(3)] fin by (simp flip: add_mult_distrib)
    have tl: "tally (bx_metrics c2) = tally ((bx_metrics ?c)\<lparr>me_reward_handoffs := of_nat r, me_rollouts_completed := of_nat r,
        me_decode_rollouts_scheduled := of_nat r\<rparr>)"
      using run(6) m(2-4) uk arg_cong[OF fin, of "of_nat :: nat \<Rightarrow> u64"]
      by (simp add: frame_tally note_metrics_fields unsigned_of_nat)
    have "bench_inv env tokens n r [] (failed + f2) ?c' sent2 polled2"
      unfolding bench_inv_def Let_def
    proof (intro conjI)
      show "pipe_inv (5 * (n - r) + 3 * length []) (bx_pipeline ?c')" using run(7) pipe_inv_frame[OF cr(2)] by simp
      show "waiting (bx_pipeline ?c') 2 = []" unfolding cr(2) using run(9) p1(3) by (simp del: rep_contents_Nil)
      show "slab_ok (bx_pipeline ?c') []" using run(8) unfolding slab_ok_def cr(3) by simp
      show "acct env ?c' sent2 polled2" using run(2) by (simp add: acct_def)
      show "me_pipeline_overflow (bx_metrics ?c') = of_nat (failed + f2)" using run(5) m(1) by (simp add: note_metrics_fields)
      show "length (waiting (bx_pipeline ?c') 1) = min 4096 r" unfolding cr(2) using run(9) p1(3) w(1) by (simp del: length_rep_contents)
      show "\<forall>k\<in>{3, 4, 5}. length (waiting (bx_pipeline ?c') k) = min 4096 (r - length [])"
        unfolding cr(2) using run(9) p1(3) w(2) fin by (simp del: length_rep_contents)
      show "failed + f2 \<le> r - length []" using t(2) run(4) fin by simp
    qed (use cr tl traf p in \<open>simp_all add: frame_tally\<close>)
    then show ?thesis using sched by blast
  qed
qed

section \<open>The main loop\<close>

lemma alloc_outcome:
  assumes "slab_ok p ids" "length ids \<le> 32"
  shows "\<exists>rid slab. rollout_alloc (pl_slab p) = (0, Some rid, slab) \<and> slab_ok (p\<lparr>pl_slab := slab\<rparr>) (ids @ [rid])"
proof -
  let ?s = "pl_slab p"
  have wf: "slab_wf ?s" and free: "slab_free ?s = {i. i < 8192} - unat ` set ids" and ids: "distinct ids" "\<forall>i\<in>set ids. unat i < 8192"
    using assms(1) by (simp_all add: slab_ok_def)
  have "card (unat ` set ids) \<le> 32" using card_image_le[of "set ids" unat] card_length[of ids] assms(2) by simp
  moreover have "card {i :: nat. i < 8192} = 8192" by (rule card_Collect_less_nat)
  ultimately have "slab_free ?s \<noteq> {}" unfolding free using card_mono[of "unat ` set ids" "{i. i < 8192}"] by fastforce
  from rollout_alloc_least[OF wf this] obtain s' where
    s': "rollout_alloc ?s = (0, Some (of_nat (Min (slab_free ?s))), s')" "slab_wf s'"
    "slab_free s' = slab_free ?s - {Min (slab_free ?s)}" "Min (slab_free ?s) < 8192" by blast
  let ?i = "Min (slab_free ?s)"
  have "finite (slab_free ?s)" unfolding free by simp
  from Min_in[OF this \<open>slab_free ?s \<noteq> {}\<close>] have i: "?i \<notin> unat ` set ids" unfolding free by simp
  have u: "unat (of_nat ?i :: u32) = ?i" using s'(4) by (simp add: unat_of_nat)
  then have "of_nat ?i \<notin> set ids" using i by (metis image_eqI)
  moreover have "slab_free s' = {i. i < 8192} - unat ` set (ids @ [of_nat ?i])"
    using s'(3) free u by auto
  ultimately have "slab_ok (p\<lparr>pl_slab := s'\<rparr>) (ids @ [of_nat ?i])"
    using s'(2,4) ids u by (simp add: slab_ok_def)
  then show ?thesis using s'(1) by blast
qed

lemma start_rollout_effect:
  assumes "pipe_inv (Suc n) p" "slab_ok p (ids @ [rid])"
  shows "pipe_inv n (start_rollout tokens r rid p) \<and> slab_ok (start_rollout tokens r rid p) (ids @ [rid]) \<and>
    (\<forall>k < 6. waiting (start_rollout tokens r rid p) k = (if k = 1 then take 4096 (waiting p k @ [rid]) else waiting p k)) \<and>
    pl_credits (start_rollout tokens r rid p) = pl_credits p \<and> pl_policy (start_rollout tokens r rid p) = pl_policy p"
proof -
  let ?slab = "pl_slab p" and ?live = "ids @ [rid]"
  let ?ro = "(sl_slots ?slab ! unat rid)\<lparr>ro_max_tokens := tokens, ro_rng_seed := word_of_int (42 + r)\<rparr>"
  let ?p1 = "p\<lparr>pl_slab := ?slab\<lparr>sl_slots := (sl_slots ?slab)[unat rid := ?ro]\<rparr>\<rparr>"
  have lt: "unat rid < 8192" and wf: "slab_wf ?slab" using assms(2) by (auto simp: slab_ok_def)
  then have "ro_rollout_id ?ro = of_nat (unat rid)" by (simp add: slab_wf_def)
  from slab_wf_update[OF wf lt this] have s1: "slab_ok ?p1 ?live" using assms(2) by (simp add: slab_ok_def)
  have i1: "pipe_inv (Suc n) ?p1" using assms(1) by (simp add: pipe_inv_def)
  have q: "q_ok Q_PREFILL" "nat Q_PREFILL = 1" by (simp_all add: q_ok_def Q_PREFILL_def)
  let ?p2 = "enqueue Q_PREFILL rid (step_rollout rid ROLL_FREE ROLL_PREFILL_READY ?p1)"
  note e = step_enqueue_effect[OF i1 q(1) s1, of rid ROLL_FREE ROLL_PREFILL_READY, unfolded q(2)]
  note t = step_rollout_effect[OF e[THEN conjunct2, THEN conjunct1], of rid ROLL_PREFILL_READY ROLL_DECODING]
  have st: "start_rollout tokens r rid p = step_rollout rid ROLL_PREFILL_READY ROLL_DECODING ?p2"
    by (simp add: start_rollout_def Let_def)
  have qs: "pl_queues (start_rollout tokens r rid p) = pl_queues ?p2" using t unfolding st by blast
  have "pipe_inv n (start_rollout tokens r rid p)" using e pipe_inv_frame[OF qs] by blast
  moreover have "\<forall>k < 6. waiting (start_rollout tokens r rid p) k = (if k = 1 then take 4096 (waiting p k @ [rid]) else waiting p k)"
    unfolding qs using e by simp
  moreover have "pl_credits (start_rollout tokens r rid p) = pl_credits p" "pl_policy (start_rollout tokens r rid p) = pl_policy p"
    using t e unfolding st by simp_all
  ultimately show ?thesis using t unfolding st by blast
qed

lemma try_push_decode:
  assumes "pipe_inv (Suc n) p" "pc_max_decode_credits (pl_credits p) = 256" "pc_decode_used (pl_credits p) = of_nat k" "k \<le> 32"
    "length (waiting p 2) = k"
  shows "\<exists>p'. pipeline_try_push p Q_DECODE i = (0, p') \<and> pipe_inv n p' \<and>
    (\<forall>k < 6. waiting p' k = (if k = 2 then waiting p k @ [i] else waiting p k)) \<and>
    pl_credits p' = (pl_credits p)\<lparr>pc_decode_used := of_nat (Suc k)\<rparr> \<and> pl_slab p' = pl_slab p \<and> pl_policy p' = pl_policy p"
proof -
  have q: "q_ok Q_DECODE" "nat Q_DECODE = 2" by (simp_all add: q_ok_def Q_DECODE_def)
  have len: "length (pl_queues p) = 6" using assms(1) by (simp add: pipe_inv_def)
  have room: "length (waiting p (nat Q_DECODE)) < 4096" unfolding q(2) assms(5) using assms(4) by simp
  obtain r where r: "pipeline_push p Q_DECODE i = (0, p\<lparr>pl_queues := (pl_queues p)[2 := r]\<rparr>)" "idr_inv r" "idr_budget n r"
    "idr_contents r = waiting p 2 @ [i]"
    using pipeline_push_room[OF assms(1) q(1) room, of i] unfolding q(2) by blast
  let ?p = "p\<lparr>pl_queues := (pl_queues p)[2 := r]\<rparr>"
  have "unat (of_nat k :: u32) = k" using assms(4) by (simp add: unat_of_nat)
  then have "\<not> pc_max_decode_credits (pl_credits p) \<le> pc_decode_used (pl_credits p)"
    using assms(2-4) by (simp add: word_le_nat_alt)
  then have "pipeline_try_push p Q_DECODE i = (0, ?p\<lparr>pl_credits := (pl_credits p)\<lparr>pc_decode_used := of_nat (Suc k)\<rparr>\<rparr>)"
    using r(1) assms(3) by (simp add: pipeline_try_push_def Let_def ac_simps)
  moreover have "pipe_inv n (?p\<lparr>pl_credits := x\<rparr>)" for x
    using pipe_inv_update[OF pipe_inv_le[OF assms(1)] r(2,3), of 2] by (simp add: pipe_inv_def)
  moreover have "\<forall>k < 6. waiting (?p\<lparr>pl_credits := x\<rparr>) k = (if k = 2 then waiting p k @ [i] else waiting p k)" for x
    using len r(4) by simp
  ultimately show ?thesis by auto
qed

lemma admit_round:
  assumes inv: "bench_inv env tokens n r ids failed c sent polled" and len: "length ids < 32" and r: "r < n"
  shows "\<exists>rid slab c'. rollout_alloc (pl_slab (bx_pipeline c)) = (0, Some rid, slab) \<and>
    admit_loop env tokens rid (set_pipeline (start_rollout tokens z rid) (set_pipeline (\<lambda>p. p\<lparr>pl_slab := slab\<rparr>) c)) = Some (True, c') \<and>
    bench_inv env tokens n (Suc r) (ids @ [rid]) failed c' sent polled"
proof -
  let ?p = "bx_pipeline c" and ?k = "length ids" and ?m = "bx_metrics c"
  have p: "pipe_inv (5 * (n - r) + 3 * ?k) ?p" "pl_policy ?p = SCHED_FIFO" "pc_max_decode_credits (pl_credits ?p) = 256"
    "pc_decode_used (pl_credits ?p) = of_nat ?k" "waiting ?p 2 = ids" "slab_ok ?p ids" "?k \<le> r"
    and a: "acct env c sent polled" and t: "traffic env ((r - ?k) * unat tokens) ([], []) (sent, polled) failed" "failed \<le> r - ?k"
    and m: "me_pipeline_overflow ?m = of_nat failed" "me_rollouts_completed ?m = of_nat (r - ?k)"
      "me_reward_handoffs ?m = of_nat (r - ?k)" "me_decode_rollouts_scheduled ?m = of_nat (r - ?k)"
    and w: "length (waiting ?p 1) = min 4096 r" "\<forall>k\<in>{3, 4, 5}. length (waiting ?p k) = min 4096 (r - ?k)"
    using inv unfolding bench_inv_def Let_def by blast+
  obtain rid slab where al: "rollout_alloc (pl_slab ?p) = (0, Some rid, slab)" "slab_ok (?p\<lparr>pl_slab := slab\<rparr>) (ids @ [rid])"
    using alloc_outcome[OF p(6)] len by auto
  let ?b = "5 * (n - Suc r) + 3 * Suc ?k"
  have b: "5 * (n - r) + 3 * ?k = Suc (Suc ?b)" using Suc_diff_Suc[OF r] by simp
  have i0: "pipe_inv (Suc (Suc ?b)) (?p\<lparr>pl_slab := slab\<rparr>)"
    using p(1) unfolding b by (subst pipe_inv_frame[of _ ?p]) simp_all
  define p1 where "p1 = start_rollout tokens z rid (?p\<lparr>pl_slab := slab\<rparr>)"
  have s: "pipe_inv (Suc ?b) p1" "slab_ok p1 (ids @ [rid])"
    "\<forall>k < 6. waiting p1 k = (if k = 1 then take 4096 (waiting ?p k @ [rid]) else waiting ?p k)"
    "pl_credits p1 = pl_credits ?p" "pl_policy p1 = pl_policy ?p"
    using start_rollout_effect[OF i0 al(2), of tokens z] unfolding p1_def by auto
  have "length (waiting p1 2) = ?k" using s(3) p(5) by (simp del: length_rep_contents)
  from try_push_decode[OF s(1) _ _ _ this, of rid] s(4) p(3,4) len obtain p2 where
    q: "pipeline_try_push p1 Q_DECODE rid = (0, p2)" "pipe_inv ?b p2"
    "\<forall>k < 6. waiting p2 k = (if k = 2 then waiting p1 k @ [rid] else waiting p1 k)"
    "pl_credits p2 = (pl_credits ?p)\<lparr>pc_decode_used := of_nat (Suc ?k)\<rparr>" "pl_slab p2 = pl_slab p1" "pl_policy p2 = pl_policy p1"
    by auto
  let ?c = "c\<lparr>bx_pipeline := p1\<rparr>" and ?c' = "c\<lparr>bx_pipeline := p2\<rparr>"
  have admit: "admit_loop env tokens rid ?c = Some (True, ?c')"
    by (subst admit_loop.simps) (simp add: q(1))
  have "bench_inv env tokens n (Suc r) (ids @ [rid]) failed ?c' sent polled"
    unfolding bench_inv_def Let_def
  proof (intro conjI)
    show "pipe_inv (5 * (n - Suc r) + 3 * length (ids @ [rid])) (bx_pipeline ?c')" using q(2) by simp
    show "waiting (bx_pipeline ?c') 2 = ids @ [rid]" using q(3) s(3) p(5) by simp
    show "slab_ok (bx_pipeline ?c') (ids @ [rid])" using s(2) unfolding slab_ok_def by (simp add: q(5))
    show "acct env ?c' sent polled" using a by (simp add: acct_def)
    show "length (waiting (bx_pipeline ?c') 1) = min 4096 (Suc r)" using q(3) s(3) w(1) by (simp del: length_rep_contents)
    show "\<forall>k\<in>{3, 4, 5}. length (waiting (bx_pipeline ?c') k) = min 4096 (Suc r - length (ids @ [rid]))"
      using q(3) s(3) w(2) by (simp del: length_rep_contents)
  qed (use p t m q s r in simp_all)
  then show ?thesis using al(1) admit by (intro exI[of _ rid] exI[of _ slab] exI[of _ ?c']) (simp add: p1_def)
qed

lemma u32_mod32: "(x :: u32) mod 32 = 0 \<longleftrightarrow> unat x mod 32 = 0"
  by (simp add: word_unat_eq_iff unat_mod)

lemma rollout_loop_outcome:
  assumes env: "env_ok (be_worker env)" "\<And>i. batch_wf (be_junk env i)" and tok: "unat tokens < 2 ^ 31"
    and fits: "n * unat tokens < 2 ^ 32" "n < 2 ^ 32"
    and "bench_inv env tokens n r ids failed c sent polled" "length ids = r mod 32"
  shows "\<exists>c' sent' polled' ids' failed'. rollout_loop env tokens (int n) (int r) c = Some c' \<and>
    bench_inv env tokens n n ids' failed' c' sent' polled' \<and> length ids' \<le> 32"
  using assms(6,7)
proof (induction "n - r" arbitrary: r ids failed c sent polled)
  case 0
  then have "r = n" by (simp add: bench_inv_def Let_def)
  then have "rollout_loop env tokens (int n) (int r) c = Some c" by (subst rollout_loop.simps) simp
  then show ?case using 0 \<open>r = n\<close>
    by (intro exI[of _ c] exI[of _ sent] exI[of _ polled] exI[of _ ids] exI[of _ failed]) simp
next
  case (Suc d)
  have r: "r < n" and l: "length ids < 32" using Suc(2,4) by simp_all
  obtain rid slab c1 where ad: "rollout_alloc (pl_slab (bx_pipeline c)) = (0, Some rid, slab)"
    "admit_loop env tokens rid (set_pipeline (start_rollout tokens (int r) rid) (set_pipeline (\<lambda>p. p\<lparr>pl_slab := slab\<rparr>) c)) = Some (True, c1)"
    "bench_inv env tokens n (Suc r) (ids @ [rid]) failed c1 sent polled"
    using admit_round[OF Suc.prems(1) l r] by blast
  have "unat (of_nat (Suc r) :: u32) = Suc r" using r fits(2) by (subst unat_of_nat) (simp add: take_bit_nat_eq_self)
  then have cond: "(word_of_int (int r + 1) :: u32) mod DECODE_BATCH_LIMIT = 0 \<longleftrightarrow> Suc r mod 32 = 0"
    using u32_mod32[of "of_nat (Suc r)"] by (simp add: DECODE_BATCH_LIMIT_def add.commute)
  have dn: "d = n - Suc r" using Suc(2) by simp
  show ?case
  proof (cases "Suc r mod 32 = 0")
    case False
    then have "length (ids @ [rid]) = Suc r mod 32" using Suc.prems(2) by (simp add: mod_Suc split: if_splits)
    from Suc(1)[OF dn ad(3) this] have "\<exists>c' sent' polled' ids' failed'. rollout_loop env tokens (int n) (int r + 1) c1 = Some c' \<and>
        bench_inv env tokens n n ids' failed' c' sent' polled' \<and> length ids' \<le> 32" by (simp add: add.commute)
    then show ?thesis using r ad(1,2) cond False
      by (subst rollout_loop.simps) (simp add: Let_def)
  next
    case True
    have "length (ids @ [rid]) \<le> 32" using l by simp
    from schedule_round[OF env tok ad(3) this fits(1)] obtain c2 sent2 polled2 failed2 x where
      s: "schedule_decode_batches env DECODE_BATCH_LIMIT tokens c1 = Some (x, c2)"
      "bench_inv env tokens n (Suc r) [] failed2 c2 sent2 polled2" by blast
    have "length [] = Suc r mod 32" using True by simp
    from Suc(1)[OF dn s(2) this] have "\<exists>c' sent' polled' ids' failed'. rollout_loop env tokens (int n) (int r + 1) c2 = Some c' \<and>
        bench_inv env tokens n n ids' failed' c' sent' polled' \<and> length ids' \<le> 32" by (simp add: add.commute)
    then show ?thesis using r ad(1,2) cond True s(1)
      by (subst rollout_loop.simps) (simp add: Let_def)
  qed
qed

lemma flush_loop_outcome:
  assumes env: "env_ok (be_worker env)" "\<And>i. batch_wf (be_junk env i)" and tok: "unat tokens < 2 ^ 31"
    and fits: "n * unat tokens < 2 ^ 32"
    and inv: "bench_inv env tokens n n ids failed c sent polled" "length ids \<le> 32"
  shows "\<exists>c' sent' polled' failed'. flush_loop env tokens c = Some c' \<and> bench_inv env tokens n n [] failed' c' sent' polled'"
proof -
  have q: "q_ok Q_DECODE" "nat Q_DECODE = 2" by (simp_all add: q_ok_def Q_DECODE_def)
  have empty: "flush_loop env tokens c = Some c"
    if "bench_inv env tokens n n [] f c s p" for f c s p
  proof -
    have "waiting (bx_pipeline c) 2 = []" using that unfolding bench_inv_def Let_def by blast
    then have "unat (pipeline_occupancy (bx_pipeline c) Q_DECODE) = 0" unfolding occupancy_waiting[OF q(1)] q(2) by simp
    then show ?thesis by (subst flush_loop.simps) (simp add: unat_eq_0)
  qed
  show ?thesis
  proof (cases "ids = []")
    case True
    then show ?thesis using empty inv(1) by blast
  next
    case False
    have "waiting (bx_pipeline c) 2 = ids" using inv(1) unfolding bench_inv_def Let_def by blast
    then have "unat (pipeline_occupancy (bx_pipeline c) Q_DECODE) = length ids" unfolding occupancy_waiting[OF q(1)] q(2) by simp
    then have occ: "pipeline_occupancy (bx_pipeline c) Q_DECODE > 0" using False by (simp add: word_less_nat_alt)
    obtain c2 sent2 polled2 failed2 x where s: "schedule_decode_batches env DECODE_BATCH_LIMIT tokens c = Some (x, c2)"
      "bench_inv env tokens n n [] failed2 c2 sent2 polled2"
      using schedule_round[OF env tok inv fits] by blast
    then have "flush_loop env tokens c = Some c2"
      using occ empty[OF s(2)] by (subst flush_loop.simps) simp
    then show ?thesis using s(2) by blast
  qed
qed

section \<open>Waiting for the completions\<close>

lemma drain_accounts:
  assumes env: "env_ok (be_worker env)" and a: "acct env c sent polled"
  shows "\<exists>xs c'. drain_completions env c = Some (int (length xs), c') \<and> frame c c' \<and> acct env c' sent (polled @ xs) \<and>
    wait_measure (bx_dev c') \<le> wait_measure (bx_dev c) \<and>
    (0 < be_gpu env (bx_clock c) \<longrightarrow> length polled < length sent \<longrightarrow> wait_measure (bx_dev c') < wait_measure (bx_dev c))"
proof -
  have h: "host_inv env c sent polled" using a by (simp add: acct_def)
  obtain xs c' where d: "drain_loop env 0 c = Some (0 + int (length xs), c')" "frame c c'" "host_inv env c' sent (polled @ xs)"
    "bx_metrics c' = (bx_metrics c)\<lparr>me_descriptors_consumed := me_descriptors_consumed (bx_metrics c) + of_nat (length xs)\<rparr>"
    "wait_measure (bx_dev c') \<le> wait_measure (bx_dev c)"
    "0 < be_gpu env (bx_clock c) \<longrightarrow> length polled < length sent \<longrightarrow> wait_measure (bx_dev c') < wait_measure (bx_dev c)"
    using drain_loop_ends[OF env h, of 0] by (elim exE conjE) (rule that)
  have "acct env c' sent (polled @ xs)" using a d(3,4) by (simp add: acct_def)
  then show ?thesis using d(1,2,5,6) unfolding drain_completions_def by auto
qed

text \<open>The completions counted so far are those polled since the loop began.\<close>

lemma comps_loop_returns:
  assumes env: "env_ok (be_worker env)" and gpu: "\<And>k. 0 < be_gpu env k" and "acct env c sent polled" and "length sent < 2 ^ 32"
  shows "\<exists>c' polled'. comps_loop env (of_nat (length sent)) (of_nat (length polled)) c = Some (of_nat (length sent), c') \<and>
    frame c c' \<and> acct env c' sent polled' \<and> length polled' = length sent"
  using assms(3)
proof (induction "wait_measure (bx_dev c)" arbitrary: c polled rule: less_induct)
  case less
  have le: "length polled \<le> length sent" using less.prems host_inv_polled by (auto simp: acct_def)
  have cmp: "(of_nat (length polled) :: u64) < of_nat (length sent) \<longleftrightarrow> length polled < length sent"
    using le assms(4) by (simp add: word_less_nat_alt unat_of_nat take_bit_nat_eq_self)
  show ?case
  proof (cases "length polled < length sent")
    case False
    then have "comps_loop env (of_nat (length sent)) (of_nat (length polled)) c = Some (of_nat (length sent), c)"
      using cmp le by (subst comps_loop.simps) simp
    then show ?thesis using less.prems False le by (intro exI[of _ c] exI[of _ polled]) simp
  next
    case True
    obtain xs c1 where d: "drain_completions env c = Some (int (length xs), c1)" "frame c c1" "acct env c1 sent (polled @ xs)"
      "wait_measure (bx_dev c1) < wait_measure (bx_dev c)"
      using drain_accounts[OF env less.prems] gpu True by auto
    from less.hyps[OF d(4,3)] obtain c' polled' where ih:
      "comps_loop env (of_nat (length sent)) (of_nat (length (polled @ xs))) c1 = Some (of_nat (length sent), c')"
      "frame c1 c'" "acct env c' sent polled'" "length polled' = length sent" by blast
    have "comps_loop env (of_nat (length sent)) (of_nat (length polled)) c = Some (of_nat (length sent), c')"
      using True cmp d(1) ih(1) by (subst comps_loop.simps) simp
    then show ?thesis using frame_trans[OF d(2) ih(2)] ih(3,4) by blast
  qed
qed

lemma comps_loop_stuck:
  assumes "comps_loop env expected comps c = Some y" and "env_ok (be_worker env)"
    and "acct env c sent (lost @ polled)" "expected = of_nat (length sent)" "comps = of_nat (length polled)"
    and lost: "lost \<noteq> []" and len: "length sent < 2 ^ 32"
  shows False
  using assms(1-5)
proof (induction arbitrary: polled rule: comps_loop.raw_induct[rotated, consumes 1, case_names step])
  case (step loop env expected comps c y)
  have h: "host_inv env c sent (lost @ polled)" using step(4) by (simp add: acct_def)
  have "0 < length lost" using lost by simp
  then have "length polled < length sent" using host_inv_polled[OF h] unfolding length_append by linarith
  then have lt: "comps < expected"
    using step(5,6) len by (simp add: word_less_nat_alt unat_of_nat take_bit_nat_eq_self)
  obtain xs c1 where d: "drain_completions env c = Some (int (length xs), c1)" "acct env c1 sent (lost @ polled @ xs)"
    using drain_accounts[OF step(3,4)] by auto
  have "loop env expected (of_nat (length (polled @ xs))) c1 = Some y" using step(2,6) lt d(1) by simp
  from step(1)[OF this step(3) d(2) step(5) refl] show False .
qed

section \<open>Properties\<close>

text \<open>A context as \<open>bench_init\<close> leaves it.\<close>

definition bench_ready :: "('f, 'z) BenchContext_scheme \<Rightarrow> bool" where
  "bench_ready c \<longleftrightarrow> (\<exists>p m smem ob. bx_pipeline c = snd (pipeline_init p) \<and> bx_metrics c = metrics_init m \<and>
     bx_dev c = worker_start CommandRing_zero smem ob \<and> length smem = 3 * 16384)"

lemma bench_ready_inv:
  assumes "bench_ready c" and "5 * n < 2 ^ 32"
  shows "bench_inv env tokens n 0 [] 0 (set_pipeline (\<lambda>p. pipeline_credits_set p 256 128 128 1024)
    (c\<lparr>bx_hp_guard := hp_guard_activate (bx_hp_guard c)\<rparr>)) [] []"
proof -
  obtain p m smem ob where c: "bx_pipeline c = snd (pipeline_init p)" "bx_metrics c = metrics_init m"
    "bx_dev c = worker_start CommandRing_zero smem ob" "length smem = 3 * 16384"
    using assms(1) by (auto simp: bench_ready_def)
  have init: "pipe_inv (5 * n) (snd (pipeline_init p))" "pl_policy (snd (pipeline_init p)) = SCHED_FIFO"
    "pl_credits (snd (pipeline_init p)) = credits_zero" and w: "\<And>k. k < 6 \<Longrightarrow> waiting (snd (pipeline_init p)) k = []"
    using pipeline_init_inv[OF assms(2)] by blast+
  have slab: "slab_ok (snd (pipeline_init p)) []"
    using rollout_slab_init_wf rollout_slab_init_free
    by (auto simp: slab_ok_def pipeline_init_def Let_def atLeast0LessThan lessThan_def)
  have "sys_inv (be_worker env) (bx_dev c, [], []) []"
    using worker_start_inv[of CommandRing_zero smem "be_worker env" ob] c(4) unfolding c(3) by simp
  then have host: "host_inv env c [] []"
    unfolding host_inv_def dev_inv_def c(3)
    by (auto simp: worker_start_def CommandRing_zero_def CompletionRing_zero_def rep_budget_def)
  have cr: "pl_queues (pipeline_credits_set x a b d e) = pl_queues x" "pl_slab (pipeline_credits_set x a b d e) = pl_slab x"
    "pl_policy (pipeline_credits_set x a b d e) = pl_policy x" for x a b d e
    by (simp_all add: pipeline_credits_set_def)
  show ?thesis
    unfolding bench_inv_def Let_def
    using init slab host w[of 1] w[of 2] w[of 3] w[of 4] w[of 5]
    by (simp add: c(1,2) cr slab_ok_def acct_def host_inv_def pipe_inv_def metrics_init_def)
      (simp add: pipeline_credits_set_def credits_zero_def)
qed

lemma bench_rollouts_outcome:
  assumes env: "env_ok (be_worker env)" "\<And>i. batch_wf (be_junk env i)" and ready: "bench_ready c"
    and small: "5 * n < 2 ^ 32" "n * tokens < 2 ^ 32" "tokens < 2 ^ 31"
  shows "\<exists>c' sent polled failed. bench_rollouts env (int n) (int tokens) c = Some c' \<and>
    bench_inv env (of_nat tokens) n n [] failed c' sent polled \<and> unat (of_nat tokens :: u32) = tokens"
proof -
  have ut: "unat (of_nat tokens :: u32) = tokens" using small(3) by (simp add: unat_of_nat take_bit_nat_eq_self)
  let ?c = "set_pipeline (\<lambda>p. pipeline_credits_set p 256 128 128 1024) (c\<lparr>bx_hp_guard := hp_guard_activate (bx_hp_guard c)\<rparr>)"
  have tok: "unat (of_nat tokens :: u32) < 2 ^ 31" and fits: "n * unat (of_nat tokens :: u32) < 2 ^ 32" and n: "n < 2 ^ 32"
    using small ut by simp_all
  obtain c1 sent1 polled1 ids1 failed1 where r: "rollout_loop env (of_nat tokens) (int n) (int 0) ?c = Some c1"
    "bench_inv env (of_nat tokens) n n ids1 failed1 c1 sent1 polled1" "length ids1 \<le> 32"
    using rollout_loop_outcome[OF env tok fits n bench_ready_inv[OF ready small(1)]] by auto
  obtain c2 sent2 polled2 failed2 where f: "flush_loop env (of_nat tokens) c1 = Some c2"
    "bench_inv env (of_nat tokens) n n [] failed2 c2 sent2 polled2"
    using flush_loop_outcome[OF env tok fits r(2,3)] by blast
  have "bench_rollouts env (int n) (int tokens) c = Some c2"
    using r(1) f(1) by (simp add: bench_rollouts_def Let_def)
  then show ?thesis using f(2) ut by blast
qed

lemma unat_of_nat64: "k < 2 ^ 32 \<Longrightarrow> unat (of_nat k :: u64) = k"
  by (simp add: unat_of_nat take_bit_nat_eq_self)

text \<open>
  C25. The benchmark takes every rollout through the pipeline, however fast the device is and whatever
  the slot preparations return. The admission loop and the flush loop end; the slab never runs out
  and no rollout is refused, so all \<open>n\<close> rollouts are completed, handed to the reward ring and
  counted as scheduled, every slot is free again, the decode queue is empty and all its credits
  are returned. At most \<open>n * tokens\<close> descriptors are posted, exactly that many when the overflow
  counter is 0; each posted descriptor has been counted as consumed or is still with the device.
  The queues nobody reads fill up: PREFILL and DONE hold the first 4096 rollouts.
\<close>

theorem bench_completes_rollouts:
  assumes "env_ok (be_worker env)" and "\<And>i. batch_wf (be_junk env i)" and "bench_ready c"
    and "5 * n < 2 ^ 32" and "n * tokens < 2 ^ 32" and "tokens < 2 ^ 31"
  shows "\<exists>c'. bench_rollouts env (int n) (int tokens) c = Some c' \<and>
    (let m = bx_metrics c'; p = bx_pipeline c'; s = bx_dev c' in
     unat (me_rollouts_completed m) = n \<and> unat (me_reward_handoffs m) = n \<and> unat (me_decode_rollouts_scheduled m) = n \<and>
     slab_free (pl_slab p) = {i. i < 8192} \<and> waiting p (nat Q_DECODE) = [] \<and> pc_decode_used (pl_credits p) = 0 \<and>
     unat (me_descriptors_posted m) \<le> n * tokens \<and>
     (me_pipeline_overflow m = 0 \<longrightarrow> unat (me_descriptors_posted m) = n * tokens) \<and>
     unat (me_descriptors_consumed m) + length (comp_contents (ws_comp s)) + length (pending (ws_pc s)) +
       length (cmd_contents (ws_ring s)) = unat (me_descriptors_posted m) \<and>
     length (waiting p (nat Q_PREFILL)) = min 4096 n \<and> length (waiting p (nat Q_DONE)) = min 4096 n)"
proof -
  obtain c' sent polled failed where b: "bench_rollouts env (int n) (int tokens) c = Some c'"
    "bench_inv env (of_nat tokens) n n [] failed c' sent polled" "unat (of_nat tokens :: u32) = tokens"
    using bench_rollouts_outcome[OF assms] by (elim exE conjE) (rule that)
  let ?m = "bx_metrics c'" and ?p = "bx_pipeline c'" and ?s = "bx_dev c'"
  have inv: "slab_ok ?p []" "waiting ?p 2 = []" "pc_decode_used (pl_credits ?p) = 0" "acct env c' sent polled"
    "traffic env (n * tokens) ([], []) (sent, polled) failed" "failed \<le> n" "me_pipeline_overflow ?m = of_nat failed"
    "me_rollouts_completed ?m = of_nat n" "me_reward_handoffs ?m = of_nat n" "me_decode_rollouts_scheduled ?m = of_nat n"
    "length (waiting ?p 1) = min 4096 n" "length (waiting ?p 5) = min 4096 n"
    using b(2) unfolding bench_inv_def Let_def b(3) by (simp_all del: length_rep_contents rep_contents_Nil)
  have n: "n < 2 ^ 32" using assms(4) by simp
  have le: "length sent \<le> n * tokens" using inv(5) by (simp add: traffic_def)
  then have sent: "length sent < 2 ^ 32" using assms(5) by simp
  have dev: "dev_inv (be_worker env) sent ?s polled" using inv(4) by (simp add: acct_def host_inv_def)
  have acc: "length polled + length (comp_contents (ws_comp ?s)) + length (pending (ws_pc ?s)) + length (cmd_contents (ws_ring ?s)) = length sent"
    by (rule dev_inv_accounts[OF dev])
  then have pl: "length polled < 2 ^ 32" using sent by linarith
  have cnt: "unat (me_descriptors_posted ?m) = length sent" "unat (me_descriptors_consumed ?m) = length polled"
    using inv(4) unat_of_nat64[OF sent] unat_of_nat64[OF pl] by (simp_all add: acct_def)
  have "failed = 0" if "me_pipeline_overflow ?m = 0"
    using arg_cong[OF that, of unat] unat_of_nat64[of failed] inv(6,7) n by simp
  then have full: "me_pipeline_overflow ?m = 0 \<longrightarrow> unat (me_descriptors_posted ?m) = n * tokens"
    using inv(5) cnt(1) by (simp add: traffic_def)
  have free: "slab_free (pl_slab ?p) = {i. i < 8192}" using inv(1) by (simp add: slab_ok_def)
  have q: "nat Q_DECODE = 2" "nat Q_PREFILL = 1" "nat Q_DONE = 5" by (simp_all add: q_consts)
  have done_n: "unat (me_rollouts_completed ?m) = n" "unat (me_reward_handoffs ?m) = n" "unat (me_decode_rollouts_scheduled ?m) = n"
    unfolding inv(8-10) by (rule unat_of_nat64[OF n])+
  show ?thesis
    unfolding Let_def q
    by (intro exI[of _ c'] conjI b(1) done_n free inv(2,3,11,12) full le[folded cnt(1)] acc[folded cnt])
qed

text \<open>A device of three steps per access, slot preparations that succeed, and a fresh context.\<close>

definition bench_env0 :: "xreal bench_env" where
  "bench_env0 = \<lparr>be_worker = idle_env, be_gpu = (\<lambda>_. 3), be_prepare_state = (\<lambda>_ _ _. 0), be_prepare_query = (\<lambda>_. 0),
     be_score = (\<lambda>_. 0), be_io_slots = 4096, be_junk = (\<lambda>_. zero_batch)\<rparr>"

definition bench_start :: "xreal BenchContext" where
  "bench_start = \<lparr>bx_pipeline = pipe_fresh, bx_metrics = metrics_init undefined, bx_hp_guard = hp_guard_init undefined,
     bx_reward_ring = reward_ring_init undefined, bx_dev = worker_start CommandRing_zero (replicate 49152 0) None, bx_clock = 0\<rparr>"

lemma bench_env0_ok:
  "env_ok (be_worker bench_env0)" "batch_wf (be_junk bench_env0 i)" "prepares bench_env0" "0 < be_gpu bench_env0 k"
  by (simp_all add: bench_env0_def batch_wf_def zero_batch_def prepares_def)

lemma bench_start_ready: "bench_ready bench_start"
  unfolding bench_ready_def bench_start_def pipe_fresh_def by fastforce

theorem bench_completes_rollouts_witness:
  "\<exists>c'. bench_rollouts bench_env0 1000 128 bench_start = Some c' \<and> unat (me_rollouts_completed (bx_metrics c')) = 1000 \<and>
     slab_free (pl_slab (bx_pipeline c')) = {i. i < 8192} \<and> length (waiting (bx_pipeline c') (nat Q_DONE)) = 1000"
  using bench_completes_rollouts[OF bench_env0_ok(1,2) bench_start_ready, of 1000 128]
  by (auto simp: Let_def simp del: length_rep_contents)

text \<open>
  The final wait never ends once a completion was discarded: \<open>dispatch_decode_window\<close> polls and
  drops completions when the command ring is full, but \<open>main\<close> waits until it has itself drained as
  many completions as descriptors were posted.
\<close>

theorem bench_wait_hangs:
  assumes "env_ok (be_worker env)" and "acct env c sent polled" and "polled \<noteq> []" and "length sent < 2 ^ 32"
  shows "comps_loop env (me_descriptors_posted (bx_metrics c)) 0 c = None"
proof (rule ccontr)
  assume "comps_loop env (me_descriptors_posted (bx_metrics c)) 0 c \<noteq> None"
  then obtain y where "comps_loop env (me_descriptors_posted (bx_metrics c)) 0 c = Some y" by auto
  moreover have "acct env c sent (polled @ [])" "me_descriptors_posted (bx_metrics c) = of_nat (length sent)"
    using assms(2) by (simp_all add: acct_def)
  ultimately show False using comps_loop_stuck[OF _ assms(1) _ _ _ assms(3,4), of _ 0 c y "[]"] by simp
qed

text \<open>A context that has posted one descriptor and has discarded its completion.\<close>

definition bench_lost :: "xreal BenchContext" where
  "bench_lost = bench_start\<lparr>
     bx_metrics := (bx_metrics bench_start)\<lparr>me_descriptors_posted := 1, me_descriptors_consumed := 1\<rparr>,
     bx_dev := (bx_dev bench_start)\<lparr>ws_ring := CommandRing_zero\<lparr>cr_head := 1, cr_tail := 1\<rparr>,
       ws_comp := CompletionRing_zero\<lparr>cq_head := 1, cq_tail := 1\<rparr>, ws_step_count := 1\<rparr>\<rparr>"

lemma bench_lost_acct:
  "acct bench_env0 bench_lost [Descriptor_zero] [completion_of idle_env Descriptor_zero]"
proof -
  have "sys_inv idle_env (bx_dev bench_lost, [Descriptor_zero], [completion_of idle_env Descriptor_zero]) [Descriptor_zero]"
    unfolding sys_inv_def
    by (simp add: bench_lost_def bench_start_def worker_start_def smem_ok_def Descriptor_zero_def rep_linear_def rep_wf_def ring_wf_def
        CommandRing_zero_def CompletionRing_zero_def RING_SIZE_def COMP_RING_SIZE_def)
      (rule sym, simp)
  then show ?thesis
    unfolding acct_def host_inv_def dev_inv_def
    by (auto simp: bench_lost_def bench_start_def worker_start_def bench_env0_def Descriptor_zero_def rep_budget_def
        CommandRing_zero_def CompletionRing_zero_def)
qed

theorem bench_wait_hangs_witness:
  "comps_loop bench_env0 (me_descriptors_posted (bx_metrics bench_lost)) 0 bench_lost = None"
  using bench_wait_hangs[OF bench_env0_ok(1) bench_lost_acct] by simp

lemma bench_small_run:
  assumes "env_ok (be_worker env)" and "\<And>i. batch_wf (be_junk env i)" and "bench_ready c"
    and "n * tokens \<le> 4096" and "5 * n < 2 ^ 32" and "tokens < 2 ^ 31" and "prepares env" and "\<And>k. 0 < be_gpu env k"
  shows "\<exists>c'. bench_main env (int n) (int tokens) c = Some (of_nat (n * tokens), c') \<and>
    unat (me_rollouts_completed (bx_metrics c')) = n \<and> \<not> hg_active (bx_hp_guard c') \<and>
    comp_contents (ws_comp (bx_dev c')) = [] \<and> cmd_contents (ws_ring (bx_dev c')) = [] \<and> pending (ws_pc (bx_dev c')) = [] \<and>
    cmd_inv (ws_ring (bx_dev c')) \<and> unat (cr_tail (ws_ring (bx_dev c'))) = n * tokens"
proof -
  have fits: "n * tokens < 2 ^ 32" using assms(4) by simp
  obtain c1 sent polled failed where b: "bench_rollouts env (int n) (int tokens) c = Some c1"
    "bench_inv env (of_nat tokens) n n [] failed c1 sent polled" "unat (of_nat tokens :: u32) = tokens"
    using bench_rollouts_outcome[OF assms(1-3,5) fits assms(6)] by (elim exE conjE) (rule that)
  have inv: "acct env c1 sent polled" "traffic env (n * tokens) ([], []) (sent, polled) failed"
    "me_rollouts_completed (bx_metrics c1) = of_nat n"
    using b(2) unfolding bench_inv_def Let_def b(3) by simp_all
  then have t: "polled = []" "length sent = n * tokens" using assms(4,7) by (simp_all add: traffic_def)
  have len: "length sent < 2 ^ 32" using t(2) fits by simp
  obtain c2 polled2 where w: "comps_loop env (of_nat (length sent)) (of_nat (length polled)) c1 = Some (of_nat (length sent), c2)"
    "frame c1 c2" "acct env c2 sent polled2" "length polled2 = length sent"
    using comps_loop_returns[OF assms(1,8) inv(1) len] by (elim exE conjE) (rule that)
  have dev: "dev_inv (be_worker env) sent (bx_dev c2) polled2" using w(3) by (simp add: acct_def host_inv_def)
  have e: "comp_contents (ws_comp (bx_dev c2)) = []" "cmd_contents (ws_ring (bx_dev c2)) = []" "pending (ws_pc (bx_dev c2)) = []"
    using dev_inv_accounts[OF dev] w(4) by (simp_all flip: length_0_conv)
  have comp: "unat (me_rollouts_completed (bx_metrics c2)) = n"
    using w(2) inv(3) unat_of_nat64[of n] assms(5) by (simp add: frame_def frame_tally)
  have "me_descriptors_posted (bx_metrics c1) = of_nat (length sent)" using inv(1) by (simp add: acct_def)
  then have "\<exists>c'. bench_main env (int n) (int tokens) c = Some (of_nat (n * tokens), c') \<and> bx_dev c' = bx_dev c2 \<and>
      me_rollouts_completed (bx_metrics c') = me_rollouts_completed (bx_metrics c2) \<and> \<not> hg_active (bx_hp_guard c')"
    using b(1) w(1) t by (simp add: bench_main_def Let_def hp_guard_deactivate_def)
  moreover have "cmd_inv (ws_ring (bx_dev c2))" using dev_inv_rings[OF dev] by blast
  moreover have "unat (cr_tail (ws_ring (bx_dev c2))) = n * tokens" using w(3) t(2) by (simp add: acct_def host_inv_def)
  ultimately show ?thesis using e comp by (auto simp del: rep_contents_Nil)
qed

text \<open>
  A run that fits the command ring returns. With at most 4096 descriptors in all, slot
  preparations that succeed and a device that makes at least one step before every access of the host, \<open>main\<close>
  ends its timed section having drained exactly \<open>n * tokens\<close> completions, with no overflow, and the
  device has nothing left to do.
\<close>

theorem bench_small_run_returns:
  assumes "env_ok (be_worker env)" and "\<And>i. batch_wf (be_junk env i)" and "bench_ready c"
    and "n * tokens \<le> 4096" and "5 * n < 2 ^ 32" and "tokens < 2 ^ 31" and "prepares env" and "\<And>k. 0 < be_gpu env k"
  shows "\<exists>c'. bench_main env (int n) (int tokens) c = Some (of_nat (n * tokens), c') \<and>
    unat (me_rollouts_completed (bx_metrics c')) = n \<and> \<not> hg_active (bx_hp_guard c') \<and>
    comp_contents (ws_comp (bx_dev c')) = [] \<and> cmd_contents (ws_ring (bx_dev c')) = [] \<and> pending (ws_pc (bx_dev c')) = []"
  using bench_small_run[OF assms] by (elim exE conjE) (rule exI, intro conjI)

theorem bench_small_run_returns_witness:
  "\<exists>c'. bench_main bench_env0 3 5 bench_start = Some (15, c') \<and> unat (me_rollouts_completed (bx_metrics c')) = 3"
  using bench_small_run_returns[OF bench_env0_ok(1,2) bench_start_ready _ _ _ bench_env0_ok(3,4), of 3 5] by auto

end
