(* ===== verification/Bench_Init.thy ===== *)
theory Bench_Init
  imports Bench_Rollouts Runtime_Lifecycle KV_Prefix Trace
begin

text \<open>
  Initialisation and shutdown of the two pipeline benchmarks, \<^verbatim>\<open>bench/bench_pipeline.cu\<close> and
  \<^verbatim>\<open>bench/bench_trace_pipeline.cu\<close>. The rings, the arena and the device buffers are those of the
  host runtime, so that their part of the context is a \<open>Runtime\<close> and live blocks are tracked in \<open>mem\<close>
  as in \<open>Runtime_Lifecycle\<close>; here \<open>re_set_device\<close> stands for the first two CUDA calls, between which
  nothing changes.
\<close>

section \<open>State\<close>

record BenchHost =
  bh_pipeline :: RolloutPipeline
  bh_metrics :: RuntimeMetrics
  bh_hp_guard :: HotpathGuard
  bh_kv_prefix_table :: KVPrefixTable
  bh_reward_ring :: RewardRing
  bh_rt :: Runtime

text \<open>The context after \<open>memset\<close>.\<close>

definition BenchHost_zero :: BenchHost where
  "BenchHost_zero =
     \<lparr>bh_pipeline = \<lparr>pl_queues = replicate (nat Q_COUNT) id_ring_zero,
        pl_slab = \<lparr>sl_slots = replicate (unat MAX_ROLLOUTS) rollout_zero, sl_free_bitmap = replicate slab_words 0\<rparr>,
        pl_credits = credits_zero, pl_policy = SCHED_FIFO\<rparr>,
      bh_metrics = \<lparr>me_descriptors_posted = 0, me_descriptors_consumed = 0, me_reward_handoffs = 0,
        me_ring_full_spins = 0, me_completion_overflow_attempts = 0, me_done_overflow_attempts = 0,
        me_kv_blocks_allocated = 0, me_kv_blocks_freed = 0, me_gpu_idle_loops = 0,
        me_hotpath_mallocs_caught = 0, me_rollouts_completed = 0, me_pipeline_overflow = 0,
        me_decode_batches = 0, me_decode_rollouts_scheduled = 0, me_decode_batch_peak = 0\<rparr>,
      bh_hp_guard = \<lparr>hg_malloc_count = 0, hg_calloc_count = 0, hg_realloc_count = 0,
        hg_free_count = 0, hg_cuda_malloc_count = 0, hg_cuda_free_count = 0,
        hg_page_fault_count = 0, hg_active = False\<rparr>,
      bh_kv_prefix_table = \<lparr>kt_prefixes = replicate (unat MAX_PREFIXES) KVPrefix_zero,
        kt_prefix_bitmap = replicate prefix_words 0, kt_branches = replicate (unat MAX_BRANCHES) KVBranch_zero,
        kt_branch_bitmap = replicate branch_words 0, kt_next_branch_id = 0\<rparr>,
      bh_reward_ring = \<lparr>rw_prod = \<lparr>ri_head = 0, ri_tail = 0\<rparr>, rw_cons = \<lparr>ri_head = 0, ri_tail = 0\<rparr>,
        rw_slots = replicate (unat REWARD_RING_SIZE) RewardDesc_zero\<rparr>,
      bh_rt = Runtime_zero\<rparr>"

abbreviation set_rt :: "(Runtime \<Rightarrow> Runtime) \<Rightarrow> 'z BenchHost_scheme \<Rightarrow> 'z BenchHost_scheme" where
  "set_rt f c \<equiv> c\<lparr>bh_rt := f (bh_rt c)\<rparr>"

section \<open>Initialisation\<close>

text \<open>The block at the label \<open>cleanup\<close>: unlike the one of \<open>runtime_init\<close> it keeps the arena.\<close>

definition bench_cleanup :: "Runtime \<Rightarrow> mem \<Rightarrow> int \<times> Runtime \<times> mem" where
  "bench_cleanup rt m =
     (let m = free_if (rt_d_step_count rt \<noteq> None) StepCount m;
          m = free_if (rt_d_sample_st rt \<noteq> None) SampleSt m;
          m = free_if (rt_d_output_buf rt \<noteq> None) OutputBuf m;
          m = free_if (rt_d_query_buf rt \<noteq> None) QueryBuf m;
          m = (if rt_d_query_proj rt \<noteq> None then query_producer_destroy (rt_d_query_proj rt) m else m);
          (ms, m) = model_state_destroy (Some (rt_model_state rt)) m;
          m = free_if (rt_cmd_ring rt \<noteq> None) CmdRing m;
          m = free_if (rt_comp_ring rt \<noteq> None) CompRing m
      in (-1, rt\<lparr>rt_model_state := the ms\<rparr>, m))"

text \<open>From the model state on.\<close>

definition bench_init_device :: "runtime_env \<Rightarrow> Runtime \<Rightarrow> mem \<Rightarrow> int \<times> Runtime \<times> mem" where
  "bench_init_device env rt m =
     (let rt = rt\<lparr>rt_io_slots := RING_SIZE\<rparr>;
          (c, ms, m) = model_state_init (re_model_state env) (Some (rt_model_state rt)) (rt_io_slots rt) m;
          rt = rt\<lparr>rt_model_state := the ms\<rparr>
      in if c \<noteq> 0 then bench_cleanup rt m
         else let (c, proj, m) = query_producer_init (re_query_host env) (re_query_dev env) (rt_d_query_proj rt) m;
                  rt = rt\<lparr>rt_d_query_proj := proj\<rparr>
         in if c \<noteq> 0 then bench_cleanup rt m
         else if \<not> re_malloc_query env then bench_cleanup rt m
         else let rt = rt\<lparr>rt_d_query_buf := Some (ucast (rt_io_slots rt * 128) * 2)\<rparr>; m = mem_alloc QueryBuf m
         in if \<not> re_malloc_output env then bench_cleanup rt m
         else let rt = rt\<lparr>rt_d_output_buf := Some (ucast (rt_io_slots rt * 128) * 4)\<rparr>; m = mem_alloc OutputBuf m
         in if \<not> re_memset_output env then bench_cleanup rt m
         else if \<not> re_malloc_sample env then bench_cleanup rt m
         else let rt = rt\<lparr>rt_d_sample_st := Some (re_junk_sample env)\<rparr>; m = mem_alloc SampleSt m
         in if \<not> re_memcpy_sample env then bench_cleanup rt m
         else (0, rt\<lparr>rt_d_sample_st := Some host_sample_state\<rparr>, m))"

text \<open>From the arena on; \<open>None\<close> is the \<open>abort()\<close> of \<open>arena_init\<close>.\<close>

definition bench_init_arena :: "runtime_env \<Rightarrow> Runtime \<Rightarrow> mem \<Rightarrow> (int \<times> Runtime \<times> mem) option" where
  "bench_init_arena env rt m =
     (case arena_init (re_arena_huge env) (re_arena_small env) (rt_kv_arena rt) (push_bit 20 256) 16384 of
        None \<Rightarrow> None
      | Some a \<Rightarrow>
        let rt = rt\<lparr>rt_kv_arena := a\<rparr>; m = mem_alloc ArenaMap m
        in if \<not> re_malloc_step env then Some (bench_cleanup rt m)
           else let rt = rt\<lparr>rt_d_step_count := Some (re_junk_step env)\<rparr>; m = mem_alloc StepCount m
           in if \<not> re_memset_step env then Some (bench_cleanup rt m)
           else Some (bench_init_device env (rt\<lparr>rt_d_step_count := Some 0\<rparr>) m))"

text \<open>\<open>zero\<close> is the context after \<open>memset\<close>, \<open>extra\<close> the initialisation of what only one of the programs has.\<close>

definition bench_init_with ::
  "('z BenchHost_scheme \<Rightarrow> 'z BenchHost_scheme) \<Rightarrow> 'z BenchHost_scheme \<Rightarrow> runtime_env \<Rightarrow> int \<Rightarrow> mem \<Rightarrow>
     (int \<times> 'z BenchHost_scheme \<times> mem) option" where
  "bench_init_with extra zero env dev_id m =
     (let c = set_rt (\<lambda>rt. rt\<lparr>rt_dev_id := dev_id\<rparr>) zero
      in if \<not> re_set_device env
         then (case bench_cleanup (bh_rt c) m of (rc, rt, m) \<Rightarrow> Some (rc, c\<lparr>bh_rt := rt\<rparr>, m))
         else
           let c = set_rt (\<lambda>rt. rt\<lparr>rt_num_sms := re_sm_count env\<rparr>) c;
               c = c\<lparr>bh_pipeline := snd (pipeline_init (bh_pipeline c))\<rparr>;
               c = c\<lparr>bh_metrics := metrics_init (bh_metrics c)\<rparr>;
               c = c\<lparr>bh_hp_guard := hp_guard_init (bh_hp_guard c)\<rparr>;
               c = c\<lparr>bh_kv_prefix_table := kv_prefix_table_init (bh_kv_prefix_table c)\<rparr>;
               c = extra c;
               cmd = ring_create (re_ring_huge env) (re_ring_small env);
               c = set_rt (\<lambda>rt. rt\<lparr>rt_cmd_ring := cmd\<rparr>) c; m = try_alloc (cmd \<noteq> None) CmdRing m;
               comp = comp_ring_create (re_comp_huge env) (re_comp_small env);
               c = set_rt (\<lambda>rt. rt\<lparr>rt_comp_ring := comp\<rparr>) c; m = try_alloc (comp \<noteq> None) CompRing m
           in if cmd = None \<or> comp = None then Some (-1, c, m)
              else case bench_init_arena env (bh_rt c) m of
                     None \<Rightarrow> None
                   | Some (rc, rt, m) \<Rightarrow> Some (rc, c\<lparr>bh_reward_ring := reward_ring_init (bh_reward_ring c), bh_rt := rt\<rparr>, m))"

definition bench_init :: "runtime_env \<Rightarrow> int \<Rightarrow> mem \<Rightarrow> (int \<times> BenchHost \<times> mem) option" where
  "bench_init = bench_init_with (\<lambda>c. c) BenchHost_zero"

section \<open>Shutdown\<close>

definition bench_shutdown :: "nat \<Rightarrow> (nat \<Rightarrow> nat) \<Rightarrow> 'z BenchHost_scheme \<Rightarrow> mem \<Rightarrow> ('z BenchHost_scheme \<times> mem) option" where
  "bench_shutdown fuel gpu c m =
     (let rt = bh_rt c in
      case shutdown_loop fuel gpu (rt_num_sms rt) 0 (the (rt_cmd_ring rt)) of
        None \<Rightarrow> None
      | Some ring \<Rightarrow>
          let m = free_if (rt_d_step_count rt \<noteq> None) StepCount m;
              m = free_if (rt_d_sample_st rt \<noteq> None) SampleSt m;
              (ms, m) = model_state_destroy (Some (rt_model_state rt)) m;
              m = query_producer_destroy (rt_d_query_proj rt) m;
              m = free_if (rt_d_query_buf rt \<noteq> None) QueryBuf m;
              m = free_if (rt_d_output_buf rt \<noteq> None) OutputBuf m;
              m = mem_free CmdRing m;
              m = mem_free CompRing m;
              (unmap, arena) = arena_destroy (rt_kv_arena rt);
              m = free_if unmap ArenaMap m
          in Some (c\<lparr>bh_rt := rt\<lparr>rt_cmd_ring := Some ring, rt_model_state := the ms, rt_kv_arena := arena\<rparr>\<rparr>, m))"

section \<open>The traced benchmark\<close>

record TracedHost = BenchHost +
  th_trace :: TraceRing

definition TracedHost_zero :: TracedHost where
  "TracedHost_zero = BenchHost.extend BenchHost_zero
     \<lparr>th_trace = \<lparr>tr_entries = replicate (unat TRACE_CAPACITY) trace_entry_zero, tr_head = 0\<rparr>\<rparr>"

definition bench_init_traced :: "runtime_env \<Rightarrow> int \<Rightarrow> mem \<Rightarrow> (int \<times> TracedHost \<times> mem) option" where
  "bench_init_traced = bench_init_with (\<lambda>c. c\<lparr>th_trace := trace_init (th_trace c)\<rparr>) TracedHost_zero"

section \<open>Clean-up\<close>

lemma mem_free_commute: "r \<noteq> s \<Longrightarrow> mem_free r (mem_free s m) = mem_free s (mem_free r m)"
  by (auto simp: mem_free_def intro!: arg_cong[of _ _ "\<lambda>x. m\<lparr>mem_live := x\<rparr>"])

lemma free_if_commute: "r \<noteq> s \<Longrightarrow> free_if a r (free_if b s m) = free_if b s (free_if a r m)"
  by (simp add: free_if_def mem_free_commute)

text \<open>The clean-up of the runtime is that of the benchmarks followed by the release of the arena.\<close>

definition then_arena :: "int \<times> Runtime \<times> mem \<Rightarrow> int \<times> Runtime \<times> mem" where
  "then_arena = (\<lambda>(c, rt, m). case arena_destroy (rt_kv_arena rt) of
     (unmap, arena) \<Rightarrow> (c, rt\<lparr>rt_kv_arena := arena\<rparr>, free_if unmap ArenaMap m))"

lemma runtime_cleanup_split: "runtime_cleanup rt m = then_arena (bench_cleanup rt m)"
  by (simp add: runtime_cleanup_def bench_cleanup_def then_arena_def Let_def query_producer_destroy_def
      free_if_commute[of StepCount] split: prod.split)


lemma bench_cleanup_keeps: "bench_cleanup rt m = (c, rt', m') \<Longrightarrow> c = -1 \<and> rt_kv_arena rt' = rt_kv_arena rt"
  by (auto simp: bench_cleanup_def Let_def split: prod.splits)

definition then_arena_if :: "int \<times> Runtime \<times> mem \<Rightarrow> int \<times> Runtime \<times> mem" where
  "then_arena_if x = (if fst x = 0 then x else then_arena x)"

lemma runtime_init_device_split: "runtime_init_device env rt m = then_arena_if (bench_init_device env rt m)"
proof -
  have "then_arena_if (bench_cleanup rt m) = runtime_cleanup rt m" for rt m
    using bench_cleanup_keeps[of rt m] by (cases "bench_cleanup rt m") (auto simp: then_arena_if_def runtime_cleanup_split)
  moreover have "then_arena_if (0, x) = (0, x)" for x by (simp add: then_arena_if_def)
  ultimately show ?thesis
    unfolding runtime_init_device_def bench_init_device_def Let_def
    by (simp only: if_distrib[of then_arena_if] prod.case_distrib[of then_arena_if])
qed

definition arena_kept :: "Runtime \<Rightarrow> int \<times> Runtime \<times> mem \<Rightarrow> bool" where
  "arena_kept rt x \<longleftrightarrow> rt_kv_arena (fst (snd x)) = rt_kv_arena rt"

lemma bench_init_device_keeps: "arena_kept rt (bench_init_device env rt m)"
proof -
  have cl: "arena_kept rt (bench_cleanup r k)" if "rt_kv_arena r = rt_kv_arena rt" for r k
    using bench_cleanup_keeps[of r k] that by (cases "bench_cleanup r k") (simp add: arena_kept_def)
  show ?thesis
    unfolding bench_init_device_def Let_def
    by (simp only: if_distrib[of "arena_kept rt"] prod.case_distrib[of "arena_kept rt"])
      (simp add: cl, simp add: arena_kept_def split: prod.split)
qed

text \<open>What is still live when the runtime's clean-up would have released everything.\<close>

lemma then_arena_released:
  assumes "then_arena (c, rt, m) = (c', rt', m')" "ka_base (rt_kv_arena rt) \<noteq> 0" "mem_live m' = {}" "\<not> mem_error m'"
  shows "c' = c \<and> m = m'\<lparr>mem_live := {ArenaMap}\<rparr>"
proof -
  have "c' = c" "ArenaMap \<in> mem_live m" "m' = m\<lparr>mem_live := mem_live m - {ArenaMap}\<rparr>"
    using assms by (auto simp: then_arena_def arena_destroy_def mem_free_def split: if_splits)
  moreover from this assms(3) have "mem_live m = {ArenaMap}" by auto
  ultimately show ?thesis by (metis mem_update_same mem.update_convs(1) mem.surjective mem.ext_inject)
qed

text \<open>The blocks a failed initialisation leaves behind.\<close>

definition bench_leak :: "runtime_env \<Rightarrow> res set" where
  "bench_leak env =
     (let cmd = re_ring_huge env \<or> re_ring_small env; comp = re_comp_huge env \<or> re_comp_small env in
      if \<not> re_set_device env then {}
      else if \<not> cmd \<or> \<not> comp then owns_if cmd CmdRing \<union> owns_if comp CompRing
      else {ArenaMap})"

lemma bench_init_arena_outcome:
  assumes m: "\<not> mem_error m" "mem_live m = {CompRing, CmdRing}" and base: "re_arena_huge env \<noteq> 0" "re_arena_small env \<noteq> 0"
    and rt: "rt = Runtime_zero\<lparr>rt_dev_id := d, rt_num_sms := re_sm_count env, rt_cmd_ring := Some CommandRing_zero,
      rt_comp_ring := Some CompletionRing_zero\<rparr>"
    and run: "bench_init_arena env rt m = Some (c, rt', m')"
  shows "c = 0 \<and> rt' = runtime_ready env d (268435456) 16384 \<and> m' = m\<lparr>mem_live := runtime_blocks\<rparr> \<or>
    c = -1 \<and> m' = m\<lparr>mem_live := {ArenaMap}\<rparr>"
proof -
  define b where "b = (if re_arena_huge env = MAP_FAILED then re_arena_small env else re_arena_huge env)"
  let ?arena = "\<lparr>ka_base = b, ka_capacity = 268435456, ka_block_size = 16384, ka_bitmap = replicate BITMAP_WORDS 0\<rparr>"
  have b0: "b \<noteq> 0" using base by (simp add: b_def)
  have arena: "arena_init (re_arena_huge env) (re_arena_small env) (rt_kv_arena rt) 268435456 16384 =
      (if b = MAP_FAILED then None else Some ?arena)"
    by (simp add: arena_init_def Runtime_zero_def b_def rt)
  have bm: "b \<noteq> MAP_FAILED" using run by (auto simp: bench_init_arena_def arena)
  let ?r2 = "rt\<lparr>rt_kv_arena := ?arena\<rparr>" and ?m2 = "m\<lparr>mem_live := {ArenaMap, CompRing, CmdRing}\<rparr>"
  let ?m3 = "m\<lparr>mem_live := {StepCount, ArenaMap, CompRing, CmdRing}\<rparr>"
  have fail: "c = -1 \<and> m' = m\<lparr>mem_live := {ArenaMap}\<rparr>"
    if "then_arena (c, rt', m') = (c1, rt1, m\<lparr>mem_live := {}\<rparr>)" "c1 = -1" "rt_kv_arena rt' = ?arena" for c1 rt1
    using then_arena_released[OF that(1)] that m(1) b0 by simp
  have cl: "c = -1 \<and> m' = m\<lparr>mem_live := {ArenaMap}\<rparr>"
    if "bench_cleanup r k = (c, rt', m')" "runtime_cleanup r k = (-1, r', m\<lparr>mem_live := {}\<rparr>)" "rt_kv_arena r = ?arena" for r k r'
    using fail[of "-1" r'] that bench_cleanup_keeps[OF that(1)] runtime_cleanup_split[of r k] by simp
  have z: "rt_d_step_count rt = None" "rt_d_sample_st rt = None" "rt_model_state rt = model_state_null"
      "rt_d_query_proj rt = None" "rt_d_query_buf rt = None" "rt_d_output_buf rt = None"
      "rt_cmd_ring rt = Some CommandRing_zero" "rt_comp_ring rt = Some CompletionRing_zero"
    by (simp_all add: rt Runtime_zero_def)
  have r2: "runtime_cleanup ?r2 ?m2 = (-1, runtime_released ?r2, m\<lparr>mem_live := {}\<rparr>)"
    using b0 by (subst cleanup_outcome) (auto simp: owns_simps z)
  have r3: "runtime_cleanup (?r2\<lparr>rt_d_step_count := Some j\<rparr>) ?m3 = (-1, runtime_released (?r2\<lparr>rt_d_step_count := Some j\<rparr>), m\<lparr>mem_live := {}\<rparr>)" for j
    using b0 by (subst cleanup_outcome) (auto simp: owns_simps z)
  have live: "runtime_live (runtime_ready env d (268435456) 16384)" using base by (rule runtime_ready_live)
  have dev: "c = 0 \<and> rt' = runtime_ready env d (268435456) 16384 \<and> m' = m\<lparr>mem_live := runtime_blocks\<rparr> \<or>
      c = -1 \<and> m' = m\<lparr>mem_live := {ArenaMap}\<rparr>"
    if "bench_init_device env (?r2\<lparr>rt_d_step_count := Some 0\<rparr>) ?m3 = (c, rt', m')"
  proof -
    obtain c4 rt4 m4 where d4: "runtime_init_device env (?r2\<lparr>rt_d_step_count := Some 0\<rparr>) ?m3 = (c4, rt4, m4)" by (metis prod_cases3)
    have "c4 = 0 \<and> rt4 = runtime_ready env d (268435456) 16384 \<and> m4 = m\<lparr>mem_live := runtime_owns rt4\<rparr> \<or> c4 = -1 \<and> m4 = m\<lparr>mem_live := {}\<rparr>"
      using runtime_init_device_outcome [OF _ _ _ _ _ _ _ _ _ _ d4] b0
      by (fastforce simp: Runtime_zero_def runtime_ready_def b_def rt)
    moreover have "c4 = c \<and> (c = 0 \<longrightarrow> rt4 = rt' \<and> m4 = m') \<and> (c \<noteq> 0 \<longrightarrow> then_arena (c, rt', m') = (c4, rt4, m4))"
      using runtime_init_device_split[of env "?r2\<lparr>rt_d_step_count := Some 0\<rparr>" ?m3] that d4
      by (auto simp: then_arena_if_def then_arena_def split: if_splits prod.splits)
    ultimately show ?thesis using fail[of c4 rt4] bench_init_device_keeps[of "?r2\<lparr>rt_d_step_count := Some 0\<rparr>" env ?m3] that
      runtime_live_owns[OF live] by (auto simp: arena_kept_def)
  qed
  show ?thesis
    using run bm m z cl[OF _ r2] cl[OF _ r3] dev
    by (auto simp: bench_init_arena_def arena Let_def split: if_splits)
qed


section \<open>The traced initialisation\<close>

lemma host_fields [simp]:
  "bh_pipeline (BenchHost.truncate c) = bh_pipeline c" "bh_metrics (BenchHost.truncate c) = bh_metrics c"
  "bh_hp_guard (BenchHost.truncate c) = bh_hp_guard c" "bh_kv_prefix_table (BenchHost.truncate c) = bh_kv_prefix_table c"
  "bh_reward_ring (BenchHost.truncate c) = bh_reward_ring c" "bh_rt (BenchHost.truncate c) = bh_rt c"
  by (simp_all add: BenchHost.defs)

lemma host_updates [simp]:
  "BenchHost.truncate (bh_pipeline_update f c) = bh_pipeline_update f (BenchHost.truncate c)"
  "BenchHost.truncate (bh_metrics_update g c) = bh_metrics_update g (BenchHost.truncate c)"
  "BenchHost.truncate (bh_hp_guard_update h c) = bh_hp_guard_update h (BenchHost.truncate c)"
  "BenchHost.truncate (bh_kv_prefix_table_update i c) = bh_kv_prefix_table_update i (BenchHost.truncate c)"
  "BenchHost.truncate (bh_reward_ring_update j c) = bh_reward_ring_update j (BenchHost.truncate c)"
  "BenchHost.truncate (bh_rt_update k c) = bh_rt_update k (BenchHost.truncate c)"
  by (simp_all add: BenchHost.defs)

lemma host_trace_update [simp]: "BenchHost.truncate (th_trace_update f c) = BenchHost.truncate c"
  by (simp add: BenchHost.defs)

lemma traced_zero:
  "BenchHost.truncate TracedHost_zero = BenchHost_zero" "bh_pipeline TracedHost_zero = bh_pipeline BenchHost_zero"
  "bh_metrics TracedHost_zero = bh_metrics BenchHost_zero" "bh_hp_guard TracedHost_zero = bh_hp_guard BenchHost_zero"
  "bh_kv_prefix_table TracedHost_zero = bh_kv_prefix_table BenchHost_zero"
  "bh_reward_ring TracedHost_zero = bh_reward_ring BenchHost_zero" "bh_rt TracedHost_zero = bh_rt BenchHost_zero"
  by (simp_all add: TracedHost_zero_def BenchHost.defs)

text \<open>
  The traced benchmark starts as the plain one: its \<open>bench_init\<close> has the same outcome and leaves the
  same blocks and, apart from the trace, the same context.
\<close>

lemma bench_init_traced_same:
  "map_option (map_prod id (map_prod BenchHost.truncate id)) (bench_init_traced env dev_id m) = bench_init env dev_id m"
  unfolding bench_init_traced_def bench_init_def bench_init_with_def Let_def
  by (cases "re_set_device env"; cases "ring_create (re_ring_huge env) (re_ring_small env)";
      cases "comp_ring_create (re_comp_huge env) (re_comp_small env)")
    (simp_all add: traced_zero split: option.split prod.split)

section \<open>Properties\<close>

lemma bench_shutdown_runtime:
  "bench_shutdown fuel gpu c m = map_option (apfst (\<lambda>rt. c\<lparr>bh_rt := rt\<rparr>)) (runtime_shutdown fuel gpu (bh_rt c) m)"
  by (simp add: bench_shutdown_def runtime_shutdown_def Let_def split: option.split prod.split)

text \<open>The context of the benchmark's loops once the kernel is launched on the two rings.\<close>

definition bench_context :: "u8 list \<Rightarrow> 'f list list option \<Rightarrow> 'z BenchHost_scheme \<Rightarrow> 'f BenchContext" where
  "bench_context smem ob h =
     \<lparr>bx_pipeline = bh_pipeline h, bx_metrics = bh_metrics h, bx_hp_guard = bh_hp_guard h, bx_reward_ring = bh_reward_ring h,
      bx_dev = (worker_start (the (rt_cmd_ring (bh_rt h))) smem ob)\<lparr>ws_comp := the (rt_comp_ring (bh_rt h))\<rparr>, bx_clock = 0\<rparr>"

lemma mem_live_same: "mem_live m = A \<Longrightarrow> m\<lparr>mem_live := A\<rparr> = m"
  by (metis mem_update_same)

lemma bench_init_outcome:
  assumes "mem_live m = {}" "\<not> mem_error m" and base: "re_arena_huge env \<noteq> 0" "re_arena_small env \<noteq> 0"
    and run: "bench_init env dev_id m = Some (c, h, m')"
  shows "c = 0 \<and> bh_rt h = runtime_ready env dev_id 268435456 16384 \<and> m' = m\<lparr>mem_live := runtime_blocks\<rparr> \<and>
      (\<exists>p r. bh_pipeline h = snd (pipeline_init p) \<and> bh_metrics h = metrics_init r) \<or>
    c = -1 \<and> m' = m\<lparr>mem_live := bench_leak env\<rparr>"
proof -
  let ?rt = "Runtime_zero\<lparr>rt_dev_id := dev_id, rt_num_sms := re_sm_count env, rt_cmd_ring := Some CommandRing_zero,
      rt_comp_ring := Some CompletionRing_zero\<rparr>"
  have rings: "ring_create a b = (if a \<or> b then Some CommandRing_zero else None)"
    "comp_ring_create a b = (if a \<or> b then Some CompletionRing_zero else None)" for a b
    by (simp_all add: ring_create_def comp_ring_create_def)
  have rt0: "bh_rt BenchHost_zero = Runtime_zero" by (simp add: BenchHost_zero_def)
  have m0: "m\<lparr>mem_live := {}\<rparr> = m" using assms(1) by (rule mem_live_same)
  have cl: "bench_cleanup (Runtime_zero\<lparr>rt_dev_id := dev_id\<rparr>) m = (-1, Runtime_zero\<lparr>rt_dev_id := dev_id\<rparr>, m)"
    by (simp add: bench_cleanup_def Runtime_zero_def model_state_destroy_null)
  have arena: "c = 0 \<and> rt = runtime_ready env dev_id 268435456 16384 \<and> m' = m\<lparr>mem_live := runtime_blocks\<rparr> \<or>
      c = -1 \<and> m' = m\<lparr>mem_live := {ArenaMap}\<rparr>"
    if "bench_init_arena env ?rt (m\<lparr>mem_live := {CompRing, CmdRing}\<rparr>) = Some (c, rt, m')" for rt
    using bench_init_arena_outcome[OF _ _ base refl that] assms(2) by simp
  show ?thesis
  proof (cases "re_set_device env")
    case False
    then have "c = -1" "m' = m" using run by (simp_all add: bench_init_def bench_init_with_def rt0 cl)
    then show ?thesis using m0 False by (simp add: bench_leak_def)
  next
    case True
    then show ?thesis
      using run assms(1)
      by (auto simp: mem_live_same bench_init_def bench_init_with_def rt0 rings bench_leak_def owns_if_def Let_def
          split: if_splits option.splits prod.splits dest!: arena)
  qed
qed

text \<open>
  C29. Initialisation of the benchmarks. It returns 0 with every block live and a context from which
  the loops of the benchmark start, and a shutdown straight after it gives every block back; or it
  returns -1 and leaves exactly the blocks of \<open>bench_leak\<close>: the ring that was created when the other
  one failed, and the arena whenever a later call failed. Unlike \<open>runtime_init\<close> it is not all or
  nothing.
\<close>

theorem bench_init_exact:
  assumes "mem_live m = {}" and "\<not> mem_error m" and "re_arena_huge env \<noteq> 0" and "re_arena_small env \<noteq> 0"
    and "0 \<le> re_sm_count env" and "re_sm_count env \<le> 4096" and "length smem = 3 * 16384"
    and "bench_init env dev_id m = Some (c, h, m')"
  shows "c = 0 \<and> runtime_live (bh_rt h) \<and> m' = m\<lparr>mem_live := runtime_blocks\<rparr> \<and> bench_ready (bench_context smem ob h) \<and>
      (\<exists>h'. bench_shutdown (nat (re_sm_count env)) gpu h m' = Some (h', m)) \<or>
    c = -1 \<and> m' = m\<lparr>mem_live := bench_leak env\<rparr>"
proof -
  have m0: "m\<lparr>mem_live := {}\<rparr> = m" using assms(1) by (rule mem_live_same)
  let ?rt = "runtime_ready env dev_id 268435456 16384"
  have live: "runtime_live ?rt" using assms(3,4) by (rule runtime_ready_live)
  have f: "rt_cmd_ring ?rt = Some CommandRing_zero" "rt_comp_ring ?rt = Some CompletionRing_zero" "rt_num_sms ?rt = re_sm_count env"
    by (simp_all add: runtime_ready_def)
  have "bench_ready (bench_context smem ob h)"
    if "bh_rt h = ?rt" "\<exists>p r. bh_pipeline h = snd (pipeline_init p) \<and> bh_metrics h = metrics_init r"
    using that f assms(7) unfolding bench_ready_def bench_context_def by (auto simp: worker_start_def)
  moreover have "\<exists>h'. bench_shutdown (nat (re_sm_count env)) gpu h (m\<lparr>mem_live := runtime_blocks\<rparr>) = Some (h', m)" if "bh_rt h = ?rt"
  proof -
    have room: "length (cmd_contents CommandRing_zero) + nat (re_sm_count env) \<le> 4096"
      unfolding CommandRing_zero_contents using assms(6) by simp
    have budget: "cmd_budget (nat (re_sm_count env)) CommandRing_zero" using assms(6) by (simp add: CommandRing_zero_def rep_budget_def)
    from shutdown_loop_sends[OF CommandRing_zero_inv budget room order_refl, of gpu 0] obtain r' where
      "shutdown_loop (nat (re_sm_count env)) gpu (rt_num_sms ?rt) 0 (the (rt_cmd_ring ?rt)) = Some r'" using f assms(5) by auto
    from runtime_shutdown_releases[OF live this, of m] show ?thesis using that m0 by (auto simp: bench_shutdown_runtime)
  qed
  ultimately show ?thesis using bench_init_outcome[OF assms(1-4,8)] live by auto
qed

text \<open>The completion ring cannot be created: the command ring is left behind.\<close>

definition env_no_comp_ring :: runtime_env where
  "env_no_comp_ring = env_example\<lparr>re_comp_huge := False, re_comp_small := False\<rparr>"

theorem bench_init_exact_witness:
  "\<exists>h. bench_init env_no_comp_ring 0 \<lparr>mem_live = {}, mem_error = False\<rparr> = Some (-1, h, \<lparr>mem_live = {CmdRing}, mem_error = False\<rparr>)"
proof -
  let ?m = "\<lparr>mem_live = {}, mem_error = False\<rparr>" and ?e = env_no_comp_ring
  have nz: "re_arena_huge ?e \<noteq> 0" "re_arena_small ?e \<noteq> 0" "0 \<le> re_sm_count ?e" "re_sm_count ?e \<le> 4096"
    by (simp_all add: env_no_comp_ring_def env_example_def MAP_FAILED_def)
  obtain h m' where run: "bench_init ?e 0 ?m = Some (-1, h, m')"
    by (simp add: bench_init_def bench_init_with_def Let_def env_no_comp_ring_def env_example_def ring_create_def comp_ring_create_def)
  have "bench_leak ?e = {CmdRing}" by (simp add: bench_leak_def env_no_comp_ring_def env_example_def owns_if_def)
  then show ?thesis using bench_init_exact[OF _ _ nz _ run, of "replicate 49152 0"] run by auto
qed

end
