(* ===== verification/Bench_Trace.thy ===== *)
theory Bench_Trace
  imports Bench_Pipeline Trace
begin

text \<open>
  The traced pipeline benchmark, \<^verbatim>\<open>bench/bench_trace_pipeline.cu\<close>: the benchmark of
  \<open>Bench_Pipeline\<close> with a trace ring in its context and an event pushed at every step of a rollout. Its
  context extends the plain one, so that the operations without trace events are shared; \<open>now k\<close>
  is the \<open>k\<close>-th reading of the clock. The final call of \<open>trace_pipeline_window\<close> uses an event that no
  header declares and is left out.
\<close>

section \<open>Operations\<close>

record 'f TracedContext = "'f BenchContext" +
  tx_trace :: TraceRing
  tx_events :: nat

definition trace_at :: "(nat \<Rightarrow> u64) \<Rightarrow> trace_event_t \<Rightarrow> u32 \<Rightarrow> u32 \<Rightarrow> 'f TracedContext \<Rightarrow> 'f TracedContext" where
  "trace_at now ty rid sq c = c\<lparr>tx_trace := trace_push (now (tx_events c)) (tx_trace c) ty rid sq, tx_events := Suc (tx_events c)\<rparr>"

abbreviation comp_id :: "Completion \<Rightarrow> u32" where
  "comp_id x \<equiv> ucast (cp_seq_id x AND 0xFFFFFFFF)"

partial_function (option) discard_loop_traced :: "'f bench_env \<Rightarrow> (nat \<Rightarrow> u64) \<Rightarrow> 'f TracedContext \<Rightarrow> 'f TracedContext option" where
  "discard_loop_traced env now c =
     (case bench_poll env c of
        (None, c1) \<Rightarrow> Some c1
      | (Some x, c1) \<Rightarrow>
          discard_loop_traced env now (trace_at now TRACE_COMPLETION_POLLED (comp_id x) (cp_token_id x) (set_metrics inc_consumed c1)))"

partial_function (option) drain_loop_traced :: "'f bench_env \<Rightarrow> (nat \<Rightarrow> u64) \<Rightarrow> int \<Rightarrow> 'f TracedContext \<Rightarrow> (int \<times> 'f TracedContext) option" where
  "drain_loop_traced env now n c =
     (case bench_poll env c of
        (None, c1) \<Rightarrow> Some (n, c1)
      | (Some x, c1) \<Rightarrow>
          drain_loop_traced env now (n + 1)
            (trace_at now TRACE_COMPLETION_POLLED (comp_id x) (cp_token_id x)
              (trace_at now TRACE_DESC_CONSUMED (comp_id x) (cp_token_id x) (set_metrics inc_consumed c1))))"

definition drain_completions_traced :: "'f bench_env \<Rightarrow> (nat \<Rightarrow> u64) \<Rightarrow> 'f TracedContext \<Rightarrow> (int \<times> 'f TracedContext) option" where
  "drain_completions_traced env now c = drain_loop_traced env now 0 c"

definition trace_posted :: "(nat \<Rightarrow> u64) \<Rightarrow> u32 \<Rightarrow> DecodeDispatchBatch \<Rightarrow> 'f TracedContext \<Rightarrow> 'f TracedContext" where
  "trace_posted now rid batch c =
     fold (\<lambda>i c. trace_at now TRACE_DESC_COMMITTED rid (ds_output_token_offset (db_descs batch ! i))
                   (trace_at now TRACE_DESC_POSTED rid (ds_output_token_offset (db_descs batch ! i)) c))
       [0..<unat (db_count batch)] c"

definition dispatch_decode_window_traced ::
  "'f bench_env \<Rightarrow> (nat \<Rightarrow> u64) \<Rightarrow> u32 \<Rightarrow> u32 \<Rightarrow> u32 \<Rightarrow> u32 \<Rightarrow> 'f TracedContext \<Rightarrow> (int \<times> 'f TracedContext) option" where
  "dispatch_decode_window_traced env now rollout_id step_start step_count kv_block_base c =
     (let batch = the (decode_batch_reset (Some (be_junk env (bx_clock c))));
          step_count = (if step_count > DECODE_DESCRIPTOR_BATCH_LIMIT then DECODE_DESCRIPTOR_BATCH_LIMIT else step_count) in
      case fill_window env rollout_id step_start step_count kv_block_base batch of
        None \<Rightarrow> Some (-1, c)
      | Some batch \<Rightarrow>
          (case bench_submit env batch c of (rc, c) \<Rightarrow>
             if rc \<noteq> 0 then
               (case discard_loop_traced env now (set_metrics inc_ring_full_spins c) of
                  None \<Rightarrow> None
                | Some c \<Rightarrow>
                    (case bench_submit env batch c of (rc, c) \<Rightarrow>
                       if rc \<noteq> 0 then Some (-1, c)
                       else Some (0, set_metrics (add_posted (db_count batch)) (trace_posted now rollout_id batch c))))
             else Some (0, set_metrics (add_posted (db_count batch)) (trace_posted now rollout_id batch c))))"

definition finish_rollout_traced :: "'f bench_env \<Rightarrow> (nat \<Rightarrow> u64) \<Rightarrow> u32 \<Rightarrow> u32 \<Rightarrow> 'f TracedContext \<Rightarrow> 'f TracedContext" where
  "finish_rollout_traced env now rid tokens c =
     (if rollout_get (pl_slab (bx_pipeline c)) rid = None then c
      else
        let c = set_pipeline (enqueue Q_REWARD rid \<circ> step_rollout rid ROLL_DECODING ROLL_REWARD_PENDING) c;
            c = c\<lparr>bx_reward_ring := snd (reward_push (bx_reward_ring c) (reward_of_rollout env rid tokens))\<rparr>;
            c = set_metrics (\<lambda>m. m\<lparr>me_reward_handoffs := me_reward_handoffs m + 1\<rparr>) c;
            c = trace_at now TRACE_REWARD_SCORED rid tokens (trace_at now TRACE_REWARD_POSTED rid tokens c);
            c = set_pipeline (enqueue Q_TRAJECTORY rid \<circ> step_rollout rid ROLL_REWARD_PENDING ROLL_TRAJECTORY_READY) c;
            c = set_pipeline (enqueue Q_DONE rid \<circ> step_rollout rid ROLL_TRAJECTORY_READY ROLL_DONE) c;
            c = set_metrics (\<lambda>m. m\<lparr>me_rollouts_completed := me_rollouts_completed m + 1\<rparr>) c;
            c = trace_at now TRACE_TRAJECTORY_DONE rid tokens c;
            c = set_pipeline (\<lambda>p. p\<lparr>pl_slab := rollout_free (pl_slab p) rid\<rparr>) c
        in trace_at now TRACE_ROLLOUT_FREE rid 0 c)"

partial_function (option) window_loop_traced ::
  "'f bench_env \<Rightarrow> (nat \<Rightarrow> u64) \<Rightarrow> u32 \<Rightarrow> u32 \<Rightarrow> u32 \<Rightarrow> int \<Rightarrow> 'f TracedContext \<Rightarrow> 'f TracedContext option" where
  "window_loop_traced env now rid tokens t kv_block c =
     (if t < tokens then
        (let window = (if tokens - t > DECODE_DESCRIPTOR_BATCH_LIMIT then DECODE_DESCRIPTOR_BATCH_LIMIT else tokens - t) in
         case dispatch_decode_window_traced env now rid t window (word_of_int kv_block) c of
           None \<Rightarrow> None
         | Some (rc, c) \<Rightarrow>
             if rc \<noteq> 0 then Some (set_metrics inc_pipeline_overflow c)
             else window_loop_traced env now rid tokens (t + DECODE_DESCRIPTOR_BATCH_LIMIT) (c_rem (kv_block + uint window) 128) c)
      else Some c)"

fun run_rollouts_traced :: "'f bench_env \<Rightarrow> (nat \<Rightarrow> u64) \<Rightarrow> u32 \<Rightarrow> u32 list \<Rightarrow> 'f TracedContext \<Rightarrow> 'f TracedContext option" where
  "run_rollouts_traced env now tokens [] c = Some c"
| "run_rollouts_traced env now tokens (rid # ids) c =
     (case window_loop_traced env now rid tokens 0 (uint (rid mod 128)) c of
        None \<Rightarrow> None
      | Some c \<Rightarrow> run_rollouts_traced env now tokens ids (finish_rollout_traced env now rid tokens c))"

definition schedule_decode_batches_traced ::
  "'f bench_env \<Rightarrow> (nat \<Rightarrow> u64) \<Rightarrow> u32 \<Rightarrow> u32 \<Rightarrow> 'f TracedContext \<Rightarrow> (int \<times> 'f TracedContext) option" where
  "schedule_decode_batches_traced env now batch_max tokens c =
     (let batch = pipeline_stage_target_batch (bx_pipeline c) Q_DECODE batch_max;
          batch = (if batch > DECODE_BATCH_LIMIT then DECODE_BATCH_LIMIT else batch) in
      if batch = 0 then Some (0, c)
      else case schedule_ids (unat batch) (bx_pipeline c) of (ids, p) \<Rightarrow>
        let c = c\<lparr>bx_pipeline := p\<rparr>; launched = of_nat (length ids) in
        if launched = (0 :: u32) then Some (0, c)
        else (case run_rollouts_traced env now tokens ids
                     (trace_at now TRACE_DECODE_BATCH launched tokens (set_metrics (note_decode_batch_metrics launched) c)) of
                None \<Rightarrow> None
              | Some c \<Rightarrow> Some (uint launched, set_pipeline (\<lambda>p. pipeline_release p Q_DECODE launched) c)))"

partial_function (option) admit_loop_traced ::
  "'f bench_env \<Rightarrow> (nat \<Rightarrow> u64) \<Rightarrow> u32 \<Rightarrow> u32 \<Rightarrow> 'f TracedContext \<Rightarrow> (bool \<times> 'f TracedContext) option" where
  "admit_loop_traced env now tokens rid c =
     (case pipeline_try_push (bx_pipeline c) Q_DECODE rid of (rc, p) \<Rightarrow>
        if rc = 0 then Some (True, c\<lparr>bx_pipeline := p\<rparr>)
        else (case schedule_decode_batches_traced env now DECODE_BATCH_LIMIT tokens (c\<lparr>bx_pipeline := p\<rparr>) of
                None \<Rightarrow> None
              | Some (n, c) \<Rightarrow>
                  if n = 0 then Some (False, set_metrics inc_pipeline_overflow c)
                  else admit_loop_traced env now tokens rid c))"

partial_function (option) rollout_loop_traced ::
  "'f bench_env \<Rightarrow> (nat \<Rightarrow> u64) \<Rightarrow> u32 \<Rightarrow> int \<Rightarrow> int \<Rightarrow> 'f TracedContext \<Rightarrow> 'f TracedContext option" where
  "rollout_loop_traced env now tokens n_rollouts r c =
     (if r < n_rollouts then
        (case rollout_alloc (pl_slab (bx_pipeline c)) of (rc, out, slab) \<Rightarrow>
           if rc \<noteq> 0 then Some c
           else
             let rid = the out;
                 c = set_pipeline (start_rollout tokens r rid)
                       (trace_at now TRACE_ROLLOUT_ALLOC rid 0 (set_pipeline (\<lambda>p. p\<lparr>pl_slab := slab\<rparr>) c)) in
             case admit_loop_traced env now tokens rid c of
               None \<Rightarrow> None
             | Some (admitted, c) \<Rightarrow>
                 if \<not> admitted
                 then rollout_loop_traced env now tokens n_rollouts (r + 1)
                        (trace_at now TRACE_ROLLOUT_FREE rid 0 (set_pipeline (\<lambda>p. p\<lparr>pl_slab := rollout_free (pl_slab p) rid\<rparr>) c))
                 else if (word_of_int (r + 1) :: u32) mod DECODE_BATCH_LIMIT = 0
                 then (case schedule_decode_batches_traced env now DECODE_BATCH_LIMIT tokens c of
                         None \<Rightarrow> None
                       | Some (_, c) \<Rightarrow> rollout_loop_traced env now tokens n_rollouts (r + 1) c)
                 else rollout_loop_traced env now tokens n_rollouts (r + 1) c)
      else Some c)"

partial_function (option) flush_loop_traced :: "'f bench_env \<Rightarrow> (nat \<Rightarrow> u64) \<Rightarrow> u32 \<Rightarrow> 'f TracedContext \<Rightarrow> 'f TracedContext option" where
  "flush_loop_traced env now tokens c =
     (if pipeline_occupancy (bx_pipeline c) Q_DECODE > 0
      then (case schedule_decode_batches_traced env now DECODE_BATCH_LIMIT tokens c of
              None \<Rightarrow> None
            | Some (_, c) \<Rightarrow> flush_loop_traced env now tokens c)
      else Some c)"

partial_function (option) comps_loop_traced ::
  "'f bench_env \<Rightarrow> (nat \<Rightarrow> u64) \<Rightarrow> u64 \<Rightarrow> u64 \<Rightarrow> 'f TracedContext \<Rightarrow> (u64 \<times> 'f TracedContext) option" where
  "comps_loop_traced env now expected comps c =
     (if comps < expected
      then (case drain_completions_traced env now c of
              None \<Rightarrow> None
            | Some (n, c) \<Rightarrow> comps_loop_traced env now expected (comps + word_of_int n) c)
      else Some (comps, c))"

definition bench_main_traced :: "'f bench_env \<Rightarrow> (nat \<Rightarrow> u64) \<Rightarrow> int \<Rightarrow> int \<Rightarrow> 'f TracedContext \<Rightarrow> (u64 \<times> 'f TracedContext) option" where
  "bench_main_traced env now n_rollouts tokens c =
     (let c = set_pipeline (\<lambda>p. pipeline_credits_set p 256 128 128 1024) (c\<lparr>bx_hp_guard := hp_guard_activate (bx_hp_guard c)\<rparr>) in
      case rollout_loop_traced env now (word_of_int tokens) n_rollouts 0 c of
        None \<Rightarrow> None
      | Some c \<Rightarrow>
          (case flush_loop_traced env now (word_of_int tokens) c of
             None \<Rightarrow> None
           | Some c \<Rightarrow>
               (case comps_loop_traced env now (me_descriptors_posted (bx_metrics c)) 0 c of
                  None \<Rightarrow> None
                | Some (comps, c) \<Rightarrow>
                    let c = c\<lparr>bx_hp_guard := hp_guard_deactivate (bx_hp_guard c)\<rparr> in
                    Some (comps, set_metrics (\<lambda>m. m\<lparr>me_completion_overflow_attempts := ucast (cq_overflow (ws_comp (bx_dev c)))\<rparr>) c))))"

section \<open>Tracing changes nothing else\<close>

abbreviation plain :: "'f TracedContext \<Rightarrow> 'f BenchContext" where
  "plain \<equiv> BenchContext.truncate"

lemma plain_fields [simp]:
  "bx_pipeline (plain c) = bx_pipeline c" "bx_metrics (plain c) = bx_metrics c" "bx_hp_guard (plain c) = bx_hp_guard c"
  "bx_reward_ring (plain c) = bx_reward_ring c" "bx_dev (plain c) = bx_dev c" "bx_clock (plain c) = bx_clock c"
  by (simp_all add: BenchContext.defs)

lemma plain_updates [simp]:
  "plain (bx_pipeline_update f c) = bx_pipeline_update f (plain c)" "plain (bx_metrics_update g c) = bx_metrics_update g (plain c)"
  "plain (bx_hp_guard_update h c) = bx_hp_guard_update h (plain c)" "plain (bx_reward_ring_update i c) = bx_reward_ring_update i (plain c)"
  "plain (bx_dev_update j c) = bx_dev_update j (plain c)" "plain (bx_clock_update k c) = bx_clock_update k (plain c)"
  "plain (tx_trace_update l c) = plain c" "plain (tx_events_update m c) = plain c"
  by (simp_all add: BenchContext.defs)

lemma plain_trace_at [simp]: "plain (trace_at now ty rid sq c) = plain c"
  by (simp add: trace_at_def)

lemma plain_gpu_runs [simp]: "plain (gpu_runs env c) = gpu_runs env (plain c)"
  by (simp add: gpu_runs_def)

lemma plain_trace_posted [simp]: "plain (trace_posted now rid batch c) = plain c"
proof -
  have "plain (fold (\<lambda>i c. trace_at now a rid (f i) (trace_at now b rid (f i) c)) is c) = plain c" for a b f "is" and c :: "'a TracedContext"
    by (induction "is" arbitrary: c) simp_all
  then show ?thesis unfolding trace_posted_def .
qed

lemma trace_at_fields [simp]:
  "bx_pipeline (trace_at now ty rid sq c) = bx_pipeline c" "bx_metrics (trace_at now ty rid sq c) = bx_metrics c"
  "bx_hp_guard (trace_at now ty rid sq c) = bx_hp_guard c" "bx_reward_ring (trace_at now ty rid sq c) = bx_reward_ring c"
  "bx_dev (trace_at now ty rid sq c) = bx_dev c"
  by (simp_all add: trace_at_def)

lemma trace_posted_fields: "bx_metrics (trace_posted now rid batch c) = bx_metrics c"
  using plain_fields(2)[of "trace_posted now rid batch c"] by (simp del: plain_fields) simp

lemma plain_bench_poll: "bench_poll env (plain c) = apsnd plain (bench_poll env c)"
  by (simp add: bench_poll_def Let_def flip: plain_gpu_runs split: prod.split)

lemma plain_bench_submit: "bench_submit env batch (plain c) = apsnd plain (bench_submit env batch c)"
  by (simp add: bench_submit_def Let_def flip: plain_gpu_runs split: prod.split)

lemma option_simI:
  assumes "\<And>y. A = Some y \<Longrightarrow> B = Some (h y)" and "\<And>z. B = Some z \<Longrightarrow> A \<noteq> None"
  shows "map_option h A = B"
  using assms by (cases A; cases B) auto


lemma discard_loop_plain:
  "map_option plain (discard_loop_traced env now c) = map_option snd (drain_loop env n (plain c))"
proof (rule option_simI)
  show "map_option snd (drain_loop env n (plain c)) = Some (plain y)" if "discard_loop_traced env now c = Some y" for y
    using that
  proof (induction arbitrary: n rule: discard_loop_traced.raw_induct[rotated, consumes 1, case_names step])
    case (step loop env now c y)
    show ?case
      using step(2) by (subst drain_loop.simps) (auto simp: plain_bench_poll split: prod.splits option.splits dest!: step(1))
  qed
  show "discard_loop_traced env now c \<noteq> None" if "map_option snd (drain_loop env n (plain c)) = Some z" for z
  proof -
    from that obtain w where "drain_loop env n (plain c) = Some w" by auto
    then show ?thesis
    proof (induction env n cc \<equiv> "plain c" w arbitrary: c rule: drain_loop.raw_induct[rotated, consumes 1, case_names step])
      case (step loop env n w)
      show ?case
        using step(2) by (subst discard_loop_traced.simps) (auto simp: plain_bench_poll simp del: not_None_eq split: prod.splits option.splits intro!: step(1))
    qed
  qed
qed

lemma drain_loop_plain:
  "map_option (apsnd plain) (drain_loop_traced env now n c) = drain_loop env n (plain c)"
proof (rule option_simI)
  show "drain_loop env n (plain c) = Some (apsnd plain y)" if "drain_loop_traced env now n c = Some y" for y
    using that
  proof (induction rule: drain_loop_traced.raw_induct[rotated, consumes 1, case_names step])
    case (step loop env now n c y)
    show ?case
      using step(2) by (subst drain_loop.simps) (auto simp: plain_bench_poll split: prod.splits option.splits dest!: step(1))
  qed
  show "drain_loop_traced env now n c \<noteq> None" if "drain_loop env n (plain c) = Some z" for z
    using that
  proof (induction env n cc \<equiv> "plain c" z arbitrary: c rule: drain_loop.raw_induct[rotated, consumes 1, case_names step])
    case (step loop env n w)
    show ?case
      using step(2) by (subst drain_loop_traced.simps) (auto simp: plain_bench_poll simp del: not_None_eq split: prod.splits option.splits intro!: step(1))
  qed
qed


lemma dispatch_window_plain:
  "map_option (apsnd plain) (dispatch_decode_window_traced env now rid t n kv c) = dispatch_decode_window env rid t n kv (plain c)"
proof -
  define k where "k f c = fst (the (drain_loop env 0 (bx_metrics_update f (plain c))))" for f and c :: "'a TracedContext"
  have d: "drain_loop env 0 (bx_metrics_update f (plain c)) = map_option (\<lambda>c1. (k f c, plain c1)) (discard_loop_traced env now (bx_metrics_update f c))" for c f
    using discard_loop_plain[of env now "bx_metrics_update f c" 0]
    by (cases "discard_loop_traced env now (bx_metrics_update f c)"; cases "drain_loop env 0 (plain (bx_metrics_update f c))") (auto simp: k_def)
  let ?n = "if n > DECODE_DESCRIPTOR_BATCH_LIMIT then DECODE_DESCRIPTOR_BATCH_LIMIT else n"
  show ?thesis
  proof (cases "fill_window env rid t ?n kv (the (decode_batch_reset (Some (be_junk env (bx_clock c)))))")
    case None
    then show ?thesis by (simp add: dispatch_decode_window_def dispatch_decode_window_traced_def Let_def)
  next
    case (Some b)
    obtain rc c1 where s: "bench_submit env b c = (rc, c1)" by fastforce
    show ?thesis
      using Some s
      by (cases "discard_loop_traced env now (set_metrics inc_ring_full_spins c1)")
        (simp_all add: dispatch_decode_window_def dispatch_decode_window_traced_def Let_def plain_bench_submit trace_posted_fields d split: prod.split)
  qed
qed

lemma finish_rollout_plain: "plain (finish_rollout_traced env now rid tokens c) = finish_rollout env rid tokens (plain c)"
  by (simp add: finish_rollout_traced_def finish_rollout_def Let_def trace_at_def)

lemma window_loop_plain:
  "map_option plain (window_loop_traced env now rid tokens t kv c) = window_loop env rid tokens t kv (plain c)"
proof (rule option_simI)
  show "window_loop env rid tokens t kv (plain c) = Some (plain y)" if "window_loop_traced env now rid tokens t kv c = Some y" for y
    using that
  proof (induction rule: window_loop_traced.raw_induct[rotated, consumes 1, case_names step])
    case (step loop env now rid tokens t kv c y)
    show ?case
      using step(2) 
      by (subst window_loop.simps)
        (auto simp: Let_def simp flip: dispatch_window_plain[of env now] split: if_splits prod.splits option.splits dest!: step(1))
  qed
  show "window_loop_traced env now rid tokens t kv c \<noteq> None" if "window_loop env rid tokens t kv (plain c) = Some z" for z
    using that
  proof (induction env rid tokens t kv cc \<equiv> "plain c" z arbitrary: c rule: window_loop.raw_induct[rotated, consumes 1, case_names step])
    case (step loop env rid tokens t kv z)
    show ?case
      using step(2) 
      by (subst window_loop_traced.simps)
        (auto simp: Let_def simp flip: dispatch_window_plain[of env now] simp del: not_None_eq split: if_splits prod.splits option.splits intro!: step(1))
  qed
qed


lemma run_rollouts_plain:
  "map_option plain (run_rollouts_traced env now tokens ids c) = run_rollouts env tokens ids (plain c)"
proof (induction ids arbitrary: c)
  case (Cons rid ids)
  show ?case
    by (cases "window_loop_traced env now rid tokens 0 (uint (rid mod 128)) c")
      (simp_all add: Cons finish_rollout_plain flip: window_loop_plain[of env now])
qed simp

lemma schedule_plain:
  "map_option (apsnd plain) (schedule_decode_batches_traced env now m tokens c) = schedule_decode_batches env m tokens (plain c)"
proof -
  have r: "run_rollouts env tokens ids (bx_metrics_update f (bx_pipeline_update g (plain c))) =
      map_option plain (run_rollouts_traced env now tokens ids
        (trace_at now TRACE_DECODE_BATCH (of_nat (length ids)) tokens (bx_metrics_update f (bx_pipeline_update g c))))" for ids f g
    by (simp add: run_rollouts_plain)
  define b where "b = (let b = pipeline_stage_target_batch (bx_pipeline c) Q_DECODE m in if b > DECODE_BATCH_LIMIT then DECODE_BATCH_LIMIT else b)"
  obtain ids p where i: "schedule_ids (unat b) (bx_pipeline c) = (ids, p)" by fastforce
  show ?thesis
    unfolding schedule_decode_batches_def schedule_decode_batches_traced_def plain_fields
    by (simp add: i r Let_def option.case_eq_if option.map_sel flip: b_def[unfolded Let_def])
qed


lemma admit_loop_plain: "map_option (apsnd plain) (admit_loop_traced env now tokens rid c) = admit_loop env tokens rid (plain c)"
proof (rule option_simI)
  have sch: "schedule_decode_batches env m k (bx_pipeline_update f (plain c)) =
      map_option (apsnd plain) (schedule_decode_batches_traced env now m k (bx_pipeline_update f c))" for env m k f and c :: "'a TracedContext" and now
    by (simp add: schedule_plain)
  show "admit_loop env tokens rid (plain c) = Some (apsnd plain y)" if "admit_loop_traced env now tokens rid c = Some y" for y
    using that
  proof (induction rule: admit_loop_traced.raw_induct[rotated, consumes 1, case_names step])
    case (step loop env now tokens rid c y)
    show ?case
      using step(2)
      by (subst admit_loop.simps) (auto simp: sch[of env _ _ _ _ now] split: if_splits prod.splits option.splits dest!: step(1))
  qed
  show "admit_loop_traced env now tokens rid c \<noteq> None" if "admit_loop env tokens rid (plain c) = Some z" for z
    using that
  proof (induction env tokens rid cc \<equiv> "plain c" z arbitrary: c rule: admit_loop.raw_induct[rotated, consumes 1, case_names step])
    case (step loop env tokens rid z)
    show ?case
      using step(2)
      by (subst admit_loop_traced.simps)
        (auto simp: sch[of env _ _ _ _ now] simp del: not_None_eq split: if_splits prod.splits option.splits intro!: step(1))
  qed
qed

lemma flush_loop_plain: "map_option plain (flush_loop_traced env now tokens c) = flush_loop env tokens (plain c)"
proof (rule option_simI)
  show "flush_loop env tokens (plain c) = Some (plain y)" if "flush_loop_traced env now tokens c = Some y" for y
    using that
  proof (induction rule: flush_loop_traced.raw_induct[rotated, consumes 1, case_names step])
    case (step loop env now tokens c y)
    show ?case
      using step(2)
      by (subst flush_loop.simps) (auto simp flip: schedule_plain[of env now] split: if_splits prod.splits option.splits dest!: step(1))
  qed
  show "flush_loop_traced env now tokens c \<noteq> None" if "flush_loop env tokens (plain c) = Some z" for z
    using that
  proof (induction env tokens cc \<equiv> "plain c" z arbitrary: c rule: flush_loop.raw_induct[rotated, consumes 1, case_names step])
    case (step loop env tokens z)
    show ?case
      using step(2)
      by (subst flush_loop_traced.simps)
        (auto simp flip: schedule_plain[of env now] simp del: not_None_eq split: if_splits prod.splits option.splits intro!: step(1))
  qed
qed

lemma comps_loop_plain: "map_option (apsnd plain) (comps_loop_traced env now e n c) = comps_loop env e n (plain c)"
proof (rule option_simI)
  note drain = drain_loop_plain[of _ now, folded drain_completions_def drain_completions_traced_def]
  show "comps_loop env e n (plain c) = Some (apsnd plain y)" if "comps_loop_traced env now e n c = Some y" for y
    using that
  proof (induction rule: comps_loop_traced.raw_induct[rotated, consumes 1, case_names step])
    case (step loop env now e n c y)
    show ?case
      using step(2)
      by (subst comps_loop.simps) (auto simp: drain_completions_def drain_completions_traced_def simp flip: drain_loop_plain[of env now] split: if_splits prod.splits option.splits dest!: step(1))
  qed
  show "comps_loop_traced env now e n c \<noteq> None" if "comps_loop env e n (plain c) = Some z" for z
    using that
  proof (induction env e n cc \<equiv> "plain c" z arbitrary: c rule: comps_loop.raw_induct[rotated, consumes 1, case_names step])
    case (step loop env e n z)
    show ?case
      using step(2)
      by (subst comps_loop_traced.simps)
        (auto simp: drain_completions_def drain_completions_traced_def simp flip: drain_loop_plain[of env now] simp del: not_None_eq split: if_splits prod.splits option.splits intro!: step(1))
  qed
qed


lemma rollout_loop_plain: "map_option plain (rollout_loop_traced env now tokens n r c) = rollout_loop env tokens n r (plain c)"
proof (rule option_simI)
  have adm: "admit_loop env m k ((plain c)\<lparr>bx_pipeline := p2\<rparr>) =
      map_option (apsnd plain) (admit_loop_traced env now m k ((trace_at now TRACE_ROLLOUT_ALLOC k 0 (c\<lparr>bx_pipeline := p1\<rparr>))\<lparr>bx_pipeline := p2\<rparr>))"
    for env m k p2 and c :: "'a TracedContext" and now p1
    by (simp add: admit_loop_plain)
  show "rollout_loop env tokens n r (plain c) = Some (plain y)" if "rollout_loop_traced env now tokens n r c = Some y" for y
    using that
  proof (induction rule: rollout_loop_traced.raw_induct[rotated, consumes 1, case_names step])
    case (step loop env now tokens n r c y)
    obtain rc out slab where alloc: "rollout_alloc (pl_slab (bx_pipeline c)) = (rc, out, slab)" by (metis prod.exhaust)
    show ?case
      using step(2) alloc
      by (subst rollout_loop.simps)
        (auto simp: Let_def adm[of env _ _ _ c now "(bx_pipeline c)\<lparr>pl_slab := slab\<rparr>"] simp flip: schedule_plain[of env now] 
          split: if_splits prod.splits option.splits dest!: step(1))
  qed
  show "rollout_loop_traced env now tokens n r c \<noteq> None" if "rollout_loop env tokens n r (plain c) = Some z" for z
    using that
  proof (induction env tokens n r cc \<equiv> "plain c" z arbitrary: c rule: rollout_loop.raw_induct[rotated, consumes 1, case_names step])
    case (step loop env tokens n r z)
    obtain rc out slab where alloc: "rollout_alloc (pl_slab (bx_pipeline c)) = (rc, out, slab)" by (metis prod.exhaust)
    show ?case
      using step(2) alloc
      by (subst rollout_loop_traced.simps)
        (auto simp: Let_def adm[of env _ _ _ c now "(bx_pipeline c)\<lparr>pl_slab := slab\<rparr>"] simp flip: schedule_plain[of env now] 
          simp del: not_None_eq split: if_splits prod.splits option.splits intro!: step(1))
  qed
qed

lemma bench_main_plain:
  "map_option (apsnd plain) (bench_main_traced env now n_rollouts tokens c) = bench_main env n_rollouts tokens (plain c)"
proof -
  let ?w = "word_of_int tokens :: u32"
  let ?c = "set_pipeline (\<lambda>p. pipeline_credits_set p 256 128 128 1024) (c\<lparr>bx_hp_guard := hp_guard_activate (bx_hp_guard c)\<rparr>)"
  have rollouts: "bench_rollouts env n_rollouts tokens (plain c) =
      (case rollout_loop_traced env now ?w n_rollouts 0 ?c of None \<Rightarrow> None | Some c \<Rightarrow> map_option plain (flush_loop_traced env now ?w c))"
    using rollout_loop_plain[of env now ?w n_rollouts 0 ?c, symmetric]
    by (cases "rollout_loop_traced env now ?w n_rollouts 0 ?c") (simp_all add: bench_rollouts_def Let_def flush_loop_plain)
  show ?thesis
    unfolding bench_main_def rollouts bench_main_traced_def
    by (auto simp: Let_def simp flip: comps_loop_plain[of env now] split: option.split)
qed

text \<open>
  C28. The traced benchmark is the benchmark: whatever the clock shows, \<open>main\<close> of the traced program ends
  exactly when the plain one does, with the same number of completions and the same context apart
  from the trace.
\<close>

theorem traced_bench_same_run:
  "map_option (apsnd plain) (bench_main_traced env now n_rollouts tokens c) = bench_main env n_rollouts tokens (plain c)"
  by (rule bench_main_plain)

end
