(* ===== verification/Bench_Fastpath.thy ===== *)
theory Bench_Fastpath
  imports Infer_Submit Hw_Worker
begin

text \<open>
  The benchmark of the hardware fast path, \<^verbatim>\<open>bench/bench_hw_fastpath.c\<close>: the main thread pushes
  descriptors, rings the doorbell once per batch and collects completions, while the worker of
  \<open>Hw_Worker\<close> runs in a second thread. Before every access of the main thread to a ring the worker
  makes \<open>runs k\<close> ticks, where \<open>k\<close> numbers the accesses. Loops return \<open>None\<close> when they do not end; the
  timing of the submissions is left out.
\<close>

section \<open>State\<close>

text \<open>The worker with its rings, the variables of the main thread and the number of doorbell writes.\<close>

record fast_bench =
  fb_sys :: hw_sys
  fb_clock :: nat
  fb_submitted :: u32
  fb_completed :: u32
  fb_doorbell :: u32
  fb_writes :: nat

abbreviation fb_worker :: "fast_bench \<Rightarrow> hw_worker_sim_t" where
  "fb_worker s \<equiv> sy_worker (fb_sys s)"

definition sys_tick :: "hw_sys \<Rightarrow> hw_sys" where
  "sys_tick y = (case hw_worker_tick (sy_pc y) (sy_worker y) of (pc, w) \<Rightarrow> y\<lparr>sy_pc := pc, sy_worker := w\<rparr>)"

definition worker_runs :: "(nat \<Rightarrow> nat) \<Rightarrow> fast_bench \<Rightarrow> fast_bench" where
  "worker_runs runs s = s\<lparr>fb_sys := (sys_tick ^^ runs (fb_clock s)) (fb_sys s), fb_clock := Suc (fb_clock s)\<rparr>"

section \<open>Operations\<close>

definition make_decode_desc :: "u32 \<Rightarrow> hw_desc_t" where
  "make_decode_desc rollout_id =
     (let desc = hw_desc_zero\<lparr>hd_opcode := DESC_OP_DECODE, hd_rollout_id := rollout_id, hd_kv_arena_id := 1,
            hd_kv_offset := push_bit 12 (ucast rollout_id), hd_delta_offset := push_bit 8 (ucast rollout_id),
            hd_seq_len := rollout_id AND 7, hd_max_tokens := 128, hd_user_data := ucast rollout_id\<rparr>
      in desc\<lparr>hd_checksum_or_cookie := hd_kv_offset desc XOR hd_delta_offset desc\<rparr>)"

definition fast_push :: "(nat \<Rightarrow> nat) \<Rightarrow> hw_desc_t \<Rightarrow> fast_bench \<Rightarrow> int \<times> fast_bench" where
  "fast_push runs d s =
     (let s = worker_runs runs s; y = fb_sys s in
      case hw_ring_push (ws_cmdq (sy_worker y)) d of (rc, q) \<Rightarrow>
        (rc, s\<lparr>fb_sys := y\<lparr>sy_worker := (sy_worker y)\<lparr>ws_cmdq := q\<rparr>,
                 sy_submitted := (if rc = 0 then sy_submitted y @ [d] else sy_submitted y)\<rparr>\<rparr>))"

definition fast_pop :: "(nat \<Rightarrow> nat) \<Rightarrow> fast_bench \<Rightarrow> hw_desc_t option \<times> fast_bench" where
  "fast_pop runs s =
     (let s = worker_runs runs s; y = fb_sys s in
      case hw_ring_pop (ws_doneq (sy_worker y)) of (rc, out, q) \<Rightarrow>
        (if rc = 0 then out else None,
         s\<lparr>fb_sys := y\<lparr>sy_worker := (sy_worker y)\<lparr>ws_doneq := q\<rparr>,
             sy_polled := (case out of Some d \<Rightarrow> sy_polled y @ [d] | None \<Rightarrow> sy_polled y)\<rparr>\<rparr>))"

definition ring_doorbell :: "fast_bench \<Rightarrow> fast_bench" where
  "ring_doorbell s = s\<lparr>fb_doorbell := mmio_write32 (fb_doorbell s) (hw_ring_load_acquire (hr_tail (ws_cmdq (fb_worker s)))),
     fb_writes := Suc (fb_writes s)\<rparr>"

partial_function (option) drain_done :: "(nat \<Rightarrow> nat) \<Rightarrow> fast_bench \<Rightarrow> fast_bench option" where
  "drain_done runs s =
     (case fast_pop runs s of
        (None, s) \<Rightarrow> Some s
      | (Some d, s) \<Rightarrow> drain_done runs (s\<lparr>fb_completed := fb_completed s + 1\<rparr>))"

partial_function (option) push_loop :: "(nat \<Rightarrow> nat) \<Rightarrow> hw_desc_t \<Rightarrow> fast_bench \<Rightarrow> fast_bench option" where
  "push_loop runs d s =
     (case fast_push runs d s of (rc, s) \<Rightarrow>
        if rc \<noteq> 0 then (case drain_done runs s of None \<Rightarrow> None | Some s \<Rightarrow> push_loop runs d s)
        else Some s)"

partial_function (option) submit_loop :: "(nat \<Rightarrow> nat) \<Rightarrow> u32 \<Rightarrow> u32 \<Rightarrow> u32 \<Rightarrow> fast_bench \<Rightarrow> fast_bench option" where
  "submit_loop runs batch_size iterations i s =
     (if i < iterations then
        (case push_loop runs (make_decode_desc (i + 1)) s of
           None \<Rightarrow> None
         | Some s \<Rightarrow>
             let s = s\<lparr>fb_submitted := fb_submitted s + 1\<rparr>;
                 s = (if (i + 1) mod batch_size = 0 \<or> i + 1 = iterations then ring_doorbell s else s) in
             (case (if (i + 1) AND 255 = 0 then drain_done runs s else Some s) of
                None \<Rightarrow> None
              | Some s \<Rightarrow> submit_loop runs batch_size iterations (i + 1) s))
      else Some s)"

partial_function (option) wait_done :: "(nat \<Rightarrow> nat) \<Rightarrow> u32 \<Rightarrow> fast_bench \<Rightarrow> fast_bench option" where
  "wait_done runs iterations s =
     (if fb_completed s < iterations then
        (case fast_pop runs s of
           (None, s) \<Rightarrow> wait_done runs iterations s
         | (Some d, s) \<Rightarrow> wait_done runs iterations (s\<lparr>fb_completed := fb_completed s + 1\<rparr>))
      else Some s)"

partial_function (option) push_stop :: "(nat \<Rightarrow> nat) \<Rightarrow> fast_bench \<Rightarrow> fast_bench option" where
  "push_stop runs s =
     (case fast_push runs (hw_desc_zero\<lparr>hd_opcode := DESC_OP_STOP\<rparr>) s of (rc, s) \<Rightarrow>
        if rc \<noteq> 0 then push_stop runs s else Some s)"

text \<open>\<open>pthread_join\<close>: the worker runs on alone until it returns.\<close>

partial_function (option) join_worker :: "hw_sys \<Rightarrow> hw_sys option" where
  "join_worker y = (if sy_pc y = WReturned then Some y else join_worker (sys_tick y))"

text \<open>The numbers it prints, the completions it collected and the worker after the join.\<close>

record fast_report =
  fr_doorbell_writes :: u32
  fr_submitted :: u32
  fr_completed :: u32
  fr_decoded_tokens :: u64
  fr_final_doorbell :: u32
  fr_actual_writes :: nat
  fr_end :: hw_sys

definition fast_start :: "hw_ring_t \<Rightarrow> hw_ring_t \<Rightarrow> fast_bench" where
  "fast_start cmdq doneq =
     \<lparr>fb_sys = \<lparr>sy_pc = WLoop, sy_worker = \<lparr>ws_cmdq = cmdq, ws_doneq = doneq, ws_stop = 0, ws_decoded_tokens = 0, ws_completions = 0\<rparr>,
        sy_submitted = [], sy_polled = []\<rparr>,
      fb_clock = 0, fb_submitted = 0, fb_completed = 0, fb_doorbell = 0, fb_writes = 0\<rparr>"

text \<open>
  The whole benchmark. The inner \<open>None\<close> is the jump to \<open>cleanup\<close> when a ring or the array of latencies
  cannot be allocated.
\<close>

definition run_batch_benchmark ::
  "(nat \<Rightarrow> nat) \<Rightarrow> bool \<Rightarrow> bool \<Rightarrow> bool \<Rightarrow> u32 \<Rightarrow> u32 \<Rightarrow> fast_report option option" where
  "run_batch_benchmark runs cmd_ok done_ok lat_ok batch_size iterations =
     (case (hw_ring_create cmd_ok, hw_ring_create done_ok) of
        (Some cmdq, Some doneq) \<Rightarrow>
          if \<not> lat_ok then Some None
          else
            (case submit_loop runs batch_size iterations 0 (fast_start cmdq doneq) of
               None \<Rightarrow> None
             | Some s \<Rightarrow>
                 (case wait_done runs iterations s of
                    None \<Rightarrow> None
                  | Some s \<Rightarrow>
                      (case push_stop runs s of
                         None \<Rightarrow> None
                       | Some s1 \<Rightarrow>
                           (case join_worker (fb_sys (ring_doorbell s1)) of
                              None \<Rightarrow> None
                            | Some y \<Rightarrow>
                                Some (Some \<lparr>fr_doorbell_writes = (iterations + batch_size - 1) div batch_size,
                                  fr_submitted = fb_submitted s, fr_completed = fb_completed s,
                                  fr_decoded_tokens = ws_decoded_tokens (fb_worker s), fr_final_doorbell = mmio_read32 (fb_doorbell s),
                                  fr_actual_writes = fb_writes s, fr_end = y\<rparr>)))))
      | _ \<Rightarrow> Some None)"

text \<open>The call of the submission interface: its status and the doorbell afterwards.\<close>

definition run_submit_api_smoke :: "bool \<Rightarrow> bool \<Rightarrow> (int \<times> u32) option" where
  "run_submit_api_smoke cmd_ok done_ok =
     (case (hw_ring_create cmd_ok, hw_ring_create done_ok) of
        (Some cmdq, Some doneq) \<Rightarrow>
          (case infer_submit_decode
                  (Some \<lparr>ic_cmdq = Some cmdq, ic_doneq = Some doneq, ic_doorbell = Some 0, ic_gpu_group_id = 3, ic_kv_arena_id = 11\<rparr>)
                  1 0x1000 0x2000 7 16 64 of
             (rc, ctx) \<Rightarrow> Some (rc, mmio_read32 (the (ic_doorbell (the ctx)))))
      | _ \<Rightarrow> None)"

section \<open>Progress of the worker\<close>

text \<open>
  While the benchmark runs no stop descriptor is queued and the worker has not returned.
  \<open>work\<close> bounds the ticks and pops that are left.
\<close>

definition fast_inv :: "hw_sys \<Rightarrow> bool" where
  "fast_inv y \<longleftrightarrow> hw_sys_inv y \<and> ws_stop (sy_worker y) = 0 \<and> sy_pc y \<noteq> WReturned \<and> list_all is_decode (sy_submitted y)"

definition work :: "hw_sys \<Rightarrow> nat" where
  "work y = 4 * length (hw_ring_contents (ws_cmdq (sy_worker y))) + 3 * length (in_flight (sy_pc y)) +
     of_bool (sy_pc y = WCounting) + length (hw_ring_contents (ws_doneq (sy_worker y)))"

definition stuck :: "hw_sys \<Rightarrow> bool" where
  "stuck y \<longleftrightarrow> sy_pc y = WLoop \<and> hw_ring_contents (ws_cmdq (sy_worker y)) = [] \<or>
     in_flight (sy_pc y) \<noteq> [] \<and> length (hw_ring_contents (ws_doneq (sy_worker y))) = 65536"

lemma fast_inv_accounts:
  assumes "fast_inv y"
  shows "length (sy_submitted y) = length (sy_polled y) + length (hw_ring_contents (ws_doneq (sy_worker y))) +
      length (in_flight (sy_pc y)) + length (hw_ring_contents (ws_cmdq (sy_worker y)))"
proof -
  from assms obtain consumed where c: "sy_submitted y = consumed @ hw_ring_contents (ws_cmdq (sy_worker y))"
      "hw_outputs consumed = sy_polled y @ hw_ring_contents (ws_doneq (sy_worker y)) @ in_flight (sy_pc y)"
    by (auto simp: fast_inv_def hw_sys_inv_def)
  have "list_all is_decode consumed" using assms c(1) by (simp add: fast_inv_def)
  then have "length (hw_outputs consumed) = length consumed" by (simp add: hw_outputs_def list_all_iff)
  then show ?thesis using c by (metis length_append add.assoc)
qed

lemma tick_progress:
  assumes "fast_inv y"
  shows "fast_inv (sys_tick y) \<and> sy_submitted (sys_tick y) = sy_submitted y \<and> sy_polled (sys_tick y) = sy_polled y \<and>
    (if stuck y then sys_tick y = y else work (sys_tick y) < work y)"
proof -
  obtain pc w where t: "hw_worker_tick (sy_pc y) (sy_worker y) = (pc, w)" by fastforce
  have inv: "hw_sys_inv (sys_tick y)" using hw_tick_inv[OF _ t] assms t by (simp add: fast_inv_def sys_tick_def)
  have rings: "hw_ring_inv (ws_cmdq (sy_worker y))" "hw_ring_inv (ws_doneq (sy_worker y))"
    using assms by (simp_all add: fast_inv_def hw_sys_inv_def hw_worker_inv_def)
  have run: "ws_stop (sy_worker y) = 0" using assms by (simp add: fast_inv_def)
  show ?thesis
  proof (cases "sy_pc y")
    case WReturned
    then show ?thesis using assms by (simp add: fast_inv_def)
  next
    case WCounting
    then show ?thesis using t inv assms
      by (auto simp: sys_tick_def hw_worker_tick.simps fast_inv_def work_def stuck_def simp del: length_rep_contents)
  next
    case (WPushing d)
    show ?thesis
    proof (cases "length (hw_ring_contents (ws_doneq (sy_worker y))) < 65536")
      case True
      with rings(2) obtain q where "hw_ring_push (ws_doneq (sy_worker y)) d = (0, q)" "hw_ring_contents q = hw_ring_contents (ws_doneq (sy_worker y)) @ [d]"
        by (rule hw_push_room)
      then show ?thesis using t WPushing inv assms True
        by (auto simp: sys_tick_def hw_worker_tick.simps fast_inv_def work_def stuck_def simp del: length_rep_contents)
    next
      case False
      then have full: "65536 \<le> unat (hr_tail (ws_doneq (sy_worker y)) - hr_head (ws_doneq (sy_worker y)))" by simp
      then have "length (hw_ring_contents (ws_doneq (sy_worker y))) = 65536"
        using rings(2) by (simp add: rep_wf_def ring_wf_def)
      moreover have "pc = sy_pc y" "w = sy_worker y" using t WPushing hw_ring_push_full[OF full] by (auto simp: hw_worker_tick.simps)
      then have "sys_tick y = y" by (simp add: sys_tick_def t)
      ultimately show ?thesis using WPushing assms by (simp add: stuck_def)
    qed
  next
    case WLoop
    show ?thesis
    proof (cases "hw_ring_contents (ws_cmdq (sy_worker y))")
      case Nil
      then have "hw_ring_pop (ws_cmdq (sy_worker y)) = (-1, None, ws_cmdq (sy_worker y))" by (simp add: hw_ring_pop_none)
      then have "pc = sy_pc y" "w = sy_worker y" using t WLoop run by (auto simp: hw_worker_tick.simps)
      then have "sys_tick y = y" by (simp add: sys_tick_def t)
      then show ?thesis using WLoop assms Nil by (simp add: stuck_def del: rep_contents_Nil)
    next
      case (Cons d ds)
      with rings(1) obtain q where pop: "hw_ring_pop (ws_cmdq (sy_worker y)) = (0, Some d, q)" "hw_ring_contents q = ds"
        by (rule hw_pop_Cons)
      have "is_decode d" using assms Cons by (auto simp: fast_inv_def hw_sys_inv_def)
      then show ?thesis using t WLoop assms Cons inv pop hw_tick_pop[OF pop(1) run] decode_not_stop[of d]
        by (auto simp: sys_tick_def fast_inv_def work_def stuck_def simp del: length_rep_contents rep_contents_Nil)
    qed
  qed
qed

lemma tick_tail: "hr_tail (ws_cmdq (sy_worker (sys_tick y))) = hr_tail (ws_cmdq (sy_worker y))"
  by (cases "sy_pc y") (auto simp: sys_tick_def hw_worker_tick.simps hw_ring_pop_def Let_def split: prod.splits option.splits if_splits)

lemma ticks_progress:
  assumes "fast_inv y"
  shows "fast_inv ((sys_tick ^^ k) y) \<and> sy_submitted ((sys_tick ^^ k) y) = sy_submitted y \<and> sy_polled ((sys_tick ^^ k) y) = sy_polled y \<and>
    hr_tail (ws_cmdq (sy_worker ((sys_tick ^^ k) y))) = hr_tail (ws_cmdq (sy_worker y)) \<and>
    (if stuck y then (sys_tick ^^ k) y = y else 0 < k \<longrightarrow> work ((sys_tick ^^ k) y) < work y)"
proof (induction k)
  case 0
  then show ?case using assms by simp
next
  case (Suc k)
  then show ?case using tick_progress[of "(sys_tick ^^ k) y"] tick_tail[of "(sys_tick ^^ k) y"]
    by (cases "k = 0") (auto split: if_splits)
qed

section \<open>The main thread\<close>

text \<open>The counters of the main thread agree with what it submitted and collected.\<close>

definition fast_ok :: "fast_bench \<Rightarrow> bool" where
  "fast_ok s \<longleftrightarrow> fast_inv (fb_sys s) \<and> fb_completed s = of_nat (length (sy_polled (fb_sys s))) \<and>
     hr_tail (ws_cmdq (fb_worker s)) = of_nat (length (sy_submitted (fb_sys s)))"

definition same_vars :: "fast_bench \<Rightarrow> fast_bench \<Rightarrow> bool" where
  "same_vars s s' \<longleftrightarrow> fb_submitted s' = fb_submitted s \<and> fb_doorbell s' = fb_doorbell s \<and> fb_writes s' = fb_writes s"

lemma same_vars_refl [simp]: "same_vars s s"
  by (simp add: same_vars_def)

lemma same_vars_trans: "same_vars a b \<Longrightarrow> same_vars b c \<Longrightarrow> same_vars a c"
  by (simp add: same_vars_def)

lemma worker_runs_progress:
  assumes "fast_ok s" "0 < runs (fb_clock s)"
  shows "fast_ok (worker_runs runs s) \<and> same_vars s (worker_runs runs s) \<and> fb_completed (worker_runs runs s) = fb_completed s \<and>
    sy_submitted (fb_sys (worker_runs runs s)) = sy_submitted (fb_sys s) \<and> sy_polled (fb_sys (worker_runs runs s)) = sy_polled (fb_sys s) \<and>
    (if stuck (fb_sys s) then fb_sys (worker_runs runs s) = fb_sys s else work (fb_sys (worker_runs runs s)) < work (fb_sys s))"
  using ticks_progress[of "fb_sys s" "runs (fb_clock s)"] assms by (simp add: worker_runs_def fast_ok_def same_vars_def)

lemma fast_pop_outcome:
  assumes "fast_ok s" "\<And>k. 0 < runs k" "fast_pop runs s = (out, s1)"
  defines "s' \<equiv> (case out of None \<Rightarrow> s1 | Some d \<Rightarrow> s1\<lparr>fb_completed := fb_completed s1 + 1\<rparr>)"
  shows "fast_ok s' \<and> same_vars s s' \<and> sy_submitted (fb_sys s') = sy_submitted (fb_sys s) \<and> work (fb_sys s') \<le> work (fb_sys s) \<and>
    (out \<noteq> None \<longrightarrow> work (fb_sys s') < work (fb_sys s)) \<and>
    (out = None \<longrightarrow> hw_ring_contents (ws_doneq (fb_worker s')) = [] \<and>
       (work (fb_sys s') < work (fb_sys s) \<or> stuck (fb_sys s) \<and> fb_sys s' = fb_sys s))"
proof -
  let ?s = "worker_runs runs s" let ?y = "fb_sys ?s"
  note w = worker_runs_progress[where runs = runs, OF assms(1) assms(2)]
  have inv: "hw_ring_inv (ws_doneq (sy_worker ?y))" using w by (simp add: fast_ok_def fast_inv_def hw_sys_inv_def hw_worker_inv_def)
  show ?thesis
  proof (cases "hw_ring_contents (ws_doneq (sy_worker ?y))")
    case Nil
    then have pop: "hw_ring_pop (ws_doneq (sy_worker ?y)) = (-1, None, ws_doneq (sy_worker ?y))" by (simp add: hw_ring_pop_none)
    then have "out = None" "s' = ?s" using assms(3) by (auto simp: fast_pop_def s'_def)
    then show ?thesis using w Nil by (auto simp del: rep_contents_Nil split: if_splits)
  next
    case (Cons d ds)
    with inv obtain q where pop: "hw_ring_pop (ws_doneq (sy_worker ?y)) = (0, Some d, q)" "hw_ring_inv q" "hw_ring_contents q = ds"
      by (rule hw_pop_Cons)
    have out: "out = Some d" and s': "s' = ?s\<lparr>fb_sys := ?y\<lparr>sy_worker := (sy_worker ?y)\<lparr>ws_doneq := q\<rparr>, sy_polled := sy_polled ?y @ [d]\<rparr>,
        fb_completed := fb_completed ?s + 1\<rparr>"
      using assms(3) pop by (auto simp: fast_pop_def s'_def)
    have "hw_sys_inv (?y\<lparr>sy_worker := (sy_worker ?y)\<lparr>ws_doneq := q\<rparr>, sy_polled := sy_polled ?y @ [d]\<rparr>)"
      using hw_sys_step_inv[OF host_poll[OF pop(1)]] w by (simp add: fast_ok_def fast_inv_def)
    then show ?thesis
      using w Cons pop(3) unfolding out s'
      by (auto simp: fast_ok_def fast_inv_def work_def same_vars_def simp del: length_rep_contents split: if_splits)
  qed
qed

lemma fast_push_outcome:
  assumes "fast_ok s" "\<And>k. 0 < runs k" "is_decode d" "fast_push runs d s = (rc, s')"
  shows "fast_ok s' \<and> same_vars s s' \<and>
    (rc = 0 \<longrightarrow> sy_submitted (fb_sys s') = sy_submitted (fb_sys s) @ [d]) \<and>
    (rc \<noteq> 0 \<longrightarrow> sy_submitted (fb_sys s') = sy_submitted (fb_sys s) \<and>
       (work (fb_sys s') < work (fb_sys s) \<or> fb_sys s' = fb_sys s \<and> stuck (fb_sys s) \<and> hw_ring_contents (ws_doneq (fb_worker s)) \<noteq> []))"
proof -
  let ?s = "worker_runs runs s" let ?y = "fb_sys ?s"
  note w = worker_runs_progress[where runs = runs, OF assms(1) assms(2)]
  have inv: "hw_ring_inv (ws_cmdq (sy_worker ?y))" using w by (simp add: fast_ok_def fast_inv_def hw_sys_inv_def hw_worker_inv_def)
  show ?thesis
  proof (cases "length (hw_ring_contents (ws_cmdq (sy_worker ?y))) < 65536")
    case True
    then have room: "unat (hr_tail (ws_cmdq (sy_worker ?y)) - hr_head (ws_cmdq (sy_worker ?y))) < 65536" by simp
    obtain q where push: "hw_ring_push (ws_cmdq (sy_worker ?y)) d = (0, q)" "hr_tail q = hr_tail (ws_cmdq (sy_worker ?y)) + 1"
      using hw_ring_push_room[OF room, of d] by simp
    have "hw_sys_inv (?y\<lparr>sy_worker := (sy_worker ?y)\<lparr>ws_cmdq := q\<rparr>, sy_submitted := sy_submitted ?y @ [d]\<rparr>)"
      using hw_sys_step_inv[OF host_submit[OF push(1)]] w by (simp add: fast_ok_def fast_inv_def)
    then show ?thesis
      using w push assms(3,4) by (auto simp: fast_push_def fast_ok_def fast_inv_def same_vars_def)
  next
    case False
    then have full: "65536 \<le> unat (hr_tail (ws_cmdq (sy_worker ?y)) - hr_head (ws_cmdq (sy_worker ?y)))" by simp
    have "rc = -1" "s' = ?s" using assms(4) hw_ring_push_full[OF full, of d] by (auto simp: fast_push_def)
    moreover have "hw_ring_contents (ws_doneq (fb_worker s)) \<noteq> []" if "stuck (fb_sys s)" "?y = fb_sys s"
      using that False by (auto simp: stuck_def simp del: length_rep_contents rep_contents_Nil)
    ultimately show ?thesis using w by (auto split: if_splits simp del: rep_contents_Nil)
  qed
qed


lemma drain_done_outcome:
  assumes "\<And>k. 0 < runs k" "fast_ok s"
  shows "\<exists>s'. drain_done runs s = Some s' \<and> fast_ok s' \<and> same_vars s s' \<and> sy_submitted (fb_sys s') = sy_submitted (fb_sys s) \<and>
    work (fb_sys s') \<le> work (fb_sys s) \<and>
    (hw_ring_contents (ws_doneq (fb_worker s)) \<noteq> [] \<longrightarrow> work (fb_sys s') < work (fb_sys s))"
  using assms(2)
proof (induction "work (fb_sys s)" arbitrary: s rule: less_induct)
  case less
  obtain out s1 where pop: "fast_pop runs s = (out, s1)" by fastforce
  note o = fast_pop_outcome[OF less.prems assms(1) pop]
  show ?case
  proof (cases out)
    case None
    then have "drain_done runs s = Some s1" using pop by (simp add: drain_done.simps)
    then show ?thesis using o None by (auto simp del: rep_contents_Nil)
  next
    case (Some d)
    let ?s = "s1\<lparr>fb_completed := fb_completed s1 + 1\<rparr>"
    have s: "fast_ok ?s" "same_vars s ?s" "sy_submitted (fb_sys ?s) = sy_submitted (fb_sys s)" "work (fb_sys ?s) < work (fb_sys s)"
      using o Some by (auto simp del: rep_contents_Nil)
    have "drain_done runs s = drain_done runs ?s" using pop Some by (simp add: drain_done.simps[of runs s])
    with less.hyps[OF s(4) s(1)] show ?thesis using s same_vars_trans[OF s(2)] by fastforce
  qed
qed

lemma push_loop_outcome:
  assumes "\<And>k. 0 < runs k" "is_decode d" "fast_ok s"
  shows "\<exists>s'. push_loop runs d s = Some s' \<and> fast_ok s' \<and> same_vars s s' \<and> sy_submitted (fb_sys s') = sy_submitted (fb_sys s) @ [d]"
  using assms(3)
proof (induction "work (fb_sys s)" arbitrary: s rule: less_induct)
  case less
  obtain rc s1 where push: "fast_push runs d s = (rc, s1)" by fastforce
  note o = fast_push_outcome[OF less.prems assms(1,2) push]
  show ?case
  proof (cases "rc = 0")
    case True
    then show ?thesis using push o by (simp add: push_loop.simps)
  next
    case False
    from o drain_done_outcome[where runs = runs, OF assms(1)] obtain s2 where
      d: "drain_done runs s1 = Some s2" "fast_ok s2" "same_vars s1 s2" "sy_submitted (fb_sys s2) = sy_submitted (fb_sys s1)"
        "work (fb_sys s2) \<le> work (fb_sys s1)" "hw_ring_contents (ws_doneq (fb_worker s1)) \<noteq> [] \<longrightarrow> work (fb_sys s2) < work (fb_sys s1)"
      by blast
    have lt: "work (fb_sys s2) < work (fb_sys s)" using o False d(5,6) by (auto simp del: rep_contents_Nil)
    have "push_loop runs d s = push_loop runs d s2" using push False d(1) by (simp add: push_loop.simps[of runs d s])
    then show ?thesis using less.hyps[OF lt d(2)] d(3,4) o False same_vars_trans by (metis (no_types, lifting))
  qed
qed

section \<open>The submission loop\<close>

definition bench_descs :: "nat \<Rightarrow> hw_desc_t list" where
  "bench_descs n = map (\<lambda>i. make_decode_desc (of_nat (Suc i))) [0..<n]"

definition rings_bell :: "nat \<Rightarrow> nat \<Rightarrow> nat \<Rightarrow> bool" where
  "rings_bell b n i \<longleftrightarrow> Suc i mod b = 0 \<or> Suc i = n"

lemma bench_descs_simps [simp]: "length (bench_descs n) = n" "bench_descs (Suc n) = bench_descs n @ [make_decode_desc (of_nat (Suc n))]"
  by (simp_all add: bench_descs_def)

lemma make_decode_desc_props: "is_decode (make_decode_desc r)" "hd_seq_len (make_decode_desc r) = r AND 7" "hd_max_tokens (make_decode_desc r) = 128"
  by (simp_all add: make_decode_desc_def is_decode_def Let_def)

lemma submit_loop_outcome:
  assumes "\<And>k. 0 < runs k" "n < 2 ^ 32" "i \<le> n" "fast_ok s" "sy_submitted (fb_sys s) = bench_descs i"
    and "fb_submitted s = of_nat i" "fb_writes s = length (filter (rings_bell (unat b) n) [0..<i])" "i = n \<and> 0 < n \<longrightarrow> fb_doorbell s = of_nat n"
  shows "\<exists>s'. submit_loop runs b (of_nat n) (of_nat i) s = Some s' \<and> fast_ok s' \<and> sy_submitted (fb_sys s') = bench_descs n \<and>
    fb_submitted s' = of_nat n \<and> fb_writes s' = length (filter (rings_bell (unat b) n) [0..<n]) \<and> (0 < n \<longrightarrow> fb_doorbell s' = of_nat n)"
  using assms(3-)
proof (induction "n - i" arbitrary: i s)
  case 0
  then show ?case by (simp add: submit_loop.simps)
next
  case (Suc k)
  then have lt: "i < n" by simp
  have u: "unat (of_nat i :: u32) = i" "unat (of_nat n :: u32) = n" "unat (of_nat (Suc i) :: u32) = Suc i"
    using assms(2) lt by (simp_all add: unat_of_nat take_bit_nat_eq_self del: of_nat_Suc)
  have step: "of_nat i + 1 = (of_nat (Suc i) :: u32)" by simp
  have loop: "(of_nat i :: u32) < of_nat n" using u lt by (simp add: word_less_nat_alt)
  have bell: "((of_nat (Suc i) :: u32) mod b = 0 \<or> of_nat (Suc i) = (of_nat n :: u32)) \<longleftrightarrow> rings_bell (unat b) n i"
    using u by (metis rings_bell_def unat_mod unat_eq_0)
  obtain s1 where p: "push_loop runs (make_decode_desc (of_nat (Suc i))) s = Some s1" "fast_ok s1" "same_vars s s1"
      "sy_submitted (fb_sys s1) = bench_descs (Suc i)"
    using push_loop_outcome[where runs = runs, OF assms(1) make_decode_desc_props(1)[of "of_nat (Suc i)"] Suc.prems(2)] Suc.prems(3) by auto
  define s2 where "s2 = (let s = s1\<lparr>fb_submitted := fb_submitted s1 + 1\<rparr> in if rings_bell (unat b) n i then ring_doorbell s else s)"
  have s2: "fast_ok s2" "sy_submitted (fb_sys s2) = bench_descs (Suc i)" "fb_submitted s2 = of_nat (Suc i)"
    "fb_writes s2 = length (filter (rings_bell (unat b) n) [0..<Suc i])" "Suc i = n \<longrightarrow> fb_doorbell s2 = of_nat n"
    using p Suc.prems
    by (auto simp: s2_def ring_doorbell_def fast_ok_def same_vars_def Let_def mmio_write32_def hw_ring_load_acquire_def rings_bell_def)
  have s2': "(if rings_bell (unat b) n i then ring_doorbell (s1\<lparr>fb_submitted := fb_submitted s1 + 1\<rparr>)
      else s1\<lparr>fb_submitted := fb_submitted s1 + 1\<rparr>) = s2" by (simp add: s2_def)
  obtain s3 where s3: "(if (of_nat (Suc i) :: u32) AND 255 = 0 then drain_done runs s2 else Some s2) = Some s3" "fast_ok s3" "same_vars s2 s3"
      "sy_submitted (fb_sys s3) = sy_submitted (fb_sys s2)"
    using drain_done_outcome[where runs = runs, OF assms(1) s2(1)] s2(1) by (cases "(of_nat (Suc i) :: u32) AND 255 = 0") (auto simp del: of_nat_Suc)
  have "submit_loop runs b (of_nat n) (of_nat i) s = submit_loop runs b (of_nat n) (of_nat (Suc i)) s3"
    using loop p(1) s3(1) s2'
    by (subst submit_loop.simps)
      (cases "rings_bell (unat b) n i"; cases "(of_nat (Suc i) :: u32) AND 255 = 0"; simp add: step bell Let_def del: of_nat_Suc)
  moreover have "\<exists>s'. submit_loop runs b (of_nat n) (of_nat (Suc i)) s3 = Some s' \<and> fast_ok s' \<and> sy_submitted (fb_sys s') = bench_descs n \<and>
    fb_submitted s' = of_nat n \<and> fb_writes s' = length (filter (rings_bell (unat b) n) [0..<n]) \<and> (0 < n \<longrightarrow> fb_doorbell s' = of_nat n)"
    using Suc.hyps(2) lt s2 s3 by (intro Suc.hyps(1)) (auto simp: same_vars_def)
  ultimately show ?case by simp
qed

lemma doorbell_count:
  assumes "0 < n" "0 < b"
  shows "length (filter (rings_bell b n) [0..<n]) = (n + b - 1) div b"
proof -
  obtain m where m: "n = Suc m" using assms(1) by (cases n) auto
  have "length (filter (\<lambda>i. Suc i mod b = 0) [0..<k]) = k div b" for k
    by (induction k) (simp_all add: div_Suc)
  moreover have "filter (rings_bell b n) [0..<m] = filter (\<lambda>i. Suc i mod b = 0) [0..<m]"
    by (rule filter_cong) (auto simp: rings_bell_def m)
  moreover have "rings_bell b n m" by (simp add: rings_bell_def m)
  ultimately show ?thesis using assms(2) by (simp add: m div_add_self2)
qed


section \<open>Waiting, stopping and joining\<close>

text \<open>Everything that was submitted has been collected.\<close>

definition all_done :: "hw_sys \<Rightarrow> bool" where
  "all_done y \<longleftrightarrow> (sy_pc y = WLoop \<or> sy_pc y = WCounting) \<and> hw_ring_contents (ws_cmdq (sy_worker y)) = [] \<and> hw_ring_contents (ws_doneq (sy_worker y)) = [] \<and>
     length (sy_polled y) = length (sy_submitted y)"

lemma all_done_iff:
  assumes "fast_inv y"
  shows "all_done y \<longleftrightarrow> length (sy_polled y) = length (sy_submitted y)"
proof
  assume "length (sy_polled y) = length (sy_submitted y)"
  then have z: "length (in_flight (sy_pc y)) = 0" "length (hw_ring_contents (ws_cmdq (sy_worker y))) = 0"
      "length (hw_ring_contents (ws_doneq (sy_worker y))) = 0" "length (sy_polled y) = length (sy_submitted y)"
    using fast_inv_accounts[OF assms] by linarith+
  moreover have "sy_pc y = WLoop \<or> sy_pc y = WCounting" using z(1) assms by (cases "sy_pc y") (simp_all add: fast_inv_def)
  ultimately show "all_done y" by (simp add: all_done_def)
qed (simp add: all_done_def)

lemma wait_done_outcome:
  assumes "\<And>k. 0 < runs k" "n < 2 ^ 32" "fast_ok s" "length (sy_submitted (fb_sys s)) = n"
  shows "\<exists>s'. wait_done runs (of_nat n) s = Some s' \<and> fast_ok s' \<and> same_vars s s' \<and> sy_submitted (fb_sys s') = sy_submitted (fb_sys s) \<and>
    all_done (fb_sys s')"
  using assms(3,4)
proof (induction "work (fb_sys s)" arbitrary: s rule: less_induct)
  case less
  have inv: "fast_inv (fb_sys s)" and c: "fb_completed s = of_nat (length (sy_polled (fb_sys s)))"
    using less.prems(1) by (simp_all add: fast_ok_def)
  have le: "length (sy_polled (fb_sys s)) \<le> n" using fast_inv_accounts[OF inv] less.prems(2) by simp
  then have lt: "fb_completed s < of_nat n \<longleftrightarrow> length (sy_polled (fb_sys s)) < n"
    using assms(2) by (simp add: c word_less_nat_alt unat_of_nat take_bit_nat_eq_self)
  show ?case
  proof (cases "fb_completed s < of_nat n")
    case False
    then have "length (sy_polled (fb_sys s)) = length (sy_submitted (fb_sys s))" using lt le less.prems(2) by simp
    then show ?thesis using False less.prems all_done_iff[OF inv] by (simp add: wait_done.simps)
  next
    case True
    obtain out s1 where pop: "fast_pop runs s = (out, s1)" by fastforce
    define s2 where "s2 = (case out of None \<Rightarrow> s1 | Some d \<Rightarrow> s1\<lparr>fb_completed := fb_completed s1 + 1\<rparr>)"
    note o = fast_pop_outcome[OF less.prems(1) assms(1) pop, folded s2_def]
    have "\<not> (out = None \<and> stuck (fb_sys s) \<and> fb_sys s2 = fb_sys s)"
    proof
      assume a: "out = None \<and> stuck (fb_sys s) \<and> fb_sys s2 = fb_sys s"
      then have "hw_ring_contents (ws_doneq (fb_worker s)) = []" using o by simp
      with a have "hw_ring_contents (ws_cmdq (fb_worker s)) = []" "in_flight (sy_pc (fb_sys s)) = []"
        by (auto simp: stuck_def simp del: rep_contents_Nil)
      with fast_inv_accounts[OF inv] \<open>hw_ring_contents (ws_doneq (fb_worker s)) = []\<close> show False
        using True lt less.prems(2) by (simp del: length_rep_contents rep_contents_Nil)
    qed
    then have lt2: "work (fb_sys s2) < work (fb_sys s)" using o by blast
    have "wait_done runs (of_nat n) s = wait_done runs (of_nat n) s2"
      using True pop by (simp add: wait_done.simps[of runs "of_nat n" s] s2_def split: option.split)
    then show ?thesis using less.hyps[OF lt2] o less.prems(2) same_vars_trans[of s s2] by auto
  qed
qed

lemma join_at_loop:
  assumes "sy_pc y = WLoop" "ws_stop (sy_worker y) = 0" "hw_ring_pop (ws_cmdq (sy_worker y)) = (0, Some st, q)" "is_stop st"
  shows "join_worker y = Some (y\<lparr>sy_pc := WReturned, sy_worker := (sy_worker y)\<lparr>ws_cmdq := q\<rparr>\<rparr>)"
proof -
  have "sys_tick y = y\<lparr>sy_pc := WReturned, sy_worker := (sy_worker y)\<lparr>ws_cmdq := q\<rparr>\<rparr>"
    using assms hw_tick_pop[OF assms(3,2)] by (simp add: sys_tick_def)
  then show ?thesis using assms(1) by (subst join_worker.simps, subst join_worker.simps) simp
qed

lemma join_at_stop:
  assumes "sy_pc y = WLoop \<or> sy_pc y = WCounting" "ws_stop (sy_worker y) = 0" "hw_ring_pop (ws_cmdq (sy_worker y)) = (0, Some st, q)" "is_stop st"
  shows "\<exists>y'. join_worker y = Some y' \<and> sy_pc y' = WReturned \<and> sy_polled y' = sy_polled y \<and> ws_cmdq (sy_worker y') = q \<and>
    ws_doneq (sy_worker y') = ws_doneq (sy_worker y)"
proof (cases "sy_pc y = WLoop")
  case True
  then show ?thesis using join_at_loop[OF _ assms(2-4)] by simp
next
  case False
  then have pc: "sy_pc y = WCounting" using assms(1) by simp
  then have "join_worker y = join_worker (sys_tick y)" by (subst join_worker.simps) simp
  then show ?thesis using join_at_loop[OF _ _ _ assms(4), of "sys_tick y" q] assms(2,3) pc by (simp add: sys_tick_def hw_worker_tick.simps)
qed

lemma stop_and_join:
  assumes "fast_ok s" "all_done (fb_sys s)"
  shows "\<exists>s1 y. push_stop runs s = Some s1 \<and> join_worker (fb_sys (ring_doorbell s1)) = Some y \<and> sy_pc y = WReturned \<and>
    sy_polled y = sy_polled (fb_sys s) \<and> hw_ring_contents (ws_cmdq (sy_worker y)) = [] \<and> hw_ring_contents (ws_doneq (sy_worker y)) = []"
proof -
  let ?st = "hw_desc_zero\<lparr>hd_opcode := DESC_OP_STOP\<rparr>" let ?y = "fb_sys (worker_runs runs s)" let ?w = "sy_worker ?y"
  have inv: "fast_inv ?y" and same: "sy_submitted ?y = sy_submitted (fb_sys s)" "sy_polled ?y = sy_polled (fb_sys s)"
    using ticks_progress[of "fb_sys s" "runs (fb_clock s)"] assms(1) by (simp_all add: worker_runs_def fast_ok_def)
  have fin: "all_done ?y" using all_done_iff[OF inv] same assms(2) by (simp add: all_done_def)
  have ring: "hw_ring_inv (ws_cmdq ?w)" using inv by (simp add: fast_inv_def hw_sys_inv_def hw_worker_inv_def)
  have "length (hw_ring_contents (ws_cmdq ?w)) < 65536" using fin by (simp add: all_done_def)
  with ring obtain q where q: "hw_ring_push (ws_cmdq ?w) ?st = (0, q)" "hw_ring_inv q" "hw_ring_contents q = hw_ring_contents (ws_cmdq ?w) @ [?st]"
    by (rule hw_push_room)
  then have "hw_ring_contents q = ?st # []" using fin by (simp add: all_done_def del: rep_contents_Nil)
  with q(2) obtain q2 where q2: "hw_ring_pop q = (0, Some ?st, q2)" "hw_ring_contents q2 = []" by (rule hw_pop_Cons)
  let ?y1 = "?y\<lparr>sy_worker := ?w\<lparr>ws_cmdq := q\<rparr>, sy_submitted := sy_submitted ?y @ [?st]\<rparr>"
  let ?s1 = "(worker_runs runs s)\<lparr>fb_sys := ?y1\<rparr>"
  have push: "push_stop runs s = Some ?s1" using q(1) by (simp add: push_stop.simps fast_push_def)
  have "is_stop ?st" by (simp add: is_stop_def)
  moreover have "ws_stop ?w = 0" using inv by (simp add: fast_inv_def)
  ultimately obtain y where "join_worker ?y1 = Some y" "sy_pc y = WReturned" "sy_polled y = sy_polled ?y" "ws_cmdq (sy_worker y) = q2"
    "ws_doneq (sy_worker y) = ws_doneq ?w"
    using join_at_stop[of ?y1 ?st q2] fin q2(1) by (auto simp: all_done_def)
  then show ?thesis using push q2(2) fin same by (auto simp: ring_doorbell_def all_done_def simp del: rep_contents_Nil)
qed

lemma all_done_outputs:
  assumes "fast_inv y" "all_done y"
  shows "sy_polled y = map hw_decoded (sy_submitted y) \<and> ws_decoded_tokens (sy_worker y) = of_nat (sum_list (map hw_decode_count (sy_submitted y)))"
proof -
  have f: "filter is_decode (sy_submitted y) = sy_submitted y" using assms(1) by (simp add: fast_inv_def list_all_iff)
  show ?thesis
    using assms by (auto simp: fast_inv_def hw_sys_inv_def all_done_def hw_outputs_def hw_token_total_def f simp del: rep_contents_Nil)
qed

lemma decode_count_bench: "hw_decode_count (make_decode_desc r) = 32 - unat r mod 8"
proof -
  have "unat (r AND 7) = unat r mod 8" using unat_and_mask[of r 3] by simp
  then show ?thesis by (simp add: hw_decode_count_def hw_decode_stop_def make_decode_desc_props word_less_nat_alt)
qed

lemma batch_benchmark_outcome:
  assumes "\<And>k. 0 < runs k" and "0 < n" and "n < 2 ^ 32" and "0 < b"
  shows "\<exists>r. run_batch_benchmark runs True True True b (of_nat n) = Some (Some r) \<and>
    fr_submitted r = of_nat n \<and> fr_completed r = of_nat n \<and> fr_final_doorbell r = of_nat n \<and>
    fr_actual_writes r = (n + unat b - 1) div unat b \<and>
    (n + unat b \<le> 2 ^ 32 \<longrightarrow> unat (fr_doorbell_writes r) = fr_actual_writes r) \<and>
    fr_decoded_tokens r = of_nat (\<Sum>i\<leftarrow>[0..<n]. 32 - Suc i mod 8) \<and>
    sy_polled (fr_end r) = map (\<lambda>i. hw_decoded (make_decode_desc (of_nat (Suc i)))) [0..<n] \<and>
    sy_pc (fr_end r) = WReturned \<and> hw_ring_contents (ws_cmdq (sy_worker (fr_end r))) = [] \<and>
    hw_ring_contents (ws_doneq (sy_worker (fr_end r))) = []"
proof -
  let ?s0 = "fast_start hw_ring_zero hw_ring_zero"
  have b: "0 < unat b" using assms(4) by (simp add: word_less_nat_alt)
  have ok0: "fast_ok ?s0" using hw_sys_init_inv by (simp add: fast_ok_def fast_inv_def fast_start_def hw_sys_init_def)
  have "\<exists>s1. submit_loop runs b (of_nat n) (of_nat 0) ?s0 = Some s1 \<and> fast_ok s1 \<and> sy_submitted (fb_sys s1) = bench_descs n \<and>
      fb_submitted s1 = of_nat n \<and> fb_writes s1 = length (filter (rings_bell (unat b) n) [0..<n]) \<and> (0 < n \<longrightarrow> fb_doorbell s1 = of_nat n)"
    by (rule submit_loop_outcome[where runs = runs, OF assms(1,3) _ ok0]) (use assms(2) in \<open>simp_all add: fast_start_def bench_descs_def\<close>)
  then obtain s1 where s1: "submit_loop runs b (of_nat n) 0 ?s0 = Some s1" "fast_ok s1" "sy_submitted (fb_sys s1) = bench_descs n"
      "fb_submitted s1 = of_nat n" "fb_writes s1 = (n + unat b - 1) div unat b" "fb_doorbell s1 = of_nat n"
    using doorbell_count[OF assms(2) b] assms(2) by auto
  from wait_done_outcome[where runs = runs, OF assms(1,3) s1(2)] s1(3) obtain s2 where
    s2: "wait_done runs (of_nat n) s1 = Some s2" "fast_ok s2" "same_vars s1 s2" "sy_submitted (fb_sys s2) = bench_descs n" "all_done (fb_sys s2)"
    by auto
  from stop_and_join[OF s2(2,5), of runs] obtain s3 y where
    s3: "push_stop runs s2 = Some s3" "join_worker (fb_sys (ring_doorbell s3)) = Some y" "sy_pc y = WReturned"
      "sy_polled y = sy_polled (fb_sys s2)" "hw_ring_contents (ws_cmdq (sy_worker y)) = []" "hw_ring_contents (ws_doneq (sy_worker y)) = []"
    by blast
  have out: "sy_polled (fb_sys s2) = map hw_decoded (bench_descs n)"
    "ws_decoded_tokens (fb_worker s2) = of_nat (sum_list (map hw_decode_count (bench_descs n)))"
    using all_done_outputs[OF _ s2(5)] s2(2,4) by (simp_all add: fast_ok_def)
  have tok: "map hw_decode_count (bench_descs n) = map (\<lambda>i. 32 - Suc i mod 8) [0..<n]"
    using assms(3) by (auto simp: bench_descs_def decode_count_bench unat_of_nat take_bit_nat_eq_self simp del: of_nat_Suc)
  have total: "ws_decoded_tokens (fb_worker s2) = of_nat (\<Sum>i\<leftarrow>[0..<n]. 32 - Suc i mod 8)" using out(2) unfolding tok .
  have comp: "fb_completed s2 = of_nat n" using s2(2,4,5) by (simp add: fast_ok_def all_done_def)
  have printed: "unat ((of_nat n + b - 1) div b) = (n + unat b - 1) div unat b" if "n + unat b \<le> 2 ^ 32"
  proof -
    have "of_nat n + b - 1 = (of_nat (n + unat b - 1) :: u32)" using assms(2) by (simp add: of_nat_diff)
    moreover have "unat (of_nat k :: u32) = k" if "k < 2 ^ 32" for k using that by (simp add: unat_of_nat take_bit_nat_eq_self)
    from this[of "n + unat b - 1"] have "unat (of_nat (n + unat b - 1) :: u32) = n + unat b - 1" using that assms(2) by linarith
    ultimately show ?thesis by (simp only: unat_div)
  qed
  show ?thesis
    using s1 s2 s3 out(1) total comp printed
    by (simp add: run_batch_benchmark_def hw_ring_create_def same_vars_def mmio_read32_def bench_descs_def del: rep_contents_Nil)
qed

section \<open>Properties\<close>

text \<open>
  C11. The benchmark returns. Whenever the worker makes at least one tick before each access of the main
  thread, all \<open>n\<close> descriptors are submitted and completed, in order and each decoded exactly to its
  next reward boundary; the doorbell was rung once per batch and last shows the index of the last
  descriptor; the worker has returned and both rings are empty. The number of doorbell writes
  that is printed is the actual one unless the rounding wraps.
\<close>

theorem fastpath_bench_exact:
  assumes "\<And>k. 0 < runs k" and "0 < n" and "n < 2 ^ 32" and "0 < b"
  shows "\<exists>r. run_batch_benchmark runs True True True b (of_nat n) = Some (Some r) \<and>
    fr_submitted r = of_nat n \<and> fr_completed r = of_nat n \<and> fr_final_doorbell r = of_nat n \<and>
    fr_actual_writes r = (n + unat b - 1) div unat b \<and>
    (n + unat b \<le> 2 ^ 32 \<longrightarrow> unat (fr_doorbell_writes r) = fr_actual_writes r) \<and>
    fr_decoded_tokens r = of_nat (\<Sum>i\<leftarrow>[0..<n]. 32 - Suc i mod 8) \<and>
    sy_polled (fr_end r) = map (\<lambda>i. hw_decoded (make_decode_desc (of_nat (Suc i)))) [0..<n] \<and>
    sy_pc (fr_end r) = WReturned \<and> hw_ring_contents (ws_cmdq (sy_worker (fr_end r))) = [] \<and>
    hw_ring_contents (ws_doneq (sy_worker (fr_end r))) = []"
  using batch_benchmark_outcome[OF assms] .

theorem fastpath_bench_exact_witness:
  "\<exists>r. run_batch_benchmark (\<lambda>_. 1) True True True 32 (of_nat 200000) = Some (Some r) \<and> fr_completed r = 200000 \<and>
     fr_actual_writes r = 6250 \<and> sy_pc (fr_end r) = WReturned"
  using fastpath_bench_exact[of "\<lambda>_. 1" 200000 32] by auto

lemma run_submit_api_smoke_passes: "run_submit_api_smoke True True = Some (0, 1)"
  by (simp add: run_submit_api_smoke_def hw_ring_create_def infer_submit_decode_def hw_ring_push_room mmio_write32_def mmio_read32_def hw_ring_load_acquire_def)

end
