(* ===== verification/Bench_Cow.thy ===== *)
theory Bench_Cow
  imports KV_Prefix
begin

text \<open>
  The benchmark of shared prefixes, \<^verbatim>\<open>bench/bench_cow_prefix.cu\<close>: one prefix, \<open>n_branches\<close> branches on it,
  the resolution of every branch and their release. The numbers it prints are the result, timing is
  left out; \<open>calloc_ok\<close> is the outcome of \<open>calloc\<close>.
\<close>

section \<open>The program\<close>

function cow_alloc :: "int \<Rightarrow> u32 \<Rightarrow> int \<Rightarrow> u32 list \<Rightarrow> KVPrefixTable \<Rightarrow> u32 list \<times> KVPrefixTable" where
  "cow_alloc n prefix_id i branch_ids t =
     (if i < n then
        (case kv_branch_alloc t (word_of_int i) prefix_id (word_of_int (0x2000 + i * 2)) 32 2 of
           (rc, out, t1) \<Rightarrow>
             if rc \<noteq> 0 then (branch_ids, t1)
             else cow_alloc n prefix_id (i + 1) (branch_ids[nat i := the out]) t1)
      else (branch_ids, t))"
  by pat_completeness auto
termination
  by (relation "measure (\<lambda>(n, p, i, ids, t). nat (n - i))") auto

function cow_resolve :: "int \<Rightarrow> u32 list \<Rightarrow> KVPrefixTable \<Rightarrow> int \<Rightarrow> i64 \<Rightarrow> i64" where
  "cow_resolve n branch_ids t i total_off =
     (if i < n \<and> branch_ids ! nat i \<noteq> UINT32_MAX
      then cow_resolve n branch_ids t (i + 1) (total_off + kv_branch_total_offset t (branch_ids ! nat i))
      else total_off)"
  by pat_completeness auto
termination
  by (relation "measure (\<lambda>(n, ids, t, i, x). nat (n - i))") auto

function cow_free :: "int \<Rightarrow> u32 list \<Rightarrow> int \<Rightarrow> KVPrefixTable \<Rightarrow> KVPrefixTable" where
  "cow_free n branch_ids i t =
     (if i < n \<and> branch_ids ! nat i \<noteq> UINT32_MAX
      then cow_free n branch_ids (i + 1) (snd (kv_branch_free t (branch_ids ! nat i)))
      else t)"
  by pat_completeness auto
termination
  by (relation "measure (\<lambda>(n, ids, i, t). nat (n - i))") auto

declare cow_alloc.simps [simp del] cow_resolve.simps [simp del] cow_free.simps [simp del]

record cow_report =
  cw_prefix_id :: u32
  cw_total_shared :: u64
  cw_total_cow :: u64
  cw_total_full :: u64
  cw_saved :: u64
  cw_refcnt :: u32
  cw_total_off :: i64
  cw_table :: KVPrefixTable

text \<open>An early return with its code, a division by zero, or the report.\<close>

datatype cow_result = CowExit int | CowDivZero | CowDone cow_report

definition bench_cow_main :: "bool \<Rightarrow> int \<Rightarrow> KVPrefixTable \<Rightarrow> cow_result" where
  "bench_cow_main calloc_ok n_branches tbl =
     (let tbl = kv_prefix_table_init tbl in
      case kv_prefix_register tbl 0x1000 512 4 of
        (ret, out, tbl) \<Rightarrow>
          if ret \<noteq> 0 then CowExit 1
          else
            let prefix_id = the out; prefix_size = 4 * 16384; delta_size = 2 * 16384 in
            if \<not> calloc_ok then CowExit 1
            else
              (case cow_alloc n_branches prefix_id 0 (replicate (nat n_branches) 0) tbl of
                 (branch_ids, tbl) \<Rightarrow>
                   let total_shared = prefix_size; total_delta = word_of_int n_branches * delta_size;
                       total_cow = total_shared + total_delta;
                       total_full = word_of_int n_branches * (prefix_size + delta_size) in
                   if n_branches = 0 then CowDivZero
                   else CowDone
                     \<lparr>cw_prefix_id = prefix_id, cw_total_shared = total_shared, cw_total_cow = total_cow, cw_total_full = total_full,
                      cw_saved = total_full - total_cow,
                      cw_refcnt = (case kv_prefix_get tbl prefix_id of Some p \<Rightarrow> px_refcnt p | None \<Rightarrow> 0),
                      cw_total_off = cow_resolve n_branches branch_ids tbl 0 0,
                      cw_table = cow_free n_branches branch_ids 0 tbl\<rparr>))"

section \<open>Allocation\<close>

text \<open>\<open>k\<close> branches on prefix 0, which \<open>r\<close> references hold.\<close>

definition cow_state :: "KVPrefixTable \<Rightarrow> nat \<Rightarrow> nat \<Rightarrow> bool" where
  "cow_state t k r \<longleftrightarrow> kv_wf t \<and> refcnt t 0 = of_nat r \<and> (\<forall>b < k. br_prefix_id (kt_branches t ! b) = 0) \<and>
     (r \<noteq> 0 \<longrightarrow> px_kv_block_offset (kt_prefixes t ! 0) = 0x1000) \<and> (0 \<in> bits_of (kt_prefix_bitmap t) \<longleftrightarrow> r = 0)"

lemma drop_first: "{i..<m} - {i} = {Suc i..<m}" for i m :: nat
  by auto

lemma join_at: "k \<le> m \<Longrightarrow> {..<k} \<union> {k..<m} = {..<m}" for k m :: nat
  by auto

lemma cow_alloc_step:
  assumes "cow_state t i (Suc i)" "bits_of (kt_branch_bitmap t) = {i..<16384}" "i < 16384"
  shows "\<exists>t'. kv_branch_alloc t ro 0 d dl db = (0, Some (of_nat i), t') \<and> cow_state t' (Suc i) (Suc (Suc i)) \<and>
    bits_of (kt_branch_bitmap t') = {Suc i..<16384}"
proof -
  have wf: "kv_wf t" and len: "length (kt_branch_bitmap t) = 256" using assms(1) by (simp_all add: cow_state_def kv_wf_def)
  have ne: "bits_of (kt_branch_bitmap t) \<noteq> {}" using assms(2,3) by simp
  obtain j bm' where a: "bitmap_alloc (kt_branch_bitmap t) 256 16384 = (0, Some j, bm')" "unat j = Min (bits_of (kt_branch_bitmap t))"
      "length bm' = 256" "bits_of bm' = bits_of (kt_branch_bitmap t) - {unat j}"
    using bitmap_alloc_least[OF len _ ne, of 16384] by auto
  have "Min {i..<16384} = i" using assms(3) by (intro Min_eqI) auto
  then have j: "unat j = i" using a(2) assms(2) by simp
  then have j': "j = of_nat i" by auto
  let ?b = "\<lparr>br_branch_id = j, br_rollout_id = ro, br_prefix_id = 0, br_delta_kv_offset = d, br_delta_len = dl,
      br_delta_block_count = db, br_state = 0, br_flags = 0\<rparr>"
  let ?t = "t\<lparr>kt_branch_bitmap := bm', kt_branches := (kt_branches t)[i := ?b]\<rparr>"
  have run: "kv_branch_alloc t ro 0 d dl db = (0, Some j, snd (kv_prefix_acquire ?t 0))"
    by (simp add: kv_branch_alloc_def a(1) j)
  have lenb: "length (kt_branches t) = 16384" using wf by (simp add: kv_wf_def)
  have wf1: "kv_wf ?t" using wf a(3) by (simp add: kv_wf_def)
  have ref: "refcnt ?t 0 \<noteq> 0"
  proof -
    have "unat (of_nat (Suc i) :: u32) = Suc i" using assms(3) by (simp add: unat_of_nat take_bit_nat_eq_self del: of_nat_Suc)
    then show ?thesis using assms(1) by (auto simp: cow_state_def simp del: of_nat_Suc)
  qed
  have "cow_state (snd (kv_prefix_acquire ?t 0)) (Suc i) (Suc (Suc i))"
    using assms(1,3) acquire_refcnt[OF wf1, of 0 0] ref lenb
    by (auto simp: cow_state_def acquire_frame wf1 less_Suc_eq nth_list_update)
  moreover have "bits_of (kt_branch_bitmap (snd (kv_prefix_acquire ?t 0))) = {Suc i..<16384}"
    using a(4) assms(2) j drop_first[of i 16384] by (simp only: acquire_frame) simp
  ultimately show ?thesis using run j' by auto
qed

lemma cow_alloc_full:
  assumes "kv_wf t" "bits_of (kt_branch_bitmap t) = {}"
  shows "kv_branch_alloc t ro p d dl db = (-1, None, t)"
  using bitmap_alloc_none[of "kt_branch_bitmap t" 256 16384] assms by (simp add: kv_branch_alloc_def kv_wf_def)

text \<open>The array of ids: those that were allocated, then the zeros of \<open>calloc\<close>.\<close>

definition cow_ids :: "nat \<Rightarrow> nat \<Rightarrow> u32 list" where
  "cow_ids n k = map of_nat [0..<k] @ replicate (n - k) 0"

lemma cow_ids_nth: "k \<le> n \<Longrightarrow> i < n \<Longrightarrow> cow_ids n k ! i = (if i < k then of_nat i else 0)"
  by (simp add: cow_ids_def nth_append)

lemma cow_ids_update: "k < n \<Longrightarrow> (cow_ids n k)[k := of_nat k] = cow_ids n (Suc k)"
  by (rule nth_equalityI) (auto simp: cow_ids_def nth_list_update nth_append less_Suc_eq)

lemma cow_alloc_outcome:
  assumes "cow_state t i (Suc i)" "bits_of (kt_branch_bitmap t) = {i..<16384}" "i \<le> n" "i \<le> 16384"
  shows "\<exists>t'. cow_alloc (int n) 0 (int i) (cow_ids n i) t = (cow_ids n (min n 16384), t') \<and>
    cow_state t' (min n 16384) (Suc (min n 16384)) \<and> bits_of (kt_branch_bitmap t') = {min n 16384..<16384}"
  using assms
proof (induction "n - i" arbitrary: i t)
  case 0
  then show ?case by (auto simp: cow_alloc.simps min_def)
next
  case (Suc k)
  then have lt: "i < n" by simp
  show ?case
  proof (cases "i < 16384")
    case True
    obtain t1 where t1: "kv_branch_alloc t (word_of_int (int i)) 0 (word_of_int (0x2000 + int i * 2)) 32 2 = (0, Some (of_nat i), t1)"
        "cow_state t1 (Suc i) (Suc (Suc i))" "bits_of (kt_branch_bitmap t1) = {Suc i..<16384}"
      using cow_alloc_step[OF Suc.prems(1,2) True] by blast
    have "cow_alloc (int n) 0 (int i) (cow_ids n i) t = cow_alloc (int n) 0 (int (Suc i)) (cow_ids n (Suc i)) t1"
      using t1(1) lt cow_ids_update[OF lt] by (subst cow_alloc.simps) (simp add: add.commute)
    then show ?thesis using Suc.hyps(1)[of "Suc i" t1] Suc.hyps(2) lt True t1(2,3) by simp
  next
    case False
    then have i: "i = 16384" using Suc.prems(4) by simp
    have "kv_wf t" using Suc.prems(1) by (simp add: cow_state_def)
    then have "cow_alloc (int n) 0 (int i) (cow_ids n i) t = (cow_ids n i, t)"
      using lt cow_alloc_full[of t] Suc.prems(2) i by (subst cow_alloc.simps) simp
    then show ?thesis using i lt Suc.prems by (simp add: min_def)
  qed
qed

section \<open>Resolution and release\<close>

lemma not_max: "i < 2 ^ 32 - 1 \<Longrightarrow> (of_nat i :: u32) \<noteq> UINT32_MAX"
proof -
  assume a: "i < 2 ^ 32 - 1"
  then have "unat (of_nat i :: u32) = i" by (simp add: unat_of_nat take_bit_nat_eq_self)
  moreover have "unat (UINT32_MAX) = 2 ^ 32 - 1" by simp
  ultimately show ?thesis using a by (metis less_irrefl)
qed


lemma cow_offset:
  assumes "cow_state t k (Suc r)" "i < k" "k \<le> 16384"
  shows "kv_branch_total_offset t (of_nat i) = 0x1000"
proof -
  have "unat (of_nat i :: u32) = i" using assms(2,3) by (simp add: unat_of_nat take_bit_nat_eq_self)
  then show ?thesis
    using assms by (simp add: kv_branch_total_offset_def kv_prefix_get_def kv_limits cow_state_def)
qed

lemma cow_ids_bounds:
  assumes "k \<le> n" "k \<le> 16384" "i < n" "0 < k"
  obtains b where "cow_ids n k ! i = of_nat b" "b < k" "of_nat b \<noteq> (UINT32_MAX :: u32)" "i < k \<longrightarrow> b = i" "k \<le> i \<longrightarrow> b = 0"
  using assms cow_ids_nth[of k n i] not_max[of i] not_max[of 0] that[of "if i < k then i else 0"] by (cases "i < k") auto

lemma cow_resolve_outcome:
  assumes "cow_state t k (Suc r)" "0 < k" "k \<le> n" "k \<le> 16384" "i \<le> n"
  shows "cow_resolve (int n) (cow_ids n k) t (int i) x = x + of_nat (n - i) * 0x1000"
  using assms(5)
proof (induction "n - i" arbitrary: i x)
  case 0
  then show ?case by (simp add: cow_resolve.simps)
next
  case (Suc m)
  then have "i < n" by simp
  with assms obtain b where b: "cow_ids n k ! i = of_nat b" "b < k" "of_nat b \<noteq> (UINT32_MAX :: u32)" using cow_ids_bounds by metis
  have "cow_resolve (int n) (cow_ids n k) t (int i) x = cow_resolve (int n) (cow_ids n k) t (int (Suc i)) (x + 0x1000)"
    using b \<open>i < n\<close> cow_offset[OF assms(1) b(2) assms(4)] by (subst cow_resolve.simps) (simp add: add.commute)
  also have "\<dots> = x + 0x1000 + of_nat (n - Suc i) * 0x1000" using Suc.hyps(2) \<open>i < n\<close> by (intro Suc.hyps(1)) simp_all
  also have "n - i = Suc (n - Suc i)" using \<open>i < n\<close> by simp
  then have "x + 0x1000 + of_nat (n - Suc i) * 0x1000 = x + of_nat (n - i) * 0x1000" by (simp only: of_nat_Suc) (simp add: algebra_simps del: of_nat_diff)
  finally show ?case .
qed

lemma cow_free_step:
  assumes "cow_state t k r" "b < k" "k \<le> 16384" "r < 2 ^ 32"
  defines "t' \<equiv> snd (kv_branch_free t (of_nat b))"
  shows "cow_state t' k (r - 1) \<and> bits_of (kt_branch_bitmap t') = insert b (bits_of (kt_branch_bitmap t))"
proof -
  have wf: "kv_wf t" and pid: "br_prefix_id (kt_branches t ! b) = 0" and ref: "refcnt t 0 = of_nat r" using assms(1,2) by (simp_all add: cow_state_def)
  have ub: "unat (of_nat b :: u32) = b" using assms(2,3) by (simp add: unat_of_nat take_bit_nat_eq_self)
  have free: "kv_branch_free t (of_nat b) = (0, t')" using ub assms(2,3) by (simp add: kv_branch_free_def kv_limits t'_def Let_def)
  let ?t1 = "snd (kv_prefix_release t 0)"
  have t': "kt_prefixes t' = kt_prefixes ?t1" "kt_prefix_bitmap t' = kt_prefix_bitmap ?t1"
      "kt_branches t' = (kt_branches t)[b := (kt_branches t ! b)\<lparr>br_rollout_id := UINT32_MAX\<rparr>]"
      "kt_branch_bitmap t' = bitmap_free (kt_branch_bitmap t) (of_nat b)"
    using branch_free_effect[OF wf _ free] ub assms(2,3) pid by (simp_all add: release_frame)
  have len: "length (kt_branch_bitmap t) = 256" using wf by (simp add: kv_wf_def)
  have bits: "bits_of (kt_branch_bitmap t') = insert b (bits_of (kt_branch_bitmap t))" "length (kt_branch_bitmap t') = 256"
    using bitmap_free_bits[of "of_nat b" "kt_branch_bitmap t"] len ub assms(2,3) by (simp_all add: t')
  have br: "\<forall>c < k. br_prefix_id (kt_branches t' ! c) = 0"
    using assms(1-3) by (auto simp: t' cow_state_def nth_list_update kv_wf_def)
  have ur: "unat (of_nat r :: u32) = r" using assms(4) by (simp add: unat_of_nat take_bit_nat_eq_self)
  show ?thesis
  proof (cases "r = 0")
    case True
    then have "?t1 = t" using ref by (simp add: kv_prefix_release_def)
    then show ?thesis using True assms(1) bits br t' wf by (simp add: cow_state_def kv_wf_def)
  next
    case False
    then have nz: "refcnt t 0 \<noteq> 0" using ref ur by auto
    obtain t1 where rel: "kv_prefix_release t 0 = (0, t1)"
      using nz by (cases "refcnt t 0 = 1") (simp_all add: kv_prefix_release_def MAX_PREFIXES_def Let_def)
    have one: "refcnt t 0 = 1 \<longleftrightarrow> r = 1" using ref ur by (metis of_nat_1 unat_1)
    have "of_nat r - 1 = (of_nat (r - 1) :: u32)" using False by (cases r) simp_all
    then show ?thesis
      using release_effect[OF wf rel] rel assms(1) bits br t' wf False one ref
      by (cases "r = 1") (auto simp: cow_state_def kv_wf_def)
  qed
qed

text \<open>After \<open>i\<close> releases the reference count has gone down by \<open>i\<close>, to 0 at least.\<close>

lemma cow_free_outcome:
  assumes "0 < k" "k \<le> n" "k \<le> 16384" "i \<le> n" "cow_state t k (Suc k - i)" "bits_of (kt_branch_bitmap t) = {..<min i k} \<union> {k..<16384}"
  shows "cow_state (cow_free (int n) (cow_ids n k) (int i) t) k (Suc k - n) \<and>
    bits_of (kt_branch_bitmap (cow_free (int n) (cow_ids n k) (int i) t)) = {..<16384}"
  using assms(4-)
proof (induction "n - i" arbitrary: i t)
  case 0
  then show ?case using assms(1-3) join_at[OF assms(3)] by (simp add: cow_free.simps min_absorb2)
next
  case (Suc m)
  then have lt: "i < n" by simp
  with assms obtain b where b: "cow_ids n k ! i = of_nat b" "b < k" "of_nat b \<noteq> (UINT32_MAX :: u32)" "i < k \<longrightarrow> b = i" "k \<le> i \<longrightarrow> b = 0"
    using cow_ids_bounds by metis
  let ?t = "snd (kv_branch_free t (of_nat b))"
  have s: "cow_state ?t k (Suc k - Suc i)" "bits_of (kt_branch_bitmap ?t) = insert b (bits_of (kt_branch_bitmap t))"
    using cow_free_step[OF Suc.prems(2) b(2) assms(3)] assms(3) by simp_all
  have "bits_of (kt_branch_bitmap ?t) = {..<min (Suc i) k} \<union> {k..<16384}"
  proof (cases "i < k")
    case True
    then have "{..<min (Suc i) k} = insert i {..<min i k}" by (auto simp: min_def)
    then show ?thesis using s(2) Suc.prems(3) b(4) True by simp
  next
    case False
    then have "min (Suc i) k = k" "min i k = k" "0 \<in> {..<k}" using assms(1) by auto
    then show ?thesis using s(2) Suc.prems(3) b(5) False by (simp add: insert_absorb)
  qed
  moreover have "cow_free (int n) (cow_ids n k) (int i) t = cow_free (int n) (cow_ids n k) (int (Suc i)) ?t"
    using b lt by (subst cow_free.simps) (simp add: add.commute)
  ultimately show ?case using Suc.hyps(1)[of "Suc i" ?t] Suc.hyps(2) s(1) lt by simp
qed


section \<open>Properties\<close>

lemma cow_register:
  "\<exists>t1. kv_prefix_register (kv_prefix_table_init t) 0x1000 512 4 = (0, Some 0, t1) \<and> cow_state t1 0 1 \<and>
    bits_of (kt_branch_bitmap t1) = {..<16384}"
proof -
  let ?t = "kv_prefix_table_init t"
  have bm: "kt_prefix_bitmap ?t = replicate 8 (- 1)" "kt_branch_bitmap ?t = replicate 256 (- 1)"
    by (simp_all add: kv_prefix_table_init_def bitmap_ones_def)
  have wf: "kv_wf ?t" by (simp add: kv_wf_def bm) (simp add: kv_prefix_table_init_def)
  obtain t1 where reg: "kv_prefix_register ?t 0x1000 512 4 = (0, Some 0, t1)"
    using bitmap_alloc_ones[of 8 512] by (auto simp: kv_prefix_register_def bm)
  note e = register_effect[OF wf reg]
  have "length (kt_prefixes ?t) = 512" using wf by (simp add: kv_wf_def)
  then have "cow_state t1 0 1" using e by (simp add: cow_state_def)
  moreover have "bits_of (kt_branch_bitmap t1) = {..<16384}" using e by (simp add: bm)
  ultimately show ?thesis using reg by blast
qed

lemma bench_cow_outcome:
  assumes "0 < n" "n < 2 ^ 31"
  shows "\<exists>r. bench_cow_main True (int n) t = CowDone r \<and> cw_prefix_id r = 0 \<and> cw_refcnt r = of_nat (Suc (min n 16384)) \<and>
    cw_total_off r = of_nat n * 0x1000 \<and> cw_saved r = of_nat (n - 1) * 65536 \<and>
    cow_state (cw_table r) (min n 16384) (Suc (min n 16384) - n) \<and> live_branches (cw_table r) = {}"
proof -
  let ?k = "min n 16384"
  obtain t1 where t1: "kv_prefix_register (kv_prefix_table_init t) 0x1000 512 4 = (0, Some 0, t1)" "cow_state t1 0 (Suc 0)"
      "bits_of (kt_branch_bitmap t1) = {0..<16384}"
    using cow_register[of t] by (auto simp: lessThan_atLeast0)
  have z: "cow_ids n 0 = replicate n 0" by (simp add: cow_ids_def)
  from cow_alloc_outcome[OF t1(2,3), of n] obtain t2 where
    t2: "cow_alloc (int n) 0 0 (replicate n 0) t1 = (cow_ids n ?k, t2)" "cow_state t2 ?k (Suc ?k)" "bits_of (kt_branch_bitmap t2) = {?k..<16384}"
    by (auto simp: z)
  have k: "0 < ?k" "?k \<le> n" "?k \<le> 16384" using assms(1) by simp_all
  have off: "cow_resolve (int n) (cow_ids n ?k) t2 0 0 = of_nat n * 0x1000"
    using cow_resolve_outcome[OF t2(2) k, of 0 0] by simp
  have fr: "cow_state (cow_free (int n) (cow_ids n ?k) 0 t2) ?k (Suc ?k - n)"
    "bits_of (kt_branch_bitmap (cow_free (int n) (cow_ids n ?k) 0 t2)) = {..<16384}"
    using cow_free_outcome[OF k, of 0 t2] t2(2,3) by simp_all
  have get: "kv_prefix_get t2 0 = Some (kt_prefixes t2 ! 0)" by (simp add: kv_prefix_get_def MAX_PREFIXES_def)
  have "of_nat n * (65536 + 32768) - (65536 + of_nat n * 32768) = (of_nat (n - 1) * 65536 :: u64)"
    using assms(1) by (cases n) (simp_all add: algebra_simps)
  then show ?thesis
    using t1(1) t2 off fr get assms(1)
    by (simp add: bench_cow_main_def Let_def live_branches_def cow_state_def)
qed



text \<open>
  With more branches than the table holds the releases go wrong: the ids that were never assigned
  are the zeros of \<open>calloc\<close>, not the \<open>UINT32_MAX\<close> the loop tests for, so branch 0 is freed again and
  the reference of the registration is dropped with it.
\<close>

theorem bench_cow_overrun_frees_prefix:
  assumes "16384 < n" and "n < 2 ^ 31"
  shows "\<exists>r. bench_cow_main True (int n) t = CowDone r \<and> unat (cw_refcnt r) = 16385 \<and>
    refcnt (cw_table r) 0 = 0 \<and> 0 \<in> bits_of (kt_prefix_bitmap (cw_table r))"
  using bench_cow_outcome[of n t] assms by (auto simp: cow_state_def min_def)

theorem bench_cow_overrun_frees_prefix_witness:
  "\<exists>r. bench_cow_main True 20000 kv_fresh = CowDone r \<and> refcnt (cw_table r) 0 = 0"
  using bench_cow_overrun_frees_prefix[of 20000 kv_fresh] by auto

end
