(* ===== verification/Model_Kernels.thy ===== *)
theory Model_Kernels
  imports Attention Device_Buffers Reward_Ring
begin

text \<open>
  The kernels that prepare a decode step, in \<^verbatim>\<open>cu/model_state.cu\<close> and \<^verbatim>\<open>cu/query_producer.cu\<close>, and the
  reward kernel of \<^verbatim>\<open>cu/reward.cu\<close>. The threads of a block run one after another between two barriers,
  in an order that is an argument; the arithmetic is arbitrary. Buffers are lists of floats or halves.
\<close>

section \<open>The hidden state\<close>

record ('f, 'h) kernel_ops = "'f attn_ops" +
  ko_neg :: "'f \<Rightarrow> 'f"
  ko_to_half :: "'f \<Rightarrow> 'h"
  ko_of_half :: "'h \<Rightarrow> 'f"

definition bounded_slot :: "u32 \<Rightarrow> u32 \<Rightarrow> u32" where
  "bounded_slot slots slot = (if slots = 0 then 0 else slot AND (slots - 1))"

definition input_signal_num :: "u64 \<Rightarrow> u32 \<Rightarrow> u32 \<Rightarrow> int" where
  "input_signal_num seq_id step d =
     c_rem (sint (ucast ((seq_id + 1) * ucast (d + 11) + ucast (step * 13)) :: 32 word)) 43 - 21"

text \<open>What a thread does before the barrier, to \<open>prev_hidden\<close> and \<open>input_signal\<close> in shared memory.\<close>

definition ms_load :: "('f, 'h) kernel_ops \<Rightarrow> 'f list \<Rightarrow> nat \<Rightarrow> u64 \<Rightarrow> u32 \<Rightarrow> nat \<Rightarrow> 'f list \<times> 'f list \<Rightarrow> 'f list \<times> 'f list" where
  "ms_load ops hidden_buf base seq_id step d shared =
     (case shared of (prev_hidden, input_signal) \<Rightarrow>
        (prev_hidden[d := hidden_buf ! (base + d)],
         input_signal[d := fl_div ops (fl_of_int ops (input_signal_num seq_id step (of_nat d))) (fl_of_int ops 16)]))"

text \<open>What it computes after the barrier; the four constants are powers of two.\<close>

definition ms_update :: "('f, 'h) kernel_ops \<Rightarrow> 'h list \<Rightarrow> 'h list \<Rightarrow> 'f list \<Rightarrow> 'f list \<Rightarrow> 'f list \<Rightarrow> nat \<Rightarrow> 'f" where
  "ms_update ops input_proj residual_proj bias prev_hidden input_signal d =
     (let (mlp_acc, res_acc) = foldl (\<lambda>(mlp_acc, res_acc) k.
              (fl_add ops mlp_acc (fl_mul ops (input_signal ! k) (ko_of_half ops (input_proj ! (k * MODEL_STATE_DIM + d)))),
               fl_add ops res_acc (fl_mul ops (prev_hidden ! k) (ko_of_half ops (residual_proj ! (k * MODEL_STATE_DIM + d))))))
            (bias ! d, fl_zero ops) [0..<MODEL_STATE_DIM];
          gated = fl_div ops mlp_acc (fl_add ops (fl_one ops) (fl_exp ops (ko_neg ops mlp_acc)));
          half = fl_div ops (fl_one ops) (fl_of_int ops 2);
          quarter = fl_div ops (fl_one ops) (fl_of_int ops 4);
          eighth = fl_div ops (fl_one ops) (fl_of_int ops 8)
      in fl_add ops (fl_add ops (fl_add ops (fl_mul ops (prev_hidden ! d) half) (fl_mul ops res_acc eighth))
           (fl_mul ops (input_signal ! d) quarter)) (fl_mul ops gated eighth))"

text \<open>\<open>before\<close> and \<open>after\<close> are the orders of the threads on either side of the barrier.\<close>

definition model_state_prepare_kernel ::
  "('f, 'h) kernel_ops \<Rightarrow> nat list \<Rightarrow> nat list \<Rightarrow> 'f list \<times> 'f list \<Rightarrow> 'f list \<Rightarrow> 'h list \<Rightarrow> 'h list \<Rightarrow> 'f list \<Rightarrow>
     u32 \<Rightarrow> u64 \<Rightarrow> u32 \<Rightarrow> u32 \<Rightarrow> 'f list" where
  "model_state_prepare_kernel ops before after shared hidden_buf input_proj residual_proj bias slots seq_id step slot =
     (let base = unat (bounded_slot slots slot * of_nat MODEL_STATE_DIM);
          (prev_hidden, input_signal) = fold (ms_load ops hidden_buf base seq_id step) before shared
      in fold (\<lambda>d hidden_buf. hidden_buf[base + d := ms_update ops input_proj residual_proj bias prev_hidden input_signal d])
           after hidden_buf)"

text \<open>The buffers as the kernel sees them, and their contents after \<open>model_state_init\<close>.\<close>

record ('f, 'h) ms_device =
  md_hidden_buf :: "'f list"
  md_input_proj :: "'h list"
  md_residual_proj :: "'h list"
  md_bias :: "'f list"

definition ms_device_of :: "('f, 'h) kernel_ops \<Rightarrow> ModelStateBuffers \<Rightarrow> ('f, 'h) ms_device" where
  "ms_device_of ops st =
     \<lparr>md_hidden_buf = map (fl_of_int ops) (the (ms_hidden_buf st)),
      md_input_proj = map (\<lambda>n. ko_to_half ops (fl_div ops (fl_of_int ops n) (fl_of_int ops 48))) (the (ms_input_proj st)),
      md_residual_proj = map (\<lambda>n. ko_to_half ops (fl_div ops (fl_of_int ops n) (fl_of_int ops 64))) (the (ms_residual_proj st)),
      md_bias = map (\<lambda>n. fl_div ops (fl_of_int ops n) (fl_of_int ops 64)) (the (ms_bias st))\<rparr>"

text \<open>\<open>launch_ok\<close> is \<open>cudaGetLastError() == cudaSuccess\<close>; a kernel that was not launched changes nothing.\<close>

definition model_state_prepare_slot ::
  "('f, 'h) kernel_ops \<Rightarrow> nat list \<Rightarrow> nat list \<Rightarrow> 'f list \<times> 'f list \<Rightarrow> bool \<Rightarrow> ('f, 'h) ms_device \<Rightarrow>
     u32 \<Rightarrow> u64 \<Rightarrow> u32 \<Rightarrow> u32 \<Rightarrow> int \<times> ('f, 'h) ms_device" where
  "model_state_prepare_slot ops before after shared launch_ok state slots seq_id step slot =
     (if launch_ok
      then (0, state\<lparr>md_hidden_buf := model_state_prepare_kernel ops before after shared (md_hidden_buf state) (md_input_proj state)
                       (md_residual_proj state) (md_bias state) slots seq_id step slot\<rparr>)
      else (-1, state))"

section \<open>The query\<close>

definition query_row :: "('f, 'h) kernel_ops \<Rightarrow> 'f list \<Rightarrow> 'h list \<Rightarrow> nat \<Rightarrow> nat \<Rightarrow> 'h" where
  "query_row ops hidden_buf proj_buf base d =
     ko_to_half ops (foldl (\<lambda>acc k. fl_add ops acc (fl_mul ops (hidden_buf ! (base + k)) (ko_of_half ops (proj_buf ! (k * 128 + d)))))
       (fl_zero ops) [0..<128])"

definition query_prepare_kernel ::
  "('f, 'h) kernel_ops \<Rightarrow> nat list \<Rightarrow> 'f list \<Rightarrow> 'h list \<Rightarrow> 'h list \<Rightarrow> u32 \<Rightarrow> u32 \<Rightarrow> 'h list" where
  "query_prepare_kernel ops order hidden_buf query_buf proj_buf slots slot =
     (let base = unat (bounded_slot slots slot * 128)
      in fold (\<lambda>d query_buf. query_buf[base + d := query_row ops hidden_buf proj_buf base d]) order query_buf)"

definition query_producer_prepare_slot ::
  "('f, 'h) kernel_ops \<Rightarrow> nat list \<Rightarrow> bool \<Rightarrow> 'f list \<Rightarrow> 'h list \<Rightarrow> 'h list \<Rightarrow> u32 \<Rightarrow> u32 \<Rightarrow> int \<times> 'h list" where
  "query_producer_prepare_slot ops order launch_ok hidden_buf query_buf proj_buf slots slot =
     (if launch_ok then (0, query_prepare_kernel ops order hidden_buf query_buf proj_buf slots slot) else (-1, query_buf))"

section \<open>Rewards\<close>

text \<open>
  The threads of the grid in some order, each given by its index; \<open>score\<close> is the float division of the
  masked token count by 255, and \<open>scores\<close> may be NULL.
\<close>

definition reward_thread ::
  "(u32 \<Rightarrow> f32_bits) \<Rightarrow> nat \<Rightarrow> nat \<Rightarrow> RewardDesc list \<times> f32_bits list option \<Rightarrow> RewardDesc list \<times> f32_bits list option" where
  "reward_thread score n i bufs =
     (case bufs of (descs, scores) \<Rightarrow>
        if i \<ge> n then (descs, scores)
        else let s = score (rd_token_count (descs ! i) AND 0xFF)
             in (descs[i := (descs ! i)\<lparr>rd_reward := s\<rparr>], map_option (\<lambda>sc. sc[i := s]) scores))"

definition reward_score_kernel ::
  "(u32 \<Rightarrow> f32_bits) \<Rightarrow> nat list \<Rightarrow> RewardDesc list \<Rightarrow> nat \<Rightarrow> f32_bits list option \<Rightarrow> RewardDesc list \<times> f32_bits list option" where
  "reward_score_kernel score order descs n scores = fold (reward_thread score n) order (descs, scores)"

section \<open>Threads in any order\<close>

lemma length_fold_rows [simp]: "length (fold (\<lambda>d xs. xs[f d := g d]) ds xs) = length xs"
  by (induction ds arbitrary: xs) simp_all

lemma nth_fold_rows:
  assumes "i < length xs"
  shows "fold (\<lambda>d xs. xs[base + d := g d]) ds xs ! i = (if base \<le> i \<and> i - base \<in> set ds then g (i - base) else xs ! i)"
  using assms by (induction ds arbitrary: xs) (auto simp: nth_list_update)

text \<open>A row of 128 entries written by 128 threads.\<close>

definition write_row :: "nat \<Rightarrow> (nat \<Rightarrow> 'a) \<Rightarrow> 'a list \<Rightarrow> 'a list" where
  "write_row base g xs = map (\<lambda>i. if base \<le> i \<and> i < base + 128 then g (i - base) else xs ! i) [0..<length xs]"

lemma fold_rows_write_row:
  assumes "set ds = {..<128}"
  shows "fold (\<lambda>d xs. xs[base + d := g d]) ds xs = write_row base g xs"
  by (rule nth_equalityI) (auto simp: write_row_def nth_fold_rows assms)

lemma write_row_cong: "(\<And>d. d < 128 \<Longrightarrow> g d = g' d) \<Longrightarrow> write_row base g xs = write_row base g' xs"
  by (auto simp: write_row_def)

lemma ms_load_all:
  assumes "set before = {..<128}" "length prev = 128" "length sig = 128"
  shows "fold (ms_load ops hidden_buf base seq_id step) before (prev, sig) =
    (map (\<lambda>d. hidden_buf ! (base + d)) [0..<128],
     map (\<lambda>d. fl_div ops (fl_of_int ops (input_signal_num seq_id step (of_nat d))) (fl_of_int ops 16)) [0..<128])"
proof -
  let ?s = "\<lambda>d. fl_div ops (fl_of_int ops (input_signal_num seq_id step (of_nat d))) (fl_of_int ops 16)"
  have "fold (ms_load ops hidden_buf base seq_id step) ds (p, s) =
      (fold (\<lambda>d xs. xs[0 + d := hidden_buf ! (base + d)]) ds p, fold (\<lambda>d xs. xs[0 + d := ?s d]) ds s)" for ds p s
    by (induction ds arbitrary: p s) (simp_all add: ms_load_def)
  then show ?thesis
    using assms by (simp add: fold_rows_write_row[where base = 0, simplified] write_row_def)
qed


lemma bounded_slot_less: "0 < slots \<Longrightarrow> unat (bounded_slot slots slot) < unat slots"
proof -
  assume "0 < slots"
  then have "slot AND (slots - 1) \<le> slots - 1" by (simp add: word_and_le1)
  moreover have "slots - 1 < slots"
    using \<open>0 < slots\<close> by (simp add: word_less_nat_alt) (metis diff_less unat_minus_one unat_0 less_numeral_extra(1,3))
  ultimately show ?thesis using \<open>0 < slots\<close> by (auto simp: bounded_slot_def simp flip: word_less_nat_alt)
qed

lemma unat_row_base:
  assumes "unat slots \<le> 2 ^ 25"
  shows "unat (bounded_slot slots slot * 128) = 128 * unat (bounded_slot slots slot)"
proof (cases "slots = 0")
  case True
  then show ?thesis by (simp add: bounded_slot_def)
next
  case False
  then have "unat (bounded_slot slots slot) < 2 ^ 25" using bounded_slot_less[of slots slot] assms by (simp add: word_neq_0_conv)
  then show ?thesis by (subst unat_mult_lem[THEN iffD1]) simp_all
qed

section \<open>Exact arithmetic\<close>

fun x_neg :: "xreal \<Rightarrow> xreal" where
  "x_neg (Fin x) = Fin (- x)"
| "x_neg NegInf = NegInf"

definition exact_kernel :: "(xreal, xreal) kernel_ops" where
  "exact_kernel = attn_ops.extend exact_ops \<lparr>ko_neg = x_neg, ko_to_half = (\<lambda>x. x), ko_of_half = (\<lambda>x. x)\<rparr>"

lemma exact_kernel_simps [simp]:
  "fl_zero exact_kernel = Fin 0" "fl_one exact_kernel = Fin 1" "fl_add exact_kernel = x_lift (+)" "fl_mul exact_kernel = x_lift (*)"
  "fl_div exact_kernel = x_lift (/)" "fl_exp exact_kernel = x_exp" "fl_of_int exact_kernel i = Fin (real_of_int i)"
  "ko_neg exact_kernel = x_neg" "ko_to_half exact_kernel x = x" "ko_of_half exact_kernel x = x"
  by (simp_all add: exact_kernel_def attn_ops.defs exact_ops_def)

text \<open>The residual block and the projection as formulas.\<close>

definition silu :: "real \<Rightarrow> real" where
  "silu x = x / (1 + exp (- x))"

definition ref_signal :: "u64 \<Rightarrow> u32 \<Rightarrow> nat \<Rightarrow> real" where
  "ref_signal seq_id step d = real_of_int (input_signal_num seq_id step (of_nat d)) / 16"

definition ref_hidden :: "real list \<Rightarrow> real list \<Rightarrow> real list \<Rightarrow> (nat \<Rightarrow> real) \<Rightarrow> (nat \<Rightarrow> real) \<Rightarrow> nat \<Rightarrow> real" where
  "ref_hidden w r b h s d = h d / 2 + (\<Sum>k<128. h k * r ! (k * 128 + d)) / 8 + s d / 4 +
     silu (b ! d + (\<Sum>k<128. s k * w ! (k * 128 + d))) / 8"

lemma foldl_pair: "foldl (\<lambda>(a, b) k. (f a k, g b k)) (a, b) ks = (foldl f a ks, foldl g b ks)"
  by (induction ks arbitrary: a b) simp_all

lemma ms_update_exact:
  assumes "length w = 128 * 128" "length r = 128 * 128" "length b = 128" "d < 128"
  shows "ms_update exact_kernel (map Fin w) (map Fin r) (map Fin b) (map (\<lambda>k. Fin (h k)) [0..<128]) (map (\<lambda>k. Fin (s k)) [0..<128]) d =
    Fin (ref_hidden w r b h s d)"
proof -
  have "foldl (\<lambda>acc k. x_lift (+) acc (x_lift (*) (map (\<lambda>k. Fin (u k)) [0..<128] ! k) (map Fin v ! (k * 128 + d)))) (Fin a) [0..<128] =
      Fin (a + (\<Sum>k<128. u k * v ! (k * 128 + d)))" if "length v = 128 * 128" for u v a
    by (rule foldl_x_add_upt) (use that assms(4) in auto)
  from this[OF assms(1), of s "b ! d"] this[OF assms(2), of h 0] show ?thesis
    using assms(3,4) by (simp add: ms_update_def MODEL_STATE_DIM_def foldl_pair Let_def ref_hidden_def silu_def)
qed

lemma query_row_exact:
  assumes "length p = 128 * 128" "d < 128" "\<And>k. k < 128 \<Longrightarrow> hb ! (base + k) = Fin (h k)"
  shows "query_row exact_kernel hb (map Fin p) base d = Fin (\<Sum>k<128. h k * p ! (k * 128 + d))"
  using foldl_x_add_upt[of 128 "\<lambda>k. x_lift (*) (hb ! (base + k)) (map Fin p ! (k * 128 + d))" "\<lambda>k. h k * p ! (k * 128 + d)" 0] assms
  by (simp add: query_row_def)

text \<open>The kernel writes one row, from the values the row had before.\<close>

lemma model_state_kernel_row:
  assumes "set before = {..<128}" "set after = {..<128}" "length prev = 128" "length sig = 128" "unat slots \<le> 2 ^ 25"
  shows "model_state_prepare_kernel ops before after (prev, sig) hidden_buf w r b slots seq_id step slot =
    (let base = 128 * unat (bounded_slot slots slot)
     in write_row base (ms_update ops w r b (map (\<lambda>d. hidden_buf ! (base + d)) [0..<128])
          (map (\<lambda>d. fl_div ops (fl_of_int ops (input_signal_num seq_id step (of_nat d))) (fl_of_int ops 16)) [0..<128])) hidden_buf)"
  unfolding model_state_prepare_kernel_def Let_def
  using unat_row_base[OF assms(5), of slot] assms(1-4)
  by (simp add: ms_load_all MODEL_STATE_DIM_def fold_rows_write_row)

lemma nth_write_row: "i < length xs \<Longrightarrow> write_row base g xs ! i = (if base \<le> i \<and> i < base + 128 then g (i - base) else xs ! i)"
  by (simp add: write_row_def)

text \<open>The threads of the reward kernel that have run are a set; a thread only reads what no thread writes.\<close>

definition reward_after ::
  "(u32 \<Rightarrow> f32_bits) \<Rightarrow> nat set \<Rightarrow> RewardDesc list \<Rightarrow> f32_bits list option \<Rightarrow> RewardDesc list \<times> f32_bits list option" where
  "reward_after score I descs scores =
     (let s = (\<lambda>i. score (rd_token_count (descs ! i) AND 0xFF))
      in (map (\<lambda>i. if i \<in> I then (descs ! i)\<lparr>rd_reward := s i\<rparr> else descs ! i) [0..<length descs],
          map_option (\<lambda>sc. map (\<lambda>i. if i \<in> I then s i else sc ! i) [0..<length sc]) scores))"

lemma nth_list_update_split: "j < length xs \<Longrightarrow> xs[i := x] ! j = (if i = j then x else xs ! j)"
  by (cases "i = j") simp_all

lemma reward_thread_after:
  assumes "n \<le> length descs"
  shows "reward_thread score n i (reward_after score I descs scores) = reward_after score (if i < n then insert i I else I) descs scores"
  using assms by (cases scores) (auto simp: reward_thread_def reward_after_def Let_def nth_list_update_split intro!: nth_equalityI)

lemma fold_reward_thread:
  assumes "n \<le> length descs"
  shows "fold (reward_thread score n) order (reward_after score I descs scores) = reward_after score (I \<union> (set order \<inter> {..<n})) descs scores"
proof (induction order arbitrary: I)
  case (Cons i order)
  then show ?case by (simp add: reward_thread_after[OF assms])
qed simp

lemma reward_after_empty: "reward_after score {} descs scores = (descs, scores)"
  by (cases scores) (simp_all add: reward_after_def map_nth)

text \<open>The buffers \<open>model_state_init\<close> leaves behind have the shape the kernels expect.\<close>

lemma length_matrix [simp]: "length (matrix n f) = n * n"
  by (simp add: matrix_def length_concat comp_def sum_list_triv)

lemma ms_device_of_ready:
  "ms_device_of exact_kernel (model_state_ready slots) =
     \<lparr>md_hidden_buf = map Fin (replicate (128 * unat slots) 0),
      md_input_proj = map Fin (map (\<lambda>n. real_of_int n / 48) (matrix 128 ms_input_num)),
      md_residual_proj = map Fin (map (\<lambda>n. real_of_int n / 64) (matrix 128 ms_residual_num)),
      md_bias = map Fin (map (\<lambda>r. real_of_int (ms_bias_num (of_nat r)) / 64) [0..<128])\<rparr>"
  by (simp add: ms_device_of_def model_state_ready_def MODEL_STATE_DIM_def mult.commute)

section \<open>Properties\<close>

text \<open>
  The in-place update of a hidden row is free of races: whatever the order of the threads on either
  side of the barrier and whatever shared memory held before, every entry of the row becomes the
  value computed from the old row, and no other entry of the buffer changes. This holds for any
  arithmetic.
\<close>

theorem model_state_kernel_race_free:
  fixes slots slot :: u32
  assumes "set before = {..<128}" and "set after = {..<128}" and "length prev = 128" and "length sig = 128" and "unat slots \<le> 2 ^ 25"
  defines "base \<equiv> 128 * unat (bounded_slot slots slot)"
  shows "model_state_prepare_kernel ops before after (prev, sig) hidden_buf w r b slots seq_id step slot =
    map (\<lambda>i. if base \<le> i \<and> i < base + 128
             then ms_update ops w r b (map (\<lambda>d. hidden_buf ! (base + d)) [0..<128])
                    (map (\<lambda>d. fl_div ops (fl_of_int ops (input_signal_num seq_id step (of_nat d))) (fl_of_int ops 16)) [0..<128]) (i - base)
             else hidden_buf ! i) [0..<length hidden_buf]"
  by (simp add: model_state_kernel_row[OF assms(1-5)] base_def Let_def write_row_def)

theorem model_state_kernel_race_free_witness:
  "length (model_state_prepare_kernel exact_kernel (rev [0..<128]) [0..<128] (replicate 128 NegInf, replicate 128 NegInf)
     (replicate 256 (Fin 0)) [] [] [] 2 7 3 1) = 256"
  using model_state_kernel_race_free[where before = "rev [0..<128]" and after = "[0..<128]" and prev = "replicate 128 NegInf"
      and sig = "replicate 128 NegInf" and slots = 2 and slot = 1 and ops = exact_kernel and hidden_buf = "replicate 256 (Fin 0)"
      and w = "[]" and r = "[]" and b = "[]" and seq_id = 7 and step = 3]
  by (simp add: atLeast0LessThan)

text \<open>
  C35. Preparing a step in exact arithmetic: the model state kernel replaces the slot's row of the hidden
  state by the residual block applied to the old row and the input signal, the query kernel
  then writes the projection of that new row, and both leave every other row alone.
\<close>

theorem prepare_step_exact:
  assumes threads: "set before = {..<128}" "set after = {..<128}" "set order = {..<128}" "length prev = 128" "length sig = 128"
    and bufs: "md_input_proj st = map Fin w" "md_residual_proj st = map Fin r" "md_bias st = map Fin b" "md_hidden_buf st = map Fin h"
    and len: "length w = 128 * 128" "length r = 128 * 128" "length b = 128" "length p = 128 * 128"
      "length h = 128 * unat slots" "length q = 128 * unat slots" "0 < slots" "unat slots \<le> 2 ^ 25"
    and run: "model_state_prepare_slot exact_kernel before after (prev, sig) True st slots seq_id step slot = (c1, st')"
      "query_producer_prepare_slot exact_kernel order True (md_hidden_buf st') q (map Fin p) slots slot = (c2, q')"
  defines "base \<equiv> 128 * unat (bounded_slot slots slot)"
  defines "new \<equiv> ref_hidden w r b (\<lambda>d. h ! (base + d)) (ref_signal seq_id step)"
  shows "c1 = 0 \<and> c2 = 0 \<and> base + 128 \<le> 128 * unat slots \<and>
    (\<forall>d < 128. md_hidden_buf st' ! (base + d) = Fin (new d) \<and> q' ! (base + d) = Fin (\<Sum>k<128. new k * p ! (k * 128 + d))) \<and>
    (\<forall>i < 128 * unat slots. i < base \<or> base + 128 \<le> i \<longrightarrow> md_hidden_buf st' ! i = Fin (h ! i) \<and> q' ! i = q ! i)"
proof -
  have fit: "base + 128 \<le> 128 * unat slots" using bounded_slot_less[OF len(7), of slot] by (simp add: base_def)
  have row: "map (\<lambda>d. map Fin h ! (base + d)) [0..<128] = map (\<lambda>d. Fin (h ! (base + d))) [0..<128]"
    using fit len(5) by auto
  let ?hb = "write_row base (ms_update exact_kernel (map Fin w) (map Fin r) (map Fin b) (map (\<lambda>d. Fin (h ! (base + d))) [0..<128])
        (map (\<lambda>d. Fin (ref_signal seq_id step d)) [0..<128])) (map Fin h)"
  have st': "c1 = 0" "md_hidden_buf st' = ?hb"
    using run(1) bufs row
    by (auto simp: model_state_prepare_slot_def model_state_kernel_row[OF threads(1,2,4,5) len(8)] Let_def ref_signal_def
        simp flip: base_def)
  have hid: "?hb ! i = (if base \<le> i \<and> i < base + 128 then Fin (new (i - base)) else Fin (h ! i))" if "i < 128 * unat slots" for i
    using that len(5) ms_update_exact[OF len(1-3), of "i - base" "\<lambda>d. h ! (base + d)" "ref_signal seq_id step"]
    unfolding new_def by (auto simp: nth_write_row)
  have new: "?hb ! (base + d) = Fin (new d)" if "d < 128" for d using hid[of "base + d"] that fit by auto
  have q': "c2 = 0" "q' = write_row base (query_row exact_kernel ?hb (map Fin p) base) q"
    using run(2) unat_row_base[OF len(8), of slot] threads(3)
    by (auto simp: query_producer_prepare_slot_def query_prepare_kernel_def Let_def base_def st'(2) fold_rows_write_row)
  have qrow: "q' ! i = (if base \<le> i \<and> i < base + 128 then Fin (\<Sum>k<128. new k * p ! (k * 128 + (i - base))) else q ! i)"
    if "i < 128 * unat slots" for i
    using that len(6) query_row_exact[OF len(4) _ new, of "i - base"] by (auto simp: q'(2) nth_write_row)
  show ?thesis using st'(1) q'(1) fit hid qrow new unfolding st'(2) by auto
qed


theorem prepare_step_exact_witness:
  "let p = map (\<lambda>n. real_of_int n / 32) (matrix 128 qp_proj_num);
       r1 = model_state_prepare_slot exact_kernel (rev [0..<128]) [0..<128] (replicate 128 NegInf, replicate 128 NegInf) True
              (ms_device_of exact_kernel (model_state_ready 2)) 2 7 3 5;
       r2 = query_producer_prepare_slot exact_kernel [0..<128] True (md_hidden_buf (snd r1)) (replicate 256 NegInf) (map Fin p) 2 5
   in fst r1 = 0 \<and> fst r2 = 0 \<and> (\<exists>x. snd r2 ! 130 = Fin x) \<and> snd r2 ! 2 = NegInf"
proof -
  let ?p = "map (\<lambda>n. real_of_int n / 32) (matrix 128 qp_proj_num)"
  let ?st = "ms_device_of exact_kernel (model_state_ready 2)"
  let ?r1 = "model_state_prepare_slot exact_kernel (rev [0..<128]) [0..<128] (replicate 128 NegInf, replicate 128 NegInf) True ?st 2 7 3 5"
  let ?r2 = "query_producer_prepare_slot exact_kernel [0..<128] True (md_hidden_buf (snd ?r1)) (replicate 256 NegInf) (map Fin ?p) 2 5"
  have base: "bounded_slot 2 5 = 1" by (simp add: bounded_slot_def)
  note step = prepare_step_exact[where before = "rev [0..<128]" and after = "[0..<128]" and order = "[0..<128]"
        and prev = "replicate 128 NegInf" and sig = "replicate 128 NegInf" and st = ?st and p = ?p
        and w = "map (\<lambda>n. real_of_int n / 48) (matrix 128 ms_input_num)" and h = "replicate 256 0"
        and r = "map (\<lambda>n. real_of_int n / 64) (matrix 128 ms_residual_num)"
        and b = "map (\<lambda>r. real_of_int (ms_bias_num (of_nat r)) / 64) [0..<128]"
        and slots = 2 and q = "replicate 256 NegInf" and seq_id = 7 and step = 3 and slot = 5
        and ?c1.0 = "fst ?r1" and st' = "snd ?r1" and ?c2.0 = "fst ?r2" and q' = "snd ?r2", unfolded base]
  have res: "fst ?r1 = 0 \<and> fst ?r2 = 0" and row: "d < 128 \<Longrightarrow> \<exists>x. snd ?r2 ! (128 + d) = Fin x"
    and other: "i < 128 \<Longrightarrow> snd ?r2 ! i = NegInf" for d i
    using step by (auto simp: atLeast0LessThan ms_device_of_ready)
  show ?thesis using res row[of 2] other[of 2] by (simp add: Let_def)
qed

text \<open>
  The reward kernel scores the first \<open>n\<close> descriptors, each from the low byte of its token count, in whatever
  order the threads of the grid run and however many more than \<open>n\<close> there are; it copies the same scores out when there is
  a buffer for them, and touches nothing at or after index \<open>n\<close>.
\<close>

theorem reward_kernel_scores_all:
  fixes score :: "u32 \<Rightarrow> f32_bits"
  assumes "{..<n} \<subseteq> set order" and "n \<le> length descs"
  defines "s \<equiv> \<lambda>i. score (rd_token_count (descs ! i) AND 0xFF)"
  shows "reward_score_kernel score order descs n scores =
    (map (\<lambda>i. if i < n then (descs ! i)\<lparr>rd_reward := s i\<rparr> else descs ! i) [0..<length descs],
     map_option (\<lambda>sc. map (\<lambda>i. if i < n then s i else sc ! i) [0..<length sc]) scores)"
  using fold_reward_thread[OF assms(2), of score order "{}" scores] Int_absorb1[OF assms(1)]
  unfolding s_def by (simp add: reward_score_kernel_def reward_after_empty) (simp add: reward_after_def)

theorem reward_kernel_scores_all_witness:
  "let d = \<lparr>rd_rollout_id = 1, rd_token_start = 0, rd_token_count = 0x1FF, rd_reward_model_id = 0, rd_reward = 0, rd_flags = 0\<rparr>
   in reward_score_kernel ucast [2, 0, 3, 1, 7] [d, d, d] 2 None = ([d\<lparr>rd_reward := 0xFF\<rparr>, d\<lparr>rd_reward := 0xFF\<rparr>, d], None)"
proof -
  have "{..<2} \<subseteq> set [2, 0, 3, 1, 7 :: nat]" by (auto simp: less_2_cases_iff)
  from reward_kernel_scores_all[OF this, where score = ucast and scores = None] show ?thesis by (simp add: Let_def upt_rec)
qed

end
