(* ===== verification/Fair_Threads.thy ===== *)
theory Fair_Threads
  imports Prelude
begin

text \<open>
  Threads that finish under every fair schedule: the contract the concurrent benchmarks are proved against. A schedule is
  cut into rounds, stretches in which each thread runs at least once; \<open>left\<close> bounds the work that remains.
\<close>

definition rounds_of :: "'t set \<Rightarrow> 't list list \<Rightarrow> bool" where
  "rounds_of ts rounds = (\<forall>r \<in> set rounds. ts \<subseteq> set r)"

text \<open>
  The general form: no step adds work; while work remains some thread can reduce it, and goes on being able to until it is
  reduced, so that a thread may spin or idle in between.
\<close>

locale fair_steps =
  fixes threads :: "'t set" and step :: "'t \<Rightarrow> 's \<Rightarrow> 's" and inv :: "'s \<Rightarrow> bool" and left :: "'s \<Rightarrow> nat"
  assumes inv_step: "inv s \<Longrightarrow> inv (step t s)"
    and left_step: "inv s \<Longrightarrow> left (step t s) \<le> left s"
    and alive: "inv s \<Longrightarrow> 0 < left s \<Longrightarrow> \<exists>t \<in> threads. left (step t s) < left s"
    and stable: "inv s \<Longrightarrow> left (step t s) < left s \<Longrightarrow> left (step u s) = left s \<Longrightarrow> left (step t (step u s)) < left s"
begin

lemma inv_run: "inv s \<Longrightarrow> inv (fold step ts s)"
  by (induction ts arbitrary: s) (simp_all add: inv_step)

lemma left_run: "inv s \<Longrightarrow> left (fold step ts s) \<le> left s"
proof (induction ts arbitrary: s)
  case (Cons t ts)
  from Cons.IH[OF inv_step[OF Cons.prems, of t]] left_step[OF Cons.prems, of t] show ?case by simp
qed simp

lemma left_enabled:
  assumes "inv s" "left (step t s) < left s" "t \<in> set ts"
  shows "left (fold step ts s) < left s"
  using assms
proof (induction ts arbitrary: s)
  case (Cons u ts)
  note run = left_run[OF inv_step[OF Cons.prems(1), of u], of ts]
  show ?case
  proof (cases "left (step u s) < left s")
    case True
    with run show ?thesis by simp
  next
    case False
    then have eq: "left (step u s) = left s" using left_step[OF Cons.prems(1), of u] by simp
    with Cons.prems have "t \<in> set ts" by auto
    with Cons.IH[OF inv_step[OF Cons.prems(1), of u]] stable[OF Cons.prems(1,2) eq] eq show ?thesis by simp
  qed
qed simp

lemma fair_run_finishes:
  assumes "inv s" "rounds_of threads rounds" "left s \<le> length rounds"
  shows "left (fold step (concat rounds) s) = 0"
  using assms
proof (induction rounds arbitrary: s)
  case (Cons r rounds)
  have "left (fold step r s) \<le> length rounds"
  proof (cases "left s = 0")
    case False
    then obtain t where "t \<in> set r" "left (step t s) < left s"
      using alive[OF Cons.prems(1)] Cons.prems(2) by (auto simp: rounds_of_def)
    from left_enabled[OF Cons.prems(1) this(2,1)] Cons.prems(3) show ?thesis by simp
  qed (use left_run[OF Cons.prems(1), of r] in simp)
  with Cons.IH[OF inv_run[OF Cons.prems(1)], of r] Cons.prems(2) show ?case by (simp add: rounds_of_def)
qed simp

end

text \<open>The form for threads that leave the state alone when they block or spin.\<close>

locale fair_threads =
  fixes threads :: "'t set" and step :: "'t \<Rightarrow> 's \<Rightarrow> 's" and inv :: "'s \<Rightarrow> bool" and left :: "'s \<Rightarrow> nat"
  assumes thread_inv: "inv s \<Longrightarrow> inv (step t s)"
    and progress: "inv s \<Longrightarrow> step t s \<noteq> s \<Longrightarrow> left (step t s) < left s"
    and thread_alive: "inv s \<Longrightarrow> 0 < left s \<Longrightarrow> \<exists>t \<in> threads. step t s \<noteq> s"

sublocale fair_threads \<subseteq> fair_steps threads step inv left
proof
  fix s t assume inv: "inv s"
  show "inv (step t s)" by (rule thread_inv[OF inv])
  show "left (step t s) \<le> left s" using progress[OF inv, of t] by (cases "step t s = s") simp_all
  show "\<exists>t \<in> threads. left (step t s) < left s" if "0 < left s" using thread_alive[OF inv that] progress[OF inv] by blast
  show "left (step t (step u s)) < left s" if "left (step t s) < left s" "left (step u s) = left s" for u
    using progress[OF inv, of u] that by (cases "step u s = s") simp_all
qed

end
