(* ===== verification/Lab_Wakeup.thy ===== *)
theory Lab_Wakeup
  imports Fair_Threads
begin

text \<open>
  The wake-up lab (\<^verbatim>\<open>lab/04_syscall_vs_poll/bench.c\<close>) and the false-sharing lab (\<^verbatim>\<open>lab/01_false_sharing/bench.c\<close>):
  in each benchmark the calling thread and one or two threads of its own run until they are joined. A thread's step is one
  system call or one load or store of shared memory; a thread that blocks or spins leaves the state as it is.
  The elapsed times the benchmarks return are not part of the state.
\<close>

section \<open>The event descriptor\<close>

text \<open>
  An \<open>eventfd\<close> is a 64-bit counter: \<open>write\<close> adds to it and blocks while the sum would exceed \<open>2\<^sup>6\<^sup>4 - 2\<close>;
  \<open>read\<close> takes all of it and blocks while it is zero. Either may fail.
\<close>

datatype main_pc = Sending | Joining | Returned | Failed
datatype wake_thread = Waker | Sleeper

record efd_state =
  es_counter :: u64
  es_main :: main_pc
  es_i :: u64
  es_returned :: bool
  es_seen :: u64

definition efd_init :: efd_state where
  "efd_init = \<lparr>es_counter = 0, es_main = Sending, es_i = 0, es_returned = False, es_seen = 0\<rparr>"

definition efd_consumer :: "u64 \<Rightarrow> bool \<Rightarrow> efd_state \<Rightarrow> efd_state" where
  "efd_consumer count ok s =
     (if es_returned s then s
      else if es_seen s < count
      then if \<not> ok then s\<lparr>es_returned := True\<rparr>
           else if es_counter s = 0 then s
           else s\<lparr>es_seen := es_seen s + es_counter s, es_counter := 0\<rparr>
      else s\<lparr>es_returned := True\<rparr>)"

definition efd_producer :: "u64 \<Rightarrow> bool \<Rightarrow> efd_state \<Rightarrow> efd_state" where
  "efd_producer n ok s =
     (case es_main s of
        Sending \<Rightarrow>
          if es_i s < n
          then if \<not> ok then s\<lparr>es_main := Failed\<rparr>
               else if es_counter s \<ge> 0xFFFFFFFFFFFFFFFE then s
               else s\<lparr>es_counter := es_counter s + 1, es_i := es_i s + 1\<rparr>
          else s\<lparr>es_main := Joining\<rparr>
      | Joining \<Rightarrow> if es_returned s then s\<lparr>es_main := Returned\<rparr> else s
      | Returned \<Rightarrow> s
      | Failed \<Rightarrow> s)"

definition efd_step :: "u64 \<Rightarrow> wake_thread \<times> bool \<Rightarrow> efd_state \<Rightarrow> efd_state" where
  "efd_step n e s = (case e of (Waker, ok) \<Rightarrow> efd_producer n ok s | (Sleeper, ok) \<Rightarrow> efd_consumer n ok s)"

text \<open>\<open>None\<close> when no descriptor could be made and the benchmark returns -1 at once.\<close>

definition bench_eventfd :: "bool \<Rightarrow> u64 \<Rightarrow> (wake_thread \<times> bool) list \<Rightarrow> efd_state option" where
  "bench_eventfd efd_ok n sched = (if efd_ok then Some (fold (efd_step n) sched efd_init) else None)"

section \<open>Polling\<close>

datatype poll_pc = PTest | PStore | PJoin | PReturned
datatype sleeper_pc = CLoad | CStore | CReturned

record poll_state =
  ps_flag :: u64
  ps_main :: poll_pc
  ps_i :: u64
  ps_cons :: sleeper_pc
  ps_j :: u64

definition poll_init :: poll_state where
  "poll_init = \<lparr>ps_flag = 0, ps_main = PTest, ps_i = 0, ps_cons = CLoad, ps_j = 0\<rparr>"

definition poll_consumer :: "u64 \<Rightarrow> poll_state \<Rightarrow> poll_state" where
  "poll_consumer count s =
     (case ps_cons s of
        CLoad \<Rightarrow> if ps_j s < count then if ps_flag s \<noteq> 0 then s\<lparr>ps_cons := CStore\<rparr> else s else s\<lparr>ps_cons := CReturned\<rparr>
      | CStore \<Rightarrow> s\<lparr>ps_flag := 0, ps_j := ps_j s + 1, ps_cons := CLoad\<rparr>
      | CReturned \<Rightarrow> s)"

definition poll_producer :: "u64 \<Rightarrow> poll_state \<Rightarrow> poll_state" where
  "poll_producer n s =
     (case ps_main s of
        PTest \<Rightarrow> if ps_i s < n then if ps_flag s \<noteq> 0 then s else s\<lparr>ps_main := PStore\<rparr> else s\<lparr>ps_main := PJoin\<rparr>
      | PStore \<Rightarrow> s\<lparr>ps_flag := 1, ps_i := ps_i s + 1, ps_main := PTest\<rparr>
      | PJoin \<Rightarrow> if ps_cons s = CReturned then s\<lparr>ps_main := PReturned\<rparr> else s
      | PReturned \<Rightarrow> s)"

text \<open>\<open>sched_yield\<close> gives up the processor where the other consumer pauses; neither is an effect on the state.\<close>

definition yield_consumer :: "u64 \<Rightarrow> poll_state \<Rightarrow> poll_state" where
  "yield_consumer count s =
     (case ps_cons s of
        CLoad \<Rightarrow> if ps_j s < count then if ps_flag s \<noteq> 0 then s\<lparr>ps_cons := CStore\<rparr> else s else s\<lparr>ps_cons := CReturned\<rparr>
      | CStore \<Rightarrow> s\<lparr>ps_flag := 0, ps_j := ps_j s + 1, ps_cons := CLoad\<rparr>
      | CReturned \<Rightarrow> s)"

definition poll_step :: "(u64 \<Rightarrow> poll_state \<Rightarrow> poll_state) \<Rightarrow> u64 \<Rightarrow> wake_thread \<Rightarrow> poll_state \<Rightarrow> poll_state" where
  "poll_step consumer n t s = (case t of Waker \<Rightarrow> poll_producer n s | Sleeper \<Rightarrow> consumer n s)"

definition bench_poll_lab :: "u64 \<Rightarrow> wake_thread list \<Rightarrow> poll_state" where
  "bench_poll_lab n sched = fold (poll_step poll_consumer n) sched poll_init"

definition bench_yield :: "u64 \<Rightarrow> wake_thread list \<Rightarrow> poll_state" where
  "bench_yield n sched = fold (poll_step yield_consumer n) sched poll_init"

section \<open>Two counters\<close>

text \<open>
  \<open>(*ta->counter)++\<close> on a volatile is a load and a store. Memory is a function from addresses; each thread keeps its loop
  counter and the value it has loaded.
\<close>

record inc_state =
  it_i :: u64
  it_loaded :: "u64 option"

definition inc_thread :: "nat \<Rightarrow> u64 \<Rightarrow> inc_state \<times> (nat \<Rightarrow> u64) \<Rightarrow> inc_state \<times> (nat \<Rightarrow> u64)" where
  "inc_thread counter iterations s =
     (case s of (t, m) \<Rightarrow>
        case it_loaded t of
          None \<Rightarrow> if it_i t < iterations then (t\<lparr>it_loaded := Some (m counter)\<rparr>, m) else (t, m)
        | Some v \<Rightarrow> (t\<lparr>it_loaded := None, it_i := it_i t + 1\<rparr>, m(counter := v + 1)))"

record run_state =
  rs_thr1 :: inc_state
  rs_thr2 :: inc_state
  rs_mem :: "nat \<Rightarrow> u64"

definition run_step :: "nat \<Rightarrow> nat \<Rightarrow> u64 \<Rightarrow> bool \<Rightarrow> run_state \<Rightarrow> run_state" where
  "run_step cnt_a cnt_b n first s =
     (if first
      then case inc_thread cnt_a n (rs_thr1 s, rs_mem s) of (t, m) \<Rightarrow> s\<lparr>rs_thr1 := t, rs_mem := m\<rparr>
      else case inc_thread cnt_b n (rs_thr2 s, rs_mem s) of (t, m) \<Rightarrow> s\<lparr>rs_thr2 := t, rs_mem := m\<rparr>)"

text \<open>The threads have been joined when both have left their loops.\<close>

definition run_joined :: "u64 \<Rightarrow> run_state \<Rightarrow> bool" where
  "run_joined n s = (\<forall>t \<in> {rs_thr1 s, rs_thr2 s}. it_loaded t = None \<and> \<not> it_i t < n)"

definition run_bench :: "nat \<Rightarrow> nat \<Rightarrow> u64 \<Rightarrow> bool list \<Rightarrow> (nat \<Rightarrow> u64) \<Rightarrow> run_state" where
  "run_bench cnt_a cnt_b n sched m =
     (let start = \<lparr>it_i = 0, it_loaded = None\<rparr>
      in fold (run_step cnt_a cnt_b n) sched \<lparr>rs_thr1 = start, rs_thr2 = start, rs_mem = m\<rparr>)"

text \<open>Offsets of the fields in \<open>shared_counters\<close> and \<open>padded_counters\<close>.\<close>

definition shared_counters :: "nat \<Rightarrow> nat \<times> nat" where
  "shared_counters base = (base, base + 8)"

definition padded_counters :: "nat \<Rightarrow> nat \<times> nat" where
  "padded_counters base = (base, base + 8 + 56)"

definition same_line :: "nat \<times> nat \<Rightarrow> bool" where
  "same_line = (\<lambda>(a, b). a div 64 = b div 64)"

section \<open>Invariants\<close>

definition efd_inv :: "u64 \<Rightarrow> efd_state \<Rightarrow> bool" where
  "efd_inv n s = (unat (es_i s) \<le> unat n \<and> unat (es_seen s) + unat (es_counter s) = unat (es_i s) \<and> es_main s \<noteq> Failed \<and>
     (es_main s \<noteq> Sending \<longrightarrow> unat (es_i s) = unat n) \<and> (es_returned s \<longrightarrow> unat (es_seen s) = unat n) \<and>
     (es_main s = Returned \<longrightarrow> es_returned s))"

definition efd_left :: "u64 \<Rightarrow> efd_state \<Rightarrow> nat" where
  "efd_left n s = (unat n - unat (es_i s)) + (unat n - unat (es_seen s)) +
     (case es_main s of Sending \<Rightarrow> 2 | Joining \<Rightarrow> 1 | _ \<Rightarrow> 0) + (if es_returned s then 0 else 1)"

definition poll_inv :: "u64 \<Rightarrow> poll_state \<Rightarrow> bool" where
  "poll_inv n s = (unat (ps_i s) \<le> unat n \<and>
     (ps_flag s = 0 \<and> unat (ps_i s) = unat (ps_j s) \<and> ps_cons s \<noteq> CStore \<or>
      ps_flag s = 1 \<and> unat (ps_i s) = Suc (unat (ps_j s)) \<and> ps_main s \<noteq> PStore) \<and>
     (ps_main s = PStore \<longrightarrow> unat (ps_i s) < unat n) \<and> (ps_main s \<in> {PJoin, PReturned} \<longrightarrow> unat (ps_i s) = unat n) \<and>
     (ps_cons s = CReturned \<longrightarrow> unat (ps_j s) = unat n) \<and> (ps_main s = PReturned \<longrightarrow> ps_cons s = CReturned))"

definition poll_left :: "u64 \<Rightarrow> poll_state \<Rightarrow> nat" where
  "poll_left n s =
     (case ps_main s of PTest \<Rightarrow> 2 * (unat n - unat (ps_i s)) + 2 | PStore \<Rightarrow> 2 * (unat n - unat (ps_i s)) + 1 | PJoin \<Rightarrow> 1 | PReturned \<Rightarrow> 0) +
     (case ps_cons s of CLoad \<Rightarrow> 2 * (unat n - unat (ps_j s)) + 1 | CStore \<Rightarrow> 2 * (unat n - unat (ps_j s)) | CReturned \<Rightarrow> 0)"

lemma unat_Suc_le: "(i :: u64) < n \<Longrightarrow> unat (i + 1) = Suc (unat i)"
proof -
  assume "i < n"
  then have "unat i + 1 < 2 ^ LENGTH(64)" using unsigned_less[of n, where 'a = nat] by (simp add: word_less_nat_alt)
  then show ?thesis by (simp add: unat_add_lem[THEN iffD1])
qed

lemmas efd_defs = efd_step_def efd_producer_def efd_consumer_def efd_inv_def word_le_nat_alt word_less_nat_alt
lemmas poll_defs = poll_step_def poll_producer_def poll_consumer_def poll_inv_def word_le_nat_alt word_less_nat_alt

interpretation efd: fair_threads UNIV "\<lambda>t. efd_step n (t, True)" "efd_inv n" "efd_left n" for n
proof
  fix s t assume inv: "efd_inv n s"
  have upd: "unat (es_seen s + es_counter s) = unat (es_seen s) + unat (es_counter s)"
    using inv unsigned_less[of "es_i s", where 'a = nat] by (intro unat_add_lem[THEN iffD1]) (simp add: efd_inv_def)
  have "es_counter s \<noteq> 0 \<Longrightarrow> 0 < unat (es_counter s)" by (simp add: unat_gt_0)
  note arith = this upd unat_Suc_le[of "es_i s" n] unat_Suc_le[of "es_counter s" "0xFFFFFFFFFFFFFFFE"]
  show "efd_inv n (efd_step n (t, True) s)"
    using inv arith by (cases t; cases "es_main s") (auto simp: efd_defs)
  show "efd_step n (t, True) s \<noteq> s \<Longrightarrow> efd_left n (efd_step n (t, True) s) < efd_left n s"
    using inv arith by (cases t; cases "es_main s") (auto simp: efd_defs efd_left_def unat_eq_zero split: if_splits)
  show "0 < efd_left n s \<Longrightarrow> \<exists>t \<in> UNIV. efd_step n (t, True) s \<noteq> s"
  proof -
    assume left: "0 < efd_left n s"
    have "es_i (efd_producer n True s) \<noteq> es_i s \<or> es_main (efd_producer n True s) \<noteq> es_main s \<or>
        es_counter (efd_consumer n True s) \<noteq> es_counter s \<or> es_returned (efd_consumer n True s) \<noteq> es_returned s"
      using inv left by (cases "es_main s") (auto simp: efd_defs efd_left_def unat_eq_zero split: if_splits)
    then have "efd_step n (Waker, True) s \<noteq> s \<or> efd_step n (Sleeper, True) s \<noteq> s" by (auto simp: efd_step_def)
    then show ?thesis by blast
  qed
qed

lemma yield_consumer_eq: "yield_consumer = poll_consumer"
  by (intro ext) (simp add: yield_consumer_def poll_consumer_def)

text \<open>The flag says who is to move.\<close>

lemma poll_flag_cases:
  assumes "poll_inv n s"
  obtains "ps_flag s = 0" "unat (ps_i s) = unat (ps_j s)" "ps_cons s \<noteq> CStore"
  | "ps_flag s = 1" "unat (ps_i s) = Suc (unat (ps_j s))" "unat (ps_j s + 1) = unat (ps_i s)" "ps_main s \<noteq> PStore"
proof (cases "ps_flag s = 0")
  case True
  with assms that(1) show ?thesis by (simp add: poll_inv_def)
next
  case False
  with assms have *: "ps_flag s = 1" "unat (ps_i s) = Suc (unat (ps_j s))" "ps_main s \<noteq> PStore" by (simp_all add: poll_inv_def)
  moreover have "unat (ps_j s + 1) = unat (ps_i s)" using unat_Suc_le[of "ps_j s" "ps_i s"] *(2) by (simp add: word_less_nat_alt)
  ultimately show ?thesis using that(2) by blast
qed

lemma poll_step_inv:
  assumes "poll_inv n s"
  shows "poll_inv n (poll_step poll_consumer n t s)"
  using assms unat_Suc_le[of "ps_i s" n]
  by (cases rule: poll_flag_cases[OF assms]; cases t; cases "ps_main s"; cases "ps_cons s"; simp add: poll_defs)

lemma poll_step_left:
  assumes "poll_inv n s" "poll_step poll_consumer n t s \<noteq> s"
  shows "poll_left n (poll_step poll_consumer n t s) < poll_left n s"
proof (cases t)
  case Waker
  then show ?thesis
    using assms unat_Suc_le[of "ps_i s" n]
    by (cases "ps_main s") (auto simp: poll_defs poll_left_def split: if_splits sleeper_pc.splits)
next
  case Sleeper
  then show ?thesis
    using assms by (cases rule: poll_flag_cases[OF assms(1)]; cases "ps_cons s"; cases "ps_main s")
      (auto simp: poll_defs poll_left_def split: if_splits)
qed

lemma poll_alive:
  assumes "poll_inv n s" "0 < poll_left n s"
  shows "ps_main (poll_producer n s) \<noteq> ps_main s \<or> ps_cons (poll_consumer n s) \<noteq> ps_cons s"
  using assms
  by (cases rule: poll_flag_cases[OF assms(1)];
      cases "ps_main s"; cases "ps_cons s"; auto simp: poll_defs poll_left_def)

interpretation poll: fair_threads UNIV "poll_step poll_consumer n" "poll_inv n" "poll_left n" for n
proof
  fix s assume "poll_inv n s" "0 < poll_left n s"
  from poll_alive[OF this] have "poll_step poll_consumer n Waker s \<noteq> s \<or> poll_step poll_consumer n Sleeper s \<noteq> s"
    by (auto simp: poll_step_def)
  then show "\<exists>t \<in> UNIV. poll_step poll_consumer n t s \<noteq> s" by blast
qed (fact poll_step_inv poll_step_left)+

section \<open>The two counters\<close>

definition inc_inv :: "u64 \<Rightarrow> (nat \<Rightarrow> u64) \<Rightarrow> nat \<Rightarrow> (nat \<Rightarrow> u64) \<Rightarrow> inc_state \<Rightarrow> bool" where
  "inc_inv n m0 a m t = (m a = m0 a + it_i t \<and> it_i t \<le> n \<and> (\<forall>v. it_loaded t = Some v \<longrightarrow> v = m a \<and> it_i t < n))"

definition inc_left :: "u64 \<Rightarrow> inc_state \<Rightarrow> nat" where
  "inc_left n t = 2 * (unat n - unat (it_i t)) - (if it_loaded t = None then 0 else 1)"

definition run_inv :: "nat \<Rightarrow> nat \<Rightarrow> u64 \<Rightarrow> (nat \<Rightarrow> u64) \<Rightarrow> run_state \<Rightarrow> bool" where
  "run_inv a b n m0 s = (a \<noteq> b \<and> inc_inv n m0 a (rs_mem s) (rs_thr1 s) \<and> inc_inv n m0 b (rs_mem s) (rs_thr2 s) \<and>
     (\<forall>x. x \<noteq> a \<longrightarrow> x \<noteq> b \<longrightarrow> rs_mem s x = m0 x))"

definition run_left :: "u64 \<Rightarrow> run_state \<Rightarrow> nat" where
  "run_left n s = inc_left n (rs_thr1 s) + inc_left n (rs_thr2 s)"

lemma inc_thread_inv:
  assumes "inc_inv n m0 a m t" "inc_thread a n (t, m) = (t', m')"
  shows "inc_inv n m0 a m' t'" "t' \<noteq> t \<Longrightarrow> inc_left n t' < inc_left n t" "t' = t \<Longrightarrow> m' = m" "t' = t \<Longrightarrow> inc_left n t = 0"
    "x \<noteq> a \<Longrightarrow> m' x = m x"
  using assms unat_Suc_le[of "it_i t" n]
  by (auto simp: inc_thread_def inc_inv_def inc_left_def word_le_nat_alt word_less_nat_alt split: option.splits if_splits
      dest: arg_cong[where f = it_loaded])

lemma inc_inv_other: "inc_inv n m0 b m t \<Longrightarrow> m' b = m b \<Longrightarrow> inc_inv n m0 b m' t"
  by (auto simp: inc_inv_def)

lemma run_state_same [simp]: "s\<lparr>rs_thr1 := rs_thr1 s, rs_mem := rs_mem s\<rparr> = s" "s\<lparr>rs_thr2 := rs_thr2 s, rs_mem := rs_mem s\<rparr> = s"
  by (cases s, simp)+

lemma run_step_inv:
  assumes "run_inv a b n m0 s"
  shows "run_inv a b n m0 (run_step a b n f s)"
    "run_step a b n f s \<noteq> s \<Longrightarrow> run_left n (run_step a b n f s) < run_left n s"
    "run_step a b n f s = s \<Longrightarrow> inc_left n (if f then rs_thr1 s else rs_thr2 s) = 0"
proof -
  obtain t m where r: "inc_thread (if f then a else b) n (if f then rs_thr1 s else rs_thr2 s, rs_mem s) = (t, m)" by fastforce
  have inv: "a \<noteq> b" "inc_inv n m0 a (rs_mem s) (rs_thr1 s)" "inc_inv n m0 b (rs_mem s) (rs_thr2 s)"
    "x \<noteq> a \<Longrightarrow> x \<noteq> b \<Longrightarrow> rs_mem s x = m0 x" for x
    using assms by (simp_all add: run_inv_def)
  have step: "run_step a b n f s = (if f then s\<lparr>rs_thr1 := t, rs_mem := m\<rparr> else s\<lparr>rs_thr2 := t, rs_mem := m\<rparr>)"
    using r by (cases f) (simp_all add: run_step_def)
  have mine: "inc_inv n m0 (if f then a else b) (rs_mem s) (if f then rs_thr1 s else rs_thr2 s)" using inv by simp
  note th = inc_thread_inv[OF mine r]
  show "run_inv a b n m0 (run_step a b n f s)"
    using inv th(1,5) inc_inv_other[OF inv(2), of m] inc_inv_other[OF inv(3), of m] by (auto simp: step run_inv_def)
  show "run_step a b n f s \<noteq> s \<Longrightarrow> run_left n (run_step a b n f s) < run_left n s"
    unfolding step using th(2,3) by (cases f; cases "t = (if f then rs_thr1 s else rs_thr2 s)") (simp_all add: run_left_def)
  show "run_step a b n f s = s \<Longrightarrow> inc_left n (if f then rs_thr1 s else rs_thr2 s) = 0"
    unfolding step using th(4) by (cases f) (auto dest: arg_cong[where f = rs_thr1] arg_cong[where f = rs_thr2])
qed

interpretation counters: fair_threads UNIV "run_step a b n" "run_inv a b n m0" "run_left n" for a b n m0
proof
  fix s assume "run_inv a b n m0 s" "0 < run_left n s"
  with run_step_inv(3)[of a b n m0 s True] run_step_inv(3)[of a b n m0 s False]
  have "run_step a b n True s \<noteq> s \<or> run_step a b n False s \<noteq> s" by (auto simp: run_left_def)
  then show "\<exists>t \<in> UNIV. run_step a b n t s \<noteq> s" by blast
qed (fact run_step_inv)+

lemma run_left_joined:
  assumes "run_inv a b n m0 s"
  shows "run_left n s = 0 \<longleftrightarrow> run_joined n s"
proof -
  have "inc_left n t = 0 \<longleftrightarrow> it_loaded t = None \<and> \<not> it_i t < n" if "inc_inv n m0 c (rs_mem s) t" for c t
    using that by (auto simp: inc_inv_def inc_left_def word_less_nat_alt word_le_nat_alt split: if_splits)
  from this[of a "rs_thr1 s"] this[of b "rs_thr2 s"] assms show ?thesis by (simp add: run_inv_def run_left_def run_joined_def)
qed

lemma line_of_next:
  assumes "8 dvd (x :: nat)"
  shows "x div 64 = (x + 8) div 64 \<longleftrightarrow> x mod 64 \<noteq> 56"
proof -
  have "8 dvd x mod 64" using assms by (simp add: dvd_mod)
  then have "x mod 64 + 8 < 64 \<longleftrightarrow> x mod 64 \<noteq> 56" using mod_less_divisor[of 64 x] by (auto elim!: dvdE)
  moreover have "(x + 8) div 64 = x div 64 + (x mod 64 + 8) div 64"
    by (metis div_mult_self3 mod_div_decomp add.assoc zero_neq_numeral)
  ultimately show ?thesis by (auto simp: div_eq_0_iff)
qed

lemma poll_lab_outcome:
  assumes "s = bench_poll_lab n sched \<or> s = bench_yield n sched"
  shows "poll_inv n s"
    "sched = concat rounds \<Longrightarrow> rounds_of UNIV rounds \<Longrightarrow> 4 * unat n + 3 \<le> length rounds \<Longrightarrow>
       ps_main s = PReturned \<and> ps_cons s = CReturned \<and> ps_j s = n \<and> ps_flag s = 0"
proof -
  have s: "s = fold (poll_step poll_consumer n) sched poll_init"
    using assms by (auto simp: bench_poll_lab_def bench_yield_def yield_consumer_eq)
  have start: "poll_inv n poll_init" "poll_left n poll_init = 4 * unat n + 3" by (simp_all add: poll_inv_def poll_init_def poll_left_def)
  show inv: "poll_inv n s" unfolding s by (rule poll.inv_run[OF start(1)])
  assume "sched = concat rounds" "rounds_of UNIV rounds" "4 * unat n + 3 \<le> length rounds"
  then have "poll_left n s = 0" unfolding s by (simp add: poll.fair_run_finishes[OF start(1)] start(2))
  then show "ps_main s = PReturned \<and> ps_cons s = CReturned \<and> ps_j s = n \<and> ps_flag s = 0"
    using inv by (auto simp: poll_left_def poll_inv_def word_unat_eq_iff split: poll_pc.splits sleeper_pc.splits)
qed

section \<open>Properties\<close>

text \<open>
  The eventfd benchmark loses no wake-up: when no system call fails, \<open>2 n + 3\<close> rounds of any fair schedule bring it to an end
  with the consumer having counted exactly \<open>n\<close> events and the descriptor drained, whatever the number of events a single
  \<open>read\<close> collects; and at every moment the events seen and pending add up to those written.
\<close>

theorem eventfd_bench_complete:
  assumes "bench_eventfd True n (map (\<lambda>t. (t, True)) sched) = Some s"
  shows "unat (es_seen s) + unat (es_counter s) = unat (es_i s) \<and> es_i s \<le> n \<and>
    (\<forall>rounds. sched = concat rounds \<and> rounds_of UNIV rounds \<and> 2 * unat n + 3 \<le> length rounds \<longrightarrow>
       es_main s = Returned \<and> es_returned s \<and> es_seen s = n \<and> es_counter s = 0)"
proof -
  have s: "s = fold (\<lambda>t. efd_step n (t, True)) sched efd_init" using assms by (simp add: bench_eventfd_def fold_map comp_def)
  have start: "efd_inv n efd_init" "efd_left n efd_init = 2 * unat n + 3" by (simp_all add: efd_inv_def efd_init_def efd_left_def)
  have inv: "efd_inv n s" unfolding s by (rule efd.inv_run[OF start(1)])
  have "efd_left n s = 0" if "sched = concat rounds" "rounds_of UNIV rounds" "2 * unat n + 3 \<le> length rounds" for rounds
    unfolding s that(1) by (rule efd.fair_run_finishes[OF start(1) that(2)]) (use that(3) start(2) in simp)
  moreover have "es_main s = Returned \<and> es_returned s \<and> es_seen s = n \<and> es_counter s = 0" if "efd_left n s = 0"
    using that inv by (auto simp: efd_left_def efd_inv_def word_unat_eq_iff split: main_pc.splits if_splits)
  ultimately show ?thesis using inv by (auto simp: efd_inv_def word_le_nat_alt)
qed

theorem eventfd_bench_complete_witness:
  "\<exists>s. bench_eventfd True 2 (map (\<lambda>t. (t, True)) (concat (replicate 7 [Sleeper, Waker]))) = Some s \<and> es_main s = Returned \<and> es_seen s = 2"
proof -
  define s where "s = fold (efd_step 2) (map (\<lambda>t. (t, True)) (concat (replicate 7 [Sleeper, Waker]))) efd_init"
  have run: "bench_eventfd True 2 (map (\<lambda>t. (t, True)) (concat (replicate 7 [Sleeper, Waker]))) = Some s"
    by (simp add: bench_eventfd_def s_def)
  have "rounds_of UNIV (replicate 7 [Sleeper, Waker])" using wake_thread.exhaust by (auto simp: rounds_of_def)
  with eventfd_bench_complete[OF run] run show ?thesis by (intro exI[of _ s]) auto
qed

text \<open>
  Failures of the descriptor are only half handled: when \<open>read\<close> fails the consumer returns, yet the caller writes on, joins it
  and reports a time as if all events had been received; when \<open>write\<close> fails the caller returns while the consumer still runs
  with a pointer into the caller's frame.
\<close>

theorem eventfd_bench_failures:
  "(\<exists>sched s. bench_eventfd True 2 sched = Some s \<and> es_main s = Returned \<and> es_seen s = 0) \<and>
   (\<exists>sched s. bench_eventfd True 2 sched = Some s \<and> es_main s = Failed \<and> \<not> es_returned s)"
proof (intro conjI)
  show "\<exists>sched s. bench_eventfd True 2 sched = Some s \<and> es_main s = Returned \<and> es_seen s = 0"
    by (rule exI[of _ "[(Sleeper, False), (Waker, True), (Waker, True), (Waker, True), (Waker, True)]"])
      (simp add: bench_eventfd_def efd_step_def efd_producer_def efd_consumer_def efd_init_def word_le_nat_alt)
  show "\<exists>sched s. bench_eventfd True 2 sched = Some s \<and> es_main s = Failed \<and> \<not> es_returned s"
    by (rule exI[of _ "[(Waker, False)]"]) (simp add: bench_eventfd_def efd_step_def efd_producer_def efd_init_def)
qed

text \<open>
  C27. The polling benchmarks hand over one wake-up at a time. Under every schedule the producer is never more than one store
  ahead of the consumer, the flag tells which, and no thread writes the flag while the other is about to; \<open>4 n + 3\<close> rounds of
  any fair schedule end both of them with all \<open>n\<close> wake-ups received and the flag clear.
\<close>

theorem poll_bench_complete:
  assumes "s = bench_poll_lab n sched \<or> s = bench_yield n sched"
  shows "ps_i s \<le> n \<and> unat (ps_i s) = unat (ps_j s) + unat (ps_flag s) \<and> ps_flag s \<in> {0, 1} \<and>
    \<not> (ps_main s = PStore \<and> ps_cons s = CStore) \<and>
    (\<forall>rounds. sched = concat rounds \<and> rounds_of UNIV rounds \<and> 4 * unat n + 3 \<le> length rounds \<longrightarrow>
       ps_main s = PReturned \<and> ps_cons s = CReturned \<and> ps_j s = n \<and> ps_flag s = 0)"
proof -
  note out = poll_lab_outcome[OF assms]
  show ?thesis
    using out(1) out(2) by (cases rule: poll_flag_cases[OF out(1)]) (auto simp: poll_inv_def word_le_nat_alt)
qed

theorem poll_bench_complete_witness:
  "ps_main (bench_yield 2 (concat (replicate 11 [Sleeper, Sleeper, Waker]))) = PReturned \<and>
   ps_j (bench_poll_lab 2 (concat (replicate 11 [Sleeper, Waker]))) = 2"
proof -
  have "rounds_of UNIV (replicate 11 [Sleeper, Sleeper, Waker])" "rounds_of UNIV (replicate 11 [Sleeper, Waker])"
    using wake_thread.exhaust by (auto simp: rounds_of_def)
  then show ?thesis
    using poll_bench_complete[of "bench_yield 2 (concat (replicate 11 [Sleeper, Sleeper, Waker]))" 2 "concat (replicate 11 [Sleeper, Sleeper, Waker])"]
      poll_bench_complete[of "bench_poll_lab 2 (concat (replicate 11 [Sleeper, Waker]))" 2 "concat (replicate 11 [Sleeper, Waker])"]
    by auto
qed

text \<open>
  Sharing a cache line changes no result: whatever the layout, once both threads have been joined each counter has grown by
  exactly \<open>n\<close> and no other memory has changed, and every fair schedule of \<open>4 n\<close> rounds joins them. Padded
  counters never share a line, the others do unless they straddle a boundary.
\<close>

theorem false_sharing_bench_exact:
  fixes m :: "nat \<Rightarrow> u64" and n :: u64
  assumes "(a, b) \<in> {shared_counters base, padded_counters base}"
  defines "s \<equiv> \<lambda>sched. run_bench a b n sched m"
  shows "(\<forall>sched. run_joined n (s sched) \<longrightarrow> rs_mem (s sched) = m(a := m a + n, b := m b + n)) \<and>
    (\<forall>rounds. rounds_of UNIV rounds \<and> 4 * unat n \<le> length rounds \<longrightarrow> run_joined n (s (concat rounds))) \<and>
    (8 dvd base \<longrightarrow> same_line (shared_counters base) = (base mod 64 \<noteq> 56)) \<and> \<not> same_line (padded_counters base)"
proof -
  let ?s0 = "\<lparr>rs_thr1 = \<lparr>it_i = 0, it_loaded = None\<rparr>, rs_thr2 = \<lparr>it_i = 0, it_loaded = None\<rparr>, rs_mem = m\<rparr>"
  have ab: "a \<noteq> b" using assms(1) by (auto simp: shared_counters_def padded_counters_def)
  have s: "s sched = fold (run_step a b n) sched ?s0" for sched by (simp add: s_def run_bench_def Let_def)
  have start: "run_inv a b n m ?s0" "run_left n ?s0 = 4 * unat n" using ab by (simp_all add: run_inv_def inc_inv_def run_left_def inc_left_def)
  have inv: "run_inv a b n m (s sched)" for sched unfolding s by (rule counters.inv_run[OF start(1)])
  have "rs_mem (s sched) = m(a := m a + n, b := m b + n)" if "run_joined n (s sched)" for sched
    using inv[of sched] that by (auto simp: run_inv_def inc_inv_def run_joined_def intro!: ext)
  moreover have "run_joined n (s (concat rounds))" if "rounds_of UNIV rounds" "4 * unat n \<le> length rounds" for rounds
    unfolding run_left_joined[OF inv, symmetric] unfolding s
    by (rule counters.fair_run_finishes[OF start(1) that(1)]) (use that(2) start(2) in simp)
  moreover have "8 dvd base \<Longrightarrow> same_line (shared_counters base) = (base mod 64 \<noteq> 56)" "\<not> same_line (padded_counters base)"
    by (simp_all add: same_line_def shared_counters_def padded_counters_def line_of_next)
  ultimately show ?thesis by blast
qed

theorem false_sharing_bench_exact_witness:
  "run_joined 1 (run_bench 0 64 1 (concat (replicate 4 [True, False])) (\<lambda>_. 0)) \<and>
   rs_mem (run_bench 0 64 1 (concat (replicate 4 [True, False])) (\<lambda>_. 0)) 64 = 1"
proof -
  have "rounds_of UNIV (replicate 4 [True, False])" by (auto simp: rounds_of_def)
  with false_sharing_bench_exact[of 0 64 0 1 "\<lambda>_. 0"] show ?thesis by (auto simp: padded_counters_def)
qed

end
