(* ===== verification/Page_Alloc.thy ===== *)
theory Page_Alloc
  imports Prelude
begin

text \<open>
  Hugepage allocation with NUMA affinity (\<^verbatim>\<open>src/numa.c\<close>). What the kernel and libnuma answer is an argument; the
  state is the process's mappings, the bytes in them, the CPU masks that are allocated and what was printed.
\<close>

record numa_env =
  ne_mmap :: "nat option"
  ne_available :: int
  ne_cpumask :: bool
  ne_mbind :: int

record numa_state =
  nm_mapped :: "(nat \<times> nat) set"
  nm_bytes :: "nat \<Rightarrow> u8"
  nm_masks :: nat
  nm_bound :: "(nat \<times> nat \<times> int) list"
  nm_errors :: "string list"

text \<open>\<open>mbind\<close> of a fresh mask with one node set, with its failure reported and ignored; the mask is freed.\<close>

definition numa_bind :: "numa_env \<Rightarrow> int \<Rightarrow> nat \<Rightarrow> nat \<Rightarrow> numa_state \<Rightarrow> numa_state" where
  "numa_bind env node p len st =
     (if ne_available env \<ge> 0 \<and> ne_cpumask env
      then let st = st\<lparr>nm_masks := nm_masks st + 1\<rparr>;
               st = (if ne_mbind env \<noteq> 0
                     then st\<lparr>nm_errors := nm_errors st @ [''numa_alloc_hugepages: mbind (non-fatal)'']\<rparr>
                     else st\<lparr>nm_bound := nm_bound st @ [(p, len, node)]\<rparr>)
           in st\<lparr>nm_masks := nm_masks st - 1\<rparr>
      else st)"

definition numa_alloc_hugepages :: "numa_env \<Rightarrow> int \<Rightarrow> nat \<Rightarrow> numa_state \<Rightarrow> nat option \<times> numa_state" where
  "numa_alloc_hugepages env node len st =
     (case ne_mmap env of
        None \<Rightarrow> (None, st\<lparr>nm_errors := nm_errors st @ [''numa_alloc_hugepages: mmap'']\<rparr>)
      | Some p \<Rightarrow>
          let st = st\<lparr>nm_mapped := insert (p, len) (nm_mapped st)\<rparr>;
              st = numa_bind env node p len st
          in (Some p, st\<lparr>nm_bytes := (\<lambda>a. if p \<le> a \<and> a < p + len then 0 else nm_bytes st a)\<rparr>))"

definition numa_free_hugepages :: "nat option \<Rightarrow> nat \<Rightarrow> numa_state \<Rightarrow> numa_state" where
  "numa_free_hugepages p len st = (case p of None \<Rightarrow> st | Some p \<Rightarrow> st\<lparr>nm_mapped := nm_mapped st - {(p, len)}\<rparr>)"

lemma numa_bind_frame [simp]:
  "nm_masks (numa_bind env node p len st) = nm_masks st" "nm_mapped (numa_bind env node p len st) = nm_mapped st"
  "nm_bytes (numa_bind env node p len st) = nm_bytes st"
  by (simp_all add: numa_bind_def Let_def)

text \<open>
  An allocation fails exactly when \<open>mmap\<close> does; neither an absent libnuma nor a failed \<open>mbind\<close> is fatal. On success
  the whole region is mapped and zero and no byte outside it has changed; no CPU mask is leaked on any path;
  and freeing a fresh region, or NULL after a failure, restores the mappings.
\<close>

theorem numa_allocation_exact:
  assumes "numa_alloc_hugepages env node len st = (p, st')"
    and fresh: "\<And>q. ne_mmap env = Some q \<Longrightarrow> (q, len) \<notin> nm_mapped st"
  shows "(p = None \<longleftrightarrow> ne_mmap env = None) \<and> nm_masks st' = nm_masks st \<and>
    (\<forall>q. p = Some q \<longrightarrow> (q, len) \<in> nm_mapped st' \<and>
       (\<forall>a. nm_bytes st' a = (if q \<le> a \<and> a < q + len then 0 else nm_bytes st a))) \<and>
    nm_mapped (numa_free_hugepages p len st') = nm_mapped st"
  using assms by (auto simp: numa_alloc_hugepages_def numa_free_hugepages_def Let_def split: option.splits)

theorem numa_allocation_exact_witness:
  "nm_masks (snd (numa_alloc_hugepages \<lparr>ne_mmap = Some 4096, ne_available = 0, ne_cpumask = True, ne_mbind = -1\<rparr> 1 8192
     \<lparr>nm_mapped = {}, nm_bytes = (\<lambda>_. 7), nm_masks = 0, nm_bound = [], nm_errors = []\<rparr>)) = 0"
  using numa_allocation_exact[of "\<lparr>ne_mmap = Some 4096, ne_available = 0, ne_cpumask = True, ne_mbind = -1\<rparr>" 1 8192
      "\<lparr>nm_mapped = {}, nm_bytes = (\<lambda>_. 7), nm_masks = 0, nm_bound = [], nm_errors = []\<rparr>", OF prod.collapse[symmetric]]
  by simp

section \<open>The hugepage lab\<close>

text \<open>
  \<^verbatim>\<open>lab/03_hugepage_tlb/bench.c\<close>: a buffer is its bytes; a read outside it has no value, nor has a remainder by zero.
  The times are not modelled, the sums the timed loops leave in \<open>sink\<close> are.
\<close>

type_synonym buffer = "nat \<times> (nat \<Rightarrow> u8)"

definition buf_read :: "buffer \<Rightarrow> nat \<Rightarrow> u8 option" where
  "buf_read buf i = (if i < fst buf then Some (snd buf i) else None)"

definition alloc_4k :: "bool \<Rightarrow> nat \<Rightarrow> buffer option" where
  "alloc_4k mmap_ok len = (if \<not> mmap_ok then None else Some (len, \<lambda>_. 0))"

definition alloc_2m :: "bool \<Rightarrow> nat \<Rightarrow> buffer option" where
  "alloc_2m mmap_ok len = (if \<not> mmap_ok then None else Some (len, \<lambda>_. 0))"

definition sink_add :: "buffer \<Rightarrow> nat \<Rightarrow> u64 option \<Rightarrow> u64 option" where
  "sink_add buf i sink = Option.bind sink (\<lambda>x. Option.bind (buf_read buf i) (\<lambda>b. Some (x + ucast b)))"

function seq_pass :: "buffer \<Rightarrow> nat \<Rightarrow> nat \<Rightarrow> u64 option \<Rightarrow> u64 option" where
  "seq_pass buf len i sink = (if i < len then seq_pass buf len (i + 64) (sink_add buf i sink) else sink)"
  by pat_completeness auto
termination by (relation "measure (\<lambda>(buf, len, i, sink). len - i)") auto

definition bench_seq :: "buffer \<Rightarrow> nat \<Rightarrow> int \<Rightarrow> u64 option" where
  "bench_seq buf len passes = (seq_pass buf len 0 ^^ nat passes) (Some 0)"

definition rand_next :: "u64 \<Rightarrow> u64" where
  "rand_next rng = rng * 6364136223846793005 + 1442695040888963407"

fun rand_loop :: "buffer \<Rightarrow> u64 \<Rightarrow> nat \<Rightarrow> u64 \<Rightarrow> u64 option \<Rightarrow> u64 option" where
  "rand_loop buf len 0 rng sink = sink"
| "rand_loop buf len (Suc n) rng sink =
     (let rng = rand_next rng
      in if len div 64 = 0 then None
         else let off = (rng mod (len div 64)) * 64
              in rand_loop buf len n rng (sink_add buf (unat off) sink))"

text \<open>The division for the unused stride traps when no accesses are asked for; a negative count is converted.\<close>

definition bench_rand :: "buffer \<Rightarrow> u64 \<Rightarrow> int \<Rightarrow> u64 option" where
  "bench_rand buf len n_accesses = (if n_accesses = 0 then None else rand_loop buf len (nat n_accesses) 42 (Some 0))"

text \<open>\<open>main\<close>: the exit code and the sums; hugepages may be unavailable.\<close>

definition tlb_main :: "bool \<Rightarrow> bool \<Rightarrow> int \<times> u64 option list" where
  "tlb_main mmap_4k mmap_2m =
     (case alloc_4k mmap_4k (2 ^ 30) of
        None \<Rightarrow> (1, [])
      | Some buf \<Rightarrow>
          let sums = [bench_seq buf (2 ^ 30) 8, bench_rand buf (2 ^ 30) 1000000]
          in (0, case alloc_2m mmap_2m (2 ^ 30) of
                   None \<Rightarrow> sums
                 | Some buf \<Rightarrow> sums @ [bench_seq buf (2 ^ 30) 8, bench_rand buf (2 ^ 30) 1000000]))"

declare seq_pass.simps [simp del]

lemma sink_add_zero: "i < len \<Longrightarrow> sink_add (len, \<lambda>_. 0) i (Some x) = Some x"
  by (simp add: sink_add_def buf_read_def)

lemma seq_pass_zero: "len \<le> n \<Longrightarrow> seq_pass (n, \<lambda>_. 0) len i (Some x) = Some x"
proof (induction "(n, \<lambda>_ :: nat. 0 :: u8)" len i "Some x" arbitrary: x rule: seq_pass.induct)
  case (1 len i)
  then show ?case by (subst seq_pass.simps) (simp add: sink_add_zero)
qed

lemma rand_offset_bound:
  assumes "64 \<le> unat (len :: u64)"
  shows "unat ((rng mod (len div 64)) * 64) < unat len"
proof -
  let ?q = "unat len div 64"
  have q: "0 < ?q" using assms by (simp add: div_greater_zero_iff)
  have "unat (rng mod (len div 64)) = unat rng mod ?q" by (simp add: unat_mod unat_div)
  then have off: "unat (rng mod (len div 64)) * 64 < unat len"
    using mod_less_divisor[OF q, of "unat rng"] by (metis div_times_less_eq_dividend less_le_trans mult_less_mono1 zero_less_numeral)
  then have "unat ((rng mod (len div 64)) * 64) = unat (rng mod (len div 64)) * 64"
    using unsigned_less[of len, where 'a = nat] by (subst unat_mult_lem[THEN iffD1]) simp_all
  then show ?thesis using off by simp
qed

lemma rand_loop_zero: "64 \<le> unat len \<Longrightarrow> rand_loop (unat len, \<lambda>_. 0) len n rng (Some x) = Some x"
proof (induction n arbitrary: rng)
  case (Suc n)
  have "unat (len div 64) \<noteq> 0" using Suc.prems by (simp add: unat_div div_greater_zero_iff)
  then have "len div 64 \<noteq> 0" by (metis unat_0)
  then show ?case using Suc rand_offset_bound[OF Suc.prems, of "rand_next rng"] by (simp add: Let_def sink_add_zero)
qed simp

text \<open>
  Every access of the hugepage lab is inside its buffer: both loops read only mapped zero bytes for every buffer of at
  least one line, so that the sums are zero; the program fails exactly when the 4 KB mapping does, and a
  missing hugepage pool only skips the second half. A buffer smaller than a line would trap in the random loop.
\<close>

theorem tlb_lab_in_bounds:
  assumes "64 \<le> unat (len :: u64)" and "alloc_4k True (unat len) = Some buf \<or> alloc_2m True (unat len) = Some buf" and "0 < n"
  shows "bench_seq buf (unat len) passes = Some 0 \<and> bench_rand buf len n = Some 0 \<and>
    tlb_main m4 m2 = (if m4 then (0, [Some 0, Some 0] @ (if m2 then [Some 0, Some 0] else [])) else (1, [])) \<and>
    bench_rand buf 63 n = None"
proof -
  have buf: "buf = (unat len, \<lambda>_. 0)" using assms(2) by (auto simp: alloc_4k_def alloc_2m_def)
  have seq: "bench_seq (k, \<lambda>_. 0) k p = Some 0" for k p
  proof -
    have "(seq_pass (k, \<lambda>_. 0) k 0 ^^ j) (Some 0) = Some 0" for j by (induction j) (simp_all add: seq_pass_zero)
    then show ?thesis by (simp add: bench_seq_def)
  qed
  have rand: "bench_rand (unat k, \<lambda>_. 0) k p = Some 0" if "64 \<le> unat k" "p \<noteq> 0" for k p
    using that by (simp add: bench_rand_def rand_loop_zero)
  have gb: "unat (2 ^ 30 :: u64) = 2 ^ 30" by simp
  have main: "bench_rand (2 ^ 30, \<lambda>_. 0) (2 ^ 30) 1000000 = Some 0"
    using rand[of "2 ^ 30" 1000000] unfolding gb by simp
  have "bench_rand buf 63 n = None" using assms(3) by (cases "nat n") (simp_all add: bench_rand_def Let_def)
  then show ?thesis
    using assms seq rand main unfolding buf
    by (simp add: tlb_main_def alloc_4k_def alloc_2m_def Let_def)
qed

theorem tlb_lab_in_bounds_witness: "bench_rand (128, \<lambda>_. 0) 128 5 = Some 0 \<and> bench_rand (128, \<lambda>_. 0) 63 5 = None"
  using tlb_lab_in_bounds[of 128 "(128, \<lambda>_. 0)" 5 1 True True] by (simp add: alloc_4k_def)

end
