(* ===== verification/Bench_Scheduler.thy ===== *)
theory Bench_Scheduler
  imports Gpu_Scheduler Fair_Threads
begin

text \<open>
  The benchmark of the device scheduler, \<^verbatim>\<open>bench/bench_gpu_scheduler.cu\<close>: \<open>main\<close> submits all its rollouts, collects
  their notifications, copies the step counter back, stops the device loop and waits for it. Its steps and those of the device loop
  interleave freely. The copy waits for the kernel launched before it on the same stream; what \<open>main\<close> would do with a copy that
  does not is the other value of the argument \<open>waits\<close>.
\<close>

section \<open>The host program\<close>

datatype bench_pc = HSubmit int | HPop | HCopy | HStop | HSync | HReturned

record gb_state =
  gb_sched :: "sched_state \<times> sched_log"
  gb_pc :: bench_pc
  gb_completed :: u64
  gb_steps :: "u64 option"

text \<open>\<open>gb_steps\<close> is the local variable \<open>steps\<close>: what the copy has read from the device's counter, \<open>None\<close> before it.\<close>

text \<open>The floats \<open>1.0f\<close> and \<open>0.9f\<close> by their bits.\<close>

definition bench_request :: "int \<Rightarrow> int \<Rightarrow> RolloutRequest" where
  "bench_request tokens_per i =
     \<lparr>rq_request_id = of_int (i + 1), rq_max_tokens = of_int tokens_per, rq_kv_blocks = 4, rq_temperature = 0x3F800000,
      rq_top_k = 50, rq_top_p = 0x3F666666, rq_rng_seed = 42 + of_int i\<rparr>"

definition sentinel_request :: RolloutRequest where
  "sentinel_request = \<lparr>rq_request_id = UINT64_MAX, rq_max_tokens = 0, rq_kv_blocks = 0, rq_temperature = 0,
     rq_top_k = 0, rq_top_p = 0, rq_rng_seed = 0\<rparr>"

text \<open>One round of an acquire loop: the request is written and committed, or the ring is full and the loop spins.\<close>

definition host_send :: "(u32 \<Rightarrow> f32_bits) \<Rightarrow> RolloutRequest \<Rightarrow> bench_pc \<Rightarrow> gb_state \<Rightarrow> gb_state" where
  "host_send reward q next s =
     (if fst (req_submit (sd_req (fst (gb_sched s))) q)
      then s\<lparr>gb_sched := sched_step reward (HostSubmit q) (gb_sched s), gb_pc := next\<rparr> else s)"

text \<open>One round of the collecting loops: a notification is counted; without one the outer condition decides.\<close>

definition host_collect :: "(u32 \<Rightarrow> f32_bits) \<Rightarrow> int \<Rightarrow> gb_state \<Rightarrow> gb_state" where
  "host_collect reward n s =
     (if fst (done_pop_obs (sd_done (fst (gb_sched s)))) \<noteq> None
      then s\<lparr>gb_sched := sched_step reward HostTakeDone (gb_sched s), gb_completed := gb_completed s + 1\<rparr>
      else if gb_completed s < of_int n then s else s\<lparr>gb_pc := HCopy\<rparr>)"

definition host_step :: "(u32 \<Rightarrow> f32_bits) \<Rightarrow> bool \<Rightarrow> int \<Rightarrow> int \<Rightarrow> gb_state \<Rightarrow> gb_state" where
  "host_step reward waits n tokens_per s =
     (case gb_pc s of
        HSubmit i \<Rightarrow>
          if i < n then host_send reward (bench_request tokens_per i) (HSubmit (i + 1)) s
          else if gb_completed s < of_int n then s\<lparr>gb_pc := HPop\<rparr> else s\<lparr>gb_pc := HCopy\<rparr>
      | HPop \<Rightarrow> host_collect reward n s
      | HCopy \<Rightarrow> if waits \<and> sd_pc (fst (gb_sched s)) \<noteq> GReturned then s
                  else s\<lparr>gb_steps := sd_step_count (fst (gb_sched s)), gb_pc := HStop\<rparr>
      | HStop \<Rightarrow> host_send reward sentinel_request HSync s
      | HSync \<Rightarrow> if sd_pc (fst (gb_sched s)) = GReturned then s\<lparr>gb_pc := HReturned\<rparr> else s
      | HReturned \<Rightarrow> s)"

datatype gb_thread = Host | Device

definition gb_step :: "(u32 \<Rightarrow> f32_bits) \<Rightarrow> bool \<Rightarrow> int \<Rightarrow> int \<Rightarrow> gb_thread \<Rightarrow> gb_state \<Rightarrow> gb_state" where
  "gb_step reward waits n tokens_per t s =
     (case t of Host \<Rightarrow> host_step reward waits n tokens_per s
      | Device \<Rightarrow> s\<lparr>gb_sched := sched_step reward SchedTick (gb_sched s)\<rparr>)"

definition gb_init :: gb_state where
  "gb_init = \<lparr>gb_sched = (sched_start, log_empty), gb_pc = HSubmit 0, gb_completed = 0, gb_steps = None\<rparr>"

definition bench_gpu_scheduler :: "(u32 \<Rightarrow> f32_bits) \<Rightarrow> bool \<Rightarrow> int \<Rightarrow> int \<Rightarrow> gb_thread list \<Rightarrow> gb_state" where
  "bench_gpu_scheduler reward waits n tokens_per sched = fold (gb_step reward waits n tokens_per) sched gb_init"

section \<open>The invariant\<close>

abbreviation bench_requests :: "int \<Rightarrow> int \<Rightarrow> RolloutRequest list" where
  "bench_requests T i \<equiv> map (bench_request T \<circ> int) [0..<nat i]"

text \<open>What the host has submitted and counted at each point of its program.\<close>

definition host_inv :: "int \<Rightarrow> int \<Rightarrow> bench_pc \<Rightarrow> sched_log \<Rightarrow> bool" where
  "host_inv n T pc l =
     (case pc of
        HSubmit i \<Rightarrow> 0 \<le> i \<and> i \<le> n \<and> sl_submitted l = bench_requests T i \<and> sl_popped l = []
      | HPop \<Rightarrow> sl_submitted l = bench_requests T n
      | HCopy \<Rightarrow> sl_submitted l = bench_requests T n \<and> length (sl_popped l) = nat n
      | HStop \<Rightarrow> sl_submitted l = bench_requests T n \<and> length (sl_popped l) = nat n
      | _ \<Rightarrow> sl_submitted l = bench_requests T n @ [sentinel_request] \<and> length (sl_popped l) = nat n)"

definition gb_inv :: "(u32 \<Rightarrow> f32_bits) \<Rightarrow> int \<Rightarrow> int \<Rightarrow> gb_state \<Rightarrow> bool" where
  "gb_inv reward n T s = (case gb_sched s of (g, l) \<Rightarrow>
     sched_inv reward (g, l) \<and> host_inv n T (gb_pc s) l \<and>
     unat (dr_head (sd_done g)) = length (sl_popped l) \<and> unat (rr_tail (sd_req g)) = length (sl_submitted l) \<and>
     unat (gb_completed s) = length (sl_popped l) \<and> (gb_pc s = HReturned \<longrightarrow> sd_pc g = GReturned))"

lemma bench_request_id:
  assumes "0 \<le> i" "i < 2 ^ 31"
  shows "rq_request_id (bench_request T i) \<noteq> UINT64_MAX"
proof
  assume "rq_request_id (bench_request T i) = UINT64_MAX"
  then have "uint (of_int (i + 1) :: u64) = uint (UINT64_MAX :: u64)" by (simp add: bench_request_def del: of_int_add)
  moreover have "uint (word_of_int (i + 1) :: u64) = i + 1" using assms by (simp add: uint_word_of_int mod_pos_pos_trivial del: of_int_add)
  ultimately show False using assms by simp
qed

lemma completed_less: "0 \<le> n \<Longrightarrow> n < 2 ^ 31 \<Longrightarrow> (c :: u64) < of_int n \<longleftrightarrow> unat c < nat n"
proof -
  assume "0 \<le> n" "n < 2 ^ 31"
  then have "uint (of_int n :: u64) = n" by (simp add: uint_word_of_int mod_pos_pos_trivial)
  then have "unat (of_int n :: u64) = nat n" by (metis unat_eq_nat_uint)
  then show ?thesis by (simp add: word_less_nat_alt)
qed

text \<open>Counting: the notifications come from admitted requests, those from taken ones, those from submitted ones.\<close>

lemma sched_counts:
  assumes "sched_inv reward (g, l)"
  shows "size (live (sd_state g)) + length (sl_popped l) + length (done_contents (sd_done g)) + length (pushed_next (sd_pc g)) =
      length (admitted l)"
    "length (admitted l) \<le> length (sl_taken l)"
    "length (sl_submitted l) = length (sl_taken l) + (if sd_pc g = GReturned then 1 else 0) + length (req_contents (sd_req g))"
proof -
  have "mset (map req_key (admitted l)) = live (sd_state g) + mset (map done_key (reported g l @ pushed_next (sd_pc g)))"
    using assms by (simp add: sched_inv_def)
  from arg_cong[OF this, of size]
  show "size (live (sd_state g)) + length (sl_popped l) + length (done_contents (sd_done g)) + length (pushed_next (sd_pc g)) =
      length (admitted l)"
    by (simp add: reported_def del: length_rep_contents)
  show "length (admitted l) \<le> length (sl_taken l)" by (simp add: admitted_def)
  show "length (sl_submitted l) = length (sl_taken l) + (if sd_pc g = GReturned then 1 else 0) + length (req_contents (sd_req g))"
    using assms by (auto simp: sched_inv_def simp del: length_rep_contents)
qed

lemma host_inv_submitted: "host_inv n T pc l \<Longrightarrow> length (sl_submitted l) \<le> nat n + 1"
  by (auto simp: host_inv_def split: bench_pc.splits)

lemma gb_budgets:
  assumes "gb_inv reward n T s" "n < 2 ^ 31"
  shows "done_budget (Suc 0) (sd_done (fst (gb_sched s)))" "req_budget (Suc 0) (sd_req (fst (gb_sched s)))"
proof -
  obtain g l where gl: "gb_sched s = (g, l)" by fastforce
  have inv: "sched_inv reward (g, l)" "host_inv n T (gb_pc s) l" "unat (dr_head (sd_done g)) = length (sl_popped l)"
    "unat (rr_tail (sd_req g)) = length (sl_submitted l)"
    using assms(1) gl by (simp_all add: gb_inv_def)
  have small: "length (sl_submitted l) \<le> nat n + 1" by (rule host_inv_submitted[OF inv(2)])
  have "done_inv (sd_done g)" using inv(1) by (simp add: sched_inv_def)
  then have "length (done_contents (sd_done g)) = unat (dr_tail (sd_done g)) - unat (dr_head (sd_done g))"
    by (simp add: rep_linear_def unat_sub)
  then have "unat (dr_tail (sd_done g)) \<le> length (sl_popped l) + length (done_contents (sd_done g))" using inv(3) by simp
  also have "\<dots> \<le> nat n + 1" using sched_counts[OF inv(1)] small by linarith
  finally have "unat (dr_tail (sd_done g)) \<le> nat n + 1" .
  then show "done_budget (Suc 0) (sd_done (fst (gb_sched s)))" "req_budget (Suc 0) (sd_req (fst (gb_sched s)))"
    using assms(2) small inv(4) gl by (simp_all add: rep_budget_def)
qed

lemma tick_dr_head [simp]: "dr_head (sd_done (rollout_worker_tick reward g)) = dr_head (sd_done g)"
  by (simp add: rollout_worker_tick_def slot_visit_def done_ring_push_def Let_def split: sched_pc.split prod.split option.split)

lemma log_tick_fields [simp]:
  "sl_submitted (log_tick g l) = sl_submitted l" "sl_popped (log_tick g l) = sl_popped l"
  by (auto simp: log_tick_def split: sched_pc.splits prod.splits option.splits)

lemma tick_returned [simp]: "sd_pc g = GReturned \<Longrightarrow> rollout_worker_tick reward g = g"
  by (simp add: rollout_worker_tick_def)

lemma host_inv_cong: "sl_submitted l' = sl_submitted l \<Longrightarrow> sl_popped l' = sl_popped l \<Longrightarrow> host_inv n T pc l' = host_inv n T pc l"
  by (simp add: host_inv_def cong: bench_pc.case_cong)

lemma device_inv:
  assumes "gb_inv reward n T s" "n < 2 ^ 31"
  shows "gb_inv reward n T (gb_step reward waits n T Device s)"
proof -
  obtain g l where gl: "gb_sched s = (g, l)" by fastforce
  have "sched_inv reward (g, l)" using assms(1) gl by (simp add: gb_inv_def)
  from sched_inv_tick[OF this gb_budgets(1)[OF assms, unfolded gl fst_conv]] show ?thesis
    using assms(1) gl host_inv_cong[of "log_tick g l" l] by (auto simp: gb_inv_def gb_step_def)
qed

lemma host_send_inv:
  assumes "gb_inv reward n T s" "n < 2 ^ 31"
    and nxt: "\<And>l'. host_inv n T (gb_pc s) (snd (gb_sched s)) \<Longrightarrow> sl_submitted l' = sl_submitted (snd (gb_sched s)) @ [q] \<Longrightarrow>
      sl_popped l' = sl_popped (snd (gb_sched s)) \<Longrightarrow> host_inv n T pc' l'"
    and "pc' \<noteq> HReturned"
  shows "gb_inv reward n T (host_send reward q pc' s)"
proof -
  obtain g l where gl: "gb_sched s = (g, l)" by fastforce
  obtain ok ring where sub: "req_submit (sd_req g) q = (ok, ring)" by fastforce
  let ?g = "g\<lparr>sd_req := ring\<rparr>" and ?l = "if ok then l\<lparr>sl_submitted := sl_submitted l @ [q]\<rparr> else l"
  have step: "sched_step reward (HostSubmit q) (g, l) = (?g, ?l)" by (simp add: sub)
  have inv: "sched_inv reward (g, l)" "host_inv n T (gb_pc s) l" "unat (rr_tail (sd_req g)) = length (sl_submitted l)"
    using assms(1) gl by (simp_all add: gb_inv_def)
  show ?thesis
  proof (cases ok)
    case True
    have "req_inv (sd_req g)" using inv(1) by (simp add: sched_inv_def)
    note b = gb_budgets[OF assms(1,2), unfolded gl fst_conv]
    have "unat (rr_tail (sd_req g)) + 1 < 2 ^ 32" using b(2) by (simp add: rep_budget_def)
    then have "unat (rr_tail (sd_req g) + 1) = Suc (unat (rr_tail (sd_req g)))" by (simp add: unat_add1)
    moreover have "rr_tail ring = rr_tail (sd_req g) + 1"
      using sub True by (auto simp: req_submit_def req_ring_commit_def Let_def split: if_splits)
    ultimately show ?thesis
      using True sched_inv_step[OF inv(1) b step] assms(1,4) gl step sub nxt[of ?l]
      by (simp add: gb_inv_def host_send_def)
  qed (use assms(1) gl sub in \<open>simp add: host_send_def\<close>)
qed

lemma sentinel_id [simp]: "rq_request_id sentinel_request = UINT64_MAX"
  by (simp add: sentinel_request_def)

lemma host_inv_prefix:
  assumes "host_inv n T pc l" "sl_submitted l = qs @ rest" "\<forall>q \<in> set qs. rq_request_id q \<noteq> UINT64_MAX" "0 \<le> n"
  shows "length qs \<le> nat n"
proof (cases "pc \<in> {HSync, HReturned}")
  case True
  then have eq: "qs @ rest = bench_requests T n @ [sentinel_request]" using assms(1,2) by (auto simp: host_inv_def)
  have "rest \<noteq> []"
  proof
    assume "rest = []"
    then have "sentinel_request \<in> set qs" using eq by (metis append_Nil2 in_set_conv_decomp)
    with assms(3) show False using sentinel_id by blast
  qed
  then show ?thesis using arg_cong[OF eq, of length] by (cases rest) auto
next
  case False
  then have "length (sl_submitted l) \<le> nat n" using assms(1) by (auto simp: host_inv_def split: bench_pc.splits)
  then show ?thesis by (simp add: assms(2))
qed

lemma gb_taken_bound:
  assumes "gb_inv reward n T s" "0 \<le> n" "gb_sched s = (g, l)"
  shows "length (sl_taken l) \<le> nat n"
proof -
  have inv: "sched_inv reward (g, l)" "host_inv n T (gb_pc s) l" using assms by (simp_all add: gb_inv_def)
  obtain rest where "sl_submitted l = map fst (sl_taken l) @ rest" using inv(1) by (auto simp: sched_inv_def)
  moreover have "\<forall>q \<in> set (map fst (sl_taken l)). rq_request_id q \<noteq> UINT64_MAX" using inv(1) unfolding sched_inv_def by blast
  ultimately show ?thesis using host_inv_prefix[OF inv(2) _ _ assms(2)] by fastforce
qed

lemma gb_done_bound:
  assumes "gb_inv reward n T s" "0 \<le> n" "gb_sched s = (g, l)"
  shows "length (sl_popped l) + length (done_contents (sd_done g)) \<le> nat n"
proof -
  have "sched_inv reward (g, l)" using assms by (simp add: gb_inv_def)
  from sched_counts[OF this] gb_taken_bound[OF assms] show ?thesis by linarith
qed

lemma host_collect_inv:
  assumes "gb_inv reward n T s" "0 \<le> n" "n < 2 ^ 31" and pc: "gb_pc s = HPop"
  shows "gb_inv reward n T (host_collect reward n s)"
proof -
  obtain g l where gl: "gb_sched s = (g, l)" by fastforce
  obtain y ring where pop: "done_pop_obs (sd_done g) = (y, ring)" by fastforce
  have inv: "sched_inv reward (g, l)" "host_inv n T HPop l" "unat (dr_head (sd_done g)) = length (sl_popped l)"
    "unat (gb_completed s) = length (sl_popped l)"
    using assms(1) gl pc by (simp_all add: gb_inv_def)
  note b = gb_budgets[OF assms(1,3), unfolded gl fst_conv] and bound = gb_done_bound[OF assms(1,2) gl]
  show ?thesis
  proof (cases y)
    case None
    have "\<not> gb_completed s < of_int n \<Longrightarrow> length (sl_popped l) = nat n"
      using inv(4) bound assms(2,3) by (simp add: completed_less)
    then show ?thesis using None assms(1) pop gl pc inv(2) by (auto simp: host_collect_def gb_inv_def host_inv_def)
  next
    case (Some d)
    let ?l = "l\<lparr>sl_popped := sl_popped l @ [d]\<rparr>" and ?g = "g\<lparr>sd_done := ring\<rparr>"
    have step: "sched_step reward HostTakeDone (g, l) = (?g, ?l)" by (simp add: pop Some)
    have less: "dr_head (sd_done g) < dr_tail (sd_done g)" and ring: "dr_head ring = dr_head (sd_done g) + 1"
      using pop Some by (auto simp: done_pop_obs_def done_ring_pop_def Let_def split: if_splits)
    have small: "length (sl_popped l) < 2 ^ 31" using bound assms(2,3) by simp
    have "unat (dr_head (sd_done g) + 1) = Suc (unat (dr_head (sd_done g)))" using inv(3) small by (simp add: unat_add1)
    moreover have "unat (gb_completed s + 1) = Suc (unat (gb_completed s))"
      using inv(4) small by (subst unat_add_lem[THEN iffD1]) simp_all
    moreover have "host_inv n T HPop ?l" using inv(2) by (simp add: host_inv_def)
    ultimately show ?thesis
      using sched_inv_step[OF inv(1) b step] assms(1) gl pc pop Some step ring inv(3,4)
      by (simp add: host_collect_def gb_inv_def)
  qed
qed

lemma bench_requests_snoc: "0 \<le> i \<Longrightarrow> bench_requests T (i + 1) = bench_requests T i @ [bench_request T i]"
  by (simp add: nat_add_distrib)

lemma host_inv_step:
  assumes "gb_inv reward n T s" "0 \<le> n" "n < 2 ^ 31"
  shows "gb_inv reward n T (host_step reward waits n T s)"
proof -
  obtain g l where gl: "gb_sched s = (g, l)" by fastforce
  have inv: "host_inv n T (gb_pc s) l" "unat (gb_completed s) = length (sl_popped l)" using assms(1) gl by (simp_all add: gb_inv_def)
  show ?thesis
  proof (cases "gb_pc s")
    case (HSubmit i)
    then have i: "0 \<le> i" "i \<le> n" "sl_submitted l = bench_requests T i" "sl_popped l = []" using inv(1) by (simp_all add: host_inv_def)
    show ?thesis
    proof (cases "i < n")
      case True
      have "gb_inv reward n T (host_send reward (bench_request T i) (HSubmit (i + 1)) s)"
        by (rule host_send_inv[OF assms(1,3)]) (use HSubmit gl i True bench_requests_snoc[OF i(1), of T] in \<open>simp_all add: host_inv_def\<close>)
      then show ?thesis using HSubmit True by (simp add: host_step_def)
    next
      case False
      then have "i = n" using i(2) by simp
      moreover have "\<not> gb_completed s < of_int n \<Longrightarrow> n = 0"
        using inv(2) i(4) assms(2,3) by (simp add: completed_less)
      ultimately show ?thesis
        using HSubmit assms(1) i gl by (auto simp: host_step_def gb_inv_def host_inv_def)
    qed
  next
    case HPop
    then show ?thesis using host_collect_inv[OF assms HPop] by (simp add: host_step_def)
  next
    case HStop
    have "gb_inv reward n T (host_send reward sentinel_request HSync s)"
      by (rule host_send_inv[OF assms(1,3)]) (use HStop gl in \<open>simp_all add: host_inv_def\<close>)
    then show ?thesis using HStop by (simp add: host_step_def)
  qed (use assms(1) gl in \<open>auto simp: host_step_def gb_inv_def host_inv_def\<close>)
qed

lemma gb_init_inv: "0 \<le> n \<Longrightarrow> gb_inv reward n T gb_init"
  using sched_start_inv[of reward]
  by (simp add: gb_inv_def gb_init_def host_inv_def log_empty_def sched_start_def request_ring_empty_def done_ring_empty_def)

lemma gb_step_inv:
  assumes "gb_inv reward n T s" "0 \<le> n" "n < 2 ^ 31"
  shows "gb_inv reward n T (gb_step reward waits n T t s)"
  using device_inv[OF assms(1,3), of waits] host_inv_step[OF assms, of waits] by (cases t) (simp_all add: gb_step_def)

lemma gb_run_inv:
  assumes "0 \<le> n" "n < 2 ^ 31"
  shows "gb_inv reward n T (bench_gpu_scheduler reward waits n T sched)"
proof -
  have "gb_inv reward n T (fold (gb_step reward waits n T) sched s)" if "gb_inv reward n T s" for s
    using that by (induction sched arbitrary: s) (simp_all add: gb_step_inv[OF _ assms])
  from this[OF gb_init_inv[OF assms(1)]] show ?thesis by (simp add: bench_gpu_scheduler_def)
qed

section \<open>The end of the program\<close>

text \<open>The device loop returns only after the sentinel.\<close>

lemma returned_only_after_stop:
  assumes "gb_inv reward n T s" "0 \<le> n" "n < 2 ^ 31" "sd_pc (fst (gb_sched s)) = GReturned"
  shows "gb_pc s \<in> {HSync, HReturned}"
proof (rule ccontr)
  assume pc: "gb_pc s \<notin> {HSync, HReturned}"
  obtain g l where gl: "gb_sched s = (g, l)" by fastforce
  have inv: "sched_inv reward (g, l)" "host_inv n T (gb_pc s) l" "sd_pc g = GReturned" using assms gl by (simp_all add: gb_inv_def)
  then obtain q where "sl_submitted l = map fst (sl_taken l) @ [q] @ req_contents (sd_req g)" and max: "rq_request_id q = UINT64_MAX"
    by (auto simp: sched_inv_def)
  then have "q \<in> set (sl_submitted l)" by simp
  moreover obtain i where "i \<le> n" "sl_submitted l = bench_requests T i"
    using inv(2) pc by (auto simp: host_inv_def split: bench_pc.splits)
  ultimately obtain k where "q = bench_request T (int k)" "k < nat i" by auto
  moreover from this(2) have "int k < 2 ^ 31" using \<open>i \<le> n\<close> assms(3) by linarith
  ultimately show False using bench_request_id[of "int k" T] max by simp
qed

lemma size_live: "size (live st) = length (filter (\<lambda>rs. gs_active rs \<noteq> 0) (gr_slots st))"
  unfolding live_def size_mset length_map ..

lemma live_slots_bound:
  assumes "slots_inv st pc"
  shows "size (live st) + length (pushed_next pc) \<le> 256"
proof -
  have len: "length (gr_slots st) = 256" using assms by (simp add: slots_inv_def slots_wf_def)
  show ?thesis
  proof (cases "pushed_next pc = []")
    case True
    then show ?thesis using length_filter_le[of "\<lambda>rs. gs_active rs \<noteq> 0" "gr_slots st"] len by (simp add: size_live)
  next
    case False
    then obtain i d where pc: "pc = GPush i d" by (cases pc) auto
    then have "i < 256" "gs_active (gr_slots st ! i) = 0" using assms by (simp_all add: slots_inv_def)
    then have "length (filter (\<lambda>rs. gs_active rs \<noteq> 0) (gr_slots st)) < 256"
      using length_filter_less[of "gr_slots st ! i" "gr_slots st" "\<lambda>rs. gs_active rs \<noteq> 0"] len by simp
    then show ?thesis using pc by (simp add: size_live)
  qed
qed

text \<open>A dropped request stays dropped.\<close>

definition dropped :: "sched_log \<Rightarrow> bool" where
  "dropped l = (length (admitted l) < length (sl_taken l))"

lemma dropped_tick: "dropped l \<Longrightarrow> dropped (log_tick g l)"
  by (auto simp: dropped_def log_tick_def split: sched_pc.splits prod.splits option.splits)

lemma many_rollouts_drop:
  assumes "gb_inv reward n T s" "gb_pc s = HSubmit n" "2304 < n" "n < 2 ^ 31"
  shows "dropped (snd (gb_sched s))"
proof -
  obtain g l where gl: "gb_sched s = (g, l)" by fastforce
  have inv: "sched_inv reward (g, l)" "sl_submitted l = bench_requests T n" "sl_popped l = []"
    using assms gl by (simp_all add: gb_inv_def host_inv_def)
  have "length (req_contents (sd_req g)) \<le> 1024" "length (done_contents (sd_done g)) \<le> 1024"
    using inv(1) reqq.bounded doneq.bounded by (simp_all add: sched_inv_def del: length_rep_contents)
  moreover have "size (live (sd_state g)) + length (pushed_next (sd_pc g)) \<le> 256"
    using inv(1) live_slots_bound by (simp add: sched_inv_def)
  moreover have "length (sl_submitted l) = nat n" using inv(2) by simp
  moreover have "sd_pc g \<noteq> GReturned" using returned_only_after_stop[OF assms(1) _ assms(4)] assms(2,3) gl by auto
  ultimately show ?thesis
    using sched_counts[OF inv(1)] inv(3) assms(3) by (simp add: gl dropped_def del: length_rep_contents)
qed

lemma dropped_never_done:
  assumes "gb_inv reward n T s" "0 \<le> n" "dropped (snd (gb_sched s))"
  shows "length (sl_popped (snd (gb_sched s))) < nat n"
proof -
  obtain g l where gl: "gb_sched s = (g, l)" by fastforce
  have "sched_inv reward (g, l)" using assms(1) gl by (simp add: gb_inv_def)
  from sched_counts(1)[OF this] gb_taken_bound[OF assms(1,2) gl] assms(3) show ?thesis by (simp add: gl dropped_def)
qed

lemma stuck_step:
  assumes "gb_inv reward n T s" "0 \<le> n" "n < 2 ^ 31" "2304 < n"
    and "(\<exists>i. gb_pc s = HSubmit i) \<or> gb_pc s = HPop \<and> dropped (snd (gb_sched s))"
  shows "(\<exists>i. gb_pc (gb_step reward waits n T t s) = HSubmit i) \<or>
    gb_pc (gb_step reward waits n T t s) = HPop \<and> dropped (snd (gb_sched (gb_step reward waits n T t s)))"
proof -
  obtain g l where gl: "gb_sched s = (g, l)" by fastforce
  show ?thesis
  proof (cases t)
    case Device
    then show ?thesis using assms(5) gl dropped_tick[of l g] by (auto simp: gb_step_def)
  next
    case Host
    show ?thesis
    proof (cases "gb_pc s = HPop")
      case True
      then have "dropped l" using assms(5) gl by auto
      moreover have "unat (gb_completed s) < nat n"
        using dropped_never_done[OF assms(1,2)] calculation assms(1) gl by (simp add: gb_inv_def)
      ultimately show ?thesis
        using Host True gl completed_less[OF assms(2,3), of "gb_completed s"]
        by (auto simp: gb_step_def host_step_def host_collect_def dropped_def split: prod.splits)
    next
      case False
      then obtain i where i: "gb_pc s = HSubmit i" using assms(5) by auto
      then have le: "i \<le> n" and zero: "unat (gb_completed s) = 0" using assms(1) gl by (simp_all add: gb_inv_def host_inv_def)
      show ?thesis
      proof (cases "i < n")
        case True
        then show ?thesis using Host i by (auto simp: gb_step_def host_step_def host_send_def)
      next
        case False
        then have "dropped l" using many_rollouts_drop[OF assms(1) _ assms(4,3)] i le gl by simp
        then show ?thesis
          using Host i False zero gl assms(4) completed_less[OF assms(2,3), of "gb_completed s"]
          by (auto simp: gb_step_def host_step_def)
      qed
    qed
  qed
qed

lemma stuck_run:
  assumes "0 \<le> n" "n < 2 ^ 31" "2304 < n"
  shows "(\<exists>i. gb_pc (bench_gpu_scheduler reward waits n T sched) = HSubmit i) \<or> gb_pc (bench_gpu_scheduler reward waits n T sched) = HPop"
proof -
  let ?stuck = "\<lambda>s. (\<exists>i. gb_pc s = HSubmit i) \<or> gb_pc s = HPop \<and> dropped (snd (gb_sched s))"
  have "?stuck (fold (gb_step reward waits n T) sched s)" if "gb_inv reward n T s" "?stuck s" for s
    using that
  proof (induction sched arbitrary: s)
    case (Cons t sched)
    have "?stuck (gb_step reward waits n T t s)" by (rule stuck_step[OF Cons.prems(1) assms Cons.prems(2)])
    with Cons.IH[OF gb_step_inv[OF Cons.prems(1) assms(1,2)]] show ?case by simp
  qed simp
  from this[OF gb_init_inv[OF assms(1)]] show ?thesis by (auto simp: bench_gpu_scheduler_def gb_init_def)
qed

lemma copy_blocks:
  assumes "0 \<le> n" "n < 2 ^ 31"
  shows "gb_pc (bench_gpu_scheduler reward True n T sched) \<notin> {HStop, HSync, HReturned}"
proof -
  have "gb_pc (fold (gb_step reward True n T) sched s) \<notin> {HStop, HSync, HReturned}"
    if "gb_inv reward n T s" "gb_pc s \<notin> {HStop, HSync, HReturned}" for s
    using that
  proof (induction sched arbitrary: s)
    case (Cons t sched)
    have "sd_pc (fst (gb_sched s)) \<noteq> GReturned" using returned_only_after_stop[OF Cons.prems(1) assms] Cons.prems(2) by auto
    then have "gb_pc (gb_step reward True n T t s) \<notin> {HStop, HSync, HReturned}"
      using Cons.prems(2)
      by (cases t; cases "gb_pc s") (auto simp: gb_step_def host_step_def host_send_def host_collect_def)
    with Cons.IH[OF gb_step_inv[OF Cons.prems(1) assms]] show ?case by simp
  qed simp
  from this[OF gb_init_inv[OF assms(1)]] show ?thesis by (simp add: bench_gpu_scheduler_def gb_init_def)
qed

lemma host_inv_take: "host_inv n T pc l \<Longrightarrow> nat n \<le> length (sl_submitted l) \<Longrightarrow> take (nat n) (sl_submitted l) = bench_requests T n"
  by (cases pc) (auto simp: host_inv_def nat_le_eq_zle dest: order.antisym)

text \<open>Once \<open>main\<close> has counted its \<open>n\<close> notifications they are those of its \<open>n\<close> requests.\<close>

lemma counted_exact:
  assumes "gb_inv reward n T s" "0 \<le> n" "gb_sched s = (g, l)" "length (sl_popped l) = nat n"
  shows "mset (map done_key (sl_popped l)) = mset (map req_key (bench_requests T n))"
    "live (sd_state g) = {#}" "done_contents (sd_done g) = []" "pushed_next (sd_pc g) = []" "length (sl_taken l) = nat n"
proof -
  have inv: "sched_inv reward (g, l)" "host_inv n T (gb_pc s) l" using assms by (simp_all add: gb_inv_def)
  note counts = sched_counts[OF inv(1)] and taken = gb_taken_bound[OF assms(1-3)]
  have all: "length (admitted l) = length (sl_taken l)" "length (sl_taken l) = nat n" "size (live (sd_state g)) = 0"
    "length (done_contents (sd_done g)) = 0" "length (pushed_next (sd_pc g)) = 0"
    using counts(1,2) taken assms(4) by linarith+
  then show none: "live (sd_state g) = {#}" "done_contents (sd_done g) = []" "pushed_next (sd_pc g) = []" "length (sl_taken l) = nat n"
    by (simp_all del: length_rep_contents rep_contents_Nil)
  have "filter snd (sl_taken l) = sl_taken l" using all(1) by (metis admitted_def filter_id_conv length_filter_less length_map nless_le)
  then have adm: "admitted l = map fst (sl_taken l)" by (simp add: admitted_def)
  obtain rest where sub: "sl_submitted l = map fst (sl_taken l) @ rest" using inv(1) by (auto simp: sched_inv_def)
  have "take (nat n) (sl_submitted l) = bench_requests T n"
    by (rule host_inv_take[OF inv(2)]) (simp add: sub all(2))
  then have "map fst (sl_taken l) = bench_requests T n" using sub all(2) by simp
  moreover have "mset (map req_key (admitted l)) = live (sd_state g) + mset (map done_key (reported g l @ pushed_next (sd_pc g)))"
    using inv(1) by (simp add: sched_inv_def)
  ultimately show "mset (map done_key (sl_popped l)) = mset (map req_key (bench_requests T n))"
    using none adm by (simp add: reported_def)
qed

section \<open>The work that is left\<close>

text \<open>
  The device visits each slot once a sweep. \<open>slot_left\<close> is the number of times the loop must still come back to the first slot
  before the rollout of a slot is finished; \<open>lap\<close> the number of steps to the end of the sweep.
\<close>

fun sweep_pos :: "sched_pc \<Rightarrow> nat" where
  "sweep_pos (GSlot s) = s"
| "sweep_pos (GPush s d) = Suc s"
| "sweep_pos (GRelease s) = Suc s"
| "sweep_pos (GCount s) = Suc s"
| "sweep_pos _ = 256"

fun lap :: "sched_pc \<Rightarrow> nat" where
  "lap (GSlot s) = 4 * (256 - s) + 1"
| "lap (GPush s d) = 4 * (256 - s)"
| "lap (GRelease s) = 4 * (255 - s) + 3"
| "lap (GCount s) = 4 * (255 - s) + 2"
| "lap _ = 0"

fun finishing :: "sched_pc \<Rightarrow> bool" where
  "finishing (GPush s d) = True"
| "finishing (GRelease s) = True"
| "finishing (GCount s) = True"
| "finishing _ = False"

lemma finishing_effects [simp]: "\<not> finishing pc \<Longrightarrow> pushed_next pc = [] \<and> uncounted pc = 0"
  by (cases pc) simp_all

definition slot_left :: "nat \<Rightarrow> nat \<Rightarrow> GpuRolloutSlot \<Rightarrow> nat" where
  "slot_left pos i rs = (if gs_active rs = 0 then 0
     else unat (gs_max_tokens rs) - unat (gs_tokens_generated rs) + (if i < pos then 1 else 0))"

definition sweeps_left :: "sched_state \<Rightarrow> nat" where
  "sweeps_left g = (\<Sum>i<256. slot_left (sweep_pos (sd_pc g)) i (gr_slots (sd_state g) ! i))"

definition busy :: "sched_state \<Rightarrow> bool" where
  "busy g = ((\<exists>i<256. gs_active (gr_slots (sd_state g) ! i) \<noteq> 0) \<or> finishing (sd_pc g) \<or> req_contents (sd_req g) \<noteq> [])"

definition device_left :: "nat \<Rightarrow> sched_state \<Rightarrow> nat" where
  "device_left T g = 1026 * ((T + 1) * length (req_contents (sd_req g)) + sweeps_left g) + (if busy g then lap (sd_pc g) else 0)"

text \<open>A visit, a push and the end of a sweep.\<close>

lemma slot_left_mono: "(i < pos' \<Longrightarrow> i < pos) \<Longrightarrow> slot_left pos' i rs \<le> slot_left pos i rs"
  by (auto simp: slot_left_def)

lemma visit_left:
  fixes reward :: "u32 \<Rightarrow> f32_bits"
  assumes "s < 256" "slots_wf (sd_state g)" "sd_pc g = GSlot s"
  defines "g' \<equiv> slot_visit reward s g"
  shows "sweeps_left g' \<le> sweeps_left g" "busy g' \<Longrightarrow> busy g" "lap (sd_pc g') < lap (sd_pc g)"
    "\<not> busy g \<Longrightarrow> g' = g\<lparr>sd_pc := GSlot (Suc s)\<rparr>" "sd_req g' = sd_req g"
proof -
  let ?rs = "gr_slots (sd_state g) ! s"
  have len: "length (gr_slots (sd_state g)) = 256" using assms(2) by (simp add: slots_wf_def)
  have pos: "sweep_pos (sd_pc g') = Suc s" by (simp add: g'_def slot_visit_def Let_def)
  have other: "gr_slots (sd_state g') ! i = gr_slots (sd_state g) ! i" if "i \<noteq> s" for i
    using that by (simp add: g'_def slot_visit_def Let_def)
  have "slot_left (Suc s) s (gr_slots (sd_state g') ! s) \<le> slot_left s s ?rs"
  proof (cases "gs_active ?rs \<noteq> 0 \<and> gs_tokens_generated ?rs < gs_max_tokens ?rs")
    case True
    then have "unat (gs_tokens_generated ?rs + 1) = Suc (unat (gs_tokens_generated ?rs))"
      using unat_lt32[of "gs_max_tokens ?rs"] by (simp add: word_less_nat_alt unat_add1)
    then show ?thesis using True assms(1) len by (auto simp: g'_def slot_visit_def Let_def slot_left_def word_less_nat_alt)
  next
    case False
    then show ?thesis using assms(1) len by (auto simp: g'_def slot_visit_def Let_def slot_left_def)
  qed
  then show "sweeps_left g' \<le> sweeps_left g"
    unfolding sweeps_left_def pos assms(3) sweep_pos.simps
    by (intro sum_mono) (metis other slot_left_mono less_Suc_eq)
  show "busy g' \<Longrightarrow> busy g" "\<not> busy g \<Longrightarrow> g' = g\<lparr>sd_pc := GSlot (Suc s)\<rparr>" "sd_req g' = sd_req g"
    using assms(1,3) by (auto simp: g'_def slot_visit_def Let_def busy_def nth_list_update len split: if_splits)
  show "lap (sd_pc g') < lap (sd_pc g)" using assms(1,3) by (auto simp: g'_def slot_visit_def Let_def)
qed

text \<open>Coming back to the first slot, without and with a new rollout.\<close>

lemma wrap_left:
  assumes "sd_pc g = GPoll" "sd_pc g' = GSlot 0" "gr_slots (sd_state g') = gr_slots (sd_state g)"
  shows "sweeps_left g' \<le> sweeps_left g"
    "i < 256 \<Longrightarrow> gs_active (gr_slots (sd_state g) ! i) \<noteq> 0 \<Longrightarrow> sweeps_left g' < sweeps_left g"
  using assms
  by (auto simp: sweeps_left_def slot_left_def intro!: sum_mono sum_strict_mono_ex1)

lemma admit_left:
  assumes "sd_pc g = GPoll" "sd_pc g' = GSlot 0" "slots_inv (sd_state g) GPoll"
    and "sd_state g' = admit (sd_state g) q" "unat (rq_max_tokens q) = T"
  shows "sweeps_left g' \<le> sweeps_left g + T"
proof -
  have wf: "slots_wf (sd_state g)" using assms(3) by (simp add: slots_inv_def)
  from wf show ?thesis
  proof (cases rule: find_free_slot_cases)
    case full
    then have "gr_slots (sd_state g') = gr_slots (sd_state g)" using assms(4) by (simp add: admit_def)
    from wrap_left(1)[OF assms(1,2) this] show ?thesis by simp
  next
    case (found k st')
    have slots: "gr_slots (sd_state g') = (gr_slots (sd_state g))[k := slot_of_request q]"
      using assms(4) found(1,5) by (simp add: admit_def)
    have len: "k < length (gr_slots (sd_state g))" using found(2) wf by (simp add: slots_wf_def)
    have "sweeps_left g' \<le> (\<Sum>i<256. slot_left 256 i (gr_slots (sd_state g) ! i) + (if i = k then T else 0))"
      unfolding sweeps_left_def assms(2) slots sweep_pos.simps
      by (intro sum_mono) (use len assms(5) in \<open>auto simp: slot_left_def nth_list_update\<close>)
    also have "\<dots> = sweeps_left g + T" using found(2) assms(1) by (simp add: sum.distrib sweeps_left_def)
    finally show ?thesis .
  qed
qed

lemma poll_left:
  assumes inv: "sched_inv reward (g, l)" and pc: "sd_pc g = GPoll"
    and T: "\<forall>q \<in> set (req_contents (sd_req g)). rq_request_id q \<noteq> UINT64_MAX \<longrightarrow> unat (rq_max_tokens q) = T"
  shows "busy g \<Longrightarrow> device_left T (rollout_worker_tick reward g) < device_left T g"
    "\<not> busy g \<Longrightarrow> rollout_worker_tick reward g = g\<lparr>sd_pc := GSlot 0\<rparr>"
proof -
  have rinv: "req_inv (sd_req g)" and sinv: "slots_inv (sd_state g) GPoll" using inv pc by (auto simp: sched_inv_def)
  obtain y ring where pop: "req_consume_obs (sd_req g) = (y, ring)" by fastforce
  let ?g = "rollout_worker_tick reward g"
  have tick: "?g = (case y of None \<Rightarrow> g\<lparr>sd_req := ring, sd_pc := GSlot 0\<rparr>
      | Some q \<Rightarrow> if rq_request_id q = UINT64_MAX then g\<lparr>sd_req := ring, sd_pc := GReturned\<rparr>
         else g\<lparr>sd_req := ring, sd_state := admit (sd_state g) q, sd_pc := GSlot 0\<rparr>)"
    using pop pc by (auto simp: rollout_worker_tick_def req_consume_obs_def split: prod.splits option.splits)
  show "\<not> busy g \<Longrightarrow> ?g = g\<lparr>sd_pc := GSlot 0\<rparr>"
  proof -
    assume "\<not> busy g"
    then have "req_contents (sd_req g) = []" by (simp add: busy_def del: rep_contents_Nil)
    from reqq.pop_empty[OF rinv this] pop show ?thesis by (simp add: tick)
  qed
  assume busy: "busy g"
  show "device_left T ?g < device_left T g"
  proof (cases "req_contents (sd_req g)")
    case Nil
    then have g': "?g = g\<lparr>sd_pc := GSlot 0\<rparr>" using reqq.pop_empty[OF rinv Nil] pop by (simp add: tick)
    obtain i where "i < 256" "gs_active (gr_slots (sd_state g) ! i) \<noteq> 0"
      using busy Nil pc by (auto simp: busy_def simp del: rep_contents_Nil)
    from wrap_left(2)[OF pc _ _ this, of ?g] have "sweeps_left ?g < sweeps_left g" by (simp add: g')
    then show ?thesis using g' Nil pc by (simp add: device_left_def del: rep_contents_Nil length_rep_contents)
  next
    case (Cons q qs)
    have r: "y = Some q" "req_contents ring = qs" using reqq.linear_pop_first[OF rinv Cons pop] by simp_all
    show ?thesis
    proof (cases "rq_request_id q = UINT64_MAX")
      case True
      then have g': "?g = g\<lparr>sd_req := ring, sd_pc := GReturned\<rparr>" using r by (simp add: tick)
      have "sweeps_left ?g = sweeps_left g" using pc by (simp add: g' sweeps_left_def)
      then show ?thesis using g' r Cons pc by (simp add: device_left_def del: rep_contents_Nil length_rep_contents)
    next
      case False
      then have g': "?g = g\<lparr>sd_req := ring, sd_state := admit (sd_state g) q, sd_pc := GSlot 0\<rparr>" using r by (simp add: tick)
      have "sweeps_left ?g \<le> sweeps_left g + T"
        by (rule admit_left[OF pc _ sinv, of _ q]) (use g' T Cons False in simp_all)
      then show ?thesis using g' r Cons pc by (simp add: device_left_def del: rep_contents_Nil length_rep_contents)
    qed
  qed
qed

lemma tick_left:
  assumes inv: "sched_inv reward (g, l)" and room: "length (done_contents (sd_done g)) < 1024" and budget: "done_budget (Suc 0) (sd_done g)"
    and T: "\<forall>q \<in> set (req_contents (sd_req g)). rq_request_id q \<noteq> UINT64_MAX \<longrightarrow> unat (rq_max_tokens q) = T"
  shows "busy g \<Longrightarrow> sd_pc g \<noteq> GReturned \<Longrightarrow> device_left T (rollout_worker_tick reward g) < device_left T g"
    "\<not> busy g \<or> sd_pc g = GReturned \<Longrightarrow> \<exists>pc. rollout_worker_tick reward g = g\<lparr>sd_pc := pc\<rparr> \<and> (pc = GReturned \<longleftrightarrow> sd_pc g = GReturned) \<and>
       finishing pc = finishing (sd_pc g)"
proof -
  let ?g = "rollout_worker_tick reward g"
  have wf: "slots_wf (sd_state g)" "done_inv (sd_done g)" using inv by (simp_all add: sched_inv_def slots_inv_def)
  show "device_left T ?g < device_left T g" if busy: "busy g" "sd_pc g \<noteq> GReturned"
  proof (cases "sd_pc g")
    case GPoll
    then show ?thesis using poll_left(1)[OF inv GPoll T busy(1)] by simp
  next
    case (GSlot s)
    show ?thesis
    proof (cases "s < 256")
      case True
      note v = visit_left[OF True wf(1) GSlot, of reward]
      have "?g = slot_visit reward s g" using GSlot True by (simp add: rollout_worker_tick_def)
      then show ?thesis using v busy by (auto simp: device_left_def simp del: length_rep_contents)
    next
      case False
      then have "?g = g\<lparr>sd_pc := GPoll\<rparr>" using GSlot by (simp add: rollout_worker_tick_def)
      moreover have "sweeps_left (g\<lparr>sd_pc := GPoll\<rparr>) = sweeps_left g" using GSlot False by (auto simp: sweeps_left_def slot_left_def intro!: sum.cong)
      ultimately show ?thesis using GSlot busy by (simp add: device_left_def)
    qed
  next
    case (GPush s d)
    obtain rc ring where push: "done_ring_push (sd_done g) d = (rc, ring)" by fastforce
    then have "done_push_obs (sd_done g) d = (rc = 0, ring)" by (simp add: done_push_obs_def)
    from doneq.push_room[OF wf(2) budget room this] have "rc = 0" by simp
    then have g': "?g = g\<lparr>sd_done := ring, sd_pc := GRelease s\<rparr>" using push GPush by (simp add: rollout_worker_tick_def)
    have s: "s < 256" using inv GPush by (simp add: sched_inv_def slots_inv_def)
    have "sweeps_left ?g = sweeps_left g" using GPush by (simp add: g' sweeps_left_def)
    then show ?thesis using g' GPush s busy by (auto simp: device_left_def)
  next
    case (GRelease s)
    then have g': "?g = g\<lparr>sd_state := release_slot (sd_state g) s, sd_pc := GCount s\<rparr>" by (simp add: rollout_worker_tick_def)
    have s: "s < 256" using inv GRelease by (simp add: sched_inv_def slots_inv_def)
    have "sweeps_left ?g = sweeps_left g" using release_slot_effect(2)[OF wf(1) s] GRelease by (simp add: g' sweeps_left_def)
    then show ?thesis using g' GRelease s busy by (auto simp: device_left_def)
  next
    case (GCount s)
    then have g': "?g = g\<lparr>sd_step_count := map_option (\<lambda>n. n + 1) (sd_step_count g), sd_pc := GSlot (Suc s)\<rparr>" by (simp add: rollout_worker_tick_def)
    have "sweeps_left ?g = sweeps_left g" using GCount by (simp add: g' sweeps_left_def)
    then show ?thesis using g' GCount busy by (auto simp: device_left_def)
  qed (use busy in simp)
  show "\<exists>pc. ?g = g\<lparr>sd_pc := pc\<rparr> \<and> (pc = GReturned \<longleftrightarrow> sd_pc g = GReturned) \<and> finishing pc = finishing (sd_pc g)"
    if idle: "\<not> busy g \<or> sd_pc g = GReturned"
  proof (cases "sd_pc g")
    case GReturned
    then show ?thesis by (intro exI[of _ GReturned]) simp
  next
    case GPoll
    then show ?thesis using poll_left(2)[OF inv GPoll T] idle by (intro exI[of _ "GSlot 0"]) simp
  next
    case (GSlot s)
    then show ?thesis
      using visit_left(4)[OF _ wf(1) GSlot, of reward] idle
      by (intro exI[of _ "if s < 256 then GSlot (Suc s) else GPoll"]) (simp add: rollout_worker_tick_def)
  qed (use idle in \<open>simp_all add: busy_def\<close>)
qed

text \<open>Up to 256 rollouts no request is dropped.\<close>

definition small_inv :: "(u32 \<Rightarrow> f32_bits) \<Rightarrow> int \<Rightarrow> int \<Rightarrow> gb_state \<Rightarrow> bool" where
  "small_inv reward n T s = (0 \<le> n \<and> n \<le> 256 \<and> gb_inv reward n T s \<and> \<not> dropped (snd (gb_sched s)))"

lemma free_slot_found:
  assumes "slots_inv st GPoll" "size (live st) < 256"
  shows "0 \<le> fst (find_free_slot st)"
proof -
  have wf: "slots_wf st" using assms(1) by (simp add: slots_inv_def)
  from wf show ?thesis
  proof (cases rule: find_free_slot_cases)
    case full
    have "bits_of (gr_bitmap st) = {i. i < 256 \<and> gs_active (gr_slots st ! i) \<noteq> 0}" using assms(1) by (simp add: slots_inv_def)
    then have "i < 256 \<Longrightarrow> gs_active (gr_slots st ! i) \<noteq> 0" for i using full(2) by blast
    then have "\<forall>x \<in> set (gr_slots st). gs_active x \<noteq> 0" using wf by (auto simp: slots_wf_def in_set_conv_nth)
    then have "size (live st) = 256" using wf by (simp add: size_live slots_wf_def)
    with assms(2) show ?thesis by simp
  qed simp
qed

lemma no_drop_tick:
  assumes inv: "gb_inv reward n T s" "0 \<le> n" "n \<le> 256" "gb_sched s = (g, l)" "\<not> dropped l"
  shows "\<not> dropped (log_tick g l)"
proof (cases "sd_pc g = GPoll \<and> (\<exists>q qs. req_contents (sd_req g) = q # qs \<and> rq_request_id q \<noteq> UINT64_MAX)")
  case True
  then obtain q qs where q: "sd_pc g = GPoll" "req_contents (sd_req g) = q # qs" "rq_request_id q \<noteq> UINT64_MAX" by blast
  have sinv: "sched_inv reward (g, l)" "host_inv n T (gb_pc s) l" using inv(1,4) by (simp_all add: gb_inv_def)
  have sub: "sl_submitted l = (map fst (sl_taken l) @ [q]) @ qs" using sinv(1) q(1,2) by (auto simp: sched_inv_def)
  have ids: "\<forall>x \<in> set (map fst (sl_taken l) @ [q]). rq_request_id x \<noteq> UINT64_MAX"
    using sinv(1) q(3) unfolding sched_inv_def by auto
  have "length (sl_taken l) < nat n" using host_inv_prefix[OF sinv(2) sub ids inv(2)] by simp
  then have "size (live (sd_state g)) < 256" using sched_counts(1,2)[OF sinv(1)] inv(3) by linarith
  moreover have "slots_inv (sd_state g) GPoll" using sinv(1) q(1) by (auto simp: sched_inv_def)
  ultimately have "0 \<le> fst (find_free_slot (sd_state g))" by (simp add: free_slot_found)
  then show ?thesis
    using inv(5) by (auto simp: dropped_def log_tick_def split: sched_pc.splits prod.splits option.splits)
next
  case False
  have rinv: "req_inv (sd_req g)" using inv(1,4) by (simp add: gb_inv_def sched_inv_def)
  obtain y ring where pop: "req_consume_obs (sd_req g) = (y, ring)" by fastforce
  have "sd_pc g \<noteq> GPoll \<or> y = None \<or> (\<exists>q. y = Some q \<and> rq_request_id q = UINT64_MAX)"
  proof (cases "req_contents (sd_req g)")
    case Nil
    then show ?thesis using reqq.pop_empty[OF rinv Nil] pop by simp
  next
    case (Cons q qs)
    then show ?thesis using reqq.linear_pop_first[OF rinv Cons pop] False by auto
  qed
  then have "log_tick g l = l" using pop by (auto simp: log_tick_def split: sched_pc.splits)
  then show ?thesis using inv(5) by simp
qed

lemma small_step_inv:
  assumes "small_inv reward n T s"
  shows "small_inv reward n T (gb_step reward waits n T t s)"
proof -
  obtain g l where gl: "gb_sched s = (g, l)" by fastforce
  have inv: "0 \<le> n" "n \<le> 256" "gb_inv reward n T s" "\<not> dropped l" using assms gl by (simp_all add: small_inv_def)
  have "\<not> dropped (snd (gb_sched (gb_step reward waits n T t s)))"
  proof (cases t)
    case Device
    then show ?thesis using no_drop_tick[OF inv(3,1,2) gl inv(4)] gl by (simp add: gb_step_def)
  next
    case Host
    then show ?thesis
      using inv(4) gl
      by (cases "gb_pc s")
        (auto simp: gb_step_def host_step_def host_send_def host_collect_def dropped_def split: prod.splits)
  qed
  then show ?thesis using gb_step_inv[OF inv(3,1)] inv(1,2) by (simp add: small_inv_def)
qed

definition host_rank :: "bool \<Rightarrow> bench_pc \<Rightarrow> nat" where
  "host_rank waits pc = (case pc of HSubmit i \<Rightarrow> 5 | HPop \<Rightarrow> 4 | HCopy \<Rightarrow> (if waits then 0 else 3) | HStop \<Rightarrow> 2 | HSync \<Rightarrow> 1 | HReturned \<Rightarrow> 0)"

definition unsent :: "bool \<Rightarrow> int \<Rightarrow> bench_pc \<Rightarrow> nat" where
  "unsent waits n pc = (case pc of HSubmit i \<Rightarrow> nat (n - i) + (if waits then 0 else 1) | HPop \<Rightarrow> (if waits then 0 else 1)
     | HCopy \<Rightarrow> (if waits then 0 else 1) | HStop \<Rightarrow> 1 | HSync \<Rightarrow> 0 | HReturned \<Rightarrow> 0)"

definition gb_left :: "bool \<Rightarrow> int \<Rightarrow> int \<Rightarrow> gb_state \<Rightarrow> nat" where
  "gb_left waits n T s = (let t = unat (of_int T :: u32) in
     device_left t (fst (gb_sched s)) + 1026 * (t + 2) * unsent waits n (gb_pc s) + (nat n - unat (gb_completed s)) + host_rank waits (gb_pc s))"

lemma lap_bound: "lap pc \<le> 1025"
  by (cases pc) simp_all

lemma not_busy_left: "\<not> busy g \<Longrightarrow> device_left T g = 0"
  by (auto simp: busy_def device_left_def sweeps_left_def slot_left_def simp del: rep_contents_Nil length_rep_contents)

text \<open>The host's steps: when they move, and that they then reduce the work.\<close>

definition host_moves :: "bool \<Rightarrow> int \<Rightarrow> gb_state \<Rightarrow> bool" where
  "host_moves waits n s = (case gb_pc s of
     HSubmit i \<Rightarrow> True
   | HPop \<Rightarrow> fst (done_pop_obs (sd_done (fst (gb_sched s)))) \<noteq> None \<or> \<not> gb_completed s < of_int n
   | HCopy \<Rightarrow> \<not> waits | HStop \<Rightarrow> True
   | HSync \<Rightarrow> sd_pc (fst (gb_sched s)) = GReturned
   | HReturned \<Rightarrow> False)"

lemma send_left:
  assumes "small_inv reward n T s" "unsent waits n (gb_pc s) = Suc (unsent waits n pc')" "host_rank waits pc' \<le> host_rank waits (gb_pc s)"
  shows "gb_left waits n T (host_send reward q pc' s) < gb_left waits n T s"
proof -
  obtain g l where gl: "gb_sched s = (g, l)" by fastforce
  have inv: "0 \<le> n" "n \<le> 256" "gb_inv reward n T s" "sched_inv reward (g, l)" "host_inv n T (gb_pc s) l"
    using assms(1) gl by (simp_all add: small_inv_def gb_inv_def)
  obtain ok ring where sub: "req_submit (sd_req g) q = (ok, ring)" by fastforce
  have rinv: "req_inv (sd_req g)" using inv(4) by (simp add: sched_inv_def)
  have "n < 2 ^ 31" using inv(2) by simp
  note budget = gb_budgets(2)[OF inv(3) this, unfolded gl fst_conv]
  have "length (req_contents (sd_req g)) < 1024"
    using sched_counts(3)[OF inv(4)] host_inv_submitted[OF inv(5)] inv(2) by linarith
  from reqq.push_room[OF rinv budget this sub] have r: "ok" "req_contents ring = req_contents (sd_req g) @ [q]" by simp_all
  let ?t = "unat (of_int T :: u32)"
  have "device_left ?t (g\<lparr>sd_req := ring\<rparr>) \<le> device_left ?t g + 1026 * (?t + 1) + 1025"
    using r(2) lap_bound[of "sd_pc g"] by (simp add: device_left_def sweeps_left_def algebra_simps del: length_rep_contents)
  then show ?thesis
    using assms(2,3) r(1) sub gl by (simp add: gb_left_def host_send_def Let_def algebra_simps)
qed

lemma host_left:
  assumes "small_inv reward n T s"
  shows "if host_moves waits n s then gb_left waits n T (host_step reward waits n T s) < gb_left waits n T s
    else host_step reward waits n T s = s"
proof -
  obtain g l where gl: "gb_sched s = (g, l)" by fastforce
  have inv: "0 \<le> n" "n \<le> 256" "gb_inv reward n T s" "host_inv n T (gb_pc s) l" "unat (gb_completed s) = length (sl_popped l)"
    using assms gl by (simp_all add: small_inv_def gb_inv_def)
  have n31: "n < 2 ^ 31" using inv(2) by simp
  show ?thesis
  proof (cases "gb_pc s")
    case (HSubmit i)
    show ?thesis
    proof (cases "i < n")
      case True
      then have "unsent waits n (HSubmit i) = Suc (unsent waits n (HSubmit (i + 1)))" by (simp add: unsent_def)
      from send_left[OF assms, of waits "HSubmit (i + 1)", unfolded HSubmit, OF this] show ?thesis
        using HSubmit True by (simp add: host_moves_def host_step_def host_rank_def)
    next
      case False
      then show ?thesis using HSubmit by (simp add: host_moves_def host_step_def gb_left_def host_rank_def unsent_def Let_def)
    qed
  next
    case HPop
    obtain y ring where pop: "done_pop_obs (sd_done g) = (y, ring)" by fastforce
    show ?thesis
    proof (cases y)
      case None
      then show ?thesis
        using HPop pop gl by (simp add: host_moves_def host_step_def host_collect_def gb_left_def host_rank_def unsent_def Let_def)
    next
      case (Some d)
      have dinv: "done_inv (sd_done g)" using inv(3) gl by (simp add: gb_inv_def sched_inv_def)
      have "done_contents (sd_done g) \<noteq> []" using doneq.pop_empty[OF dinv] pop Some by fastforce
      then have "length (sl_popped l) < nat n"
        using gb_done_bound[OF inv(3,1) gl] by (cases "done_contents (sd_done g)") simp_all
      moreover have "unat (gb_completed s + 1) = Suc (unat (gb_completed s))"
        using calculation inv(2,5) by (subst unat_add_lem[THEN iffD1]) simp_all
      ultimately have "nat n - unat (gb_completed s + 1) < nat n - unat (gb_completed s)" using inv(5) by simp
      moreover have "device_left t (g\<lparr>sd_done := ring\<rparr>) = device_left t g" for t
        by (auto simp: device_left_def sweeps_left_def busy_def)
      ultimately show ?thesis
        using HPop pop gl Some by (simp add: host_moves_def host_step_def host_collect_def gb_left_def Let_def)
    qed
  next
    case HCopy
    then show ?thesis
      using returned_only_after_stop[OF inv(3,1) n31]
      by (auto simp: host_moves_def host_step_def gb_left_def host_rank_def unsent_def Let_def)
  next
    case HStop
    then show ?thesis
      using send_left[OF assms, of waits HSync sentinel_request] by (simp add: host_moves_def host_step_def host_rank_def unsent_def)
  next
    case HSync
    then show ?thesis by (simp add: host_moves_def host_step_def gb_left_def host_rank_def unsent_def Let_def)
  next
    case HReturned
    then show ?thesis by (simp add: host_moves_def host_step_def)
  qed
qed

text \<open>The device's steps.\<close>

definition device_moves :: "gb_state \<Rightarrow> bool" where
  "device_moves s = (busy (fst (gb_sched s)) \<and> sd_pc (fst (gb_sched s)) \<noteq> GReturned)"

lemma queued_tokens:
  assumes "sched_inv reward (g, l)" "host_inv n T pc l" "q \<in> set (req_contents (sd_req g))" "rq_request_id q \<noteq> UINT64_MAX"
  shows "rq_max_tokens q = of_int T"
proof -
  have "q \<in> set (sl_submitted l)" using assms(1,3) by (auto simp: sched_inv_def)
  then show ?thesis using assms(2,4) by (auto simp: host_inv_def bench_request_def split: bench_pc.splits)
qed

lemma device_left_step:
  assumes "small_inv reward n T s"
  defines "s' \<equiv> s\<lparr>gb_sched := sched_step reward SchedTick (gb_sched s)\<rparr>"
  shows "device_moves s \<Longrightarrow> gb_left waits n T s' < gb_left waits n T s"
    "\<not> device_moves s \<Longrightarrow> gb_left waits n T s' = gb_left waits n T s \<and> host_moves waits n s' = host_moves waits n s"
proof -
  obtain g l where gl: "gb_sched s = (g, l)" by fastforce
  have inv: "0 \<le> n" "n \<le> 256" "gb_inv reward n T s" "sched_inv reward (g, l)" "host_inv n T (gb_pc s) l"
    using assms(1) gl by (simp_all add: small_inv_def gb_inv_def)
  let ?t = "unat (of_int T :: u32)" and ?g = "rollout_worker_tick reward g"
  have "n < 2 ^ 31" using inv(2) by simp
  note budget = gb_budgets(1)[OF inv(3) this, unfolded gl fst_conv]
  have room: "length (done_contents (sd_done g)) < 1024" using gb_done_bound[OF inv(3,1) gl] inv(2) by linarith
  have T: "\<forall>q \<in> set (req_contents (sd_req g)). rq_request_id q \<noteq> UINT64_MAX \<longrightarrow> unat (rq_max_tokens q) = ?t"
    using queued_tokens[OF inv(4,5)] by simp
  note tick = tick_left[OF inv(4) room budget T]
  show "device_moves s \<Longrightarrow> gb_left waits n T s' < gb_left waits n T s"
    using tick(1) gl by (simp add: s'_def device_moves_def gb_left_def Let_def)
  assume idle: "\<not> device_moves s"
  then obtain pc where pc: "?g = g\<lparr>sd_pc := pc\<rparr>" "(pc = GReturned) = (sd_pc g = GReturned)" "finishing pc = finishing (sd_pc g)"
    using tick(2) gl by (auto simp: device_moves_def)
  have "device_left ?t ?g = device_left ?t g"
  proof (cases "sd_pc g = GReturned")
    case False
    then have "\<not> busy g" using idle gl by (simp add: device_moves_def)
    moreover from this have "\<not> busy ?g" by (simp add: pc(1,3) busy_def)
    ultimately show ?thesis by (simp add: not_busy_left)
  qed simp
  then show "gb_left waits n T s' = gb_left waits n T s \<and> host_moves waits n s' = host_moves waits n s"
    using gl pc by (simp add: s'_def gb_left_def Let_def host_moves_def cong: bench_pc.case_cong)
qed

text \<open>As long as there is work one of the two moves.\<close>

lemma bench_alive:
  assumes "small_inv reward n T s" "0 < gb_left waits n T s"
  shows "host_moves waits n s \<or> device_moves s"
proof (rule ccontr)
  assume stuck: "\<not> (host_moves waits n s \<or> device_moves s)"
  obtain g l where gl: "gb_sched s = (g, l)" by fastforce
  have inv: "0 \<le> n" "n \<le> 256" "gb_inv reward n T s" "sched_inv reward (g, l)" "host_inv n T (gb_pc s) l"
    "unat (gb_completed s) = length (sl_popped l)" "\<not> dropped l" "gb_pc s = HReturned \<longrightarrow> sd_pc g = GReturned"
    using assms(1) gl by (simp_all add: small_inv_def gb_inv_def)
  have n31: "n < 2 ^ 31" using inv(2) by simp
  have dinv: "done_inv (sd_done g)" using inv(4) by (simp add: sched_inv_def)
  note counts = sched_counts[OF inv(4)] and taken = gb_taken_bound[OF inv(3,1) gl]
  have ret: "sd_pc g = GReturned \<Longrightarrow> gb_pc s \<in> {HSync, HReturned}" using returned_only_after_stop[OF inv(3,1) n31] gl by simp
  have quiet: "live (sd_state g) = {#} \<and> pushed_next (sd_pc g) = [] \<and> length (req_contents (sd_req g)) = 0" if "\<not> busy g"
  proof -
    have "slots_wf (sd_state g)" using inv(4) by (simp add: sched_inv_def slots_inv_def)
    then have "\<forall>x \<in> set (gr_slots (sd_state g)). gs_active x = 0" using that by (auto simp: busy_def slots_wf_def in_set_conv_nth)
    then show ?thesis using that by (simp add: busy_def live_def del: rep_contents_Nil length_rep_contents)
  qed
  have pcs: "gb_pc s \<in> {HPop, HCopy, HSync, HReturned}" using stuck by (cases "gb_pc s") (simp_all add: host_moves_def)
  have idle: "\<not> busy g" if "sd_pc g \<noteq> GReturned" using stuck that gl by (simp add: device_moves_def)
  show False
  proof (cases "gb_pc s")
    case HPop
    then have "sd_pc g \<noteq> GReturned" using ret by auto
    note q = quiet[OF idle[OF this]]
    have "fst (done_pop_obs (sd_done g)) = None" "gb_completed s < of_int n" using stuck HPop gl by (simp_all add: host_moves_def)
    then have "done_contents (sd_done g) = []" "length (sl_popped l) < nat n"
      using doneq.linear_pop_first[OF dinv] completed_less[OF inv(1) n31] inv(6)
      by (metis list.exhaust prod.collapse option.simps(3), simp)
    moreover have "length (sl_submitted l) = nat n" using inv(5) HPop by (simp add: host_inv_def)
    ultimately show False using counts q inv(7) \<open>sd_pc g \<noteq> GReturned\<close> by (simp add: dropped_def)
  next
    case HCopy
    then have "sd_pc g \<noteq> GReturned" using ret by auto
    with idle have "device_left (unat (of_int T :: u32)) g = 0" by (simp add: not_busy_left)
    then show False
      using assms(2) HCopy inv(5,6) stuck gl
      by (simp add: gb_left_def Let_def host_moves_def unsent_def host_rank_def host_inv_def)
  next
    case HSync
    then have nr: "sd_pc g \<noteq> GReturned" using stuck gl by (simp add: host_moves_def)
    have "length (sl_submitted l) = nat n + 1" using inv(5) HSync by (simp add: host_inv_def)
    then show False using counts(3) taken quiet[OF idle[OF nr]] nr by simp
  next
    case HReturned
    have pop: "length (sl_popped l) = nat n" and sub: "length (sl_submitted l) = nat n + 1"
      using inv(5) HReturned by (simp_all add: host_inv_def)
    note exact = counted_exact[OF inv(3,1) gl pop]
    have nr: "sd_pc g = GReturned" using inv(8) HReturned by simp
    have "req_contents (sd_req g) = []" using counts(3) exact(5) sub nr by (simp del: rep_contents_Nil length_rep_contents)
    moreover have "filter (\<lambda>rs. gs_active rs \<noteq> 0) (gr_slots (sd_state g)) = []" using exact(2) size_live[of "sd_state g"] by simp
    moreover have "length (gr_slots (sd_state g)) = 256" using inv(4) by (simp add: sched_inv_def slots_inv_def slots_wf_def)
    ultimately have "\<not> busy g" using nr by (auto simp: busy_def filter_empty_conv simp del: rep_contents_Nil)
    then show False
      using assms(2) HReturned inv(6) pop gl by (simp add: gb_left_def Let_def unsent_def host_rank_def not_busy_left)
  qed (use pcs in simp_all)
qed

interpretation gpu_bench: fair_steps UNIV "gb_step reward waits n T" "small_inv reward n T" "gb_left waits n T" for reward waits n T
proof
  fix s t u assume inv: "small_inv reward n T s"
  note host = host_left[OF inv, of waits] and device = device_left_step[OF inv, of waits]
  show "small_inv reward n T (gb_step reward waits n T t s)" by (rule small_step_inv[OF inv])
  show "gb_left waits n T (gb_step reward waits n T t s) \<le> gb_left waits n T s"
    using host device by (cases t; cases "device_moves s") (auto simp: gb_step_def split: if_splits)
  show "\<exists>t \<in> UNIV. gb_left waits n T (gb_step reward waits n T t s) < gb_left waits n T s" if "0 < gb_left waits n T s"
  proof (cases "host_moves waits n s")
    case True
    with host show ?thesis by (intro bexI[of _ Host]) (simp_all add: gb_step_def)
  next
    case False
    with bench_alive[OF inv that] device(1) show ?thesis by (intro bexI[of _ Device]) (simp_all add: gb_step_def)
  qed
  show "gb_left waits n T (gb_step reward waits n T t (gb_step reward waits n T u s)) < gb_left waits n T s"
    if "gb_left waits n T (gb_step reward waits n T t s) < gb_left waits n T s" "gb_left waits n T (gb_step reward waits n T u s) = gb_left waits n T s"
  proof (cases u)
    case Host
    then have "gb_step reward waits n T u s = s" using host that(2) by (simp add: gb_step_def split: if_splits)
    then show ?thesis using that(1) by simp
  next
    case Device
    then have idle: "\<not> device_moves s" using device(1) that(2) by (auto simp: gb_step_def)
    show ?thesis
    proof (cases t)
      case Host
      then have "host_moves waits n s" using host that(1) by (auto simp: gb_step_def split: if_splits)
      then have "host_moves waits n (gb_step reward waits n T u s)" using device(2)[OF idle] Device by (simp add: gb_step_def)
      with host_left[OF small_step_inv[OF inv], of waits waits u] show ?thesis using Host that(2) by (simp add: gb_step_def[of _ _ _ _ Host])
    qed (use that Device in simp)
  qed
qed

section \<open>Properties\<close>

lemma ucast_of_int_32: "(ucast (of_int k :: u64) :: u32) = of_int k"
  by (rule bit_word_eqI) (auto simp: bit_simps)

lemma small_init: "0 \<le> n \<Longrightarrow> n \<le> 256 \<Longrightarrow> small_inv reward n T gb_init"
  using gb_init_inv[of n reward T] by (simp add: small_inv_def gb_init_def dropped_def log_empty_def)

lemma init_left: "gb_left waits n T gb_init \<le> 1026 * (unat (of_int T :: u32) + 2) * (nat n + 1) + nat n + 5"
proof -
  have "\<not> busy sched_start"
    by (simp add: busy_def sched_start_def slot_empty_def request_ring_empty_def)
  then show ?thesis by (simp add: gb_left_def Let_def gb_init_def unsent_def host_rank_def not_busy_left)
qed

text \<open>What the copy reads: all notifications have been collected, the last may not have been counted.\<close>

definition steps_inv :: "int \<Rightarrow> gb_state \<Rightarrow> bool" where
  "steps_inv n s = ((if gb_pc s \<in> {HStop, HSync, HReturned}
     then gb_steps s = Some (of_int n) \<or> 0 < n \<and> gb_steps s = Some (of_int n - 1) else gb_steps s = None) \<and>
     sd_step_count (fst (gb_sched s)) \<noteq> None)"

lemma counter_when_collected:
  assumes "gb_inv reward n T s" "0 \<le> n" "gb_sched s = (g, l)" "length (sl_popped l) = nat n"
  shows "\<forall>k. sd_step_count g = Some k \<longrightarrow> k = of_int n - uncounted (sd_pc g)" "uncounted (sd_pc g) \<noteq> 0 \<Longrightarrow> 0 < n"
proof -
  have inv: "sched_inv reward (g, l)" using assms by (simp add: gb_inv_def)
  have "reported g l = sl_popped l" using counted_exact(3)[OF assms] by (simp add: reported_def)
  then have "k + uncounted (sd_pc g) = of_int n" if "sd_step_count g = Some k" for k
    using inv that assms(2,4) by (simp add: sched_inv_def)
  then show "\<forall>k. sd_step_count g = Some k \<longrightarrow> k = of_int n - uncounted (sd_pc g)" by (metis add_diff_cancel_right')
  assume pending: "uncounted (sd_pc g) \<noteq> 0"
  have "sl_popped l \<noteq> []" using inv pending \<open>reported g l = sl_popped l\<close> by (auto simp: sched_inv_def)
  then show "0 < n" using assms(4) by (cases "sl_popped l") simp_all
qed

lemma step_counter_kept: "(sd_step_count (fst (sched_step reward a gl)) = None) = (sd_step_count (fst gl) = None)"
  using tick_null_counter[of reward "fst gl"] by (cases gl; cases a) (auto split: prod.splits)

lemma steps_inv_step:
  assumes "gb_inv reward n T s" "0 \<le> n" "steps_inv n s"
  shows "steps_inv n (gb_step reward waits n T t s)"
proof (cases "t = Host \<and> gb_pc s = HCopy \<and> \<not> (waits \<and> sd_pc (fst (gb_sched s)) \<noteq> GReturned)")
  case True
  obtain g l where gl: "gb_sched s = (g, l)" by fastforce
  have "length (sl_popped l) = nat n" using assms(1) gl True by (simp add: gb_inv_def host_inv_def)
  note c = counter_when_collected[OF assms(1,2) gl this]
  obtain k where k: "sd_step_count g = Some k" using assms(3) gl by (auto simp: steps_inv_def)
  have "uncounted (sd_pc g) = 0 \<or> uncounted (sd_pc g) = 1" by (cases "sd_pc g") simp_all
  then have "k = of_int n \<or> 0 < n \<and> k = of_int n - 1" using c k by auto
  then show ?thesis using True k gl by (auto simp: steps_inv_def gb_step_def host_step_def)
next
  case False
  then show ?thesis
    using assms(3) step_counter_kept[of reward _ "gb_sched s"]
    by (cases t; cases "gb_pc s") (auto simp: steps_inv_def gb_step_def host_step_def host_send_def host_collect_def)
qed

lemma steps_run_inv:
  assumes "0 \<le> n" "n < 2 ^ 31"
  shows "steps_inv n (bench_gpu_scheduler reward waits n T sched)"
proof -
  have "steps_inv n (fold (gb_step reward waits n T) sched s)" if "gb_inv reward n T s" "steps_inv n s" for s
    using that by (induction sched arbitrary: s) (simp_all add: gb_step_inv[OF _ assms] steps_inv_step[OF _ assms(1)])
  from this[OF gb_init_inv[OF assms(1)]] show ?thesis by (simp add: bench_gpu_scheduler_def steps_inv_def gb_init_def sched_start_def)
qed

text \<open>
  C36. Up to 256 rollouts the benchmark does its work under every fair schedule, within a number of rounds proportional to the
  number of rollouts and to their token budget: every rollout is decoded and reported exactly once with its own budget, \<open>main\<close>
  has counted them all and the device's step counter holds the number of rollouts. With a copy of that counter that waits for the
  running kernel this is as far as the program gets, and nothing is printed; with one that does not wait \<open>main\<close> stops the device
  loop and returns, having read the number of rollouts or, when it was faster than the device, one less.
\<close>

theorem gpu_bench_completes:
  fixes n :: int
  assumes "0 \<le> n" and "n \<le> 256" and "rounds_of UNIV rounds"
    and "1026 * (unat (of_int T :: u32) + 2) * (nat n + 1) + nat n + 5 \<le> length rounds"
    and "s = bench_gpu_scheduler reward waits n T (concat rounds)" and "gb_sched s = (g, l)"
  shows "gb_pc s = (if waits then HCopy else HReturned) \<and> gb_completed s = of_int n \<and> sd_step_count g = Some (of_int n) \<and>
    mset (map done_key (sl_popped l)) = mset (map (\<lambda>i. (of_int (int i + 1), of_int T)) [0..<nat n]) \<and>
    (if waits then gb_steps s = None else gb_steps s = Some (of_int n) \<or> 0 < n \<and> gb_steps s = Some (of_int n - 1))"
proof -
  have keys: "map req_key (bench_requests T n) = map (\<lambda>i. (of_int (int i + 1), of_int T)) [0..<nat n]"
    using ucast_of_int_32 by (simp add: req_key_def bench_request_def del: of_int_add)
  have small: "small_inv reward n T s" "gb_left waits n T s = 0"
    using gpu_bench.inv_run[OF small_init[OF assms(1,2)]]
      gpu_bench.fair_run_finishes[OF small_init[OF assms(1,2)] assms(3) order_trans[OF init_left assms(4)]]
    unfolding assms(5) bench_gpu_scheduler_def by blast+
  then have rank: "host_rank waits (gb_pc s) = 0" "nat n - unat (gb_completed s) = 0" "device_left (unat (of_int T :: u32)) g = 0"
    using assms(6) by (simp_all add: gb_left_def Let_def)
  have inv: "gb_inv reward n T s" "sched_inv reward (g, l)" "host_inv n T (gb_pc s) l" "unat (gb_completed s) = length (sl_popped l)"
    using small(1) assms(6) by (simp_all add: small_inv_def gb_inv_def)
  have pc: "gb_pc s = HReturned \<or> gb_pc s = HCopy \<and> waits"
    using rank(1) by (auto simp: host_rank_def split: bench_pc.splits if_splits)
  have n31: "n < 2 ^ 31" using assms(2) by simp
  have stop: "gb_pc s = (if waits then HCopy else HReturned)"
    using pc copy_blocks[OF assms(1) n31, of reward T "concat rounds"] by (cases waits) (auto simp: assms(5))
  have pop: "length (sl_popped l) = nat n" using pc inv(3) by (auto simp: host_inv_def)
  note steps = steps_run_inv[OF assms(1) n31, of reward waits T "concat rounds", folded assms(5)]
  have "sd_step_count g = Some (of_int n)"
  proof -
    have "\<not> finishing (sd_pc g)" using rank(3) inv(2) by (cases "sd_pc g") (auto simp: device_left_def busy_def sched_inv_def slots_inv_def)
    then have "uncounted (sd_pc g) = 0" by simp
    moreover obtain k where "sd_step_count g = Some k" using steps assms(6) by (auto simp: steps_inv_def)
    ultimately show ?thesis using counter_when_collected(1)[OF inv(1) assms(1,6) pop] by simp
  qed
  moreover have "gb_completed s = of_int n"
  proof -
    have "unat (gb_completed s) = nat n" using inv(4) pop by simp
    moreover have "gb_completed s = of_nat (unat (gb_completed s))" by simp
    ultimately have "gb_completed s = of_nat (nat n)" by argo
    then show ?thesis using assms(1) by simp
  qed
  moreover have "mset (map done_key (sl_popped l)) = mset (map (\<lambda>i. (of_int (int i + 1), of_int T)) [0..<nat n])"
    unfolding counted_exact(1)[OF inv(1) assms(1,6) pop] keys ..
  ultimately show ?thesis using stop steps by (simp add: steps_inv_def split: if_splits)
qed

theorem gpu_bench_completes_witness:
  "gb_pc (bench_gpu_scheduler (\<lambda>_. 0) True 2 1 (concat (replicate 9241 [Host, Device]))) = HCopy \<and>
   gb_completed (bench_gpu_scheduler (\<lambda>_. 0) True 2 1 (concat (replicate 9241 [Host, Device]))) = 2"
proof -
  have "rounds_of UNIV (replicate 9241 [Host, Device])" using gb_thread.exhaust by (auto simp: rounds_of_def)
  moreover obtain g l where "gb_sched (bench_gpu_scheduler (\<lambda>_. 0) True 2 1 (concat (replicate 9241 [Host, Device]))) = (g, l)" by fastforce
  ultimately show ?thesis
    using gpu_bench_completes[of 2 "replicate 9241 [Host, Device]" 1 _ "\<lambda>_. 0" True g l, OF _ _ _ _ refl] by simp
qed

text \<open>
  C40. The benchmark as it is does not return. Its copy of the step counter waits for the kernel launched before it, which only ends
  after the sentinel \<open>main\<close> would send next: no schedule gets past the copy. And with more than 2304 rollouts, the default
  is 10000, no schedule even reaches it, whatever the copy does: \<open>main\<close> takes no notification before all requests are
  submitted, so either the rings fill up and the submission never ends, or requests were dropped and the count is never reached.
\<close>

theorem gpu_bench_never_returns:
  assumes "0 \<le> n" and "n < 2 ^ 31"
  shows "gb_pc (bench_gpu_scheduler reward True n T sched) \<notin> {HStop, HSync, HReturned} \<and>
    (2304 < n \<longrightarrow> gb_pc (bench_gpu_scheduler reward waits n T sched) \<notin> {HCopy, HStop, HSync, HReturned})"
  using copy_blocks[OF assms] stuck_run[OF assms, of reward waits T sched] by auto

theorem gpu_bench_never_returns_witness:
  "gb_pc (bench_gpu_scheduler (\<lambda>_. 0) True 10000 128 (replicate 1000000 Host)) \<notin> {HCopy, HStop, HSync, HReturned}"
  using gpu_bench_never_returns[of 10000 "\<lambda>_. 0" 128 "replicate 1000000 Host" True] by simp

end
