(* ===== verification/Bench_Tax.thy ===== *)
theory Bench_Tax
  imports Fair_Threads
begin

text \<open>
  The control-plane benchmark, \<^verbatim>\<open>bench/bench_control_tax.cu\<close>: a round trip through an \<open>eventfd\<close> (mode A) and the two
  ping-pongs over shared words between \<open>main\<close> and a consumer thread (modes B and C; C also passes a payload). A step of a thread is
  one load or store. The times per operation are not modelled.
\<close>

section \<open>Mode A\<close>

datatype tax_result = TaxFailed | TaxBlocked | TaxDone

text \<open>\<open>oks\<close> tells for each iteration whether the \<open>write\<close> and the \<open>read\<close> succeed; \<open>read\<close> leaves the counter in \<open>val\<close>.\<close>

fun mode_a_loop :: "(bool \<times> bool) list \<Rightarrow> u64 \<Rightarrow> u64 \<Rightarrow> tax_result \<times> u64" where
  "mode_a_loop [] counter val = (TaxDone, val)"
| "mode_a_loop ((w_ok, r_ok) # oks) counter val =
     (if \<not> w_ok then (TaxFailed, val)
      else if val > 0xFFFFFFFFFFFFFFFE - counter then (TaxBlocked, val)
      else let counter = counter + val
           in if \<not> r_ok then (TaxFailed, val)
              else if counter = 0 then (TaxBlocked, val)
              else mode_a_loop oks 0 counter)"

definition bench_mode_a :: "bool \<Rightarrow> (nat \<Rightarrow> bool \<times> bool) \<Rightarrow> int \<Rightarrow> tax_result \<times> u64" where
  "bench_mode_a efd_ok oks n = (if \<not> efd_ok then (TaxFailed, 0) else mode_a_loop (map oks [0..<nat n]) 0 1)"

section \<open>Modes B and C\<close>

datatype tax_pc = TLoop | TCommit | TWait | TJoin | TReturned
datatype tax_cons_pc = KWait | KRead | KStore | KReturned

text \<open>
  \<open>head\<close> and \<open>tail\<close> of \<open>PollSlot\<close> in mode B; the words 1 and 2 of the ring in mode C, whose word 0 is the payload.
  \<open>tx_seen\<close> lists the payloads the consumer has read.
\<close>

record tax_state =
  tx_head :: u64
  tx_tail :: u64
  tx_payload :: u64
  tx_main :: tax_pc
  tx_i :: int
  tx_cons :: tax_cons_pc
  tx_j :: int
  tx_seen :: "u64 list"

definition tax_init :: tax_state where
  "tax_init = \<lparr>tx_head = 0, tx_tail = 0, tx_payload = 0, tx_main = TLoop, tx_i = 0, tx_cons = KWait, tx_j = 0, tx_seen = []\<rparr>"

definition poll_consumer_thread :: "int \<Rightarrow> tax_state \<Rightarrow> tax_state" where
  "poll_consumer_thread n s =
     (case tx_cons s of
        KWait \<Rightarrow> if tx_j s < n then if tx_head s < of_int (tx_j s + 1) then s else s\<lparr>tx_cons := KStore\<rparr> else s\<lparr>tx_cons := KReturned\<rparr>
      | KRead \<Rightarrow> s
      | KStore \<Rightarrow> s\<lparr>tx_tail := of_int (tx_j s + 1), tx_j := tx_j s + 1, tx_cons := KWait\<rparr>
      | KReturned \<Rightarrow> s)"

definition ring_consumer_thread :: "int \<Rightarrow> tax_state \<Rightarrow> tax_state" where
  "ring_consumer_thread n s =
     (case tx_cons s of
        KWait \<Rightarrow> if tx_j s < n then if tx_head s < of_int (tx_j s + 1) then s else s\<lparr>tx_cons := KRead\<rparr> else s\<lparr>tx_cons := KReturned\<rparr>
      | KRead \<Rightarrow> s\<lparr>tx_seen := tx_seen s @ [tx_payload s], tx_cons := KStore\<rparr>
      | KStore \<Rightarrow> s\<lparr>tx_tail := of_int (tx_j s + 1), tx_j := tx_j s + 1, tx_cons := KWait\<rparr>
      | KReturned \<Rightarrow> s)"

text \<open>The waiting and joining steps of \<open>main\<close> are the same in both modes.\<close>

definition tax_commit :: "tax_state \<Rightarrow> tax_state" where
  "tax_commit s = s\<lparr>tx_head := of_int (tx_i s + 1), tx_main := TWait\<rparr>"

definition tax_wait :: "tax_state \<Rightarrow> tax_state" where
  "tax_wait s = (if tx_tail s < of_int (tx_i s + 1) then s else s\<lparr>tx_i := tx_i s + 1, tx_main := TLoop\<rparr>)"

definition tax_join :: "tax_state \<Rightarrow> tax_state" where
  "tax_join s = (if tx_cons s = KReturned then s\<lparr>tx_main := TReturned\<rparr> else s)"

definition mode_b_main :: "int \<Rightarrow> tax_state \<Rightarrow> tax_state" where
  "mode_b_main n s =
     (case tx_main s of
        TLoop \<Rightarrow> if tx_i s < n then tax_commit s else s\<lparr>tx_main := TJoin\<rparr>
      | TCommit \<Rightarrow> s
      | TWait \<Rightarrow> tax_wait s | TJoin \<Rightarrow> tax_join s | TReturned \<Rightarrow> s)"

definition mode_c_main :: "int \<Rightarrow> tax_state \<Rightarrow> tax_state" where
  "mode_c_main n s =
     (case tx_main s of
        TLoop \<Rightarrow> if tx_i s < n then s\<lparr>tx_payload := of_int (tx_i s), tx_main := TCommit\<rparr> else s\<lparr>tx_main := TJoin\<rparr>
      | TCommit \<Rightarrow> tax_commit s
      | TWait \<Rightarrow> tax_wait s | TJoin \<Rightarrow> tax_join s | TReturned \<Rightarrow> s)"

datatype tax_thread = Main | Consumer

definition mode_b_step :: "int \<Rightarrow> tax_thread \<Rightarrow> tax_state \<Rightarrow> tax_state" where
  "mode_b_step n t s = (case t of Main \<Rightarrow> mode_b_main n s | Consumer \<Rightarrow> poll_consumer_thread n s)"

definition mode_c_step :: "int \<Rightarrow> tax_thread \<Rightarrow> tax_state \<Rightarrow> tax_state" where
  "mode_c_step n t s = (case t of Main \<Rightarrow> mode_c_main n s | Consumer \<Rightarrow> ring_consumer_thread n s)"

text \<open>\<open>None\<close> when the allocation or the creation of the thread fails and the mode returns -1.\<close>

definition bench_mode_b :: "bool \<Rightarrow> bool \<Rightarrow> int \<Rightarrow> tax_thread list \<Rightarrow> tax_state option" where
  "bench_mode_b alloc_ok thread_ok n sched =
     (if \<not> alloc_ok then None else if \<not> thread_ok then None else Some (fold (mode_b_step n) sched tax_init))"

definition bench_mode_c :: "bool \<Rightarrow> bool \<Rightarrow> int \<Rightarrow> tax_thread list \<Rightarrow> tax_state option" where
  "bench_mode_c alloc_ok thread_ok n sched =
     (if \<not> alloc_ok then None else if \<not> thread_ok then None else Some (fold (mode_c_step n) sched tax_init))"

section \<open>The ping-pong\<close>

text \<open>
  \<open>pay\<close> says whether a payload is passed. Between its commit and the answer \<open>main\<close> touches nothing, so that the consumer reads
  the payload of the round it answers.
\<close>

definition tax_inv :: "bool \<Rightarrow> int \<Rightarrow> tax_state \<Rightarrow> bool" where
  "tax_inv pay n s = (0 \<le> n \<and> n < 2 ^ 31 \<and> 0 \<le> tx_i s \<and> tx_i s \<le> n \<and> tx_tail s = of_int (tx_j s) \<and>
     tx_head s = of_int (if tx_main s = TWait then tx_i s + 1 else tx_i s) \<and>
     (case tx_main s of
        TLoop \<Rightarrow> tx_j s = tx_i s \<and> tx_cons s \<in> {KWait, KReturned}
      | TCommit \<Rightarrow> pay \<and> tx_j s = tx_i s \<and> tx_i s < n \<and> tx_payload s = of_int (tx_i s) \<and> tx_cons s = KWait
      | TWait \<Rightarrow> tx_i s < n \<and>
          (tx_j s = tx_i s \<and> tx_cons s \<noteq> KReturned \<and> (pay \<longrightarrow> tx_payload s = of_int (tx_i s)) \<or>
           tx_j s = tx_i s + 1 \<and> tx_cons s \<in> {KWait, KReturned})
      | TJoin \<Rightarrow> tx_i s = n \<and> tx_j s = n \<and> tx_cons s \<in> {KWait, KReturned}
      | TReturned \<Rightarrow> tx_i s = n \<and> tx_j s = n \<and> tx_cons s = KReturned) \<and>
     (tx_cons s = KReturned \<longrightarrow> tx_j s = n) \<and> (tx_cons s = KRead \<longrightarrow> pay) \<and>
     tx_seen s = (if pay then map (of_int \<circ> int) [0..<nat (tx_j s) + (if tx_cons s = KStore then 1 else 0)] else []))"

fun main_left :: "int \<Rightarrow> tax_pc \<Rightarrow> int \<Rightarrow> nat" where
  "main_left n TLoop i = 3 * nat (n - i) + 2"
| "main_left n TCommit i = 3 * nat (n - i) + 1"
| "main_left n TWait i = 3 * nat (n - i)"
| "main_left n TJoin i = 1"
| "main_left n TReturned i = 0"

fun consumer_left :: "int \<Rightarrow> tax_cons_pc \<Rightarrow> int \<Rightarrow> nat" where
  "consumer_left n KWait j = 3 * nat (n - j) + 1"
| "consumer_left n KRead j = 3 * nat (n - j)"
| "consumer_left n KStore j = 3 * nat (n - j) - 1"
| "consumer_left n KReturned j = 0"

definition tax_left :: "int \<Rightarrow> tax_state \<Rightarrow> nat" where
  "tax_left n s = main_left n (tx_main s) (tx_i s) + consumer_left n (tx_cons s) (tx_j s)"

lemma of_int_less_64: "0 \<le> a \<Longrightarrow> a < 2 ^ 32 \<Longrightarrow> 0 \<le> b \<Longrightarrow> b < 2 ^ 32 \<Longrightarrow> (of_int a :: u64) < of_int b \<longleftrightarrow> a < b"
proof -
  assume "0 \<le> a" "a < 2 ^ 32" "0 \<le> b" "b < 2 ^ 32"
  then have "uint (of_int a :: u64) = a" "uint (of_int b :: u64) = b" by (simp_all add: uint_word_of_int mod_pos_pos_trivial)
  then show ?thesis by (simp add: word_less_def)
qed

lemmas tax_defs = mode_b_step_def mode_c_step_def mode_b_main_def mode_c_main_def poll_consumer_thread_def ring_consumer_thread_def
  tax_commit_def tax_wait_def tax_join_def

lemma tax_guard: "0 \<le> i \<Longrightarrow> i \<le> n \<Longrightarrow> n < 2 ^ 31 \<Longrightarrow> 0 \<le> j \<Longrightarrow> j \<le> n \<Longrightarrow> (of_int i :: u64) < of_int (j + 1) \<longleftrightarrow> i < j + 1"
  by (intro of_int_less_64) simp_all

lemma tax_bounds:
  assumes "tax_inv pay n s"
  shows "0 \<le> n" "n < 2 ^ 31" "0 \<le> tx_j s" "tx_j s \<le> n" "0 \<le> tx_i s" "tx_i s \<le> n" "tx_tail s = of_int (tx_j s)"
    "tx_head s = of_int (if tx_main s = TWait then tx_i s + 1 else tx_i s)"
  using assms by (auto simp: tax_inv_def split: tax_pc.splits)

text \<open>What the two loads of the loops see.\<close>

lemma tax_loads:
  assumes "tax_inv pay n s"
  shows "tx_main s = TWait \<Longrightarrow> tx_tail s < of_int (tx_i s + 1) \<longleftrightarrow> tx_j s = tx_i s"
    "tx_j s < n \<Longrightarrow> tx_head s < of_int (tx_j s + 1) \<longleftrightarrow> tx_main s \<noteq> TWait \<or> tx_j s \<noteq> tx_i s"
proof -
  note b = tax_bounds[OF assms]
  have rel: "tx_j s = tx_i s \<or> tx_main s = TWait \<and> tx_j s = tx_i s + 1" using assms by (auto simp: tax_inv_def split: tax_pc.splits)
  show "tx_main s = TWait \<Longrightarrow> tx_tail s < of_int (tx_i s + 1) \<longleftrightarrow> tx_j s = tx_i s"
    using b rel of_int_less_64[of "tx_j s" "tx_i s + 1"] by (auto simp del: of_int_add)
  show "tx_j s < n \<Longrightarrow> tx_head s < of_int (tx_j s + 1) \<longleftrightarrow> tx_main s \<noteq> TWait \<or> tx_j s \<noteq> tx_i s"
    unfolding b(8) using b rel of_int_less_64[of "if tx_main s = TWait then tx_i s + 1 else tx_i s" "tx_j s + 1"]
    by (auto simp del: of_int_add)
qed

lemma mode_c_main_inv:
  assumes "tax_inv True n s"
  shows "tax_inv True n (mode_c_main n s)"
  using assms tax_loads(1)[OF assms] by (cases "tx_main s"; cases "tx_cons s") (auto simp: tax_defs tax_inv_def simp del: of_int_add)

lemma ring_consumer_inv:
  assumes "tax_inv True n s"
  shows "tax_inv True n (ring_consumer_thread n s)"
  using assms tax_loads(2)[OF assms]
  by (cases "tx_main s"; cases "tx_cons s") (auto simp: tax_defs tax_inv_def nat_add_distrib simp del: of_int_add)

lemma mode_b_main_inv:
  assumes "tax_inv False n s"
  shows "tax_inv False n (mode_b_main n s)"
  using assms tax_loads(1)[OF assms] by (cases "tx_main s"; cases "tx_cons s") (auto simp: tax_defs tax_inv_def simp del: of_int_add)

lemma poll_consumer_inv:
  assumes "tax_inv False n s"
  shows "tax_inv False n (poll_consumer_thread n s)"
  using assms tax_loads(2)[OF assms]
  by (cases "tx_main s"; cases "tx_cons s") (auto simp: tax_defs tax_inv_def nat_add_distrib simp del: of_int_add)

lemma tax_main_left:
  assumes "tax_inv pay n s" "main n s \<noteq> s" "main \<in> {mode_b_main, mode_c_main}"
  shows "tax_left n (main n s) < tax_left n s"
proof -
  have same: "tx_cons (main n s) = tx_cons s" "tx_j (main n s) = tx_j s"
    using assms(3) by (auto simp: tax_defs split: tax_pc.split)
  have lt: "tx_main s = TWait \<Longrightarrow> tx_i s < n" using assms(1) by (simp add: tax_inv_def)
  show ?thesis
    unfolding tax_left_def same using assms(2,3) lt
    by (cases "tx_main s") (auto simp: tax_defs split: if_splits)
qed

lemma tax_consumer_left:
  assumes "tax_inv pay n s" "consumer n s \<noteq> s" "consumer \<in> {poll_consumer_thread, ring_consumer_thread}"
  shows "tax_left n (consumer n s) < tax_left n s"
proof -
  have "tx_cons s \<in> {KRead, KStore} \<Longrightarrow> tx_j s < n" using assms(1) by (auto simp: tax_inv_def split: tax_pc.splits)
  moreover have same: "tx_main (consumer n s) = tx_main s" "tx_i (consumer n s) = tx_i s"
    using assms(3) by (auto simp: tax_defs split: tax_cons_pc.split)
  ultimately show ?thesis
    unfolding tax_left_def same using assms(2,3) by (cases "tx_cons s") (auto simp: tax_defs split: if_splits)
qed

lemma tax_alive:
  assumes "tax_inv pay n s" "0 < tax_left n s" "(main, consumer) = (if pay then (mode_c_main, ring_consumer_thread) else (mode_b_main, poll_consumer_thread))"
  shows "tx_main (main n s) \<noteq> tx_main s \<or> tx_cons (consumer n s) \<noteq> tx_cons s"
  using assms tax_loads[OF assms(1)]
  by (cases "tx_main s"; cases "tx_cons s"; cases pay)
    (auto simp: tax_defs tax_inv_def tax_left_def simp del: of_int_add)

interpretation mode_b: fair_threads UNIV "mode_b_step n" "tax_inv False n" "tax_left n" for n
proof
  fix s t assume inv: "tax_inv False n s"
  show "tax_inv False n (mode_b_step n t s)"
    using mode_b_main_inv[OF inv] poll_consumer_inv[OF inv] by (cases t) (simp_all add: mode_b_step_def)
  show "tax_left n (mode_b_step n t s) < tax_left n s" if "mode_b_step n t s \<noteq> s"
    using tax_main_left[OF inv, of mode_b_main] tax_consumer_left[OF inv, of poll_consumer_thread] that
    by (cases t) (simp_all add: mode_b_step_def)
  show "\<exists>t \<in> UNIV. mode_b_step n t s \<noteq> s" if "0 < tax_left n s"
  proof -
    have "mode_b_step n Main s \<noteq> s \<or> mode_b_step n Consumer s \<noteq> s"
      using tax_alive[OF inv that, of mode_b_main poll_consumer_thread] by (auto simp: mode_b_step_def)
    then show ?thesis by blast
  qed
qed

interpretation mode_c: fair_threads UNIV "mode_c_step n" "tax_inv True n" "tax_left n" for n
proof
  fix s t assume inv: "tax_inv True n s"
  show "tax_inv True n (mode_c_step n t s)"
    using mode_c_main_inv[OF inv] ring_consumer_inv[OF inv] by (cases t) (simp_all add: mode_c_step_def)
  show "tax_left n (mode_c_step n t s) < tax_left n s" if "mode_c_step n t s \<noteq> s"
    using tax_main_left[OF inv, of mode_c_main] tax_consumer_left[OF inv, of ring_consumer_thread] that
    by (cases t) (simp_all add: mode_c_step_def)
  show "\<exists>t \<in> UNIV. mode_c_step n t s \<noteq> s" if "0 < tax_left n s"
  proof -
    have "mode_c_step n Main s \<noteq> s \<or> mode_c_step n Consumer s \<noteq> s"
      using tax_alive[OF inv that, of mode_c_main ring_consumer_thread] by (auto simp: mode_c_step_def)
    then show ?thesis by blast
  qed
qed

lemma tax_start: "0 \<le> n \<Longrightarrow> n < 2 ^ 31 \<Longrightarrow> tax_inv pay n tax_init \<and> tax_left n tax_init = 6 * nat n + 3"
  by (simp add: tax_inv_def tax_init_def tax_left_def)

lemma tax_finished: "tax_left n s = 0 \<Longrightarrow> tax_inv pay n s \<Longrightarrow> tx_main s = TReturned \<and> tx_cons s = KReturned"
  by (cases "tx_main s"; cases "tx_cons s") (auto simp: tax_left_def tax_inv_def)

lemma mode_a_step: "mode_a_loop ((w_ok, r_ok) # oks) 0 1 = (if w_ok \<and> r_ok then mode_a_loop oks 0 1 else (TaxFailed, 1))"
  by (simp add: word_less_nat_alt)

section \<open>Properties\<close>

text \<open>
  Mode A never blocks: the value written is always 1, it is what the next \<open>read\<close> returns, and the mode fails exactly when a
  system call does.
\<close>

theorem mode_a_exact:
  "bench_mode_a efd_ok oks n =
     (if efd_ok \<and> (\<forall>i < nat n. oks i = (True, True)) then (TaxDone, 1) else (TaxFailed, if efd_ok then 1 else 0))"
proof -
  have "mode_a_loop xs 0 1 = (if \<forall>x \<in> set xs. x = (True, True) then (TaxDone, 1) else (TaxFailed, 1))" for xs
    by (induction xs) (auto simp: mode_a_step simp del: mode_a_loop.simps(2) split: if_splits)
  then show ?thesis by (auto simp: bench_mode_a_def)
qed

text \<open>
  Modes B and C pass each round through the other thread exactly once. Under every schedule the consumer has
  answered the rounds \<open>main\<close> has finished and at most the current one, and the payloads the consumer of mode C reads are 0, 1, 2, \<dots> in order, none stale and none twice;
  \<open>6 n + 3\<close> rounds of any fair schedule end both modes, with all \<open>n\<close> rounds answered.
\<close>

theorem control_tax_round_trips:
  assumes "0 \<le> n" and "n < 2 ^ 31" and "bench_mode_b True True n sched = Some b" and "bench_mode_c True True n sched = Some c"
  shows "tx_i b \<le> tx_j b \<and> tx_j b \<le> tx_i b + 1 \<and> tx_i c \<le> tx_j c \<and> tx_j c \<le> tx_i c + 1 \<and>
    tx_seen c = map (of_int \<circ> int) [0..<length (tx_seen c)] \<and> int (length (tx_seen c)) \<in> {tx_j c, tx_j c + 1} \<and>
    (\<forall>rounds. sched = concat rounds \<and> rounds_of UNIV rounds \<and> 6 * nat n + 3 \<le> length rounds \<longrightarrow>
       tx_main b = TReturned \<and> tx_j b = n \<and> tx_main c = TReturned \<and> tx_j c = n \<and> length (tx_seen c) = nat n)"
proof -
  have runs: "b = fold (mode_b_step n) sched tax_init" "c = fold (mode_c_step n) sched tax_init"
    using assms(3,4) by (simp_all add: bench_mode_b_def bench_mode_c_def)
  note start = tax_start[OF assms(1,2), THEN conjunct1] and work = tax_start[OF assms(1,2), THEN conjunct2]
  have inv: "tax_inv False n b" "tax_inv True n c"
    unfolding runs by (rule mode_b.inv_run[OF start], rule mode_c.inv_run[OF start])
  have rel: "tx_i s \<le> tx_j s" "tx_j s \<le> tx_i s + 1" "0 \<le> tx_j s" if "tax_inv pay n s" for pay s
    using that by (auto simp: tax_inv_def split: tax_pc.splits)
  have seen: "tx_seen c = map (of_int \<circ> int) [0..<nat (tx_j c) + (if tx_cons c = KStore then 1 else 0)]" using inv(2) by (simp add: tax_inv_def)
  have fin: "tx_main s = TReturned \<and> tx_j s = n \<and> tx_cons s = KReturned" if "tax_left n s = 0" "tax_inv pay n s" for pay s
    using tax_finished[OF that] that(2) by (simp add: tax_inv_def)
  have "tax_left n b = 0 \<and> tax_left n c = 0" if "sched = concat rounds" "rounds_of UNIV rounds" "6 * nat n + 3 \<le> length rounds" for rounds
    unfolding runs that(1)
    using mode_b.fair_run_finishes[OF start that(2)] mode_c.fair_run_finishes[OF start that(2)] work that(3) by simp
  moreover have "tx_main b = TReturned \<and> tx_j b = n \<and> tx_main c = TReturned \<and> tx_j c = n \<and> length (tx_seen c) = nat n"
    if "tax_left n b = 0 \<and> tax_left n c = 0"
    using fin[OF _ inv(1)] fin[OF _ inv(2)] that by (simp add: seen)
  ultimately have "\<forall>rounds. sched = concat rounds \<and> rounds_of UNIV rounds \<and> 6 * nat n + 3 \<le> length rounds \<longrightarrow>
       tx_main b = TReturned \<and> tx_j b = n \<and> tx_main c = TReturned \<and> tx_j c = n \<and> length (tx_seen c) = nat n"
    by blast
  moreover have "tx_seen c = map (of_int \<circ> int) [0..<length (tx_seen c)] \<and> int (length (tx_seen c)) \<in> {tx_j c, tx_j c + 1}"
    unfolding seen using rel(3)[OF inv(2)] by simp
  ultimately show ?thesis using rel[OF inv(1)] rel[OF inv(2)] by simp
qed

theorem control_tax_round_trips_witness:
  "\<exists>c. bench_mode_c True True 1 (concat (replicate 9 [Consumer, Main])) = Some c \<and> tx_main c = TReturned \<and> length (tx_seen c) = 1"
proof -
  obtain b c where runs: "bench_mode_b True True 1 (concat (replicate 9 [Consumer, Main])) = Some b"
      "bench_mode_c True True 1 (concat (replicate 9 [Consumer, Main])) = Some c"
    by (simp add: bench_mode_b_def bench_mode_c_def)
  have "rounds_of UNIV (replicate 9 [Consumer, Main])" using tax_thread.exhaust by (auto simp: rounds_of_def)
  with control_tax_round_trips[OF _ _ runs] runs(2) show ?thesis by auto
qed

end
