(* ===== verification/Command_Line.thy ===== *)
theory Command_Line
  imports Prelude
begin

text \<open>
  What the programs read from their command line: \<open>atoi\<close>, \<open>atol\<close> and \<open>strtoul\<close> of the C library in base ten. The value of \<open>atoi\<close> and
  \<open>atol\<close> is undefined when it does not fit the type (\<open>None\<close>); \<open>strtoul\<close> saturates. \<open>decimal\<close> writes the numbers they read.
\<close>

section \<open>The library\<close>

definition isspace :: "char \<Rightarrow> bool" where
  "isspace c \<longleftrightarrow> (let n = of_char c :: nat in n = 32 \<or> 9 \<le> n \<and> n \<le> 13)"

definition isdigit :: "char \<Rightarrow> bool" where
  "isdigit c \<longleftrightarrow> (let n = of_char c :: nat in 48 \<le> n \<and> n \<le> 57)"

fun read_digits :: "nat \<Rightarrow> string \<Rightarrow> nat" where
  "read_digits acc [] = acc"
| "read_digits acc (c # s) = (if isdigit c then read_digits (10 * acc + (of_char c - 48)) s else acc)"

text \<open>Sign and magnitude: white space, an optional sign and the longest run of digits.\<close>

definition strto_subject :: "string \<Rightarrow> bool \<times> nat" where
  "strto_subject s =
     (case dropWhile isspace s of
        [] \<Rightarrow> (False, 0)
      | c # s \<Rightarrow> if c = CHR ''-'' then (True, read_digits 0 s)
                 else if c = CHR ''+'' then (False, read_digits 0 s)
                 else (False, read_digits 0 (c # s)))"

definition strto_int :: "string \<Rightarrow> int" where
  "strto_int s = (case strto_subject s of (neg, n) \<Rightarrow> if neg then - int n else int n)"

definition atoi :: "string \<Rightarrow> int option" where
  "atoi s = (let n = strto_int s in if - (2 ^ 31) \<le> n \<and> n < 2 ^ 31 then Some n else None)"

definition atol :: "string \<Rightarrow> int option" where
  "atol s = (let n = strto_int s in if - (2 ^ 63) \<le> n \<and> n < 2 ^ 63 then Some n else None)"

definition strtoul :: "string \<Rightarrow> u64" where
  "strtoul s =
     (case strto_subject s of (neg, n) \<Rightarrow>
        if n \<ge> 2 ^ 64 then - 1 else if neg then - of_nat n else of_nat n)"

section \<open>Reading back what is written\<close>

definition digit :: "nat \<Rightarrow> char" where
  "digit n = char_of (48 + n)"

fun decimal_nat :: "nat \<Rightarrow> string" where
  "decimal_nat n = (if n < 10 then [digit n] else decimal_nat (n div 10) @ [digit (n mod 10)])"

declare decimal_nat.simps [simp del]

definition decimal :: "int \<Rightarrow> string" where
  "decimal n = (if n < 0 then CHR ''-'' # decimal_nat (nat (- n)) else decimal_nat (nat n))"

lemma of_char_digit [simp]: "n < 10 \<Longrightarrow> (of_char (digit n) :: nat) = 48 + n"
  by (simp add: digit_def)

lemma isdigit_digit [simp]: "n < 10 \<Longrightarrow> isdigit (digit n)"
  by (simp add: isdigit_def)

lemma isdigit_other: "isdigit c \<Longrightarrow> \<not> isspace c \<and> c \<noteq> CHR ''-'' \<and> c \<noteq> CHR ''+''"
  by (auto simp: isdigit_def isspace_def Let_def)

lemma decimal_nat_digits: "\<forall>c \<in> set (decimal_nat n). isdigit c"
proof (induction n rule: decimal_nat.induct)
  case (1 n)
  then show ?case by (subst decimal_nat.simps) auto
qed

lemma decimal_nat_nonempty: "decimal_nat n \<noteq> []"
  by (subst decimal_nat.simps) simp

lemma read_digits_append:
  "\<forall>c \<in> set s. isdigit c \<Longrightarrow> read_digits acc (s @ t) = read_digits (read_digits acc s) t"
  by (induction s arbitrary: acc) simp_all

lemma read_decimal_nat: "read_digits 0 (decimal_nat n) = n"
proof (induction n rule: decimal_nat.induct)
  case (1 n)
  then show ?case
    by (subst decimal_nat.simps) (simp add: read_digits_append decimal_nat_digits)
qed

lemma strto_decimal: "strto_subject (decimal n) = (n < 0, nat \<bar>n\<bar>)"
proof (cases "n < 0")
  case True
  then show ?thesis by (simp add: strto_subject_def decimal_def isspace_def read_decimal_nat)
next
  case False
  obtain c s where d: "decimal_nat (nat n) = c # s" using decimal_nat_nonempty by (cases "decimal_nat (nat n)") auto
  then have "isdigit c" using decimal_nat_digits[of "nat n"] by simp
  then show ?thesis using False d read_decimal_nat[of "nat n"] isdigit_other[of c] by (simp add: strto_subject_def decimal_def)
qed

lemma atoi_decimal: "- (2 ^ 31) \<le> n \<Longrightarrow> n < 2 ^ 31 \<Longrightarrow> atoi (decimal n) = Some n"
  by (simp add: atoi_def strto_int_def strto_decimal)

lemma atol_decimal: "- (2 ^ 63) \<le> n \<Longrightarrow> n < 2 ^ 63 \<Longrightarrow> atol (decimal n) = Some n"
  by (simp add: atol_def strto_int_def strto_decimal)

lemma strtoul_decimal:
  assumes "- (2 ^ 64) < n" "n < 2 ^ 64"
  shows "strtoul (decimal n) = of_int n"
proof -
  have "\<not> nat \<bar>n\<bar> \<ge> 2 ^ 64" using assms by (simp add: nat_le_eq_zle nat_less_iff not_le abs_less_iff)
  then have "strtoul (decimal n) = (if n < 0 then - of_nat (nat \<bar>n\<bar>) else of_nat (nat \<bar>n\<bar>))"
    by (simp only: strtoul_def strto_decimal prod.case if_False)
  also have "\<dots> = of_int n" by (cases "n < 0") (simp_all add: of_nat_nat)
  finally show ?thesis .
qed

end
