(* ===== verification/Bench_Prefetch.thy ===== *)
theory Bench_Prefetch
  imports Prefetch Command_Line
begin

text \<open>
  The staging benchmark, \<^verbatim>\<open>bench/bench_prefetch.cu\<close>: two kernels that copy KV blocks through shared memory, byte by byte and with
  \<open>cp.async\<close>. A thread block is one warp; the order in which its lanes' chunks land and the order of the thread blocks are arguments.
  Events and times are not modelled.
\<close>

section \<open>The kernels\<close>

definition kStageBytes :: nat where "kStageBytes = unat KV_BLOCK_SIZE"

text \<open>
  The loop of a warp that copies \<open>kStageBytes\<close> bytes one by one to offset \<open>dst\<close> of a buffer. The bound is the constant 16384, so the 32-bit
  offsets do not wrap and are natural numbers here.
\<close>

definition copy_bytes :: "(nat list \<Rightarrow> nat list) \<Rightarrow> (nat \<Rightarrow> u8) \<Rightarrow> nat \<Rightarrow> u8 list \<Rightarrow> u8 list" where
  "copy_bytes order src dst buf = foldl (copy_chunk src dst 1) buf (order (concat (map (\<lambda>lane. strided lane 32 kStageBytes) [0..<32])))"

record lane_orders =
  lo_stage :: "nat list \<Rightarrow> nat list"
  lo_sink :: "nat list \<Rightarrow> nat list"

definition baseline_prefetch_kernel :: "lane_orders \<Rightarrow> u8 list \<Rightarrow> u32 \<Rightarrow> u8 list \<Rightarrow> u32 \<Rightarrow> u8 list \<Rightarrow> u8 list" where
  "baseline_prefetch_kernel ord src blocks smem block_idx sink =
     (if block_idx \<ge> blocks then sink
      else let base = unat block_idx * kStageBytes;
               block_dst = copy_bytes (lo_stage ord) (\<lambda>i. src ! (base + i)) 0 smem
           in copy_bytes (lo_sink ord) (\<lambda>i. block_dst ! i) base sink)"

text \<open>\<open>cp_async\<close>: whether the build has the instruction.\<close>

definition prefetch_copy_async :: "bool \<Rightarrow> (nat list \<Rightarrow> nat list) \<Rightarrow> (nat \<Rightarrow> u8) \<Rightarrow> u8 list \<Rightarrow> u8 list" where
  "prefetch_copy_async cp_async order src smem =
     (if cp_async
      then foldl (copy_chunk src 0 (unat PREFETCH_CHUNK_BYTES)) smem
             (order (concat (map (\<lambda>lane. strided (lane * unat PREFETCH_CHUNK_BYTES) (32 * unat PREFETCH_CHUNK_BYTES) kStageBytes) [0..<32])))
      else copy_bytes order src 0 smem)"

definition cp_async_prefetch_kernel :: "bool \<Rightarrow> lane_orders \<Rightarrow> u8 list \<Rightarrow> u32 \<Rightarrow> u8 list \<Rightarrow> u32 \<Rightarrow> u8 list \<Rightarrow> u8 list" where
  "cp_async_prefetch_kernel cp_async ord src blocks smem block_idx sink =
     (if block_idx \<ge> blocks then sink
      else let base = unat block_idx * kStageBytes;
               stage_ptr = prefetch_copy_async cp_async (lo_stage ord) (\<lambda>i. src ! (base + i)) smem
           in copy_bytes (lo_sink ord) (\<lambda>i. stage_ptr ! i) base sink)"

text \<open>A launch: the thread blocks of the grid in some order, each with its own shared memory and lane orders.\<close>

definition launch :: "(u32 \<Rightarrow> u8 list \<Rightarrow> u8 list) \<Rightarrow> u32 list \<Rightarrow> u8 list \<Rightarrow> u8 list" where
  "launch kern grid sink = fold kern grid sink"

text \<open>
  \<open>main\<close>: the warm-up rounds of both kernels, then the measured launches of each. \<open>checks\<close> are the results of the checked calls in
  program order; the first that fails ends the program with status 1. \<open>grid\<close> is the order of the thread blocks of a launch.
\<close>

definition kDefaultBlocks :: u32 where "kDefaultBlocks = 4096"
definition kWarmupIters :: nat where "kWarmupIters = 10"
definition kMeasureIters :: nat where "kMeasureIters = 50"

definition prefetch_blocks :: "string list \<Rightarrow> u32" where
  "prefetch_blocks argv = (case argv of [] \<Rightarrow> kDefaultBlocks | a # _ \<Rightarrow> ucast (strtoul a))"

definition bench_prefetch_main ::
  "bool \<Rightarrow> lane_orders \<Rightarrow> u8 list \<Rightarrow> (u32 \<Rightarrow> u32 list) \<Rightarrow> string list \<Rightarrow> bool list \<Rightarrow> int \<times> u8 list option" where
  "bench_prefetch_main cp_async ord smem grid argv checks =
     (let blocks = prefetch_blocks argv;
          total_bytes = unat blocks * kStageBytes;
          src = replicate total_bytes 0x5A;
          sink = replicate total_bytes 0;
          baseline = launch (baseline_prefetch_kernel ord src blocks smem) (grid blocks);
          async = launch (cp_async_prefetch_kernel cp_async ord src blocks smem) (grid blocks);
          sink = ((async \<circ> baseline) ^^ kWarmupIters) sink;
          sink = (baseline ^^ kMeasureIters) sink;
          sink = (async ^^ kMeasureIters) sink
      in if False \<in> set checks then (1, None) else (0, Some sink))"

section \<open>What a launch does\<close>

abbreviation any_order :: "(nat list \<Rightarrow> nat list) \<Rightarrow> bool" where
  "any_order order \<equiv> \<forall>xs. set (order xs) = set xs"

lemma kStageBytes_eq: "kStageBytes = 16384"
  by (simp add: kStageBytes_def KV_BLOCK_SIZE_def)

lemma copy_bytes_copies:
  assumes "any_order order" "dst + kStageBytes \<le> length buf"
  shows "copy_bytes order src dst buf = take dst buf @ map src [0..<kStageBytes] @ drop (dst + kStageBytes) buf"
  using copy_warp_chunks [of 1 "order (warp_chunks 1 kStageBytes)" kStageBytes dst buf src] assms
  by (simp add: copy_bytes_def warp_chunks_def covered_dvd)

lemma copy_async_copies:
  assumes "any_order order" "kStageBytes \<le> length buf"
  shows "prefetch_copy_async cp order src buf = map src [0..<kStageBytes] @ drop kStageBytes buf"
proof (cases cp)
  case True
  have "covered 16 kStageBytes = kStageBytes" by (rule covered_dvd) (simp_all add: kStageBytes_eq)
  then show ?thesis
    using True copy_warp_chunks [of 16 "order (warp_chunks 16 kStageBytes)" kStageBytes 0 buf src] assms
    by (simp add: prefetch_copy_async_def PREFETCH_CHUNK_BYTES_def warp_chunks_def)
qed (use copy_bytes_copies [OF assms(1), of 0] assms(2) in \<open>simp add: prefetch_copy_async_def\<close>)

definition copy_block :: "u8 list \<Rightarrow> nat \<Rightarrow> u8 list \<Rightarrow> u8 list" where
  "copy_block src base sink = take base sink @ map (\<lambda>i. src ! (base + i)) [0..<kStageBytes] @ drop (base + kStageBytes) sink"

lemma kernels_copy_block:
  assumes "any_order (lo_stage ord)" "any_order (lo_sink ord)" "length smem = kStageBytes" "b < blocks"
    and "length sink = unat blocks * kStageBytes"
  shows "baseline_prefetch_kernel ord src blocks smem b sink = copy_block src (unat b * kStageBytes) sink"
    "cp_async_prefetch_kernel cp ord src blocks smem b sink = copy_block src (unat b * kStageBytes) sink"
proof -
  have "(unat b + 1) * kStageBytes \<le> unat blocks * kStageBytes" using assms(4) by (intro mult_right_mono) (simp_all add: word_less_nat_alt)
  then have fit: "unat b * kStageBytes + kStageBytes \<le> length sink" by (simp add: assms(5))
  have st: "copy_bytes (lo_stage ord) f 0 smem = map f [0..<kStageBytes]" "prefetch_copy_async cp (lo_stage ord) f smem = map f [0..<kStageBytes]" for f
    using copy_bytes_copies [OF assms(1), of 0 smem f] copy_async_copies [OF assms(1), of smem cp f] assms(3) by simp_all
  show "baseline_prefetch_kernel ord src blocks smem b sink = copy_block src (unat b * kStageBytes) sink"
    "cp_async_prefetch_kernel cp ord src blocks smem b sink = copy_block src (unat b * kStageBytes) sink"
    using assms(4) copy_bytes_copies [OF assms(2) fit]
    by (auto simp: baseline_prefetch_kernel_def cp_async_prefetch_kernel_def Let_def st copy_block_def intro!: map_cong)
qed

lemma length_copy_block: "base + kStageBytes \<le> length sink \<Longrightarrow> length (copy_block src base sink) = length sink"
  by (simp add: copy_block_def)

lemma nth_copy_block:
  assumes "base + kStageBytes \<le> length sink" "i < length sink"
  shows "copy_block src base sink ! i = (if base \<le> i \<and> i < base + kStageBytes then src ! i else sink ! i)"
  using assms by (auto simp: copy_block_def nth_append)

lemma block_fits: "b < blocks \<Longrightarrow> unat b * kStageBytes + kStageBytes \<le> unat blocks * kStageBytes"
  using mult_le_mono1[of "Suc (unat b)" "unat blocks" kStageBytes] by (simp add: word_less_nat_alt)

lemma launch_copies:
  assumes "\<And>b sink. b < blocks \<Longrightarrow> length sink = unat blocks * kStageBytes \<Longrightarrow> kern b sink = copy_block src (unat b * kStageBytes) sink"
    and "length sink = unat blocks * kStageBytes" "set grid \<subseteq> {b. b < blocks}"
  shows "length (launch kern grid sink) = length sink \<and>
    (\<forall>i < length sink. launch kern grid sink ! i = (if \<exists>b \<in> set grid. i div kStageBytes = unat b then src ! i else sink ! i))"
  using assms(2,3)
proof (induction grid arbitrary: sink)
  case (Cons b grid)
  then have b: "b < blocks" and fit: "unat b * kStageBytes + kStageBytes \<le> length sink" using block_fits[of b blocks] by auto
  let ?sink = "copy_block src (unat b * kStageBytes) sink"
  have len: "length ?sink = length sink" by (rule length_copy_block[OF fit])
  have "launch kern (b # grid) sink = launch kern grid ?sink" using assms(1)[OF b Cons.prems(1)] by (simp add: launch_def)
  moreover have "unat b * kStageBytes \<le> i \<and> i < unat b * kStageBytes + kStageBytes \<longleftrightarrow> i div kStageBytes = unat b" for i
    unfolding kStageBytes_eq by (auto simp: div_nat_eqI)
  ultimately show ?case
    using Cons.IH[of ?sink] Cons.prems len nth_copy_block[OF fit, of _ src] by auto
qed (simp add: launch_def)

text \<open>A launch over the whole grid leaves a copy of the source.\<close>

lemma launch_full:
  assumes "\<And>b sink. b < blocks \<Longrightarrow> length sink = unat blocks * kStageBytes \<Longrightarrow> kern b sink = copy_block src (unat b * kStageBytes) sink"
    and "length sink = unat blocks * kStageBytes" "length src = unat blocks * kStageBytes" "set grid = {b. b < blocks}"
  shows "launch kern grid sink = src"
proof (rule nth_equalityI)
  note l = launch_copies[OF assms(1,2), of grid]
  show "length (launch kern grid sink) = length src" using l assms(2-4) by simp
  fix i assume "i < length (launch kern grid sink)"
  then have i: "i < length sink" using l assms(4) by simp
  then have "i div kStageBytes < unat blocks" using assms(2) by (simp add: less_mult_imp_div_less)
  then have "of_nat (i div kStageBytes) < blocks" "unat (of_nat (i div kStageBytes) :: u32) = i div kStageBytes"
    using unat_lt32[of blocks] by (simp_all add: word_less_nat_alt unat_of_nat)
  then have "\<exists>b \<in> set grid. i div kStageBytes = unat b" unfolding assms(4) by (intro bexI[of _ "of_nat (i div kStageBytes)"]) auto
  then show "launch kern grid sink ! i = src ! i" using l i assms(4) by simp
qed

section \<open>Properties\<close>

text \<open>
  The two kernels compute the same thing. Whatever the order of the thread blocks, of the lanes and of their chunks, whatever shared
  memory held before, and in both builds, a launch over \<open>blocks\<close> blocks leaves in the sink an exact copy of the
  source. The whole benchmark therefore ends with the pattern of the source in the sink, for the number of blocks on its command line,
  unless a checked call fails.
\<close>

theorem prefetch_kernels_agree:
  fixes blocks :: u32
  assumes "any_order (lo_stage ord)" and "any_order (lo_sink ord)" and "length smem = kStageBytes" and "set (grid blocks) = {b. b < blocks}"
    and "length src = unat blocks * kStageBytes" and "length sink = unat blocks * kStageBytes" and "prefetch_blocks argv = blocks"
  shows "launch (baseline_prefetch_kernel ord src blocks smem) (grid blocks) sink = src \<and>
    launch (cp_async_prefetch_kernel cp_async ord src blocks smem) (grid blocks) sink = src \<and>
    bench_prefetch_main cp_async ord smem grid argv checks =
      (if False \<in> set checks then (1, None) else (0, Some (replicate (unat blocks * kStageBytes) 0x5A)))"
proof -
  have base: "launch (baseline_prefetch_kernel ord src blocks smem) (grid blocks) sink = src"
    if "length src = unat blocks * kStageBytes" "length sink = unat blocks * kStageBytes" for src sink
    by (rule launch_full[OF kernels_copy_block(1)[OF assms(1-3)] that(2,1) assms(4)])
  have async: "launch (cp_async_prefetch_kernel cp_async ord src blocks smem) (grid blocks) sink = src"
    if "length src = unat blocks * kStageBytes" "length sink = unat blocks * kStageBytes" for src sink
    by (rule launch_full[OF kernels_copy_block(2)[OF assms(1-3)] that(2,1) assms(4)])
  let ?src = "replicate (unat blocks * kStageBytes) (0x5A :: u8)"
  let ?b = "launch (baseline_prefetch_kernel ord ?src blocks smem) (grid blocks)"
    and ?a = "launch (cp_async_prefetch_kernel cp_async ord ?src blocks smem) (grid blocks)"
  have fixed: "?b x = ?src" "?a x = ?src" if "length x = unat blocks * kStageBytes" for x using base async that by simp_all
  have iter: "(f ^^ Suc k) x = ?src" if "\<And>x. length x = unat blocks * kStageBytes \<Longrightarrow> f x = ?src" "length x = unat blocks * kStageBytes"
    for f :: "u8 list \<Rightarrow> u8 list" and k x
    using that by (induction k) simp_all
  have "(?a ^^ kMeasureIters) ((?b ^^ kMeasureIters) (((?a \<circ> ?b) ^^ kWarmupIters) (replicate (unat blocks * kStageBytes) 0))) = ?src"
    using iter[of ?a _ 49] iter[of ?b _ 49] iter[of "?a \<circ> ?b" _ 9] fixed by (simp add: kMeasureIters_def kWarmupIters_def)
  then show ?thesis using base[OF assms(5,6)] async[OF assms(5,6)] by (simp add: bench_prefetch_main_def Let_def assms(7))
qed

theorem prefetch_kernels_agree_witness:
  "bench_prefetch_main True \<lparr>lo_stage = rev, lo_sink = id\<rparr> (replicate kStageBytes 9) (\<lambda>_. [0]) [decimal 1] [True] =
     (0, Some (replicate kStageBytes 0x5A))"
  using prefetch_kernels_agree[of "\<lparr>lo_stage = rev, lo_sink = id\<rparr>" "replicate kStageBytes 9" "\<lambda>_. [0]" 1 "replicate kStageBytes 3"
      "replicate kStageBytes 0" "[decimal 1]" True "[True]"]
  by (auto simp: word_less_1 prefetch_blocks_def strtoul_decimal)

end
