(* ===== verification/Bench_Microkernel.thy ===== *)
theory Bench_Microkernel
  imports Attention Command_Line
begin

text \<open>
  The microbenchmark of the decode step, \<^verbatim>\<open>bench/bench_decode_microkernel.cu\<close>: a fixed query and KV block, one warp, the same step
  again and again. The arithmetic is an argument, with the rounding to half precision apart; the events and the times are not modelled.
\<close>

section \<open>The program\<close>

text \<open>Numerators of the query (over 8), of the keys (over 32) and of the values (over 29).\<close>

definition mk_query_num :: "u32 \<Rightarrow> int" where
  "mk_query_num d = sint (d mod 17) - 8"

definition mk_key_num :: "u32 \<Rightarrow> u32 \<Rightarrow> int" where
  "mk_key_num t d = c_rem (sint ((t + 1) * (d mod 13 + 1))) 23 - 11"

definition mk_value_num :: "u32 \<Rightarrow> u32 \<Rightarrow> int" where
  "mk_value_num t d = c_rem (sint ((t + 3) * (d mod 11 + 5))) 29 - 14"

definition mk_const :: "'f attn_ops \<Rightarrow> ('f \<Rightarrow> 'f) \<Rightarrow> int \<Rightarrow> int \<Rightarrow> 'f" where
  "mk_const fl to_half num den = to_half (fl_div fl (fl_of_int fl num) (fl_of_int fl den))"

definition mk_query :: "'f attn_ops \<Rightarrow> ('f \<Rightarrow> 'f) \<Rightarrow> 'f list" where
  "mk_query fl to_half = map (\<lambda>d. mk_const fl to_half (mk_query_num (of_nat d)) 8) [0..<128]"

text \<open>The loops that fill the block, which \<open>malloc\<close> leaves with any contents.\<close>

definition mk_fill :: "'f attn_ops \<Rightarrow> ('f \<Rightarrow> 'f) \<Rightarrow> nat \<times> nat \<Rightarrow> 'f list \<Rightarrow> 'f list" where
  "mk_fill fl to_half td h_kv =
     (case td of (t, d) \<Rightarrow>
        h_kv[t * 128 + d := mk_const fl to_half (mk_key_num (of_nat t) (of_nat d)) 32,
             unat KV_LAYOUT_K_BYTES div 2 + t * 128 + d := mk_const fl to_half (mk_value_num (of_nat t) (of_nat d)) 29])"

definition mk_block :: "'f attn_ops \<Rightarrow> ('f \<Rightarrow> 'f) \<Rightarrow> 'f list \<Rightarrow> 'f list" where
  "mk_block fl to_half h_kv = fold (mk_fill fl to_half) (List.product [0..<32] [0..<128]) h_kv"

definition mk_seq_len :: "int \<Rightarrow> int" where
  "mk_seq_len seq_len =
     (let seq_len = (if seq_len < 1 then 1 else seq_len)
      in if seq_len > sint KV_LAYOUT_TOKENS_PER_BLOCK then sint KV_LAYOUT_TOKENS_PER_BLOCK else seq_len)"

definition mk_desc :: Descriptor where
  "mk_desc = Descriptor_zero\<lparr>ds_seq_id := 1, ds_kv_block_offset := 0, ds_num_kv_blocks := 1, ds_output_token_offset := 0\<rparr>"

text \<open>The device buffers the kernel writes; the four scalars have no value before the first launch.\<close>

record 'f mk_dev =
  mk_token :: "u32 option"
  mk_cycles :: "u64 option"
  mk_bytes :: "u32 option"
  mk_tiles :: "u32 option"
  mk_out :: "'f list"

definition bench_decode_kernel ::
  "'f attn_ops \<Rightarrow> 'f list \<Rightarrow> 'f list \<Rightarrow> 'f SampleState \<Rightarrow> Descriptor \<Rightarrow> u32 \<Rightarrow> 'f mk_dev \<Rightarrow> 'f mk_dev" where
  "bench_decode_kernel fl q_vec kv_block sample_st desc seq_len dev =
     (let args = \<lparr>da_q_ptr = Some q_vec, da_o_ptr = Some (mk_out dev), da_seq_len = seq_len, da_head_dim = DECODE_FIXED_HEAD_DIM,
                  da_kv_block_base_idx = ds_kv_block_offset desc, da_kv_block_count = 1,
                  da_output_token_offset = ds_output_token_offset desc\<rparr>;
          (result, out) = attention_decode_step_fixed128 fl desc (Some args) kv_block (Some sample_st)
      in \<lparr>mk_token = Some (dr_token_id result), mk_cycles = Some (dr_cycle_estimate result), mk_bytes = Some (dr_bytes_touched result),
          mk_tiles = Some (dr_tile_count result), mk_out = the out\<rparr>)"

text \<open>The sampling state, cleared by \<open>cudaMemset\<close>.\<close>

definition mk_sample :: "'f attn_ops \<Rightarrow> 'f SampleState" where
  "mk_sample fl = \<lparr>ss_rng_state = (0, 0, 0, 0), ss_temperature = fl_zero fl, ss_top_k = 0, ss_top_p = fl_zero fl, ss_vocab_size = 0\<rparr>"

text \<open>The options. An unknown word, and an option that is the last word, are skipped.\<close>

record mk_opts =
  mk_dev_id :: int
  mk_iters :: int
  mk_warmup :: int
  mk_seq :: int

fun mk_args :: "string list \<Rightarrow> mk_opts \<Rightarrow> mk_opts option" where
  "mk_args (a # v # argv) opts =
     (if a = ''--dev'' then Option.bind (atoi v) (\<lambda>n. mk_args argv (opts\<lparr>mk_dev_id := n\<rparr>))
      else if a = ''--iters'' then Option.bind (atoi v) (\<lambda>n. mk_args argv (opts\<lparr>mk_iters := n\<rparr>))
      else if a = ''--warmup'' then Option.bind (atoi v) (\<lambda>n. mk_args argv (opts\<lparr>mk_warmup := n\<rparr>))
      else if a = ''--seq-len'' then Option.bind (atoi v) (\<lambda>n. mk_args argv (opts\<lparr>mk_seq := n\<rparr>))
      else mk_args (v # argv) opts)"
| "mk_args _ opts = Some opts"

definition mk_defaults :: mk_opts where
  "mk_defaults = \<lparr>mk_dev_id = 0, mk_iters = 1000, mk_warmup = 100, mk_seq = 32\<rparr>"

text \<open>
  \<open>main\<close>: the final device buffers and the checksum, a sum in another type of float. \<open>None\<close> is a number that does not fit an \<open>int\<close>.
\<close>

definition bench_decode_main ::
  "'f attn_ops \<Rightarrow> ('f \<Rightarrow> 'f) \<Rightarrow> ('d \<Rightarrow> 'f \<Rightarrow> 'd) \<Rightarrow> 'd \<Rightarrow> 'f list \<Rightarrow> string list \<Rightarrow> ('f mk_dev \<times> 'd) option" where
  "bench_decode_main fl to_half add_double zero h_kv argv =
     (case mk_args argv mk_defaults of None \<Rightarrow> None | Some opts \<Rightarrow>
        let launch = bench_decode_kernel fl (mk_query fl to_half) (mk_block fl to_half h_kv) (mk_sample fl) mk_desc
              (of_int (mk_seq_len (mk_seq opts)));
            dev = \<lparr>mk_token = None, mk_cycles = None, mk_bytes = None, mk_tiles = None, mk_out = replicate 128 (fl_zero fl)\<rparr>;
            dev = (launch ^^ nat (mk_warmup opts)) dev;
            dev = (launch ^^ nat (mk_iters opts)) dev
        in Some (dev, foldl add_double zero (mk_out dev)))"

section \<open>The inputs\<close>

text \<open>Writes whose values are a function of the index.\<close>

lemma length_mk_fill [simp]: "length (mk_fill fl h td kv) = length kv"
  by (simp add: mk_fill_def split: prod.split)

lemma length_fold_fill [simp]: "length (fold (mk_fill fl h) tds kv) = length kv"
  by (induction tds arbitrary: kv) simp_all

definition mk_elem :: "'f attn_ops \<Rightarrow> ('f \<Rightarrow> 'f) \<Rightarrow> nat \<Rightarrow> 'f" where
  "mk_elem fl h i =
     (if i < 4096 then mk_const fl h (mk_key_num (of_nat (i div 128)) (of_nat (i mod 128))) 32
      else mk_const fl h (mk_value_num (of_nat ((i - 4096) div 128)) (of_nat ((i - 4096) mod 128))) 29)"

lemma nth_mk_fill:
  assumes "t < 32" "d < 128" "length kv = 8192" "i < 8192"
  shows "mk_fill fl h (t, d) kv ! i = (if i = t * 128 + d \<or> i = 4096 + t * 128 + d then mk_elem fl h i else kv ! i)"
proof -
  have "t * 128 + d < 4096" using assms(1,2) by linarith
  moreover have "(t * 128 + d) div 128 = t" "(t * 128 + d) mod 128 = d" using assms(2) by simp_all
  ultimately show ?thesis
    using assms by (auto simp: mk_fill_def mk_elem_def nth_list_update kv_layout_consts)
qed

lemma nth_fold_fill:
  assumes "\<forall>(t, d) \<in> set tds. t < 32 \<and> d < 128" "length kv = 8192" "i < 8192"
  shows "fold (mk_fill fl h) tds kv ! i =
    (if \<exists>(t, d) \<in> set tds. i = t * 128 + d \<or> i = 4096 + t * 128 + d then mk_elem fl h i else kv ! i)"
  using assms
proof (induction tds arbitrary: kv)
  case (Cons td tds)
  obtain t d where td: "td = (t, d)" by (cases td)
  have "mk_fill fl h (t, d) kv ! i = (if i = t * 128 + d \<or> i = 4096 + t * 128 + d then mk_elem fl h i else kv ! i)"
    using Cons.prems td by (intro nth_mk_fill) auto
  with Cons.IH[of "mk_fill fl h (t, d) kv"] Cons.prems td show ?case by auto
qed simp

lemma mk_block_elems:
  assumes "length kv = 8192"
  shows "mk_block fl h kv = map (mk_elem fl h) [0..<8192]"
proof (rule nth_equalityI)
  fix i assume "i < length (mk_block fl h kv)"
  then have i: "i < 8192" using assms by (simp add: mk_block_def)
  define j where "j = (if i < 4096 then i else i - 4096)"
  have j: "j < 4096" "i = j \<or> i = 4096 + j" using i by (auto simp: j_def)
  have "(j div 128, j mod 128) \<in> set (List.product [0..<32] [0..<128])" using j(1) by auto
  moreover have "j div 128 * 128 + j mod 128 = j" by simp
  then have "i = j div 128 * 128 + j mod 128 \<or> i = 4096 + j div 128 * 128 + j mod 128" using j(2) by (metis add.assoc)
  ultimately have "\<exists>(t, d) \<in> set (List.product [0..<32] [0..<128]). i = t * 128 + d \<or> i = 4096 + t * 128 + d" by blast
  moreover have "\<forall>(t, d) \<in> set (List.product [0..<32] [0..<128]). t < 32 \<and> d < 128" by auto
  ultimately show "mk_block fl h kv ! i = map (mk_elem fl h) [0..<8192] ! i"
    using nth_fold_fill[OF _ assms i, of "List.product [0..<32] [0..<128]" fl h] i by (simp add: mk_block_def)
qed (simp add: mk_block_def assms)

lemma mk_seq_len_bounds: "1 \<le> mk_seq_len n" "mk_seq_len n \<le> 32" "1 \<le> n \<Longrightarrow> n \<le> 32 \<Longrightarrow> mk_seq_len n = n"
  by (simp_all add: mk_seq_len_def Let_def kv_layout_consts)

section \<open>The kernel\<close>

text \<open>A launch does not read what the buffers held, so that all launches after the first change nothing.\<close>

lemma kernel_ignores_buffers:
  "bench_decode_kernel fl q kv st desc n dev = bench_decode_kernel fl q kv st desc n dev'"
  by (simp add: bench_decode_kernel_def attention_decode_step_fixed128_def decode_load_query_def attn_clamp_def)

lemma launches_once:
  fixes f :: "'a \<Rightarrow> 'a"
  assumes "\<And>x y. f x = f y" "0 < w + i"
  shows "(f ^^ i) ((f ^^ w) x) = f x"
proof -
  obtain k where "w + i = Suc k" using assms(2) by (cases "w + i") auto
  then have "(f ^^ i) ((f ^^ w) x) = f ((f ^^ k) x)" by (metis add.commute comp_apply funpow.simps(2) funpow_add)
  also have "\<dots> = f x" by (rule assms(1))
  finally show ?thesis .
qed

text \<open>The inputs in exact arithmetic, without rounding to half precision.\<close>

definition real_query :: "real list" where
  "real_query = map (\<lambda>d. real_of_int (mk_query_num (of_nat d)) / 8) [0..<128]"

definition real_block :: "real list" where
  "real_block = map (\<lambda>i.
     if i < 4096 then real_of_int (mk_key_num (of_nat (i div 128)) (of_nat (i mod 128))) / 32
     else real_of_int (mk_value_num (of_nat ((i - 4096) div 128)) (of_nat ((i - 4096) mod 128))) / 29) [0..<8192]"

lemma mk_query_exact: "mk_query exact_ops id = map Fin real_query"
  by (simp add: mk_query_def mk_const_def real_query_def comp_def)

lemma mk_block_exact: "length kv = 8192 \<Longrightarrow> mk_block exact_ops id kv = map Fin real_block"
  by (simp add: mk_block_elems mk_elem_def[abs_def] mk_const_def real_block_def comp_def)

lemma unat_mk_seq_len: "unat (of_int (mk_seq_len n) :: u32) = nat (mk_seq_len n)"
  using mk_seq_len_bounds[of n] by (simp add: unat_eq_nat_uint unsigned_of_int take_bit_int_eq_self)

lemma mk_args_rendered:
  assumes "\<forall>n \<in> {d, i, w, q}. - (2 ^ 31) \<le> n \<and> n < 2 ^ 31"
  shows "mk_args [''--dev'', decimal d, ''--iters'', decimal i, ''--warmup'', decimal w, ''--seq-len'', decimal q] opts =
    Some \<lparr>mk_dev_id = d, mk_iters = i, mk_warmup = w, mk_seq = q\<rparr>"
  using assms by (simp add: atoi_decimal)


lemma word_eq_of_nat: "unat w = k \<Longrightarrow> w = of_nat k"
  by auto

lemma kernel_exact:
  fixes seq :: int and d :: "xreal mk_dev" and st :: "xreal SampleState"
  defines "n \<equiv> nat (mk_seq_len seq)"
  defines "row \<equiv> ref_attention real_query real_block n"
  defines "dev \<equiv> bench_decode_kernel exact_ops (map Fin real_query) (map Fin real_block) st mk_desc (of_int (mk_seq_len seq)) d"
  shows "mk_out dev = map (\<lambda>i. Fin (row i)) [0..<128]"
    "\<exists>t < 128. mk_token dev = Some (of_nat t) \<and> row t = Max (row ` {..<128})"
    "mk_bytes dev = Some (of_nat (512 * n))" "mk_tiles dev = Some (of_nat ((n + 15) div 16))"
    "mk_cycles dev = Some (of_nat (3072 * ((n + 15) div 16)))"
proof -
  have n: "0 < n" "n \<le> 32" using mk_seq_len_bounds[of seq] by (auto simp: n_def)
  define a where "a = \<lparr>da_q_ptr = Some (map Fin real_query), da_o_ptr = Some (mk_out d), da_seq_len = of_int (mk_seq_len seq),
      da_head_dim = DECODE_FIXED_HEAD_DIM, da_kv_block_base_idx = ds_kv_block_offset mk_desc, da_kv_block_count = 1,
      da_output_token_offset = ds_output_token_offset mk_desc\<rparr>"
  define step where "step = attention_decode_step_fixed128 exact_ops mk_desc (Some a) (map Fin real_block) (Some st)"
  have "unat (da_seq_len a) = n" unfolding a_def by (simp add: n_def unat_mk_seq_len)
  then have clamp: "unat (attn_clamp (Some a)) = n"
    using n by (auto simp: unat_attn_clamp min_def simp del: unat_eq_zero)
  have len: "length real_query = 128" "length real_block = 8192" by (simp_all add: real_query_def real_block_def)
  have load: "decode_load_query exact_ops mk_desc (Some a) (Some st) = map Fin real_query"
    using len by (intro decode_load_query_buffer[of "Some a" a]) (simp_all add: a_def)
  have out: "attn_output exact_ops (map Fin real_query) (map Fin real_block) n = map Fin (map row [0..<128])"
    using attn_output_exact[OF len n] by (simp add: comp_def row_def)
  define t where "t = warp_argmax exact_ops (map Fin (map row [0..<128]))"
  have "t < 128 \<and> (\<forall>d<128. map row [0..<128] ! d \<le> map row [0..<128] ! t)" unfolding t_def by (rule warp_argmax_exact) simp
  then have t: "t < 128" "row t = Max (row ` {..<128})" by (auto intro!: Max_eqI[symmetric])
  have res: "snd step = Some (map Fin (map row [0..<128]))" "dr_token_id (fst step) = of_nat t"
    unfolding step_def attention_decode_step_fixed128_def Let_def load clamp out t_def by (simp_all add: a_def)
  have dev: "dev = \<lparr>mk_token = Some (dr_token_id (fst step)), mk_cycles = Some (dr_cycle_estimate (fst step)),
      mk_bytes = Some (dr_bytes_touched (fst step)), mk_tiles = Some (dr_tile_count (fst step)), mk_out = the (snd step)\<rparr>"
    unfolding dev_def bench_decode_kernel_def Let_def step_def a_def by (simp add: case_prod_beta)
  note costs = attention_step_costs[of exact_ops mk_desc "Some a" "map Fin real_block" "Some st", unfolded Let_def clamp, folded step_def]
  show "mk_out dev = map (\<lambda>i. Fin (row i)) [0..<128]" by (simp add: dev res comp_def)
  show "\<exists>t < 128. mk_token dev = Some (of_nat t) \<and> row t = Max (row ` {..<128})" using t by (auto simp: dev res)
  show "mk_bytes dev = Some (of_nat (512 * n))" "mk_tiles dev = Some (of_nat ((n + 15) div 16))"
    "mk_cycles dev = Some (of_nat (3072 * ((n + 15) div 16)))"
    using costs word_eq_of_nat[of "dr_bytes_touched (fst step)" "512 * n"] word_eq_of_nat[of "dr_tile_count (fst step)" "(n + 15) div 16"]
      word_eq_of_nat[of "dr_cycle_estimate (fst step)" "3072 * ((n + 15) div 16)"]
    unfolding dev by (simp_all add: mult.commute[of n 512])
qed

section \<open>The property\<close>

text \<open>
  The microbenchmark measures attention. With exact arithmetic and any command line that sets the four options, at least one launch in
  all, the row the program sums up is softmax attention of the fixed query over the first \<open>seq\<close> tokens of the fixed block (between
  1 and 32), the token printed is an index of its maximum, and the bytes, tiles and cycles are those of \<open>seq\<close> tokens. The contents of
  the fresh allocation and the number of launches do not matter.
\<close>

theorem decode_bench_exact:
  assumes "length h_kv = 8192" "0 \<le> iters" "0 \<le> warmup" "0 < warmup + iters"
    and "\<forall>n \<in> {dev, iters, warmup, seq}. - (2 ^ 31) \<le> n \<and> n < 2 ^ 31"
    and "argv = [''--dev'', decimal dev, ''--iters'', decimal iters, ''--warmup'', decimal warmup, ''--seq-len'', decimal seq]"
  shows "\<exists>d. bench_decode_main exact_ops id add zero h_kv argv = Some (d, foldl add zero (mk_out d)) \<and>
    (let n = nat (max 1 (min seq 32)); row = ref_attention real_query real_block n in
     mk_out d = map (\<lambda>i. Fin (row i)) [0..<128] \<and>
     (\<exists>t < 128. mk_token d = Some (of_nat t) \<and> row t = Max (row ` {..<128})) \<and>
     mk_bytes d = Some (of_nat (512 * n)) \<and> mk_tiles d = Some (of_nat ((n + 15) div 16)) \<and>
     mk_cycles d = Some (of_nat (3072 * ((n + 15) div 16))))"
proof -
  let ?z = "\<lparr>mk_token = None, mk_cycles = None, mk_bytes = None, mk_tiles = None, mk_out = replicate 128 (Fin 0)\<rparr>"
  let ?launch = "bench_decode_kernel exact_ops (map Fin real_query) (map Fin real_block) (mk_sample exact_ops) mk_desc (of_int (mk_seq_len seq))"
  have n: "nat (max 1 (min seq 32)) = nat (mk_seq_len seq)"
    by (auto simp: mk_seq_len_def Let_def kv_layout_consts)
  have "0 < nat warmup + nat iters" using assms(2-4) by linarith
  then have once: "(?launch ^^ nat iters) ((?launch ^^ nat warmup) ?z) = ?launch ?z"
    by (intro launches_once kernel_ignores_buffers)
  have "bench_decode_main exact_ops id add zero h_kv argv = Some (?launch ?z, foldl add zero (mk_out (?launch ?z)))"
    unfolding bench_decode_main_def assms(6) mk_args_rendered[OF assms(5)] option.case Let_def
      mk_query_exact mk_block_exact[OF assms(1)] using once by simp
  then show ?thesis unfolding n Let_def
    by (intro exI[of _ "?launch ?z"] conjI kernel_exact) assumption
qed

theorem decode_bench_exact_witness:
  "\<exists>d. bench_decode_main exact_ops id (\<lambda>s _. s + 1) (0 :: nat) (replicate 8192 NegInf)
      [''--dev'', decimal 0, ''--iters'', decimal 1, ''--warmup'', decimal 0, ''--seq-len'', decimal 40] = Some (d, 128) \<and>
    mk_bytes d = Some 16384 \<and> mk_tiles d = Some 2"
proof -
  have "foldl (\<lambda>s _. s + 1) a xs = a + length xs" for a and xs :: "xreal list" by (induction xs arbitrary: a) simp_all
  then show ?thesis
    using decode_bench_exact[of "replicate 8192 NegInf" 1 0 0 40
        "[''--dev'', decimal 0, ''--iters'', decimal 1, ''--warmup'', decimal 0, ''--seq-len'', decimal 40]" "\<lambda>s _. s + 1" "0 :: nat"]
    by (auto simp: Let_def)
qed

end
