(* ===== verification/Runtime_Program.thy ===== *)
theory Runtime_Program
  imports Runtime_Lifecycle Gpu_Worker Command_Line
begin

text \<open>
  The program of \<^verbatim>\<open>src/main.c\<close>: options, initialisation, launch, dispatch, wait and shutdown, composed from \<open>Runtime_Lifecycle\<close>,
  \<open>Runtime_Main\<close> and \<open>Gpu_Worker\<close>. The device is the worker of one SM, which runs while \<open>main\<close> waits and while it sends the sentinels:
  the schedules in which the dispatch is over before the device starts. Of the events only the wait for the second one is modelled: it is
  recorded on the stream of the persistent kernel, so that waiting for it is waiting for that kernel. Printing is left out.
\<close>

section \<open>Options\<close>

text \<open>The loop over what \<open>getopt\<close> returns: option characters with their arguments. A number that does not fit is undefined.\<close>

record main_opts =
  mo_dev_id :: int
  mo_arena_gb :: u64
  mo_n_steps :: int
  mo_kv_blocks :: int

definition main_defaults :: main_opts where
  "main_defaults = \<lparr>mo_dev_id = 0, mo_arena_gb = 1, mo_n_steps = 10000, mo_kv_blocks = 128\<rparr>"

fun main_getopt :: "(char \<times> string) list \<Rightarrow> main_opts \<Rightarrow> main_opts option" where
  "main_getopt [] opts = Some opts"
| "main_getopt ((opt, optarg) # rest) opts =
     (if opt = CHR ''d'' then Option.bind (atoi optarg) (\<lambda>n. main_getopt rest (opts\<lparr>mo_dev_id := n\<rparr>))
      else if opt = CHR ''a'' then Option.bind (atol optarg) (\<lambda>n. main_getopt rest (opts\<lparr>mo_arena_gb := of_int n\<rparr>))
      else if opt = CHR ''s'' then Option.bind (atoi optarg) (\<lambda>n. main_getopt rest (opts\<lparr>mo_n_steps := n\<rparr>))
      else if opt = CHR ''k'' then Option.bind (atoi optarg) (\<lambda>n. main_getopt rest (opts\<lparr>mo_kv_blocks := n\<rparr>))
      else main_getopt rest opts)"

section \<open>The program\<close>

text \<open>
  What the program does not decide: the answers of the system, the results of the two kernels a step launches, stack contents, the
  device's arithmetic and memory, and how far the device runs between two accesses of the host.
\<close>

record 'f main_env =
  mn_runtime :: runtime_env
  mn_ms :: "u64 \<Rightarrow> u32 \<Rightarrow> u32 \<Rightarrow> int"
  mn_qp :: "u32 \<Rightarrow> int"
  mn_junk :: "int \<Rightarrow> DecodeDispatchBatch"
  mn_ops :: "'f attn_ops"
  mn_half :: "u16 \<Rightarrow> 'f"
  mn_float :: "f32_bits \<Rightarrow> 'f"
  mn_cp_async :: bool
  mn_order :: "nat list \<Rightarrow> nat list"
  mn_hbm :: "u64 \<Rightarrow> u8"
  mn_queries :: "'f list list"
  mn_smem :: "u8 list"
  mn_gpu_wait :: "nat \<Rightarrow> nat"
  mn_gpu_stop :: "nat \<Rightarrow> nat"

definition float_sample :: "(f32_bits \<Rightarrow> 'f) \<Rightarrow> f32_bits SampleState \<Rightarrow> 'f SampleState" where
  "float_sample f st = \<lparr>ss_rng_state = ss_rng_state st, ss_temperature = f (ss_temperature st), ss_top_k = ss_top_k st,
     ss_top_p = f (ss_top_p st), ss_vocab_size = ss_vocab_size st\<rparr>"

text \<open>The arguments of the kernel launch, and the worker they start.\<close>

definition launch_env :: "'f main_env \<Rightarrow> Runtime \<Rightarrow> 'f worker_env" where
  "launch_env env rt =
     \<lparr>we_ops = mn_ops env, we_half = mn_half env, we_cp_async = mn_cp_async env, we_order = mn_order env, we_arena = rt_kv_arena rt,
      we_hbm = mn_hbm env, we_sample = map_option (float_sample (mn_float env)) (rt_d_sample_st rt),
      we_q_buffer = map_option (\<lambda>_. mn_queries env) (rt_d_query_buf rt), we_io_slots = rt_io_slots rt,
      we_counts = (rt_d_step_count rt \<noteq> None)\<rparr>"

definition launch_worker :: "'f main_env \<Rightarrow> Runtime \<Rightarrow> CommandRing \<Rightarrow> 'f worker_state" where
  "launch_worker env rt ring =
     \<lparr>ws_ring = ring, ws_comp = the (rt_comp_ring rt), ws_smem = mn_smem env,
      ws_o_buffer = map_option (\<lambda>_. replicate (unat (rt_io_slots rt)) (replicate 128 (fl_zero (mn_ops env)))) (rt_d_output_buf rt),
      ws_step_count = the (rt_d_step_count rt), ws_pc = WPoll\<rparr>"

text \<open>
  How the program ends: with a status and a memory, and the step count it prints if it gets there; by \<open>abort\<close>; undefined; or not within
  the fuel of its two loops.
\<close>

datatype main_end = MainReturn int mem "u64 option" | MainAbort | MainUndefined | MainRunning

definition main_run :: "nat \<Rightarrow> nat \<Rightarrow> 'f main_env \<Rightarrow> main_opts \<Rightarrow> Runtime \<Rightarrow> mem \<Rightarrow> main_end" where
  "main_run wait_fuel stop_fuel env opts rt m =
     (case runtime_dispatch (mn_ms env) (mn_qp env) (mn_junk env) (rt_io_slots rt) (the (rt_cmd_ring rt)) 1
             (mo_n_steps opts) (mo_kv_blocks opts) of
        None \<Rightarrow> MainUndefined
      | Some (_, ring) \<Rightarrow>
        (case wait_loop wait_fuel (launch_env env rt) (mn_gpu_wait env) (mo_n_steps opts) 0 (launch_worker env rt ring) of
           None \<Rightarrow> MainRunning
         | Some (total_completed, s) \<Rightarrow>
           if ws_pc s \<noteq> WStopped then MainRunning
           else let steps = ws_step_count s;
                    rt = rt\<lparr>rt_cmd_ring := Some (ws_ring s), rt_comp_ring := Some (ws_comp s), rt_d_step_count := Some steps\<rparr>
                in (case runtime_shutdown stop_fuel (mn_gpu_stop env) rt m of
                      None \<Rightarrow> MainRunning
                    | Some (rt, m) \<Rightarrow> MainReturn 0 m (Some steps))))"

definition runtime_main :: "nat \<Rightarrow> nat \<Rightarrow> 'f main_env \<Rightarrow> (char \<times> string) list \<Rightarrow> mem \<Rightarrow> main_end" where
  "runtime_main wait_fuel stop_fuel env argv m =
     (case main_getopt argv main_defaults of
        None \<Rightarrow> MainUndefined
      | Some opts \<Rightarrow>
        (case runtime_init (mn_runtime env) (mo_dev_id opts) (push_bit 30 (mo_arena_gb opts)) 16384 m of
           None \<Rightarrow> MainAbort
         | Some (c, rt, m) \<Rightarrow> if c \<noteq> 0 then MainReturn 1 m None else main_run wait_fuel stop_fuel env opts rt m))"

section \<open>Runs\<close>

text \<open>Kernels that launch, a chunk order that is one, shared memory of the size of the launch.\<close>

definition main_env_ok :: "'f main_env \<Rightarrow> bool" where
  "main_env_ok env \<longleftrightarrow> (\<forall>s t u. mn_ms env s t u = 0) \<and> (\<forall>u. mn_qp env u = 0) \<and>
     (\<forall>i. length (db_descs (mn_junk env i)) = 32) \<and> (\<forall>xs. set (mn_order env xs) = set xs) \<and>
     length (mn_smem env) = 3 * 16384 \<and> re_arena_huge (mn_runtime env) \<noteq> 0 \<and> re_arena_small (mn_runtime env) \<noteq> 0"

lemma main_env_okD:
  assumes "main_env_ok env"
  shows "mn_ms env s t u = 0" "mn_qp env u = 0" "length (db_descs (mn_junk env i)) = 32" "length (mn_smem env) = 3 * 16384"
    "env_ok (launch_env env rt)" "re_arena_huge (mn_runtime env) \<noteq> 0" "re_arena_small (mn_runtime env) \<noteq> 0"
  using assms by (simp_all add: main_env_ok_def env_ok_def launch_env_def)

lemma main_getopt_rendered:
  assumes "- (2 ^ 31) \<le> d" "d < 2 ^ 31" "- (2 ^ 63) \<le> a" "a < 2 ^ 63" "- (2 ^ 31) \<le> n" "n < 2 ^ 31" "- (2 ^ 31) \<le> k" "k < 2 ^ 31"
  shows "main_getopt [(CHR ''d'', decimal d), (CHR ''a'', decimal a), (CHR ''s'', decimal n), (CHR ''k'', decimal k)] opts =
    Some \<lparr>mo_dev_id = d, mo_arena_gb = of_int a, mo_n_steps = n, mo_kv_blocks = k\<rparr>"
  using assms by (simp add: atoi_decimal atol_decimal)

lemma launch_ready:
  "launch_worker env (runtime_ready re d a b) ring =
     worker_start ring (mn_smem env) (Some (replicate 4096 (replicate 128 (fl_zero (mn_ops env)))))"
  by (simp add: launch_worker_def worker_start_def runtime_ready_def RING_SIZE_def)

lemma ready_fields:
  "rt_cmd_ring (runtime_ready re d a b) = Some CommandRing_zero" "we_counts (launch_env env (runtime_ready re d a b))"
  "rt_num_sms (runtime_ready re d a b) = re_sm_count re"
  by (simp_all add: runtime_ready_def launch_env_def)

lemma wait_loop_inv:
  assumes "env_ok env" "wait_inv env sent s polled" "wait_loop fuel env gpu n t s = Some (t', s')"
  shows "\<exists>polled'. wait_inv env sent s' polled'"
  using assms(2,3)
proof (induction fuel arbitrary: t s polled)
  case 0
  then show ?case by (subst (asm) wait_loop.simps) (auto split: if_splits)
next
  case (Suc k)
  let ?s = "(decode_worker_tick env ^^ gpu k) s"
  have "wait_inv env sent ?s polled" using wait_inv_ticks[OF assms(1) Suc.prems(1), of "gpu k"] by simp
  then obtain cr m where p: "runtime_poll (ws_comp ?s) 256 = (int m, cr)"
    "wait_inv env sent (?s\<lparr>ws_comp := cr\<rparr>) (polled @ take m (comp_contents (ws_comp ?s)))"
    using wait_inv_poll by blast
  show ?case
    using Suc.prems Suc.IH[OF p(2)] p(1) by (subst (asm) wait_loop.simps) (auto simp: Let_def split: if_splits)
qed

text \<open>The dispatch of \<open>main\<close> on the fresh ring: all steps, or the 4096 that fit.\<close>

lemma main_dispatch:
  assumes "main_env_ok env" "kv \<noteq> 0" "n < 2 ^ 31"
  shows "\<exists>c ring. runtime_dispatch (mn_ms env) (mn_qp env) (mn_junk env) io CommandRing_zero 1 (int n) kv = Some (c, ring) \<and>
    cmd_inv ring \<and> cmd_contents ring = map (dispatched 1 kv n) [0..<min n 4096]"
proof -
  have "cmd_budget (n + 0) CommandRing_zero" using assms(3) by (simp add: CommandRing_zero_def rep_budget_def)
  from runtime_dispatch_outcome[where ms = "mn_ms env" and qp = "mn_qp env" and junk = "mn_junk env" and io = io and seq = 1,
      OF main_env_okD(1,2)[OF assms(1)] assms(2) main_env_okD(3)[OF assms(1)] CommandRing_zero_inv this refl]
  show ?thesis unfolding CommandRing_zero_contents by (cases "n \<le> 4096") (auto simp: min_def)
qed

lemma main_run_hangs:
  assumes "main_env_ok env" "mo_n_steps opts = int n" "n < 2 ^ 31" "mo_kv_blocks opts \<noteq> 0" "rt = runtime_ready (mn_runtime env) d a b"
  shows "main_run wait_fuel stop_fuel env opts rt m = MainRunning \<and>
    (4096 < n \<longrightarrow> (\<exists>c ring. runtime_dispatch (mn_ms env) (mn_qp env) (mn_junk env) (rt_io_slots rt) (the (rt_cmd_ring rt)) 1 (int n) (mo_kv_blocks opts) =
      Some (c, ring) \<and> wait_loop wait_fuel (launch_env env rt) (mn_gpu_wait env) (int n) 0 (launch_worker env rt ring) = None))"
proof -
  obtain c ring where r: "runtime_dispatch (mn_ms env) (mn_qp env) (mn_junk env) (rt_io_slots rt) (the (rt_cmd_ring rt)) 1 (int n) (mo_kv_blocks opts) = Some (c, ring)"
    "cmd_inv ring" "cmd_contents ring = map (dispatched 1 (mo_kv_blocks opts) n) [0..<min n 4096]"
    using main_dispatch[OF assms(1,4,3)] unfolding assms(5) ready_fields option.sel by blast
  let ?env = "launch_env env rt" and ?s = "launch_worker env rt ring"
  have inv: "wait_inv ?env (cmd_contents ring) ?s []"
    unfolding assms(5) launch_ready by (rule dispatched_wait_inv[OF r(2,3)]) (use main_env_okD(4)[OF assms(1)] in auto)
  have len: "length (cmd_contents ring) = min n 4096" unfolding r(3) by simp
  have hang: "wait_loop wait_fuel ?env (mn_gpu_wait env) (int n) 0 ?s = None" if "4096 < n"
    using wait_loop_hangs[OF main_env_okD(5)[OF assms(1)] inv, of n wait_fuel "mn_gpu_wait env"] len that by auto
  have "ws_pc s \<noteq> WStopped" if "wait_loop wait_fuel ?env (mn_gpu_wait env) (int n) 0 ?s = Some (t, s)" for t s
    using wait_loop_inv[OF main_env_okD(5)[OF assms(1)] inv that] wait_inv_running by blast
  then have "main_run wait_fuel stop_fuel env opts rt m = MainRunning"
    unfolding main_run_def assms(2) using r(1) by (auto split: option.split)
  then show ?thesis using hang r(1) by blast
qed

section \<open>Properties\<close>

text \<open>
  C31. The program never returns once its initialisation has succeeded. It waits for an event recorded on the stream of the persistent kernel,
  hence for that kernel, while the sentinels that end it are only sent afterwards. With more than 4096 steps (the default is 10000) it does
  not even get there when one worker consumes the ring and the dispatch fills it before the device starts: \<open>runtime_dispatch\<close> gives up with 4096 of them
  queued, \<open>main\<close> ignores that and waits for completions that never come, whatever the device does.
\<close>

theorem runtime_main_never_returns:
  assumes "main_env_ok env" and "mem_live m = {}"
    and "main_getopt argv main_defaults = Some opts" and "0 \<le> mo_n_steps opts" and "mo_n_steps opts < 2 ^ 31" and "mo_kv_blocks opts \<noteq> 0"
    and "runtime_init (mn_runtime env) (mo_dev_id opts) (push_bit 30 (mo_arena_gb opts)) 16384 m = Some (0, rt, m')"
  shows "runtime_main wait_fuel stop_fuel env argv m = MainRunning \<and>
    (4096 < mo_n_steps opts \<longrightarrow> (\<exists>c ring.
       runtime_dispatch (mn_ms env) (mn_qp env) (mn_junk env) (rt_io_slots rt) (the (rt_cmd_ring rt)) 1 (mo_n_steps opts) (mo_kv_blocks opts) = Some (c, ring) \<and>
       wait_loop wait_fuel (launch_env env rt) (mn_gpu_wait env) (mo_n_steps opts) 0 (launch_worker env rt ring) = None))"
proof -
  have rt: "rt = runtime_ready (mn_runtime env) (mo_dev_id opts) (push_bit 30 (mo_arena_gb opts)) 16384"
    using runtime_init_outcome[OF assms(2) main_env_okD(6,7)[OF assms(1)] assms(7)] by simp
  obtain n where n: "mo_n_steps opts = int n" using assms(4) nonneg_int_cases by blast
  have "n < 2 ^ 31" using assms(5) n by simp
  from main_run_hangs[OF assms(1) n this assms(6) rt] show ?thesis
    using assms(3,7) n by (auto simp: runtime_main_def)
qed

text \<open>A system on which every call succeeds.\<close>

definition main_example :: "xreal main_env" where
  "main_example = \<lparr>mn_runtime = env_example\<lparr>re_sm_count := 1, re_memcpy_sample := True\<rparr>, mn_ms = (\<lambda>_ _ _. 0), mn_qp = (\<lambda>_. 0),
     mn_junk = (\<lambda>_. zero_batch), mn_ops = exact_ops, mn_half = (\<lambda>w. Fin (real (unat w))), mn_float = (\<lambda>w. Fin (real (unat w))),
     mn_cp_async = False, mn_order = rev, mn_hbm = (\<lambda>_. 0), mn_queries = [], mn_smem = replicate 49152 0,
     mn_gpu_wait = (\<lambda>_. 1), mn_gpu_stop = (\<lambda>_. 0)\<rparr>"

lemma main_example_ok: "main_env_ok main_example"
  by (simp add: main_env_ok_def main_example_def env_example_def zero_batch_def MAP_FAILED_def)

lemma init_device_succeeds:
  assumes "re_model_state env = \<lparr>me_h_input = True, me_h_residual = True, me_h_bias = True, me_hidden = True, me_input = True,
      me_residual = True, me_bias = True\<rparr>"
    and "re_query_host env" "re_query_dev env" "re_malloc_query env" "re_malloc_output env" "re_memset_output env" "re_malloc_sample env"
      "re_memcpy_sample env"
  shows "fst (runtime_init_device env rt m) = 0"
proof -
  have ms: "fst (model_state_init (re_model_state env) (Some st) s m) = 0" for st s m
    unfolding assms(1) by (simp add: model_state_init_def Let_def)
  have "fst (query_producer_init (re_query_host env) (re_query_dev env) p m) = 0" for p m
    using assms(2,3) by (simp add: query_producer_init_def Let_def)
  then show ?thesis using ms assms(4-8) by (simp add: runtime_init_device_def Let_def case_prod_beta)
qed

lemma main_example_init:
  "\<exists>rt m'. runtime_init (mn_runtime main_example) d s b \<lparr>mem_live = {}, mem_error = False\<rparr> = Some (0, rt, m')"
proof -
  let ?e = "mn_runtime main_example"
  have "(65536 :: u64) \<noteq> MAP_FAILED" by (simp add: MAP_FAILED_def)
  then obtain rt m where "runtime_init ?e d s b \<lparr>mem_live = {}, mem_error = False\<rparr> = Some (runtime_init_device ?e rt m)"
    by (simp add: runtime_init_def main_example_def env_example_def ring_create_def comp_ring_create_def arena_init_def)
  moreover have "fst (runtime_init_device ?e rt m) = 0"
    by (rule init_device_succeeds) (simp_all add: main_example_def env_example_def)
  ultimately show ?thesis by (cases "runtime_init_device ?e rt m") auto
qed

theorem runtime_main_never_returns_witness:
  "runtime_main 1000000 1 main_example [] \<lparr>mem_live = {}, mem_error = False\<rparr> = MainRunning"
proof -
  obtain rt m' where init: "runtime_init (mn_runtime main_example) (mo_dev_id main_defaults) (push_bit 30 (mo_arena_gb main_defaults)) 16384
      \<lparr>mem_live = {}, mem_error = False\<rparr> = Some (0, rt, m')"
    using main_example_init by blast
  show ?thesis using runtime_main_never_returns[OF main_example_ok _ _ _ _ _ init, of "[]"] by (simp add: main_defaults_def)
qed

end
