(* ===== verification/Rtl_Mmio.thy ===== *)
theory Rtl_Mmio
  imports Prelude
begin

text \<open>
  The doorbell register of the hardware, \<^verbatim>\<open>rtl/mmio_regs.sv\<close>, at the level of clock cycles. The top level does not instantiate it: it
  takes the pulse as an input.
\<close>

record mmio_regs =
  mr_doorbell_pulse :: bool
  mr_doorbell_value :: u32

definition DOORBELL_ADDR :: u8 where "DOORBELL_ADDR = 0x10"

text \<open>The inputs of a cycle.\<close>

record mmio_in =
  mi_rst_n :: bool
  mi_wr_en :: bool
  mi_wr_addr :: u8
  mi_wr_data :: u32

definition mmio_clk :: "mmio_in \<Rightarrow> mmio_regs \<Rightarrow> mmio_regs" where
  "mmio_clk i r =
     (if \<not> mi_rst_n i then \<lparr>mr_doorbell_pulse = False, mr_doorbell_value = 0\<rparr>
      else if mi_wr_en i \<and> mi_wr_addr i = DOORBELL_ADDR
      then \<lparr>mr_doorbell_pulse = True, mr_doorbell_value = mi_wr_data i\<rparr>
      else r\<lparr>mr_doorbell_pulse := False\<rparr>)"

text \<open>The outputs after each of a sequence of cycles.\<close>

fun mmio_outputs :: "mmio_in list \<Rightarrow> mmio_regs \<Rightarrow> mmio_regs list" where
  "mmio_outputs [] r = []"
| "mmio_outputs (i # is) r = mmio_clk i r # mmio_outputs is (mmio_clk i r)"

definition rings :: "mmio_in \<Rightarrow> bool" where
  "rings i \<longleftrightarrow> mi_rst_n i \<and> mi_wr_en i \<and> mi_wr_addr i = DOORBELL_ADDR"

lemma length_mmio_outputs [simp]: "length (mmio_outputs is r) = length is"
  by (induction "is" arbitrary: r) simp_all

lemma nth_mmio_outputs: "k < length is \<Longrightarrow> mmio_outputs is r ! k = fold mmio_clk (take (Suc k) is) r"
  by (induction "is" arbitrary: r k) (auto simp: nth_Cons split: nat.split)

text \<open>
  A consumer that samples the value whenever it sees the pulse receives every value written to the doorbell once and in order, under
  every sequence of cycles; writes to other addresses and during a reset do not show. The pulse lasts one cycle per write, and the
  register holds the value of the last write, or 0 after a later reset.
\<close>

theorem doorbell_register_exact:
  "map mr_doorbell_value (filter mr_doorbell_pulse (mmio_outputs is r)) = map mi_wr_data (filter rings is) \<and>
   (\<forall>k < length is. mr_doorbell_pulse (mmio_outputs is r ! k) = rings (is ! k)) \<and>
   mr_doorbell_value (fold mmio_clk is r) =
     (let ws = filter (\<lambda>i. \<not> mi_rst_n i \<or> rings i) is in
      if ws = [] then mr_doorbell_value r else if mi_rst_n (last ws) then mi_wr_data (last ws) else 0)"
proof (intro conjI)
  have clk: "mr_doorbell_pulse (mmio_clk i r) = rings i" "rings i \<Longrightarrow> mr_doorbell_value (mmio_clk i r) = mi_wr_data i" for i r
    by (auto simp: mmio_clk_def rings_def)
  show "map mr_doorbell_value (filter mr_doorbell_pulse (mmio_outputs is r)) = map mi_wr_data (filter rings is)"
    by (induction "is" arbitrary: r) (simp_all add: clk)
  show "\<forall>k < length is. mr_doorbell_pulse (mmio_outputs is r ! k) = rings (is ! k)"
    by (simp add: nth_mmio_outputs take_Suc_conv_app_nth clk)
  show "mr_doorbell_value (fold mmio_clk is r) =
     (let ws = filter (\<lambda>i. \<not> mi_rst_n i \<or> rings i) is in
      if ws = [] then mr_doorbell_value r else if mi_rst_n (last ws) then mi_wr_data (last ws) else 0)"
  proof (induction "is" rule: rev_induct)
    case (snoc i "is")
    show ?case
    proof (cases "\<not> mi_rst_n i \<or> rings i")
      case True
      then show ?thesis by (auto simp: mmio_clk_def rings_def Let_def)
    next
      case False
      then have "mr_doorbell_value (mmio_clk i r) = mr_doorbell_value r" for r by (auto simp: mmio_clk_def rings_def)
      with False snoc show ?thesis by (simp add: Let_def)
    qed
  qed (simp add: Let_def)
qed

end
