(* ===== verification/Bench_Program.thy ===== *)
theory Bench_Program
  imports Bench_Init Bench_Trace Command_Line
begin

text \<open>
  The programs of \<^verbatim>\<open>bench/bench_pipeline.cu\<close> and \<^verbatim>\<open>bench/bench_trace_pipeline.cu\<close> from their options to their exit status: initialisation
  and shutdown of \<open>Bench_Init\<close> around the timed sections of \<open>Bench_Pipeline\<close> and \<open>Bench_Trace\<close>. The device is the worker of one SM: on
  a device with several the kernel starts one worker per SM on the single-consumer ring, which the models do not follow. Times
  and page faults are left out.
\<close>

section \<open>The programs\<close>

record bench_opts =
  bo_n_rollouts :: int
  bo_tokens_per_rollout :: int
  bo_dev_id :: int

definition bench_defaults :: bench_opts where
  "bench_defaults = \<lparr>bo_n_rollouts = 1000, bo_tokens_per_rollout = 128, bo_dev_id = 0\<rparr>"

text \<open>The loop over the results of \<open>getopt\<close>; \<open>None\<close> is a number that does not fit an \<open>int\<close>.\<close>

fun bench_getopt :: "(char \<times> string) list \<Rightarrow> bench_opts \<Rightarrow> bench_opts option" where
  "bench_getopt [] opts = Some opts"
| "bench_getopt ((opt, optarg) # rest) opts =
     (if opt = CHR ''r'' then Option.bind (atoi optarg) (\<lambda>n. bench_getopt rest (opts\<lparr>bo_n_rollouts := n\<rparr>))
      else if opt = CHR ''t'' then Option.bind (atoi optarg) (\<lambda>n. bench_getopt rest (opts\<lparr>bo_tokens_per_rollout := n\<rparr>))
      else if opt = CHR ''d'' then Option.bind (atoi optarg) (\<lambda>n. bench_getopt rest (opts\<lparr>bo_dev_id := n\<rparr>))
      else bench_getopt rest opts)"

text \<open>\<open>n_rollouts * tokens_per_rollout\<close>; the overflow of a signed product is undefined.\<close>

definition bench_n_tokens :: "bench_opts \<Rightarrow> int option" where
  "bench_n_tokens opts =
     (let n = bo_n_rollouts opts * bo_tokens_per_rollout opts in if - (2 ^ 31) \<le> n \<and> n < 2 ^ 31 then Some n else None)"

text \<open>What the program prints: the completions, the decode window, and whether the guard saw no tracked allocation.\<close>

record bench_report =
  br_comps :: u64
  br_window :: "u32 list"
  br_clean :: bool

definition wrapper_clean :: "HotpathGuard \<Rightarrow> bool" where
  "wrapper_clean g \<longleftrightarrow> hg_malloc_count g = 0 \<and> hg_cuda_malloc_count g = 0"

text \<open>How a program ends; \<open>BenchManyWorkers\<close> stands for whatever several workers on one ring do.\<close>

datatype bench_end = BenchReturn int mem "bench_report option" | BenchAbort | BenchUndefined | BenchRunning | BenchManyWorkers

text \<open>The kernel of \<open>bench_init\<close> works on the arena, the slots and the counter of the context.\<close>

definition bench_launch :: "'f bench_env \<Rightarrow> 'z BenchHost_scheme \<Rightarrow> 'f bench_env" where
  "bench_launch env h =
     env\<lparr>be_worker := (be_worker env)\<lparr>we_arena := rt_kv_arena (bh_rt h), we_io_slots := rt_io_slots (bh_rt h),
           we_counts := (rt_d_step_count (bh_rt h) \<noteq> None)\<rparr>,
         be_io_slots := rt_io_slots (bh_rt h)\<rparr>"

text \<open>The rings the kernel and the loops have left.\<close>

definition bench_rings :: "('f, 'z) BenchContext_scheme \<Rightarrow> 'y BenchHost_scheme \<Rightarrow> 'y BenchHost_scheme" where
  "bench_rings c h = set_rt (\<lambda>rt. rt\<lparr>rt_cmd_ring := Some (ws_ring (bx_dev c)), rt_comp_ring := Some (ws_comp (bx_dev c)),
     rt_d_step_count := Some (ws_step_count (bx_dev c))\<rparr>) h"

definition bench_finish :: "nat \<Rightarrow> (nat \<Rightarrow> nat) \<Rightarrow> bench_report \<Rightarrow> 'z BenchHost_scheme \<Rightarrow> mem \<Rightarrow> bench_end" where
  "bench_finish fuel gpu_stop report h m =
     (case bench_shutdown fuel gpu_stop h m of None \<Rightarrow> BenchRunning | Some (_, m) \<Rightarrow> BenchReturn 0 m (Some report))"

definition bench_program ::
  "nat \<Rightarrow> (nat \<Rightarrow> nat) \<Rightarrow> 'f bench_env \<Rightarrow> runtime_env \<Rightarrow> u8 list \<Rightarrow> 'f list list option \<Rightarrow> (char \<times> string) list \<Rightarrow> mem \<Rightarrow> bench_end" where
  "bench_program fuel gpu_stop env re smem ob argv m =
     (case bench_getopt argv bench_defaults of None \<Rightarrow> BenchUndefined | Some opts \<Rightarrow>
        if bench_n_tokens opts = None then BenchUndefined
        else case bench_init re (bo_dev_id opts) m of
          None \<Rightarrow> BenchAbort
        | Some (rc, h, m) \<Rightarrow>
            if rc \<noteq> 0 then BenchReturn 1 m None
            else if rt_num_sms (bh_rt h) \<noteq> 1 then BenchManyWorkers
            else (case bench_main (bench_launch env h) (bo_n_rollouts opts) (bo_tokens_per_rollout opts) (bench_context smem ob h) of
                    None \<Rightarrow> BenchRunning
                  | Some (comps, c) \<Rightarrow>
                      bench_finish fuel gpu_stop
                        \<lparr>br_comps = comps, br_window = report_pipeline_window (bx_pipeline c) 32, br_clean = wrapper_clean (bx_hp_guard c)\<rparr>
                        (bench_rings c h) m))"

text \<open>
  The traced program. Before its report it pushes one more event, of a type that no header declares: \<open>push_type\<close> stands for it. Its
  summary does not print the decode window.
\<close>

definition trace_pipeline_window :: "u64 \<Rightarrow> trace_event_t \<Rightarrow> RolloutPipeline \<Rightarrow> TraceRing \<Rightarrow> u32 \<Rightarrow> TraceRing" where
  "trace_pipeline_window now push_type p trace max_decode_batch =
     (let snap = the (pipeline_snapshot (Some p) True)
      in trace_push now trace push_type (sn_queue_occupancy snap ! nat Q_DECODE)
           (pipeline_stage_target_batch p Q_DECODE max_decode_batch))"

definition traced_context :: "u8 list \<Rightarrow> 'f list list option \<Rightarrow> TracedHost \<Rightarrow> 'f TracedContext" where
  "traced_context smem ob h = BenchContext.extend (bench_context smem ob h) \<lparr>tx_trace = th_trace h, tx_events = 0\<rparr>"

definition bench_program_traced ::
  "nat \<Rightarrow> (nat \<Rightarrow> nat) \<Rightarrow> (nat \<Rightarrow> u64) \<Rightarrow> trace_event_t \<Rightarrow> 'f bench_env \<Rightarrow> runtime_env \<Rightarrow> u8 list \<Rightarrow> 'f list list option \<Rightarrow>
     (char \<times> string) list \<Rightarrow> mem \<Rightarrow> bench_end \<times> TraceRing option" where
  "bench_program_traced fuel gpu_stop now push_type env re smem ob argv m =
     (case bench_getopt argv bench_defaults of None \<Rightarrow> (BenchUndefined, None) | Some opts \<Rightarrow>
        if bench_n_tokens opts = None then (BenchUndefined, None)
        else case bench_init_traced re (bo_dev_id opts) m of
          None \<Rightarrow> (BenchAbort, None)
        | Some (rc, h, m) \<Rightarrow>
            if rc \<noteq> 0 then (BenchReturn 1 m None, None)
            else if rt_num_sms (bh_rt h) \<noteq> 1 then (BenchManyWorkers, None)
            else (case bench_main_traced (bench_launch env h) now (bo_n_rollouts opts) (bo_tokens_per_rollout opts) (traced_context smem ob h) of
                    None \<Rightarrow> (BenchRunning, None)
                  | Some (comps, c) \<Rightarrow>
                      (bench_finish fuel gpu_stop \<lparr>br_comps = comps, br_window = [], br_clean = wrapper_clean (bx_hp_guard c)\<rparr> (bench_rings c h) m,
                       Some (trace_pipeline_window (now (tx_events c)) push_type (bx_pipeline c) (tx_trace c) 32))))"

section \<open>The guard\<close>

text \<open>No step of the benchmark makes a tracked call: the loops keep the hot-path guard.\<close>

abbreviation keeps_guard :: "('f, 'z) BenchContext_scheme \<Rightarrow> ('f, 'z) BenchContext_scheme \<Rightarrow> bool" where
  "keeps_guard c c' \<equiv> bx_hp_guard c' = bx_hp_guard c"

lemma poll_guard: "bench_poll env c = (x, c') \<Longrightarrow> keeps_guard c c'"
  by (auto simp: bench_poll_def gpu_runs_def Let_def split: prod.splits)

lemma submit_guard: "bench_submit env b c = (rc, c') \<Longrightarrow> keeps_guard c c'"
  by (auto simp: bench_submit_def gpu_runs_def Let_def split: prod.splits)

lemma drain_guard: "drain_loop env n c = Some y \<Longrightarrow> keeps_guard c (snd y)"
proof (induction rule: drain_loop.raw_induct[rotated, consumes 1, case_names step])
  case (step loop env n c y)
  obtain x c1 where p: "bench_poll env c = (x, c1)" by fastforce
  show ?case
    using step(1)[of env "n + 1" "set_metrics inc_consumed c1" y] step(2) poll_guard[OF p] p by (cases x) auto
qed

lemma dispatch_guard: "dispatch_decode_window env rid s n kv c = Some (rc, c') \<Longrightarrow> keeps_guard c c'"
  by (auto simp: dispatch_decode_window_def Let_def dest!: submit_guard drain_guard split: option.splits prod.splits if_splits)

lemma window_guard: "window_loop env rid tokens t kv c = Some c' \<Longrightarrow> keeps_guard c c'"
proof (induction rule: window_loop.raw_induct[rotated, consumes 1, case_names step])
  case (step loop env rid tokens t kv c c')
  then show ?case by (fastforce simp: Let_def dest: dispatch_guard split: prod.splits option.splits if_splits)
qed

lemma finish_guard: "keeps_guard c (finish_rollout env rid tokens c)"
  by (simp add: finish_rollout_def Let_def)

lemma run_guard: "run_rollouts env tokens ids c = Some c' \<Longrightarrow> keeps_guard c c'"
  by (induction ids arbitrary: c) (auto simp: finish_guard dest!: window_guard split: option.splits)

lemma schedule_guard: "schedule_decode_batches env m tokens c = Some (k, c') \<Longrightarrow> keeps_guard c c'"
  by (auto simp: schedule_decode_batches_def Let_def dest!: run_guard split: option.splits prod.splits if_splits)

lemma admit_guard: "admit_loop env tokens rid c = Some y \<Longrightarrow> keeps_guard c (snd y)"
proof (induction rule: admit_loop.raw_induct[rotated, consumes 1, case_names step])
  case (step loop env tokens rid c y)
  obtain rc p where t: "pipeline_try_push (bx_pipeline c) Q_DECODE rid = (rc, p)" by fastforce
  show ?case
  proof (cases "rc = 0")
    case True
    then show ?thesis using step(2) t by auto
  next
    case False
    then obtain k c1 where s: "schedule_decode_batches env DECODE_BATCH_LIMIT tokens (c\<lparr>bx_pipeline := p\<rparr>) = Some (k, c1)"
      using step(2) t by (auto split: option.splits)
    show ?thesis using step(1)[of env tokens rid c1 y] step(2) False t s schedule_guard[OF s] by (auto split: if_splits)
  qed
qed

lemma rollout_loop_guard: "rollout_loop env tokens n r c = Some c' \<Longrightarrow> keeps_guard c c'"
proof (induction rule: rollout_loop.raw_induct[rotated, consumes 1, case_names step])
  case (step loop env tokens n r c c')
  then show ?case by (fastforce simp: Let_def dest: schedule_guard admit_guard split: prod.splits option.splits if_splits)
qed

lemma flush_guard: "flush_loop env tokens c = Some c' \<Longrightarrow> keeps_guard c c'"
proof (induction rule: flush_loop.raw_induct[rotated, consumes 1, case_names step])
  case (step loop env tokens c c')
  then show ?case by (fastforce dest: schedule_guard split: prod.splits option.splits if_splits)
qed

lemma comps_guard: "comps_loop env e k c = Some y \<Longrightarrow> keeps_guard c (snd y)"
proof (induction rule: comps_loop.raw_induct[rotated, consumes 1, case_names step])
  case (step loop env e k c y)
  show ?case
  proof (cases "k < e")
    case True
    then obtain n c1 where d: "drain_loop env 0 c = Some (n, c1)"
      using step(2) by (auto simp: drain_completions_def split: option.splits)
    show ?thesis using step(1)[of env e "k + word_of_int n" c1 y] step(2) True d drain_guard[OF d] by (simp add: drain_completions_def)
  qed (use step(2) in auto)
qed

lemma bench_main_guard:
  "bench_main env n tokens c = Some (comps, c') \<Longrightarrow> bx_hp_guard c' = hp_guard_deactivate (hp_guard_activate (bx_hp_guard c))"
  by (auto simp: bench_main_def bench_rollouts_def Let_def dest!: comps_guard flush_guard rollout_loop_guard split: option.splits)

section \<open>The two programs\<close>

lemma trunc_fields:
  "bh_pipeline (BenchHost.truncate h) = bh_pipeline h" "bh_metrics (BenchHost.truncate h) = bh_metrics h"
  "bh_hp_guard (BenchHost.truncate h) = bh_hp_guard h" "bh_kv_prefix_table (BenchHost.truncate h) = bh_kv_prefix_table h"
  "bh_reward_ring (BenchHost.truncate h) = bh_reward_ring h" "bh_rt (BenchHost.truncate h) = bh_rt h"
  by (simp_all add: BenchHost.defs)

lemma trunc_updates:
  fixes h :: TracedHost
  shows "BenchHost.truncate (bh_pipeline_update a h) = bh_pipeline_update a (BenchHost.truncate h)"
  "BenchHost.truncate (bh_metrics_update b h) = bh_metrics_update b (BenchHost.truncate h)"
  "BenchHost.truncate (bh_hp_guard_update c h) = bh_hp_guard_update c (BenchHost.truncate h)"
  "BenchHost.truncate (bh_kv_prefix_table_update d h) = bh_kv_prefix_table_update d (BenchHost.truncate h)"
  "BenchHost.truncate (bh_reward_ring_update e h) = bh_reward_ring_update e (BenchHost.truncate h)"
  "BenchHost.truncate (bh_rt_update f h) = bh_rt_update f (BenchHost.truncate h)"
  "BenchHost.truncate (th_trace_update g h) = BenchHost.truncate h"
  by (simp_all add: BenchHost.defs)

lemma trunc_zero: "BenchHost.truncate TracedHost_zero = BenchHost_zero"
  by (simp add: TracedHost_zero_def BenchHost.defs)

lemma zero_fields: "bh_pipeline TracedHost_zero = bh_pipeline BenchHost_zero" "bh_metrics TracedHost_zero = bh_metrics BenchHost_zero"
  "bh_hp_guard TracedHost_zero = bh_hp_guard BenchHost_zero" "bh_kv_prefix_table TracedHost_zero = bh_kv_prefix_table BenchHost_zero"
  "bh_reward_ring TracedHost_zero = bh_reward_ring BenchHost_zero" "bh_rt TracedHost_zero = bh_rt BenchHost_zero"
  using trunc_fields[of TracedHost_zero] by (simp_all add: trunc_zero)

lemma init_traced:
  "map_option (\<lambda>(rc, h, m). (rc, BenchHost.truncate h, m)) (bench_init_traced re d m) = bench_init re d m"
  unfolding bench_init_traced_def bench_init_def bench_init_with_def Let_def
  by (simp add: trunc_updates trunc_zero zero_fields split: option.split prod.split)

fun no_window :: "bench_end \<Rightarrow> bench_end" where
  "no_window (BenchReturn s m (Some r)) = BenchReturn s m (Some (r\<lparr>br_window := []\<rparr>))"
| "no_window e = e"

lemma traced_parts:
  "bench_launch env (BenchHost.truncate h) = bench_launch env h"
  "plain (traced_context smem ob h) = bench_context smem ob (BenchHost.truncate h)"
  by (simp_all add: bench_launch_def trunc_fields traced_context_def bench_context_def BenchContext.defs)

lemma finish_traced:
  "no_window (bench_finish fuel gpu r (bench_rings (plain c) (BenchHost.truncate h)) m) =
     bench_finish fuel gpu (r\<lparr>br_window := []\<rparr>) (bench_rings c h) m"
  by (auto simp: bench_finish_def bench_shutdown_runtime bench_rings_def trunc_fields split: option.split)

text \<open>
  The traced program exits like the plain one: for the same options, system calls and device it ends in the same way, with the same status,
  the same blocks live, the same completions and the same verdict of the guard.
\<close>

theorem traced_program_same_exit:
  "fst (bench_program_traced fuel gpu_stop now push_type env re smem ob argv m) = no_window (bench_program fuel gpu_stop env re smem ob argv m)"
proof (cases "bench_getopt argv bench_defaults")
  case (Some opts)
  let ?init = "bench_init_traced re (bo_dev_id opts) m"
  note init = init_traced[of re "bo_dev_id opts" m]
  show ?thesis
  proof (cases "bench_n_tokens opts = None \<or> ?init = None")
    case True
    then show ?thesis using init Some by (auto simp: bench_program_traced_def bench_program_def)
  next
    case False
    then obtain rc h m1 where h: "?init = Some (rc, h, m1)" by auto
    have h': "bench_init re (bo_dev_id opts) m = Some (rc, BenchHost.truncate h, m1)" using init h by simp
    have main: "bench_main (bench_launch env h) n t (bench_context smem ob (BenchHost.truncate h)) =
        map_option (apsnd plain) (bench_main_traced (bench_launch env h) now n t (traced_context smem ob h))" for n t
      by (simp add: bench_main_plain traced_parts)
    show ?thesis
      using False Some h h'
      by (auto simp: bench_program_traced_def bench_program_def traced_parts main apsnd_def finish_traced trunc_fields split: option.split)
  qed
qed (simp add: bench_program_traced_def bench_program_def)

section \<open>A run that returns\<close>

lemma bench_getopt_rendered:
  assumes "- (2 ^ 31) \<le> n" "n < 2 ^ 31" "- (2 ^ 31) \<le> t" "t < 2 ^ 31" "- (2 ^ 31) \<le> d" "d < 2 ^ 31"
  shows "bench_getopt [(CHR ''r'', decimal n), (CHR ''t'', decimal t), (CHR ''d'', decimal d)] opts =
    Some \<lparr>bo_n_rollouts = n, bo_tokens_per_rollout = t, bo_dev_id = d\<rparr>"
  using assms by (simp add: atoi_decimal)

lemma init_guard: "bench_init re d m = Some (0, h, m') \<Longrightarrow> \<exists>g. bh_hp_guard h = hp_guard_init g"
  by (auto simp: bench_init_def bench_init_with_def bench_cleanup_def Let_def split: if_splits option.splits prod.splits)

lemma bench_run_finishes:
  assumes "env_ok (be_worker env)" "\<And>i. batch_wf (be_junk env i)" "prepares env" "\<And>k. 0 < be_gpu env k"
    and "n * tokens \<le> 4096" "5 * n < 2 ^ 32" "tokens < 2 ^ 31" and "bench_ready (bench_context smem ob h)"
    and "bh_rt h = runtime_ready re d s b" "re_sm_count re = 1" "re_arena_huge re \<noteq> 0" "re_arena_small re \<noteq> 0"
    and "bh_hp_guard h = hp_guard_init g"
  shows "\<exists>c. bench_main (bench_launch env h) (int n) (int tokens) (bench_context smem ob h) = Some (of_nat (n * tokens), c) \<and>
    wrapper_clean (bx_hp_guard c) \<and>
    (\<forall>r. bench_finish 1 gpu_stop r (bench_rings c h) (m\<lparr>mem_live := runtime_blocks\<rparr>) = BenchReturn 0 (m\<lparr>mem_live := {}\<rparr>) (Some r))"
proof -
  let ?env = "bench_launch env h"
  have env: "env_ok (be_worker ?env)" "\<And>i. batch_wf (be_junk ?env i)" "prepares ?env" "\<And>k. 0 < be_gpu ?env k"
    using assms(1-4) by (simp_all add: bench_launch_def env_ok_def prepares_def)
  obtain c where c: "bench_main ?env (int n) (int tokens) (bench_context smem ob h) = Some (of_nat (n * tokens), c)"
    "cmd_contents (ws_ring (bx_dev c)) = []" "cmd_inv (ws_ring (bx_dev c))" "unat (cr_tail (ws_ring (bx_dev c))) = n * tokens"
    using bench_small_run[OF env(1,2) assms(8,5-7) env(3,4)] by blast
  have clean: "wrapper_clean (bx_hp_guard c)"
    using bench_main_guard[OF c(1)] assms(13)
    by (simp add: wrapper_clean_def bench_context_def hp_guard_init_def hp_guard_activate_def hp_guard_deactivate_def)
  let ?rt = "bh_rt (bench_rings c h)"
  have live: "runtime_live ?rt"
    using runtime_ready_live[OF assms(11,12)] assms(9) by (simp add: bench_rings_def runtime_live_def)
  have "cmd_budget 1 (ws_ring (bx_dev c))" using c(4) assms(5) by (simp add: rep_budget_def)
  moreover have "length (cmd_contents (ws_ring (bx_dev c))) + 1 \<le> 4096" unfolding c(2) by simp
  ultimately obtain ring where "shutdown_loop 1 gpu_stop (rt_num_sms ?rt) 0 (the (rt_cmd_ring ?rt)) = Some ring"
    using shutdown_loop_sends[OF c(3) _ _ order_refl, of 1 gpu_stop 0] assms(9,10) by (auto simp: bench_rings_def runtime_ready_def)
  from runtime_shutdown_releases[OF live this, of m] c(1) clean show ?thesis
    by (auto simp: bench_finish_def bench_shutdown_runtime)
qed

text \<open>
  The pipeline benchmark returns. With at most 4096 descriptors in all, a device of one SM that keeps running and slot preparations that
  succeed, the program ends with status 0 when its initialisation succeeds: it reports exactly one completion per token, the guard has seen
  no tracked allocation in the timed section, and every block is released. When the initialisation fails it ends with status 1 and
  leaves exactly the blocks of \<open>bench_leak\<close> behind.
\<close>

theorem bench_program_returns:
  assumes "env_ok (be_worker env)" and "\<And>i. batch_wf (be_junk env i)" and "prepares env" and "\<And>k. 0 < be_gpu env k"
    and "length smem = 3 * 16384" and "n * tokens \<le> 4096" and "5 * n < 2 ^ 31" and "tokens < 2 ^ 31" and "- (2 ^ 31) \<le> d" and "d < 2 ^ 31"
    and "mem_live m = {}" and "\<not> mem_error m" and "re_arena_huge re \<noteq> 0" and "re_arena_small re \<noteq> 0" and "re_sm_count re = 1"
    and "bench_init re d m = Some (rc, h, m')"
  shows "let run = bench_program 1 gpu_stop env re smem ob
      [(CHR ''r'', decimal (int n)), (CHR ''t'', decimal (int tokens)), (CHR ''d'', decimal d)] m in
    if rc = 0 then \<exists>window. run = BenchReturn 0 m (Some \<lparr>br_comps = of_nat (n * tokens), br_window = window, br_clean = True\<rparr>)
    else run = BenchReturn 1 (m\<lparr>mem_live := bench_leak re\<rparr>) None"
proof -
  let ?argv = "[(CHR ''r'', decimal (int n)), (CHR ''t'', decimal (int tokens)), (CHR ''d'', decimal d)]"
  let ?o = "\<lparr>bo_n_rollouts = int n, bo_tokens_per_rollout = int tokens, bo_dev_id = d\<rparr>"
  have opts: "bench_getopt ?argv bench_defaults = Some ?o" using assms(7-10) by (intro bench_getopt_rendered) simp_all
  have "int n * int tokens \<le> 4096" using assms(6) by (simp flip: of_nat_mult)
  moreover have "- (2 ^ 31) \<le> int n * int tokens" by (rule order_trans[of _ 0]) simp_all
  ultimately have tok: "bench_n_tokens ?o = Some (int n * int tokens)" by (simp add: bench_n_tokens_def Let_def)
  have run: "bench_program 1 gpu_stop env re smem ob ?argv m =
      (if rc \<noteq> 0 then BenchReturn 1 m' None
       else if rt_num_sms (bh_rt h) \<noteq> 1 then BenchManyWorkers
       else case bench_main (bench_launch env h) (int n) (int tokens) (bench_context smem ob h) of None \<Rightarrow> BenchRunning
         | Some (comps, c) \<Rightarrow> bench_finish 1 gpu_stop \<lparr>br_comps = comps, br_window = report_pipeline_window (bx_pipeline c) 32,
             br_clean = wrapper_clean (bx_hp_guard c)\<rparr> (bench_rings c h) m')"
    unfolding bench_program_def opts option.case tok using assms(16) by simp
  from bench_init_outcome[OF assms(11-14,16)] show ?thesis
  proof (elim disjE conjE)
    assume ok: "rc = 0" "bh_rt h = runtime_ready re d 268435456 16384" "m' = m\<lparr>mem_live := runtime_blocks\<rparr>"
      and init: "\<exists>p r. bh_pipeline h = snd (pipeline_init p) \<and> bh_metrics h = metrics_init r"
    have rings: "rt_cmd_ring (bh_rt h) = Some CommandRing_zero" "rt_comp_ring (bh_rt h) = Some CompletionRing_zero"
      unfolding ok(2) by (simp_all add: runtime_ready_def)
    have ready: "bench_ready (bench_context smem ob h)"
      using init rings assms(5) unfolding bench_ready_def bench_context_def by (auto simp: worker_start_def)
    obtain g where "bh_hp_guard h = hp_guard_init g" using init_guard assms(16) ok(1) by blast
    moreover have "5 * n < 2 ^ 32" using assms(7) by simp
    ultimately obtain c where c: "bench_main (bench_launch env h) (int n) (int tokens) (bench_context smem ob h) = Some (of_nat (n * tokens), c)"
      "wrapper_clean (bx_hp_guard c)"
      "\<forall>r. bench_finish 1 gpu_stop r (bench_rings c h) (m\<lparr>mem_live := runtime_blocks\<rparr>) = BenchReturn 0 (m\<lparr>mem_live := {}\<rparr>) (Some r)"
      using bench_run_finishes[where env = env and gpu_stop = gpu_stop and m = m, OF assms(1-4,6) _ assms(8) ready ok(2) assms(15,13,14)] by blast
    moreover have "rt_num_sms (bh_rt h) = 1" using assms(15) by (simp add: ok(2) runtime_ready_def)
    ultimately show ?thesis using run ok(1,3) mem_live_same[OF assms(11)] by (simp add: Let_def)
  qed (use run in simp)
qed

text \<open>A device of one SM on which every call succeeds.\<close>

definition env_works :: runtime_env where
  "env_works = env_example\<lparr>re_sm_count := 1, re_memcpy_sample := True\<rparr>"

lemma env_works_init: "\<exists>h m'. bench_init env_works d \<lparr>mem_live = {}, mem_error = False\<rparr> = Some (0, h, m')"
proof -
  have ms: "fst (model_state_init (re_model_state env_works) (Some st) s m) = 0" for st s m
    by (simp add: env_works_def env_example_def model_state_init_def Let_def)
  have "fst (query_producer_init (re_query_host env_works) (re_query_dev env_works) p m) = 0" for p m
    by (simp add: env_works_def env_example_def query_producer_init_def Let_def)
  then have dev: "fst (bench_init_device env_works rt m) = 0" for rt m
    using ms by (simp add: bench_init_device_def Let_def case_prod_beta) (simp add: env_works_def env_example_def)
  have "(65536 :: u64) \<noteq> MAP_FAILED" by (simp add: MAP_FAILED_def)
  then have "\<exists>rt' m'. bench_init_arena env_works rt m = Some (bench_init_device env_works rt' m')" for rt m
    by (simp add: bench_init_arena_def arena_init_def) (auto simp: env_works_def env_example_def)
  then have arena: "\<exists>rt' m'. bench_init_arena env_works rt m = Some (0, rt', m')" for rt m
    using dev by (metis prod.collapse)
  then obtain F G where FG: "\<And>rt m. bench_init_arena env_works rt m = Some (0, F rt m, G rt m)" by metis
  have calls: "re_set_device env_works" "ring_create (re_ring_huge env_works) (re_ring_small env_works) \<noteq> None"
    "comp_ring_create (re_comp_huge env_works) (re_comp_small env_works) \<noteq> None"
    by (simp_all add: env_works_def env_example_def ring_create_def comp_ring_create_def)
  show ?thesis
    using calls by (simp add: bench_init_def bench_init_with_def Let_def FG)
qed

theorem bench_program_returns_witness:
  "\<exists>window. bench_program 1 (\<lambda>_. 0) bench_env0 env_works (replicate 49152 0) None
     [(CHR ''r'', decimal 3), (CHR ''t'', decimal 5), (CHR ''d'', decimal 0)] \<lparr>mem_live = {}, mem_error = False\<rparr> =
   BenchReturn 0 \<lparr>mem_live = {}, mem_error = False\<rparr> (Some \<lparr>br_comps = 15, br_window = window, br_clean = True\<rparr>)"
proof -
  let ?m = "\<lparr>mem_live = {}, mem_error = False\<rparr>"
  have e: "re_arena_huge env_works \<noteq> 0" "re_arena_small env_works \<noteq> 0" "re_sm_count env_works = 1"
    by (simp_all add: env_works_def env_example_def MAP_FAILED_def)
  obtain h m' where init: "bench_init env_works 0 ?m = Some (0, h, m')" using env_works_init by blast
  show ?thesis
    using bench_program_returns[OF bench_env0_ok(1-4) _ _ _ _ _ _ _ _ e init, of "replicate 49152 0" 3 5] by simp
qed

end
