(* ===== verification/Lab_Programs.thy ===== *)
theory Lab_Programs
  imports Lab_Rings Fair_Threads Command_Line
begin

text \<open>
  The programs of \<^verbatim>\<open>lab/02_spsc_ring/bench.c\<close> and \<^verbatim>\<open>lab/05_doorbell_mock/bench.c\<close>: the number of operations from the command line, the two
  threads of \<open>Lab_Rings\<close> until both are joined. The times are not modelled.
\<close>

section \<open>The programs\<close>

text \<open>\<open>(uint64_t)atol(argv[1])\<close> or the default; \<open>None\<close> when the number does not fit a \<open>long\<close>.\<close>

definition lab_ops :: "u64 \<Rightarrow> string list \<Rightarrow> u64 option" where
  "lab_ops dflt argv = (case argv of [] \<Rightarrow> Some dflt | a # _ \<Rightarrow> map_option of_int (atol a))"

definition lab_joined :: "nat \<Rightarrow> ('r, 'a) bench_state \<Rightarrow> bool" where
  "lab_joined n s \<longleftrightarrow> \<not> be_next s < n \<and> \<not> length (be_received s) < n"

definition spsc_main :: "string list \<Rightarrow> bool list \<Rightarrow> (u64 \<times> (Ring, u64) bench_state) option" where
  "spsc_main argv sched =
     map_option (\<lambda>n. (n, bench_run lab_push_obs lab_pop_obs of_nat (unat n) sched
       \<lparr>be_ring = Ring_zero, be_next = 0, be_received = []\<rparr>)) (lab_ops 50000000 argv)"

definition doorbell_main :: "string list \<Rightarrow> bool list \<Rightarrow> (u64 \<times> (DoorbellRing, u64 \<times> u64 \<times> u32) bench_state) option" where
  "doorbell_main argv sched =
     map_option (\<lambda>n. (n, bench_run doorbell_push_obs doorbell_pop_obs doorbell_item (unat n) sched
       \<lparr>be_ring = DoorbellRing_zero, be_next = 0, be_received = []\<rparr>)) (lab_ops 5000000 argv)"

section \<open>Progress\<close>

definition bench_turn ::
  "('r \<Rightarrow> 'a \<Rightarrow> bool \<times> 'r) \<Rightarrow> ('r \<Rightarrow> 'a option \<times> 'r) \<Rightarrow> (nat \<Rightarrow> 'a) \<Rightarrow> nat \<Rightarrow> bool \<Rightarrow> ('r, 'a) bench_state \<Rightarrow> ('r, 'a) bench_state" where
  "bench_turn push pop item n turn s = bench_run push pop item n [turn] s"

lemma bench_run_fold: "bench_run push pop item n sched s = fold (bench_turn push pop item n) sched s"
  by (induction push pop item n sched s rule: bench_run.induct) (simp_all add: bench_turn_def)

definition bench_left :: "nat \<Rightarrow> ('r, 'a) bench_state \<Rightarrow> nat" where
  "bench_left n s = (n - be_next s) + (n - length (be_received s))"

context total_fifo_ring
begin

definition bench_ok :: "(nat \<Rightarrow> 'a) \<Rightarrow> nat \<Rightarrow> ('r, 'a) bench_state \<Rightarrow> bool" where
  "bench_ok item n s \<longleftrightarrow> 0 < cap \<and> invar (be_ring s) \<and> be_next s \<le> n \<and> map item [0..<be_next s] = be_received s @ contents (be_ring s)"

lemma bench_ok_counts: "bench_ok item n s \<Longrightarrow> be_next s = length (be_received s) + length (contents (be_ring s))"
proof -
  assume "bench_ok item n s"
  then have "length (map item [0..<be_next s]) = length (be_received s @ contents (be_ring s))" by (simp only: bench_ok_def)
  then show ?thesis by simp
qed

text \<open>What a turn does to the counters: the producer moves when there is room, the consumer when there is something.\<close>

lemma bench_turn_producer:
  assumes "bench_ok item n s" and "s' = bench_turn push pop item n True s"
  shows "bench_ok item n s' \<and> be_received s' = be_received s \<and>
    be_next s' = (if be_next s < n \<and> length (contents (be_ring s)) < cap then Suc (be_next s) else be_next s)"
proof -
  obtain b r where p: "push (be_ring s) (item (be_next s)) = (b, r)" by fastforce
  from assms(1) have i: "invar (be_ring s)" by (simp add: bench_ok_def)
  from push_refines[OF i _ p] have "spec_push cap (contents (be_ring s)) (item (be_next s)) = (b, contents r)" "invar r" by auto
  then show ?thesis
    using assms p by (cases "length (contents (be_ring s)) < cap") (auto simp: bench_turn_def bench_ok_def)
qed

lemma bench_turn_consumer:
  assumes "bench_ok item n s" and "s' = bench_turn push pop item n False s"
  shows "bench_ok item n s' \<and> be_next s' = be_next s \<and>
    length (be_received s') = (if contents (be_ring s) \<noteq> [] then Suc (length (be_received s)) else length (be_received s))"
proof -
  obtain y r where p: "pop (be_ring s) = (y, r)" by fastforce
  from assms(1) have i: "invar (be_ring s)" by (simp add: bench_ok_def)
  have "length (be_received s) < n" if "contents (be_ring s) \<noteq> []"
    using bench_ok_counts[OF assms(1)] assms(1) that by (auto simp: bench_ok_def simp flip: length_greater_0_conv)
  moreover from pop_refines[OF i p] have "spec_pop (contents (be_ring s)) = (y, contents r)" "invar r" by auto
  ultimately show ?thesis
    using assms p by (cases "contents (be_ring s)") (auto simp: bench_turn_def bench_ok_def)
qed

definition bench_enabled :: "nat \<Rightarrow> bool \<Rightarrow> ('r, 'a) bench_state \<Rightarrow> bool" where
  "bench_enabled n t s \<longleftrightarrow> (if t then be_next s < n \<and> length (contents (be_ring s)) < cap else contents (be_ring s) \<noteq> [])"

lemma bench_turn_counts:
  assumes "bench_ok item n s" and "s' = bench_turn push pop item n t s"
  shows "bench_ok item n s'" "be_next s' = (if t \<and> bench_enabled n t s then Suc (be_next s) else be_next s)"
    "length (be_received s') = (if \<not> t \<and> bench_enabled n t s then Suc (length (be_received s)) else length (be_received s))"
  using bench_turn_producer[OF assms(1)] bench_turn_consumer[OF assms(1)] assms(2) by (cases t, auto simp: bench_enabled_def)+

lemma bench_left_eq:
  assumes "bench_ok item n s"
  shows "bench_left n s = 2 * (n - be_next s) + length (contents (be_ring s))"
proof -
  have "be_next s \<le> n" using assms by (simp add: bench_ok_def)
  then show ?thesis unfolding bench_left_def bench_ok_counts[OF assms] by linarith
qed

lemma bench_turn_left:
  assumes "bench_ok item n s"
  shows "bench_left n (bench_turn push pop item n t s) < bench_left n s \<longleftrightarrow> bench_enabled n t s"
    "bench_left n (bench_turn push pop item n t s) \<le> bench_left n s"
proof -
  let ?s = "bench_turn push pop item n t s"
  note c = bench_turn_counts[OF assms refl, of t]
  have le: "be_next s \<le> n" "be_next ?s \<le> n" using assms c(1) by (simp_all add: bench_ok_def)
  have "be_next s = length (be_received s) + length (contents (be_ring s))" "be_next ?s = length (be_received ?s) + length (contents (be_ring ?s))"
    using bench_ok_counts assms c(1) by blast+
  then show "bench_left n ?s < bench_left n s \<longleftrightarrow> bench_enabled n t s" "bench_left n ?s \<le> bench_left n s"
    unfolding bench_left_eq[OF assms] bench_left_eq[OF c(1)] using c(2,3) le by (cases t; cases "bench_enabled n t s"; simp)+
qed

lemma bench_idle_turn:
  assumes "bench_ok item n s" "\<not> bench_enabled n u s"
  shows "bench_enabled n t (bench_turn push pop item n u s) = bench_enabled n t s"
proof -
  let ?s = "bench_turn push pop item n u s"
  note c = bench_turn_counts[OF assms(1) refl, of u]
  have "length (contents (be_ring ?s)) = length (contents (be_ring s))"
    using bench_ok_counts[OF assms(1)] bench_ok_counts[OF c(1)] c(2,3) assms(2) by simp
  then show ?thesis using c(2) assms(2) unfolding bench_enabled_def length_0_conv[symmetric] by auto
qed

lemma bench_some_enabled:
  assumes "bench_ok item n s" "0 < bench_left n s"
  shows "\<exists>t. bench_enabled n t s"
proof (cases "contents (be_ring s) = []")
  case True
  then have "bench_enabled n True s" using assms bench_left_eq[OF assms(1)] by (simp add: bench_enabled_def bench_ok_def)
  then show ?thesis ..
next
  case False
  then have "bench_enabled n False s" by (simp add: bench_enabled_def)
  then show ?thesis ..
qed

end

sublocale total_fifo_ring \<subseteq> bench: fair_steps UNIV "bench_turn push pop item n" "bench_ok item n" "bench_left n" for item n
proof
  fix s t assume ok: "bench_ok item n s"
  show "bench_ok item n (bench_turn push pop item n t s)" by (rule bench_turn_counts(1)[OF ok refl])
  show "bench_left n (bench_turn push pop item n t s) \<le> bench_left n s" by (rule bench_turn_left(2)[OF ok])
  show "\<exists>t \<in> UNIV. bench_left n (bench_turn push pop item n t s) < bench_left n s" if "0 < bench_left n s"
    using bench_some_enabled[OF ok that] bench_turn_left(1)[OF ok] by blast
  show "bench_left n (bench_turn push pop item n t (bench_turn push pop item n u s)) < bench_left n s"
    if t: "bench_left n (bench_turn push pop item n t s) < bench_left n s"
      and u: "bench_left n (bench_turn push pop item n u s) = bench_left n s" for u
  proof -
    have "\<not> bench_enabled n u s" "bench_enabled n t s" using t u bench_turn_left(1)[OF ok, of t] bench_turn_left(1)[OF ok, of u] by simp_all
    with bench_idle_turn[OF ok] bench_turn_left(1)[OF bench_turn_counts(1)[OF ok refl, of u], of t] u show ?thesis by simp
  qed
qed

context total_fifo_ring
begin

text \<open>Two rounds per item end both loops, with every item delivered in order.\<close>

lemma bench_fair_finishes:
  assumes "0 < cap" "invar r" "contents r = []" "rounds_of UNIV rounds" "2 * n \<le> length rounds"
    and "s = bench_run push pop item n (concat rounds) \<lparr>be_ring = r, be_next = 0, be_received = []\<rparr>"
  shows "be_next s = n \<and> be_received s = map item [0..<n] \<and> contents (be_ring s) = []"
proof -
  let ?s0 = "\<lparr>be_ring = r, be_next = 0, be_received = []\<rparr>"
  have ok0: "bench_ok item n ?s0" using assms(1-3) by (simp add: bench_ok_def)
  have s: "s = fold (bench_turn push pop item n) (concat rounds) ?s0" using assms(6) by (simp add: bench_run_fold)
  have "bench_left n s = 0" unfolding s by (rule bench.fair_run_finishes[OF ok0 assms(4)]) (use assms(5) in \<open>simp add: bench_left_def\<close>)
  moreover have ok: "bench_ok item n s" unfolding s by (rule bench.inv_run[OF ok0])
  ultimately show ?thesis using bench_left_eq[OF ok] by (auto simp: bench_ok_def)
qed

end

section \<open>The property\<close>

text \<open>
  Both programs end. For every number of operations on the command line, two rounds of any fair schedule per operation bring both threads to
  their ends: they can be joined, the consumer has received all items in order and the ring is empty.
\<close>

theorem lab_programs_complete:
  fixes n :: nat
  assumes "n < 2 ^ 63" and "rounds_of UNIV rounds" and "2 * n \<le> length rounds"
  shows "(\<exists>s. spsc_main [decimal (int n)] (concat rounds) = Some (of_nat n, s) \<and> lab_joined n s \<and>
      be_received s = map of_nat [0..<n] \<and> lab_contents (be_ring s) = []) \<and>
    (\<exists>s. doorbell_main [decimal (int n)] (concat rounds) = Some (of_nat n, s) \<and> lab_joined n s \<and>
      be_received s = map doorbell_item [0..<n] \<and> rep_contents bl_consumed bl_doorbell bl_view (be_ring s) = [])"
proof -
  have "int n < 2 ^ 63" using assms(1) by (metis of_nat_less_iff of_nat_numeral of_nat_power)
  then have n: "lab_ops d [decimal (int n)] = Some (of_nat n)" for d
    by (simp add: lab_ops_def atol_decimal)
  have un: "unat (of_nat n :: u64) = n" using assms(1) by (simp add: unat_of_nat take_bit_nat_eq_self)
  have lab0: "lab_inv Ring_zero" "lab_contents Ring_zero = []"
    by (simp_all add: Ring_zero_def rep_wf_def ring_wf_def)
  have bell0: "rep_wf 1024 bl_consumed bl_doorbell bl_view DoorbellRing_zero"
    "rep_contents bl_consumed bl_doorbell bl_view DoorbellRing_zero = []"
    by (simp_all add: DoorbellRing_zero_def bl_view_def rep_wf_def ring_wf_def)
  show ?thesis
    using labq.bench_fair_finishes[OF _ lab0 assms(2,3) refl, of of_nat]
      bellq.bench_fair_finishes[OF _ bell0 assms(2,3) refl, of doorbell_item]
    by (simp add: spsc_main_def doorbell_main_def n un lab_joined_def)
qed

theorem lab_programs_complete_witness:
  "\<exists>s. spsc_main [decimal 3] (concat (replicate 6 [False, True])) = Some (3, s) \<and> be_received s = [0, 1, 2]"
proof -
  have "rounds_of UNIV (replicate 6 [False, True])" by (auto simp: rounds_of_def)
  from lab_programs_complete[OF _ this, of 3] show ?thesis by (auto simp: upt_rec)
qed

end
