(* ===== verification/Lab_Ordering.thy ===== *)
theory Lab_Ordering
  imports Publication Fair_Threads Command_Line
begin

text \<open>
  The program of \<^verbatim>\<open>lab/06_memory_ordering/bench.c\<close> around the two threads of \<open>Publication\<close>, and that its correct mode ends. A schedule says
  which thread makes its next access (\<open>True\<close> the producer); the clock difference the consumer measures at a stale read is an argument.
\<close>

section \<open>The program\<close>

definition pub_turn :: "bool \<Rightarrow> u64 \<Rightarrow> bool \<Rightarrow> pub_state \<Rightarrow> pub_state" where
  "pub_turn correct window t s =
     (if t then case producer_thread correct (pb_prod s) (pb_shared s) of (pc, sh) \<Rightarrow> s\<lparr>pb_prod := pc, pb_shared := sh\<rparr>
      else case consumer_thread window (pb_cons s) (pb_shared s) of (pc, sh) \<Rightarrow> s\<lparr>pb_cons := pc, pb_shared := sh\<rparr>)"

definition run_mode :: "bool \<Rightarrow> u64 \<Rightarrow> u64 \<Rightarrow> bool list \<Rightarrow> pub_state" where
  "run_mode use_release_acquire window iterations sched = fold (pub_turn use_release_acquire window) sched (pub_init iterations)"

text \<open>Both threads have returned and can be joined.\<close>

definition pub_joined :: "pub_state \<Rightarrow> bool" where
  "pub_joined s \<longleftrightarrow> pb_prod s = PDone \<and> pb_cons s = CExit"

definition ordering_iterations :: "string list \<Rightarrow> u64" where
  "ordering_iterations argv = (case argv of [] \<Rightarrow> 1000000 | a # _ \<Rightarrow> strtoul a)"

text \<open>\<open>main\<close>: the broken mode, then the correct one; the states are those the two reports are printed from.\<close>

definition ordering_main :: "string list \<Rightarrow> u64 \<Rightarrow> bool list \<Rightarrow> bool list \<Rightarrow> pub_state \<times> pub_state" where
  "ordering_main argv window sched1 sched2 =
     (let iterations = ordering_iterations argv
      in (run_mode False window iterations sched1, run_mode True window iterations sched2))"

section \<open>The correct mode ends\<close>

fun pub_phase :: "u64 \<Rightarrow> producer_pc \<Rightarrow> bool" where
  "pub_phase n (PWait s) = (0 < unat s \<and> unat s \<le> unat n + 1)"
| "pub_phase n (PSeq s) = (0 < unat s \<and> unat s \<le> unat n)"
| "pub_phase n (PPay s) = (0 < unat s \<and> unat s \<le> unat n)"
| "pub_phase n (PPub s) = (0 < unat s \<and> unat s \<le> unat n)"
| "pub_phase n PDone = True"

fun pub_seen :: "SharedState \<Rightarrow> consumer_pc \<Rightarrow> bool" where
  "pub_seen sh (CPub l d) = (d \<longrightarrow> sh_stop sh)"
| "pub_seen sh CExit = (sh_stop sh \<and> sh_published sh = sh_consumed sh)"
| "pub_seen sh _ = True"

definition pub_fair_inv :: "u64 \<Rightarrow> pub_state \<Rightarrow> bool" where
  "pub_fair_inv n s \<longleftrightarrow> (let sh = pb_shared s in
     pub_inv s \<and> unat n + 1 < 2 ^ 64 \<and> sh_iterations sh = n \<and> pub_phase n (pb_prod s) \<and> pub_seen sh (pb_cons s) \<and>
     (sh_stop sh \<longleftrightarrow> pb_prod s = PDone) \<and> (pb_prod s = PDone \<longrightarrow> sh_published sh = n) \<and> unat (sh_consumed sh) \<le> unat (sh_published sh) \<and> unat (sh_published sh) \<le> unat n)"

fun prod_left :: "u64 \<Rightarrow> producer_pc \<Rightarrow> nat" where
  "prod_left n (PWait s) = 4 * (unat n + 1 - unat s) + 2"
| "prod_left n (PSeq s) = 4 * (unat n + 1 - unat s) + 1"
| "prod_left n (PPay s) = 4 * (unat n + 1 - unat s)"
| "prod_left n (PPub s) = 4 * (unat n + 1 - unat s) - 1"
| "prod_left n PDone = 0"

fun cons_left :: "SharedState \<Rightarrow> consumer_pc \<Rightarrow> nat" where
  "cons_left sh (CTop l) = (if sh_published sh = sh_consumed sh \<and> sh_stop sh then 2 else 5)"
| "cons_left sh (CPub l d) =
     (if sh_published sh \<noteq> sh_consumed sh then 4 else if d then 1 else if sh_stop sh then 3 else 5)"
| "cons_left sh (CSeq l p) = 3"
| "cons_left sh (CPay l p q) = 2"
| "cons_left sh (CAck p) = 1"
| "cons_left sh CExit = 0"

definition pub_left :: "u64 \<Rightarrow> pub_state \<Rightarrow> nat" where
  "pub_left n s = prod_left n (pb_prod s) + 6 * (unat n - unat (sh_consumed (pb_shared s))) + cons_left (pb_shared s) (pb_cons s)"

lemma pred_word: "0 < unat (s :: u64) \<Longrightarrow> unat (s - 1) = unat s - 1"
  by (metis One_nat_def less_numeral_extra(3) unat_0 unat_minus_one)

lemma succ_word: "unat (s :: u64) \<le> unat (n :: u64) \<Longrightarrow> unat n + 1 < 2 ^ 64 \<Longrightarrow> unat (s + 1) = unat s + 1"
  by (subst unat_add_lem[THEN iffD1]) simp_all

lemma pub_inv_turn: "pub_inv s \<Longrightarrow> pub_inv (pub_turn True w t s)"
  using pub_inv_producer[of s] pub_inv_consumer[of s w] by (auto simp: pub_turn_def split: prod.split)

lemma fair_invD:
  assumes "pub_fair_inv n s"
  shows "producer_ok (pb_shared s) (pb_prod s)" "consumer_ok (pb_shared s) (pb_cons s)" "pub_inv s"
    "unat n + 1 < 2 ^ 64" "sh_iterations (pb_shared s) = n" "pub_phase n (pb_prod s)" "pub_seen (pb_shared s) (pb_cons s)"
    "sh_stop (pb_shared s) \<longleftrightarrow> pb_prod s = PDone" "pb_prod s = PDone \<Longrightarrow> sh_published (pb_shared s) = n"
    "unat (sh_consumed (pb_shared s)) \<le> unat (sh_published (pb_shared s))" "unat (sh_published (pb_shared s)) \<le> unat n"
  using assms pub_invD by (auto simp: pub_fair_inv_def Let_def)

lemma producer_turn_inv:
  assumes inv: "pub_fair_inv n s" and s': "s' = pub_turn True w True s"
  shows "pub_fair_inv n s'"
proof -
  note i = fair_invD[OF inv]
  have "pub_inv s'" using i(3) pub_inv_turn s' by simp
  moreover have "pub_seen (pb_shared s') (pb_cons s')"
    using i s' by (cases "pb_prod s"; cases "pb_cons s") (auto simp: pub_turn_def)
  ultimately show ?thesis
    using i s' pred_word succ_word[of _ n]
    by (cases "pb_prod s") (auto simp: pub_fair_inv_def pub_turn_def Let_def word_le_nat_alt word_unat_eq_iff)
qed

lemma producer_turn_left:
  assumes inv: "pub_fair_inv n s" and s': "s' = pub_turn True w True s" and "s' \<noteq> s"
  shows "pub_left n s' < pub_left n s"
proof -
  note i = fair_invD[OF inv]
  show ?thesis
  proof (cases "pb_prod s")
    case (PWait x)
    then show ?thesis using i s' assms(3)
      by (cases "pb_cons s") (auto simp: pub_turn_def pub_left_def word_le_nat_alt split: if_splits)
  next
    case (PSeq x)
    then show ?thesis using i s'
      by (cases "pb_cons s") (auto simp: pub_turn_def pub_left_def)
  next
    case (PPay x)
    then show ?thesis using i s'
      by (cases "pb_cons s") (auto simp: pub_turn_def pub_left_def)
  next
    case (PPub x)
    then show ?thesis using i s' succ_word[of x n]
      by (cases "pb_cons s") (auto simp: pub_turn_def pub_left_def)
  next
    case PDone
    then show ?thesis using assms by (simp add: pub_turn_def)
  qed
qed

lemma consumer_turn_inv:
  assumes inv: "pub_fair_inv n s" and s': "s' = pub_turn True w False s"
  shows "pub_fair_inv n s'"
proof -
  note i = fair_invD[OF inv]
  have "pub_inv s'" using i(3) pub_inv_turn s' by simp
  then show ?thesis
    using i s' by (cases "pb_cons s") (auto simp: pub_fair_inv_def pub_turn_def Let_def)
qed

lemma consumer_turn_left:
  assumes inv: "pub_fair_inv n s" and s': "s' = pub_turn True w False s"
  shows "pub_left n s' \<le> pub_left n s"
    "sh_published (pb_shared s) \<noteq> sh_consumed (pb_shared s) \<or> sh_stop (pb_shared s) \<Longrightarrow> pb_cons s \<noteq> CExit \<Longrightarrow> pub_left n s' < pub_left n s"
    "sh_published (pb_shared s) = sh_consumed (pb_shared s) \<Longrightarrow> \<not> sh_stop (pb_shared s) \<Longrightarrow> pb_shared s' = pb_shared s \<and> pb_prod s' = pb_prod s"
proof -
  note i = fair_invD[OF inv]
  have slot: "sh_published (pb_shared s) \<noteq> sh_consumed (pb_shared s) \<Longrightarrow>
      sh_seq (pb_shared s) = sh_published (pb_shared s) \<and> sh_payload (pb_shared s) = sh_published (pb_shared s)"
    using producer_ok_slot[OF _ i(1)] by metis
  have less: "sh_published (pb_shared s) \<noteq> sh_consumed (pb_shared s) \<Longrightarrow> unat (sh_consumed (pb_shared s)) < unat (sh_published (pb_shared s))"
    using i(10) by (simp add: word_unat_eq_iff)
  show "pub_left n s' \<le> pub_left n s"
    using i s' slot less by (cases "pb_cons s") (auto simp: pub_turn_def pub_left_def)
  show "sh_published (pb_shared s) \<noteq> sh_consumed (pb_shared s) \<or> sh_stop (pb_shared s) \<Longrightarrow> pb_cons s \<noteq> CExit \<Longrightarrow> pub_left n s' < pub_left n s"
    using i s' slot less by (cases "pb_cons s") (auto simp: pub_turn_def pub_left_def)
  show "sh_published (pb_shared s) = sh_consumed (pb_shared s) \<Longrightarrow> \<not> sh_stop (pb_shared s) \<Longrightarrow> pb_shared s' = pb_shared s \<and> pb_prod s' = pb_prod s"
    using i s' by (cases "pb_cons s") (auto simp: pub_turn_def)
qed

lemma producer_turn_same:
  "pub_turn c w True s = s \<longleftrightarrow> producer_thread c (pb_prod s) (pb_shared s) = (pb_prod s, pb_shared s)"
  by (cases s) (auto simp: pub_turn_def split: prod.split)

interpretation pubq: fair_steps UNIV "pub_turn True w" "pub_fair_inv n" "pub_left n" for w n
proof
  fix s t assume inv: "pub_fair_inv n s"
  note i = fair_invD[OF inv]
  show "pub_fair_inv n (pub_turn True w t s)"
    using producer_turn_inv[OF inv refl] consumer_turn_inv[OF inv refl] by (cases t) auto
  show le: "pub_left n (pub_turn True w t s) \<le> pub_left n s"
    using producer_turn_left[OF inv refl] consumer_turn_left(1)[OF inv refl]
    by (cases t; cases "pub_turn True w True s = s") (auto intro: less_imp_le)
  show "\<exists>t \<in> UNIV. pub_left n (pub_turn True w t s) < pub_left n s" if "0 < pub_left n s"
  proof (cases "sh_published (pb_shared s) = sh_consumed (pb_shared s) \<and> pb_prod s \<noteq> PDone")
    case True
    then have "pb_prod (pub_turn True w True s) \<noteq> pb_prod s"
      using i by (cases "pb_prod s") (auto simp: pub_turn_def)
    then have "pub_turn True w True s \<noteq> s" by auto
    then show ?thesis using producer_turn_left[OF inv refl] by blast
  next
    case False
    have "pb_cons s \<noteq> CExit"
    proof
      assume e: "pb_cons s = CExit"
      then have "pb_prod s = PDone" "sh_consumed (pb_shared s) = n" using i False by auto
      then show False using that e by (simp add: pub_left_def)
    qed
    then show ?thesis using consumer_turn_left(2)[OF inv refl] False i(8) by blast
  qed
  show "pub_left n (pub_turn True w t (pub_turn True w u s)) < pub_left n s"
    if t: "pub_left n (pub_turn True w t s) < pub_left n s" and u: "pub_left n (pub_turn True w u s) = pub_left n s" for u
  proof (cases "pub_turn True w u s = s")
    case False
    have "\<not> u" using producer_turn_left[OF inv refl, of w] u False by (cases u) simp_all
    then have "t" using t u by (cases t) auto
    let ?s = "pub_turn True w False s"
    have "pb_cons s \<noteq> CExit" using False \<open>\<not> u\<close> by (auto simp: pub_turn_def)
    then have "sh_published (pb_shared s) = sh_consumed (pb_shared s) \<and> \<not> sh_stop (pb_shared s)"
      using consumer_turn_left(2)[OF inv refl, of w] u \<open>\<not> u\<close> by auto
    then have same: "pb_shared ?s = pb_shared s" "pb_prod ?s = pb_prod s" using consumer_turn_left(3)[OF inv refl] by auto
    have "pub_turn True w True s \<noteq> s" using t \<open>t\<close> by auto
    then have "pub_turn True w True ?s \<noteq> ?s" unfolding producer_turn_same same .
    from producer_turn_left[OF consumer_turn_inv[OF inv refl] refl this] show ?thesis using \<open>t\<close> \<open>\<not> u\<close> u by simp
  qed (use t in simp)
qed

section \<open>The property\<close>

text \<open>
  The correct mode of the lab ends: \<open>10 n + 7\<close> rounds of any fair schedule bring both threads to their ends with all \<open>n\<close> items published and
  consumed and no stale observation, for every \<open>n\<close> below \<open>UINT64_MAX\<close> (there the producer's loop would never end) that the command line gives.
\<close>

theorem ordering_lab_completes:
  assumes "rounds_of UNIV rounds" and "10 * n + 7 \<le> length rounds" and "n < 2 ^ 64 - 1"
    and "(b, s) = ordering_main [decimal (int n)] window sched (concat rounds)"
  shows "pub_joined s \<and> sh_consumed (pb_shared s) = of_nat n \<and> sh_published (pb_shared s) = of_nat n \<and> sh_stale_reads (pb_shared s) = 0"
proof -
  let ?n = "of_nat n :: u64"
  have "int n < 2 ^ 64" using assms(3) by simp
  then have it: "ordering_iterations [decimal (int n)] = ?n" by (simp add: ordering_iterations_def strtoul_decimal)
  have un: "unat ?n = n" using assms(3) by (simp add: unat_of_nat take_bit_nat_eq_self)
  have s: "s = fold (pub_turn True window) (concat rounds) (pub_init ?n)"
    using assms(4) by (simp add: ordering_main_def run_mode_def it)
  have start: "pub_fair_inv ?n (pub_init ?n)" "pub_left ?n (pub_init ?n) = 10 * n + 7"
    using pub_inv_init[of ?n] assms(3) by (simp_all add: pub_fair_inv_def pub_left_def pub_init_def un)
  have "pub_left ?n s = 0" unfolding s by (rule pubq.fair_run_finishes[OF start(1) assms(1)]) (use assms(2) start(2) in simp)
  moreover have "pub_fair_inv ?n s" unfolding s by (rule pubq.inv_run[OF start(1)])
  ultimately show ?thesis
    using fair_invD[of ?n s] pub_invD(3)[of s]
    by (cases "pb_prod s"; cases "pb_cons s") (auto simp: pub_left_def pub_joined_def split: if_splits)
qed

theorem ordering_lab_completes_witness:
  "pub_joined (snd (ordering_main [decimal 2] 0 [] (concat (replicate 27 [True, False]))))"
proof -
  have "rounds_of UNIV (replicate 27 [True, False])" by (auto simp: rounds_of_def)
  from ordering_lab_completes[OF this, of 2 "fst (ordering_main [decimal 2] 0 [] (concat (replicate 27 [True, False])))"
      "snd (ordering_main [decimal 2] 0 [] (concat (replicate 27 [True, False])))" 0 "[]"]
  show ?thesis by simp
qed

end
