(* ===== verification/Bench_Mains.thy ===== *)
theory Bench_Mains
  imports Bench_Tax Bench_Fastpath Lab_Wakeup Lab_Programs
begin

text \<open>
  The programs of \<^verbatim>\<open>bench/bench_control_tax.cu\<close>, \<^verbatim>\<open>bench/bench_hw_fastpath.c\<close>, \<^verbatim>\<open>lab/01_false_sharing/bench.c\<close> and
  \<^verbatim>\<open>lab/04_syscall_vs_poll/bench.c\<close> from their options to their exit status, over the benchmarks of \<open>Bench_Tax\<close>, \<open>Bench_Fastpath\<close> and
  \<open>Lab_Wakeup\<close>. Schedules and the results of system calls are arguments; the times are not modelled.
\<close>

section \<open>The programs\<close>

datatype program_end = Exit int | Running | Undefined

subsection \<open>The control-plane benchmark\<close>

definition tax_iterations :: "string list \<Rightarrow> int option" where
  "tax_iterations argv = (case argv of [] \<Rightarrow> Some 1000000 | a # _ \<Rightarrow> atoi a)"

text \<open>A mode has returned when its main thread has; a mode that failed ends the program with status 1.\<close>

definition tax_then :: "tax_state option \<Rightarrow> program_end \<Rightarrow> program_end" where
  "tax_then mode rest = (case mode of None \<Rightarrow> Exit 1 | Some s \<Rightarrow> if tx_main s = TReturned then rest else Running)"

definition control_tax_main ::
  "string list \<Rightarrow> bool \<Rightarrow> (nat \<Rightarrow> bool \<times> bool) \<Rightarrow> bool \<times> bool \<Rightarrow> bool \<times> bool \<Rightarrow> tax_thread list \<Rightarrow> tax_thread list \<Rightarrow> program_end" where
  "control_tax_main argv efd_ok oks b_ok c_ok sched_b sched_c =
     (case tax_iterations argv of None \<Rightarrow> Undefined | Some n \<Rightarrow>
        case fst (bench_mode_a efd_ok oks n) of
          TaxFailed \<Rightarrow> Exit 1
        | TaxBlocked \<Rightarrow> Running
        | TaxDone \<Rightarrow>
            tax_then (bench_mode_b (fst b_ok) (snd b_ok) n sched_b)
              (tax_then (bench_mode_c (fst c_ok) (snd c_ok) n sched_c) (Exit 0)))"

subsection \<open>The fast-path benchmark\<close>

definition fastpath_iterations :: "string list \<Rightarrow> u32" where
  "fastpath_iterations argv = (case argv of [] \<Rightarrow> 200000 | a # _ \<Rightarrow> ucast (strtoul a))"

text \<open>
  The sweep in the order of the calls; each has its own allocations and its own interleaving. A benchmark whose allocations fail prints
  nothing and the sweep goes on.
\<close>

fun batch_sweep :: "(nat \<Rightarrow> nat \<Rightarrow> nat) \<Rightarrow> (nat \<Rightarrow> bool \<times> bool \<times> bool) \<Rightarrow> nat \<Rightarrow> u32 list \<Rightarrow> u32 \<Rightarrow> fast_report option list option" where
  "batch_sweep runs ok k [] iterations = Some []"
| "batch_sweep runs ok k (b # bs) iterations =
     (case ok k of (cmd_ok, done_ok, lat_ok) \<Rightarrow>
        Option.bind (run_batch_benchmark (runs k) cmd_ok done_ok lat_ok b iterations)
          (\<lambda>r. map_option ((#) r) (batch_sweep runs ok (Suc k) bs iterations)))"

text \<open>\<open>main\<close>: \<open>None\<close> when it does not return; otherwise its status, what the smoke call printed and the reports.\<close>

definition fastpath_main ::
  "(nat \<Rightarrow> nat \<Rightarrow> nat) \<Rightarrow> bool \<times> bool \<Rightarrow> (nat \<Rightarrow> bool \<times> bool \<times> bool) \<Rightarrow> string list \<Rightarrow> (int \<times> (int \<times> u32) option \<times> fast_report option list) option" where
  "fastpath_main runs smoke_ok ok argv =
     map_option (\<lambda>reports. (0, run_submit_api_smoke (fst smoke_ok) (snd smoke_ok), reports))
       (batch_sweep runs ok 0 [1, 8, 32, 64] (fastpath_iterations argv))"

subsection \<open>The wake-up lab\<close>

text \<open>\<open>bench_eventfd\<close> returns after the join, or at once when the descriptor could not be made or a \<open>write\<close> failed; \<open>main\<close> goes on in any case.\<close>

definition efd_returned :: "efd_state option \<Rightarrow> bool" where
  "efd_returned r = (case r of None \<Rightarrow> True | Some s \<Rightarrow> es_main s = Returned \<or> es_main s = Failed)"

definition wakeup_main :: "string list \<Rightarrow> bool \<Rightarrow> (wake_thread \<times> bool) list \<Rightarrow> wake_thread list \<Rightarrow> wake_thread list \<Rightarrow> program_end" where
  "wakeup_main argv efd_ok sched_efd sched_poll sched_yield =
     (case lab_ops 100000 argv of None \<Rightarrow> Undefined | Some n \<Rightarrow>
        if efd_returned (bench_eventfd efd_ok n sched_efd) \<and> ps_main (bench_poll_lab n sched_poll) = PReturned \<and>
           ps_main (bench_yield n sched_yield) = PReturned
        then Exit 0 else Running)"

subsection \<open>The false-sharing lab\<close>

text \<open>A structure of counters at \<open>base\<close>, initialised to zero and given to \<open>run_bench\<close>; the padding is never read.\<close>

definition counters_run :: "nat \<times> nat \<Rightarrow> u64 \<Rightarrow> bool list \<Rightarrow> (nat \<Rightarrow> u64) \<Rightarrow> run_state" where
  "counters_run cnt n sched m = (case cnt of (a, b) \<Rightarrow> run_bench a b n sched (m(a := 0, b := 0)))"

definition false_sharing_main :: "string list \<Rightarrow> nat \<Rightarrow> nat \<Rightarrow> bool list \<Rightarrow> bool list \<Rightarrow> (nat \<Rightarrow> u64) \<Rightarrow> program_end \<times> (nat \<Rightarrow> u64)" where
  "false_sharing_main argv shared padded sched1 sched2 m =
     (case lab_ops 100000000 argv of None \<Rightarrow> (Undefined, m) | Some n \<Rightarrow>
        let s = counters_run (shared_counters shared) n sched1 m
        in if \<not> run_joined n s then (Running, rs_mem s)
           else let s = counters_run (padded_counters padded) n sched2 (rs_mem s)
                in (if run_joined n s then Exit 0 else Running, rs_mem s))"

section \<open>The programs end\<close>

lemma tax_then_fair:
  assumes "0 \<le> n" "n < 2 ^ 31" "rounds_of UNIV rounds" "6 * nat n + 3 \<le> length rounds"
  shows "tax_then (bench_mode_b a t n (concat rounds)) rest = (if a \<and> t then rest else Exit 1)"
    "tax_then (bench_mode_c a t n (concat rounds)) rest = (if a \<and> t then rest else Exit 1)"
proof -
  obtain b c where runs: "bench_mode_b True True n (concat rounds) = Some b" "bench_mode_c True True n (concat rounds) = Some c"
    by (simp add: bench_mode_b_def bench_mode_c_def)
  have "tx_main b = TReturned" "tx_main c = TReturned" using control_tax_round_trips[OF assms(1,2) runs] assms(3,4) by blast+
  then have "tax_then (bench_mode_b True True n (concat rounds)) rest = rest" "tax_then (bench_mode_c True True n (concat rounds)) rest = rest"
    using runs by (simp_all add: tax_then_def)
  then show "tax_then (bench_mode_b a t n (concat rounds)) rest = (if a \<and> t then rest else Exit 1)"
    "tax_then (bench_mode_c a t n (concat rounds)) rest = (if a \<and> t then rest else Exit 1)"
    by (cases a; cases t; simp add: bench_mode_b_def bench_mode_c_def tax_then_def)+
qed

text \<open>
  The control-plane benchmark ends with status 0 exactly when every system call, allocation and thread creation it gets to succeeds, and
  with 1 otherwise: under fair schedules it neither blocks nor spins forever.
\<close>

theorem control_tax_exit_status:
  assumes "0 \<le> n" and "n < 2 ^ 31" and "rounds_of UNIV b_rounds" and "6 * nat n + 3 \<le> length b_rounds"
    and "rounds_of UNIV c_rounds" and "6 * nat n + 3 \<le> length c_rounds"
  shows "control_tax_main [decimal n] efd_ok oks b_ok c_ok (concat b_rounds) (concat c_rounds) =
    Exit (if efd_ok \<and> (\<forall>i < nat n. oks i = (True, True)) \<and> b_ok = (True, True) \<and> c_ok = (True, True) then 0 else 1)"
proof -
  have "tax_iterations [decimal n] = Some n" using assms(1,2) by (simp add: tax_iterations_def atoi_decimal)
  then show ?thesis
    by (cases b_ok; cases c_ok) (simp add: control_tax_main_def mode_a_exact tax_then_fair[OF assms(1-4)] tax_then_fair[OF assms(1,2,5,6)])
qed

theorem control_tax_exit_status_witness:
  "control_tax_main [decimal 1] True (\<lambda>_. (True, True)) (True, True) (True, True)
     (concat (replicate 9 [Consumer, Main])) (concat (replicate 9 [Main, Consumer])) = Exit 0"
proof -
  have r: "rounds_of UNIV (replicate 9 [Consumer, Main])" "rounds_of UNIV (replicate 9 [Main, Consumer])"
    using tax_thread.exhaust by (auto simp: rounds_of_def)
  show ?thesis by (subst control_tax_exit_status[OF _ _ r(1) _ r(2)]) simp_all
qed

lemma batch_sweep_reports:
  assumes "\<And>k i. 0 < runs k i" "0 < n" "n < 2 ^ 32" "\<forall>b \<in> set bs. 0 < b"
  shows "\<exists>rs. batch_sweep runs (\<lambda>_. (True, True, True)) k bs (of_nat n) = Some (map Some rs) \<and>
    list_all2 (\<lambda>b r. fr_submitted r = of_nat n \<and> fr_completed r = of_nat n \<and> fr_actual_writes r = (n + unat b - 1) div unat b \<and>
      sy_pc (fr_end r) = WReturned) bs rs"
  using assms(4)
proof (induction bs arbitrary: k)
  case (Cons b bs)
  from batch_benchmark_outcome[of "runs k" n b] assms(1-3) Cons.prems obtain r where
    r: "run_batch_benchmark (runs k) True True True b (of_nat n) = Some (Some r)" "fr_submitted r = of_nat n" "fr_completed r = of_nat n"
      "fr_actual_writes r = (n + unat b - 1) div unat b" "sy_pc (fr_end r) = WReturned" by auto
  from Cons.IH[of "Suc k"] Cons.prems obtain rs where
    "batch_sweep runs (\<lambda>_. (True, True, True)) (Suc k) bs (of_nat n) = Some (map Some rs)" and
    "list_all2 (\<lambda>b r. fr_submitted r = of_nat n \<and> fr_completed r = of_nat n \<and> fr_actual_writes r = (n + unat b - 1) div unat b \<and>
      sy_pc (fr_end r) = WReturned) bs rs" by auto
  with r show ?case by (intro exI[of _ "r # rs"]) simp
qed simp

text \<open>
  The fast-path program ends: with a worker that keeps running and memory for the rings, the submission call succeeds with the doorbell at 1,
  and each of the four sweeps submits and completes all \<open>n\<close> descriptors and rings the doorbell \<open>n / batch\<close> times, rounded up.
\<close>

theorem fastpath_program_returns:
  assumes "\<And>k i. 0 < runs k i" and "0 < n" and "n < 2 ^ 32"
  shows "\<exists>rs. fastpath_main runs (True, True) (\<lambda>_. (True, True, True)) [decimal (int n)] = Some (0, Some (0, 1), map Some rs) \<and>
    map fr_actual_writes rs = [n, (n + 7) div 8, (n + 31) div 32, (n + 63) div 64] \<and>
    (\<forall>r \<in> set rs. fr_submitted r = of_nat n \<and> fr_completed r = of_nat n \<and> sy_pc (fr_end r) = WReturned)"
proof -
  have "int n < 2 ^ 64" using assms(3) by simp
  then have it: "fastpath_iterations [decimal (int n)] = of_nat n"
    by (simp add: fastpath_iterations_def strtoul_decimal unsigned_of_nat take_bit_nat_eq_self)
  have "\<forall>b \<in> set [1, 8, 32, 64 :: u32]. 0 < b" by (simp add: word_less_nat_alt)
  from batch_sweep_reports[where runs = runs and k = 0, OF assms this] obtain rs where
    rs: "batch_sweep runs (\<lambda>_. (True, True, True)) 0 [1, 8, 32, 64] (of_nat n) = Some (map Some rs)"
      "list_all2 (\<lambda>b r. fr_submitted r = of_nat n \<and> fr_completed r = of_nat n \<and> fr_actual_writes r = (n + unat b - 1) div unat b \<and>
      sy_pc (fr_end r) = WReturned) [1, 8, 32, 64 :: u32] rs" by blast
  have sizes: "unat (8 :: u32) = 8" "unat (32 :: u32) = 32" "unat (64 :: u32) = 64" by simp_all
  have "map fr_actual_writes rs = [n, (n + 7) div 8, (n + 31) div 32, (n + 63) div 64] \<and>
    (\<forall>r \<in> set rs. fr_submitted r = of_nat n \<and> fr_completed r = of_nat n \<and> sy_pc (fr_end r) = WReturned)"
    using rs(2) by (auto simp: list_all2_Cons1 sizes)
  with rs(1) show ?thesis by (intro exI[of _ rs]) (simp add: fastpath_main_def it run_submit_api_smoke_passes del: batch_sweep.simps)
qed

theorem fastpath_program_returns_witness:
  "\<exists>rs. fastpath_main (\<lambda>_ _. 1) (True, True) (\<lambda>_. (True, True, True)) [decimal 100] = Some (0, Some (0, 1), map Some rs) \<and>
     map fr_actual_writes rs = [100, 13, 4, 2]"
  using fastpath_program_returns[of "\<lambda>_ _. 1" 100] by auto

lemma lab_ops_decimal: "n < 2 ^ 63 \<Longrightarrow> lab_ops d [decimal (int n)] = Some (of_nat n)"
  by (simp add: lab_ops_def atol_decimal)

lemma counters_run_fair:
  assumes "cnt \<in> {shared_counters base, padded_counters base}" "cnt = (a, b)" "rounds_of UNIV rounds" "4 * unat n \<le> length rounds"
  shows "run_joined n (counters_run cnt n (concat rounds) m) \<and> rs_mem (counters_run cnt n (concat rounds) m) = m(a := n, b := n)"
proof -
  have ab: "a \<noteq> b" using assms(1,2) by (auto simp: shared_counters_def padded_counters_def)
  have "(a, b) \<in> {shared_counters base, padded_counters base}" using assms(1,2) by simp
  from false_sharing_bench_exact[OF this, of n "m(a := 0, b := 0)"] assms(3,4) ab show ?thesis
    by (auto simp: counters_run_def assms(2) fun_upd_twist)
qed

text \<open>
  Both labs end with status 0 under fair schedules, whatever number is on the command line; the false-sharing lab leaves \<open>n\<close> in each of its
  four counters.
\<close>

theorem labs_exit:
  fixes n :: nat
  assumes "n < 2 ^ 63" and "\<forall>rounds \<in> {r1, r2}. rounds_of UNIV rounds \<and> 4 * n \<le> length rounds"
    and "\<forall>rounds \<in> {w1, w2, w3}. rounds_of UNIV rounds \<and> 4 * n + 3 \<le> length rounds" and "{sh, sh + 8} \<inter> {pd, pd + 64} = {}"
  shows "wakeup_main [decimal (int n)] efd_ok (map (\<lambda>t. (t, True)) (concat w1)) (concat w2) (concat w3) = Exit 0 \<and>
    false_sharing_main [decimal (int n)] sh pd (concat r1) (concat r2) m =
      (Exit 0, m(sh := of_nat n, sh + 8 := of_nat n, pd := of_nat n, pd + 64 := of_nat n))"
proof
  have un: "unat (of_nat n :: u64) = n" using assms(1) by (simp add: unat_of_nat take_bit_nat_eq_self)
  note it = lab_ops_decimal[OF assms(1)]
  have "efd_returned (bench_eventfd efd_ok (of_nat n) (map (\<lambda>t. (t, True)) (concat w1)))"
  proof (cases efd_ok)
    case True
    then obtain s where s: "bench_eventfd True (of_nat n) (map (\<lambda>t. (t, True)) (concat w1)) = Some s" by (simp add: bench_eventfd_def)
    from eventfd_bench_complete[OF s] assms(3) have "es_main s = Returned" by (auto simp: un)
    with s True show ?thesis by (simp add: efd_returned_def)
  qed (simp add: bench_eventfd_def efd_returned_def)
  then show "wakeup_main [decimal (int n)] efd_ok (map (\<lambda>t. (t, True)) (concat w1)) (concat w2) (concat w3) = Exit 0"
    using poll_lab_outcome(2)[OF disjI1[OF refl] refl, of w2 "of_nat n"] poll_lab_outcome(2)[OF disjI2[OF refl] refl, of w3 "of_nat n"] assms(3)
    by (simp add: wakeup_main_def it un)
  have c1: "shared_counters sh = (sh, sh + 8)" "padded_counters pd = (pd, pd + 64)" by (simp_all add: shared_counters_def padded_counters_def)
  have "rounds_of UNIV r1" "rounds_of UNIV r2" "4 * unat (of_nat n :: u64) \<le> length r1" "4 * unat (of_nat n :: u64) \<le> length r2"
    using assms(2) by (simp_all add: un)
  then show "false_sharing_main [decimal (int n)] sh pd (concat r1) (concat r2) m =
      (Exit 0, m(sh := of_nat n, sh + 8 := of_nat n, pd := of_nat n, pd + 64 := of_nat n))"
    using counters_run_fair[OF _ c1(1), of sh r1 "of_nat n"] counters_run_fair[OF _ c1(2), of pd r2 "of_nat n"]
    by (simp add: false_sharing_main_def it Let_def)
qed

theorem labs_exit_witness:
  "wakeup_main [decimal 1] True (map (\<lambda>t. (t, True)) (concat (replicate 7 [Sleeper, Waker]))) (concat (replicate 7 [Waker, Sleeper]))
     (concat (replicate 7 [Waker, Sleeper])) = Exit 0 \<and>
   fst (false_sharing_main [decimal 1] 0 64 (concat (replicate 4 [True, False])) (concat (replicate 4 [False, True])) (\<lambda>_. 7)) = Exit 0"
proof -
  have r: "\<forall>rounds \<in> {replicate 4 [True, False], replicate 4 [False, True]}. rounds_of UNIV rounds \<and> 4 * 1 \<le> length rounds"
    by (auto simp: rounds_of_def)
  have w: "\<forall>rounds \<in> {replicate 7 [Sleeper, Waker], replicate 7 [Waker, Sleeper], replicate 7 [Waker, Sleeper]}. rounds_of UNIV rounds \<and> 4 * 1 + 3 \<le> length rounds"
    using wake_thread.exhaust by (auto simp: rounds_of_def)
  show ?thesis using labs_exit[OF _ r w, of 0 64 True "\<lambda>_. 7"] by simp
qed

end
