(* ===== verification/Spec2Isabelle.thy ===== *)
theory Spec2Isabelle
  imports Infer_Submit Hw_Worker Spsc_Protocol Runtime_Lifecycle Request_Ring Reward_Ring Arena Rollout
    KV_Prefix Pipeline Trace Publication Lab_Rings Layout Metrics_Guard Gpu_Worker Gpu_Scheduler Rtl_Bridge
    Bench_Init Bench_Trace Bench_Fastpath Bench_Cow Model_Kernels Lab_Wakeup Page_Alloc Bench_Scheduler Bench_Tax
    Bench_Prefetch Bench_Microkernel Runtime_Program Rtl_Mmio Bench_Program Lab_Programs Lab_Ordering Bench_Mains
begin

text \<open>
  Verification development for the GB300 RL inference runtime.

  \<^bold>\<open>The program.\<close> A host feeds decode steps of reinforcement-learning rollouts to a device through
  shared-memory rings and takes completions back. The parts and how they interact:

  \<^item> \<^emph>\<open>Rings.\<close> The command ring (\<^verbatim>\<open>include/ring.h\<close>) carries descriptors to the device, the completion
    ring (\<^verbatim>\<open>include/completion.h\<close>) results back; the request and done rings (\<^verbatim>\<open>include/request.h\<close>) do
    the same for whole rollouts, the reward ring (\<^verbatim>\<open>src/reward.c\<close>) hands finished rollouts to scoring,
    and the hardware ring (\<^verbatim>\<open>include/hw_ring.h\<close>) serves the fast path without a GPU.
  \<^item> \<^emph>\<open>Host.\<close> \<^verbatim>\<open>src/main.c\<close> initialises everything, dispatches trajectories in batches
    (\<^verbatim>\<open>src/decode_batch.c\<close>), polls completions and shuts the device down with sentinels. The arena
    (\<^verbatim>\<open>src/arena.c\<close>), the rollout slab (\<^verbatim>\<open>src/rollout.c\<close>) and the prefix table (\<^verbatim>\<open>src/kv_prefix.c\<close>)
    allocate; the pipeline (\<^verbatim>\<open>src/pipeline.c\<close>) queues rollouts by stage; trace, metrics and hot-path
    guard observe.
  \<^item> \<^emph>\<open>Device.\<close> \<^verbatim>\<open>cu/worker.cu\<close> consumes descriptors, stages KV blocks (\<^verbatim>\<open>cu/prefetch.cu\<close>), runs attention
    (\<^verbatim>\<open>cu/attention_decode.cu\<close>) and pushes completions; \<^verbatim>\<open>cu/gpu_scheduler.cu\<close> runs whole rollouts on its
    own; \<^verbatim>\<open>cu/sample.cu\<close> draws tokens.
  \<^item> \<^emph>\<open>Fast path and RTL.\<close> \<^verbatim>\<open>src/infer_submit.c\<close> pushes into the hardware ring and rings a doorbell,
    \<^verbatim>\<open>src/hw_worker_sim.c\<close> simulates the worker behind it, \<^verbatim>\<open>rtl/\<close> is its hardware and \<^verbatim>\<open>verilator/\<close> the
    bridge that drives the hardware from software.
  \<^item> \<^emph>\<open>Benchmarks and labs.\<close> \<^verbatim>\<open>bench/\<close> and \<^verbatim>\<open>lab/\<close> put the parts together or isolate one of them.

  \<^bold>\<open>Shared layers.\<close>

  \<^item> \<open>Prelude\<close>: C integers as words, the lemma collections, circular-buffer arithmetic.
  \<^item> \<open>Fifo_Spec\<close>: the abstract bounded FIFO with the locales \<open>fifo_ring\<close> (a ring that refines it while
    a budget of operations lasts), \<open>total_fifo_ring\<close> (without a budget) and \<open>counted_ring\<close> (rejected pushes
    are counted); their clients' lemmas say that runs deliver what was accepted, in order, once.
  \<^item> \<open>Ring_Rep\<close>: \<open>ring_rep\<close>, \<open>wrap_ring\<close> and \<open>nowrap_ring\<close>, the three shapes of counter arithmetic in the
    code. \<open>wrap_ring\<close> (emptiness by equality) gives \<open>total_fifo_ring\<close>; \<open>nowrap_ring\<close> (emptiness by
    comparison, which fails when a counter wraps) gives \<open>fifo_ring\<close> only as long as the budget of
    \<open>2^32\<close> pushes lasts, and its lemmas show what happens afterwards.
  \<^item> \<open>Bitmap\<close>: bitmaps as finite sets and the locale \<open>id_allocator\<close>, interpreted for the arena, the slab
    and both tables of \<open>KV_Prefix\<close>.
  \<^item> \<open>Fair_Threads\<close>: the locales \<open>fair_steps\<close> and \<open>fair_threads\<close>, threads whose remaining work is bounded; their lemma says that
    as many fair rounds as there is work end a run. The concurrent benchmarks and labs interpret them.
  \<^item> \<open>Command_Line\<close>: \<open>atoi\<close>, \<open>atol\<close> and \<open>strtoul\<close>, and that they read back what \<open>decimal\<close> writes.

  \<^bold>\<open>Components.\<close> Every record field and every operation carries the name of the code.

  \<^item> \<open>Hw_Ring\<close>, \<open>Command_Ring\<close>, \<open>Completion_Ring\<close>, \<open>Request_Ring\<close>, \<open>Reward_Ring\<close>: each ring interprets one
    of the ring locales on its own operations; the theorems are the refinement of the FIFO from any
    counter position (\<open>Hw_Ring\<close>) or until the counters wrap (the others), the accounting of rejected
    pushes, and the runs that get stuck after the wrap.
  \<^item> \<open>Spsc_Protocol\<close>: push and pop of the hardware ring at single loads and stores of two threads;
    \<open>Publication\<close>: the same for \<^verbatim>\<open>lab/06_memory_ordering\<close>, with and without the right store order;
    \<open>Lab_Rings\<close>: the rings and threads of \<^verbatim>\<open>lab/02_spsc_ring\<close> and \<^verbatim>\<open>lab/05_doorbell_mock\<close>. \<open>Lab_Programs\<close> and
    \<open>Lab_Ordering\<close>: their programs, which end under every fair schedule with all items received.
  \<^item> \<open>Decode_Batch\<close>: batches; a submission is atomic. \<open>Infer_Submit\<close>: the doorbell follows the push.
  \<^item> \<open>Hw_Worker\<close>: the simulated worker as a step function (taking, pushing and counting are separate steps), alone (it returns, having completed what
    precedes the stop descriptor) and beside a submitter and a collector (nothing lost, duplicated or
    reordered).
  \<^item> \<open>Arena\<close>, \<open>Rollout\<close>, \<open>KV_Prefix\<close>, \<open>Pipeline\<close>: allocation is sound and complete; a rollout goes through the histories
    of its life cycle, which are stated apart from the code's table, and a race has one winner; reference counts are exact in every reachable table;
    queues conserve ids and credits stay within their limits.
  \<^item> \<open>Trace\<close>, \<open>Metrics_Guard\<close>, \<open>Layout\<close>: what the trace keeps, that reported latencies belong to real
    pairs, percentiles, counters; sizes and offsets of the packed structures and of KV blocks.
  \<^item> \<open>Device_Buffers\<close>, \<open>Runtime_Main\<close>, \<open>Runtime_Lifecycle\<close>: ownership of every block in \<open>mem\<close>; dispatch,
    poll and shutdown loops; initialisation is all or nothing and shutdown gives everything back.
    \<open>Runtime_Program\<close>: \<open>main\<close> from its options to its exit status: it returns when its initialisation
    fails and never after it has succeeded.
    \<open>Page_Alloc\<close>: hugepage allocation and binding of \<^verbatim>\<open>src/numa.c\<close>, and the hugepage lab.
  \<^item> \<open>Sampler\<close>, \<open>Attention\<close>, \<open>Prefetch\<close>, \<open>Model_Kernels\<close>: the device functions over an arbitrary float arithmetic
    (\<open>flops\<close>, \<open>attn_ops\<close>, \<open>kernel_ops\<close>); the equivalences with softmax attention and with the residual block
    instantiate it with exact arithmetic. In \<open>Prefetch\<close> a copy is issued, in flight, and landed at the latest at the end of the wait.
  \<^item> \<open>Gpu_Worker\<close>, \<open>Gpu_Scheduler\<close>: the device loops one shared-memory action at a time beside the host (a push, the release of
    a slot and the increment of a counter are separate steps): exactly-once processing, conservation of rollouts, and that main's wait loop ends.
  \<^item> \<open>Rtl\<close>, \<open>Rtl_Mmio\<close>, \<open>Rtl_Bridge\<close>: the clocked hardware, its agreement with the simulated worker, the doorbell
    register (which the top level does not instantiate), and the bridge as a queue with bounded latency.
  \<^item> \<open>Bench_Init\<close>, \<open>Bench_Pipeline\<close>, \<open>Bench_Rollouts\<close>, \<open>Bench_Trace\<close>: the two pipeline benchmarks, which
    compose the pipeline, slab, batches, rings, reward ring, metrics and the decode worker: every
    rollout is completed and accounted for, small runs return, a discarded completion makes the
    final wait endless, tracing changes nothing, and what a failed initialisation leaves behind.
    \<open>Bench_Program\<close>: both programs from their options to their exit status, with a run on several SMs left open.
  \<^item> \<open>Bench_Fastpath\<close> (\<^verbatim>\<open>bench_hw_fastpath.c\<close>), \<open>Bench_Tax\<close> (\<^verbatim>\<open>bench_control_tax.cu\<close>), \<open>Bench_Scheduler\<close>
    (\<^verbatim>\<open>bench_gpu_scheduler.cu\<close>), \<open>Bench_Cow\<close> (\<^verbatim>\<open>bench_cow_prefix.cu\<close>), \<open>Bench_Prefetch\<close>, \<open>Bench_Microkernel\<close>
    (\<^verbatim>\<open>bench_decode_microkernel.cu\<close>) and \<open>Lab_Wakeup\<close> (labs 1 and 4): what the other benchmarks compute and that
    they end, or that they cannot. \<open>Bench_Mains\<close>: the programs of the fast-path and control-plane benchmarks and of labs 1 and 4.

  \<^bold>\<open>Conventions.\<close> A pointer that may be NULL is an \<open>option\<close>; an out-parameter is part of the result and
  \<open>None\<close> when it is not written. What the code cannot decide (results of \<open>mmap\<close>, \<open>malloc\<close> and CUDA
  calls, contents of uninitialised memory, clock readings, how far the device runs between two
  accesses of the host) is an argument. The interleavings assume sequentially consistent single
  accesses; the acquire and release orders of the code are what this rests on.
  An event or a copy on the stream of a persistent kernel waits for that kernel, as CUDA documents; where a definition has this as an
  argument, the theorem says what happens in either case.

  \<^bold>\<open>Fuel and termination.\<close> \<open>shutdown_loop\<close> takes fuel, one unit per sentinel when there is room, and
  \<open>hw_worker_run_from\<close> a number of rounds linear in the queue; both theorems prove that this much is
  enough. The wait loop of main takes four device steps per completion. A wait of the bridge needs at
  most 35 cycles. Loops whose end depends on the device (\<open>dispatch_loop\<close>, \<open>drain_loop\<close>, \<open>window_loop\<close>,
  \<open>admit_loop\<close>, \<open>rollout_loop\<close>, \<open>flush_loop\<close>, \<open>comps_loop\<close>), and the loop of a lane in \<open>Prefetch\<close>, whose offset may wrap, are \<open>partial_function (option)\<close>; that they
  return is proved where it holds.

  \<^bold>\<open>Not modelled.\<close>
  Times and what is printed from them; floating-point rounding (float results are bit patterns or an
  abstract arithmetic); several SMs at once in the models of whole programs, which run the worker of one SM
  (the workers of several would share a single-consumer ring, and \<open>Gpu_Worker\<close> shows what that leads to);
  the splitting of the command line by \<open>getopt\<close>, whose results are arguments, and the command lines of
  \<^verbatim>\<open>bench_gpu_scheduler.cu\<close> and \<^verbatim>\<open>bench_cow_prefix.cu\<close>, whose numbers are arguments;
  \<^verbatim>\<open>bench/bench_kv_layout.cu\<close>, which prints the constants of \<open>Layout\<close>; functions that only call \<open>free\<close> or
  \<open>munmap\<close>; the code under \<^verbatim>\<open>#if 0\<close> in \<^verbatim>\<open>src/pipeline.c\<close>; the tests and the testbench of the RTL.
\<close>

end
